(* ===== verification/Prelude.thy ===== *)
theory Prelude
  imports Main "HOL-Library.Word" "HOL-Library.Multiset"
begin

unbundle bit_operations_syntax

text \<open>
  Shared vocabulary of the development: the fixed-width integer types of the code, the
  lemma collections that the component theories feed, and generic facts on lists that
  several components use (element loops, windows of circular buffers).
  On the target (ESP32, Xtensa) \<open>unsigned long\<close>, \<open>size_t\<close> and \<open>uint32_t\<close> are 32 bits wide.
\<close>

section \<open>Machine integers\<close>

type_synonym u8 = "8 word"
type_synonym u16 = "16 word"
type_synonym u32 = "32 word"

lemma unat_inc:
  assumes "unat (n :: 'a :: len word) < unat (t :: 'a word)"
  shows "unat (n + 1) = Suc (unat n)"
proof -
  have "Suc (unat n) \<le> unat t" using assms by simp
  also have "unat t < 2 ^ LENGTH('a)" by (rule unsigned_less)
  finally have *: "Suc (unat n) < 2 ^ LENGTH('a)" .
  have "unat (n + 1) = (unat n + unat (1 :: 'a word)) mod 2 ^ LENGTH('a)" by (rule unat_word_ariths(1))
  also have "\<dots> = Suc (unat n)" using * by simp
  finally show ?thesis .
qed

section \<open>Lemma collections\<close>

named_theorems arr_simps \<open>element-level equations of the contiguous arrays\<close>
named_theorems ring_simps \<open>window equations of circular buffers\<close>
named_theorems inv_intros \<open>preservation of the component invariants\<close>

section \<open>Lists as raw element storage\<close>

text \<open>A contiguous block copy inside one buffer: \<open>memmove(base + dst, base + src, n)\<close>,
  counted in elements.\<close>

definition memmove :: "'a list \<Rightarrow> nat \<Rightarrow> nat \<Rightarrow> nat \<Rightarrow> 'a list" where
  "memmove d dst src n = take dst d @ take n (drop src d) @ drop (dst + n) d"

lemma length_memmove [simp]:
  "dst + n \<le> length d \<Longrightarrow> src + n \<le> length d \<Longrightarrow> length (memmove d dst src n) = length d"
  by (simp add: memmove_def)

text \<open>A block copy from another buffer: \<open>memcpy(base + dst, xs, n)\<close>.\<close>

definition memcpy_to :: "'a list \<Rightarrow> nat \<Rightarrow> 'a list \<Rightarrow> 'a list" where
  "memcpy_to d dst xs = take dst d @ xs @ drop (dst + length xs) d"

lemma length_memcpy_to [simp]:
  "dst + length xs \<le> length d \<Longrightarrow> length (memcpy_to d dst xs) = length d"
  by (simp add: memcpy_to_def)

text \<open>The loop \<open>for (i = i0; i < n; i++) d[i] = d[i + k]\<close>.\<close>

function move_down :: "nat \<Rightarrow> nat \<Rightarrow> nat \<Rightarrow> 'a list \<Rightarrow> 'a list" where
  "move_down k i n d = (if i < n then move_down k (Suc i) n (d[i := d ! (i + k)]) else d)"
  by pat_completeness auto
termination by (relation "measure (\<lambda>(k, i, n, d). n - i)") auto

declare move_down.simps [simp del]

text \<open>The loop \<open>for (i = n; i > j; i--) d[i] = d[i - 1]\<close>.\<close>

fun move_up :: "nat \<Rightarrow> nat \<Rightarrow> 'a list \<Rightarrow> 'a list" where
  "move_up 0 j d = d"
| "move_up (Suc i) j d = (if j < Suc i then move_up i j (d[Suc i := d ! i]) else d)"

declare move_up.simps [simp del]

lemma length_move_down [simp]: "length (move_down k i n d) = length d"
proof (induction k i n d rule: move_down.induct)
  case (1 k i n d)
  then show ?case by (simp add: move_down.simps [of k i n d])
qed

lemma length_move_up [simp]: "length (move_up i j d) = length d"
  by (induction i j d rule: move_up.induct) (simp_all add: move_up.simps)

lemma nth_move_down:
  assumes "n + k \<le> length d" "0 < k" "j < length d"
  shows "move_down k i n d ! j = (if i \<le> j \<and> j < n then d ! (j + k) else d ! j)"
  using assms
proof (induction k i n d rule: move_down.induct)
  case (1 k i n d)
  show ?case
  proof (cases "i < n")
    case True
    with "1.prems" "1.IH" show ?thesis
      by (auto simp: move_down.simps [of k i n d] nth_list_update)
  next
    case False
    then show ?thesis by (auto simp: move_down.simps [of k i n d])
  qed
qed

lemma nth_move_up:
  assumes "i < length d" "m < length d"
  shows "move_up i j d ! m = (if j < m \<and> m \<le> i then d ! (m - 1) else d ! m)"
  using assms
  by (induction i j d rule: move_up.induct)
     (auto simp: move_up.simps nth_list_update less_Suc_eq le_Suc_eq)

lemma nth_memmove:
  assumes "dst + n \<le> length d" "src + n \<le> length d" "j < length d"
  shows "memmove d dst src n ! j = (if dst \<le> j \<and> j < dst + n then d ! (src + (j - dst)) else d ! j)"
proof -
  have [simp]: "length (take n (drop src d)) = n" "length (take dst d) = dst" using assms by auto
  have [simp]: "n + dst + (j - (dst + n)) = j" if "\<not> j < dst + n" using that by simp
  show ?thesis using assms
    by (cases "j < dst"; cases "j < dst + n") (auto simp: memmove_def nth_append)
qed

text \<open>The element loop of \<open>erase\<close> is a \<open>memmove\<close> of the tail.\<close>

lemma move_down_memmove [arr_simps]:
  assumes "i + c + k \<le> length d" "0 < k"
  shows "move_down k i (i + c) d = memmove d i (i + k) c"
  using assms by (intro nth_equalityI) (auto simp: nth_move_down nth_memmove add.commute)

lemma move_up_memmove [arr_simps]:
  assumes "j + c < length d"
  shows "move_up (j + c) j d = memmove d (Suc j) j c"
  using assms by (intro nth_equalityI) (auto simp: nth_move_up nth_memmove)

end
