(* ===== verification/Array_Base.thy ===== *)
theory Array_Base
  imports Prelude
begin

text \<open>
  The contiguous element storage shared by \<open>StaticArray\<close> and \<open>SmallVector\<close>
  (\<open>include/Optimization/ArrayBase.h\<close>, \<open>src/Optimization/ArrayBase.cpp\<close>).
  A slot of the raw storage is \<open>None\<close> while no object lives in it and \<open>Some x\<close> from the
  placement-new (or byte copy) to the destructor call; a read of \<open>None\<close> is a read of raw
  memory. Element types are described by the two type traits on which the code branches.
  Heap requests are answered by a Boolean argument \<open>ok\<close>: whether this \<open>malloc\<close> succeeds.
\<close>

section \<open>State\<close>

record 'a arr =
  arr_data :: "'a option list"
  arr_size :: nat
  arr_capacity :: nat
  arr_is_heap :: bool
  arr_fixed :: bool

text \<open>\<open>std::is_trivially_copyable\<close> and \<open>std::is_trivially_destructible\<close> of the element type.\<close>

record elem_traits =
  triv_copy :: bool
  triv_destroy :: bool

definition ArrayBase :: "nat \<Rightarrow> bool \<Rightarrow> 'a arr" where
  "ArrayBase cap fixed =
     \<lparr>arr_data = replicate cap None, arr_size = 0, arr_capacity = cap,
      arr_is_heap = False, arr_fixed = fixed\<rparr>"

section \<open>Type-erased memory operations\<close>

definition mallocForGrow :: "bool \<Rightarrow> nat \<Rightarrow> 'a arr \<Rightarrow> 'a option list option" where
  "mallocForGrow ok new_cap a =
     (if arr_fixed a then None else if ok then Some (replicate new_cap None) else None)"

definition reserve_pod :: "bool \<Rightarrow> nat \<Rightarrow> 'a arr \<Rightarrow> 'a arr" where
  "reserve_pod ok new_cap a =
     (if arr_fixed a \<or> new_cap \<le> arr_capacity a then a
      else if arr_is_heap a then
        (if \<not> ok then a
         else a\<lparr>arr_data := arr_data a @ replicate (new_cap - arr_capacity a) None,
                arr_capacity := new_cap\<rparr>)
      else
        (if \<not> ok then a
         else let new_data = replicate new_cap None;
                  new_data = (if 0 < arr_size a
                              then memcpy_to new_data 0 (take (arr_size a) (arr_data a))
                              else new_data)
              in a\<lparr>arr_data := new_data, arr_capacity := new_cap, arr_is_heap := True\<rparr>))"

definition erase_pod :: "nat \<Rightarrow> 'a arr \<Rightarrow> 'a arr" where
  "erase_pod index a =
     (if arr_size a \<le> index then a
      else let d = (if index < arr_size a - 1
                    then memmove (arr_data a) index (index + 1) (arr_size a - index - 1)
                    else arr_data a)
           in a\<lparr>arr_data := d, arr_size := arr_size a - 1\<rparr>)"

definition erase_pod_range :: "nat \<Rightarrow> nat \<Rightarrow> 'a arr \<Rightarrow> 'a arr" where
  "erase_pod_range start_idx end_idx a =
     (let count = end_idx - start_idx;
          d = (if end_idx < arr_size a
               then memmove (arr_data a) start_idx end_idx (arr_size a - end_idx)
               else arr_data a)
      in a\<lparr>arr_data := d, arr_size := arr_size a - count\<rparr>)"

definition insert_pod :: "bool \<Rightarrow> nat \<Rightarrow> 'a \<Rightarrow> 'a arr \<Rightarrow> bool \<times> 'a arr" where
  "insert_pod ok index value a =
     (let grow = arr_capacity a \<le> arr_size a;
          a1 = (if grow \<and> \<not> arr_fixed a then reserve_pod ok (arr_capacity a * 2) a else a)
      in if grow \<and> arr_fixed a then (False, a)
         else if arr_capacity a1 \<le> arr_size a1 then (False, a1)
         else let d = memmove (arr_data a1) (index + 1) index (arr_size a1 - index)
              in (True, a1\<lparr>arr_data := d[index := Some value], arr_size := arr_size a1 + 1\<rparr>))"

text \<open>The explicit destructor calls \<open>data()[i].~T()\<close> for \<open>i\<close> from \<open>lo\<close> to \<open>hi - 1\<close>.\<close>

definition destroy_slots :: "elem_traits \<Rightarrow> nat \<Rightarrow> nat \<Rightarrow> 'a option list \<Rightarrow> 'a option list" where
  "destroy_slots tr lo hi d =
     (if triv_destroy tr then d else fold (\<lambda>i d. d[i := None]) [lo..<hi] d)"

section \<open>Representation invariant\<close>

text \<open>C++ requires a trivial destructor of a trivially copyable type.\<close>

definition traits_ok :: "elem_traits \<Rightarrow> bool" where
  "traits_ok tr \<longleftrightarrow> (triv_copy tr \<longrightarrow> triv_destroy tr)"

text \<open>
  \<open>arr_rep tr a xs\<close>: the array holds exactly the elements \<open>xs\<close>, in order, in its first
  slots. For an element type with a destructor no object is alive behind them, so every
  constructed element has been destroyed exactly when it left the array.
\<close>

definition arr_rep :: "elem_traits \<Rightarrow> 'a arr \<Rightarrow> 'a list \<Rightarrow> bool" where
  "arr_rep tr a xs \<longleftrightarrow>
     (\<exists>rest. arr_data a = map Some xs @ rest \<and> arr_size a = length xs \<and>
             arr_capacity a = length xs + length rest \<and>
             (\<not> triv_destroy tr \<longrightarrow> set rest \<subseteq> {None}))"

text \<open>The element sequence of an array.\<close>

definition contents :: "'a arr \<Rightarrow> 'a list" where
  "contents a = map the (take (arr_size a) (arr_data a))"

lemma arr_repI:
  assumes "arr_data a = map Some xs @ rest" "arr_size a = length xs"
    "arr_capacity a = length xs + length rest" "\<not> triv_destroy tr \<Longrightarrow> set rest \<subseteq> {None}"
  shows "arr_rep tr a xs"
  using assms unfolding arr_rep_def by blast

lemma arr_repE:
  assumes "arr_rep tr a xs"
  obtains rest where "arr_data a = map Some xs @ rest" "arr_size a = length xs"
    "arr_capacity a = length xs + length rest" "\<not> triv_destroy tr \<longrightarrow> set rest \<subseteq> {None}"
  using assms unfolding arr_rep_def by blast

lemma arr_rep_size: "arr_rep tr a xs \<Longrightarrow> arr_size a = length xs"
  by (auto elim: arr_repE)

lemma arr_rep_le_capacity: "arr_rep tr a xs \<Longrightarrow> length xs \<le> arr_capacity a"
  by (auto elim: arr_repE)

lemma arr_rep_contents: "arr_rep tr a xs \<Longrightarrow> contents a = xs"
  by (auto simp: contents_def comp_def elim!: arr_repE)

lemma arr_rep_nth: "arr_rep tr a xs \<Longrightarrow> i < length xs \<Longrightarrow> arr_data a ! i = Some (xs ! i)"
  by (auto simp: nth_append elim!: arr_repE)

lemma arr_rep_ArrayBase [simp]: "arr_rep tr (ArrayBase cap fixed) []"
  by (rule arr_repI [where rest = "replicate cap None"]) (auto simp: ArrayBase_def)

section \<open>Block equations on the raw storage\<close>

lemma fold_kill:
  "length ys = m \<Longrightarrow> length zs = k \<Longrightarrow>
   fold (\<lambda>i d. d[i := None]) [m..<m + k] (ys @ zs @ rest) = ys @ replicate k None @ rest"
proof (induction k arbitrary: zs rest)
  case 0
  then show ?case by simp
next
  case (Suc k)
  then obtain us u where zs: "zs = us @ [u]" "length us = k"
    by (metis append_butlast_last_id length_butlast diff_Suc_1 length_0_conv nat.distinct(1))
  with Suc.IH [of us "u # rest"] Suc.prems(1) show ?case
    by (simp add: list_update_append replicate_append_same)
qed

lemma destroy_tail [arr_simps]:
  "length ys = m \<Longrightarrow> length zs = k \<Longrightarrow>
   destroy_slots tr m (m + k) (ys @ zs @ rest) =
     ys @ (if triv_destroy tr then zs else replicate k None) @ rest"
  by (simp add: destroy_slots_def fold_kill)

lemma block_delete [arr_simps]:
  assumes "i + k \<le> length xs"
  shows "memmove (map Some xs @ rest) i (i + k) (length xs - (i + k)) =
         map Some (take i xs @ drop (i + k) xs) @ map Some (drop (length xs - k) xs) @ rest"
  using assms
  by (simp add: memmove_def min_def take_map [symmetric] drop_map [symmetric])

lemma block_insert [arr_simps]:
  assumes "i \<le> length xs" "rest \<noteq> []"
  shows "(memmove (map Some xs @ rest) (Suc i) i (length xs - i))[i := Some v] =
         map Some (take i xs @ [v] @ drop i xs) @ tl rest"
proof -
  from assms(2) obtain r rs where rest: "rest = r # rs" by (cases rest) auto
  have take1: "take (Suc i) (map Some xs @ rest) = map Some (take i xs) @ [(map Some xs @ rest) ! i]"
    using assms rest by (subst take_Suc_conv_app_nth) (auto simp: take_map)
  have upd: "(take (Suc i) (map Some xs @ rest))[i := Some v] = map Some (take i xs) @ [Some v]"
    using assms(1) by (simp only: take1) (simp add: list_update_append min_def)
  have len: "i < length (take (Suc i) (map Some xs @ rest))" using assms rest by simp
  have "(memmove (map Some xs @ rest) (Suc i) i (length xs - i))[i := Some v] =
        (take (Suc i) (map Some xs @ rest))[i := Some v] @
        take (length xs - i) (drop i (map Some xs @ rest)) @
        drop (Suc i + (length xs - i)) (map Some xs @ rest)"
    unfolding memmove_def by (rule list_update_append1 [OF len])
  also have "\<dots> = map Some (take i xs @ [v] @ drop i xs) @ tl rest"
    unfolding upd using assms(1) rest by (simp add: drop_map)
  finally show ?thesis .
qed

end
