(* ===== verification/Static_Array.thy ===== *)
theory Static_Array
  imports Array_Base
begin

text \<open>
  \<open>StaticArray<T, MaxSize>\<close> (\<open>include/Optimization/StaticArray/\<close>): a vector of at most
  \<open>MaxSize\<close> elements in inline storage. Iterators are offsets from \<open>begin()\<close> (an \<open>int\<close>, because
  the code accepts and rejects pointers before the buffer). Sizes are natural numbers: the
  16-bit \<open>size_type\<close> is exact for \<open>MaxSize < 65536\<close>. The theorems state that each operation
  is the list operation it stands for, on both branches of the type-trait dispatch, and that
  no element object is leaked or destroyed twice.
\<close>

section \<open>Operations\<close>

definition StaticArray :: "nat \<Rightarrow> 'a arr" where
  "StaticArray MaxSize = ArrayBase MaxSize True"

definition sa_size :: "'a arr \<Rightarrow> nat" where "sa_size a = arr_size a"
definition sa_empty :: "'a arr \<Rightarrow> bool" where "sa_empty a \<longleftrightarrow> arr_size a = 0"
definition sa_full :: "'a arr \<Rightarrow> bool" where "sa_full a \<longleftrightarrow> arr_size a = arr_capacity a"

text \<open>\<open>data()[idx]\<close>: \<open>None\<close> is a read of raw memory or beyond the buffer.\<close>

definition sa_index :: "'a arr \<Rightarrow> nat \<Rightarrow> 'a option" where
  "sa_index a idx = (if idx < arr_capacity a then arr_data a ! idx else None)"

definition sa_at :: "'a arr \<Rightarrow> nat \<Rightarrow> 'a option" where
  "sa_at a idx = (if idx < arr_size a then sa_index a idx else sa_index a 0)"

definition sa_front :: "'a arr \<Rightarrow> 'a option" where "sa_front a = sa_index a 0"

definition sa_back :: "'a arr \<Rightarrow> 'a option" where
  "sa_back a = (if arr_size a = 0 then None else sa_index a (arr_size a - 1))"

fun find_from :: "'a \<Rightarrow> 'a option list \<Rightarrow> nat" where
  "find_from v [] = 0"
| "find_from v (d # ds) = (if d = Some v then 0 else Suc (find_from v ds))"

definition sa_find :: "'a \<Rightarrow> 'a arr \<Rightarrow> nat" where
  "sa_find v a = find_from v (take (arr_size a) (arr_data a))"

definition sa_push_back :: "'a \<Rightarrow> 'a arr \<Rightarrow> bool \<times> 'a arr" where
  "sa_push_back v a =
     (if sa_full a then (False, a)
      else (True, a\<lparr>arr_data := (arr_data a)[arr_size a := Some v], arr_size := arr_size a + 1\<rparr>))"

definition sa_pop_back :: "elem_traits \<Rightarrow> 'a arr \<Rightarrow> 'a arr" where
  "sa_pop_back tr a =
     (if 0 < arr_size a
      then a\<lparr>arr_size := arr_size a - 1,
             arr_data := destroy_slots tr (arr_size a - 1) (arr_size a) (arr_data a)\<rparr>
      else a)"

definition sa_clear :: "elem_traits \<Rightarrow> 'a arr \<Rightarrow> 'a arr" where
  "sa_clear tr a = a\<lparr>arr_data := destroy_slots tr 0 (arr_size a) (arr_data a), arr_size := 0\<rparr>"

definition sa_insert :: "elem_traits \<Rightarrow> int \<Rightarrow> 'a \<Rightarrow> 'a arr \<Rightarrow> nat \<times> 'a arr" where
  "sa_insert tr pos v a =
     (if sa_full a then (arr_size a, a)
      else if pos < 0 \<or> int (arr_size a) < pos then (arr_size a, a)
      else let idx = nat pos in
        if triv_copy tr then (idx, snd (insert_pod False idx v a))
        else if idx = arr_size a
        then (idx, a\<lparr>arr_data := (arr_data a)[arr_size a := Some v], arr_size := arr_size a + 1\<rparr>)
        else let d = (arr_data a)[arr_size a := arr_data a ! (arr_size a - 1)];
                 d = move_up (arr_size a - 1) idx d;
                 d = d[idx := Some v]
             in (idx, a\<lparr>arr_data := d, arr_size := arr_size a + 1\<rparr>))"

definition sa_erase :: "elem_traits \<Rightarrow> nat \<Rightarrow> 'a arr \<Rightarrow> 'a arr" where
  "sa_erase tr idx a =
     (if triv_copy tr then erase_pod idx a
      else if arr_size a \<le> idx then a
      else let d = move_down 1 idx (arr_size a - 1) (arr_data a)
           in a\<lparr>arr_data := destroy_slots tr (arr_size a - 1) (arr_size a) d,
                arr_size := arr_size a - 1\<rparr>)"

definition sa_erase_it :: "elem_traits \<Rightarrow> int \<Rightarrow> 'a arr \<Rightarrow> nat \<times> 'a arr" where
  "sa_erase_it tr it a =
     (if it < 0 \<or> int (arr_size a) \<le> it then (arr_size a, a)
      else (nat it, sa_erase tr (nat it) a))"

definition sa_erase_range :: "elem_traits \<Rightarrow> int \<Rightarrow> int \<Rightarrow> 'a arr \<Rightarrow> int \<times> 'a arr" where
  "sa_erase_range tr it1 it2 a =
     (if it2 \<le> it1 \<or> it1 < 0 \<or> int (arr_size a) < it2 then (it1, a)
      else let start_idx = nat it1; end_idx = nat it2; count = end_idx - start_idx in
        (int start_idx,
         if triv_copy tr then erase_pod_range start_idx end_idx a
         else let d = move_down count start_idx (arr_size a - count) (arr_data a)
              in a\<lparr>arr_data := destroy_slots tr (arr_size a - count) (arr_size a) d,
                   arr_size := arr_size a - count\<rparr>))"

definition sa_remove :: "elem_traits \<Rightarrow> 'a \<Rightarrow> 'a arr \<Rightarrow> bool \<times> 'a arr" where
  "sa_remove tr v a =
     (let it = sa_find v a
      in if it \<noteq> arr_size a then (True, snd (sa_erase_it tr (int it) a)) else (False, a))"

text \<open>The compaction loop of \<open>remove_all\<close>: \<open>n - read_idx\<close> iterations are left.\<close>

fun remove_all_loop ::
  "'a \<Rightarrow> nat \<Rightarrow> nat \<Rightarrow> nat \<Rightarrow> nat \<Rightarrow> 'a option list \<Rightarrow> nat \<times> nat \<times> 'a option list" where
  "remove_all_loop v 0 read_idx write_idx removed d = (removed, write_idx, d)"
| "remove_all_loop v (Suc left) read_idx write_idx removed d =
     (if d ! read_idx = Some v
      then remove_all_loop v left (read_idx + 1) write_idx (removed + 1) d
      else remove_all_loop v left (read_idx + 1) (write_idx + 1) removed
             (if write_idx \<noteq> read_idx then d[write_idx := d ! read_idx] else d))"

definition sa_remove_all :: "elem_traits \<Rightarrow> 'a \<Rightarrow> 'a arr \<Rightarrow> nat \<times> 'a arr" where
  "sa_remove_all tr v a =
     (let (removed, write_idx, d) = remove_all_loop v (arr_size a) 0 0 0 (arr_data a)
      in (removed, a\<lparr>arr_data := destroy_slots tr write_idx (arr_size a) d,
                     arr_size := write_idx\<rparr>))"

section \<open>Accessors read the element sequence\<close>

lemma sa_full_rep: "arr_rep tr a xs \<Longrightarrow> sa_full a \<longleftrightarrow> length xs = arr_capacity a"
  by (simp add: sa_full_def arr_rep_size)

lemma sa_index_rep:
  "arr_rep tr a xs \<Longrightarrow> i < length xs \<Longrightarrow> sa_index a i = Some (xs ! i)"
  by (auto simp: sa_index_def nth_append elim!: arr_repE)

lemma sa_at_rep:
  "arr_rep tr a xs \<Longrightarrow> xs \<noteq> [] \<Longrightarrow> sa_at a i = Some (if i < length xs then xs ! i else hd xs)"
  by (auto simp: sa_at_def sa_index_rep arr_rep_size hd_conv_nth)

lemma sa_back_rep: "arr_rep tr a xs \<Longrightarrow> xs \<noteq> [] \<Longrightarrow> sa_back a = Some (last xs)"
  by (auto simp: sa_back_def sa_index_rep arr_rep_size last_conv_nth)

lemma find_from_map: "find_from v (map Some xs) = length (takeWhile (\<lambda>x. x \<noteq> v) xs)"
  by (induction xs) auto

lemma sa_find_rep: "arr_rep tr a xs \<Longrightarrow> sa_find v a = length (takeWhile (\<lambda>x. x \<noteq> v) xs)"
  by (auto simp: sa_find_def find_from_map elim!: arr_repE)

section \<open>Modifiers\<close>

lemma sa_push_back_rep:
  assumes "arr_rep tr a xs"
  shows "if length xs < arr_capacity a
         then fst (sa_push_back v a) \<and> arr_rep tr (snd (sa_push_back v a)) (xs @ [v])
         else sa_push_back v a = (False, a)"
proof -
  from assms obtain rest where r: "arr_data a = map Some xs @ rest" "arr_size a = length xs"
    "arr_capacity a = length xs + length rest" "\<not> triv_destroy tr \<longrightarrow> set rest \<subseteq> {None}"
    by (rule arr_repE)
  show ?thesis
  proof (cases rest)
    case Nil
    with r show ?thesis by (simp add: sa_push_back_def sa_full_def)
  next
    case (Cons y ys)
    with r show ?thesis
      by (auto simp: sa_push_back_def sa_full_def list_update_append intro!: arr_repI [where rest = ys])
  qed
qed

lemma sa_pop_back_rep:
  assumes "arr_rep tr a xs"
  shows "arr_rep tr (sa_pop_back tr a) (butlast xs)"
proof (cases xs rule: rev_cases)
  case Nil
  with assms show ?thesis by (simp add: sa_pop_back_def arr_rep_size)
next
  case (snoc ys y)
  from assms obtain rest where r: "arr_data a = map Some ys @ [Some y] @ rest"
    "arr_size a = Suc (length ys)" "arr_capacity a = Suc (length ys) + length rest"
    "\<not> triv_destroy tr \<longrightarrow> set rest \<subseteq> {None}"
    by (auto simp: snoc elim!: arr_repE)
  have "destroy_slots tr (length ys) (Suc (length ys)) (arr_data a) =
        map Some ys @ (if triv_destroy tr then [Some y] else [None]) @ rest"
    unfolding r(1) using destroy_tail [of "map Some ys" "length ys" "[Some y]" 1 tr rest] by simp
  with r show ?thesis
    by (auto simp: sa_pop_back_def snoc
          intro!: arr_repI [where rest = "(if triv_destroy tr then [Some y] else [None]) @ rest"])
qed

lemma sa_clear_rep:
  assumes "arr_rep tr a xs"
  shows "arr_rep tr (sa_clear tr a) []"
proof -
  from assms obtain rest where r: "arr_data a = map Some xs @ rest" "arr_size a = length xs"
    "arr_capacity a = length xs + length rest" "\<not> triv_destroy tr \<longrightarrow> set rest \<subseteq> {None}"
    by (rule arr_repE)
  have "destroy_slots tr 0 (length xs) (arr_data a) =
        (if triv_destroy tr then map Some xs else replicate (length xs) None) @ rest"
    unfolding r(1) using destroy_tail [of "[]" 0 "map Some xs" "length xs" tr rest] by simp
  with r show ?thesis
    by (auto simp: sa_clear_def
        intro!: arr_repI [where rest = "(if triv_destroy tr then map Some xs
                                         else replicate (length xs) None) @ rest"])
qed

text \<open>Both branches of \<open>insert\<close> (one \<open>memmove\<close>, or the element-by-element shift) write the same buffer.\<close>

lemma shift_is_memmove:
  assumes "idx < n" "n < length d"
  shows "(move_up (n - 1) idx (d[n := d ! (n - 1)]))[idx := v] =
         (memmove d (Suc idx) idx (n - idx))[idx := v]"
  using assms
  by (intro nth_equalityI)
     (auto simp: nth_list_update nth_move_up nth_memmove)

lemma sa_insert_branches:
  assumes "\<not> sa_full a" "length (arr_data a) = arr_capacity a" "arr_size a \<le> arr_capacity a"
    "idx \<le> arr_size a"
  shows "snd (sa_insert tr (int idx) v a) =
         a\<lparr>arr_data := (memmove (arr_data a) (Suc idx) idx (arr_size a - idx))[idx := Some v],
           arr_size := arr_size a + 1\<rparr>"
proof (cases "idx = arr_size a")
  case True
  with assms show ?thesis
    by (simp add: sa_insert_def insert_pod_def sa_full_def memmove_def Let_def)
next
  case False
  with assms have "idx < arr_size a" "arr_size a < length (arr_data a)" by (auto simp: sa_full_def)
  from shift_is_memmove [OF this, of "Some v"] assms False show ?thesis
    by (auto simp: sa_insert_def insert_pod_def sa_full_def Let_def)
qed

lemma sa_insert_rep:
  assumes "arr_rep tr a xs" "length xs < arr_capacity a" "i \<le> length xs"
  shows "fst (sa_insert tr (int i) v a) = i"
    and "arr_rep tr (snd (sa_insert tr (int i) v a)) (take i xs @ [v] @ drop i xs)"
proof -
  from assms(1) obtain rest where r: "arr_data a = map Some xs @ rest" "arr_size a = length xs"
    "arr_capacity a = length xs + length rest" "\<not> triv_destroy tr \<longrightarrow> set rest \<subseteq> {None}"
    by (rule arr_repE)
  show "fst (sa_insert tr (int i) v a) = i"
    using assms(2,3) r by (auto simp: sa_insert_def sa_full_def Let_def)
  from assms(2) r have ne: "rest \<noteq> []" by auto
  have "snd (sa_insert tr (int i) v a) =
        a\<lparr>arr_data := map Some (take i xs @ [v] @ drop i xs) @ tl rest, arr_size := length xs + 1\<rparr>"
    using assms(2,3) r ne block_insert [OF assms(3) ne]
    by (subst sa_insert_branches) (auto simp: sa_full_def)
  then show "arr_rep tr (snd (sa_insert tr (int i) v a)) (take i xs @ [v] @ drop i xs)"
    using r assms(3) ne
    by (auto intro!: arr_repI [where rest = "tl rest"] dest: list.set_sel(2))
qed

text \<open>Both branches of \<open>erase\<close> delete the same block.\<close>

lemma sa_erase_branches:
  assumes "length (arr_data a) = arr_capacity a" "arr_size a \<le> arr_capacity a" "idx < arr_size a"
    "traits_ok tr"
  shows "sa_erase tr idx a =
         a\<lparr>arr_data := destroy_slots tr (arr_size a - 1) (arr_size a)
                         (memmove (arr_data a) idx (Suc idx) (arr_size a - Suc idx)),
           arr_size := arr_size a - 1\<rparr>"
proof -
  have "move_down 1 idx (idx + (arr_size a - Suc idx)) (arr_data a) =
        memmove (arr_data a) idx (idx + 1) (arr_size a - Suc idx)"
    using assms by (intro move_down_memmove) auto
  moreover have "memmove (arr_data a) idx (Suc idx) 0 = arr_data a" by (simp add: memmove_def)
  ultimately show ?thesis
    using assms by (auto simp: sa_erase_def erase_pod_def traits_ok_def destroy_slots_def Let_def)
qed

lemma sa_erase_range_branches:
  assumes "length (arr_data a) = arr_capacity a" "arr_size a \<le> arr_capacity a"
    "s < e" "e \<le> arr_size a" "traits_ok tr"
  shows "snd (sa_erase_range tr (int s) (int e) a) =
         a\<lparr>arr_data := destroy_slots tr (arr_size a - (e - s)) (arr_size a)
                         (memmove (arr_data a) s e (arr_size a - e)),
           arr_size := arr_size a - (e - s)\<rparr>"
proof -
  have "move_down (e - s) s (s + (arr_size a - e)) (arr_data a) =
        memmove (arr_data a) s (s + (e - s)) (arr_size a - e)"
    using assms by (intro move_down_memmove) auto
  moreover have "memmove (arr_data a) s e 0 = arr_data a" by (simp add: memmove_def)
  moreover have "s + (arr_size a - e) = arr_size a - (e - s)" using assms by simp
  ultimately show ?thesis
    using assms
    by (auto simp: sa_erase_range_def erase_pod_range_def traits_ok_def destroy_slots_def Let_def)
qed

lemma delete_block_rep:
  assumes "arr_rep tr a xs" "i + k \<le> length xs"
  shows "arr_rep tr (a\<lparr>arr_data := destroy_slots tr (length xs - k) (length xs)
                         (memmove (arr_data a) i (i + k) (length xs - (i + k))),
                       arr_size := length xs - k\<rparr>) (take i xs @ drop (i + k) xs)"
proof -
  from assms(1) obtain rest where r: "arr_data a = map Some xs @ rest" "arr_size a = length xs"
    "arr_capacity a = length xs + length rest" "\<not> triv_destroy tr \<longrightarrow> set rest \<subseteq> {None}"
    by (rule arr_repE)
  let ?ys = "take i xs @ drop (i + k) xs" and ?zs = "map Some (drop (length xs - k) xs)"
  have "destroy_slots tr (length xs - k) (length xs) (map Some ?ys @ ?zs @ rest) =
        map Some ?ys @ (if triv_destroy tr then ?zs else replicate k None) @ rest"
    using destroy_tail [of "map Some ?ys" "length xs - k" ?zs k tr rest] assms(2) by simp
  with r assms(2) show ?thesis
    by (auto simp: block_delete
          intro!: arr_repI [where rest = "(if triv_destroy tr then ?zs else replicate k None) @ rest"])
qed

lemma sa_erase_rep:
  assumes "arr_rep tr a xs" "i < length xs" "traits_ok tr"
  shows "arr_rep tr (sa_erase tr i a) (take i xs @ drop (Suc i) xs)"
proof -
  have "length (arr_data a) = arr_capacity a" "arr_size a \<le> arr_capacity a"
    using assms(1) by (auto elim!: arr_repE)
  with sa_erase_branches [OF this, of i tr] delete_block_rep [OF assms(1), of i 1] assms
  show ?thesis by (simp add: arr_rep_size)
qed

lemma sa_erase_out: "arr_rep tr a xs \<Longrightarrow> length xs \<le> i \<Longrightarrow> sa_erase tr i a = a"
  by (simp add: sa_erase_def erase_pod_def arr_rep_size)

lemma sa_erase_range_rep:
  assumes "arr_rep tr a xs" "s < e" "e \<le> length xs" "traits_ok tr"
  shows "arr_rep tr (snd (sa_erase_range tr (int s) (int e) a)) (take s xs @ drop e xs)"
proof -
  have "length (arr_data a) = arr_capacity a" "arr_size a \<le> arr_capacity a"
    using assms(1) by (auto elim!: arr_repE)
  with sa_erase_range_branches [OF this, of s e tr] delete_block_rep [OF assms(1), of s "e - s"] assms
  show ?thesis by (simp add: arr_rep_size)
qed

text \<open>\<open>remove\<close> deletes the first occurrence.\<close>

lemma takeWhile_remove1:
  "v \<in> set xs \<Longrightarrow>
   take (length (takeWhile (\<lambda>x. x \<noteq> v) xs)) xs @ drop (Suc (length (takeWhile (\<lambda>x. x \<noteq> v) xs))) xs =
   remove1 v xs"
  by (induction xs) auto

lemma takeWhile_absent: "length (takeWhile (\<lambda>x. x \<noteq> v) xs) = length xs \<longleftrightarrow> v \<notin> set xs"
  by (induction xs) auto

lemma sa_remove_rep:
  assumes "arr_rep tr a xs" "traits_ok tr"
  shows "fst (sa_remove tr v a) \<longleftrightarrow> v \<in> set xs"
    and "arr_rep tr (snd (sa_remove tr v a)) (remove1 v xs)"
proof -
  let ?i = "length (takeWhile (\<lambda>x. x \<noteq> v) xs)"
  have le: "?i \<le> length xs" by (rule length_takeWhile_le)
  show "fst (sa_remove tr v a) \<longleftrightarrow> v \<in> set xs"
    using assms by (auto simp: sa_remove_def sa_find_rep arr_rep_size takeWhile_absent)
  show "arr_rep tr (snd (sa_remove tr v a)) (remove1 v xs)"
  proof (cases "v \<in> set xs")
    case True
    with le takeWhile_absent [of v xs] have lt: "?i < length xs" by linarith
    from sa_erase_rep [OF assms(1) lt assms(2)] lt True assms(1) show ?thesis
      by (simp add: sa_remove_def sa_find_rep arr_rep_size sa_erase_it_def takeWhile_remove1 Let_def)
  next
    case False
    then have "?i = length xs" by (simp only: takeWhile_absent not_False_eq_True)
    with False assms(1) show ?thesis
      by (simp add: sa_remove_def sa_find_rep arr_rep_size remove1_idem Let_def)
  qed
qed

text \<open>The compaction loop keeps the survivors in order.\<close>

lemma remove_all_loop_filter:
  assumes "d = map Some ys @ junk @ map Some xs @ rest" "length ys = w" "r = w + length junk"
  shows "\<exists>junk'. remove_all_loop v (length xs) r w k d =
           (k + length (filter (\<lambda>x. x = v) xs), w + length (filter (\<lambda>x. x \<noteq> v) xs),
            map Some (ys @ filter (\<lambda>x. x \<noteq> v) xs) @ junk' @ rest) \<and>
           length junk' = length junk + length (filter (\<lambda>x. x = v) xs)"
  using assms
proof (induction xs arbitrary: d ys junk w r k)
  case Nil
  then show ?case by auto
next
  case (Cons x xs)
  have nth: "d ! r = Some x" using Cons.prems by (simp add: nth_append)
  show ?case
  proof (cases "x = v")
    case True
    with Cons.IH [of d ys "junk @ [Some x]" w "Suc r" "Suc k"] Cons.prems nth show ?thesis by simp
  next
    case False
    define d' where "d' = (if w \<noteq> r then d[w := d ! r] else d)"
    have step: "remove_all_loop v (length (x # xs)) r w k d =
                remove_all_loop v (length xs) (Suc r) (Suc w) k d'"
      using nth False by (simp add: d'_def)
    have "\<exists>j. d' = map Some (ys @ [x]) @ j @ map Some xs @ rest \<and> length j = length junk"
    proof (cases junk)
      case Nil
      with Cons.prems show ?thesis by (simp add: d'_def)
    next
      case (Cons j js)
      with Cons.prems nth show ?thesis
        by (intro exI [of _ "js @ [Some x]"]) (simp add: d'_def list_update_append)
    qed
    then obtain j where j: "d' = map Some (ys @ [x]) @ j @ map Some xs @ rest"
      "length j = length junk" by blast
    from Cons.prems j(2) have "length (ys @ [x]) = Suc w" "Suc r = Suc w + length j" by simp_all
    from Cons.IH [OF j(1) this, of k] obtain junk' where
      "remove_all_loop v (length xs) (Suc r) (Suc w) k d' =
         (k + length (filter (\<lambda>x. x = v) xs), Suc w + length (filter (\<lambda>x. x \<noteq> v) xs),
          map Some ((ys @ [x]) @ filter (\<lambda>x. x \<noteq> v) xs) @ junk' @ rest)"
      "length junk' = length j + length (filter (\<lambda>x. x = v) xs)" by blast
    with False j(2) show ?thesis unfolding step by (intro exI [of _ junk']) simp
  qed
qed

lemma sa_remove_all_rep:
  assumes "arr_rep tr a xs"
  shows "fst (sa_remove_all tr v a) = length (filter (\<lambda>x. x = v) xs)"
    and "arr_rep tr (snd (sa_remove_all tr v a)) (filter (\<lambda>x. x \<noteq> v) xs)"
proof -
  let ?k = "length (filter (\<lambda>x. x = v) xs)" and ?ys = "filter (\<lambda>x. x \<noteq> v) xs"
  from assms obtain rest where r: "arr_data a = map Some xs @ rest" "arr_size a = length xs"
    "arr_capacity a = length xs + length rest" "\<not> triv_destroy tr \<longrightarrow> set rest \<subseteq> {None}"
    by (rule arr_repE)
  from remove_all_loop_filter [of "arr_data a" "[]" "[]" xs rest 0 0 v 0] r(1)
  obtain junk where loop: "remove_all_loop v (length xs) 0 0 0 (arr_data a) =
      (?k, length ?ys, map Some ?ys @ junk @ rest)" "length junk = ?k"
    by auto
  have len: "length xs = length ?ys + ?k"
    using sum_length_filter_compl [of "\<lambda>x. x = v" xs] by simp
  have "destroy_slots tr (length ?ys) (length xs) (map Some ?ys @ junk @ rest) =
        map Some ?ys @ (if triv_destroy tr then junk else replicate ?k None) @ rest"
    unfolding len by (rule destroy_tail) (simp_all add: loop(2))
  with r loop len
  show "fst (sa_remove_all tr v a) = ?k" "arr_rep tr (snd (sa_remove_all tr v a)) ?ys"
    by (auto simp: sa_remove_all_def
          intro!: arr_repI [where rest = "(if triv_destroy tr then junk else replicate ?k None) @ rest"])
qed

section \<open>Any sequence of operations\<close>

datatype 'a sa_op =
    PushBack 'a | PopBack | Clear | Insert int 'a | EraseAt nat | EraseIt int | EraseRange int int
  | Remove 'a | RemoveAll 'a

fun sa_exec :: "elem_traits \<Rightarrow> 'a sa_op \<Rightarrow> 'a arr \<Rightarrow> 'a arr" where
  "sa_exec tr (PushBack v) a = snd (sa_push_back v a)"
| "sa_exec tr PopBack a = sa_pop_back tr a"
| "sa_exec tr Clear a = sa_clear tr a"
| "sa_exec tr (Insert pos v) a = snd (sa_insert tr pos v a)"
| "sa_exec tr (EraseAt i) a = sa_erase tr i a"
| "sa_exec tr (EraseIt pos) a = snd (sa_erase_it tr pos a)"
| "sa_exec tr (EraseRange s e) a = snd (sa_erase_range tr s e a)"
| "sa_exec tr (Remove v) a = snd (sa_remove tr v a)"
| "sa_exec tr (RemoveAll v) a = snd (sa_remove_all tr v a)"

text \<open>The same operations on lists of at most \<open>c\<close> elements; invalid positions change nothing.\<close>

fun list_exec :: "nat \<Rightarrow> 'a sa_op \<Rightarrow> 'a list \<Rightarrow> 'a list" where
  "list_exec c (PushBack v) xs = (if length xs < c then xs @ [v] else xs)"
| "list_exec c PopBack xs = butlast xs"
| "list_exec c Clear xs = []"
| "list_exec c (Insert pos v) xs =
     (if length xs < c \<and> 0 \<le> pos \<and> pos \<le> int (length xs)
      then take (nat pos) xs @ [v] @ drop (nat pos) xs else xs)"
| "list_exec c (EraseAt i) xs = (if i < length xs then take i xs @ drop (Suc i) xs else xs)"
| "list_exec c (EraseIt pos) xs =
     (if 0 \<le> pos \<and> pos < int (length xs) then take (nat pos) xs @ drop (Suc (nat pos)) xs else xs)"
| "list_exec c (EraseRange s e) xs =
     (if 0 \<le> s \<and> s < e \<and> e \<le> int (length xs) then take (nat s) xs @ drop (nat e) xs else xs)"
| "list_exec c (Remove v) xs = remove1 v xs"
| "list_exec c (RemoveAll v) xs = filter (\<lambda>x. x \<noteq> v) xs"

lemma sa_exec_capacity: "arr_capacity (sa_exec tr op a) = arr_capacity a \<and> arr_fixed (sa_exec tr op a) = arr_fixed a"
  by (cases op)
     (auto simp: sa_push_back_def sa_pop_back_def sa_clear_def sa_insert_def insert_pod_def sa_erase_def
        erase_pod_def sa_erase_it_def sa_erase_range_def erase_pod_range_def sa_remove_def sa_remove_all_def
        reserve_pod_def Let_def split_beta)

lemma sa_exec_rep:
  assumes "arr_rep tr a xs" "traits_ok tr" "arr_fixed a"
  shows "arr_rep tr (sa_exec tr op a) (list_exec (arr_capacity a) op xs)"
proof (cases op)
  case (PushBack v)
  with sa_push_back_rep [OF assms(1), of v] assms(1) show ?thesis by (auto split: if_splits)
next
  case (Insert pos v)
  show ?thesis
  proof (cases "length xs < arr_capacity a \<and> 0 \<le> pos \<and> pos \<le> int (length xs)")
    case True
    then have "pos = int (nat pos)" "nat pos \<le> length xs" by auto
    with True sa_insert_rep [OF assms(1), of "nat pos" v] assms Insert show ?thesis by auto
  next
    case False
    with arr_rep_le_capacity [OF assms(1)] assms(1) Insert show ?thesis
      by (auto simp: sa_insert_def sa_full_rep arr_rep_size)
  qed
next
  case (EraseAt i)
  with sa_erase_rep [OF assms(1) _ assms(2), of i] sa_erase_out [OF assms(1), of i] assms(1)
  show ?thesis by auto
next
  case (EraseIt pos)
  with sa_erase_rep [OF assms(1) _ assms(2), of "nat pos"] assms(1) show ?thesis
    by (auto simp: sa_erase_it_def arr_rep_size)
next
  case (EraseRange s e)
  show ?thesis
  proof (cases "0 \<le> s \<and> s < e \<and> e \<le> int (length xs)")
    case True
    then have "s = int (nat s)" "e = int (nat e)" "nat s < nat e" "nat e \<le> length xs" by auto
    with True sa_erase_range_rep [OF assms(1) _ _ assms(2), of "nat s" "nat e"] EraseRange show ?thesis by auto
  next
    case False
    with assms(1) EraseRange show ?thesis by (auto simp: sa_erase_range_def arr_rep_size)
  qed
qed (use assms sa_pop_back_rep sa_clear_rep sa_remove_rep(2) sa_remove_all_rep(2) in auto)

lemma sa_run_rep:
  assumes "arr_rep tr a xs" "traits_ok tr" "arr_fixed a"
  shows "arr_rep tr (fold (sa_exec tr) ops a) (fold (list_exec (arr_capacity a)) ops xs)"
  using assms(1,3)
proof (induction ops arbitrary: a xs)
  case Nil
  then show ?case by simp
next
  case (Cons op ops)
  have fx: "arr_capacity (sa_exec tr op a) = arr_capacity a" "arr_fixed (sa_exec tr op a)"
    using sa_exec_capacity Cons.prems(2) by auto
  from Cons.IH [OF sa_exec_rep [OF Cons.prems(1) assms(2) Cons.prems(2), of op] fx(2)] fx(1)
  show ?case by simp
qed

section \<open>Properties\<close>

text \<open>For every sequence of operations on a fresh \<open>StaticArray<T, N>\<close>, with any positions, valid or
  not, and for both ways the code moves elements (byte moves, or element by element), the array holds exactly
  what the list operations bounded by \<open>N\<close> give; an element type with a destructor has no live object left
  behind the end.\<close>

theorem static_array_refines_list:
  assumes "traits_ok tr"
  shows "arr_rep tr (fold (sa_exec tr) ops (StaticArray N)) (fold (list_exec N) ops [])"
  using sa_run_rep [of tr "StaticArray N" "[]" ops] assms by (simp add: StaticArray_def) (simp add: ArrayBase_def)

theorem static_array_refines_list_witness:
  "contents (fold (sa_exec \<lparr>triv_copy = False, triv_destroy = False\<rparr>)
     [PushBack 1, PushBack 2, Insert 1 (7::nat), PushBack 9, RemoveAll 2, EraseIt 5] (StaticArray 3)) = [1, 7]"
  using arr_rep_contents [OF static_array_refines_list [of "\<lparr>triv_copy = False, triv_destroy = False\<rparr>"
      "[PushBack 1, PushBack 2, Insert 1 (7::nat), PushBack 9, RemoveAll 2, EraseIt 5]" 3]]
  by (simp add: traits_ok_def)

end
