(* ===== verification/Static_Hash_Map.thy ===== *)
theory Static_Hash_Map
  imports Static_Array
begin

text \<open>
  \<open>StaticHashMap<Key, Value, MaxSize>\<close> (\<open>include/Optimization/StaticHashMap/\<close>,
  \<open>HashMapBase.h\<close>, \<open>HashMapBase.cpp\<close>): open addressing with linear probing over a bucket
  array of dense indices, the entries themselves in a \<open>StaticArray\<close>. The hash function is
  a parameter; the key comparison is equality. Bucket values and positions are natural
  numbers: \<open>MaxSize < 0xFFFF\<close> is asserted by the code, so \<open>uint16_t\<close> is exact.
  Probe loops return \<open>None\<close> when they run out of fuel or read outside the buffers; the
  theorems show that this never happens under the invariant. The two loops of \<open>erase\<close>
  (backward shift, relocation of the last dense element) keep every probe chain intact, so
  the table refines a finite map.
\<close>

section \<open>State and probing\<close>

record ('k, 'v) shm =
  shm_entries :: "('k \<times> 'v) arr"
  shm_buckets :: "nat list"
  shm_max :: nat

definition EMPTY_BUCKET :: nat where "EMPTY_BUCKET = 65535"

definition hash_wrapper :: "('k \<Rightarrow> nat) \<Rightarrow> 'k \<Rightarrow> nat \<Rightarrow> nat" where
  "hash_wrapper H key max_size = H key AND (max_size - 1)"

text \<open>The key in the entry at dense index \<open>d\<close>: the raw read behind \<open>entries_data_\<close>.\<close>

definition entry_key :: "('k, 'v) shm \<Rightarrow> nat \<Rightarrow> 'k option" where
  "entry_key m d = map_option fst (sa_index (shm_entries m) d)"

definition next_bucket :: "nat \<Rightarrow> nat \<Rightarrow> nat" where
  "next_bucket max_size idx = (idx + 1) AND (max_size - 1)"

fun findIndex_loop :: "nat \<Rightarrow> ('k, 'v) shm \<Rightarrow> 'k \<Rightarrow> nat \<Rightarrow> nat \<Rightarrow> nat option" where
  "findIndex_loop 0 m key start idx = None"
| "findIndex_loop (Suc fuel) m key start idx =
     (if shm_buckets m ! idx = EMPTY_BUCKET then Some EMPTY_BUCKET
      else if entry_key m (shm_buckets m ! idx) = Some key then Some idx
      else let idx = next_bucket (shm_max m) idx
           in if idx = start then Some EMPTY_BUCKET else findIndex_loop fuel m key start idx)"

definition findIndex_base :: "('k \<Rightarrow> nat) \<Rightarrow> ('k, 'v) shm \<Rightarrow> 'k \<Rightarrow> nat option" where
  "findIndex_base H m key =
     (let idx = hash_wrapper H key (shm_max m) in findIndex_loop (shm_max m) m key idx idx)"

text \<open>\<open>first_empty\<close> is never assigned in the code, so the first free bucket is returned.\<close>

fun findSlot_loop :: "nat \<Rightarrow> ('k, 'v) shm \<Rightarrow> 'k \<Rightarrow> nat \<Rightarrow> nat \<Rightarrow> nat option" where
  "findSlot_loop 0 m key start idx = None"
| "findSlot_loop (Suc fuel) m key start idx =
     (if shm_buckets m ! idx = EMPTY_BUCKET then Some idx
      else if entry_key m (shm_buckets m ! idx) = Some key then Some idx
      else let idx = next_bucket (shm_max m) idx
           in if idx = start then Some EMPTY_BUCKET else findSlot_loop fuel m key start idx)"

definition findSlot_base :: "('k \<Rightarrow> nat) \<Rightarrow> ('k, 'v) shm \<Rightarrow> 'k \<Rightarrow> nat option" where
  "findSlot_base H m key =
     (let idx = hash_wrapper H key (shm_max m) in findSlot_loop (shm_max m) m key idx idx)"

section \<open>Deletion\<close>

text \<open>The condition under which the bucket \<open>next\<close> is moved back into the \<open>hole\<close>.\<close>

definition must_shift :: "nat \<Rightarrow> nat \<Rightarrow> nat \<Rightarrow> bool" where
  "must_shift hole next ideal \<longleftrightarrow>
     (hole < next \<and> (ideal \<le> hole \<or> next < ideal)) \<or>
     (next < hole \<and> (ideal \<le> hole \<and> next < ideal))"

partial_function (option) rehash_loop ::
  "('k \<Rightarrow> nat) \<Rightarrow> ('k, 'v) shm \<Rightarrow> nat list \<Rightarrow> nat \<Rightarrow> nat \<Rightarrow> nat list option" where
  "rehash_loop H m buckets hole next =
     (if buckets ! next = EMPTY_BUCKET then Some buckets
      else case entry_key m (buckets ! next) of
             None \<Rightarrow> None
           | Some bucket_key \<Rightarrow>
               if must_shift hole next (hash_wrapper H bucket_key (shm_max m))
               then rehash_loop H m (buckets[hole := buckets ! next, next := EMPTY_BUCKET])
                      next (next_bucket (shm_max m) next)
               else rehash_loop H m buckets hole (next_bucket (shm_max m) next))"

definition remove_bucket_and_rehash ::
  "('k \<Rightarrow> nat) \<Rightarrow> nat \<Rightarrow> ('k, 'v) shm \<Rightarrow> (nat \<times> ('k, 'v) shm) option" where
  "remove_bucket_and_rehash H idx m =
     (let erased_dense_idx = shm_buckets m ! idx;
          buckets = (shm_buckets m)[idx := EMPTY_BUCKET]
      in map_option (\<lambda>b. (erased_dense_idx, m\<lparr>shm_buckets := b\<rparr>))
           (rehash_loop H m buckets idx (next_bucket (shm_max m) idx)))"

fun update_last_loop :: "nat \<Rightarrow> nat \<Rightarrow> nat list \<Rightarrow> nat \<Rightarrow> nat \<Rightarrow> nat \<Rightarrow> nat \<Rightarrow> nat list option" where
  "update_last_loop 0 max_size buckets last_idx new_idx start idx = None"
| "update_last_loop (Suc fuel) max_size buckets last_idx new_idx start idx =
     (if buckets ! idx = last_idx then Some (buckets[idx := new_idx])
      else let idx = next_bucket max_size idx
           in if idx = start then Some buckets
              else update_last_loop fuel max_size buckets last_idx new_idx start idx)"

definition update_last_element_bucket ::
  "('k \<Rightarrow> nat) \<Rightarrow> nat \<Rightarrow> nat \<Rightarrow> ('k, 'v) shm \<Rightarrow> ('k, 'v) shm option" where
  "update_last_element_bucket H last_dense_idx new_dense_idx m =
     (case entry_key m new_dense_idx of
        None \<Rightarrow> None
      | Some last_key \<Rightarrow>
          let idx = hash_wrapper H last_key (shm_max m)
          in map_option (\<lambda>b. m\<lparr>shm_buckets := b\<rparr>)
               (update_last_loop (shm_max m) (shm_max m) (shm_buckets m)
                  last_dense_idx new_dense_idx idx idx))"

section \<open>The map operations\<close>

definition shm_clear :: "elem_traits \<Rightarrow> ('k, 'v) shm \<Rightarrow> ('k, 'v) shm" where
  "shm_clear tr m =
     m\<lparr>shm_buckets := replicate (shm_max m) EMPTY_BUCKET, shm_entries := sa_clear tr (shm_entries m)\<rparr>"

definition StaticHashMap :: "elem_traits \<Rightarrow> nat \<Rightarrow> ('k, 'v) shm" where
  "StaticHashMap tr MaxSize =
     shm_clear tr \<lparr>shm_entries = StaticArray MaxSize, shm_buckets = replicate MaxSize 0,
                   shm_max = MaxSize\<rparr>"

definition shm_size :: "('k, 'v) shm \<Rightarrow> nat" where "shm_size m = sa_size (shm_entries m)"
definition shm_empty :: "('k, 'v) shm \<Rightarrow> bool" where "shm_empty m = sa_empty (shm_entries m)"
definition shm_full :: "('k, 'v) shm \<Rightarrow> bool" where "shm_full m = sa_full (shm_entries m)"

definition shm_find :: "('k \<Rightarrow> nat) \<Rightarrow> 'k \<Rightarrow> ('k, 'v) shm \<Rightarrow> 'v option" where
  "shm_find H key m =
     (case findIndex_base H m key of
        None \<Rightarrow> None
      | Some idx \<Rightarrow>
          if idx \<noteq> EMPTY_BUCKET
          then map_option snd (sa_index (shm_entries m) (shm_buckets m ! idx)) else None)"

text \<open>The pointer that \<open>find\<close> returns, as the dense index of the entry, and a store through it.\<close>

definition shm_find_ref :: "('k \<Rightarrow> nat) \<Rightarrow> 'k \<Rightarrow> ('k, 'v) shm \<Rightarrow> nat option" where
  "shm_find_ref H key m =
     (case findIndex_base H m key of
        None \<Rightarrow> None
      | Some idx \<Rightarrow> if idx \<noteq> EMPTY_BUCKET then Some (shm_buckets m ! idx) else None)"

definition shm_load :: "nat \<Rightarrow> ('k, 'v) shm \<Rightarrow> 'v option" where
  "shm_load d m = map_option snd (sa_index (shm_entries m) d)"

definition shm_contains :: "('k \<Rightarrow> nat) \<Rightarrow> 'k \<Rightarrow> ('k, 'v) shm \<Rightarrow> bool" where
  "shm_contains H key m \<longleftrightarrow> findIndex_base H m key \<noteq> Some EMPTY_BUCKET"

text \<open>Assignment to the value field of a live entry.\<close>

definition set_value :: "nat \<Rightarrow> 'v \<Rightarrow> ('k \<times> 'v) arr \<Rightarrow> ('k \<times> 'v) arr" where
  "set_value d v a = a\<lparr>arr_data := (arr_data a)[d := map_option (\<lambda>(k, _). (k, v)) (arr_data a ! d)]\<rparr>"

definition shm_store :: "nat \<Rightarrow> 'v \<Rightarrow> ('k, 'v) shm \<Rightarrow> ('k, 'v) shm" where
  "shm_store d v m = m\<lparr>shm_entries := set_value d v (shm_entries m)\<rparr>"

definition shm_insert :: "('k \<Rightarrow> nat) \<Rightarrow> 'k \<Rightarrow> 'v \<Rightarrow> ('k, 'v) shm \<Rightarrow> (bool \<times> ('k, 'v) shm) option" where
  "shm_insert H key v m =
     (case findSlot_base H m key of
        None \<Rightarrow> None
      | Some idx \<Rightarrow>
          if idx = EMPTY_BUCKET then Some (False, m)
          else if shm_buckets m ! idx = EMPTY_BUCKET
          then (if sa_full (shm_entries m) then Some (False, m)
                else Some (True, m\<lparr>shm_buckets := (shm_buckets m)[idx := sa_size (shm_entries m)],
                                   shm_entries := snd (sa_push_back (key, v) (shm_entries m))\<rparr>))
          else Some (True, m\<lparr>shm_entries := set_value (shm_buckets m ! idx) v (shm_entries m)\<rparr>))"

text \<open>
  \<open>operator[]\<close> returns a reference to the value: its dense index here. It has no check for
  a full table: with the slot \<open>0xFFFF\<close> it reads \<open>buckets_storage_\<close> out of bounds (\<open>None\<close>).
\<close>

definition shm_subscript ::
  "('k \<Rightarrow> nat) \<Rightarrow> 'v \<Rightarrow> 'k \<Rightarrow> ('k, 'v) shm \<Rightarrow> (nat \<times> ('k, 'v) shm) option" where
  "shm_subscript H dflt key m =
     (case findSlot_base H m key of
        None \<Rightarrow> None
      | Some idx \<Rightarrow>
          if length (shm_buckets m) \<le> idx then None
          else if shm_buckets m ! idx = EMPTY_BUCKET
          then (let n = sa_size (shm_entries m)
                in Some (n, m\<lparr>shm_buckets := (shm_buckets m)[idx := n],
                              shm_entries := snd (sa_push_back (key, dflt) (shm_entries m))\<rparr>))
          else Some (shm_buckets m ! idx, m))"

definition shm_erase :: "('k \<Rightarrow> nat) \<Rightarrow> elem_traits \<Rightarrow> 'k \<Rightarrow> ('k, 'v) shm \<Rightarrow> (bool \<times> ('k, 'v) shm) option" where
  "shm_erase H tr key m =
     (case findIndex_base H m key of
        None \<Rightarrow> None
      | Some idx \<Rightarrow>
          if idx = EMPTY_BUCKET then Some (False, m)
          else case remove_bucket_and_rehash H idx m of
            None \<Rightarrow> None
          | Some (erased, m1) \<Rightarrow>
              let last = sa_size (shm_entries m1) - 1;
                  relocated =
                    (if erased \<noteq> last
                     then let a = shm_entries m1;
                              a = a\<lparr>arr_data := (arr_data a)[erased := arr_data a ! last]\<rparr>
                          in update_last_element_bucket H last erased (m1\<lparr>shm_entries := a\<rparr>)
                     else Some m1)
              in map_option (\<lambda>m2. (True, m2\<lparr>shm_entries := sa_pop_back tr (shm_entries m2)\<rparr>)) relocated)"

section \<open>Arithmetic of the bucket ring\<close>

lemma and_pow2_minus_1: "(x :: nat) AND (2 ^ n - 1) = x mod 2 ^ n"
  by (metis mask_eq_exp_minus_1 take_bit_eq_mask take_bit_eq_mod)

lemma hash_wrapper_mod: "M = 2 ^ n \<Longrightarrow> hash_wrapper H k M = H k mod M"
  by (simp only: hash_wrapper_def and_pow2_minus_1)

lemma next_bucket_mod: "M = 2 ^ n \<Longrightarrow> next_bucket M i = Suc i mod M"
  by (simp only: next_bucket_def and_pow2_minus_1 Suc_eq_plus1)

text \<open>Number of forward steps from \<open>a\<close> to \<open>b\<close>.\<close>

definition cdist :: "nat \<Rightarrow> nat \<Rightarrow> nat \<Rightarrow> nat" where
  "cdist M a b = (if a \<le> b then b - a else b + M - a)"

lemma cdist_less [simp]: "a < M \<Longrightarrow> b < M \<Longrightarrow> cdist M a b < M"
  by (auto simp: cdist_def)

lemma cdist_same [simp]: "cdist M a a = 0"
  by (simp add: cdist_def)

lemma cdist_0_iff: "a < M \<Longrightarrow> b < M \<Longrightarrow> cdist M a b = 0 \<longleftrightarrow> a = b"
  by (auto simp: cdist_def)

lemma cdist_add: "a < M \<Longrightarrow> s < M \<Longrightarrow> cdist M a ((a + s) mod M) = s"
  by (auto simp: cdist_def mod_if)

lemma add_cdist: "a < M \<Longrightarrow> b < M \<Longrightarrow> (a + cdist M a b) mod M = b"
  by (auto simp: cdist_def mod_if)

lemma cdist_inj: "h < M \<Longrightarrow> a < M \<Longrightarrow> b < M \<Longrightarrow> cdist M h a = cdist M h b \<Longrightarrow> a = b"
  by (metis add_cdist)

lemma cdist_next: "a < M \<Longrightarrow> i < M \<Longrightarrow> Suc i mod M \<noteq> a \<Longrightarrow> cdist M a (Suc i mod M) = Suc (cdist M a i)"
  by (auto simp: cdist_def mod_Suc)

lemma must_shift_cdist:
  assumes "hole < M" "next < M" "ideal < M" "hole \<noteq> next"
  shows "must_shift hole next ideal \<longleftrightarrow> cdist M ideal hole < cdist M ideal next"
  using assms by (auto simp: must_shift_def cdist_def)

section \<open>Probing\<close>

text \<open>The common shape of the three probe loops: stop at a bucket, or come back to the start.\<close>

fun probe_loop :: "nat \<Rightarrow> nat \<Rightarrow> (nat \<Rightarrow> bool) \<Rightarrow> nat \<Rightarrow> nat \<Rightarrow> nat option option" where
  "probe_loop 0 M stop start idx = None"
| "probe_loop (Suc fuel) M stop start idx =
     (if stop idx then Some (Some idx)
      else if next_bucket M idx = start then Some None
      else probe_loop fuel M stop start (next_bucket M idx))"

lemma findIndex_loop_probe:
  "findIndex_loop fuel m key start idx =
   map_option (\<lambda>r. case r of None \<Rightarrow> EMPTY_BUCKET
                   | Some i \<Rightarrow> if shm_buckets m ! i = EMPTY_BUCKET then EMPTY_BUCKET else i)
     (probe_loop fuel (shm_max m)
       (\<lambda>i. shm_buckets m ! i = EMPTY_BUCKET \<or> entry_key m (shm_buckets m ! i) = Some key) start idx)"
  by (induction fuel m key start idx rule: findIndex_loop.induct) (auto simp: Let_def)

lemma findSlot_loop_probe:
  "findSlot_loop fuel m key start idx =
   map_option (\<lambda>r. case r of None \<Rightarrow> EMPTY_BUCKET | Some i \<Rightarrow> i)
     (probe_loop fuel (shm_max m)
       (\<lambda>i. shm_buckets m ! i = EMPTY_BUCKET \<or> entry_key m (shm_buckets m ! i) = Some key) start idx)"
  by (induction fuel m key start idx rule: findSlot_loop.induct) (auto simp: Let_def)

lemma update_last_loop_probe:
  "update_last_loop fuel M b last_idx new_idx start idx =
   map_option (\<lambda>r. case r of None \<Rightarrow> b | Some i \<Rightarrow> b[i := new_idx])
     (probe_loop fuel M (\<lambda>i. b ! i = last_idx) start idx)"
  by (induction fuel M b last_idx new_idx start idx rule: update_last_loop.induct) (auto simp: Let_def)

lemma probe_step:
  assumes "M = 2 ^ n" "h < M" "Suc s < M"
  shows "next_bucket M ((h + s) mod M) = (h + Suc s) mod M" "(h + Suc s) mod M \<noteq> h"
proof -
  show "next_bucket M ((h + s) mod M) = (h + Suc s) mod M"
    by (simp add: next_bucket_mod [OF assms(1)] mod_Suc_eq)
  show "(h + Suc s) mod M \<noteq> h"
    using cdist_add [OF assms(2,3)] by (metis cdist_same nat.distinct(1))
qed

lemma probe_found_from:
  assumes "M = 2 ^ n" "h < M" "t < M" "stop ((h + t) mod M)" "\<forall>j<t. \<not> stop ((h + j) mod M)" "s \<le> t"
  shows "probe_loop (M - s) M stop h ((h + s) mod M) = Some (Some ((h + t) mod M))"
  using assms(6)
proof (induction "t - s" arbitrary: s)
  case 0
  then have "s = t" by simp
  moreover obtain f where "M - t = Suc f" using assms(3) by (cases "M - t") auto
  ultimately show ?case using assms(4) by simp
next
  case (Suc k)
  then have lt: "s < t" by simp
  with assms(3) have M: "M - s = Suc (M - Suc s)" by simp
  have "Suc s < M" using lt assms(3) by simp
  moreover have "probe_loop (M - Suc s) M stop h ((h + Suc s) mod M) = Some (Some ((h + t) mod M))"
    using Suc.hyps(2) lt by (intro Suc.hyps(1)) simp_all
  ultimately show ?case using probe_step [OF assms(1,2)] lt assms(5) by (simp add: M)
qed

lemma probe_none_from:
  assumes "M = 2 ^ n" "h < M" "\<forall>j<M. \<not> stop ((h + j) mod M)" "s < M"
  shows "probe_loop (M - s) M stop h ((h + s) mod M) = Some None"
  using assms(4)
proof (induction "M - s" arbitrary: s)
  case 0
  then show ?case by simp
next
  case (Suc k)
  then have M: "M - s = Suc (M - Suc s)" by simp
  show ?case
  proof (cases "Suc s < M")
    case True
    have "probe_loop (M - Suc s) M stop h ((h + Suc s) mod M) = Some None"
      using Suc.hyps(2) True by (intro Suc.hyps(1)) simp_all
    with probe_step [OF assms(1,2) True] Suc.prems assms(3) show ?thesis by (simp add: M)
  next
    case False
    with Suc.prems have "Suc s = M" by simp
    then have "next_bucket M ((h + s) mod M) = h"
      using assms(2) unfolding next_bucket_mod [OF assms(1)] mod_Suc_eq
      by (metis add_Suc_right mod_add_self2 mod_less)
    with Suc.prems assms(3) show ?thesis by (simp add: M)
  qed
qed

lemma probe_found:
  assumes "M = 2 ^ n" "h < M" "i < M" "stop i" "\<And>p. p < M \<Longrightarrow> cdist M h p < cdist M h i \<Longrightarrow> \<not> stop p"
  shows "probe_loop M M stop h h = Some (Some i)"
proof -
  let ?t = "cdist M h i"
  have t: "?t < M" "(h + ?t) mod M = i" using assms(2,3) by (auto simp: add_cdist)
  have "\<not> stop ((h + j) mod M)" if "j < ?t" for j
    using assms(5) [of "(h + j) mod M"] that t(1) assms(2) by (simp add: cdist_add)
  with probe_found_from [OF assms(1,2) t(1), of stop 0] t assms(2,4) show ?thesis by simp
qed

lemma probe_none:
  assumes "M = 2 ^ n" "h < M" "\<And>p. p < M \<Longrightarrow> \<not> stop p"
  shows "probe_loop M M stop h h = Some None"
  using probe_none_from [OF assms(1,2), of stop 0] assms by simp

lemma probe_cases:
  assumes "M = 2 ^ n" "h < M"
  obtains (found) i where "i < M" "stop i" "\<And>p. p < M \<Longrightarrow> cdist M h p < cdist M h i \<Longrightarrow> \<not> stop p"
  | (none) "\<And>p. p < M \<Longrightarrow> \<not> stop p"
proof (cases "\<exists>p<M. stop p")
  case True
  then obtain p where p: "p < M \<and> stop p" by blast
  define i where "i = arg_min (cdist M h) (\<lambda>p. p < M \<and> stop p)"
  have "i < M \<and> stop i"
    unfolding i_def using arg_min_nat_lemma [of "\<lambda>p. p < M \<and> stop p" p "cdist M h"] p by blast
  moreover have "\<not> (cdist M h q < cdist M h i)" if "q < M" "stop q" for q
    unfolding i_def using arg_min_nat_lemma [of "\<lambda>p. p < M \<and> stop p" p "cdist M h"] p that
    by (metis linorder_not_less)
  ultimately show thesis using found by blast
qed (use none in blast)

section \<open>The table invariant\<close>

text \<open>Every bucket on the probe path from the home of an element to its bucket is occupied.\<close>

definition chains_ok :: "nat \<Rightarrow> (nat \<Rightarrow> nat) \<Rightarrow> nat list \<Rightarrow> bool" where
  "chains_ok M home b \<longleftrightarrow>
     (\<forall>i<M. b ! i \<noteq> EMPTY_BUCKET \<longrightarrow>
        (\<forall>p<M. cdist M (home (b ! i)) p < cdist M (home (b ! i)) i \<longrightarrow> b ! p \<noteq> EMPTY_BUCKET))"

definition bucket_set :: "nat \<Rightarrow> nat \<Rightarrow> nat multiset" where
  "bucket_set M n = mset [0..<n] + replicate_mset (M - n) EMPTY_BUCKET"

definition home_of :: "('k \<Rightarrow> nat) \<Rightarrow> nat \<Rightarrow> ('k \<times> 'v) list \<Rightarrow> nat \<Rightarrow> nat" where
  "home_of H M es d = H (fst (es ! d)) mod M"

definition shm_rep ::
  "('k \<Rightarrow> nat) \<Rightarrow> elem_traits \<Rightarrow> ('k, 'v) shm \<Rightarrow> ('k \<times> 'v) list \<Rightarrow> bool" where
  "shm_rep H tr m es \<longleftrightarrow>
     (\<exists>n. shm_max m = 2 ^ n) \<and> shm_max m < EMPTY_BUCKET \<and>
     arr_rep tr (shm_entries m) es \<and> arr_capacity (shm_entries m) = shm_max m \<and>
     distinct (map fst es) \<and> length (shm_buckets m) = shm_max m \<and>
     mset (shm_buckets m) = bucket_set (shm_max m) (length es) \<and>
     chains_ok (shm_max m) (home_of H (shm_max m) es) (shm_buckets m)"

lemma chains_okD:
  "chains_ok M home b \<Longrightarrow> i < M \<Longrightarrow> p < M \<Longrightarrow> b ! i \<noteq> EMPTY_BUCKET \<Longrightarrow>
   cdist M (home (b ! i)) p < cdist M (home (b ! i)) i \<Longrightarrow> b ! p \<noteq> EMPTY_BUCKET"
  unfolding chains_ok_def by blast

lemma shm_repD:
  assumes "shm_rep H tr m es"
  shows "\<exists>n. shm_max m = 2 ^ n" "shm_max m < EMPTY_BUCKET" "arr_rep tr (shm_entries m) es"
    "arr_capacity (shm_entries m) = shm_max m" "distinct (map fst es)"
    "length (shm_buckets m) = shm_max m"
    "mset (shm_buckets m) = bucket_set (shm_max m) (length es)"
    "chains_ok (shm_max m) (home_of H (shm_max m) es) (shm_buckets m)"
    "length es \<le> shm_max m" "0 < shm_max m"
  using assms arr_rep_le_capacity by (fastforce simp: shm_rep_def)+

lemma bucket_in:
  assumes "mset b = bucket_set M n" "length b = M" "i < M"
  shows "b ! i < n \<or> b ! i = EMPTY_BUCKET"
proof -
  have "b ! i \<in># bucket_set M n" using assms by (metis nth_mem set_mset_mset)
  then show ?thesis by (auto simp: bucket_set_def split: if_splits)
qed

lemma bucket_exists:
  assumes "mset b = bucket_set M n" "length b = M" "d < n"
  obtains i where "i < M" "b ! i = d"
proof -
  have "d \<in># mset b" using assms by (simp add: bucket_set_def)
  then show thesis using that assms(2) by (metis in_set_conv_nth set_mset_mset)
qed

lemma count_mset_nth: "i < length b \<Longrightarrow> j < length b \<Longrightarrow> i \<noteq> j \<Longrightarrow> b ! i = b ! j \<Longrightarrow> 2 \<le> count (mset b) (b ! i)"
proof -
  assume a: "i < length b" "j < length b" "i \<noteq> j" "b ! i = b ! j"
  have "card {i, j} \<le> card {k. k < length b \<and> b ! i = b ! k}"
    using a by (intro card_mono) auto
  moreover have "count (mset b) (b ! i) = card {k. k < length b \<and> b ! i = b ! k}"
    using count_list_eq_length_filter [of b "b ! i"] length_filter_conv_card [of "(=) (b ! i)" b]
    by (simp add: count_mset)
  ultimately show ?thesis using a(3) by simp
qed

lemma bucket_unique:
  assumes "mset b = bucket_set M n" "length b = M" "n < EMPTY_BUCKET" "i < M" "j < M"
    "b ! i = b ! j" "b ! i < n"
  shows "i = j"
proof (rule ccontr)
  assume "i \<noteq> j"
  with assms count_mset_nth [of i b j] have "2 \<le> count (bucket_set M n) (b ! i)" by simp
  moreover have "count (mset [0..<n]) (b ! i) \<le> 1" by (simp add: count_mset_set')
  ultimately show False using assms(3,7) by (simp add: bucket_set_def EMPTY_BUCKET_def)
qed

lemma entry_key_rep: "shm_rep H tr m es \<Longrightarrow> d < length es \<Longrightarrow> entry_key m d = Some (fst (es ! d))"
  using sa_index_rep [OF shm_repD(3), of H tr m es d] by (simp add: entry_key_def)

lemma distinct_fst_nth:
  "distinct (map fst es) \<Longrightarrow> i < length es \<Longrightarrow> j < length es \<Longrightarrow> fst (es ! i) = fst (es ! j) \<longleftrightarrow> i = j"
  using nth_eq_iff_index_eq [of "map fst es" i j] by simp

text \<open>What a probe for \<open>key\<close> sees: its bucket, or the first free bucket, or a full table.\<close>

lemma shm_probe:
  assumes rep: "shm_rep H tr m es"
  obtains (hit) i where "i < shm_max m" "shm_buckets m ! i < length es"
      "fst (es ! (shm_buckets m ! i)) = key"
      "findIndex_base H m key = Some i" "findSlot_base H m key = Some i"
  | (free) i where "i < shm_max m" "shm_buckets m ! i = EMPTY_BUCKET" "key \<notin> fst ` set es"
      "findIndex_base H m key = Some EMPTY_BUCKET" "findSlot_base H m key = Some i"
      "\<And>p. p < shm_max m \<Longrightarrow> cdist (shm_max m) (H key mod shm_max m) p <
             cdist (shm_max m) (H key mod shm_max m) i \<Longrightarrow> shm_buckets m ! p \<noteq> EMPTY_BUCKET"
  | (full) "length es = shm_max m" "key \<notin> fst ` set es"
      "findIndex_base H m key = Some EMPTY_BUCKET" "findSlot_base H m key = Some EMPTY_BUCKET"
proof -
  let ?M = "shm_max m" and ?b = "shm_buckets m"
  let ?h = "H key mod ?M"
  let ?stop = "\<lambda>i. ?b ! i = EMPTY_BUCKET \<or> entry_key m (?b ! i) = Some key"
  note D = shm_repD [OF rep]
  from D(1) obtain n where M: "?M = 2 ^ n" by blast
  have h: "?h < ?M" using D(10) by simp
  have key_at: "entry_key m (?b ! i) = Some key \<longleftrightarrow> fst (es ! (?b ! i)) = key"
    if "i < ?M" "?b ! i \<noteq> EMPTY_BUCKET" for i
    using bucket_in [OF D(7,6) that(1)] that(2) entry_key_rep [OF rep] by auto
  have fi: "findIndex_base H m key =
      map_option (\<lambda>r. case r of None \<Rightarrow> EMPTY_BUCKET
                   | Some i \<Rightarrow> if ?b ! i = EMPTY_BUCKET then EMPTY_BUCKET else i)
        (probe_loop ?M ?M ?stop ?h ?h)"
    by (simp add: findIndex_base_def findIndex_loop_probe hash_wrapper_mod [OF M] Let_def)
  have fs: "findSlot_base H m key =
      map_option (\<lambda>r. case r of None \<Rightarrow> EMPTY_BUCKET | Some i \<Rightarrow> i) (probe_loop ?M ?M ?stop ?h ?h)"
    by (simp add: findSlot_base_def findSlot_loop_probe hash_wrapper_mod [OF M] Let_def)
  have absent: "key \<notin> fst ` set es"
    if *: "\<And>i. i < ?M \<Longrightarrow> ?b ! i \<noteq> EMPTY_BUCKET \<Longrightarrow> fst (es ! (?b ! i)) \<noteq> key"
  proof
    assume "key \<in> fst ` set es"
    then obtain d where d: "d < length es" "fst (es ! d) = key" by (auto simp: in_set_conv_nth)
    from bucket_exists [OF D(7,6) d(1)] obtain i where "i < ?M" "?b ! i = d" .
    moreover have "d \<noteq> EMPTY_BUCKET" using d(1) D(2,9) by simp
    ultimately show False using * d(2) by blast
  qed
  from M h show thesis
  proof (cases rule: probe_cases [where stop = ?stop])
    case (found i)
    note pr = probe_found [where stop = ?stop, OF M h found]
    show thesis
    proof (cases "?b ! i = EMPTY_BUCKET")
      case True
      have "key \<notin> fst ` set es"
      proof (rule absent)
        fix j assume j: "j < ?M" "?b ! j \<noteq> EMPTY_BUCKET"
        show "fst (es ! (?b ! j)) \<noteq> key"
        proof
          assume k: "fst (es ! (?b ! j)) = key"
          then have home: "home_of H ?M es (?b ! j) = ?h" by (simp add: home_of_def)
          from k j key_at have "?stop j" by blast
          with found(3) [OF j(1)] have "cdist ?M ?h i \<le> cdist ?M ?h j" by (meson not_less)
          moreover have "cdist ?M ?h i \<noteq> cdist ?M ?h j"
            using True j(2) cdist_inj [OF h found(1) j(1)] by blast
          ultimately have "?b ! i \<noteq> EMPTY_BUCKET"
            using chains_okD [OF D(8) j(1) found(1) j(2)] by (simp add: home)
          with True show False by simp
        qed
      qed
      with free [of i] found True fi fs pr show thesis by simp
    next
      case False
      with found(2) key_at [OF found(1)] have "fst (es ! (?b ! i)) = key" by blast
      with hit [of i] False found(1) fi fs pr bucket_in [OF D(7,6) found(1)] show thesis by simp
    qed
  next
    case none
    have "length es = ?M"
    proof (rule ccontr)
      assume "length es \<noteq> ?M"
      with D(9) have "EMPTY_BUCKET \<in># mset ?b" by (simp add: D(7) bucket_set_def)
      then obtain i where "i < ?M" "?b ! i = EMPTY_BUCKET"
        using D(6) by (metis in_set_conv_nth set_mset_mset)
      with none show False by blast
    qed
    moreover have "key \<notin> fst ` set es" using none key_at by (intro absent) blast
    ultimately show thesis using full fi fs probe_none [where stop = ?stop, OF M h none] by simp
  qed
qed

section \<open>Lookup and insertion\<close>

lemma shm_rep_init:
  assumes "M = 2 ^ n" "M < EMPTY_BUCKET"
  shows "shm_rep H tr (StaticHashMap tr M) []"
proof -
  have "arr_rep tr (sa_clear tr (StaticArray M)) []"
    by (rule sa_clear_rep [where xs = "[]"]) (simp add: StaticArray_def)
  moreover have "arr_capacity (sa_clear tr (StaticArray M)) = M"
    by (simp add: sa_clear_def StaticArray_def ArrayBase_def)
  ultimately show ?thesis using assms
    by (auto simp: shm_rep_def StaticHashMap_def shm_clear_def bucket_set_def chains_ok_def)
qed

lemma shm_clear_rep:
  assumes "shm_rep H tr m es"
  shows "shm_rep H tr (shm_clear tr m) []"
proof -
  note D = shm_repD [OF assms]
  have "arr_capacity (sa_clear tr (shm_entries m)) = shm_max m" using D(4) by (simp add: sa_clear_def)
  with sa_clear_rep [OF D(3)] D(1,2) show ?thesis
    by (auto simp: shm_rep_def shm_clear_def bucket_set_def chains_ok_def)
qed

lemma map_of_distinct_nth: "distinct (map fst es) \<Longrightarrow> d < length es \<Longrightarrow> map_of es (fst (es ! d)) = Some (snd (es ! d))"
  by (simp add: map_of_is_SomeI)

lemma shm_find_rep:
  assumes "shm_rep H tr m es"
  shows "shm_find H key m = map_of es key"
  using assms
proof (cases rule: shm_probe [where key = key])
  case (hit i)
  have "i \<noteq> EMPTY_BUCKET" using hit(1) shm_repD(2) [OF assms] by simp
  with hit sa_index_rep [OF shm_repD(3) [OF assms] hit(2)]
    map_of_distinct_nth [OF shm_repD(5) [OF assms] hit(2)]
  show ?thesis by (simp add: shm_find_def)
next
  case (free i)
  then have "map_of es key = None" by (simp add: map_of_eq_None_iff)
  with free show ?thesis by (simp add: shm_find_def)
next
  case full
  then have "map_of es key = None" by (simp add: map_of_eq_None_iff)
  with full show ?thesis by (simp add: shm_find_def)
qed

lemma find_eq: "shm_rep H tr m es \<Longrightarrow> (\<lambda>j. shm_find H j m) = map_of es"
  by (simp add: fun_eq_iff shm_find_rep)

lemma shm_contains_rep:
  assumes "shm_rep H tr m es"
  shows "shm_contains H key m \<longleftrightarrow> key \<in> fst ` set es"
  using assms
proof (cases rule: shm_probe [where key = key])
  case (hit i)
  then have "key \<in> fst ` set es" using nth_mem [OF hit(2)] by force
  with hit(1,4) shm_repD(2) [OF assms] show ?thesis by (simp add: shm_contains_def)
qed (auto simp: shm_contains_def)

lemma bucket_set_Suc:
  assumes "n < M"
  shows "bucket_set M (Suc n) = add_mset n (bucket_set M n - {#EMPTY_BUCKET#})"
proof -
  from assms obtain k where "M - n = Suc k" "M - Suc n = k" by (cases "M - n") auto
  then show ?thesis by (simp add: bucket_set_def)
qed

lemma empty_bucket_room:
  assumes "mset b = bucket_set M n" "length b = M" "n \<le> M" "M < EMPTY_BUCKET" "i < M" "b ! i = EMPTY_BUCKET"
  shows "n < M"
proof (rule ccontr)
  assume "\<not> n < M"
  with assms(3) have "n = M" by simp
  moreover have "EMPTY_BUCKET \<in># mset b" using assms(2,5,6) by (metis nth_mem set_mset_mset)
  ultimately show False using assms(1,4) by (simp add: bucket_set_def)
qed

lemma chains_ok_fill:
  assumes "chains_ok M home b" "i < M" "b ! i = EMPTY_BUCKET" "length b = M"
    "\<And>d. d \<noteq> n \<Longrightarrow> d \<noteq> EMPTY_BUCKET \<Longrightarrow> d \<in> set b \<Longrightarrow> home' d = home d" "n \<noteq> EMPTY_BUCKET" "n \<notin> set b"
    "\<And>p. p < M \<Longrightarrow> cdist M (home' n) p < cdist M (home' n) i \<Longrightarrow> b ! p \<noteq> EMPTY_BUCKET"
  shows "chains_ok M home' (b[i := n])"
  unfolding chains_ok_def
proof (intro allI impI)
  fix j p assume j: "j < M" "b[i := n] ! j \<noteq> EMPTY_BUCKET" and p: "p < M"
    "cdist M (home' (b[i := n] ! j)) p < cdist M (home' (b[i := n] ! j)) j"
  show "b[i := n] ! p \<noteq> EMPTY_BUCKET"
  proof (cases "j = i")
    case True
    with assms(2,4,6,8) p show ?thesis by (cases "p = i") auto
  next
    case False
    then have "b ! j \<in> set b" "b[i := n] ! j = b ! j" using j(1) assms(4) by auto
    moreover from this have "home' (b ! j) = home (b ! j)" using assms(5,7) j(2) by metis
    ultimately have "b ! p \<noteq> EMPTY_BUCKET" using chains_okD [OF assms(1) j(1) p(1)] j(2) p(2) by metis
    with assms(2,4,6) show ?thesis by (cases "p = i") auto
  qed
qed

text \<open>Appending a fresh key at its free bucket.\<close>

lemma shm_append_rep:
  assumes rep: "shm_rep H tr m es" and i: "i < shm_max m" "shm_buckets m ! i = EMPTY_BUCKET"
    and key: "key \<notin> fst ` set es"
    and path: "\<And>p. p < shm_max m \<Longrightarrow> cdist (shm_max m) (H key mod shm_max m) p <
             cdist (shm_max m) (H key mod shm_max m) i \<Longrightarrow> shm_buckets m ! p \<noteq> EMPTY_BUCKET"
  shows "shm_rep H tr (m\<lparr>shm_buckets := (shm_buckets m)[i := sa_size (shm_entries m)],
                         shm_entries := snd (sa_push_back (key, v) (shm_entries m))\<rparr>) (es @ [(key, v)])"
    and "length es < shm_max m"
proof -
  note D = shm_repD [OF rep]
  let ?n = "length es" and ?b = "shm_buckets m" and ?M = "shm_max m"
  show room: "?n < ?M" by (rule empty_bucket_room [OF D(7,6,9,2) i])
  have size: "sa_size (shm_entries m) = ?n" using arr_rep_size [OF D(3)] by (simp add: sa_size_def)
  have push: "arr_rep tr (snd (sa_push_back (key, v) (shm_entries m))) (es @ [(key, v)])"
    "arr_capacity (snd (sa_push_back (key, v) (shm_entries m))) = ?M"
    using sa_push_back_rep [OF D(3), of "(key, v)"] room D(4) by (auto simp: sa_push_back_def)
  have ne: "?n \<noteq> EMPTY_BUCKET" using room D(2) by simp
  have fresh: "?n \<notin> set ?b"
  proof
    assume "?n \<in> set ?b"
    then have "?n \<in># bucket_set ?M ?n" by (metis D(7) set_mset_mset)
    with ne show False by (auto simp: bucket_set_def split: if_splits)
  qed
  have old: "d < ?n" if "d \<noteq> EMPTY_BUCKET" "d \<in> set ?b" for d
    using that bucket_in [OF D(7,6)] by (metis D(6) in_set_conv_nth)
  have "chains_ok ?M (home_of H ?M (es @ [(key, v)])) (?b[i := ?n])"
  proof (rule chains_ok_fill [OF D(8) i D(6) _ ne fresh])
    show "home_of H ?M (es @ [(key, v)]) d = home_of H ?M es d"
      if "d \<noteq> ?n" "d \<noteq> EMPTY_BUCKET" "d \<in> set ?b" for d
      using old [OF that(2,3)] by (simp add: home_of_def nth_append)
  qed (use path in \<open>simp add: home_of_def\<close>)
  moreover have "mset (?b[i := ?n]) = bucket_set ?M (Suc ?n)"
    using i D(6,7) by (simp add: mset_update bucket_set_Suc [OF room])
  ultimately show "shm_rep H tr (m\<lparr>shm_buckets := ?b[i := sa_size (shm_entries m)],
      shm_entries := snd (sa_push_back (key, v) (shm_entries m))\<rparr>) (es @ [(key, v)])"
    using push D key unfolding size by (auto simp: shm_rep_def image_iff)
qed

lemma map_of_append_fresh: "map_of es key = None \<Longrightarrow> map_of (es @ [(key, v)]) = (map_of es)(key \<mapsto> v)"
  by (auto simp: fun_eq_iff map_add_def split: option.split)

lemma set_value_rep:
  assumes "arr_rep tr a es" "d < length es"
  shows "arr_rep tr (set_value d v a) (es[d := (fst (es ! d), v)])"
proof -
  from assms(1) obtain rest where r: "arr_data a = map Some es @ rest" "arr_size a = length es"
    "arr_capacity a = length es + length rest" "\<not> triv_destroy tr \<longrightarrow> set rest \<subseteq> {None}"
    by (rule arr_repE)
  then show ?thesis using assms(2)
    by (intro arr_repI [where rest = rest])
       (auto simp: set_value_def nth_append list_update_append map_update split_beta)
qed

lemma map_of_update_nth:
  assumes "distinct (map fst es)" "d < length es"
  shows "map_of (es[d := (fst (es ! d), v)]) = (map_of es)(fst (es ! d) \<mapsto> v)"
  using assms
proof (induction es arbitrary: d)
  case Nil
  then show ?case by simp
next
  case (Cons e es)
  show ?case
  proof (cases d)
    case 0
    then show ?thesis by (cases e) auto
  next
    case (Suc d')
    with Cons have "fst e \<noteq> fst (es ! d')" by force
    with Cons Suc show ?thesis by (cases e) (auto simp: fun_upd_twist)
  qed
qed

lemma shm_overwrite_rep:
  assumes rep: "shm_rep H tr m es" and d: "d < length es"
  shows "shm_rep H tr (m\<lparr>shm_entries := set_value d v (shm_entries m)\<rparr>) (es[d := (fst (es ! d), v)])"
proof -
  note D = shm_repD [OF rep]
  have "map fst (es[d := (fst (es ! d), v)]) = map fst es"
    using d by (simp add: map_update) (metis list_update_id length_map nth_map)
  moreover have "home_of H (shm_max m) (es[d := (fst (es ! d), v)]) = home_of H (shm_max m) es"
    using d by (auto simp: home_of_def nth_list_update fun_eq_iff)
  moreover have "arr_capacity (set_value d v (shm_entries m)) = shm_max m" using D(4) by (simp add: set_value_def)
  ultimately show ?thesis using D set_value_rep [OF D(3) d] by (simp add: shm_rep_def)
qed

text \<open>\<open>insert\<close>: update, or append while there is room; it never reports success and loses the value.\<close>

lemma shm_insert_rep:
  assumes rep: "shm_rep H tr m es"
  shows "\<exists>b m' es'. shm_insert H key v m = Some (b, m') \<and> shm_rep H tr m' es' \<and> shm_max m' = shm_max m \<and>
           b = (key \<in> fst ` set es \<or> length es < shm_max m) \<and>
           map_of es' = (if b then (map_of es)(key \<mapsto> v) else map_of es) \<and>
           length es' = (if b \<and> key \<notin> fst ` set es then Suc (length es) else length es)"
  using rep
proof (cases rule: shm_probe [where key = key])
  case (hit i)
  note D = shm_repD [OF rep]
  let ?d = "shm_buckets m ! i"
  have ne: "i \<noteq> EMPTY_BUCKET" "?d \<noteq> EMPTY_BUCKET" using hit D(2,9) by auto
  have "key \<in> fst ` set es" using nth_mem [OF hit(2)] hit(3) by force
  moreover have "shm_insert H key v m = Some (True, m\<lparr>shm_entries := set_value ?d v (shm_entries m)\<rparr>)"
    using ne hit(5) by (simp add: shm_insert_def)
  ultimately show ?thesis
    using shm_overwrite_rep [OF rep hit(2), of v] map_of_update_nth [OF D(5) hit(2), of v] hit(3)
    by (intro exI [of _ True] exI [of _ "m\<lparr>shm_entries := set_value ?d v (shm_entries m)\<rparr>"]
          exI [of _ "es[?d := (key, v)]"]) simp
next
  case (free i)
  note D = shm_repD [OF rep]
  have ne: "i \<noteq> EMPTY_BUCKET" using free D(2) by auto
  have app: "shm_rep H tr (m\<lparr>shm_buckets := (shm_buckets m)[i := sa_size (shm_entries m)],
                 shm_entries := snd (sa_push_back (key, v) (shm_entries m))\<rparr>) (es @ [(key, v)])"
    and room: "length es < shm_max m"
    by (rule shm_append_rep [OF rep free(1,2,3,6)], assumption+)+
  have "map_of (es @ [(key, v)]) = (map_of es)(key \<mapsto> v)"
    by (rule map_of_append_fresh) (simp add: map_of_eq_None_iff free(3))
  moreover have nf: "\<not> sa_full (shm_entries m)" using room D(4) sa_full_rep [OF D(3)] by simp
  moreover have "shm_insert H key v m =
      Some (True, m\<lparr>shm_buckets := (shm_buckets m)[i := sa_size (shm_entries m)],
                    shm_entries := snd (sa_push_back (key, v) (shm_entries m))\<rparr>)"
    using ne nf free(2,5) by (simp add: shm_insert_def)
  ultimately show ?thesis using app room free(3)
    by (intro exI [of _ True] exI [of _ "m\<lparr>shm_buckets := (shm_buckets m)[i := sa_size (shm_entries m)],
                    shm_entries := snd (sa_push_back (key, v) (shm_entries m))\<rparr>"]
          exI [of _ "es @ [(key, v)]"]) simp
next
  case full
  with rep show ?thesis by (auto simp: shm_insert_def)
qed

text \<open>\<open>operator[]\<close>: a default entry for an absent key, and undefined behaviour on a full table.\<close>

lemma shm_subscript_rep:
  assumes rep: "shm_rep H tr m es"
  shows "if key \<in> fst ` set es \<or> length es < shm_max m
         then \<exists>d m' es'. shm_subscript H dflt key m = Some (d, m') \<and> shm_rep H tr m' es' \<and>
                shm_max m' = shm_max m \<and> d < length es' \<and> fst (es' ! d) = key \<and>
                es' = (if key \<in> fst ` set es then es else es @ [(key, dflt)])
         else shm_subscript H dflt key m = None"
  using rep
proof (cases rule: shm_probe [where key = key])
  case (hit i)
  note D = shm_repD [OF rep]
  have "key \<in> fst ` set es" using nth_mem [OF hit(2)] hit(3) by force
  moreover have "shm_buckets m ! i \<noteq> EMPTY_BUCKET" using hit(2) D(2,9) by auto
  ultimately show ?thesis using hit rep D(6) by (simp add: shm_subscript_def)
next
  case (free i)
  note D = shm_repD [OF rep]
  have app: "shm_rep H tr (m\<lparr>shm_buckets := (shm_buckets m)[i := sa_size (shm_entries m)],
                 shm_entries := snd (sa_push_back (key, dflt) (shm_entries m))\<rparr>) (es @ [(key, dflt)])"
    and room: "length es < shm_max m"
    by (rule shm_append_rep [OF rep free(1,2,3,6)], assumption+)+
  have "sa_size (shm_entries m) = length es" using arr_rep_size [OF D(3)] by (simp add: sa_size_def)
  with app room free D(6) show ?thesis by (auto simp: shm_subscript_def Let_def)
next
  case full
  with shm_repD(2,6) [OF rep] show ?thesis by (simp add: shm_subscript_def)
qed

lemma shm_find_ref_rep:
  assumes "shm_rep H tr m es"
  shows "case shm_find_ref H key m of
           None \<Rightarrow> key \<notin> fst ` set es
         | Some d \<Rightarrow> d < length es \<and> fst (es ! d) = key"
  using assms
proof (cases rule: shm_probe [where key = key])
  case (hit i)
  have "i \<noteq> EMPTY_BUCKET" using hit(1) shm_repD(2) [OF assms] by simp
  with hit show ?thesis by (simp add: shm_find_ref_def)
qed (simp_all add: shm_find_ref_def)

lemma shm_find_load: "shm_find H key m = Option.bind (shm_find_ref H key m) (\<lambda>d. shm_load d m)"
  by (simp add: shm_find_def shm_find_ref_def shm_load_def split: option.split)

text \<open>A store through the pointer of \<open>find\<close> or \<open>operator[]\<close> is a map update.\<close>

lemma shm_store_rep:
  assumes "shm_rep H tr m es" "d < length es" "fst (es ! d) = key"
  shows "\<exists>es'. shm_rep H tr (shm_store d v m) es' \<and> map_of es' = (map_of es)(key \<mapsto> v) \<and>
               length es' = length es"
  using shm_overwrite_rep [OF assms(1,2), of v] map_of_update_nth [OF shm_repD(5) [OF assms(1)] assms(2), of v]
    assms(3)
  by (intro exI [of _ "es[d := (key, v)]"]) (simp add: shm_store_def)

section \<open>Erasure\<close>

text \<open>
  The state of the backward shift: the bucket \<open>hole\<close> is free, the \<open>k - 1\<close> buckets behind it
  have been scanned; a probe path may only be interrupted at the hole, and no path of a scanned
  bucket is.
\<close>

definition shift_inv :: "nat \<Rightarrow> (nat \<Rightarrow> nat) \<Rightarrow> nat list \<Rightarrow> nat \<Rightarrow> nat \<Rightarrow> bool" where
  "shift_inv M home b hole k \<longleftrightarrow>
     length b = M \<and> hole < M \<and> b ! hole = EMPTY_BUCKET \<and> 1 \<le> k \<and> k \<le> M \<and>
     (\<forall>i<M. b ! i \<noteq> EMPTY_BUCKET \<longrightarrow> home (b ! i) < M) \<and>
     (\<forall>i<M. b ! i \<noteq> EMPTY_BUCKET \<longrightarrow>
        (\<forall>p<M. cdist M (home (b ! i)) p < cdist M (home (b ! i)) i \<longrightarrow>
                b ! p \<noteq> EMPTY_BUCKET \<or> p = hole)) \<and>
     (\<forall>i<M. b ! i \<noteq> EMPTY_BUCKET \<longrightarrow> 0 < cdist M hole i \<longrightarrow> cdist M hole i < k \<longrightarrow>
        \<not> cdist M (home (b ! i)) hole < cdist M (home (b ! i)) i) \<and>
     (\<forall>p<M. 0 < cdist M hole p \<longrightarrow> cdist M hole p < k \<longrightarrow> b ! p \<noteq> EMPTY_BUCKET)"

lemma shift_invD:
  assumes "shift_inv M home b hole k"
  shows "length b = M" "hole < M" "b ! hole = EMPTY_BUCKET" "1 \<le> k" "k \<le> M"
    "\<And>i. i < M \<Longrightarrow> b ! i \<noteq> EMPTY_BUCKET \<Longrightarrow> home (b ! i) < M"
    "\<And>i p. i < M \<Longrightarrow> p < M \<Longrightarrow> b ! i \<noteq> EMPTY_BUCKET \<Longrightarrow>
       cdist M (home (b ! i)) p < cdist M (home (b ! i)) i \<Longrightarrow> p \<noteq> hole \<Longrightarrow> b ! p \<noteq> EMPTY_BUCKET"
    "\<And>i. i < M \<Longrightarrow> b ! i \<noteq> EMPTY_BUCKET \<Longrightarrow> 0 < cdist M hole i \<Longrightarrow> cdist M hole i < k \<Longrightarrow>
       \<not> cdist M (home (b ! i)) hole < cdist M (home (b ! i)) i"
    "\<And>p. p < M \<Longrightarrow> 0 < cdist M hole p \<Longrightarrow> cdist M hole p < k \<Longrightarrow> b ! p \<noteq> EMPTY_BUCKET"
  using assms unfolding shift_inv_def by blast+

text \<open>Between \<open>hole\<close> and \<open>i\<close>: the part of the path of \<open>i\<close> that lies behind the hole.\<close>

lemma cdist_between:
  assumes "h < M" "hole < M" "i < M" "q < M" "cdist M h hole < cdist M h i"
    "cdist M hole q < cdist M hole i"
  shows "cdist M h q < cdist M h i"
  using assms by (auto simp: cdist_def split: if_splits)

lemma cdist_before:
  assumes "h < M" "hole < M" "i < M" "q < M" "cdist M h hole < cdist M h i" "cdist M h q < cdist M h hole"
  shows "cdist M h q < cdist M h i" "q \<noteq> i" "q \<noteq> hole"
  using assms by auto

lemma shift_done:
  assumes inv: "shift_inv M home b hole k" and stop: "b ! ((hole + k) mod M) = EMPTY_BUCKET"
  shows "chains_ok M home b"
  unfolding chains_ok_def
proof (intro allI impI)
  note I = shift_invD [OF inv]
  fix i p assume i: "i < M" "b ! i \<noteq> EMPTY_BUCKET" and p: "p < M"
    "cdist M (home (b ! i)) p < cdist M (home (b ! i)) i"
  show "b ! p \<noteq> EMPTY_BUCKET"
  proof (cases "p = hole")
    case False
    then show ?thesis by (rule I(7) [OF i(1) p(1) i(2) p(2)])
  next
    case True
    let ?h = "home (b ! i)" and ?next = "(hole + k) mod M"
    have h: "?h < M" by (rule I(6) [OF i])
    have "0 < cdist M hole i" using i I(2,3) cdist_0_iff [of hole M i] by auto
    then have ge: "k \<le> cdist M hole i" using I(8) [OF i] p(2) True by (meson not_less)
    then have "k < M" using cdist_less [OF I(2) i(1)] by simp
    then have nx: "?next < M" "cdist M hole ?next = k" using I(2) by (auto simp: cdist_add)
    have "?next \<noteq> i" using stop i(2) by auto
    with ge nx have "cdist M hole ?next < cdist M hole i"
      using cdist_inj [OF I(2) nx(1) i(1)] by linarith
    then have "cdist M ?h ?next < cdist M ?h i"
      using cdist_between [OF h I(2) i(1) nx(1)] p(2) True by blast
    moreover have "?next \<noteq> hole" using nx(2) I(4) by auto
    ultimately show ?thesis using I(7) [OF i(1) nx(1) i(2)] stop by blast
  qed
qed

lemma shift_keep:
  assumes inv: "shift_inv M home b hole k" and occ: "b ! ((hole + k) mod M) \<noteq> EMPTY_BUCKET"
    and keep: "\<not> cdist M (home (b ! ((hole + k) mod M))) hole <
                 cdist M (home (b ! ((hole + k) mod M))) ((hole + k) mod M)"
  shows "shift_inv M home b hole (Suc k)" "k < M"
proof -
  note I = shift_invD [OF inv]
  show lt: "k < M"
  proof (rule ccontr)
    assume "\<not> k < M"
    with I(5) have "k = M" by simp
    then have "(hole + k) mod M = hole" using I(2) by simp
    with occ I(3) show False by simp
  qed
  then have d: "cdist M hole ((hole + k) mod M) = k" "(hole + k) mod M < M"
    using I(2) by (auto simp: cdist_add)
  have new: "i = (hole + k) mod M" if "i < M" "cdist M hole i < Suc k" "\<not> cdist M hole i < k" for i
    using cdist_inj [OF I(2) that(1) d(2)] that(2,3) d(1) by simp
  show "shift_inv M home b hole (Suc k)"
    unfolding shift_inv_def
  proof (intro conjI allI impI)
    fix i assume "i < M" "b ! i \<noteq> EMPTY_BUCKET" "0 < cdist M hole i" "cdist M hole i < Suc k"
    then show "\<not> cdist M (home (b ! i)) hole < cdist M (home (b ! i)) i"
      using I(8) [of i] new [of i] keep by blast
  next
    fix p assume "p < M" "0 < cdist M hole p" "cdist M hole p < Suc k"
    then show "b ! p \<noteq> EMPTY_BUCKET" using I(9) [of p] new [of p] occ by blast
  next
    fix i p assume "i < M" "b ! i \<noteq> EMPTY_BUCKET" "p < M"
      "cdist M (home (b ! i)) p < cdist M (home (b ! i)) i"
    then show "b ! p \<noteq> EMPTY_BUCKET \<or> p = hole" using I(7) by blast
  qed (use I(1-6) lt in simp_all)
qed

definition displacement :: "nat \<Rightarrow> (nat \<Rightarrow> nat) \<Rightarrow> nat list \<Rightarrow> nat" where
  "displacement M home b =
     (\<Sum>i<M. if b ! i = EMPTY_BUCKET then 0 else cdist M (home (b ! i)) i)"

lemma sum_two_points:
  fixes i j M :: nat
  assumes "i < M" "j < M" "i \<noteq> j" "\<And>p. p < M \<Longrightarrow> p \<noteq> i \<Longrightarrow> p \<noteq> j \<Longrightarrow> f' p = (f p :: nat)"
    "f' i + f' j < f i + f j"
  shows "(\<Sum>p<M. f' p) < (\<Sum>p<M. f p)"
proof -
  have split: "(\<Sum>p<M. g p) = g i + g j + (\<Sum>p\<in>{..<M} - {i, j}. g p)" for g :: "nat \<Rightarrow> nat"
    using assms(1-3) sum.subset_diff [of "{i, j}" "{..<M}" g] by simp
  have "(\<Sum>p\<in>{..<M} - {i, j}. f' p) = (\<Sum>p\<in>{..<M} - {i, j}. f p)"
    using assms(4) by (intro sum.cong) auto
  with assms(5) show ?thesis by (simp add: split [of f] split [of f'])
qed

lemma shift_move:
  assumes inv: "shift_inv M home b hole k" and nx: "next = (hole + k) mod M"
    and occ: "b ! next \<noteq> EMPTY_BUCKET"
    and move: "cdist M (home (b ! next)) hole < cdist M (home (b ! next)) next"
  defines "b' \<equiv> b[hole := b ! next, next := EMPTY_BUCKET]"
  shows "shift_inv M home b' next 1" "displacement M home b' < displacement M home b"
    "mset b' = mset b"
proof -
  note I = shift_invD [OF inv]
  have n: "next < M" "next \<noteq> hole" using nx I(2,3) occ by auto
  have at: "b' ! next = EMPTY_BUCKET" "b' ! hole = b ! next"
    "\<And>p. p \<noteq> hole \<Longrightarrow> p \<noteq> next \<Longrightarrow> b' ! p = b ! p" "length b' = M"
    using n I(1,2) by (auto simp: b'_def)
  have "b' = b[hole := b ! next, next := b ! hole]" using I(3) by (simp add: b'_def)
  then show "mset b' = mset b" using n I(1,2) by (simp add: mset_swap)
  show "displacement M home b' < displacement M home b"
    unfolding displacement_def by (rule sum_two_points [OF I(2) n(1)]) (use n at I(3) occ move in auto)
  have occ': "p = hole \<or> p \<noteq> next \<and> b ! p \<noteq> EMPTY_BUCKET" if "b' ! p \<noteq> EMPTY_BUCKET" for p
    using that at by (cases "p = hole"; cases "p = next") auto
  have keep: "b' ! p \<noteq> EMPTY_BUCKET \<or> p = next" if "b ! p \<noteq> EMPTY_BUCKET \<or> p = hole" for p
    using that at occ by (cases "p = hole"; cases "p = next") auto
  show "shift_inv M home b' next 1"
    unfolding shift_inv_def
  proof (intro conjI allI impI)
    fix i p assume i: "i < M" "b' ! i \<noteq> EMPTY_BUCKET" and p: "p < M"
      "cdist M (home (b' ! i)) p < cdist M (home (b' ! i)) i"
    show "b' ! p \<noteq> EMPTY_BUCKET \<or> p = next"
    proof (cases "i = hole")
      case True
      with p at move have "cdist M (home (b ! next)) p < cdist M (home (b ! next)) next" by simp
      from I(7) [OF n(1) p(1) occ this] keep show ?thesis by blast
    next
      case False
      with occ' [OF i(2)] have "i \<noteq> next" "b ! i \<noteq> EMPTY_BUCKET" "b' ! i = b ! i" using at(3) by auto
      with I(7) [OF i(1) p(1)] p(2) keep show ?thesis by metis
    qed
  next
    fix i assume "i < M" "b' ! i \<noteq> EMPTY_BUCKET"
    then show "home (b' ! i) < M" using occ' [of i] at(2) at(3) [of i] I(6) n(1) occ by metis
  qed (use n at I(2) in auto)
qed

text \<open>The loop ends, whatever the fill of the table, and restores every probe chain.\<close>

lemma rehash_loop_ok:
  assumes "shm_max m = M" "M = 2 ^ n"
    and homes: "\<And>d. d \<in> set b \<Longrightarrow> d \<noteq> EMPTY_BUCKET \<Longrightarrow>
       \<exists>key. entry_key m d = Some key \<and> H key mod M = home d"
    and "shift_inv M home b hole k" "next = (hole + k) mod M"
  shows "\<exists>b'. rehash_loop H m b hole next = Some b' \<and> length b' = M \<and> mset b' = mset b \<and>
              chains_ok M home b'"
  using assms(3-)
proof (induction "(displacement M home b, M - k)" arbitrary: b hole k "next"
    rule: wf_induct_rule [OF wf_lex_prod [OF wf_less_than wf_less_than]])
  case 1
  note I = shift_invD [OF "1.prems"(2)]
  have nM: "next < M" using "1.prems"(3) I(2) by simp
  show ?case
  proof (cases "b ! next = EMPTY_BUCKET")
    case True
    then have "rehash_loop H m b hole next = Some b"
      by (simp add: rehash_loop.simps [of H m b hole "next"])
    moreover have "chains_ok M home b" using shift_done [OF "1.prems"(2)] True "1.prems"(3) by simp
    ultimately show ?thesis using I(1) by blast
  next
    case occ: False
    have "b ! next \<in> set b" using nM I(1) by simp
    from "1.prems"(1) [OF this occ] obtain key where
      key: "entry_key m (b ! next) = Some key" "H key mod M = home (b ! next)" by blast
    have nb: "next_bucket M next = Suc next mod M" by (rule next_bucket_mod [OF assms(2)])
    have hole: "hole \<noteq> next" using I(3) occ by auto
    have shift: "must_shift hole next (hash_wrapper H key M) \<longleftrightarrow>
          cdist M (home (b ! next)) hole < cdist M (home (b ! next)) next"
      using must_shift_cdist [OF I(2) nM I(6) [OF nM occ] hole] key(2)
      by (simp add: hash_wrapper_mod [OF assms(2)])
    show ?thesis
    proof (cases "cdist M (home (b ! next)) hole < cdist M (home (b ! next)) next")
      case True
      note mv = shift_move [OF "1.prems"(2,3) occ True]
      let ?b = "b[hole := b ! next, next := EMPTY_BUCKET]"
      have set: "set ?b = set b" using mv(3) by (metis set_mset_mset)
      have "\<exists>b'. rehash_loop H m ?b next (Suc next mod M) = Some b' \<and> length b' = M \<and>
                 mset b' = mset ?b \<and> chains_ok M home b'"
        by (rule "1.hyps" [OF _ _ mv(1)]) (use mv(2) set "1.prems"(1) in auto)
      with True shift key(1) occ nb mv(3) show ?thesis
        by (simp add: rehash_loop.simps [of H m b hole "next"] assms(1))
    next
      case False
      from shift_keep [OF "1.prems"(2)] occ False "1.prems"(3)
      have kp: "shift_inv M home b hole (Suc k)" "k < M" by auto
      have "\<exists>b'. rehash_loop H m b hole (Suc next mod M) = Some b' \<and> length b' = M \<and>
                 mset b' = mset b \<and> chains_ok M home b'"
        by (rule "1.hyps" [OF _ "1.prems"(1) kp(1)]) (use kp(2) "1.prems"(3) in \<open>auto simp: mod_Suc_eq\<close>)
      with False shift key(1) occ nb show ?thesis
        by (simp add: rehash_loop.simps [of H m b hole "next"] assms(1))
    qed
  qed
qed

lemma shift_inv_start:
  assumes "chains_ok M home b" "length b = M" "i < M"
    "\<And>j. j < M \<Longrightarrow> b ! j \<noteq> EMPTY_BUCKET \<Longrightarrow> home (b ! j) < M"
  shows "shift_inv M home (b[i := EMPTY_BUCKET]) i 1"
  unfolding shift_inv_def
proof (intro conjI allI impI)
  fix j p assume "j < M" "b[i := EMPTY_BUCKET] ! j \<noteq> EMPTY_BUCKET" "p < M"
    "cdist M (home (b[i := EMPTY_BUCKET] ! j)) p < cdist M (home (b[i := EMPTY_BUCKET] ! j)) j"
  with chains_okD [OF assms(1), of j p] assms(2,3)
  show "b[i := EMPTY_BUCKET] ! p \<noteq> EMPTY_BUCKET \<or> p = i" by (cases "j = i"; cases "p = i") auto
next
  fix j assume "j < M" "b[i := EMPTY_BUCKET] ! j \<noteq> EMPTY_BUCKET"
  with assms(2,3,4) show "home (b[i := EMPTY_BUCKET] ! j) < M" by (cases "j = i") auto
qed (use assms(2,3) in auto)

text \<open>Moving the last dense element into the freed dense slot.\<close>

definition swap_remove :: "nat \<Rightarrow> 'a list \<Rightarrow> 'a list" where
  "swap_remove d es = butlast (es[d := last es])"

lemma mset_swap_remove:
  assumes "d < length es"
  shows "mset (swap_remove d es) = mset es - {#es ! d#}"
proof -
  obtain ys x where es: "es = ys @ [x]" using assms by (cases es rule: rev_cases) auto
  show ?thesis
  proof (cases "d = length ys")
    case True
    then show ?thesis by (simp add: es swap_remove_def)
  next
    case False
    with assms es have d: "d < length ys" by simp
    have "es[d := x] = ys[d := x] @ [x]" "es ! d = ys ! d"
      using d by (simp_all add: es list_update_append nth_append)
    then show ?thesis using d by (simp add: es swap_remove_def mset_update)
  qed
qed

lemma length_swap_remove [simp]: "length (swap_remove d es) = length es - 1"
  by (simp add: swap_remove_def)

lemma swap_remove_keys:
  assumes "distinct (map fst es)" "d < length es"
  shows "distinct (map fst (swap_remove d es))"
    and "map_of (swap_remove d es) = (map_of es)(fst (es ! d) := None)"
proof -
  let ?r = "swap_remove d es"
  have perm: "mset (es ! d # ?r) = mset es" using mset_swap_remove [OF assms(2)] assms(2) by simp
  then have "mset (map fst (es ! d # ?r)) = mset (map fst es)" by (metis mset_map)
  then have dist: "distinct (map fst (es ! d # ?r))"
    using assms(1) mset_eq_imp_distinct_iff by blast
  then show "distinct (map fst ?r)" by simp
  have "map_of (es ! d # ?r) = map_of es"
    using map_of_inject_set [OF dist assms(1)] perm by (metis set_mset_mset)
  moreover have "map_of ?r (fst (es ! d)) = None" using dist by (simp add: map_of_eq_None_iff)
  ultimately show "map_of ?r = (map_of es)(fst (es ! d) := None)"
    by (cases "es ! d") (auto simp: fun_eq_iff split: if_splits)
qed

lemma chains_ok_cong:
  assumes "chains_ok M home b" "length b' = M" "length b = M"
    "\<And>i. i < M \<Longrightarrow> b' ! i = EMPTY_BUCKET \<longleftrightarrow> b ! i = EMPTY_BUCKET"
    "\<And>i. i < M \<Longrightarrow> b ! i \<noteq> EMPTY_BUCKET \<Longrightarrow> home' (b' ! i) = home (b ! i)"
  shows "chains_ok M home' b'"
  using assms unfolding chains_ok_def by metis

lemma shm_rep_assemble:
  assumes "shm_rep H tr m es" "arr_rep tr a es'" "arr_capacity a = shm_max m" "distinct (map fst es')"
    "length b = shm_max m" "mset b = bucket_set (shm_max m) (length es')"
    "chains_ok (shm_max m) (home_of H (shm_max m) es') b"
  shows "shm_rep H tr (m\<lparr>shm_buckets := b, shm_entries := a\<rparr>) es'"
  using assms shm_repD(1,2) [OF assms(1)] by (simp add: shm_rep_def)

text \<open>The first half: the bucket of the key is gone and the rest of the table is probe-correct.\<close>

lemma remove_bucket_ok:
  assumes rep: "shm_rep H tr m es" and i: "i < shm_max m" "shm_buckets m ! i < length es"
  shows "\<exists>b'. remove_bucket_and_rehash H i m = Some (shm_buckets m ! i, m\<lparr>shm_buckets := b'\<rparr>) \<and>
           length b' = shm_max m \<and> chains_ok (shm_max m) (home_of H (shm_max m) es) b' \<and>
           mset b' = add_mset EMPTY_BUCKET (mset (shm_buckets m) - {#shm_buckets m ! i#})"
proof -
  note D = shm_repD [OF rep]
  let ?M = "shm_max m" and ?b = "shm_buckets m"
  let ?home = "home_of H ?M es"
  from D(1) obtain n where M: "?M = 2 ^ n" by blast
  have home: "?home d < ?M" for d using D(10) by (simp add: home_of_def)
  have "\<exists>key. entry_key m d = Some key \<and> H key mod ?M = ?home d"
    if "d \<in> set (?b[i := EMPTY_BUCKET])" "d \<noteq> EMPTY_BUCKET" for d
  proof -
    have "d \<in> set ?b" using that set_update_subset_insert [of ?b i EMPTY_BUCKET] by blast
    then obtain j where "j < ?M" "?b ! j = d" using D(6) by (metis in_set_conv_nth)
    with bucket_in [OF D(7,6), of j] that(2) have "d < length es" by auto
    with entry_key_rep [OF rep] show ?thesis by (simp add: home_of_def)
  qed
  moreover have "shift_inv ?M ?home (?b[i := EMPTY_BUCKET]) i 1"
    by (rule shift_inv_start [OF D(8,6) i(1) home])
  ultimately have "\<exists>b'. rehash_loop H m (?b[i := EMPTY_BUCKET]) i (Suc i mod ?M) = Some b' \<and>
      length b' = ?M \<and> mset b' = mset (?b[i := EMPTY_BUCKET]) \<and> chains_ok ?M ?home b'"
    by (intro rehash_loop_ok [OF refl M, of _ _ _ i 1]) simp_all
  then show ?thesis
    using i(1) D(6) by (auto simp: remove_bucket_and_rehash_def next_bucket_mod [OF M] mset_update)
qed

text \<open>The second half: the last dense element takes the freed dense index.\<close>

lemma relocate_ok:
  assumes M: "M = 2 ^ n" and "length b = M" "chains_ok M home b" "mset b = add_mset EMPTY_BUCKET (bucket_set M (Suc l) - {#d#})"
    and d: "d < l" and l: "Suc l \<le> M" "M < EMPTY_BUCKET" and h: "h < M"
    and home': "home' d = home l" "\<And>x. x < l \<Longrightarrow> x \<noteq> d \<Longrightarrow> home' x = home x"
  shows "\<exists>b'. update_last_loop M M b l d h h = Some b' \<and> length b' = M \<and>
              mset b' = bucket_set M l \<and> chains_ok M home' b'"
proof -
  have lM: "l < M" using l(1) by simp
  have E: "EMPTY_BUCKET \<in># bucket_set M l" using lM by (simp add: bucket_set_def)
  have dE: "d \<noteq> EMPTY_BUCKET" "l \<noteq> EMPTY_BUCKET" "d \<noteq> l" using d l by auto
  have dB: "d \<in># bucket_set M l - {#EMPTY_BUCKET#}"
    using d dE by (simp add: bucket_set_def in_diff_count count_mset_set')
  have mb: "mset b = add_mset EMPTY_BUCKET (add_mset l (bucket_set M l - {#EMPTY_BUCKET#} - {#d#}))"
    using dE assms(4) by (simp add: bucket_set_Suc [OF lM])
  have cnt1: "count (mset b) l = 1" "count (mset b) d = 0"
    unfolding mb using dE d by (simp_all add: bucket_set_def count_mset_set')
  then have "l \<in># mset b" by (metis count_eq_zero_iff zero_neq_one)
  then obtain j where j: "j < M" "b ! j = l" using assms(2) by (metis in_set_conv_nth set_mset_mset)
  have uniq: "p = j" if "p < M" "b ! p = l" for p
  proof (rule ccontr)
    assume "p \<noteq> j"
    with that j count_mset_nth [of p b j] assms(2) have "2 \<le> count (mset b) l" by simp
    with cnt1(1) show False by simp
  qed
  have "probe_loop M M (\<lambda>i. b ! i = l) h h = Some (Some j)"
  proof (rule probe_found [where stop = "\<lambda>i. b ! i = l", OF M h j])
    fix p assume "p < M" "cdist M h p < cdist M h j"
    then show "b ! p \<noteq> l" using uniq [of p] by (metis less_irrefl)
  qed
  then have run: "update_last_loop M M b l d h h = Some (b[j := d])"
    by (simp add: update_last_loop_probe)
  have "mset (b[j := d]) = add_mset d (mset b - {#l#})" using j assms(2) by (simp add: mset_update)
  also have "mset b - {#l#} = add_mset EMPTY_BUCKET (bucket_set M l - {#EMPTY_BUCKET#} - {#d#})"
    using dE unfolding mb by (metis add_mset_commute add_mset_remove_trivial)
  also have "add_mset d (add_mset EMPTY_BUCKET (bucket_set M l - {#EMPTY_BUCKET#} - {#d#})) = bucket_set M l"
    by (subst add_mset_commute) (simp only: insert_DiffM [OF dB] insert_DiffM [OF E])
  finally have ms: "mset (b[j := d]) = bucket_set M l" .
  have old: "b ! p < l \<and> b ! p \<noteq> d" if "p < M" "b ! p \<noteq> EMPTY_BUCKET" "p \<noteq> j" for p
  proof -
    have "b ! p \<in># mset b" using that(1) assms(2) by simp
    then have "b ! p \<noteq> d" using cnt1(2) by (metis count_eq_zero_iff)
    moreover have "b ! p \<noteq> l" using uniq that by blast
    ultimately show ?thesis using bucket_in [OF ms, of p] that assms(2) by auto
  qed
  have "chains_ok M home' (b[j := d])"
  proof (rule chains_ok_cong [OF assms(3)])
    fix i assume i: "i < M"
    show "b[j := d] ! i = EMPTY_BUCKET \<longleftrightarrow> b ! i = EMPTY_BUCKET"
      using i j dE assms(2) by (cases "i = j") auto
    assume "b ! i \<noteq> EMPTY_BUCKET"
    then show "home' (b[j := d] ! i) = home (b ! i)"
      using i j home' old assms(2) by (cases "i = j") auto
  qed (use assms(2) in auto)
  with run ms assms(2) show ?thesis by simp
qed

theorem shm_erase_rep:
  assumes rep: "shm_rep H tr m es" and tr: "traits_ok tr"
  shows "\<exists>m' es'. shm_erase H tr key m = Some (key \<in> fst ` set es, m') \<and> shm_rep H tr m' es' \<and>
           shm_max m' = shm_max m \<and> map_of es' = (map_of es)(key := None) \<and>
           length es' = (if key \<in> fst ` set es then length es - 1 else length es)"
  using rep
proof (cases rule: shm_probe [where key = key])
  case (hit i)
  note D = shm_repD [OF rep]
  let ?M = "shm_max m" and ?b = "shm_buckets m" and ?a = "shm_entries m"
  let ?d = "?b ! i"
  from D(1) obtain n where M: "?M = 2 ^ n" by blast
  obtain l where l: "length es = Suc l" using hit(2) by (cases "length es") auto
  have in_es: "key \<in> fst ` set es" using nth_mem [OF hit(2)] hit(3) by force
  have ne: "i \<noteq> EMPTY_BUCKET" using hit(1) D(2) by simp
  have size: "sa_size ?a = Suc l" using arr_rep_size [OF D(3)] l by (simp add: sa_size_def)
  have lM: "Suc l \<le> ?M" using D(9) l by simp
  from remove_bucket_ok [OF rep hit(1,2)] obtain b1 where b1:
    "remove_bucket_and_rehash H i m = Some (?d, m\<lparr>shm_buckets := b1\<rparr>)" "length b1 = ?M"
    "chains_ok ?M (home_of H ?M es) b1" "mset b1 = add_mset EMPTY_BUCKET (mset ?b - {#?d#})" by blast
  define es1 where "es1 = es[?d := last es]"
  define a1 where "a1 = ?a\<lparr>arr_data := (arr_data ?a)[?d := arr_data ?a ! l]\<rparr>"
  have last: "last es = es ! l" using l by (cases es rule: rev_cases) (auto simp: nth_append)
  have rep1: "arr_rep tr a1 es1"
  proof -
    from D(3) obtain rest where r: "arr_data ?a = map Some es @ rest" "arr_size ?a = length es"
      "arr_capacity ?a = length es + length rest" "\<not> triv_destroy tr \<longrightarrow> set rest \<subseteq> {None}"
      by (rule arr_repE)
    then show ?thesis using hit(2) l
      by (intro arr_repI [where rest = rest])
         (auto simp: a1_def es1_def nth_append list_update_append map_update last)
  qed
  have cap1: "arr_capacity a1 = ?M" using D(4) by (simp add: a1_def)
  have pop: "arr_rep tr (sa_pop_back tr a1) (swap_remove ?d es)" "arr_capacity (sa_pop_back tr a1) = ?M"
    using sa_pop_back_rep [OF rep1] cap1 by (auto simp: swap_remove_def es1_def sa_pop_back_def)
  note keys = swap_remove_keys [OF D(5) hit(2)]
  show ?thesis
  proof (cases "?d = l")
    case True
    then have same: "a1 = ?a" "es1 = es" using l by (auto simp: a1_def es1_def last)
    have "mset b1 = bucket_set ?M l"
      using b1(4) D(7) l True lM by (simp add: bucket_set_Suc) (simp add: bucket_set_def)
    moreover have "chains_ok ?M (home_of H ?M (swap_remove ?d es)) b1"
    proof (rule chains_ok_cong [OF b1(3)])
      fix j assume "j < ?M" "b1 ! j \<noteq> EMPTY_BUCKET"
      with bucket_in [OF \<open>mset b1 = bucket_set ?M l\<close> b1(2)] have "b1 ! j < l" by blast
      then show "home_of H ?M (swap_remove ?d es) (b1 ! j) = home_of H ?M es (b1 ! j)"
        using l by (simp add: swap_remove_def same(2) [unfolded es1_def] home_of_def nth_butlast)
    qed (use b1(2) in auto)
    ultimately have "shm_rep H tr (m\<lparr>shm_buckets := b1, shm_entries := sa_pop_back tr a1\<rparr>)
        (swap_remove ?d es)"
      using l by (intro shm_rep_assemble [OF rep pop keys(1) b1(2)]) simp_all
    moreover have "shm_erase H tr key m =
        Some (True, m\<lparr>shm_buckets := b1, shm_entries := sa_pop_back tr a1\<rparr>)"
      using hit(4) ne b1(1) size True same(1) by (simp add: shm_erase_def Let_def)
    ultimately show ?thesis using in_es keys(2) hit(3) l by auto
  next
    case False
    then have d: "?d < l" using hit(2) l by simp
    let ?h = "home_of H ?M es l"
    have key1: "entry_key (m\<lparr>shm_buckets := b1, shm_entries := a1\<rparr>) ?d = Some (fst (es ! l))"
      using sa_index_rep [OF rep1, of ?d] hit(2) by (simp add: entry_key_def es1_def last)
    have sr: "swap_remove ?d es ! x = es1 ! x" if "x < l" for x
      using that l by (simp add: swap_remove_def es1_def nth_butlast)
    have "\<exists>b2. update_last_loop ?M ?M b1 l ?d ?h ?h = Some b2 \<and> length b2 = ?M \<and>
            mset b2 = bucket_set ?M l \<and> chains_ok ?M (home_of H ?M (swap_remove ?d es)) b2"
    proof (rule relocate_ok [OF M b1(2,3) _ d lM D(2)])
      show "mset b1 = add_mset EMPTY_BUCKET (bucket_set ?M (Suc l) - {#?d#})"
        using b1(4) D(7) l by simp
      show "?h < ?M" using D(10) by (simp add: home_of_def)
      show "home_of H ?M (swap_remove ?d es) ?d = ?h"
        using d l by (simp add: home_of_def sr) (simp add: es1_def last)
      show "home_of H ?M (swap_remove ?d es) x = home_of H ?M es x" if "x < l" "x \<noteq> ?d" for x
        using that by (simp add: home_of_def sr) (simp add: es1_def)
    qed
    then obtain b2 where b2: "update_last_loop ?M ?M b1 l ?d ?h ?h = Some b2" "length b2 = ?M"
      "mset b2 = bucket_set ?M l" "chains_ok ?M (home_of H ?M (swap_remove ?d es)) b2" by blast
    have "update_last_element_bucket H l ?d (m\<lparr>shm_buckets := b1, shm_entries := a1\<rparr>) =
          Some (m\<lparr>shm_buckets := b2, shm_entries := a1\<rparr>)"
      using b2(1) key1
      by (simp add: update_last_element_bucket_def hash_wrapper_mod [OF M] home_of_def Let_def)
    then have "shm_erase H tr key m =
        Some (True, m\<lparr>shm_buckets := b2, shm_entries := sa_pop_back tr a1\<rparr>)"
      using hit(4) ne b1(1) size False by (simp add: shm_erase_def a1_def Let_def)
    moreover have "shm_rep H tr (m\<lparr>shm_buckets := b2, shm_entries := sa_pop_back tr a1\<rparr>)
        (swap_remove ?d es)"
      using b2 l by (intro shm_rep_assemble [OF rep pop keys(1) b2(2)]) simp_all
    ultimately show ?thesis using in_es keys(2) hit(3) l by auto
  qed
next
  case (free i)
  then have "map_of es key = None" by (simp add: map_of_eq_None_iff)
  with free rep show ?thesis by (auto simp: shm_erase_def fun_eq_iff)
next
  case full
  then have "map_of es key = None" by (simp add: map_of_eq_None_iff)
  with full rep show ?thesis by (auto simp: shm_erase_def fun_eq_iff)
qed

section \<open>The interface: a bounded finite map\<close>

text \<open>The contract of the map on functions: an insertion of an absent key into a full map is refused.\<close>

definition bmap_put :: "nat \<Rightarrow> 'k \<Rightarrow> 'v \<Rightarrow> ('k \<rightharpoonup> 'v) \<Rightarrow> bool \<times> ('k \<rightharpoonup> 'v)" where
  "bmap_put c k v f = (if f k \<noteq> None \<or> card (dom f) < c then (True, f(k \<mapsto> v)) else (False, f))"

definition bmap_del :: "'k \<Rightarrow> ('k \<rightharpoonup> 'v) \<Rightarrow> bool \<times> ('k \<rightharpoonup> 'v)" where
  "bmap_del k f = (f k \<noteq> None, f(k := None))"

datatype ('k, 'v) map_op = Put 'k 'v | Del 'k

fun bmap_run :: "nat \<Rightarrow> ('k, 'v) map_op list \<Rightarrow> ('k \<rightharpoonup> 'v) \<Rightarrow> bool list \<times> ('k \<rightharpoonup> 'v)" where
  "bmap_run c [] f = ([], f)"
| "bmap_run c (op # ops) f =
     (let (b, f1) = (case op of Put k v \<Rightarrow> bmap_put c k v f | Del k \<Rightarrow> bmap_del k f);
          (bs, f2) = bmap_run c ops f1
      in (b # bs, f2))"

fun map_run ::
  "('k \<Rightarrow> 'v \<Rightarrow> 'm \<Rightarrow> (bool \<times> 'm) option) \<Rightarrow> ('k \<Rightarrow> 'm \<Rightarrow> (bool \<times> 'm) option) \<Rightarrow>
   ('k, 'v) map_op list \<Rightarrow> 'm \<Rightarrow> (bool list \<times> 'm) option" where
  "map_run put del [] m = Some ([], m)"
| "map_run put del (op # ops) m =
     (case (case op of Put k v \<Rightarrow> put k v m | Del k \<Rightarrow> del k m) of
        None \<Rightarrow> None
      | Some (b, m1) \<Rightarrow>
          (case map_run put del ops m1 of
             None \<Rightarrow> None
           | Some (bs, m2) \<Rightarrow> Some (b # bs, m2)))"

locale bounded_map =
  fixes inv :: "'m \<Rightarrow> bool"
    and lookup :: "'k \<Rightarrow> 'm \<Rightarrow> 'v option"
    and cap :: "'m \<Rightarrow> nat"
    and put :: "'k \<Rightarrow> 'v \<Rightarrow> 'm \<Rightarrow> (bool \<times> 'm) option"
    and del :: "'k \<Rightarrow> 'm \<Rightarrow> (bool \<times> 'm) option"
  assumes put_refines: "inv m \<Longrightarrow> \<exists>b m'. put k v m = Some (b, m') \<and> inv m' \<and> cap m' = cap m \<and>
            (b, \<lambda>j. lookup j m') = bmap_put (cap m) k v (\<lambda>j. lookup j m)"
    and del_refines: "inv m \<Longrightarrow> \<exists>b m'. del k m = Some (b, m') \<and> inv m' \<and> cap m' = cap m \<and>
            (b, \<lambda>j. lookup j m') = bmap_del k (\<lambda>j. lookup j m)"
begin

lemma run_refines:
  assumes "inv m"
  shows "\<exists>bs m'. map_run put del ops m = Some (bs, m') \<and> inv m' \<and> cap m' = cap m \<and>
           (bs, \<lambda>j. lookup j m') = bmap_run (cap m) ops (\<lambda>j. lookup j m)"
  using assms
proof (induction ops arbitrary: m)
  case Nil
  then show ?case by simp
next
  case (Cons op ops)
  have "\<exists>b m1. (case op of Put k v \<Rightarrow> put k v m | Del k \<Rightarrow> del k m) = Some (b, m1) \<and> inv m1 \<and>
          cap m1 = cap m \<and> (b, \<lambda>j. lookup j m1) =
          (case op of Put k v \<Rightarrow> bmap_put (cap m) k v (\<lambda>j. lookup j m) | Del k \<Rightarrow> bmap_del k (\<lambda>j. lookup j m))"
    using put_refines [OF Cons.prems] del_refines [OF Cons.prems] by (cases op) simp_all
  then obtain b m1 where 1: "(case op of Put k v \<Rightarrow> put k v m | Del k \<Rightarrow> del k m) = Some (b, m1)"
    "inv m1" "cap m1 = cap m" "(case op of Put k v \<Rightarrow> bmap_put (cap m) k v (\<lambda>j. lookup j m)
       | Del k \<Rightarrow> bmap_del k (\<lambda>j. lookup j m)) = (b, \<lambda>j. lookup j m1)" by metis
  from Cons.IH [OF 1(2)] obtain bs m2 where 2: "map_run put del ops m1 = Some (bs, m2)"
    "inv m2" "cap m2 = cap m" "bmap_run (cap m) ops (\<lambda>j. lookup j m1) = (bs, \<lambda>j. lookup j m2)"
    unfolding 1(3) by metis
  show ?case
    by (intro exI [of _ "b # bs"] exI [of _ m2]) (simp add: 1(1,4) 2)
qed

lemma put_get:
  assumes "inv m" "put k v m = Some (True, m')"
  shows "lookup j m' = (if j = k then Some v else lookup j m)"
  using put_refines [OF assms(1), of k v] assms(2)
  by (auto simp: bmap_put_def fun_eq_iff split: if_splits)

end

definition shm_inv :: "('k \<Rightarrow> nat) \<Rightarrow> elem_traits \<Rightarrow> ('k, 'v) shm \<Rightarrow> bool" where
  "shm_inv H tr m \<longleftrightarrow> traits_ok tr \<and> (\<exists>es. shm_rep H tr m es)"

lemma card_dom_map_of: "distinct (map fst es) \<Longrightarrow> card (dom (map_of es)) = length es"
  using distinct_card [of "map fst es"] by (simp add: dom_map_of_conv_image_fst)

interpretation shm: bounded_map "shm_inv H tr" "shm_find H" shm_max "shm_insert H" "shm_erase H tr"
  for H tr
proof
  fix m :: "('a, 'b) shm" and k v
  assume "shm_inv H tr m"
  then obtain es where tr: "traits_ok tr" and rep: "shm_rep H tr m es" by (auto simp: shm_inv_def)
  note D = shm_repD [OF rep]
  have find: "(\<lambda>j. shm_find H j m) = map_of es" using shm_find_rep [OF rep] by (simp add: fun_eq_iff)
  have key: "key \<in> fst ` set es \<longleftrightarrow> map_of es key \<noteq> None" for key by (simp add: map_of_eq_None_iff)
  show "\<exists>b m'. shm_insert H k v m = Some (b, m') \<and> shm_inv H tr m' \<and> shm_max m' = shm_max m \<and>
          (b, \<lambda>j. shm_find H j m') = bmap_put (shm_max m) k v (\<lambda>j. shm_find H j m)"
  proof -
    from shm_insert_rep [OF rep, of k v] obtain b m' es' where i:
      "shm_insert H k v m = Some (b, m')" "shm_rep H tr m' es'" "shm_max m' = shm_max m"
      "b = (k \<in> fst ` set es \<or> length es < shm_max m)"
      "map_of es' = (if b then (map_of es)(k \<mapsto> v) else map_of es)" by blast
    have "(\<lambda>j. shm_find H j m') = map_of es'" using shm_find_rep [OF i(2)] by (simp add: fun_eq_iff)
    then have "(b, \<lambda>j. shm_find H j m') = bmap_put (shm_max m) k v (\<lambda>j. shm_find H j m)"
      using i(4,5) card_dom_map_of [OF D(5)] by (auto simp: find bmap_put_def key)
    with i tr show ?thesis by (auto simp: shm_inv_def)
  qed
  show "\<exists>b m'. shm_erase H tr k m = Some (b, m') \<and> shm_inv H tr m' \<and> shm_max m' = shm_max m \<and>
          (b, \<lambda>j. shm_find H j m') = bmap_del k (\<lambda>j. shm_find H j m)"
  proof -
    from shm_erase_rep [OF rep tr, of k] obtain m' es' where e:
      "shm_erase H tr k m = Some (k \<in> fst ` set es, m')" "shm_rep H tr m' es'"
      "shm_max m' = shm_max m" "map_of es' = (map_of es)(k := None)" by blast
    have "(\<lambda>j. shm_find H j m') = map_of es'" using shm_find_rep [OF e(2)] by (simp add: fun_eq_iff)
    with e tr show ?thesis by (auto simp: shm_inv_def find bmap_del_def key)
  qed
qed

lemma shm_inv_init: "M = 2 ^ n \<Longrightarrow> M < EMPTY_BUCKET \<Longrightarrow> traits_ok tr \<Longrightarrow> shm_inv H tr (StaticHashMap tr M)"
  unfolding shm_inv_def using shm_rep_init by blast

section \<open>Properties\<close>

text \<open>C1: Any sequence of insertions and erasures on a fresh hash map behaves as on a finite map bounded by
  \<open>MaxSize\<close>: no operation gets stuck (the probe and shift loops end, even on a full table), each
  returns the flag of the map operation, and lookups afterwards agree with the map, whatever the
  hash function.\<close>

theorem hash_map_refines_map:
  fixes H :: "'k \<Rightarrow> nat" and ops :: "('k, 'v) map_op list"
  assumes "M = 2 ^ n" "M < EMPTY_BUCKET" "traits_ok tr"
  shows "\<exists>bs m. map_run (shm_insert H) (shm_erase H tr) ops (StaticHashMap tr M) = Some (bs, m) \<and>
           shm_inv H tr m \<and> (bs, \<lambda>k. shm_find H k m) = bmap_run M ops Map.empty"
proof -
  let ?m = "StaticHashMap tr M :: ('k, 'v) shm"
  have "shm_max ?m = M" by (simp add: StaticHashMap_def shm_clear_def)
  moreover have "(\<lambda>k. shm_find H k ?m) = Map.empty"
    using find_eq [OF shm_rep_init [OF assms(1,2), of H tr]] by simp
  ultimately show ?thesis using shm.run_refines [OF shm_inv_init [OF assms], of H ops] by auto
qed

theorem hash_map_refines_map_witness:
  "\<exists>bs m. map_run (shm_insert (\<lambda>k. k)) (shm_erase (\<lambda>k. k) \<lparr>triv_copy = True, triv_destroy = True\<rparr>)
       [Put 1 ''a'', Put 5 ''b'', Put 9 ''c'', Del 1] (StaticHashMap \<lparr>triv_copy = True, triv_destroy = True\<rparr> 4) =
       Some (bs, m) \<and> bs = [True, True, True, True] \<and> shm_find (\<lambda>k. k) 9 m = Some ''c'' \<and>
     shm_find (\<lambda>k. k) (1 :: nat) m = None"
proof -
  let ?tr = "\<lparr>triv_copy = True, triv_destroy = True\<rparr>"
  have card: "card (dom [1 \<mapsto> ''a'']) < 4" "card (dom [1 \<mapsto> ''a'', 5 \<mapsto> ''b'']) < 4"
    for x :: nat by (simp_all add: card_insert_if)
  from hash_map_refines_map [of 4 2 ?tr "\<lambda>k. k" "[Put (1::nat) ''a'', Put 5 ''b'', Put 9 ''c'', Del 1]"]
  obtain bs m where r: "map_run (shm_insert (\<lambda>k. k)) (shm_erase (\<lambda>k. k) ?tr)
       [Put (1::nat) ''a'', Put 5 ''b'', Put 9 ''c'', Del 1] (StaticHashMap ?tr 4) = Some (bs, m)"
    "(bs, \<lambda>k. shm_find (\<lambda>k. k) k m) =
       bmap_run 4 [Put (1::nat) ''a'', Put 5 ''b'', Put 9 ''c'', Del 1] Map.empty"
    by (auto simp: EMPTY_BUCKET_def traits_ok_def)
  have "bmap_run 4 [Put (1::nat) ''a'', Put 5 ''b'', Put 9 ''c'', Del 1] Map.empty =
        ([True, True, True, True], [5 \<mapsto> ''b'', 9 \<mapsto> ''c''])"
    by (simp add: bmap_put_def bmap_del_def card_insert_if fun_upd_twist fun_eq_iff)
  with r show ?thesis by (auto simp: fun_eq_iff)
qed

text \<open>\<open>operator[]\<close> on a full map with an absent key has no defined result: the slot
  \<open>0xFFFF\<close> that the probe returns is used as an index into the bucket array.\<close>

theorem hash_map_subscript_full:
  assumes "shm_rep H tr m es" "length es = shm_max m" "key \<notin> fst ` set es"
  shows "shm_subscript H dflt key m = None"
  using shm_subscript_rep [OF assms(1), of key dflt] assms(2,3) by simp

theorem hash_map_subscript_full_witness:
  "\<exists>m. shm_insert (\<lambda>k. k) (3::nat) ''x'' (StaticHashMap \<lparr>triv_copy = True, triv_destroy = True\<rparr> 1) = Some (True, m) \<and>
       shm_subscript (\<lambda>k. k) ''d'' 4 m = None"
proof -
  let ?tr = "\<lparr>triv_copy = True, triv_destroy = True\<rparr>"
  have rep: "shm_rep (\<lambda>k. k) ?tr (StaticHashMap ?tr 1 :: (nat, char list) shm) []"
    by (rule shm_rep_init [of 1 0]) (simp_all add: EMPTY_BUCKET_def)
  have mx: "shm_max (StaticHashMap ?tr 1 :: (nat, char list) shm) = 1"
    by (simp add: StaticHashMap_def shm_clear_def)
  from shm_insert_rep [OF rep, of 3 "''x''"] mx obtain m es where
    m: "shm_insert (\<lambda>k. k) (3::nat) ''x'' (StaticHashMap ?tr 1) = Some (True, m)"
    "shm_rep (\<lambda>k. k) ?tr m es" "shm_max m = 1" "map_of es = [3 \<mapsto> ''x'']" "length es = 1" by auto
  have "4 \<notin> fst ` set es" using m(4) by (metis fun_upd_apply map_of_eq_None_iff numeral_eq_iff semiring_norm(89))
  with hash_map_subscript_full [OF m(2)] m show ?thesis by auto
qed

end
