(* ===== verification/Small_Vector.thy ===== *)
theory Small_Vector
  imports Static_Array
begin

text \<open>
  \<open>SmallVector<T, N>\<close> (\<open>include/Optimization/SmallVector/\<close>): a growing vector whose first
  \<open>N\<close> elements live inside the object. The argument \<open>ok\<close> of an operation says whether the
  heap request it may make succeeds. A result \<open>None\<close> is a construction outside the storage
  (the code has no check after a failed \<open>malloc\<close>), a pointer to nothing, or an index the
  unsigned subtraction would wrap on. The theorems state that with memory available every
  operation is the list operation, for both branches of the trait dispatch; which requests
  fail safely and which do not; and that the capacity grows geometrically.
\<close>

section \<open>Operations\<close>

definition SmallVector :: "nat \<Rightarrow> 'a arr" where
  "SmallVector N = ArrayBase N False"

definition sv_full :: "'a arr \<Rightarrow> bool" where "sv_full a \<longleftrightarrow> arr_size a = arr_capacity a"

definition sv_index :: "'a arr \<Rightarrow> nat \<Rightarrow> 'a option" where
  "sv_index a idx = (if idx < arr_capacity a then arr_data a ! idx else None)"

definition sv_back :: "'a arr \<Rightarrow> 'a option" where
  "sv_back a = (if arr_size a = 0 then None else sv_index a (arr_size a - 1))"

text \<open>The loop \<open>for (i = 0; i < n; i++) new (dst + i) T(src[i])\<close>.\<close>

definition construct_loop :: "'a option list \<Rightarrow> nat \<Rightarrow> 'a option list \<Rightarrow> 'a option list" where
  "construct_loop src n dst = fold (\<lambda>i d. d[i := src ! i]) [0..<n] dst"

text \<open>Bulk copy of the first \<open>n\<close> elements: one \<open>memcpy\<close>, or the construction loop.\<close>

definition copy_elems ::
  "elem_traits \<Rightarrow> 'a option list \<Rightarrow> nat \<Rightarrow> 'a option list \<Rightarrow> 'a option list" where
  "copy_elems tr src n dst =
     (if triv_copy tr then memcpy_to dst 0 (take n src) else construct_loop src n dst)"

definition sv_reserve :: "elem_traits \<Rightarrow> bool \<Rightarrow> nat \<Rightarrow> 'a arr \<Rightarrow> 'a arr" where
  "sv_reserve tr ok new_cap a =
     (if triv_copy tr then reserve_pod ok new_cap a
      else if new_cap \<le> arr_capacity a then a
      else case mallocForGrow ok new_cap a of
             None \<Rightarrow> a
           | Some new_data \<Rightarrow>
               a\<lparr>arr_data := construct_loop (arr_data a) (arr_size a) new_data,
                 arr_capacity := new_cap, arr_is_heap := True\<rparr>)"

definition sv_push_back :: "elem_traits \<Rightarrow> bool \<Rightarrow> 'a \<Rightarrow> 'a arr \<Rightarrow> 'a arr option" where
  "sv_push_back tr ok v a =
     (let a1 = (if arr_capacity a \<le> arr_size a then sv_reserve tr ok (arr_capacity a * 2) a else a)
      in if arr_size a1 < arr_capacity a1
         then Some (a1\<lparr>arr_data := (arr_data a1)[arr_size a1 := Some v], arr_size := arr_size a1 + 1\<rparr>)
         else None)"

definition sv_pop_back :: "elem_traits \<Rightarrow> 'a arr \<Rightarrow> 'a arr" where
  "sv_pop_back tr a =
     (if 0 < arr_size a
      then a\<lparr>arr_size := arr_size a - 1,
             arr_data := destroy_slots tr (arr_size a - 1) (arr_size a) (arr_data a)\<rparr>
      else a)"

definition sv_clear :: "elem_traits \<Rightarrow> 'a arr \<Rightarrow> 'a arr" where
  "sv_clear tr a = a\<lparr>arr_data := destroy_slots tr 0 (arr_size a) (arr_data a), arr_size := 0\<rparr>"

definition sv_erase :: "elem_traits \<Rightarrow> nat \<Rightarrow> 'a arr \<Rightarrow> 'a arr" where
  "sv_erase tr index a =
     (if triv_copy tr then erase_pod index a
      else if arr_size a \<le> index then a
      else let d = move_down 1 index (arr_size a - 1) (arr_data a)
           in a\<lparr>arr_data := destroy_slots tr (arr_size a - 1) (arr_size a) d,
                arr_size := arr_size a - 1\<rparr>)"

definition sv_erase_it :: "elem_traits \<Rightarrow> int \<Rightarrow> 'a arr \<Rightarrow> nat \<times> 'a arr" where
  "sv_erase_it tr pos a =
     (if pos < 0 \<or> int (arr_size a) \<le> pos then (arr_size a, a)
      else (nat pos, sv_erase tr (nat pos) a))"

text \<open>The range loop \<open>for (i = end; i < size; i++) d[i - cnt] = d[i]\<close>.\<close>

definition sv_shift_loop :: "nat \<Rightarrow> nat \<Rightarrow> nat \<Rightarrow> 'a list \<Rightarrow> 'a list" where
  "sv_shift_loop end_idx n cnt d = fold (\<lambda>i d. d[i - cnt := d ! i]) [end_idx..<n] d"

definition sv_erase_range :: "elem_traits \<Rightarrow> int \<Rightarrow> int \<Rightarrow> 'a arr \<Rightarrow> nat \<times> 'a arr" where
  "sv_erase_range tr it1 it2 a =
     (if it2 \<le> it1 \<or> it1 < 0 \<or> int (arr_size a) < it2 then (arr_size a, a)
      else let start_idx = nat it1; end_idx = nat it2; cnt = end_idx - start_idx in
        (start_idx,
         if triv_copy tr then erase_pod_range start_idx end_idx a
         else let d = sv_shift_loop end_idx (arr_size a) cnt (arr_data a)
              in a\<lparr>arr_data := destroy_slots tr (arr_size a - cnt) (arr_size a) d,
                   arr_size := arr_size a - cnt\<rparr>))"

text \<open>
  \<open>insert\<close> without a bounds check on \<open>index\<close>. The shift destroys every source after the
  move, so the slot \<open>index\<close> is raw when the new element is constructed.
\<close>

fun sv_insert_shift :: "nat \<Rightarrow> nat \<Rightarrow> 'a option list \<Rightarrow> 'a option list" where
  "sv_insert_shift 0 index d = d"
| "sv_insert_shift (Suc i) index d =
     (if index < Suc i then sv_insert_shift i index (d[Suc i := d ! i, i := None]) else d)"

definition sv_insert :: "elem_traits \<Rightarrow> bool \<Rightarrow> bool \<Rightarrow> nat \<Rightarrow> 'a \<Rightarrow> 'a arr \<Rightarrow> 'a arr option" where
  "sv_insert tr ok ok2 index v a =
     (if arr_size a < index then None
      else let a1 = (if arr_capacity a \<le> arr_size a then sv_reserve tr ok (arr_capacity a * 2) a else a)
      in if triv_copy tr then Some (snd (insert_pod ok2 index v a1))
         else if arr_capacity a1 \<le> arr_size a1 then None
         else Some (a1\<lparr>arr_data := (sv_insert_shift (arr_size a1) index (arr_data a1))[index := Some v],
                       arr_size := arr_size a1 + 1\<rparr>))"

section \<open>Copy, move and initializer lists\<close>

text \<open>\<open>fresh_storage\<close>: heap storage from an unchecked \<open>malloc\<close>, or the object's own \<open>N\<close> slots.\<close>

definition fresh_storage :: "bool \<Rightarrow> bool \<Rightarrow> nat \<Rightarrow> nat \<Rightarrow> 'a option list option" where
  "fresh_storage heap ok cap N =
     (if heap then (if ok then Some (replicate cap None) else None) else Some (replicate N None))"

definition sv_copy :: "elem_traits \<Rightarrow> bool \<Rightarrow> nat \<Rightarrow> 'a arr \<Rightarrow> 'a arr option" where
  "sv_copy tr ok N other =
     (case fresh_storage (arr_is_heap other) ok (arr_capacity other) N of
        None \<Rightarrow> None
      | Some d \<Rightarrow>
          Some \<lparr>arr_data = copy_elems tr (arr_data other) (arr_size other) d,
                arr_size = arr_size other, arr_capacity = arr_capacity other,
                arr_is_heap = arr_is_heap other, arr_fixed = False\<rparr>)"

definition sv_copy_assign ::
  "elem_traits \<Rightarrow> bool \<Rightarrow> nat \<Rightarrow> bool \<Rightarrow> 'a arr \<Rightarrow> 'a arr \<Rightarrow> 'a arr option" where
  "sv_copy_assign tr ok N same this other =
     (if same then Some this
      else let this = sv_clear tr this in
        (case fresh_storage (arr_is_heap other) ok (arr_capacity other) N of
           None \<Rightarrow> None
         | Some d \<Rightarrow>
             Some (this\<lparr>arr_capacity := arr_capacity other, arr_size := arr_size other,
                        arr_is_heap := arr_is_heap other,
                        arr_data := copy_elems tr (arr_data other) (arr_size other) d\<rparr>)))"

text \<open>What moving leaves of the source: a heap buffer is handed over, inline elements are
  moved one by one and destroyed (or copied as bytes).\<close>

definition sv_moved_from :: "elem_traits \<Rightarrow> nat \<Rightarrow> 'a arr \<Rightarrow> 'a arr" where
  "sv_moved_from tr N other =
     (if arr_is_heap other
      then other\<lparr>arr_data := replicate N None, arr_size := 0, arr_is_heap := False, arr_capacity := N\<rparr>
      else other\<lparr>arr_data := (if triv_copy tr then arr_data other
                              else fold (\<lambda>i d. d[i := None]) [0..<arr_size other] (arr_data other)),
                 arr_size := 0\<rparr>)"

definition sv_move :: "elem_traits \<Rightarrow> nat \<Rightarrow> 'a arr \<Rightarrow> 'a arr \<times> 'a arr" where
  "sv_move tr N other =
     (\<lparr>arr_data = (if arr_is_heap other then arr_data other
                   else copy_elems tr (arr_data other) (arr_size other) (replicate N None)),
       arr_size = arr_size other, arr_capacity = arr_capacity other,
       arr_is_heap = arr_is_heap other, arr_fixed = False\<rparr>,
      sv_moved_from tr N other)"

definition sv_move_assign ::
  "elem_traits \<Rightarrow> nat \<Rightarrow> bool \<Rightarrow> 'a arr \<Rightarrow> 'a arr \<Rightarrow> 'a arr \<times> 'a arr" where
  "sv_move_assign tr N same this other =
     (if same then (this, this)
      else let this = sv_clear tr this in
        (this\<lparr>arr_capacity := arr_capacity other, arr_size := arr_size other,
              arr_is_heap := arr_is_heap other,
              arr_data := (if arr_is_heap other then arr_data other
                           else copy_elems tr (arr_data other) (arr_size other) (replicate N None))\<rparr>,
         sv_moved_from tr N other))"

definition sv_init_list :: "elem_traits \<Rightarrow> bool \<Rightarrow> nat \<Rightarrow> 'a list \<Rightarrow> 'a arr option" where
  "sv_init_list tr ok N init =
     (let heap = N < length init; cap = (if heap then length init else N) in
      case fresh_storage heap ok cap N of
        None \<Rightarrow> None
      | Some d \<Rightarrow>
          Some \<lparr>arr_data = copy_elems tr (map Some init) (length init) d,
                arr_size = length init, arr_capacity = cap, arr_is_heap = heap, arr_fixed = False\<rparr>)"

definition sv_assign_list :: "elem_traits \<Rightarrow> bool \<Rightarrow> 'a list \<Rightarrow> 'a arr \<Rightarrow> 'a arr option" where
  "sv_assign_list tr ok init a =
     (let a = sv_clear tr a; n = length init in
      if arr_capacity a < n
      then (if \<not> ok then None
            else Some (a\<lparr>arr_capacity := n, arr_is_heap := True, arr_size := n,
                         arr_data := copy_elems tr (map Some init) n (replicate n None)\<rparr>))
      else Some (a\<lparr>arr_size := n, arr_data := copy_elems tr (map Some init) n (arr_data a)\<rparr>))"

section \<open>The loops as block operations\<close>

lemma construct_loop_eq:
  "n \<le> length src \<Longrightarrow> n \<le> length dst \<Longrightarrow> construct_loop src n dst = take n src @ drop n dst"
proof (induction n)
  case 0
  then show ?case by (simp add: construct_loop_def)
next
  case (Suc n)
  then have "construct_loop src (Suc n) dst = (take n src @ drop n dst)[n := src ! n]"
    by (simp add: construct_loop_def)
  with Suc.prems show ?case
    by (simp add: list_update_append take_Suc_conv_app_nth Cons_nth_drop_Suc [symmetric])
qed

lemma copy_elems_eq [arr_simps]:
  "n \<le> length src \<Longrightarrow> n \<le> length dst \<Longrightarrow> copy_elems tr src n dst = take n src @ drop n dst"
  by (simp add: copy_elems_def construct_loop_eq memcpy_to_def min_def)

lemma sv_shift_loop_move_down [arr_simps]:
  assumes "cnt \<le> e"
  shows "sv_shift_loop e n cnt d = move_down cnt (e - cnt) (n - cnt) d"
  using assms
proof (induction "n - e" arbitrary: e d)
  case 0
  then have "\<not> e - cnt < n - cnt" by simp
  with 0 show ?case by (simp add: sv_shift_loop_def move_down.simps [of cnt "e - cnt"])
next
  case (Suc k)
  then have lt: "e < n" by simp
  have "sv_shift_loop e n cnt d = sv_shift_loop (Suc e) n cnt (d[e - cnt := d ! e])"
    using lt by (simp add: sv_shift_loop_def upt_conv_Cons)
  also have "\<dots> = move_down cnt (Suc e - cnt) (n - cnt) (d[e - cnt := d ! e])"
    using Suc by (intro Suc.hyps) simp_all
  finally show ?case
    using diff_less_mono [OF lt Suc.prems] Suc.prems
    by (simp add: move_down.simps [of cnt "e - cnt"] Suc_diff_le)
qed

lemma length_insert_shift [simp]: "length (sv_insert_shift i j d) = length d"
  by (induction i j d rule: sv_insert_shift.induct) auto

lemma nth_insert_shift:
  assumes "i < length d" "m < length d"
  shows "sv_insert_shift i j d ! m =
    (if m = j \<and> j < i then None else if j < m \<and> m \<le> i then d ! (m - 1) else d ! m)"
  using assms
  by (induction i j d rule: sv_insert_shift.induct)
     (auto simp: nth_list_update less_Suc_eq le_Suc_eq)

lemma insert_shift_memmove:
  assumes "j \<le> n" "n < length d"
  shows "(sv_insert_shift n j d)[j := v] = (memmove d (Suc j) j (n - j))[j := v]"
  using assms
  by (intro nth_equalityI) (auto simp: nth_list_update nth_insert_shift nth_memmove)

section \<open>Representation\<close>

text \<open>The array invariant, plus: inline storage has exactly \<open>N\<close> slots, heap storage at least \<open>N\<close>.\<close>

definition sv_rep :: "elem_traits \<Rightarrow> nat \<Rightarrow> 'a arr \<Rightarrow> 'a list \<Rightarrow> bool" where
  "sv_rep tr N a xs \<longleftrightarrow>
     arr_rep tr a xs \<and> \<not> arr_fixed a \<and> N \<le> arr_capacity a \<and>
     (\<not> arr_is_heap a \<longrightarrow> arr_capacity a = N)"

lemma sv_rep_SmallVector [simp]: "sv_rep tr N (SmallVector N) []"
  by (simp add: sv_rep_def SmallVector_def) (simp add: ArrayBase_def)

lemma sv_repD:
  assumes "sv_rep tr N a xs"
  shows "arr_rep tr a xs" "\<not> arr_fixed a" "arr_size a = length xs" "length xs \<le> arr_capacity a"
    "arr_is_heap a \<or> arr_capacity a = N" "length (arr_data a) = arr_capacity a" "N \<le> arr_capacity a"
  using assms by (auto simp: sv_rep_def elim!: arr_repE)

lemma sv_reserve_rep:
  assumes "sv_rep tr N a xs"
  shows "sv_rep tr N (sv_reserve tr ok new_cap a) xs"
    and "arr_capacity (sv_reserve tr ok new_cap a) =
         (if ok then max (arr_capacity a) new_cap else arr_capacity a)"
proof -
  note rep = sv_repD [OF assms]
  from rep(1) obtain rest where r: "arr_data a = map Some xs @ rest" "arr_size a = length xs"
    "arr_capacity a = length xs + length rest" "\<not> triv_destroy tr \<longrightarrow> set rest \<subseteq> {None}"
    by (rule arr_repE)
  have move: "construct_loop (arr_data a) (length xs) (replicate new_cap None) =
              map Some xs @ replicate (new_cap - length xs) None"
    if "arr_capacity a < new_cap" using that r by (simp add: construct_loop_eq)
  have copy: "memcpy_to (replicate new_cap None) 0 (map Some xs) =
              map Some xs @ replicate (new_cap - length xs) None"
    by (simp add: memcpy_to_def)
  show "arr_capacity (sv_reserve tr ok new_cap a) =
         (if ok then max (arr_capacity a) new_cap else arr_capacity a)"
    using rep(2) by (simp add: sv_reserve_def reserve_pod_def mallocForGrow_def Let_def)
  show "sv_rep tr N (sv_reserve tr ok new_cap a) xs"
  proof (cases "ok \<and> arr_capacity a < new_cap")
    case False
    with assms rep(2) show ?thesis
      by (auto simp: sv_reserve_def reserve_pod_def mallocForGrow_def)
  next
    case True
    let ?a = "sv_reserve tr ok new_cap a"
    have "\<exists>rest'. arr_data ?a = map Some xs @ rest' \<and> length rest' = new_cap - length xs \<and>
            (\<not> triv_destroy tr \<longrightarrow> set rest' \<subseteq> {None})"
      using True r rep(2) copy move
      by (cases "arr_is_heap a"; cases "xs = []")
         (auto simp: sv_reserve_def reserve_pod_def mallocForGrow_def Let_def)
    then obtain rest' where r': "arr_data ?a = map Some xs @ rest'"
      "length rest' = new_cap - length xs" "\<not> triv_destroy tr \<longrightarrow> set rest' \<subseteq> {None}" by blast
    have "arr_size ?a = length xs" "arr_capacity ?a = new_cap" "arr_is_heap ?a" "\<not> arr_fixed ?a"
      using True r(2) rep(2)
      by (auto simp: sv_reserve_def reserve_pod_def mallocForGrow_def Let_def)
    with True r' rep show ?thesis
      by (auto simp: sv_rep_def intro!: arr_repI [where rest = rest'])
  qed
qed

section \<open>Adding elements\<close>

lemma append_slot_rep:
  assumes "arr_rep tr a xs" "length xs < arr_capacity a"
  shows "arr_rep tr (a\<lparr>arr_data := (arr_data a)[arr_size a := Some v], arr_size := arr_size a + 1\<rparr>)
           (xs @ [v])"
  using sa_push_back_rep [OF assms(1), of v] assms(2)
  by (simp add: sa_push_back_def sa_full_rep [OF assms(1)])

lemma sv_push_back_rep:
  assumes "sv_rep tr N a xs"
  shows "if length xs < arr_capacity a \<or> (ok \<and> 0 < arr_capacity a)
         then \<exists>a'. sv_push_back tr ok v a = Some a' \<and> sv_rep tr N a' (xs @ [v]) \<and>
                arr_capacity a' =
                  (if length xs < arr_capacity a then arr_capacity a else 2 * arr_capacity a)
         else sv_push_back tr ok v a = None"
proof -
  define a1 where
    "a1 = (if arr_capacity a \<le> arr_size a then sv_reserve tr ok (arr_capacity a * 2) a else a)"
  note rep = sv_repD [OF assms]
  have rep1: "sv_rep tr N a1 xs" using assms sv_reserve_rep(1) [OF assms] by (simp add: a1_def)
  have cap1: "arr_capacity a1 =
      (if length xs < arr_capacity a \<or> \<not> ok then arr_capacity a else 2 * arr_capacity a)"
    using rep(3,4) sv_reserve_rep(2) [OF assms, of ok "arr_capacity a * 2"] by (auto simp: a1_def max_def)
  have push: "sv_push_back tr ok v a =
     (if arr_size a1 < arr_capacity a1
      then Some (a1\<lparr>arr_data := (arr_data a1)[arr_size a1 := Some v], arr_size := arr_size a1 + 1\<rparr>)
      else None)"
    by (simp add: sv_push_back_def a1_def Let_def)
  note rep1D = sv_repD [OF rep1]
  show ?thesis
  proof (cases "length xs < arr_capacity a1")
    case True
    have "sv_rep tr N (a1\<lparr>arr_data := (arr_data a1)[arr_size a1 := Some v],
                          arr_size := arr_size a1 + 1\<rparr>) (xs @ [v])"
      using append_slot_rep [OF rep1D(1) True] rep1 by (simp add: sv_rep_def)
    with True push rep1D(3) cap1 rep(4) show ?thesis by (auto split: if_splits)
  next
    case False
    with push rep1D(3) cap1 rep(4) show ?thesis by (auto split: if_splits)
  qed
qed

text \<open>Pushing a sequence with memory available.\<close>

fun sv_push_list :: "elem_traits \<Rightarrow> 'a list \<Rightarrow> 'a arr \<Rightarrow> 'a arr option" where
  "sv_push_list tr [] a = Some a"
| "sv_push_list tr (v # vs) a = Option.bind (sv_push_back tr True v a) (sv_push_list tr vs)"

lemma sv_push_list_rep:
  assumes "sv_rep tr N a xs" "0 < N" "arr_capacity a \<le> max N (2 * length xs)"
  shows "\<exists>a'. sv_push_list tr vs a = Some a' \<and> sv_rep tr N a' (xs @ vs) \<and>
              arr_capacity a' \<le> max N (2 * length (xs @ vs))"
  using assms
proof (induction vs arbitrary: a xs)
  case Nil
  then show ?case by simp
next
  case (Cons v vs)
  have pos: "0 < arr_capacity a" using sv_repD(7) [OF Cons.prems(1)] Cons.prems(2) by simp
  from sv_push_back_rep [OF Cons.prems(1), of True v] pos obtain a1 where
    a1: "sv_push_back tr True v a = Some a1" "sv_rep tr N a1 (xs @ [v])"
    "arr_capacity a1 = (if length xs < arr_capacity a then arr_capacity a else 2 * arr_capacity a)"
    by auto
  have "arr_capacity a1 \<le> max N (2 * length (xs @ [v]))"
    using a1(3) Cons.prems(3) sv_repD(4) [OF Cons.prems(1)] by (auto split: if_splits)
  from Cons.IH [OF a1(2) Cons.prems(2) this] a1(1) show ?case by auto
qed

lemma sv_insert_rep:
  assumes "sv_rep tr N a xs" "i \<le> length xs" "length xs < arr_capacity a \<or> (ok \<and> 0 < arr_capacity a)"
  shows "\<exists>a'. sv_insert tr ok ok2 i v a = Some a' \<and> sv_rep tr N a' (take i xs @ [v] @ drop i xs)"
proof -
  define a1 where
    "a1 = (if arr_capacity a \<le> arr_size a then sv_reserve tr ok (arr_capacity a * 2) a else a)"
  note rep = sv_repD [OF assms(1)]
  have rep1: "sv_rep tr N a1 xs" using assms sv_reserve_rep(1) [OF assms(1)] by (simp add: a1_def)
  have cap1: "length xs < arr_capacity a1"
    using rep(3,4) assms(3) sv_reserve_rep(2) [OF assms(1), of ok "arr_capacity a * 2"]
    by (auto simp: a1_def max_def)
  note rep1D = sv_repD [OF rep1]
  from rep1D(1) obtain rest where r: "arr_data a1 = map Some xs @ rest" "arr_size a1 = length xs"
    "arr_capacity a1 = length xs + length rest" "\<not> triv_destroy tr \<longrightarrow> set rest \<subseteq> {None}"
    by (rule arr_repE)
  define a2 where "a2 = a1\<lparr>arr_data := (memmove (arr_data a1) (Suc i) i (length xs - i))[i := Some v],
                           arr_size := Suc (length xs)\<rparr>"
  have ne: "rest \<noteq> []" using cap1 r(3) by auto
  have rep2: "arr_rep tr a2 (take i xs @ [v] @ drop i xs)"
    using r ne assms(2) block_insert [OF assms(2) ne, of v]
    by (intro arr_repI [where rest = "tl rest"])
       (auto simp: a2_def min_def dest: list.set_sel(2) [OF ne] subsetD)
  have ins: "sv_insert tr ok ok2 i v a =
    (if triv_copy tr then Some (snd (insert_pod ok2 i v a1))
     else if arr_capacity a1 \<le> arr_size a1 then None
     else Some (a1\<lparr>arr_data := (sv_insert_shift (arr_size a1) i (arr_data a1))[i := Some v],
                   arr_size := arr_size a1 + 1\<rparr>))"
    using assms(2) rep(3) unfolding sv_insert_def a1_def [symmetric] by (simp add: Let_def)
  have "snd (insert_pod ok2 i v a1) = a2"
    using cap1 r(2) by (simp add: insert_pod_def a2_def Let_def)
  moreover have "(sv_insert_shift (length xs) i (arr_data a1))[i := Some v] =
        (memmove (arr_data a1) (Suc i) i (length xs - i))[i := Some v]"
    using insert_shift_memmove [of i "length xs" "arr_data a1" "Some v"] assms(2) cap1 rep1D(6) by simp
  ultimately have "sv_insert tr ok ok2 i v a = Some a2"
    using cap1 r(2) unfolding ins by (simp add: a2_def)
  moreover have "sv_rep tr N a2 (take i xs @ [v] @ drop i xs)"
    using rep1 rep2 by (simp add: sv_rep_def) (simp add: a2_def)
  ultimately show ?thesis by blast
qed

section \<open>Removing elements\<close>

lemma sv_erase_is_sa: "sv_erase tr i a = sa_erase tr i a"
  by (simp add: sv_erase_def sa_erase_def)

lemma sv_erase_range_is_sa:
  assumes "s < e" "e \<le> arr_size a"
  shows "sv_erase_range tr (int s) (int e) a = (s, snd (sa_erase_range tr (int s) (int e) a))"
  using assms by (simp add: sv_erase_range_def sa_erase_range_def Let_def sv_shift_loop_move_down)

lemma sv_same_frame:
  assumes "sv_rep tr N a xs" "arr_rep tr (a\<lparr>arr_data := d, arr_size := n\<rparr>) ys"
  shows "sv_rep tr N (a\<lparr>arr_data := d, arr_size := n\<rparr>) ys"
  using assms by (simp add: sv_rep_def)

lemma sv_erase_rep:
  assumes "sv_rep tr N a xs" "i < length xs" "traits_ok tr"
  shows "sv_rep tr N (sv_erase tr i a) (take i xs @ drop (Suc i) xs)"
proof -
  note rep = sv_repD [OF assms(1)]
  from rep have *: "length (arr_data a) = arr_capacity a" "arr_size a \<le> arr_capacity a" "i < arr_size a"
    using assms(2) by auto
  show ?thesis
    using sa_erase_rep [OF rep(1) assms(2,3)] sv_same_frame [OF assms(1)]
    unfolding sv_erase_is_sa sa_erase_branches [OF * assms(3)] by blast
qed

lemma sv_erase_range_rep:
  assumes "sv_rep tr N a xs" "s < e" "e \<le> length xs" "traits_ok tr"
  shows "sv_rep tr N (snd (sv_erase_range tr (int s) (int e) a)) (take s xs @ drop e xs)"
proof -
  note rep = sv_repD [OF assms(1)]
  from rep have *: "length (arr_data a) = arr_capacity a" "arr_size a \<le> arr_capacity a" "e \<le> arr_size a"
    using assms(3) by auto
  show ?thesis
    using sa_erase_range_rep [OF rep(1) assms(2,3,4)] sv_same_frame [OF assms(1)]
    unfolding sv_erase_range_is_sa [OF assms(2) *(3)] snd_conv
      sa_erase_range_branches [OF *(1,2) assms(2) *(3) assms(4)] by blast
qed

lemma sv_pop_back_rep:
  assumes "sv_rep tr N a xs"
  shows "sv_rep tr N (sv_pop_back tr a) (butlast xs)"
  using sa_pop_back_rep [OF sv_repD(1) [OF assms]] assms
  by (simp add: sv_rep_def sv_pop_back_def sa_pop_back_def split: if_splits)

lemma sv_clear_rep:
  assumes "sv_rep tr N a xs"
  shows "sv_rep tr N (sv_clear tr a) []"
  using sa_clear_rep [OF sv_repD(1) [OF assms]] assms
  by (simp add: sv_rep_def sv_clear_def sa_clear_def)

section \<open>Copies and moves\<close>

lemma copied_rep:
  assumes "length d = cap" "length xs \<le> cap" "set d \<subseteq> {None}" "length src \<ge> length xs"
    "take (length xs) src = map Some xs" "N \<le> cap" "\<not> heap \<Longrightarrow> cap = N"
  shows "sv_rep tr N \<lparr>arr_data = copy_elems tr src (length xs) d, arr_size = length xs,
           arr_capacity = cap, arr_is_heap = heap, arr_fixed = False\<rparr> xs"
  using assms set_drop_subset [of "length xs" d]
  by (auto simp: sv_rep_def copy_elems_eq intro!: arr_repI [where rest = "drop (length xs) d"])

lemma fresh_storage_cases:
  "fresh_storage heap ok cap N = (if heap \<and> \<not> ok then None
     else Some (replicate (if heap then cap else N) None))"
  by (simp add: fresh_storage_def)

lemma sv_rep_source:
  assumes "sv_rep tr N other xs"
  shows "length xs \<le> length (arr_data other)" "take (length xs) (arr_data other) = map Some xs"
  using sv_repD(1) [OF assms] by (auto elim!: arr_repE)

lemma sv_copy_rep:
  assumes "sv_rep tr N other xs"
  shows "if arr_is_heap other \<and> \<not> ok then sv_copy tr ok N other = None
         else \<exists>a. sv_copy tr ok N other = Some a \<and> sv_rep tr N a xs"
proof -
  note rep = sv_repD [OF assms] and src = sv_rep_source [OF assms]
  have "sv_rep tr N \<lparr>arr_data = copy_elems tr (arr_data other) (length xs)
             (replicate (if arr_is_heap other then arr_capacity other else N) None),
           arr_size = length xs, arr_capacity = arr_capacity other,
           arr_is_heap = arr_is_heap other, arr_fixed = False\<rparr> xs"
    using rep src by (intro copied_rep) auto
  with rep(3) show ?thesis by (simp add: sv_copy_def fresh_storage_cases)
qed

lemma sv_copy_assign_rep:
  assumes "sv_rep tr N this ys" "sv_rep tr N other xs"
  shows "if arr_is_heap other \<and> \<not> ok then sv_copy_assign tr ok N False this other = None
         else \<exists>a. sv_copy_assign tr ok N False this other = Some a \<and> sv_rep tr N a xs"
proof -
  note rep = sv_repD [OF assms(2)] and src = sv_rep_source [OF assms(2)]
  have "sv_rep tr N \<lparr>arr_data = copy_elems tr (arr_data other) (length xs)
             (replicate (if arr_is_heap other then arr_capacity other else N) None),
           arr_size = length xs, arr_capacity = arr_capacity other,
           arr_is_heap = arr_is_heap other, arr_fixed = False\<rparr> xs"
    using rep src by (intro copied_rep) auto
  with rep(3) sv_repD(2) [OF assms(1)] show ?thesis
    by (simp add: sv_copy_assign_def fresh_storage_cases sv_clear_def Let_def sv_rep_def arr_rep_def)
qed

lemma sv_moved_from_rep:
  assumes "sv_rep tr N other xs" "traits_ok tr"
  shows "sv_rep tr N (sv_moved_from tr N other) []"
proof -
  note rep = sv_repD [OF assms(1)]
  from rep(1) obtain rest where r: "arr_data other = map Some xs @ rest" "arr_size other = length xs"
    "arr_capacity other = length xs + length rest" "\<not> triv_destroy tr \<longrightarrow> set rest \<subseteq> {None}"
    by (rule arr_repE)
  have kill: "fold (\<lambda>i d. d[i := None]) [0..<length xs] (map Some xs @ rest) =
              replicate (length xs) None @ rest"
    using fold_kill [of "[]" 0 "map Some xs" "length xs" rest] by simp
  show ?thesis
    using r rep assms(2) kill
    by (auto simp: sv_moved_from_def sv_rep_def arr_rep_def traits_ok_def)
qed

lemma sv_move_rep:
  assumes "sv_rep tr N other xs" "traits_ok tr"
  shows "sv_rep tr N (fst (sv_move tr N other)) xs" "sv_rep tr N (snd (sv_move tr N other)) []"
proof -
  note rep = sv_repD [OF assms(1)] and src = sv_rep_source [OF assms(1)]
  show "sv_rep tr N (snd (sv_move tr N other)) []"
    using sv_moved_from_rep [OF assms] by (simp add: sv_move_def)
  show "sv_rep tr N (fst (sv_move tr N other)) xs"
  proof (cases "arr_is_heap other")
    case True
    with assms(1) show ?thesis by (simp add: sv_move_def sv_rep_def arr_rep_def)
  next
    case False
    then have "sv_rep tr N \<lparr>arr_data = copy_elems tr (arr_data other) (length xs) (replicate N None),
           arr_size = length xs, arr_capacity = arr_capacity other,
           arr_is_heap = False, arr_fixed = False\<rparr> xs"
      using rep src by (intro copied_rep) auto
    with False rep(3) show ?thesis by (simp add: sv_move_def)
  qed
qed

lemma sv_move_assign_is_move:
  assumes "\<not> arr_fixed this"
  shows "sv_move_assign tr N False this other =
         sv_move tr N other"
  using assms by (simp add: sv_move_assign_def sv_move_def sv_clear_def Let_def)

lemma sv_move_assign_rep:
  assumes "sv_rep tr N this ys" "sv_rep tr N other xs" "traits_ok tr"
  shows "sv_rep tr N (fst (sv_move_assign tr N False this other)) xs"
    "sv_rep tr N (snd (sv_move_assign tr N False this other)) []"
  using sv_move_rep [OF assms(2,3)]
  unfolding sv_move_assign_is_move [OF sv_repD(2) [OF assms(1)]] .

lemma sv_init_list_rep:
  "if N < length init \<and> \<not> ok then sv_init_list tr ok N init = None
   else \<exists>a. sv_init_list tr ok N init = Some a \<and> sv_rep tr N a init"
proof -
  have "sv_rep tr N \<lparr>arr_data = copy_elems tr (map Some init) (length init)
             (replicate (if N < length init then length init else N) None),
           arr_size = length init, arr_capacity = if N < length init then length init else N,
           arr_is_heap = N < length init, arr_fixed = False\<rparr> init"
    by (intro copied_rep) auto
  then show ?thesis by (auto simp: sv_init_list_def fresh_storage_cases Let_def)
qed

lemma sv_assign_list_rep:
  assumes "sv_rep tr N a xs"
  shows "if arr_capacity a < length init \<and> \<not> ok then sv_assign_list tr ok init a = None
         else \<exists>a'. sv_assign_list tr ok init a = Some a' \<and> sv_rep tr N a' init"
proof -
  let ?n = "length init"
  define c where "c = sv_clear tr a"
  have repc: "sv_rep tr N c []" unfolding c_def by (rule sv_clear_rep [OF assms])
  have capc: "arr_capacity c = arr_capacity a" by (simp add: c_def sv_clear_def)
  note rep = sv_repD [OF repc]
  from rep(1) obtain rest where r: "arr_data c = rest" "arr_capacity c = length rest"
    "\<not> triv_destroy tr \<longrightarrow> set rest \<subseteq> {None}" by (auto elim: arr_repE)
  have def: "sv_assign_list tr ok init a =
     (if arr_capacity c < ?n
      then (if \<not> ok then None
            else Some (c\<lparr>arr_capacity := ?n, arr_is_heap := True, arr_size := ?n,
                         arr_data := copy_elems tr (map Some init) ?n (replicate ?n None)\<rparr>))
      else Some (c\<lparr>arr_size := ?n, arr_data := copy_elems tr (map Some init) ?n (arr_data c)\<rparr>))"
    by (simp add: sv_assign_list_def c_def Let_def)
  show ?thesis
  proof (cases "arr_capacity c < ?n")
    case True
    with rep def capc show ?thesis by (auto simp: sv_rep_def arr_rep_def copy_elems_eq)
  next
    case False
    have "arr_rep tr (c\<lparr>arr_size := ?n, arr_data := copy_elems tr (map Some init) ?n (arr_data c)\<rparr>) init"
      using False r set_drop_subset [of ?n rest]
      by (intro arr_repI [where rest = "drop ?n rest"]) (auto simp: copy_elems_eq)
    with False rep def capc show ?thesis by (auto simp: sv_rep_def)
  qed
qed

section \<open>Any sequence of operations\<close>

datatype 'a sv_op =
    VPushBack 'a | VPopBack | VClear | VReserve nat | VInsert nat 'a | VEraseAt nat | VEraseIt int
  | VEraseRange int int | VAssign "'a list"

text \<open>Execution with memory available (every \<open>malloc\<close> succeeds).\<close>

fun sv_exec :: "elem_traits \<Rightarrow> 'a sv_op \<Rightarrow> 'a arr \<Rightarrow> 'a arr option" where
  "sv_exec tr (VPushBack v) a = sv_push_back tr True v a"
| "sv_exec tr VPopBack a = Some (sv_pop_back tr a)"
| "sv_exec tr VClear a = Some (sv_clear tr a)"
| "sv_exec tr (VReserve n) a = Some (sv_reserve tr True n a)"
| "sv_exec tr (VInsert i v) a = sv_insert tr True True i v a"
| "sv_exec tr (VEraseAt i) a = Some (sv_erase tr i a)"
| "sv_exec tr (VEraseIt pos) a = Some (snd (sv_erase_it tr pos a))"
| "sv_exec tr (VEraseRange s e) a = Some (snd (sv_erase_range tr s e a))"
| "sv_exec tr (VAssign init) a = sv_assign_list tr True init a"

fun list_vexec :: "'a sv_op \<Rightarrow> 'a list \<Rightarrow> 'a list option" where
  "list_vexec (VPushBack v) xs = Some (xs @ [v])"
| "list_vexec VPopBack xs = Some (butlast xs)"
| "list_vexec VClear xs = Some []"
| "list_vexec (VReserve n) xs = Some xs"
| "list_vexec (VInsert i v) xs = (if i \<le> length xs then Some (take i xs @ [v] @ drop i xs) else None)"
| "list_vexec (VEraseAt i) xs = Some (if i < length xs then take i xs @ drop (Suc i) xs else xs)"
| "list_vexec (VEraseIt pos) xs =
     Some (if 0 \<le> pos \<and> pos < int (length xs) then take (nat pos) xs @ drop (Suc (nat pos)) xs else xs)"
| "list_vexec (VEraseRange s e) xs =
     Some (if 0 \<le> s \<and> s < e \<and> e \<le> int (length xs) then take (nat s) xs @ drop (nat e) xs else xs)"
| "list_vexec (VAssign init) xs = Some init"

fun run_opt :: "('op \<Rightarrow> 's \<Rightarrow> 's option) \<Rightarrow> 'op list \<Rightarrow> 's \<Rightarrow> 's option" where
  "run_opt ex [] s = Some s"
| "run_opt ex (op # ops) s = Option.bind (ex op s) (run_opt ex ops)"

lemma sv_exec_rep:
  assumes "sv_rep tr N a xs" "traits_ok tr" "0 < N" "list_vexec op xs = Some ys"
  shows "\<exists>a'. sv_exec tr op a = Some a' \<and> sv_rep tr N a' ys"
proof -
  note rep = sv_repD [OF assms(1)]
  have pos: "0 < arr_capacity a" using rep(7) assms(3) by simp
  show ?thesis
  proof (cases op)
    case (VPushBack v)
    with sv_push_back_rep [OF assms(1), of True v] pos assms(4) show ?thesis by auto
  next
    case (VReserve n)
    with sv_reserve_rep(1) [OF assms(1), of True n] assms(4) show ?thesis by simp
  next
    case (VInsert i v)
    with sv_insert_rep [OF assms(1), of i True True v] pos assms(4) show ?thesis by (auto split: if_splits)
  next
    case (VEraseAt i)
    with sv_erase_rep [OF assms(1) _ assms(2), of i] sa_erase_out [OF rep(1), of i] assms(1,4)
    show ?thesis by (auto simp: sv_erase_is_sa)
  next
    case (VEraseIt pos)
    with sv_erase_rep [OF assms(1) _ assms(2), of "nat pos"] assms(1,4) rep(3) show ?thesis
      by (auto simp: sv_erase_it_def)
  next
    case (VEraseRange s e)
    show ?thesis
    proof (cases "0 \<le> s \<and> s < e \<and> e \<le> int (length xs)")
      case True
      then have "s = int (nat s)" "e = int (nat e)" "nat s < nat e" "nat e \<le> length xs" by auto
      with True sv_erase_range_rep [OF assms(1) _ _ assms(2), of "nat s" "nat e"] VEraseRange assms(4)
      show ?thesis by auto
    next
      case False
      with assms(1,4) VEraseRange rep(3) show ?thesis by (auto simp: sv_erase_range_def)
    qed
  next
    case (VAssign init)
    with sv_assign_list_rep [OF assms(1), of init True] assms(4) show ?thesis by simp
  qed (use assms(1,4) sv_pop_back_rep sv_clear_rep in auto)
qed

lemma sv_run_rep:
  assumes "sv_rep tr N a xs" "traits_ok tr" "0 < N" "run_opt list_vexec ops xs = Some ys"
  shows "\<exists>a'. run_opt (sv_exec tr) ops a = Some a' \<and> sv_rep tr N a' ys"
  using assms(1,4)
proof (induction ops arbitrary: a xs)
  case Nil
  then show ?case by simp
next
  case (Cons op ops)
  from Cons.prems(2) obtain zs where zs: "list_vexec op xs = Some zs" "run_opt list_vexec ops zs = Some ys"
    by (auto simp: bind_eq_Some_conv)
  from sv_exec_rep [OF Cons.prems(1) assms(2,3) zs(1)] obtain a1 where
    "sv_exec tr op a = Some a1" "sv_rep tr N a1 zs" by blast
  with Cons.IH [OF _ zs(2)] show ?case by simp
qed

section \<open>Properties\<close>

text \<open>C13: With memory available, every sequence of operations on a fresh \<open>SmallVector<T, N>\<close> that only
  inserts at valid positions succeeds and gives the list the list operations give, for byte-wise and
  element-wise moves and across the switch from inline to heap storage.\<close>

theorem small_vector_refines_list:
  assumes "traits_ok tr" "0 < N" "run_opt list_vexec ops [] = Some ys"
  shows "\<exists>a. run_opt (sv_exec tr) ops (SmallVector N) = Some a \<and> contents a = ys \<and> sv_rep tr N a ys"
  using sv_run_rep [OF sv_rep_SmallVector assms] arr_rep_contents [OF sv_repD(1)] by blast

theorem small_vector_refines_list_witness:
  "\<exists>a. run_opt (sv_exec \<lparr>triv_copy = False, triv_destroy = False\<rparr>)
     [VPushBack 1, VPushBack 2, VPushBack (3::nat), VInsert 1 9, VEraseRange 0 1] (SmallVector 2) = Some a \<and>
     contents a = [9, 2, 3]"
  using small_vector_refines_list [of "\<lparr>triv_copy = False, triv_destroy = False\<rparr>" 2
      "[VPushBack 1, VPushBack 2, VPushBack (3::nat), VInsert 1 9, VEraseRange 0 1]" "[9, 2, 3]"]
  by (auto simp: traits_ok_def)

text \<open>When the heap request of a full vector fails, \<open>push_back\<close> is undefined: it constructs the
  element behind the storage, because nothing checks that \<open>reserve\<close> made room.\<close>

theorem small_vector_push_out_of_memory:
  assumes "sv_rep tr N a xs" "length xs = arr_capacity a"
  shows "sv_push_back tr False v a = None"
  using sv_push_back_rep [OF assms(1), of False v] assms(2) by simp

theorem small_vector_push_out_of_memory_witness:
  "\<exists>a. run_opt (sv_exec \<lparr>triv_copy = True, triv_destroy = True\<rparr>) [VPushBack 1, VPushBack (2::nat)] (SmallVector 2) = Some a \<and>
       sv_push_back \<lparr>triv_copy = True, triv_destroy = True\<rparr> False 3 a = None"
proof -
  let ?tr = "\<lparr>triv_copy = True, triv_destroy = True\<rparr>"
  from sv_push_back_rep [OF sv_rep_SmallVector [of ?tr 2], of True "1::nat"] obtain a1 where
    a1: "sv_push_back ?tr True 1 (SmallVector 2) = Some a1" "sv_rep ?tr 2 a1 [1::nat]" "arr_capacity a1 = 2"
    by (auto simp: SmallVector_def ArrayBase_def)
  from sv_push_back_rep [OF a1(2), of True 2] a1(3) obtain a2 where
    a2: "sv_push_back ?tr True 2 a1 = Some a2" "sv_rep ?tr 2 a2 [1, 2]" "arr_capacity a2 = 2" by auto
  from small_vector_push_out_of_memory [OF a2(2)] a2 a1(1) show ?thesis by auto
qed

text \<open>Pushing any sequence with memory available keeps the sequence and at most doubles: the capacity
  never exceeds the larger of the inline capacity and twice the number of elements.\<close>

theorem small_vector_growth:
  fixes vs :: "'a list"
  assumes "0 < N"
  shows "\<exists>a. sv_push_list tr vs (SmallVector N) = Some a \<and> contents a = vs \<and>
             arr_capacity a \<le> max N (2 * length vs)"
proof -
  have "arr_capacity (SmallVector N :: 'a arr) \<le> max N (2 * length [])"
    by (simp add: SmallVector_def ArrayBase_def)
  from sv_push_list_rep [OF sv_rep_SmallVector [of tr N] assms this, of vs] obtain a where
    "sv_push_list tr vs (SmallVector N) = Some a" "sv_rep tr N a vs" "arr_capacity a \<le> max N (2 * length vs)"
    by auto
  with arr_rep_contents [OF sv_repD(1)] show ?thesis by blast
qed

theorem small_vector_growth_witness:
  "\<exists>a. sv_push_list \<lparr>triv_copy = True, triv_destroy = True\<rparr> [1, 2, 3, 4, 5 :: nat] (SmallVector 4) = Some a \<and>
       contents a = [1, 2, 3, 4, 5] \<and> arr_capacity a \<le> 10"
  using small_vector_growth [of 4 "\<lparr>triv_copy = True, triv_destroy = True\<rparr>" "[1, 2, 3, 4, 5 :: nat]"] by auto

end
