(* ===== verification/Static_String.thy ===== *)
theory Static_String
  imports Prelude
begin

text \<open>
  C strings, and \<open>StaticString<Capacity>\<close> (\<open>include/Optimization/StaticString.h\<close>): a bounded
  string in a \<open>char\<close> buffer of \<open>Capacity\<close> bytes, NUL included. A C string argument is its
  characters up to the NUL (\<open>None\<close> for a null pointer). The theorems state that every
  append is list append truncated to \<open>Capacity - 1\<close> characters, that the buffer stays
  NUL terminated, and when the two comparisons agree with equality.
\<close>

section \<open>C strings\<close>

definition NUL :: char where "NUL = CHR 0x00"

definition c_string :: "char list \<Rightarrow> bool" where "c_string s \<longleftrightarrow> NUL \<notin> set s"

text \<open>What a reader of a \<open>char*\<close> sees of a buffer.\<close>

definition c_str_of :: "char list \<Rightarrow> char list" where
  "c_str_of buf = takeWhile (\<lambda>c. c \<noteq> NUL) buf"

lemma c_string_Nil [simp]: "c_string []"
  by (simp add: c_string_def)

lemma c_string_append [simp]: "c_string (s @ t) \<longleftrightarrow> c_string s \<and> c_string t"
  by (auto simp: c_string_def)

lemma c_string_take [simp]: "c_string s \<Longrightarrow> c_string (take n s)"
  by (auto simp: c_string_def dest: in_set_takeD)

lemma c_str_of_terminated: "c_string s \<Longrightarrow> c_str_of (s @ NUL # rest) = s"
  by (auto simp: c_str_of_def c_string_def takeWhile_append)

lemma c_str_of_c_string: "c_string (c_str_of buf)"
  by (auto simp: c_string_def c_str_of_def dest: set_takeWhileD)

section \<open>StaticString\<close>

record static_string =
  ss_buffer :: "char list"
  ss_size :: nat

definition StaticString :: "nat \<Rightarrow> static_string" where
  "StaticString Capacity = \<lparr>ss_buffer = (replicate Capacity NUL)[0 := NUL], ss_size = 0\<rparr>"

text \<open>The member buffer has no initial value: \<open>junk\<close> is what the memory holds.\<close>

definition StaticString_of :: "nat \<Rightarrow> char list \<Rightarrow> char list option \<Rightarrow> static_string" where
  "StaticString_of Capacity junk str =
     (case str of
        None \<Rightarrow> \<lparr>ss_buffer = junk[0 := NUL], ss_size = 0\<rparr>
      | Some s \<Rightarrow>
          let size = length s;
              size = (if Capacity - 1 < size then Capacity - 1 else size);
              buf = memcpy_to junk 0 (take size s)
          in \<lparr>ss_buffer = buf[size := NUL], ss_size = size\<rparr>)"

text \<open>The common body of the two appends: \<open>len\<close> characters of \<open>src\<close> are offered.\<close>

definition ss_append_raw :: "nat \<Rightarrow> char list \<Rightarrow> nat \<Rightarrow> static_string \<Rightarrow> static_string" where
  "ss_append_raw Capacity src len a =
     (let to_copy = (if len < Capacity - 1 - ss_size a then len else Capacity - 1 - ss_size a);
          buf = memcpy_to (ss_buffer a) (ss_size a) (take to_copy src);
          size = ss_size a + to_copy
      in \<lparr>ss_buffer = buf[size := NUL], ss_size = size\<rparr>)"

definition ss_append :: "nat \<Rightarrow> char list option \<Rightarrow> static_string \<Rightarrow> static_string" where
  "ss_append Capacity str a =
     (case str of
        None \<Rightarrow> a
      | Some s \<Rightarrow> if ss_size a < Capacity - 1 then ss_append_raw Capacity s (length s) a else a)"

definition ss_append_ss :: "nat \<Rightarrow> static_string \<Rightarrow> static_string \<Rightarrow> static_string" where
  "ss_append_ss Capacity other a =
     (if 0 < ss_size other \<and> ss_size a < Capacity - 1
      then ss_append_raw Capacity (ss_buffer other) (ss_size other) a
      else a)"

definition ss_append_char :: "nat \<Rightarrow> char \<Rightarrow> static_string \<Rightarrow> static_string" where
  "ss_append_char Capacity c a =
     (if ss_size a < Capacity - 1
      then a\<lparr>ss_buffer := (ss_buffer a)[ss_size a := c, ss_size a + 1 := NUL], ss_size := ss_size a + 1\<rparr>
      else a)"

definition ss_eq_cstr :: "static_string \<Rightarrow> char list option \<Rightarrow> bool" where
  "ss_eq_cstr a str = (case str of None \<Rightarrow> ss_size a = 0 | Some s \<Rightarrow> c_str_of (ss_buffer a) = s)"

definition ss_eq :: "static_string \<Rightarrow> static_string \<Rightarrow> bool" where
  "ss_eq a b \<longleftrightarrow>
     (if ss_size a \<noteq> ss_size b then False
      else take (ss_size a) (ss_buffer a) = take (ss_size a) (ss_buffer b))"

definition ss_clear :: "static_string \<Rightarrow> static_string" where
  "ss_clear a = a\<lparr>ss_size := 0, ss_buffer := (ss_buffer a)[0 := NUL]\<rparr>"

definition ss_empty :: "static_string \<Rightarrow> bool" where "ss_empty a \<longleftrightarrow> ss_size a = 0"

definition ss_capacity :: "nat \<Rightarrow> nat" where "ss_capacity Capacity = Capacity - 1"

section \<open>Representation\<close>

definition ss_rep :: "nat \<Rightarrow> static_string \<Rightarrow> char list \<Rightarrow> bool" where
  "ss_rep Capacity a s \<longleftrightarrow>
     length (ss_buffer a) = Capacity \<and> ss_size a = length s \<and> length s < Capacity \<and>
     (\<exists>rest. ss_buffer a = s @ NUL # rest)"

text \<open>The characters of a string.\<close>

definition ss_chars :: "static_string \<Rightarrow> char list" where
  "ss_chars a = take (ss_size a) (ss_buffer a)"

lemma ss_rep_chars: "ss_rep Capacity a s \<Longrightarrow> ss_chars a = s"
  by (auto simp: ss_rep_def ss_chars_def)

lemma ss_rep_init: "0 < Capacity \<Longrightarrow> ss_rep Capacity (StaticString Capacity) []"
  by (cases Capacity) (auto simp: ss_rep_def StaticString_def)

lemma splice_terminated:
  assumes "length buf = Capacity" "buf = s @ rest" "length s + length t < Capacity"
  shows "ss_rep Capacity \<lparr>ss_buffer = (memcpy_to buf (length s) t)[length s + length t := NUL],
                          ss_size = length s + length t\<rparr> (s @ t)"
proof -
  obtain r rs where "drop (length t) rest = r # rs"
    using assms by (cases "drop (length t) rest") auto
  moreover from this have "length rest = length t + Suc (length rs)"
    using assms by (metis add_diff_inverse_nat length_Cons length_append length_drop nat_add_left_cancel_less not_less_iff_gr_or_eq)
  ultimately show ?thesis using assms
    by (auto simp: ss_rep_def memcpy_to_def list_update_append)
qed

lemma ss_of_rep:
  assumes "0 < Capacity" "length junk = Capacity"
  shows "ss_rep Capacity (StaticString_of Capacity junk str)
           (case str of None \<Rightarrow> [] | Some s \<Rightarrow> take (Capacity - 1) s)"
proof (cases str)
  case None
  with assms show ?thesis by (cases junk) (auto simp: StaticString_of_def ss_rep_def)
next
  case (Some s)
  show ?thesis
  proof (cases "Capacity - 1 < length s")
    case True
    then have "length (take (Capacity - 1) s) = Capacity - 1" by simp
    with splice_terminated [of junk Capacity "[]" junk "take (Capacity - 1) s"] assms True Some
    show ?thesis by (simp add: StaticString_of_def Let_def)
  next
    case False
    with splice_terminated [of junk Capacity "[]" junk s] assms Some show ?thesis
      by (simp add: StaticString_of_def Let_def)
  qed
qed

lemma ss_append_raw_rep:
  assumes "ss_rep Capacity a s" "len \<le> length src"
  shows "ss_rep Capacity (ss_append_raw Capacity src len a) (take (Capacity - 1) (s @ take len src))"
proof -
  define k where "k = (if len < Capacity - 1 - length s then len else Capacity - 1 - length s)"
  from assms(1) obtain rest where r: "length (ss_buffer a) = Capacity" "ss_size a = length s"
    "length s < Capacity" "ss_buffer a = s @ NUL # rest" by (auto simp: ss_rep_def)
  have k: "length (take k src) = k" using assms(2) by (auto simp: k_def)
  have kb: "length s + k < Capacity" using r(3) by (auto simp: k_def)
  have "ss_rep Capacity
          \<lparr>ss_buffer = (memcpy_to (ss_buffer a) (length s) (take k src))[length s + length (take k src) := NUL],
           ss_size = length s + length (take k src)\<rparr> (s @ take k src)"
    using r k kb by (intro splice_terminated) auto
  moreover have "s @ take k src = take (Capacity - 1) (s @ take len src)"
    using r(3) by (auto simp: min_def k_def)
  moreover have "ss_append_raw Capacity src len a =
          \<lparr>ss_buffer = (memcpy_to (ss_buffer a) (length s) (take k src))[length s + length (take k src) := NUL],
           ss_size = length s + length (take k src)\<rparr>"
    unfolding k by (simp add: ss_append_raw_def r(2) k_def Let_def)
  ultimately show ?thesis by (simp only:)
qed

lemma ss_append_rep:
  assumes "ss_rep Capacity a s"
  shows "ss_rep Capacity (ss_append Capacity (Some t) a) (take (Capacity - 1) (s @ t))"
proof (cases "ss_size a < Capacity - 1")
  case True
  with ss_append_raw_rep [OF assms, of "length t" t] show ?thesis by (simp add: ss_append_def)
next
  case False
  with assms have "length s = Capacity - 1" by (auto simp: ss_rep_def)
  with False assms show ?thesis by (simp add: ss_append_def)
qed

lemma ss_append_ss_rep:
  assumes "ss_rep Capacity a s" "ss_rep Capacity' b t"
  shows "ss_rep Capacity (ss_append_ss Capacity b a) (take (Capacity - 1) (s @ t))"
proof -
  from assms(2) have b: "ss_size b = length t" "take (length t) (ss_buffer b) = t"
    "length t \<le> length (ss_buffer b)" by (auto simp: ss_rep_def)
  show ?thesis
  proof (cases "0 < ss_size b \<and> ss_size a < Capacity - 1")
    case True
    with ss_append_raw_rep [OF assms(1), of "length t" "ss_buffer b"] b show ?thesis
      by (simp add: ss_append_ss_def)
  next
    case False
    with assms(1) b have "t = [] \<or> length s = Capacity - 1" by (auto simp: ss_rep_def)
    moreover have "length s \<le> Capacity - 1" using assms(1) by (auto simp: ss_rep_def)
    ultimately have "take (Capacity - 1) (s @ t) = s" by auto
    with False assms(1) show ?thesis by (simp only: ss_append_ss_def if_False)
  qed
qed

lemma ss_append_char_rep:
  assumes "ss_rep Capacity a s"
  shows "ss_rep Capacity (ss_append_char Capacity c a) (take (Capacity - 1) (s @ [c]))"
proof -
  from assms obtain rest where r: "length (ss_buffer a) = Capacity" "ss_size a = length s"
    "length s < Capacity" "ss_buffer a = s @ NUL # rest" by (auto simp: ss_rep_def)
  show ?thesis
  proof (cases "ss_size a < Capacity - 1")
    case True
    with r obtain y ys where "rest = y # ys" by (cases rest) auto
    with r True show ?thesis by (auto simp: ss_append_char_def ss_rep_def list_update_append)
  next
    case False
    with r have "length s = Capacity - 1" by simp
    with False assms show ?thesis by (simp add: ss_append_char_def)
  qed
qed

lemma ss_clear_rep: "ss_rep Capacity a s \<Longrightarrow> ss_rep Capacity (ss_clear a) []"
  by (cases "ss_buffer a") (auto simp: ss_rep_def ss_clear_def)

lemma ss_eq_cstr_rep:
  assumes "ss_rep Capacity a s" "c_string s"
  shows "ss_eq_cstr a str \<longleftrightarrow> (case str of None \<Rightarrow> s = [] | Some t \<Rightarrow> s = t)"
  using assms by (auto simp: ss_eq_cstr_def ss_rep_def c_str_of_terminated split: option.split)

lemma ss_eq_rep:
  assumes "ss_rep Capacity a s" "ss_rep Capacity' b t"
  shows "ss_eq a b \<longleftrightarrow> s = t"
  using assms by (auto simp: ss_eq_def ss_rep_def)

lemma take_append_take: "take n (take n s @ t) = take n (s @ t)"
  by (simp only: take_append take_take length_take) (simp add: min_def)

text \<open>A chain of appends, as the error handler builds its context trace.\<close>

lemma ss_append_all_rep:
  assumes "ss_rep Capacity a s"
  shows "ss_rep Capacity (fold (\<lambda>t a. ss_append Capacity (Some t) a) ts a)
           (take (Capacity - 1) (s @ concat ts))"
  using assms
proof (induction ts arbitrary: a s)
  case Nil
  then have "take (Capacity - 1) s = s" by (auto simp: ss_rep_def)
  with Nil show ?case by simp
next
  case (Cons t ts)
  from Cons.IH [OF ss_append_rep [OF Cons.prems, of t]] show ?case
    by (simp only: fold_Cons comp_apply take_append_take concat.simps append_assoc)
qed

section \<open>Properties\<close>

text \<open>Building a \<open>StaticString\<close> from a C string and appending any C strings gives the
  concatenation cut to \<open>Capacity - 1\<close> characters, NUL terminated inside the buffer, so
  the comparison with a C string is equality of the two texts.\<close>

theorem static_string_appends:
  assumes "0 < Capacity" "length junk = Capacity" "c_string s" "\<forall>t\<in>set ts. c_string t"
  shows "ss_rep Capacity (fold (\<lambda>t a. ss_append Capacity (Some t) a) ts (StaticString_of Capacity junk (Some s)))
           (take (Capacity - 1) (s @ concat ts)) \<and>
         (ss_eq_cstr (fold (\<lambda>t a. ss_append Capacity (Some t) a) ts (StaticString_of Capacity junk (Some s))) (Some u) \<longleftrightarrow>
          take (Capacity - 1) (s @ concat ts) = u)"
proof -
  have "ss_rep Capacity (StaticString_of Capacity junk (Some s)) (take (Capacity - 1) s)"
    using ss_of_rep [OF assms(1,2), of "Some s"] by simp
  from ss_append_all_rep [OF this, of ts]
  have rep: "ss_rep Capacity (fold (\<lambda>t a. ss_append Capacity (Some t) a) ts (StaticString_of Capacity junk (Some s)))
         (take (Capacity - 1) (s @ concat ts))" by (simp only: take_append_take)
  have "c_string (take (Capacity - 1) (s @ concat ts))"
    using assms(3,4) by (intro c_string_take) (auto simp: c_string_def)
  with ss_eq_cstr_rep [OF rep] rep show ?thesis by simp
qed

theorem static_string_appends_witness:
  "ss_eq_cstr (fold (\<lambda>t a. ss_append 8 (Some t) a) ['' > '', ''Init''] (StaticString_of 8 (replicate 8 NUL) (Some ''Main'')))
     (Some ''Main > '')"
  using static_string_appends [of 8 "replicate 8 NUL" "''Main''" "['' > '', ''Init'']" "''Main > ''"]
  by (simp add: c_string_def NUL_def)

end
