(* ===== verification/Ring_Queue.thy ===== *)
theory Ring_Queue
  imports Prelude
begin

text \<open>
  Circular buffers: the window lemmas that every ring of the code rests on, the interface of a
  bounded FIFO queue as a locale, and \<open>StaticQueue<T, Capacity>\<close>
  (\<open>include/Optimization/StaticQueue.h\<close>). The queue keeps its elements in a byte buffer and
  addresses them as \<open>&buffer_[tail_]\<close>: a byte offset, not an element offset. The buffer is
  modelled byte by byte: byte \<open>k\<close> of the object representation of \<open>v\<close> is the pair \<open>(v, k)\<close>.
  For one-byte elements the queue is a FIFO queue; for larger ones two elements overlap.
\<close>

section \<open>Windows of a ring\<close>

definition ring_window :: "'a list \<Rightarrow> nat \<Rightarrow> nat \<Rightarrow> 'a list" where
  "ring_window buf head n = map (\<lambda>i. buf ! ((head + i) mod length buf)) [0..<n]"

lemma length_ring_window [simp]: "length (ring_window buf head n) = n"
  by (simp add: ring_window_def)

lemma ring_window_0 [simp]: "ring_window buf head 0 = []"
  by (simp add: ring_window_def)

lemma mod_add_small: "h < L \<Longrightarrow> i < L \<Longrightarrow> (h + i) mod L = (if h + i < L then h + i else h + i - (L::nat))"
  by (auto simp: mod_if)

lemma mod_window_inj:
  assumes "(h + i) mod L = (h + j) mod L" "i < L" "j < L"
  shows "i = (j::nat)"
proof -
  have "h mod L < L" using assms(2) by simp
  moreover have "(h mod L + i) mod L = (h mod L + j) mod L"
    using assms(1) by (simp add: mod_add_left_eq)
  ultimately show ?thesis
    using assms(2,3) by (auto simp: mod_add_small split: if_splits)
qed

lemma ring_window_push [ring_simps]:
  assumes "n < length buf"
  shows "ring_window (buf[(head + n) mod length buf := v]) head (Suc n) = ring_window buf head n @ [v]"
proof -
  have lt: "(head + n) mod length buf < length buf" by (intro mod_less_divisor) (use assms in linarith)
  have "\<And>i. i < n \<Longrightarrow> (head + n) mod length buf \<noteq> (head + i) mod length buf"
    using assms mod_window_inj [of head n "length buf"] by (metis nat_neq_iff order.strict_trans)
  then show ?thesis using lt by (auto simp: ring_window_def)
qed

lemma ring_window_pop [ring_simps]:
  "ring_window buf (Suc head mod length buf) n = tl (ring_window buf head (Suc n))"
  unfolding ring_window_def
  by (simp add: map_tl [symmetric] upt_rec [of 0 "Suc n"] map_Suc_upt [symmetric] mod_add_left_eq
        del: upt_Suc)

lemma ring_window_head [ring_simps]:
  "0 < length buf \<Longrightarrow> 0 < n \<Longrightarrow> ring_window buf head n \<noteq> [] \<and>
   hd (ring_window buf head n) = buf ! (head mod length buf)"
  by (simp add: ring_window_def hd_map upt_rec [of 0 n])

lemma ring_window_last [ring_simps]:
  "ring_window buf head (Suc n) = ring_window buf head n @ [buf ! ((head + n) mod length buf)]"
  by (simp add: ring_window_def)

text \<open>Overwriting the oldest element of a full ring.\<close>

lemma ring_window_overwrite [ring_simps]:
  assumes "0 < length buf" "head < length buf"
  shows "ring_window (buf[head := v]) (Suc head mod length buf) (length buf) =
         tl (ring_window buf head (length buf)) @ [v]"
proof -
  let ?L = "length buf"
  obtain m where m: "?L = Suc m" using assms(1) by (cases ?L) auto
  have "(Suc head mod ?L + m) mod ?L = (head + ?L) mod ?L"
    unfolding mod_add_left_eq by (simp add: m)
  also have "\<dots> = head" using assms(2) by simp
  finally have pos: "(Suc head mod ?L + m) mod ?L = head" .
  have "ring_window (buf[head := v]) (Suc head mod ?L) (Suc m) =
        ring_window buf (Suc head mod ?L) m @ [v]"
    using ring_window_push [of m buf "Suc head mod ?L" v] m pos by simp
  also have "ring_window buf (Suc head mod ?L) m = tl (ring_window buf head (Suc m))"
    by (rule ring_window_pop)
  finally show ?thesis unfolding m .
qed

section \<open>The interface of a bounded FIFO queue\<close>

text \<open>
  What a client of a queue relies on: \<open>enq\<close> appends the element as the queue stores it
  (\<open>norm\<close>) unless the queue is full, \<open>deq\<close> hands out the oldest stored element.
\<close>

fun enq_list :: "('x \<Rightarrow> 'q \<Rightarrow> bool \<times> 'q) \<Rightarrow> 'x list \<Rightarrow> 'q \<Rightarrow> 'q" where
  "enq_list enq [] q = q"
| "enq_list enq (x # xs) q = enq_list enq xs (snd (enq x q))"

fun deq_n :: "('q \<Rightarrow> 'y option \<times> 'q) \<Rightarrow> nat \<Rightarrow> 'q \<Rightarrow> 'y list \<times> 'q" where
  "deq_n deq 0 q = ([], q)"
| "deq_n deq (Suc n) q =
     (case deq q of
        (None, q') \<Rightarrow> ([], q')
      | (Some y, q') \<Rightarrow> let (ys, q'') = deq_n deq n q' in (y # ys, q''))"

locale fifo_queue =
  fixes inv :: "'q \<Rightarrow> bool"
    and items :: "'q \<Rightarrow> 'y list"
    and cap :: "'q \<Rightarrow> nat"
    and norm :: "'x \<Rightarrow> 'y"
    and enq :: "'x \<Rightarrow> 'q \<Rightarrow> bool \<times> 'q"
    and deq :: "'q \<Rightarrow> 'y option \<times> 'q"
  assumes bounded: "inv q \<Longrightarrow> length (items q) \<le> cap q"
    and enq_inv: "inv q \<Longrightarrow> inv (snd (enq x q))"
    and enq_cap: "inv q \<Longrightarrow> cap (snd (enq x q)) = cap q"
    and enq_room: "inv q \<Longrightarrow> length (items q) < cap q \<Longrightarrow>
                   fst (enq x q) \<and> items (snd (enq x q)) = items q @ [norm x]"
    and enq_full: "inv q \<Longrightarrow> length (items q) = cap q \<Longrightarrow>
                   \<not> fst (enq x q) \<and> items (snd (enq x q)) = items q"
    and deq_inv: "inv q \<Longrightarrow> inv (snd (deq q))"
    and deq_empty: "inv q \<Longrightarrow> items q = [] \<Longrightarrow> fst (deq q) = None \<and> items (snd (deq q)) = []"
    and deq_some: "inv q \<Longrightarrow> items q \<noteq> [] \<Longrightarrow>
                   fst (deq q) = Some (hd (items q)) \<and> items (snd (deq q)) = tl (items q)"
begin

lemma enq_list_spec:
  assumes "inv q"
  shows "inv (enq_list enq xs q) \<and> cap (enq_list enq xs q) = cap q \<and>
         items (enq_list enq xs q) = take (cap q) (items q @ map norm xs)"
  using assms
proof (induction xs arbitrary: q)
  case Nil
  then show ?case using bounded by simp
next
  case (Cons x xs)
  have IH: "inv (enq_list enq xs (snd (enq x q)))"
    "cap (enq_list enq xs (snd (enq x q))) = cap q"
    "items (enq_list enq xs (snd (enq x q))) = take (cap q) (items (snd (enq x q)) @ map norm xs)"
    using Cons.IH [OF enq_inv [OF Cons.prems, of x]] enq_cap [OF Cons.prems, of x] by auto
  show ?case
  proof (cases "length (items q) < cap q")
    case True
    with IH enq_room [OF Cons.prems True, of x] show ?thesis by simp
  next
    case False
    with bounded [OF Cons.prems] have "length (items q) = cap q" by simp
    with IH enq_full [OF Cons.prems this, of x] show ?thesis by simp
  qed
qed

lemma deq_n_spec:
  assumes "inv q"
  shows "fst (deq_n deq n q) = take n (items q) \<and> items (snd (deq_n deq n q)) = drop n (items q) \<and>
         inv (snd (deq_n deq n q))"
  using assms
proof (induction n arbitrary: q)
  case 0
  then show ?case by simp
next
  case (Suc n)
  have IH: "fst (deq_n deq n (snd (deq q))) = take n (items (snd (deq q)))"
    "items (snd (deq_n deq n (snd (deq q)))) = drop n (items (snd (deq q)))"
    "inv (snd (deq_n deq n (snd (deq q))))"
    using Suc.IH [OF deq_inv [OF Suc.prems]] by auto
  show ?case
  proof (cases "items q")
    case Nil
    with deq_empty [OF Suc.prems] deq_inv [OF Suc.prems] show ?thesis
      by (cases "deq q") simp
  next
    case (Cons y ys)
    with deq_some [OF Suc.prems] IH show ?thesis
      by (cases "deq q") (simp add: split_beta Let_def)
  qed
qed

text \<open>Whatever fits comes out in the order it went in.\<close>

lemma fifo_order:
  assumes "inv q" "items q = []"
  shows "fst (deq_n deq n (enq_list enq xs q)) = take n (take (cap q) (map norm xs))"
  using enq_list_spec [OF assms(1), of xs] deq_n_spec [of "enq_list enq xs q" n] assms(2) by simp

end

section \<open>StaticQueue\<close>

record 'a squeue =
  sq_buffer :: "('a \<times> nat) option list"
  sq_head :: nat
  sq_tail :: nat
  sq_size :: nat

text \<open>The element type occupies \<open>sz\<close> bytes; \<open>Capacity\<close> is the template argument.\<close>

definition StaticQueue :: "nat \<Rightarrow> nat \<Rightarrow> 'a squeue" where
  "StaticQueue Capacity sz =
     \<lparr>sq_buffer = replicate (Capacity * sz) None, sq_head = 0, sq_tail = 0, sq_size = 0\<rparr>"

definition object_bytes :: "nat \<Rightarrow> 'a \<Rightarrow> ('a \<times> nat) option list" where
  "object_bytes sz v = map (\<lambda>k. Some (v, k)) [0..<sz]"

text \<open>\<open>reinterpret_cast<T*>(&buffer_[off])\<close>: the bytes form an object only if they are all the
  bytes of one value.\<close>

definition read_object :: "nat \<Rightarrow> ('a \<times> nat) option list \<Rightarrow> nat \<Rightarrow> 'a option" where
  "read_object sz buf off =
     (case take sz (drop off buf) of
        Some (v, 0) # _ \<Rightarrow> if take sz (drop off buf) = object_bytes sz v then Some v else None
      | _ \<Rightarrow> None)"

text \<open>The Boolean tells whether the element was stored; the code's \<open>push\<close> drops it silently.\<close>

definition sq_push :: "nat \<Rightarrow> nat \<Rightarrow> 'a \<Rightarrow> 'a squeue \<Rightarrow> bool \<times> 'a squeue" where
  "sq_push Capacity sz v q =
     (if sq_size q < Capacity
      then (True, q\<lparr>sq_buffer := memcpy_to (sq_buffer q) (sq_tail q) (object_bytes sz v),
                    sq_tail := (sq_tail q + 1) mod Capacity, sq_size := sq_size q + 1\<rparr>)
      else (False, q))"

definition sq_pop :: "nat \<Rightarrow> 'a squeue \<Rightarrow> 'a squeue" where
  "sq_pop Capacity q =
     (if 0 < sq_size q
      then q\<lparr>sq_head := (sq_head q + 1) mod Capacity, sq_size := sq_size q - 1\<rparr>
      else q)"

definition sq_front :: "nat \<Rightarrow> 'a squeue \<Rightarrow> 'a option" where
  "sq_front sz q = read_object sz (sq_buffer q) (sq_head q)"

definition sq_back :: "nat \<Rightarrow> nat \<Rightarrow> 'a squeue \<Rightarrow> 'a option" where
  "sq_back Capacity sz q =
     (let last = (if sq_tail q = 0 then Capacity - 1 else sq_tail q - 1)
      in read_object sz (sq_buffer q) last)"

definition sq_empty :: "'a squeue \<Rightarrow> bool" where "sq_empty q \<longleftrightarrow> sq_size q = 0"
definition sq_full :: "nat \<Rightarrow> 'a squeue \<Rightarrow> bool" where "sq_full Capacity q \<longleftrightarrow> sq_size q = Capacity"

text \<open>\<open>while (!empty()) pop();\<close>\<close>

function sq_clear :: "nat \<Rightarrow> 'a squeue \<Rightarrow> 'a squeue" where
  "sq_clear Capacity q = (if \<not> sq_empty q then sq_clear Capacity (sq_pop Capacity q) else q)"
  by pat_completeness auto
termination by (relation "measure (\<lambda>(c, q). sq_size q)") (auto simp: sq_empty_def sq_pop_def)

declare sq_clear.simps [simp del]

text \<open>A consumer's step: read the front, then \<open>pop\<close>.\<close>

definition sq_take :: "nat \<Rightarrow> nat \<Rightarrow> 'a squeue \<Rightarrow> 'a option \<times> 'a squeue" where
  "sq_take Capacity sz q =
     (if sq_empty q then (None, q) else (sq_front sz q, sq_pop Capacity q))"

subsection \<open>One-byte elements: a FIFO queue\<close>

definition sq_inv :: "nat \<Rightarrow> 'a squeue \<Rightarrow> bool" where
  "sq_inv Capacity q \<longleftrightarrow>
     0 < Capacity \<and> length (sq_buffer q) = Capacity \<and> sq_head q < Capacity \<and>
     sq_size q \<le> Capacity \<and> sq_tail q = (sq_head q + sq_size q) mod Capacity \<and>
     (\<exists>xs. ring_window (sq_buffer q) (sq_head q) (sq_size q) = map (\<lambda>v. Some (v, 0)) xs)"

definition sq_items :: "'a squeue \<Rightarrow> 'a list" where
  "sq_items q = map (fst \<circ> the) (ring_window (sq_buffer q) (sq_head q) (sq_size q))"

lemma map_unbyte [simp]: "map (fst \<circ> the) (map (\<lambda>v. Some (v, 0)) xs) = xs"
  by (simp add: comp_def)

lemma map_unbyte_comp [simp]: "map (fst \<circ> the \<circ> (\<lambda>v. Some (v, 0))) xs = xs"
  by (simp add: comp_def)

lemma length_sq_items [simp]: "length (sq_items q) = sq_size q"
  by (simp add: sq_items_def)

lemma read_byte: "off < length buf \<Longrightarrow> buf ! off = Some (v, 0) \<Longrightarrow> read_object (Suc 0) buf off = Some v"
  by (simp add: read_object_def object_bytes_def Cons_nth_drop_Suc [symmetric])

lemma write_byte: "off < length buf \<Longrightarrow> memcpy_to buf off (object_bytes (Suc 0) v) = buf[off := Some (v, 0)]"
  by (simp add: memcpy_to_def object_bytes_def upd_conv_take_nth_drop)

lemma sq_inv_init: "0 < Capacity \<Longrightarrow> sq_inv Capacity (StaticQueue Capacity 1)"
  by (simp add: sq_inv_def StaticQueue_def)

lemma sq_push_room:
  assumes "sq_inv Capacity q" "sq_size q < Capacity"
  shows "fst (sq_push Capacity 1 v q) \<and> sq_inv Capacity (snd (sq_push Capacity 1 v q)) \<and>
         sq_items (snd (sq_push Capacity 1 v q)) = sq_items q @ [v]"
proof -
  from assms(1) obtain xs where i: "0 < Capacity" "length (sq_buffer q) = Capacity"
    "sq_head q < Capacity" "sq_tail q = (sq_head q + sq_size q) mod Capacity"
    "ring_window (sq_buffer q) (sq_head q) (sq_size q) = map (\<lambda>v. Some (v, 0)) xs"
    by (auto simp: sq_inv_def)
  have "ring_window ((sq_buffer q)[sq_tail q := Some (v, 0)]) (sq_head q) (Suc (sq_size q)) =
        map (\<lambda>v. Some (v, 0)) (xs @ [v])"
    using ring_window_push [of "sq_size q" "sq_buffer q" "sq_head q" "Some (v, 0)"] i assms(2) by simp
  moreover have "sq_tail q < length (sq_buffer q)" using i by simp
  ultimately show ?thesis
    using i assms(2)
    by (auto simp: sq_push_def write_byte sq_inv_def sq_items_def mod_Suc_eq intro: exI [of _ "xs @ [v]"])
qed

lemma sq_take_some:
  assumes "sq_inv Capacity q" "0 < sq_size q"
  shows "fst (sq_take Capacity 1 q) = Some (hd (sq_items q)) \<and>
         sq_inv Capacity (snd (sq_take Capacity 1 q)) \<and>
         sq_items (snd (sq_take Capacity 1 q)) = tl (sq_items q)"
proof -
  from assms(1) obtain xs where i: "0 < Capacity" "length (sq_buffer q) = Capacity"
    "sq_head q < Capacity" "sq_tail q = (sq_head q + sq_size q) mod Capacity"
    "ring_window (sq_buffer q) (sq_head q) (sq_size q) = map (\<lambda>v. Some (v, 0)) xs"
    by (auto simp: sq_inv_def)
  obtain m where m: "sq_size q = Suc m" using assms(2) by (cases "sq_size q") auto
  have "length xs = sq_size q" using i(5) by (metis length_map length_ring_window)
  then obtain y ys where xs: "xs = y # ys" using m by (cases xs) auto
  have head: "sq_buffer q ! sq_head q = Some (y, 0)"
    using ring_window_head [of "sq_buffer q" "sq_size q" "sq_head q"] i xs m by auto
  have tl: "ring_window (sq_buffer q) (Suc (sq_head q) mod Capacity) m = map (\<lambda>v. Some (v, 0)) ys"
    using ring_window_pop [of "sq_buffer q" "sq_head q" m] i xs m by simp
  have tail: "sq_tail q = (Suc (sq_head q) mod Capacity + m) mod Capacity"
    unfolding i(4) m by (simp add: mod_add_left_eq)
  have "sq_items q = y # ys" unfolding sq_items_def i(5) xs by simp
  moreover have "sq_front 1 q = Some y"
    using head i by (simp add: sq_front_def read_byte)
  ultimately show ?thesis
    using i tl m tail assms(1)
    by (auto simp: sq_take_def sq_empty_def sq_pop_def sq_inv_def sq_items_def)
qed

interpretation sq: fifo_queue "sq_inv Capacity" sq_items "\<lambda>_. Capacity" id
  "sq_push Capacity 1" "sq_take Capacity 1" for Capacity
proof
  fix q :: "'a squeue" and x
  assume inv: "sq_inv Capacity q"
  then have le: "sq_size q \<le> Capacity" by (simp add: sq_inv_def)
  then show "length (sq_items q) \<le> Capacity" by simp
  show "sq_inv Capacity (snd (sq_push Capacity 1 x q))"
    using sq_push_room [OF inv, of x] inv by (cases "sq_size q < Capacity") (auto simp: sq_push_def)
  show "length (sq_items q) < Capacity \<Longrightarrow> fst (sq_push Capacity 1 x q) \<and>
          sq_items (snd (sq_push Capacity 1 x q)) = sq_items q @ [id x]"
    using sq_push_room [OF inv, of x] by simp
  show "length (sq_items q) = Capacity \<Longrightarrow> \<not> fst (sq_push Capacity 1 x q) \<and>
          sq_items (snd (sq_push Capacity 1 x q)) = sq_items q"
    by (simp add: sq_push_def)
  show "sq_inv Capacity (snd (sq_take Capacity 1 q))"
    using sq_take_some [OF inv] inv by (cases "sq_size q = 0") (auto simp: sq_take_def sq_empty_def)
  show "sq_items q = [] \<Longrightarrow> fst (sq_take Capacity 1 q) = None \<and> sq_items (snd (sq_take Capacity 1 q)) = []"
    using length_sq_items [of q] by (simp add: sq_take_def sq_empty_def)
  show "sq_items q \<noteq> [] \<Longrightarrow> fst (sq_take Capacity 1 q) = Some (hd (sq_items q)) \<and>
          sq_items (snd (sq_take Capacity 1 q)) = tl (sq_items q)"
    using sq_take_some [OF inv] length_sq_items [of q] by (metis length_greater_0_conv)
qed simp

lemma sq_clear_empties: "sq_size (sq_clear Capacity q) = 0"
  by (induction Capacity q rule: sq_clear.induct)
     (subst sq_clear.simps, auto simp: sq_empty_def)

subsection \<open>Larger elements overlap\<close>

lemma object_bytes_nth: "k < sz \<Longrightarrow> object_bytes sz v ! k = Some (v, k)"
  by (simp add: object_bytes_def)

lemma length_object_bytes [simp]: "length (object_bytes sz v) = sz"
  by (simp add: object_bytes_def)

text \<open>The second \<open>push\<close> writes one byte, not one element, behind the first: the front element is gone.\<close>

lemma sq_second_push_overlaps:
  assumes "2 \<le> Capacity" "2 \<le> sz" "a \<noteq> b"
  shows "sq_front sz (snd (sq_push Capacity sz b (snd (sq_push Capacity sz a (StaticQueue Capacity sz)))))
         \<noteq> Some a"
proof -
  let ?B = "replicate (Capacity * sz) (None :: ('a \<times> nat) option)"
  let ?b1 = "memcpy_to ?B 0 (object_bytes sz a)"
  let ?b2 = "memcpy_to ?b1 1 (object_bytes sz b)"
  have cap: "Suc sz \<le> Capacity * sz"
  proof -
    have "Suc sz \<le> 2 * sz" using assms(2) by simp
    also have "\<dots> \<le> Capacity * sz" using assms(1) by simp
    finally show ?thesis .
  qed
  have front: "sq_front sz (snd (sq_push Capacity sz b (snd (sq_push Capacity sz a (StaticQueue Capacity sz)))))
        = read_object sz ?b2 0"
    using assms by (simp add: sq_front_def sq_push_def StaticQueue_def)
  have "sz \<le> Capacity * sz" using cap by linarith
  then have l1: "length ?b1 = Capacity * sz"
    by (subst length_memcpy_to) (simp_all only: length_replicate length_object_bytes add_0)
  have "?b2 ! 1 = Some (b, 0)"
    using assms(2) l1 cap by (simp add: memcpy_to_def nth_append object_bytes_nth)
  moreover have "1 < sz" using assms(2) by simp
  ultimately have "take sz ?b2 ! 1 \<noteq> object_bytes sz a ! 1"
    using assms(3) by (simp add: object_bytes_nth)
  then have "take sz (drop 0 ?b2) \<noteq> object_bytes sz a" by auto
  then show ?thesis
    unfolding front by (auto simp: read_object_def split: list.splits option.splits prod.splits nat.splits if_splits)
qed

section \<open>Properties\<close>

text \<open>A \<open>StaticQueue\<close> of one-byte elements is a bounded FIFO queue: what fits comes out in the order
  it was pushed.\<close>

theorem static_queue_fifo:
  assumes "0 < Capacity"
  shows "fst (deq_n (sq_take Capacity 1) n (enq_list (sq_push Capacity 1) xs (StaticQueue Capacity 1))) =
         take n (take Capacity xs)"
  using sq.fifo_order [OF sq_inv_init [OF assms], of n xs] by (simp add: sq_items_def StaticQueue_def)

theorem static_queue_fifo_witness:
  "fst (deq_n (sq_take 2 1) 5 (enq_list (sq_push 2 1) [10, 20, 30 :: nat] (StaticQueue 2 1))) = [10, 20]"
  using static_queue_fifo [of 2 5 "[10, 20, 30]"] by simp

text \<open>With elements of two or more bytes the queue is broken: after two pushes the front is no
  longer the first element pushed, because the slots are addressed by byte.\<close>

theorem static_queue_overlap:
  assumes "2 \<le> Capacity" "2 \<le> sz" "a \<noteq> b"
  shows "sq_front sz (snd (sq_push Capacity sz b (snd (sq_push Capacity sz a (StaticQueue Capacity sz)))))
         \<noteq> Some a"
  using assms by (rule sq_second_push_overlaps)

theorem static_queue_overlap_witness:
  "sq_front 4 (snd (sq_push 8 4 (2::nat) (snd (sq_push 8 4 1 (StaticQueue 8 4))))) \<noteq> Some 1"
  using static_queue_overlap [of 8 4 1 "2::nat"] by simp

end
