(* ===== verification/Error_Handler.thy ===== *)
theory Error_Handler
  imports Static_Hash_Map Small_Vector Static_String Ring_Queue
begin

text \<open>
  \<open>ErrorHandler\<close> and the error policies (\<open>include/Core/Error/ErrorHandler.h\<close>,
  \<open>ErrorPolicy.h\<close>). The singleton is a state record threaded through the operations.
  The clock is an argument: \<open>millis()\<close> is a 32-bit word that wraps. User callbacks are
  outputs: the list of calls an operation makes, with their arguments (a callback that
  reports errors itself is a second call of the operation by the caller). Counters wrap at
  32 bits as in the code. \<open>None\<close> as the result of an operation is the undefined behaviour
  of \<open>StaticHashMap::operator[]\<close> on a full table.
\<close>

section \<open>FNV-1a\<close>

definition fnv_prime :: u32 where "fnv_prime = 16777619"
definition fnv_basis :: u32 where "fnv_basis = 2166136261"

definition fnv_step :: "u32 \<Rightarrow> char \<Rightarrow> u32" where
  "fnv_step hash c = (hash XOR of_char c) * fnv_prime"

definition fnv1a_hash :: "char list \<Rightarrow> u32" where
  "fnv1a_hash str = fold (\<lambda>c h. fnv_step h c) str fnv_basis"

definition fnv1a_hash2 :: "char list option \<Rightarrow> char list option \<Rightarrow> u32" where
  "fnv1a_hash2 str1 str2 =
     (let h = (case str1 of None \<Rightarrow> fnv_basis | Some s \<Rightarrow> fold (\<lambda>c h. fnv_step h c) s fnv_basis);
          h = (h XOR 0x55) * fnv_prime
      in case str2 of None \<Rightarrow> h | Some s \<Rightarrow> fold (\<lambda>c h. fnv_step h c) s h)"

section \<open>Severities and error records\<close>

datatype ErrorSeverity = INFO | WARNING | ERROR | CRITICAL

fun severity_rank :: "ErrorSeverity \<Rightarrow> nat" where
  "severity_rank INFO = 0"
| "severity_rank WARNING = 1"
| "severity_rank ERROR = 2"
| "severity_rank CRITICAL = 3"

text \<open>The comparison of the scoped enumeration.\<close>

instantiation ErrorSeverity :: linorder
begin

definition less_eq_ErrorSeverity :: "ErrorSeverity \<Rightarrow> ErrorSeverity \<Rightarrow> bool" where
  "a \<le> b \<longleftrightarrow> severity_rank a \<le> severity_rank b"

definition less_ErrorSeverity :: "ErrorSeverity \<Rightarrow> ErrorSeverity \<Rightarrow> bool" where
  "a < b \<longleftrightarrow> severity_rank a < severity_rank b"

lemma severity_rank_inj: "severity_rank a = severity_rank b \<Longrightarrow> a = b"
  by (cases a; cases b) simp_all

instance
  by standard (auto simp: less_eq_ErrorSeverity_def less_ErrorSeverity_def intro: severity_rank_inj)

end

record error_info =
  ei_context :: "char list"
  ei_message :: "char list"
  ei_severity :: ErrorSeverity
  ei_timestamp :: u32
  ei_error_code :: u32
  ei_context_stack :: "char list"

text \<open>\<open>strncpy(dst, src, n - 1); dst[n - 1] = 0\<close>, and \<open>strncat(dst, src, n - strlen(dst) - 1)\<close>.\<close>

definition bounded_copy :: "nat \<Rightarrow> char list \<Rightarrow> char list" where
  "bounded_copy n src = take (n - 1) src"

definition bounded_cat :: "nat \<Rightarrow> char list \<Rightarrow> char list \<Rightarrow> char list" where
  "bounded_cat n dst src = dst @ take (n - length dst - 1) src"

definition ErrorInfo :: "char list option \<Rightarrow> char list option \<Rightarrow> ErrorSeverity \<Rightarrow> error_info" where
  "ErrorInfo ctx msg sev =
     \<lparr>ei_context = bounded_copy 32 (case ctx of Some c \<Rightarrow> c | None \<Rightarrow> []),
      ei_message = bounded_copy 128 (case msg of Some m \<Rightarrow> m | None \<Rightarrow> []),
      ei_severity = sev, ei_timestamp = 0, ei_error_code = 0, ei_context_stack = []\<rparr>"

section \<open>Policies\<close>

text \<open>The policy classes with their fields; a Boolean says whether an optional callback is set.\<close>

datatype policy =
    LogOnlyPolicy
  | RetryPolicy (rp_max_retries: u8) (rp_retry_count: u8)
  | ThresholdPolicy (tp_threshold: u32) (tp_error_count: u32) (tp_action: bool)
  | SeverityPolicy (sp_warning: bool) (sp_error: bool) (sp_critical: bool)

datatype policy_call = ThresholdAction | WarningCall error_info | ErrorCall error_info | CriticalCall error_info

definition retry_handle :: "u8 \<Rightarrow> u8 \<Rightarrow> bool \<times> policy" where
  "retry_handle max_retries retry_count =
     (let retry_count = retry_count + 1
      in if retry_count < max_retries then (False, RetryPolicy max_retries retry_count)
         else (True, RetryPolicy max_retries 0))"

definition threshold_handle :: "u32 \<Rightarrow> u32 \<Rightarrow> bool \<Rightarrow> bool \<times> policy \<times> policy_call list" where
  "threshold_handle threshold error_count action =
     (let error_count = error_count + 1
      in if threshold \<le> error_count \<and> action
         then (True, ThresholdPolicy threshold 0 action, [ThresholdAction])
         else (True, ThresholdPolicy threshold error_count action, []))"

definition severity_handle :: "error_info \<Rightarrow> bool \<Rightarrow> bool \<Rightarrow> bool \<Rightarrow> policy_call list" where
  "severity_handle info w e c =
     (case ei_severity info of
        WARNING \<Rightarrow> if w then [WarningCall info] else []
      | ERROR \<Rightarrow> if e then [ErrorCall info] else []
      | CRITICAL \<Rightarrow> if c then [CriticalCall info] else []
      | _ \<Rightarrow> [])"

fun policy_handle :: "error_info \<Rightarrow> policy \<Rightarrow> bool \<times> policy \<times> policy_call list" where
  "policy_handle info LogOnlyPolicy = (True, LogOnlyPolicy, [])"
| "policy_handle info (RetryPolicy m r) = (let (b, p) = retry_handle m r in (b, p, []))"
| "policy_handle info (ThresholdPolicy t n a) = threshold_handle t n a"
| "policy_handle info (SeverityPolicy w e c) = (True, SeverityPolicy w e c, severity_handle info w e c)"

fun policy_reset :: "policy \<Rightarrow> policy" where
  "policy_reset (RetryPolicy m r) = RetryPolicy m 0"
| "policy_reset (ThresholdPolicy t n a) = ThresholdPolicy t 0 a"
| "policy_reset p = p"

section \<open>The handler\<close>

record throttle_info =
  ti_last_time :: u32
  ti_interval :: u32

record error_handler =
  eh_callback :: bool
  eh_policies :: "nat arr"
  eh_policy_objects :: "nat \<Rightarrow> policy"
  eh_total_errors :: u32
  eh_filtered_count :: u32
  eh_throttled_count :: u32
  eh_duplicate_count :: u32
  eh_last_error_time :: u32
  eh_context_stack :: "char list arr"
  eh_filter_enabled :: bool
  eh_min_severity :: ErrorSeverity
  eh_throttle_map :: "(u32, throttle_info) shm"
  eh_dedup_enabled :: bool
  eh_dedup_window :: u32
  eh_dedup_map :: "(u32, u32) shm"
  eh_warning_count :: u32
  eh_error_count :: u32
  eh_critical_count :: u32
  eh_info_count :: u32
  eh_history :: "error_info list"
  eh_history_index :: nat
  eh_history_count :: nat

definition HISTORY_SIZE :: nat where "HISTORY_SIZE = 10"

text \<open>Plain old data: pointers and words.\<close>

definition pod :: elem_traits where "pod = \<lparr>triv_copy = True, triv_destroy = True\<rparr>"

text \<open>\<open>std::hash<uint32_t>\<close> is the identity.\<close>

definition hash_u32 :: "u32 \<Rightarrow> nat" where "hash_u32 w = unat w"

definition ErrorHandler_init :: "(nat \<Rightarrow> policy) \<Rightarrow> error_handler" where
  "ErrorHandler_init objects =
     \<lparr>eh_callback = False, eh_policies = SmallVector 4, eh_policy_objects = objects,
      eh_total_errors = 0, eh_filtered_count = 0, eh_throttled_count = 0, eh_duplicate_count = 0,
      eh_last_error_time = 0, eh_context_stack = StaticArray 10, eh_filter_enabled = False,
      eh_min_severity = INFO, eh_throttle_map = StaticHashMap pod 16, eh_dedup_enabled = False,
      eh_dedup_window = 5000, eh_dedup_map = StaticHashMap pod 16, eh_warning_count = 0,
      eh_error_count = 0, eh_critical_count = 0, eh_info_count = 0,
      eh_history = replicate HISTORY_SIZE (ErrorInfo None None ERROR),
      eh_history_index = 0, eh_history_count = 0\<rparr>"

definition onError :: "error_handler \<Rightarrow> error_handler" where
  "onError h = h\<lparr>eh_callback := True\<rparr>"

definition registerPolicy :: "bool \<Rightarrow> nat \<Rightarrow> error_handler \<Rightarrow> error_handler option" where
  "registerPolicy ok p h =
     map_option (\<lambda>a. h\<lparr>eh_policies := a\<rparr>) (sv_push_back pod ok p (eh_policies h))"

definition setFilter :: "ErrorSeverity \<Rightarrow> error_handler \<Rightarrow> error_handler" where
  "setFilter s h = h\<lparr>eh_filter_enabled := True, eh_min_severity := s\<rparr>"

definition disableFilter :: "error_handler \<Rightarrow> error_handler" where
  "disableFilter h = h\<lparr>eh_filter_enabled := False\<rparr>"

definition setThrottle :: "char list \<Rightarrow> u32 \<Rightarrow> error_handler \<Rightarrow> error_handler option" where
  "setThrottle context interval_ms h =
     map_option
       (\<lambda>(d, m). h\<lparr>eh_throttle_map := shm_store d \<lparr>ti_last_time = 0, ti_interval = interval_ms\<rparr> m\<rparr>)
       (shm_subscript hash_u32 \<lparr>ti_last_time = 0, ti_interval = 0\<rparr> (fnv1a_hash context) (eh_throttle_map h))"

definition enableDeduplication :: "u32 \<Rightarrow> error_handler \<Rightarrow> error_handler" where
  "enableDeduplication window_ms h = h\<lparr>eh_dedup_enabled := True, eh_dedup_window := window_ms\<rparr>"

definition disableDeduplication :: "error_handler \<Rightarrow> error_handler" where
  "disableDeduplication h = h\<lparr>eh_dedup_enabled := False\<rparr>"

definition isThrottled :: "u32 \<Rightarrow> char list \<Rightarrow> error_handler \<Rightarrow> bool \<times> error_handler" where
  "isThrottled now context h =
     (let key = fnv1a_hash context; m = eh_throttle_map h in
      case shm_find_ref hash_u32 key m of
        None \<Rightarrow> (False, h)
      | Some it \<Rightarrow>
          (case shm_load it m of
             None \<Rightarrow> (False, h)
           | Some ti \<Rightarrow>
               if now - ti_last_time ti < ti_interval ti then (True, h)
               else (False, h\<lparr>eh_throttle_map := shm_store it (ti\<lparr>ti_last_time := now\<rparr>) m\<rparr>)))"

definition isDuplicate ::
  "u32 \<Rightarrow> char list option \<Rightarrow> char list option \<Rightarrow> error_handler \<Rightarrow> (bool \<times> error_handler) option" where
  "isDuplicate now context message h =
     (if \<not> eh_dedup_enabled h then Some (False, h)
      else let key = fnv1a_hash2 context message; m = eh_dedup_map h in
        if (case shm_find hash_u32 key m of None \<Rightarrow> False | Some t \<Rightarrow> now - t < eh_dedup_window h)
        then Some (True, h)
        else map_option (\<lambda>(d, m'). (False, h\<lparr>eh_dedup_map := shm_store d now m'\<rparr>))
               (shm_subscript hash_u32 0 key m))"

section \<open>Context stack\<close>

definition pushContext :: "char list \<Rightarrow> error_handler \<Rightarrow> error_handler" where
  "pushContext context h = h\<lparr>eh_context_stack := snd (sa_push_back context (eh_context_stack h))\<rparr>"

definition popContext :: "error_handler \<Rightarrow> error_handler" where
  "popContext h =
     (if \<not> sa_empty (eh_context_stack h)
      then h\<lparr>eh_context_stack := sa_pop_back pod (eh_context_stack h)\<rparr> else h)"

text \<open>The loop \<open>for (i = 1; i < n; i++)\<close> of \<open>getContextStack\<close>.\<close>

definition getContextStack :: "char list \<Rightarrow> error_handler \<Rightarrow> static_string" where
  "getContextStack junk h =
     (let stack = eh_context_stack h in
      if sa_empty stack then StaticString_of 128 junk (Some [])
      else fold (\<lambda>i r. ss_append 128 (sa_index stack i) (ss_append 128 (Some '' > '') r))
             [1..<sa_size stack] (StaticString_of 128 junk (sa_index stack 0)))"

section \<open>Reporting\<close>

definition count_severity :: "ErrorSeverity \<Rightarrow> error_handler \<Rightarrow> error_handler" where
  "count_severity sev h =
     (case sev of
        INFO \<Rightarrow> h\<lparr>eh_info_count := eh_info_count h + 1\<rparr>
      | WARNING \<Rightarrow> h\<lparr>eh_warning_count := eh_warning_count h + 1\<rparr>
      | ERROR \<Rightarrow> h\<lparr>eh_error_count := eh_error_count h + 1\<rparr>
      | CRITICAL \<Rightarrow> h\<lparr>eh_critical_count := eh_critical_count h + 1\<rparr>)"

definition context_trace :: "char list \<Rightarrow> static_string \<Rightarrow> char list" where
  "context_trace context stack_str =
     (let t = (if \<not> ss_empty stack_str
               then bounded_cat 96 (bounded_copy 96 (c_str_of (ss_buffer stack_str))) '' > ''
               else [])
      in bounded_cat 96 t context)"

definition history_push :: "error_info \<Rightarrow> error_handler \<Rightarrow> error_handler" where
  "history_push info h =
     h\<lparr>eh_history := (eh_history h)[eh_history_index h := info],
       eh_history_index := (eh_history_index h + 1) mod HISTORY_SIZE,
       eh_history_count := (if eh_history_count h < HISTORY_SIZE then eh_history_count h + 1
                            else eh_history_count h)\<rparr>"

text \<open>What an operation calls: the user callback, and the handlers of the policy object \<open>p\<close>.\<close>

datatype eh_call = UserCallback error_info | PolicyCall nat policy_call

text \<open>\<open>policies_[i]->handle(info)\<close> for \<open>i = 0, 1, ...\<close>; the results are ignored.\<close>

fun dispatch_loop ::
  "error_info \<Rightarrow> nat list \<Rightarrow> (nat \<Rightarrow> policy) \<Rightarrow> eh_call list \<times> (nat \<Rightarrow> policy)" where
  "dispatch_loop info [] objs = ([], objs)"
| "dispatch_loop info (p # ps) objs =
     (let (_, p', calls) = policy_handle info (objs p);
          (rest, objs') = dispatch_loop info ps (objs(p := p'))
      in (map (PolicyCall p) calls @ rest, objs'))"

definition dispatchToPolicies :: "error_info \<Rightarrow> error_handler \<Rightarrow> eh_call list \<times> error_handler" where
  "dispatchToPolicies info h =
     (let (calls, objs) = dispatch_loop info (contents (eh_policies h)) (eh_policy_objects h)
      in (calls, h\<lparr>eh_policy_objects := objs\<rparr>))"

text \<open>The part behind the three gates.\<close>

definition record_error ::
  "u32 \<Rightarrow> char list \<Rightarrow> char list \<Rightarrow> char list option \<Rightarrow> ErrorSeverity \<Rightarrow> error_handler \<Rightarrow>
   eh_call list \<times> error_handler" where
  "record_error now junk context message severity h =
     (let h = h\<lparr>eh_total_errors := eh_total_errors h + 1, eh_last_error_time := now\<rparr>;
          h = count_severity severity h;
          info = (ErrorInfo (Some context) message severity)
                   \<lparr>ei_timestamp := eh_last_error_time h, ei_error_code := eh_total_errors h,
                    ei_context_stack := context_trace context (getContextStack junk h)\<rparr>;
          h = history_push info h;
          user = (if eh_callback h then [UserCallback info] else []);
          (calls, h) = dispatchToPolicies info h
      in (user @ calls, h))"

text \<open>The three reads of the clock, in order: throttle check, duplicate check, time stamp.\<close>

record clock_reads =
  ck_throttle :: u32
  ck_dedup :: u32
  ck_stamp :: u32

definition reportError ::
  "clock_reads \<Rightarrow> char list \<Rightarrow> char list \<Rightarrow> char list option \<Rightarrow> ErrorSeverity \<Rightarrow> error_handler \<Rightarrow>
   (eh_call list \<times> error_handler) option" where
  "reportError ck junk context message severity h =
     (if eh_filter_enabled h \<and> severity < eh_min_severity h
      then Some ([], h\<lparr>eh_filtered_count := eh_filtered_count h + 1\<rparr>)
      else let (throttled, h) = isThrottled (ck_throttle ck) context h in
        if throttled then Some ([], h\<lparr>eh_throttled_count := eh_throttled_count h + 1\<rparr>)
        else case isDuplicate (ck_dedup ck) (Some context) message h of
          None \<Rightarrow> None
        | Some (dup, h) \<Rightarrow>
            if dup then Some ([], h\<lparr>eh_duplicate_count := eh_duplicate_count h + 1\<rparr>)
            else Some (record_error (ck_stamp ck) junk context message severity h))"

definition resetStats :: "error_handler \<Rightarrow> error_handler" where
  "resetStats h =
     h\<lparr>eh_total_errors := 0, eh_filtered_count := 0, eh_throttled_count := 0, eh_duplicate_count := 0,
       eh_last_error_time := 0, eh_warning_count := 0, eh_error_count := 0, eh_critical_count := 0,
       eh_info_count := 0, eh_history_index := 0, eh_history_count := 0\<rparr>"

text \<open>The records in the order \<open>printErrorHistory\<close> prints them.\<close>

definition printed_history :: "error_handler \<Rightarrow> error_info list" where
  "printed_history h =
     (let start = (if eh_history_count h < HISTORY_SIZE then 0 else eh_history_index h)
      in map (\<lambda>i. eh_history h ! ((start + i) mod HISTORY_SIZE))
           (filter (\<lambda>i. i < HISTORY_SIZE) [0..<eh_history_count h]))"

section \<open>Safe execution and assertions\<close>

text \<open>A function argument: what it does to the handler, and how it ends.\<close>

datatype outcome = Returns | ThrowsStd "char list" | ThrowsOther

type_synonym user_fn = "error_handler \<Rightarrow> outcome \<times> error_handler"

definition executeSafe ::
  "clock_reads \<Rightarrow> char list \<Rightarrow> user_fn option \<Rightarrow> char list \<Rightarrow> error_handler \<Rightarrow>
   (bool \<times> eh_call list \<times> error_handler) option" where
  "executeSafe ck junk fn context h =
     (case fn of
        None \<Rightarrow> map_option (\<lambda>(c, h). (False, c, h))
                  (reportError ck junk context (Some ''Null function'') WARNING h)
      | Some f \<Rightarrow>
          (case f h of
             (Returns, h) \<Rightarrow> Some (True, [], h)
           | (ThrowsStd what, h) \<Rightarrow>
               map_option (\<lambda>(c, h). (False, c, h)) (reportError ck junk context (Some what) ERROR h)
           | (ThrowsOther, h) \<Rightarrow>
               map_option (\<lambda>(c, h). (False, c, h))
                 (reportError ck junk context (Some ''Unknown exception'') CRITICAL h)))"

definition executeSafeWithFallback ::
  "clock_reads \<Rightarrow> clock_reads \<Rightarrow> char list \<Rightarrow> user_fn option \<Rightarrow> user_fn option \<Rightarrow> char list \<Rightarrow>
   error_handler \<Rightarrow> (bool \<times> eh_call list \<times> error_handler) option" where
  "executeSafeWithFallback ck ck2 junk fn fallback context h =
     (case executeSafe ck junk fn context h of
        None \<Rightarrow> None
      | Some (success, calls, h) \<Rightarrow>
          if success then Some (success, calls, h)
          else (case fallback of
                  None \<Rightarrow> Some (success, calls, h)
                | Some g \<Rightarrow>
                    (case g h of
                       (Returns, h) \<Rightarrow> Some (success, calls, h)
                     | (_, h) \<Rightarrow>
                         map_option (\<lambda>(c, h). (success, calls @ c, h))
                           (reportError ck2 junk context (Some ''Fallback also failed'') CRITICAL h))))"

definition assertCondition ::
  "clock_reads \<Rightarrow> char list \<Rightarrow> bool \<Rightarrow> char list \<Rightarrow> char list option \<Rightarrow> error_handler \<Rightarrow>
   (eh_call list \<times> error_handler) option" where
  "assertCondition ck junk condition context message h =
     (if \<not> condition then reportError ck junk context message CRITICAL h else Some ([], h))"

text \<open>Decimal output of \<open>%d\<close>.\<close>

definition digit_char :: "nat \<Rightarrow> char" where
  "digit_char d = char_of (48 + d)"

fun dec_nat :: "nat \<Rightarrow> char list" where
  "dec_nat n = (if n < 10 then [digit_char n] else dec_nat (n div 10) @ [digit_char (n mod 10)])"

declare dec_nat.simps [simp del]

definition dec_int :: "int \<Rightarrow> char list" where
  "dec_int i = (if i < 0 then CHR ''-'' # dec_nat (nat (- i)) else dec_nat (nat i))"

definition assertEqual ::
  "clock_reads \<Rightarrow> char list \<Rightarrow> int \<Rightarrow> int \<Rightarrow> char list \<Rightarrow> char list \<Rightarrow> error_handler \<Rightarrow>
   (eh_call list \<times> error_handler) option" where
  "assertEqual ck junk expected actual context message h =
     (if expected \<noteq> actual
      then reportError ck junk context
             (Some (bounded_copy 128 (message @ '' (expected: '' @ dec_int expected @
                '', actual: '' @ dec_int actual @ '')''))) CRITICAL h
      else Some ([], h))"

text \<open>\<open>ErrorContextGuard\<close>: the context is pushed, the body runs, the destructor pops.\<close>

definition with_context :: "char list \<Rightarrow> (error_handler \<Rightarrow> error_handler) \<Rightarrow> error_handler \<Rightarrow> error_handler" where
  "with_context context body h = popContext (body (pushContext context h))"

section \<open>The hash\<close>

text \<open>Each step is invertible (the prime is odd), so strings that differ in one character differ in hash.\<close>

definition fnv_prime_inv :: u32 where "fnv_prime_inv = 899433627"

lemma fnv_prime_unit: "fnv_prime * fnv_prime_inv = 1"
  by (simp add: fnv_prime_def fnv_prime_inv_def)

lemma fnv_mult_inj:
  assumes "a * fnv_prime = b * fnv_prime"
  shows "a = b"
proof -
  have "(x * fnv_prime) * fnv_prime_inv = x" for x
    by (simp only: mult.assoc fnv_prime_unit mult_1_right)
  with assms show ?thesis by metis
qed

lemma xor_cancel: "a XOR x = b XOR x \<Longrightarrow> a = (b :: u32)"
proof -
  assume "a XOR x = b XOR x"
  then have "(a XOR x) XOR x = (b XOR x) XOR x" by simp
  then show "a = b" by (simp only: xor.assoc xor_self_eq xor.right_neutral)
qed

lemma fnv_step_inj_hash: "fnv_step a c = fnv_step b c \<Longrightarrow> a = b"
  unfolding fnv_step_def by (drule fnv_mult_inj) (rule xor_cancel)

lemma unat_of_char: "unat (of_char e :: u32) = of_char e"
proof -
  have "(of_char e :: nat) < 256" by (metis of_char_mod_256 mod_less_divisor zero_less_numeral)
  then have lt: "(of_char e :: nat) < 2 ^ LENGTH(32)" by (rule order.strict_trans) simp
  have "(of_char e :: u32) = of_nat (of_char e)" by (rule of_nat_of_char [symmetric])
  then have "unat (of_char e :: u32) = unat (of_nat (of_char e) :: u32)" by (rule arg_cong)
  also have "\<dots> = of_char e" by (simp only: unat_of_nat mod_less [OF lt])
  finally show ?thesis .
qed

lemma of_char_u32_inj:
  assumes "(of_char c :: u32) = of_char d"
  shows "c = d"
proof -
  from assms have "unat (of_char c :: u32) = unat (of_char d :: u32)" by (rule arg_cong)
  then have "(of_char c :: nat) = of_char d" by (simp only: unat_of_char)
  then show ?thesis by (rule of_char_eqI)
qed

lemma fnv_step_inj_char: "fnv_step h c = fnv_step h d \<Longrightarrow> c = d"
  unfolding fnv_step_def
  by (drule fnv_mult_inj, rule of_char_u32_inj, rule xor_cancel [where x = h]) (simp only: xor.commute)

lemma fnv_fold_inj: "fold (\<lambda>c h. fnv_step h c) s a = fold (\<lambda>c h. fnv_step h c) s b \<Longrightarrow> a = b"
  by (induction s arbitrary: a b) (auto dest: fnv_step_inj_hash)

lemma fnv1a_differ_in_one_char:
  assumes "c \<noteq> d"
  shows "fnv1a_hash (s @ [c] @ t) \<noteq> fnv1a_hash (s @ [d] @ t)"
  using assms fnv_step_inj_char by (auto simp: fnv1a_hash_def dest!: fnv_fold_inj)

section \<open>Invariant\<close>

definition eh_inv :: "error_handler \<Rightarrow> bool" where
  "eh_inv h \<longleftrightarrow>
     (\<exists>ps. sv_rep pod 4 (eh_policies h) ps) \<and>
     (\<exists>cs. arr_rep pod (eh_context_stack h) cs) \<and> arr_capacity (eh_context_stack h) = 10 \<and>
     (\<exists>es. shm_rep hash_u32 pod (eh_throttle_map h) es) \<and> shm_max (eh_throttle_map h) = 16 \<and>
     (\<exists>es. shm_rep hash_u32 pod (eh_dedup_map h) es) \<and> shm_max (eh_dedup_map h) = 16 \<and>
     length (eh_history h) = HISTORY_SIZE \<and> eh_history_index h < HISTORY_SIZE \<and>
     eh_history_count h \<le> HISTORY_SIZE \<and>
     (eh_history_count h < HISTORY_SIZE \<longrightarrow> eh_history_index h = eh_history_count h) \<and>
     eh_total_errors h = eh_info_count h + eh_warning_count h + eh_error_count h + eh_critical_count h"

lemma pod_ok [simp]: "traits_ok pod"
  by (simp add: pod_def traits_ok_def)

lemma shm16_rep: "shm_rep hash_u32 pod (StaticHashMap pod 16) []"
  by (rule shm_rep_init [of 16 4]) (simp_all add: EMPTY_BUCKET_def)

lemma shm_max_StaticHashMap [simp]: "shm_max (StaticHashMap tr M) = M"
  by (simp add: StaticHashMap_def shm_clear_def)

lemma sa10_rep: "arr_rep pod (StaticArray 10) []" "arr_capacity (StaticArray 10) = 10"
  by (simp_all add: StaticArray_def) (simp add: ArrayBase_def)

lemma eh_inv_init: "eh_inv (ErrorHandler_init objs)"
  unfolding eh_inv_def ErrorHandler_init_def HISTORY_SIZE_def
  by (intro conjI) (simp_all add: sa10_rep, (blast intro: sv_rep_SmallVector shm16_rep sa10_rep(1))+)

text \<open>The two lookups of the gates.\<close>

definition throttle_of :: "error_handler \<Rightarrow> u32 \<Rightarrow> throttle_info option" where
  "throttle_of h key = shm_find hash_u32 key (eh_throttle_map h)"

definition dedup_of :: "error_handler \<Rightarrow> u32 \<Rightarrow> u32 option" where
  "dedup_of h key = shm_find hash_u32 key (eh_dedup_map h)"

lemma shm_max_store [simp]: "shm_max (shm_store d v m) = shm_max m"
  by (simp add: shm_store_def)

lemma isThrottled_spec:
  assumes "eh_inv h"
  shows "case throttle_of h (fnv1a_hash c) of
           None \<Rightarrow> isThrottled now c h = (False, h)
         | Some ti \<Rightarrow>
             if now - ti_last_time ti < ti_interval ti then isThrottled now c h = (True, h)
             else \<exists>m. isThrottled now c h = (False, h\<lparr>eh_throttle_map := m\<rparr>) \<and>
                    eh_inv (h\<lparr>eh_throttle_map := m\<rparr>) \<and>
                    throttle_of (h\<lparr>eh_throttle_map := m\<rparr>) =
                      (throttle_of h)(fnv1a_hash c \<mapsto> ti\<lparr>ti_last_time := now\<rparr>)"
proof -
  let ?k = "fnv1a_hash c" and ?m = "eh_throttle_map h"
  from assms obtain es where es: "shm_rep hash_u32 pod ?m es" "shm_max ?m = 16" by (auto simp: eh_inv_def)
  have th: "throttle_of h = map_of es" using find_eq [OF es(1)] by (simp add: throttle_of_def fun_eq_iff)
  show ?thesis
  proof (cases "shm_find_ref hash_u32 ?k ?m")
    case None
    then have "throttle_of h ?k = None" by (simp add: throttle_of_def shm_find_load)
    with None show ?thesis by (simp add: isThrottled_def Let_def)
  next
    case (Some d)
    with shm_find_ref_rep [OF es(1), of ?k] have d: "d < length es" "fst (es ! d) = ?k" by auto
    have load: "shm_load d ?m = Some (snd (es ! d))"
      using sa_index_rep [OF shm_repD(3) [OF es(1)] d(1)] by (simp add: shm_load_def)
    then have t: "throttle_of h ?k = Some (snd (es ! d))"
      using Some by (simp add: throttle_of_def shm_find_load)
    let ?ti = "snd (es ! d)"
    from shm_store_rep [OF es(1) d, of "?ti\<lparr>ti_last_time := now\<rparr>"] obtain es' where
      es': "shm_rep hash_u32 pod (shm_store d (?ti\<lparr>ti_last_time := now\<rparr>) ?m) es'"
      "map_of es' = (map_of es)(?k \<mapsto> ?ti\<lparr>ti_last_time := now\<rparr>)" by blast
    have "throttle_of (h\<lparr>eh_throttle_map := shm_store d (?ti\<lparr>ti_last_time := now\<rparr>) ?m\<rparr>) =
          (throttle_of h)(?k \<mapsto> ?ti\<lparr>ti_last_time := now\<rparr>)"
      using find_eq [OF es'(1)] unfolding th es'(2) [symmetric] by (simp add: throttle_of_def fun_eq_iff)
    moreover have "eh_inv (h\<lparr>eh_throttle_map := shm_store d (?ti\<lparr>ti_last_time := now\<rparr>) ?m\<rparr>)"
      using assms es(2) es'(1) unfolding eh_inv_def by auto
    moreover have "isThrottled now c h =
        (if now - ti_last_time ?ti < ti_interval ?ti then (True, h)
         else (False, h\<lparr>eh_throttle_map := shm_store d (?ti\<lparr>ti_last_time := now\<rparr>) ?m\<rparr>))"
      using Some load by (simp add: isThrottled_def Let_def)
    ultimately show ?thesis unfolding t by (simp only: option.case if_True if_False split: if_split) blast
  qed
qed

lemma isDuplicate_spec:
  fixes h :: error_handler
  assumes "eh_inv h" and key: "key = fnv1a_hash2 c msg"
  shows "if \<not> eh_dedup_enabled h then isDuplicate now c msg h = Some (False, h)
         else if \<exists>t. dedup_of h key = Some t \<and> now - t < eh_dedup_window h
         then isDuplicate now c msg h = Some (True, h)
         else if dedup_of h key \<noteq> None \<or> card (dom (dedup_of h)) < 16
         then \<exists>m. isDuplicate now c msg h = Some (False, h\<lparr>eh_dedup_map := m\<rparr>) \<and>
                  eh_inv (h\<lparr>eh_dedup_map := m\<rparr>) \<and>
                  dedup_of (h\<lparr>eh_dedup_map := m\<rparr>) = (dedup_of h)(key \<mapsto> now)
         else isDuplicate now c msg h = None"
proof -
  let ?m = "eh_dedup_map h"
  from assms obtain es where es: "shm_rep hash_u32 pod ?m es" "shm_max ?m = 16" by (auto simp: eh_inv_def)
  have dd: "dedup_of h = map_of es" using find_eq [OF es(1)] by (simp add: dedup_of_def fun_eq_iff)
  have card: "card (dom (dedup_of h)) = length es" "dedup_of h key \<noteq> None \<longleftrightarrow> key \<in> fst ` set es"
    unfolding dd by (simp_all add: card_dom_map_of [OF shm_repD(5) [OF es(1)]] map_of_eq_None_iff)
  have hit: "(case shm_find hash_u32 key ?m of None \<Rightarrow> False | Some t \<Rightarrow> now - t < eh_dedup_window h) \<longleftrightarrow>
        (\<exists>t. dedup_of h key = Some t \<and> now - t < eh_dedup_window h)"
    by (auto simp: dedup_of_def split: option.split)
  have run: "isDuplicate now c msg h =
     (if \<not> eh_dedup_enabled h then Some (False, h)
      else if \<exists>t. dedup_of h key = Some t \<and> now - t < eh_dedup_window h then Some (True, h)
      else map_option (\<lambda>(d, m'). (False, h\<lparr>eh_dedup_map := shm_store d now m'\<rparr>))
             (shm_subscript hash_u32 0 key ?m))"
    by (simp add: isDuplicate_def Let_def key [symmetric] hit)
  note sub = shm_subscript_rep [OF es(1), of key 0]
  show ?thesis
  proof (cases "key \<in> fst ` set es \<or> length es < 16")
    case True
    with sub es(2) obtain d m' es' where s: "shm_subscript hash_u32 0 key ?m = Some (d, m')"
      "shm_rep hash_u32 pod m' es'" "shm_max m' = 16" "d < length es'" "fst (es' ! d) = key"
      "es' = (if key \<in> fst ` set es then es else es @ [(key, 0)])" by auto
    from shm_store_rep [OF s(2,4,5), of now] obtain es2 where
      s2: "shm_rep hash_u32 pod (shm_store d now m') es2" "map_of es2 = (map_of es')(key \<mapsto> now)" by blast
    have "map_of es2 = (map_of es)(key \<mapsto> now)"
      using s2(2) s(6) map_of_append_fresh [of es key 0] by (auto simp: map_of_eq_None_iff split: if_splits)
    then have "dedup_of (h\<lparr>eh_dedup_map := shm_store d now m'\<rparr>) = (dedup_of h)(key \<mapsto> now)"
      using find_eq [OF s2(1)] unfolding dd by (simp add: dedup_of_def fun_eq_iff)
    moreover have "eh_inv (h\<lparr>eh_dedup_map := shm_store d now m'\<rparr>)"
      using assms(1) s(3) s2(1) unfolding eh_inv_def by auto
    moreover have "isDuplicate now c msg h = Some (False, h\<lparr>eh_dedup_map := shm_store d now m'\<rparr>)"
      if "eh_dedup_enabled h" "\<nexists>t. dedup_of h key = Some t \<and> now - t < eh_dedup_window h"
      using that s(1) by (simp add: run)
    moreover have "dedup_of h key \<noteq> None \<or> card (dom (dedup_of h)) < 16"
      using True by (simp only: card)
    ultimately show ?thesis
      by (cases "\<not> eh_dedup_enabled h"; cases "\<exists>t. dedup_of h key = Some t \<and> now - t < eh_dedup_window h")
         (simp_all only: run simp_thms if_True if_False, blast)
  next
    case False
    with sub es(2) have "shm_subscript hash_u32 0 key ?m = None" by simp
    with False run card es(2) show ?thesis by simp
  qed
qed

section \<open>History\<close>

text \<open>The ring of the history, oldest first, and its printed order.\<close>

definition history_of :: "error_handler \<Rightarrow> error_info list" where
  "history_of h =
     ring_window (eh_history h) (if eh_history_count h < HISTORY_SIZE then 0 else eh_history_index h)
       (eh_history_count h)"

lemma printed_history_eq: "eh_inv h \<Longrightarrow> printed_history h = history_of h"
  by (auto simp: printed_history_def history_of_def ring_window_def eh_inv_def Let_def
        intro!: arg_cong2 [where f = map] filter_True)

lemma history_push_keeps:
  assumes "eh_inv h"
  shows "history_of (history_push info h) =
         drop (length (history_of h) + 1 - HISTORY_SIZE) (history_of h @ [info])"
    and "eh_inv (history_push info h)"
proof -
  from assms have i: "length (eh_history h) = HISTORY_SIZE" "eh_history_index h < HISTORY_SIZE"
    "eh_history_count h \<le> HISTORY_SIZE"
    "eh_history_count h < HISTORY_SIZE \<Longrightarrow> eh_history_index h = eh_history_count h"
    by (auto simp: eh_inv_def)
  show "eh_inv (history_push info h)"
    using assms unfolding eh_inv_def by (auto simp: history_push_def mod_Suc HISTORY_SIZE_def)
  show "history_of (history_push info h) =
         drop (length (history_of h) + 1 - HISTORY_SIZE) (history_of h @ [info])"
  proof (cases "eh_history_count h < HISTORY_SIZE")
    case True
    have "ring_window ((eh_history h)[eh_history_count h := info]) 0 (Suc (eh_history_count h)) =
          ring_window (eh_history h) 0 (eh_history_count h) @ [info]"
      using ring_window_push [of "eh_history_count h" "eh_history h" 0 info] i(1) True by simp
    moreover have "(if Suc (eh_history_count h) < HISTORY_SIZE then 0
                    else Suc (eh_history_index h) mod HISTORY_SIZE) = 0"
      using True i(4) [OF True] by (auto simp: not_less le_Suc_eq)
    ultimately show ?thesis
      using True i(4) [OF True]
      by (cases "Suc (eh_history_count h) < HISTORY_SIZE")
         (simp_all add: history_of_def history_push_def Suc_le_eq)
  next
    case False
    then have c: "eh_history_count h = HISTORY_SIZE" using i(3) by simp
    have "ring_window ((eh_history h)[eh_history_index h := info]) (Suc (eh_history_index h) mod HISTORY_SIZE) HISTORY_SIZE =
          tl (ring_window (eh_history h) (eh_history_index h) HISTORY_SIZE) @ [info]"
      using ring_window_overwrite [of "eh_history h" "eh_history_index h" info] i(1,2)
      by (simp add: HISTORY_SIZE_def)
    moreover have "Suc 0 - HISTORY_SIZE = 0" by (simp add: HISTORY_SIZE_def)
    ultimately show ?thesis
      using c by (simp add: history_of_def history_push_def drop_Suc)
  qed
qed

section \<open>The context trace\<close>

lemma length_bounded_cat: "length dst < n \<Longrightarrow> bounded_cat n dst src = take (n - 1) (dst @ src)"
  by (auto simp: bounded_cat_def)

text \<open>The path printed for a non-empty stack, and what a record keeps of it.\<close>

fun stack_path :: "char list list \<Rightarrow> char list" where
  "stack_path [] = []"
| "stack_path (c # cs) = c @ concat (map (\<lambda>d. '' > '' @ d) cs)"

lemma path_loop_rep:
  assumes "ss_rep 128 r s"
  shows "ss_rep 128 (fold (\<lambda>d r. ss_append 128 (Some d) (ss_append 128 (Some '' > '') r)) ds r)
           (take 127 (s @ concat (map (\<lambda>d. '' > '' @ d) ds)))"
  using assms
proof (induction ds arbitrary: r s)
  case Nil
  then have "take 127 s = s" by (auto simp: ss_rep_def)
  with Nil show ?case by simp
next
  case (Cons d ds)
  have "ss_rep 128 (ss_append 128 (Some d) (ss_append 128 (Some '' > '') r))
          (take 127 (take 127 (s @ '' > '') @ d))"
    using ss_append_rep [OF ss_append_rep [OF Cons.prems, of "'' > ''"], of d] by simp
  from Cons.IH [OF this] show ?case
    by (simp only: fold_Cons comp_apply take_append_take list.map concat.simps append_assoc)
qed

lemma getContextStack_rep:
  assumes "arr_rep pod (eh_context_stack h) cs" "length junk = 128"
  shows "ss_rep 128 (getContextStack junk h) (take 127 (stack_path cs))"
proof (cases cs)
  case Nil
  with assms have "sa_empty (eh_context_stack h)" by (simp add: sa_empty_def arr_rep_size)
  with ss_of_rep [of 128 junk "Some []"] assms(2) Nil show ?thesis by (simp add: getContextStack_def)
next
  case (Cons c ds)
  let ?st = "eh_context_stack h"
  let ?f = "\<lambda>d r. ss_append 128 (Some d) (ss_append 128 (Some '' > '') r)"
  let ?r0 = "StaticString_of 128 junk (sa_index ?st 0)"
  have size: "arr_size ?st = Suc (length ds)" using arr_rep_size [OF assms(1)] Cons by simp
  have at: "sa_index ?st i = Some (cs ! i)" if "i < Suc (length ds)" for i
    using sa_index_rep [OF assms(1)] that Cons by simp
  have init: "ss_rep 128 (StaticString_of 128 junk (sa_index ?st 0)) (take 127 c)"
    using ss_of_rep [of 128 junk "sa_index ?st 0"] assms(2) at [of 0] Cons by simp
  have "fold (\<lambda>i r. ss_append 128 (sa_index ?st i) (ss_append 128 (Some '' > '') r)) [1..<Suc (length ds)] ?r0 =
        fold ?f (map (\<lambda>i. cs ! i) [1..<Suc (length ds)]) ?r0"
    unfolding fold_map by (rule fold_cong) (auto simp: at)
  also have "map (\<lambda>i. cs ! i) [1..<Suc (length ds)] = ds"
  proof -
    have "[1..<Suc (length ds)] = map Suc [0..<length ds]" by (simp add: map_Suc_upt del: upt_Suc)
    then have "map (\<lambda>i. cs ! i) [1..<Suc (length ds)] = map (\<lambda>i. ds ! i) [0..<length ds]"
      using Cons by (simp add: comp_def del: upt_Suc)
    then show ?thesis by (simp only: map_nth)
  qed
  finally have "getContextStack junk h = fold ?f ds ?r0"
    using size by (simp add: getContextStack_def sa_empty_def sa_size_def Let_def)
  with path_loop_rep [OF init, of ds] Cons show ?thesis
    by (simp only: take_append_take stack_path.simps)
qed

lemma bounded_96: "length d < 96 \<Longrightarrow> bounded_cat 96 d s = take 95 (d @ s)" "bounded_copy 96 s = take 95 s"
  using length_bounded_cat [of d 96 s] by (simp_all add: bounded_copy_def)

lemma context_trace_rep:
  assumes "arr_rep pod (eh_context_stack h) cs" "length junk = 128" "\<forall>c\<in>set cs. c_string c"
  shows "context_trace c (getContextStack junk h) =
         (if stack_path cs = [] then take 95 c else take 95 (stack_path cs @ '' > '' @ c))"
proof -
  note rep = getContextStack_rep [OF assms(1,2)]
  have "c_string (stack_path cs)" using assms(3) by (cases cs) (auto simp: c_string_def NUL_def)
  then have str: "c_str_of (ss_buffer (getContextStack junk h)) = take 127 (stack_path cs)"
    using rep by (auto simp: ss_rep_def c_str_of_terminated)
  have emp: "ss_empty (getContextStack junk h) \<longleftrightarrow> stack_path cs = []"
    using rep by (auto simp: ss_rep_def ss_empty_def)
  have t127: "take 95 (take 127 x) = take 95 x" for x :: "char list" by simp
  have t95: "length (take 95 x) < 96" for x :: "char list" by simp
  have "bounded_cat 96 (bounded_cat 96 (bounded_copy 96 (take 127 (stack_path cs))) '' > '') c =
        take 95 (take 95 (take 95 (take 127 (stack_path cs)) @ '' > '') @ c)"
    by (simp only: bounded_96(2) bounded_96(1) [OF t95])
  also have "\<dots> = take 95 (stack_path cs @ '' > '' @ c)"
    by (simp only: take_append_take append_assoc t127)
  finally show ?thesis
    using str emp bounded_96(1) [of "[]" c] by (simp add: context_trace_def Let_def)
qed

section \<open>Policies\<close>

text \<open>Driving a policy object through a sequence of errors.\<close>

fun policy_run :: "error_info list \<Rightarrow> policy \<Rightarrow> (bool \<times> policy_call list) list \<times> policy" where
  "policy_run [] p = ([], p)"
| "policy_run (i # is) p =
     (let (b, p1, c) = policy_handle i p; (rs, p2) = policy_run is p1 in ((b, c) # rs, p2))"

definition action_count :: "(bool \<times> policy_call list) list \<Rightarrow> nat" where
  "action_count rs = length (filter (\<lambda>(b, c). ThresholdAction \<in> set c) rs)"

lemma threshold_run:
  assumes "0 < unat t" "unat n < unat t"
  shows "action_count (fst (policy_run is (ThresholdPolicy t n True))) = (unat n + length is) div unat t \<and>
         snd (policy_run is (ThresholdPolicy t n True)) =
           ThresholdPolicy t (of_nat ((unat n + length is) mod unat t)) True"
  using assms(2)
proof (induction "is" arbitrary: n)
  case Nil
  then show ?case by (simp add: action_count_def)
next
  case (Cons i "is")
  have suc: "unat (n + 1) = Suc (unat n)" by (rule unat_inc [OF Cons.prems])
  show ?case
  proof (cases "t \<le> n + 1")
    case True
    then have eq: "Suc (unat n) = unat t" using suc Cons.prems by (simp add: word_le_nat_alt)
    have z: "unat (0 :: u32) < unat t" using assms(1) by simp
    have "unat t \<noteq> 0" using assms(1) by linarith
    from div_add_self1 [OF this, of "length is"]
    have "(unat t + length is) div unat t = Suc (length is div unat t)" by simp
    with Cons.IH [OF z] True eq show ?thesis
      by (auto simp: threshold_handle_def action_count_def split_beta Let_def
            simp flip: add_Suc)
  next
    case False
    then have "unat (n + 1) < unat t" by (simp add: word_le_nat_alt not_le)
    from Cons.IH [OF this] False suc show ?thesis
      by (auto simp: threshold_handle_def action_count_def split_beta Let_def)
  qed
qed

text \<open>\<open>RetryPolicy\<close> gives up (returns true) at every \<open>max_retries\<close>-th error, and only then.\<close>

lemma retry_run:
  assumes "0 < unat m" "unat r < unat m"
  shows "map fst (fst (policy_run is (RetryPolicy m r))) =
           map (\<lambda>k. (unat r + k + 1) mod unat m = 0) [0..<length is] \<and>
         snd (policy_run is (RetryPolicy m r)) = RetryPolicy m (of_nat ((unat r + length is) mod unat m))"
  using assms(2)
proof (induction "is" arbitrary: r)
  case Nil
  then show ?case by simp
next
  case (Cons i "is")
  have suc: "unat (r + 1) = Suc (unat r)" by (rule unat_inc [OF Cons.prems])
  have upt: "map f [0..<Suc n] = f 0 # map (\<lambda>k. f (Suc k)) [0..<n]" for f :: "nat \<Rightarrow> bool" and n
    by (simp add: upt_rec [of 0 "Suc n"] map_Suc_upt [symmetric] del: upt_Suc)
  show ?case
  proof (cases "r + 1 < m")
    case True
    then have "unat (r + 1) < unat m" by (simp add: word_less_nat_alt)
    from Cons.IH [OF this] True suc \<open>unat (r + 1) < unat m\<close> show ?thesis
      by (simp add: retry_handle_def split_beta Let_def upt del: upt_Suc)
  next
    case False
    then have eq: "Suc (unat r) = unat m" using suc Cons.prems by (simp add: word_less_nat_alt)
    have "unat (0 :: u8) < unat m" using assms(1) by simp
    moreover have "(Suc (unat m) + x) mod unat m = Suc x mod unat m" for x
      using mod_add_self2 [of "Suc x" "unat m"] by (simp add: add.commute)
    ultimately show ?thesis using Cons.IH [of 0] False eq
      by (simp add: retry_handle_def split_beta Let_def upt del: upt_Suc) (simp flip: add_Suc)
  qed
qed

section \<open>The gates of \<open>reportError\<close>\<close>

definition filtered :: "ErrorSeverity \<Rightarrow> error_handler \<Rightarrow> bool" where
  "filtered sev h \<longleftrightarrow> eh_filter_enabled h \<and> sev < eh_min_severity h"

definition throttled :: "u32 \<Rightarrow> char list \<Rightarrow> error_handler \<Rightarrow> bool" where
  "throttled now c h \<longleftrightarrow>
     (case throttle_of h (fnv1a_hash c) of
        None \<Rightarrow> False | Some ti \<Rightarrow> now - ti_last_time ti < ti_interval ti)"

definition duplicated :: "u32 \<Rightarrow> char list \<Rightarrow> char list option \<Rightarrow> error_handler \<Rightarrow> bool" where
  "duplicated now c msg h \<longleftrightarrow>
     eh_dedup_enabled h \<and>
     (case dedup_of h (fnv1a_hash2 (Some c) msg) of
        None \<Rightarrow> False | Some t \<Rightarrow> now - t < eh_dedup_window h)"

definition dedup_overflow :: "char list \<Rightarrow> char list option \<Rightarrow> error_handler \<Rightarrow> bool" where
  "dedup_overflow c msg h \<longleftrightarrow>
     eh_dedup_enabled h \<and> dedup_of h (fnv1a_hash2 (Some c) msg) = None \<and> 16 \<le> card (dom (dedup_of h))"

text \<open>The state behind the gates: the two time stamps are set, nothing else has changed.\<close>

lemma isThrottled_cases:
  assumes "eh_inv h"
  obtains "throttled now c h" "isThrottled now c h = (True, h)"
  | m where "\<not> throttled now c h" "isThrottled now c h = (False, h\<lparr>eh_throttle_map := m\<rparr>)"
      "eh_inv (h\<lparr>eh_throttle_map := m\<rparr>)"
      "throttle_of (h\<lparr>eh_throttle_map := m\<rparr>) =
         (case throttle_of h (fnv1a_hash c) of None \<Rightarrow> throttle_of h
          | Some ti \<Rightarrow> (throttle_of h)(fnv1a_hash c \<mapsto> ti\<lparr>ti_last_time := now\<rparr>))"
proof (cases "throttle_of h (fnv1a_hash c)")
  case None
  have "h\<lparr>eh_throttle_map := eh_throttle_map h\<rparr> = h" by simp
  with isThrottled_spec [OF assms, where c = c and now = now] None assms that(2) [of "eh_throttle_map h"] show thesis
    by (simp add: throttled_def)
next
  case (Some ti)
  show thesis
  proof (cases "now - ti_last_time ti < ti_interval ti")
    case True
    with isThrottled_spec [OF assms, where c = c and now = now] Some that(1) show thesis by (simp add: throttled_def)
  next
    case False
    with isThrottled_spec [OF assms, where c = c and now = now] Some obtain m where
      "isThrottled now c h = (False, h\<lparr>eh_throttle_map := m\<rparr>)" "eh_inv (h\<lparr>eh_throttle_map := m\<rparr>)"
      "throttle_of (h\<lparr>eh_throttle_map := m\<rparr>) = (throttle_of h)(fnv1a_hash c \<mapsto> ti\<lparr>ti_last_time := now\<rparr>)"
      by auto
    with False Some that(2) [of m] show thesis by (simp add: throttled_def)
  qed
qed

lemma isDuplicate_cases:
  assumes "eh_inv h"
  obtains "duplicated now c msg h" "isDuplicate now (Some c) msg h = Some (True, h)"
  | "\<not> duplicated now c msg h" "dedup_overflow c msg h" "isDuplicate now (Some c) msg h = None"
  | m where "\<not> duplicated now c msg h" "\<not> dedup_overflow c msg h"
      "isDuplicate now (Some c) msg h = Some (False, h\<lparr>eh_dedup_map := m\<rparr>)"
      "eh_inv (h\<lparr>eh_dedup_map := m\<rparr>)"
      "dedup_of (h\<lparr>eh_dedup_map := m\<rparr>) =
         (if eh_dedup_enabled h then (dedup_of h)(fnv1a_hash2 (Some c) msg \<mapsto> now) else dedup_of h)"
proof -
  let ?key = "fnv1a_hash2 (Some c) msg"
  have same: "h\<lparr>eh_dedup_map := eh_dedup_map h\<rparr> = h" by simp
  have dup: "duplicated now c msg h \<longleftrightarrow>
      eh_dedup_enabled h \<and> (\<exists>t. dedup_of h ?key = Some t \<and> now - t < eh_dedup_window h)"
    by (auto simp: duplicated_def split: option.split)
  note spec = isDuplicate_spec [OF assms refl, where c = "Some c" and msg = msg and now = now]
  consider "\<not> eh_dedup_enabled h" | "duplicated now c msg h"
    | "eh_dedup_enabled h" "\<not> duplicated now c msg h" "dedup_overflow c msg h"
    | "eh_dedup_enabled h" "\<not> duplicated now c msg h" "\<not> dedup_overflow c msg h" by blast
  then show thesis
  proof cases
    case 1
    with spec same assms that(3) [of "eh_dedup_map h"] dup show thesis by (simp add: dedup_overflow_def)
  next
    case 2
    with spec dup that(1) show thesis by simp
  next
    case 3
    with spec dup that(2) show thesis by (auto simp: dedup_overflow_def)
  next
    case 4
    then have n1: "\<not> (\<exists>t. dedup_of h ?key = Some t \<and> now - t < eh_dedup_window h)"
      and n2: "dedup_of h ?key \<noteq> None \<or> card (dom (dedup_of h)) < 16"
      using dup by (blast, simp only: dedup_overflow_def not_le simp_thms, linarith)
    have "\<exists>m. isDuplicate now (Some c) msg h = Some (False, h\<lparr>eh_dedup_map := m\<rparr>) \<and>
               eh_inv (h\<lparr>eh_dedup_map := m\<rparr>) \<and>
               dedup_of (h\<lparr>eh_dedup_map := m\<rparr>) = (dedup_of h)(?key \<mapsto> now)"
      using spec n1 n2 4(1) by (simp only: not_True_eq_False if_False if_True)
    then obtain m where
      "isDuplicate now (Some c) msg h = Some (False, h\<lparr>eh_dedup_map := m\<rparr>)"
      "eh_inv (h\<lparr>eh_dedup_map := m\<rparr>)"
      "dedup_of (h\<lparr>eh_dedup_map := m\<rparr>) = (dedup_of h)(?key \<mapsto> now)" by blast
    with 4 that(3) [of m] show thesis by simp
  qed
qed

section \<open>Recording\<close>

definition error_record ::
  "u32 \<Rightarrow> char list \<Rightarrow> char list \<Rightarrow> char list option \<Rightarrow> ErrorSeverity \<Rightarrow> error_handler \<Rightarrow> error_info" where
  "error_record now junk context message severity h =
     (ErrorInfo (Some context) message severity)
       \<lparr>ei_timestamp := now, ei_error_code := eh_total_errors h + 1,
        ei_context_stack := context_trace context (getContextStack junk h)\<rparr>"

lemma count_severity_frame [simp]:
  "eh_last_error_time (count_severity s h) = eh_last_error_time h"
  "eh_total_errors (count_severity s h) = eh_total_errors h"
  "eh_context_stack (count_severity s h) = eh_context_stack h"
  "eh_callback (count_severity s h) = eh_callback h"
  "eh_policies (count_severity s h) = eh_policies h"
  "eh_policy_objects (count_severity s h) = eh_policy_objects h"
  "eh_throttle_map (count_severity s h) = eh_throttle_map h"
  "eh_dedup_map (count_severity s h) = eh_dedup_map h"
  "eh_history (count_severity s h) = eh_history h"
  "eh_history_index (count_severity s h) = eh_history_index h"
  "eh_history_count (count_severity s h) = eh_history_count h"
  by (cases s; simp add: count_severity_def)+

lemma count_severity_frame2 [simp]:
  "eh_filter_enabled (count_severity s h) = eh_filter_enabled h"
  "eh_min_severity (count_severity s h) = eh_min_severity h"
  "eh_filtered_count (count_severity s h) = eh_filtered_count h"
  "eh_throttled_count (count_severity s h) = eh_throttled_count h"
  "eh_duplicate_count (count_severity s h) = eh_duplicate_count h"
  "eh_dedup_enabled (count_severity s h) = eh_dedup_enabled h"
  by (cases s; simp add: count_severity_def)+

lemma history_of_cong:
  "eh_history h = eh_history g \<Longrightarrow> eh_history_index h = eh_history_index g \<Longrightarrow>
   eh_history_count h = eh_history_count g \<Longrightarrow> history_of h = history_of g"
  by (simp add: history_of_def)

lemma getContextStack_cong: "eh_context_stack h = eh_context_stack g \<Longrightarrow> getContextStack j h = getContextStack j g"
  by (simp add: getContextStack_def)

lemma count_severity_inv:
  assumes "eh_inv h"
  shows "eh_inv (count_severity s (h\<lparr>eh_total_errors := eh_total_errors h + 1, eh_last_error_time := t\<rparr>))"
  using assms unfolding eh_inv_def
  by (cases s) (simp_all add: count_severity_def add_ac)

definition counted :: "u32 \<Rightarrow> ErrorSeverity \<Rightarrow> error_handler \<Rightarrow> error_handler" where
  "counted now sev h =
     count_severity sev (h\<lparr>eh_total_errors := eh_total_errors h + 1, eh_last_error_time := now\<rparr>)"

lemma record_error_eq:
  "record_error now junk c msg sev h =
   (let info = error_record now junk c msg sev h;
        (calls, objs) = dispatch_loop info (contents (eh_policies h)) (eh_policy_objects h)
    in ((if eh_callback h then [UserCallback info] else []) @ calls,
        (history_push info (counted now sev h))\<lparr>eh_policy_objects := objs\<rparr>))"
proof -
  have "getContextStack junk (counted now sev h) = getContextStack junk h"
    by (rule getContextStack_cong) (simp add: counted_def)
  then show ?thesis
    by (simp add: record_error_def Let_def counted_def [symmetric] error_record_def dispatchToPolicies_def
          split_beta history_push_def) (simp add: counted_def)
qed

lemma record_error_state:
  fixes now :: u32 and junk c :: "char list" and msg :: "char list option" and sev :: ErrorSeverity
  assumes "eh_inv h"
  defines "h' \<equiv> snd (record_error now junk c msg sev h)"
  shows "eh_inv h'" "eh_total_errors h' = eh_total_errors h + 1"
    "history_of h' = drop (length (history_of h) + 1 - HISTORY_SIZE)
                       (history_of h @ [error_record now junk c msg sev h])"
    "throttle_of h' = throttle_of h" "dedup_of h' = dedup_of h"
    "eh_filtered_count h' = eh_filtered_count h" "eh_throttled_count h' = eh_throttled_count h"
    "eh_duplicate_count h' = eh_duplicate_count h" "eh_filter_enabled h' = eh_filter_enabled h"
    "eh_min_severity h' = eh_min_severity h"
proof -
  let ?info = "error_record now junk c msg sev h" and ?c = "counted now sev h"
  obtain objs where h': "h' = (history_push ?info ?c)\<lparr>eh_policy_objects := objs\<rparr>"
    unfolding h'_def record_error_eq by (simp add: split_beta Let_def)
  have inv: "eh_inv ?c" unfolding counted_def by (rule count_severity_inv [OF assms(1)])
  show "eh_inv h'" using history_push_keeps(2) [OF inv] unfolding h' eh_inv_def by simp
  have "history_of h' = history_of (history_push ?info ?c)" unfolding h' by (rule history_of_cong) simp_all
  moreover have "history_of ?c = history_of h" by (rule history_of_cong) (simp_all add: counted_def)
  ultimately show "history_of h' = drop (length (history_of h) + 1 - HISTORY_SIZE) (history_of h @ [?info])"
    using history_push_keeps(1) [OF inv] by simp
qed (simp_all add: h'_def record_error_eq split_beta Let_def history_push_def counted_def
       throttle_of_def dedup_of_def fun_eq_iff)

section \<open>What \<open>reportError\<close> does\<close>

text \<open>Time stamps written by the two gates that let an error pass.\<close>

definition throttle_stamp :: "u32 \<Rightarrow> char list \<Rightarrow> error_handler \<Rightarrow> (u32 \<Rightarrow> throttle_info option)" where
  "throttle_stamp now c h =
     (case throttle_of h (fnv1a_hash c) of None \<Rightarrow> throttle_of h
      | Some ti \<Rightarrow> (throttle_of h)(fnv1a_hash c \<mapsto> ti\<lparr>ti_last_time := now\<rparr>))"

definition dedup_stamp :: "u32 \<Rightarrow> char list \<Rightarrow> char list option \<Rightarrow> error_handler \<Rightarrow> (u32 \<Rightarrow> u32 option)" where
  "dedup_stamp now c msg h =
     (if eh_dedup_enabled h then (dedup_of h)(fnv1a_hash2 (Some c) msg \<mapsto> now) else dedup_of h)"

lemma reportError_gate:
  "reportError ck junk context message severity h =
     (if filtered severity h
      then Some ([], h\<lparr>eh_filtered_count := eh_filtered_count h + 1\<rparr>)
      else let (throttled, h) = isThrottled (ck_throttle ck) context h in
        if throttled then Some ([], h\<lparr>eh_throttled_count := eh_throttled_count h + 1\<rparr>)
        else case isDuplicate (ck_dedup ck) (Some context) message h of
          None \<Rightarrow> None
        | Some (dup, h) \<Rightarrow>
            if dup then Some ([], h\<lparr>eh_duplicate_count := eh_duplicate_count h + 1\<rparr>)
            else Some (record_error (ck_stamp ck) junk context message severity h))"
  by (simp only: reportError_def filtered_def)

lemma reportError_filtered:
  "filtered sev h \<Longrightarrow>
   reportError ck junk c msg sev h = Some ([], h\<lparr>eh_filtered_count := eh_filtered_count h + 1\<rparr>)"
  by (simp add: reportError_gate)

lemma reportError_throttled:
  assumes "eh_inv h" "\<not> filtered sev h" "throttled (ck_throttle ck) c h"
  shows "reportError ck junk c msg sev h = Some ([], h\<lparr>eh_throttled_count := eh_throttled_count h + 1\<rparr>)"
  using assms(1)
proof (cases rule: isThrottled_cases [where now = "ck_throttle ck" and c = c])
  case 1
  with assms(2) show ?thesis by (simp add: reportError_gate)
qed (use assms(3) in blast)

text \<open>Behind the throttle gate.\<close>

lemma reportError_passed:
  assumes "eh_inv h" "\<not> filtered sev h" "\<not> throttled (ck_throttle ck) c h"
  obtains h1 where "eh_inv h1" "throttle_of h1 = throttle_stamp (ck_throttle ck) c h"
    "\<exists>m. h1 = h\<lparr>eh_throttle_map := m\<rparr>"
    "reportError ck junk c msg sev h =
       (case isDuplicate (ck_dedup ck) (Some c) msg h1 of
          None \<Rightarrow> None
        | Some (dup, h) \<Rightarrow>
            if dup then Some ([], h\<lparr>eh_duplicate_count := eh_duplicate_count h + 1\<rparr>)
            else Some (record_error (ck_stamp ck) junk c msg sev h))"
  using assms(1)
proof (cases rule: isThrottled_cases [where now = "ck_throttle ck" and c = c])
  case 1
  with assms(3) show thesis by blast
next
  case (2 m)
  have "reportError ck junk c msg sev h =
       (case isDuplicate (ck_dedup ck) (Some c) msg (h\<lparr>eh_throttle_map := m\<rparr>) of
          None \<Rightarrow> None
        | Some (dup, h) \<Rightarrow>
            if dup then Some ([], h\<lparr>eh_duplicate_count := eh_duplicate_count h + 1\<rparr>)
            else Some (record_error (ck_stamp ck) junk c msg sev h))"
    using assms(2) 2(2) by (simp add: reportError_gate)
  with 2(3,4) that [of "h\<lparr>eh_throttle_map := m\<rparr>"] show thesis unfolding throttle_stamp_def by blast
qed

lemma gate_frame:
  "dedup_of (h\<lparr>eh_throttle_map := m\<rparr>) = dedup_of h"
  "throttle_of (h\<lparr>eh_dedup_map := d\<rparr>) = throttle_of h"
  by (simp_all add: dedup_of_def throttle_of_def fun_eq_iff)

lemma dup_frame:
  "duplicated now c msg (h\<lparr>eh_throttle_map := m\<rparr>) = duplicated now c msg h"
  "dedup_overflow c msg (h\<lparr>eh_throttle_map := m\<rparr>) = dedup_overflow c msg h"
  "dedup_stamp now c msg (h\<lparr>eh_throttle_map := m\<rparr>) = dedup_stamp now c msg h"
  by (simp_all add: duplicated_def dedup_overflow_def dedup_stamp_def gate_frame split: option.split)

lemma isDuplicate_dup:
  assumes "eh_inv h" "duplicated now c msg h"
  shows "isDuplicate now (Some c) msg h = Some (True, h)"
  using assms(1) by (cases rule: isDuplicate_cases [where c = c and now = now and msg = msg]) (use assms(2) in blast)+

lemma isDuplicate_overflow:
  assumes "eh_inv h" "\<not> duplicated now c msg h" "dedup_overflow c msg h"
  shows "isDuplicate now (Some c) msg h = None"
  using assms(1) by (cases rule: isDuplicate_cases [where c = c and now = now and msg = msg]) (use assms(2,3) in blast)+

lemma isDuplicate_fresh:
  assumes "eh_inv h" "\<not> duplicated now c msg h" "\<not> dedup_overflow c msg h"
  shows "\<exists>d. isDuplicate now (Some c) msg h = Some (False, h\<lparr>eh_dedup_map := d\<rparr>) \<and>
             eh_inv (h\<lparr>eh_dedup_map := d\<rparr>) \<and>
             dedup_of (h\<lparr>eh_dedup_map := d\<rparr>) = dedup_stamp now c msg h"
  using assms(1)
  by (cases rule: isDuplicate_cases [where c = c and now = now and msg = msg])
     (use assms(2,3) in blast, use assms(2,3) in blast, unfold dedup_stamp_def, blast)

lemma record_frame:
  "error_record now junk c msg sev (h\<lparr>eh_throttle_map := m, eh_dedup_map := d\<rparr>) = error_record now junk c msg sev h"
  "history_of (h\<lparr>eh_throttle_map := m, eh_dedup_map := d\<rparr>) = history_of h"
  by (simp_all add: error_record_def history_of_def getContextStack_def)

text \<open>A duplicate, a full duplicate table, and the accepted error.\<close>

lemma reportError_duplicate:
  assumes "eh_inv h" "\<not> filtered sev h" "\<not> throttled (ck_throttle ck) c h" "duplicated (ck_dedup ck) c msg h"
  shows "\<exists>m. reportError ck junk c msg sev h =
               Some ([], h\<lparr>eh_throttle_map := m, eh_duplicate_count := eh_duplicate_count h + 1\<rparr>) \<and>
             eh_inv (h\<lparr>eh_throttle_map := m\<rparr>) \<and>
             throttle_of (h\<lparr>eh_throttle_map := m\<rparr>) = throttle_stamp (ck_throttle ck) c h"
proof -
  obtain h1 m where p: "eh_inv h1" "throttle_of h1 = throttle_stamp (ck_throttle ck) c h"
    "h1 = h\<lparr>eh_throttle_map := m\<rparr>"
    "reportError ck junk c msg sev h =
       (case isDuplicate (ck_dedup ck) (Some c) msg h1 of
          None \<Rightarrow> None
        | Some (dup, h) \<Rightarrow>
            if dup then Some ([], h\<lparr>eh_duplicate_count := eh_duplicate_count h + 1\<rparr>)
            else Some (record_error (ck_stamp ck) junk c msg sev h))"
    by (rule reportError_passed [OF assms(1-3), where junk = junk and msg = msg]) blast
  have "duplicated (ck_dedup ck) c msg h1" using assms(4) by (simp add: p(3) dup_frame)
  note isDuplicate_dup [OF p(1) this]
  with p show ?thesis by (intro exI [of _ m]) simp
qed

lemma reportError_overflow:
  assumes "eh_inv h" "\<not> filtered sev h" "\<not> throttled (ck_throttle ck) c h"
    "\<not> duplicated (ck_dedup ck) c msg h" "dedup_overflow c msg h"
  shows "reportError ck junk c msg sev h = None"
proof -
  obtain h1 m where p: "eh_inv h1" "h1 = h\<lparr>eh_throttle_map := m\<rparr>"
    "reportError ck junk c msg sev h =
       (case isDuplicate (ck_dedup ck) (Some c) msg h1 of
          None \<Rightarrow> None
        | Some (dup, h) \<Rightarrow>
            if dup then Some ([], h\<lparr>eh_duplicate_count := eh_duplicate_count h + 1\<rparr>)
            else Some (record_error (ck_stamp ck) junk c msg sev h))"
    by (rule reportError_passed [OF assms(1-3), where junk = junk and msg = msg]) blast
  have "\<not> duplicated (ck_dedup ck) c msg h1" "dedup_overflow c msg h1"
    using assms(4,5) by (simp_all add: p(2) dup_frame)
  note isDuplicate_overflow [OF p(1) this]
  with p(3) show ?thesis by simp
qed

lemma reportError_accepted:
  assumes "eh_inv h" "\<not> filtered sev h" "\<not> throttled (ck_throttle ck) c h"
    "\<not> duplicated (ck_dedup ck) c msg h" "\<not> dedup_overflow c msg h"
  shows "\<exists>calls h' h2. reportError ck junk c msg sev h = Some (calls, h') \<and> eh_inv h' \<and>
           (calls, h') = record_error (ck_stamp ck) junk c msg sev h2 \<and>
           (\<exists>m d. h2 = h\<lparr>eh_throttle_map := m, eh_dedup_map := d\<rparr>) \<and>
           history_of h' = drop (length (history_of h) + 1 - HISTORY_SIZE)
             (history_of h @ [error_record (ck_stamp ck) junk c msg sev h]) \<and>
           throttle_of h' = throttle_stamp (ck_throttle ck) c h \<and>
           dedup_of h' = dedup_stamp (ck_dedup ck) c msg h \<and>
           eh_total_errors h' = eh_total_errors h + 1 \<and>
           eh_filtered_count h' = eh_filtered_count h \<and> eh_throttled_count h' = eh_throttled_count h \<and>
           eh_duplicate_count h' = eh_duplicate_count h \<and>
           eh_filter_enabled h' = eh_filter_enabled h \<and> eh_min_severity h' = eh_min_severity h"
proof -
  obtain h1 m where p: "eh_inv h1" "throttle_of h1 = throttle_stamp (ck_throttle ck) c h"
    "h1 = h\<lparr>eh_throttle_map := m\<rparr>"
    "reportError ck junk c msg sev h =
       (case isDuplicate (ck_dedup ck) (Some c) msg h1 of
          None \<Rightarrow> None
        | Some (dup, h) \<Rightarrow>
            if dup then Some ([], h\<lparr>eh_duplicate_count := eh_duplicate_count h + 1\<rparr>)
            else Some (record_error (ck_stamp ck) junk c msg sev h))"
    by (rule reportError_passed [OF assms(1-3), where junk = junk and msg = msg]) blast
  have nd: "\<not> duplicated (ck_dedup ck) c msg h1" "\<not> dedup_overflow c msg h1"
    using assms(4,5) by (simp_all add: p(3) dup_frame)
  from isDuplicate_fresh [OF p(1) nd] obtain d where d: "isDuplicate (ck_dedup ck) (Some c) msg h1 = Some (False, h1\<lparr>eh_dedup_map := d\<rparr>)"
    "eh_inv (h1\<lparr>eh_dedup_map := d\<rparr>)"
    "dedup_of (h1\<lparr>eh_dedup_map := d\<rparr>) = dedup_stamp (ck_dedup ck) c msg h1"
    by blast
  let ?h2 = "h1\<lparr>eh_dedup_map := d\<rparr>"
  let ?r = "record_error (ck_stamp ck) junk c msg sev ?h2"
  note st = record_error_state [OF d(2), of "ck_stamp ck" junk c msg sev]
  have "reportError ck junk c msg sev h = Some (fst ?r, snd ?r)" using p(4) d(1) by simp
  moreover have "?h2 = h\<lparr>eh_throttle_map := m, eh_dedup_map := d\<rparr>" by (simp add: p(3))
  moreover have "history_of (snd ?r) = drop (length (history_of h) + 1 - HISTORY_SIZE)
             (history_of h @ [error_record (ck_stamp ck) junk c msg sev h])"
    using st(3) unfolding p(3) record_frame .
  moreover have "throttle_of ?h2 = throttle_stamp (ck_throttle ck) c h" by (simp only: gate_frame p(2))
  moreover have "dedup_of ?h2 = dedup_stamp (ck_dedup ck) c msg h" using d(3) by (simp only: p(3) dup_frame)
  ultimately show ?thesis
    using st p(3) by (intro exI [of _ "fst ?r"] exI [of _ "snd ?r"] exI [of _ ?h2] conjI) (simp_all, blast)
qed

section \<open>Configuration and the context guard\<close>

lemma eh_inv_counts [simp]:
  "eh_inv (h\<lparr>eh_filtered_count := a\<rparr>) = eh_inv h" "eh_inv (h\<lparr>eh_throttled_count := b\<rparr>) = eh_inv h"
  "eh_inv (h\<lparr>eh_duplicate_count := c\<rparr>) = eh_inv h"
  by (simp_all add: eh_inv_def)

lemma eh_views_counts [simp]:
  "throttle_of (h\<lparr>eh_duplicate_count := c\<rparr>) = throttle_of h"
  "throttle_of (h\<lparr>eh_throttled_count := c\<rparr>) = throttle_of h"
  by (simp_all add: throttle_of_def fun_eq_iff)

lemma setThrottle_spec:
  assumes "eh_inv h" "throttle_of h (fnv1a_hash c) \<noteq> None \<or> card (dom (throttle_of h)) < 16"
  shows "\<exists>m. setThrottle c t h = Some (h\<lparr>eh_throttle_map := m\<rparr>) \<and> eh_inv (h\<lparr>eh_throttle_map := m\<rparr>) \<and>
           throttle_of (h\<lparr>eh_throttle_map := m\<rparr>) =
             (throttle_of h)(fnv1a_hash c \<mapsto> \<lparr>ti_last_time = 0, ti_interval = t\<rparr>)"
proof -
  let ?m = "eh_throttle_map h" and ?k = "fnv1a_hash c"
  let ?d = "\<lparr>ti_last_time = 0, ti_interval = 0\<rparr>" and ?v = "\<lparr>ti_last_time = 0, ti_interval = t\<rparr>"
  from assms obtain es where es: "shm_rep hash_u32 pod ?m es" "shm_max ?m = 16" by (auto simp: eh_inv_def)
  have th: "throttle_of h = map_of es" using find_eq [OF es(1)] by (simp add: throttle_of_def fun_eq_iff)
  have "?k \<in> fst ` set es \<or> length es < 16"
    using assms(2) unfolding th by (simp add: card_dom_map_of [OF shm_repD(5) [OF es(1)]] map_of_eq_None_iff)
  with shm_subscript_rep [OF es(1), of ?k ?d] es(2) obtain d m' es' where s:
    "shm_subscript hash_u32 ?d ?k ?m = Some (d, m')" "shm_rep hash_u32 pod m' es'" "shm_max m' = 16"
    "d < length es'" "fst (es' ! d) = ?k" "es' = (if ?k \<in> fst ` set es then es else es @ [(?k, ?d)])" by auto
  from shm_store_rep [OF s(2,4,5), of ?v] obtain es2 where
    s2: "shm_rep hash_u32 pod (shm_store d ?v m') es2" "map_of es2 = (map_of es')(?k \<mapsto> ?v)" by blast
  have "map_of es2 = (map_of es)(?k \<mapsto> ?v)"
    using s2(2) s(6) map_of_append_fresh [of es ?k ?d] by (auto simp: map_of_eq_None_iff split: if_splits)
  then have "throttle_of (h\<lparr>eh_throttle_map := shm_store d ?v m'\<rparr>) = (throttle_of h)(?k \<mapsto> ?v)"
    using find_eq [OF s2(1)] unfolding th by (simp add: throttle_of_def fun_eq_iff)
  moreover have "eh_inv (h\<lparr>eh_throttle_map := shm_store d ?v m'\<rparr>)"
    using assms(1) s(3) s2(1) unfolding eh_inv_def by auto
  ultimately show ?thesis
    using s(1) by (intro exI [of _ "shm_store d ?v m'"]) (simp add: setThrottle_def)
qed

lemma init_views [simp]:
  "throttle_of (ErrorHandler_init objs) = Map.empty" "dedup_of (ErrorHandler_init objs) = Map.empty"
  "eh_filter_enabled (ErrorHandler_init objs) = False" "eh_dedup_enabled (ErrorHandler_init objs) = False"
  "eh_context_stack (ErrorHandler_init objs) = StaticArray 10"
  using find_eq [OF shm16_rep]
  by (simp_all add: throttle_of_def dedup_of_def ErrorHandler_init_def fun_eq_iff)

section \<open>Properties\<close>

text \<open>C3: Every call of \<open>reportError\<close> is accounted for exactly once: it increments one of the four
  counters, the one of the first gate that stops it (severity filter, rate limit, duplicate window)
  or the total; a stopped error calls nobody; and the handler's invariant is kept. Without a free
  entry in the duplicate table the call is undefined, hence the last hypothesis.\<close>

theorem reportError_accounting:
  assumes "eh_inv h" "\<not> dedup_overflow c msg h"
  shows "\<exists>calls h'. reportError ck junk c msg sev h = Some (calls, h') \<and> eh_inv h' \<and>
    (eh_filtered_count h', eh_throttled_count h', eh_duplicate_count h', eh_total_errors h') =
      (let F = eh_filtered_count h; T = eh_throttled_count h; D = eh_duplicate_count h; N = eh_total_errors h in
       if filtered sev h then (F + 1, T, D, N)
       else if throttled (ck_throttle ck) c h then (F, T + 1, D, N)
       else if duplicated (ck_dedup ck) c msg h then (F, T, D + 1, N)
       else (F, T, D, N + 1)) \<and>
    (filtered sev h \<or> throttled (ck_throttle ck) c h \<or> duplicated (ck_dedup ck) c msg h \<longrightarrow> calls = [])"
proof -
  consider "filtered sev h" | "\<not> filtered sev h" "throttled (ck_throttle ck) c h"
    | "\<not> filtered sev h" "\<not> throttled (ck_throttle ck) c h" "duplicated (ck_dedup ck) c msg h"
    | "\<not> filtered sev h" "\<not> throttled (ck_throttle ck) c h" "\<not> duplicated (ck_dedup ck) c msg h" by blast
  then show ?thesis
  proof cases
    case 1
    with assms(1) reportError_filtered [OF 1] show ?thesis by simp
  next
    case 2
    with assms(1) reportError_throttled [OF assms(1) 2] show ?thesis by simp
  next
    case 3
    with reportError_duplicate [OF assms(1) 3, of junk] show ?thesis by auto
  next
    case 4
    with reportError_accepted [OF assms(1) 4 assms(2), of junk] show ?thesis by auto
  qed
qed

theorem reportError_accounting_witness:
  "\<exists>calls h'. reportError \<lparr>ck_throttle = 1, ck_dedup = 1, ck_stamp = 1\<rparr> (replicate 128 NUL) ''Init''
       (Some ''boot'') ERROR (ErrorHandler_init (\<lambda>_. LogOnlyPolicy)) = Some (calls, h') \<and>
     eh_inv h' \<and> eh_total_errors h' = 1"
  using reportError_accounting [of "ErrorHandler_init (\<lambda>_. LogOnlyPolicy)" "''Init''" "Some ''boot''"
      "\<lparr>ck_throttle = 1, ck_dedup = 1, ck_stamp = 1\<rparr>" "replicate 128 NUL" ERROR] eh_inv_init
  by (auto simp: dedup_overflow_def filtered_def throttled_def duplicated_def)
     (auto simp: ErrorHandler_init_def)

text \<open>Rate limit: once an error of a throttled context has passed the throttle gate, every later error
  of that context whose clock reading is less than the interval ahead (in 32-bit arithmetic, so across
  the wrap of \<open>millis()\<close>) is dropped and counted as throttled.\<close>

theorem throttle_window:
  assumes "eh_inv h" "throttle_of h (fnv1a_hash c) = Some ti"
    "\<not> filtered sev h" "\<not> throttled (ck_throttle ck) c h"
    "reportError ck junk c msg sev h = Some (calls, h')"
    "ck_throttle ck2 - ck_throttle ck < ti_interval ti" "\<not> filtered sev2 h'"
  shows "reportError ck2 junk2 c msg2 sev2 h' =
         Some ([], h'\<lparr>eh_throttled_count := eh_throttled_count h' + 1\<rparr>)"
proof -
  have no: "\<not> (\<not> duplicated (ck_dedup ck) c msg h \<and> dedup_overflow c msg h)"
    using reportError_overflow [OF assms(1,3,4), of msg junk] assms(5) by auto
  have st: "throttle_of h' = throttle_stamp (ck_throttle ck) c h \<and> eh_inv h'"
  proof (cases "duplicated (ck_dedup ck) c msg h")
    case True
    with reportError_duplicate [OF assms(1,3,4), of msg junk] assms(5) show ?thesis by auto
  next
    case False
    with no reportError_accepted [OF assms(1,3,4), of msg junk] assms(5) show ?thesis by auto
  qed
  then have "throttled (ck_throttle ck2) c h'"
    using assms(2,6) by (simp add: throttled_def throttle_stamp_def)
  with st assms(7) show ?thesis by (intro reportError_throttled) auto
qed

theorem throttle_window_witness:
  "\<exists>h calls h'. setThrottle ''Wifi'' 1000 (ErrorHandler_init (\<lambda>_. LogOnlyPolicy)) = Some h \<and>
     reportError \<lparr>ck_throttle = 5000, ck_dedup = 5000, ck_stamp = 5000\<rparr> (replicate 128 NUL) ''Wifi''
       (Some ''down'') ERROR h = Some (calls, h') \<and>
     reportError \<lparr>ck_throttle = 5999, ck_dedup = 5999, ck_stamp = 5999\<rparr> (replicate 128 NUL) ''Wifi''
       (Some ''still down'') CRITICAL h' = Some ([], h'\<lparr>eh_throttled_count := eh_throttled_count h' + 1\<rparr>)"
proof -
  let ?i = "ErrorHandler_init (\<lambda>_. LogOnlyPolicy)"
  let ?ck = "\<lparr>ck_throttle = 5000, ck_dedup = 5000, ck_stamp = 5000\<rparr>"
  from setThrottle_spec [OF eh_inv_init [of "\<lambda>_. LogOnlyPolicy"], where c = "''Wifi''" and t = 1000] obtain m where
    m: "setThrottle ''Wifi'' 1000 ?i = Some (?i\<lparr>eh_throttle_map := m\<rparr>)" "eh_inv (?i\<lparr>eh_throttle_map := m\<rparr>)"
    "throttle_of (?i\<lparr>eh_throttle_map := m\<rparr>) (fnv1a_hash ''Wifi'') = Some \<lparr>ti_last_time = 0, ti_interval = 1000\<rparr>"
    by auto
  let ?h = "?i\<lparr>eh_throttle_map := m\<rparr>"
  have g: "\<not> filtered s ?h" "\<not> throttled 5000 ''Wifi'' ?h" "\<not> duplicated t c msg ?h"
    "\<not> dedup_overflow c msg ?h" for s t c msg
    using m(3) by (simp_all add: filtered_def throttled_def duplicated_def dedup_overflow_def)
  from reportError_accepted [OF m(2), of ERROR ?ck "''Wifi''" "Some ''down''" "replicate 128 NUL"] g
  obtain calls h' where r: "reportError ?ck (replicate 128 NUL) ''Wifi'' (Some ''down'') ERROR ?h = Some (calls, h')"
    "eh_filter_enabled h' = eh_filter_enabled ?h" by auto
  have "\<not> filtered CRITICAL h'" using r(2) by (simp add: filtered_def)
  with throttle_window [OF m(2,3) _ _ r(1), of "\<lparr>ck_throttle = 5999, ck_dedup = 5999, ck_stamp = 5999\<rparr>" CRITICAL
      "replicate 128 NUL" "Some ''still down''"] g m(1) r(1) show ?thesis by auto
qed

text \<open>An accepted error becomes the newest line of the printed history, the oldest one is lost only
  when ten are kept; the record holds the context and message truncated to their fixed buffers, the running
  error number, and the context path joined with " > " and truncated to 95 characters.\<close>

theorem history_keeps_last_ten:
  assumes "eh_inv h" "\<not> filtered sev h" "\<not> throttled (ck_throttle ck) c h"
    "\<not> duplicated (ck_dedup ck) c (Some msg) h" "\<not> dedup_overflow c (Some msg) h"
    "arr_rep pod (eh_context_stack h) cs" "\<forall>d\<in>set cs. c_string d" "length junk = 128"
  shows "\<exists>calls h' info. reportError ck junk c (Some msg) sev h = Some (calls, h') \<and>
    printed_history h' = drop (length (printed_history h) + 1 - 10) (printed_history h @ [info]) \<and>
    length (printed_history h') \<le> 10 \<and>
    info = \<lparr>ei_context = take 31 c, ei_message = take 127 msg, ei_severity = sev,
            ei_timestamp = ck_stamp ck, ei_error_code = eh_total_errors h + 1,
            ei_context_stack = take 95 (if stack_path cs = [] then c else stack_path cs @ '' > '' @ c)\<rparr>"
proof -
  let ?info = "error_record (ck_stamp ck) junk c (Some msg) sev h"
  from reportError_accepted [OF assms(1-5), of junk] obtain calls h' where
    r: "reportError ck junk c (Some msg) sev h = Some (calls, h')" "eh_inv h'"
    "history_of h' = drop (length (history_of h) + 1 - HISTORY_SIZE) (history_of h @ [?info])" by blast
  have "printed_history h' = drop (length (printed_history h) + 1 - 10) (printed_history h @ [?info])"
    using r(3) unfolding printed_history_eq [OF r(2)] printed_history_eq [OF assms(1)] HISTORY_SIZE_def .
  moreover have "length (printed_history h') \<le> 10"
    using r(2) unfolding printed_history_eq [OF r(2)] by (simp add: history_of_def eh_inv_def HISTORY_SIZE_def)
  moreover have "?info = \<lparr>ei_context = take 31 c, ei_message = take 127 msg, ei_severity = sev,
            ei_timestamp = ck_stamp ck, ei_error_code = eh_total_errors h + 1,
            ei_context_stack = take 95 (if stack_path cs = [] then c else stack_path cs @ '' > '' @ c)\<rparr>"
    using context_trace_rep [OF assms(6,8,7), of c]
    by (simp add: error_record_def ErrorInfo_def bounded_copy_def)
  ultimately show ?thesis using r(1) by blast
qed

theorem history_keeps_last_ten_witness:
  "\<exists>calls h' info. reportError \<lparr>ck_throttle = 7, ck_dedup = 7, ck_stamp = 7\<rparr> (replicate 128 NUL) ''Scan''
       (Some ''busy'') WARNING (ErrorHandler_init (\<lambda>_. LogOnlyPolicy)) = Some (calls, h') \<and>
     printed_history h' = [info] \<and> ei_context info = ''Scan'' \<and> ei_context_stack info = ''Scan'' \<and>
     ei_error_code info = 1"
proof -
  let ?i = "ErrorHandler_init (\<lambda>_. LogOnlyPolicy)"
  have "printed_history ?i = []" "eh_total_errors ?i = 0"
    by (simp_all add: printed_history_def ErrorHandler_init_def Let_def)
  with history_keeps_last_ten [of ?i WARNING "\<lparr>ck_throttle = 7, ck_dedup = 7, ck_stamp = 7\<rparr>" "''Scan''" "''busy''"
      "[]" "replicate 128 NUL"] eh_inv_init [of "\<lambda>_. LogOnlyPolicy"]
  show ?thesis
    by (fastforce simp: sa10_rep(1) filtered_def throttled_def duplicated_def dedup_overflow_def)
qed

text \<open>The context guard restores the context stack when fewer than ten contexts are nested. With ten or
  more the push is dropped but the destructor still pops, so the guard removes an outer context.\<close>

theorem context_guard:
  assumes "arr_rep pod (eh_context_stack h) cs" "arr_capacity (eh_context_stack h) = 10"
    "eh_context_stack (body (pushContext c h)) = eh_context_stack (pushContext c h)"
  shows "arr_rep pod (eh_context_stack (with_context c body h)) (if length cs < 10 then cs else butlast cs)"
proof -
  let ?p = "eh_context_stack (pushContext c h)"
  have "arr_rep pod ?p (if length cs < 10 then cs @ [c] else cs)"
    using sa_push_back_rep [OF assms(1), of c] assms(1,2) by (auto simp: pushContext_def split: if_splits)
  moreover from sa_pop_back_rep [OF this] have "arr_rep pod (sa_pop_back pod ?p) (if length cs < 10 then cs else butlast cs)"
    by (auto split: if_splits)
  ultimately show ?thesis
    unfolding with_context_def popContext_def assms(3)
    by (cases "length cs < 10") (auto simp: assms(3) sa_empty_def arr_rep_size)
qed

theorem context_guard_witness:
  "arr_rep pod (eh_context_stack (with_context ''Sensor'' (\<lambda>g. g) (ErrorHandler_init (\<lambda>_. LogOnlyPolicy)))) []"
  using context_guard [of "ErrorHandler_init (\<lambda>_. LogOnlyPolicy)" "[]" "\<lambda>g. g" "''Sensor''"] sa10_rep by simp

text \<open>A \<open>ThresholdPolicy\<close> with an action fires it exactly once per \<open>threshold\<close> errors, from any
  counter below the threshold, and keeps the remainder.\<close>

theorem threshold_policy_period:
  assumes "0 < unat t" "unat n < unat t"
  shows "action_count (fst (policy_run is (ThresholdPolicy t n True))) = (unat n + length is) div unat t"
  using threshold_run [OF assms] by simp

theorem threshold_policy_period_witness:
  "action_count (fst (policy_run (replicate 7 (ErrorInfo None None ERROR)) (ThresholdPolicy 3 0 True))) = 2"
  using threshold_policy_period [of 3 0 "replicate 7 (ErrorInfo None None ERROR)"] by simp

text \<open>The FNV-1a key of a context never collides for two strings that differ in exactly one character.\<close>

theorem fnv1a_no_single_char_collision:
  assumes "c \<noteq> d"
  shows "fnv1a_hash (s @ [c] @ t) \<noteq> fnv1a_hash (s @ [d] @ t)"
  using assms by (rule fnv1a_differ_in_one_char)

theorem fnv1a_no_single_char_collision_witness:
  "fnv1a_hash ''wifi1'' \<noteq> fnv1a_hash ''wifi2''"
  using fnv1a_no_single_char_collision [of "CHR ''1''" "CHR ''2''" "''wifi''" "[]"] by simp

end
