(* ===== verification/Error_Queue.thy ===== *)
theory Error_Queue
  imports Error_Handler
begin

text \<open>
  \<open>ErrorQueue<Capacity>\<close> (\<open>include/Core/Error/ErrorQueue.h\<close>): a ring buffer of fixed-size error
  entries that are handed to the \<open>ErrorHandler\<close> later. The queue is an instance of the bounded
  FIFO interface; draining it is reporting the queued errors in order.
\<close>

record queued_error =
  qe_context :: "char list"
  qe_message :: "char list"
  qe_severity :: ErrorSeverity
  qe_timestamp :: u32
  qe_valid :: bool

definition QueuedError :: queued_error where
  "QueuedError = \<lparr>qe_context = [], qe_message = [], qe_severity = ERROR, qe_timestamp = 0, qe_valid = False\<rparr>"

record error_queue =
  eq_queue :: "queued_error list"
  eq_head :: nat
  eq_tail :: nat
  eq_count :: nat
  eq_dropped :: u32

definition ErrorQueue :: "nat \<Rightarrow> error_queue" where
  "ErrorQueue Capacity =
     \<lparr>eq_queue = replicate Capacity QueuedError, eq_head = 0, eq_tail = 0, eq_count = 0, eq_dropped = 0\<rparr>"

text \<open>The arguments of \<open>enqueue\<close> (null pointers as \<open>None\<close>) with the clock reading, and the stored entry.\<close>

type_synonym enqueue_args = "char list option \<times> char list option \<times> ErrorSeverity \<times> u32"

fun stored_entry :: "enqueue_args \<Rightarrow> queued_error" where
  "stored_entry (context, message, severity, now) =
     \<lparr>qe_context = bounded_copy 32 (case context of Some c \<Rightarrow> c | None \<Rightarrow> ''Unknown''),
      qe_message = bounded_copy 64 (case message of Some m \<Rightarrow> m | None \<Rightarrow> []),
      qe_severity = severity, qe_timestamp = now, qe_valid = True\<rparr>"

definition eq_enqueue :: "nat \<Rightarrow> enqueue_args \<Rightarrow> error_queue \<Rightarrow> bool \<times> error_queue" where
  "eq_enqueue Capacity args q =
     (if Capacity \<le> eq_count q then (False, q\<lparr>eq_dropped := eq_dropped q + 1\<rparr>)
      else (True, q\<lparr>eq_queue := (eq_queue q)[eq_tail q := stored_entry args],
                    eq_tail := (eq_tail q + 1) mod Capacity, eq_count := eq_count q + 1\<rparr>))"

text \<open>The queue part of \<open>processOne\<close>: invalidate the head entry and advance.\<close>

definition eq_advance :: "nat \<Rightarrow> error_queue \<Rightarrow> error_queue" where
  "eq_advance Capacity q =
     (let entry = eq_queue q ! eq_head q;
          buf = (if qe_valid entry then (eq_queue q)[eq_head q := entry\<lparr>qe_valid := False\<rparr>] else eq_queue q)
      in q\<lparr>eq_queue := buf, eq_head := (eq_head q + 1) mod Capacity, eq_count := eq_count q - 1\<rparr>)"

definition eq_processOne ::
  "nat \<Rightarrow> clock_reads \<Rightarrow> char list \<Rightarrow> error_queue \<Rightarrow> error_handler \<Rightarrow>
   (bool \<times> eh_call list \<times> error_queue \<times> error_handler) option" where
  "eq_processOne Capacity ck junk q h =
     (if eq_count q = 0 then Some (False, [], q, h)
      else let entry = eq_queue q ! eq_head q in
        if qe_valid entry
        then map_option (\<lambda>(calls, h). (True, calls, eq_advance Capacity q, h))
               (reportError ck junk (qe_context entry) (Some (qe_message entry)) (qe_severity entry) h)
        else Some (True, [], eq_advance Capacity q, h))"

text \<open>The loop of \<open>processAll\<close>: \<open>left = limit - processed\<close>; iteration \<open>k\<close> reads the clock as \<open>cks k\<close>.\<close>

fun processAll_loop ::
  "nat \<Rightarrow> (nat \<Rightarrow> clock_reads) \<Rightarrow> char list \<Rightarrow> nat \<Rightarrow> nat \<Rightarrow> error_queue \<Rightarrow> error_handler \<Rightarrow>
   (nat \<times> eh_call list \<times> error_queue \<times> error_handler) option" where
  "processAll_loop Capacity cks junk 0 processed q h = Some (processed, [], q, h)"
| "processAll_loop Capacity cks junk (Suc left) processed q h =
     (case eq_processOne Capacity (cks processed) junk q h of
        None \<Rightarrow> None
      | Some (again, calls, q, h) \<Rightarrow>
          if again
          then map_option (\<lambda>(n, c, q, h). (n, calls @ c, q, h))
                 (processAll_loop Capacity cks junk left (processed + 1) q h)
          else Some (processed, calls, q, h))"

definition eq_processAll ::
  "nat \<Rightarrow> (nat \<Rightarrow> clock_reads) \<Rightarrow> char list \<Rightarrow> nat \<Rightarrow> error_queue \<Rightarrow> error_handler \<Rightarrow>
   (nat \<times> eh_call list \<times> error_queue \<times> error_handler) option" where
  "eq_processAll Capacity cks junk max_per_call q h =
     (let limit = (if max_per_call = 0 then eq_count q else max_per_call)
      in processAll_loop Capacity cks junk limit 0 q h)"

definition eq_clear :: "error_queue \<Rightarrow> error_queue" where
  "eq_clear q = q\<lparr>eq_head := 0, eq_tail := 0, eq_count := 0\<rparr>"

definition eq_isEmpty :: "error_queue \<Rightarrow> bool" where "eq_isEmpty q \<longleftrightarrow> eq_count q = 0"
definition eq_isFull :: "nat \<Rightarrow> error_queue \<Rightarrow> bool" where "eq_isFull Capacity q \<longleftrightarrow> Capacity \<le> eq_count q"

section \<open>An instance of the FIFO interface\<close>

definition eq_items :: "error_queue \<Rightarrow> queued_error list" where
  "eq_items q = ring_window (eq_queue q) (eq_head q) (eq_count q)"

definition eq_inv :: "nat \<Rightarrow> error_queue \<Rightarrow> bool" where
  "eq_inv Capacity q \<longleftrightarrow>
     0 < Capacity \<and> length (eq_queue q) = Capacity \<and> eq_head q < Capacity \<and> eq_count q \<le> Capacity \<and>
     eq_tail q = (eq_head q + eq_count q) mod Capacity \<and> (\<forall>e\<in>set (eq_items q). qe_valid e)"

definition eq_take :: "nat \<Rightarrow> error_queue \<Rightarrow> queued_error option \<times> error_queue" where
  "eq_take Capacity q =
     (if eq_count q = 0 then (None, q) else (Some (eq_queue q ! eq_head q), eq_advance Capacity q))"

lemma length_eq_items [simp]: "length (eq_items q) = eq_count q"
  by (simp add: eq_items_def)

lemma eq_inv_init: "0 < Capacity \<Longrightarrow> eq_inv Capacity (ErrorQueue Capacity)"
  by (simp add: eq_inv_def ErrorQueue_def eq_items_def)

lemma eq_clear_inv: "eq_inv Capacity q \<Longrightarrow> eq_inv Capacity (eq_clear q) \<and> eq_items (eq_clear q) = []"
  by (simp add: eq_inv_def eq_clear_def eq_items_def)

lemma eq_enqueue_room:
  assumes "eq_inv Capacity q" "eq_count q < Capacity"
  shows "fst (eq_enqueue Capacity a q) \<and> eq_inv Capacity (snd (eq_enqueue Capacity a q)) \<and>
         eq_items (snd (eq_enqueue Capacity a q)) = eq_items q @ [stored_entry a]"
proof -
  have "eq_items (snd (eq_enqueue Capacity a q)) = eq_items q @ [stored_entry a]"
    using assms ring_window_push [of "eq_count q" "eq_queue q" "eq_head q" "stored_entry a"]
    by (simp add: eq_items_def eq_enqueue_def eq_inv_def)
  moreover have "qe_valid (stored_entry a)" by (cases a) auto
  ultimately show ?thesis using assms by (auto simp: eq_inv_def eq_enqueue_def mod_Suc_eq)
qed

lemma ring_window_advance:
  assumes "head < length buf" "n < length buf"
  shows "ring_window (buf[head := v]) (Suc head mod length buf) n = ring_window buf (Suc head mod length buf) n"
proof -
  have "(Suc head mod length buf + i) mod length buf \<noteq> head" if "i < n" for i
  proof
    assume "(Suc head mod length buf + i) mod length buf = head"
    then have "(head + Suc i) mod length buf = (head + 0) mod length buf"
      using assms(1) by (simp add: mod_add_left_eq)
    moreover have "Suc i < length buf" "0 < length buf" using that assms by linarith+
    ultimately show False using mod_window_inj [of head "Suc i" "length buf" 0] by simp
  qed
  then have "buf[head := v] ! ((Suc head mod length buf + i) mod length buf) =
             buf ! ((Suc head mod length buf + i) mod length buf)" if "i < n" for i
    using that by (intro nth_list_update_neq) metis
  then show ?thesis unfolding ring_window_def length_list_update by (intro map_cong) auto
qed

lemma eq_take_some:
  assumes "eq_inv Capacity q" "eq_items q = e # es"
  shows "eq_queue q ! eq_head q = e" "qe_valid e" "eq_inv Capacity (eq_advance Capacity q)"
    "eq_items (eq_advance Capacity q) = es"
proof -
  from assms(1) have i: "0 < Capacity" "length (eq_queue q) = Capacity" "eq_head q < Capacity"
    "eq_count q \<le> Capacity" "eq_tail q = (eq_head q + eq_count q) mod Capacity" "\<forall>e\<in>set (eq_items q). qe_valid e"
    by (auto simp: eq_inv_def)
  from assms(2) obtain m where m: "eq_count q = Suc m" by (metis length_Cons length_eq_items)
  show e: "eq_queue q ! eq_head q = e"
    using ring_window_head [of "eq_queue q" "eq_count q" "eq_head q"] i m assms(2) by (auto simp: eq_items_def)
  show v: "qe_valid e" using i(6) assms(2) by simp
  have "ring_window (eq_queue q) (Suc (eq_head q) mod Capacity) m = es"
    using ring_window_pop [of "eq_queue q" "eq_head q" m] i(2) m assms(2) by (simp add: eq_items_def)
  with ring_window_advance [of "eq_head q" "eq_queue q" m] i m v e
  show items: "eq_items (eq_advance Capacity q) = es"
    by (simp add: eq_items_def eq_advance_def Let_def)
  have "eq_tail q = (Suc (eq_head q) mod Capacity + m) mod Capacity"
    unfolding i(5) m by (simp add: mod_add_left_eq)
  moreover have "length (eq_queue (eq_advance Capacity q)) = Capacity"
    "eq_head (eq_advance Capacity q) = Suc (eq_head q) mod Capacity"
    "eq_count (eq_advance Capacity q) = m" "eq_tail (eq_advance Capacity q) = eq_tail q"
    using i(2) m by (simp_all add: eq_advance_def Let_def)
  moreover have "\<forall>e\<in>set es. qe_valid e" using i(6) assms(2) by simp
  ultimately show "eq_inv Capacity (eq_advance Capacity q)"
    using i(1,4) m unfolding eq_inv_def items by simp
qed

interpretation eq: fifo_queue "eq_inv Capacity" eq_items "\<lambda>_. Capacity" stored_entry
  "eq_enqueue Capacity" "eq_take Capacity" for Capacity
proof
  fix q x
  assume inv: "eq_inv Capacity q"
  then show "length (eq_items q) \<le> Capacity" by (simp add: eq_inv_def)
  show "eq_inv Capacity (snd (eq_enqueue Capacity x q))"
    using eq_enqueue_room [OF inv, of x] inv
    by (cases "eq_count q < Capacity") (auto simp: eq_enqueue_def eq_inv_def eq_items_def)
  show "length (eq_items q) < Capacity \<Longrightarrow> fst (eq_enqueue Capacity x q) \<and>
          eq_items (snd (eq_enqueue Capacity x q)) = eq_items q @ [stored_entry x]"
    using eq_enqueue_room [OF inv, of x] by simp
  show "length (eq_items q) = Capacity \<Longrightarrow> \<not> fst (eq_enqueue Capacity x q) \<and>
          eq_items (snd (eq_enqueue Capacity x q)) = eq_items q"
    by (simp add: eq_enqueue_def eq_items_def)
  show "eq_inv Capacity (snd (eq_take Capacity q))"
    using eq_take_some [OF inv] inv length_eq_items [of q]
    by (cases "eq_items q") (auto simp: eq_take_def)
  show "eq_items q = [] \<Longrightarrow> fst (eq_take Capacity q) = None \<and> eq_items (snd (eq_take Capacity q)) = []"
    using length_eq_items [of q] by (simp add: eq_take_def)
  show "eq_items q \<noteq> [] \<Longrightarrow> fst (eq_take Capacity q) = Some (hd (eq_items q)) \<and>
          eq_items (snd (eq_take Capacity q)) = tl (eq_items q)"
    using eq_take_some [OF inv] length_eq_items [of q] by (cases "eq_items q") (auto simp: eq_take_def)
qed simp

section \<open>Draining\<close>

text \<open>The specification: report the entries one after the other.\<close>

fun report_list ::
  "(nat \<Rightarrow> clock_reads) \<Rightarrow> char list \<Rightarrow> nat \<Rightarrow> queued_error list \<Rightarrow> error_handler \<Rightarrow>
   (eh_call list \<times> error_handler) option" where
  "report_list cks junk k [] h = Some ([], h)"
| "report_list cks junk k (e # es) h =
     (case reportError (cks k) junk (qe_context e) (Some (qe_message e)) (qe_severity e) h of
        None \<Rightarrow> None
      | Some (calls, h) \<Rightarrow> map_option (\<lambda>(c, h). (calls @ c, h)) (report_list cks junk (k + 1) es h))"

lemma processAll_loop_reports:
  assumes "eq_inv Capacity q" "report_list cks junk k (take n (eq_items q)) h = Some (calls, h')"
  shows "\<exists>q'. processAll_loop Capacity cks junk n k q h =
           Some (k + min n (eq_count q), calls, q', h') \<and>
         eq_inv Capacity q' \<and> eq_items q' = drop n (eq_items q)"
  using assms
proof (induction n arbitrary: q h k calls)
  case 0
  then show ?case by simp
next
  case (Suc n)
  show ?case
  proof (cases "eq_items q")
    case Nil
    with Suc.prems length_eq_items [of q] show ?thesis by (simp add: eq_processOne_def)
  next
    case (Cons e es)
    note t = eq_take_some [OF Suc.prems(1) Cons]
    from Cons Suc.prems(2) obtain c1 h1 c2 where r:
      "reportError (cks k) junk (qe_context e) (Some (qe_message e)) (qe_severity e) h = Some (c1, h1)"
      "report_list cks junk (Suc k) (take n (eq_items (eq_advance Capacity q))) h1 = Some (c2, h')"
      "calls = c1 @ c2" by (auto simp: t(4) split: option.splits)
    from Suc.IH [OF t(3) r(2)] obtain q' where q':
      "processAll_loop Capacity cks junk n (Suc k) (eq_advance Capacity q) h1 =
         Some (Suc k + min n (eq_count (eq_advance Capacity q)), c2, q', h')"
      "eq_inv Capacity q'" "eq_items q' = drop n es" by (auto simp: t(4))
    have cnt: "eq_count q = Suc (length es)" "eq_count (eq_advance Capacity q) = length es"
      using length_eq_items [of q] length_eq_items [of "eq_advance Capacity q"] Cons t(4) by auto
    have "eq_processOne Capacity (cks k) junk q h = Some (True, c1, eq_advance Capacity q, h1)"
      using cnt(1) t(1,2) r(1) by (simp add: eq_processOne_def)
    with q' r(3) cnt Cons show ?thesis by simp
  qed
qed

section \<open>Properties\<close>

text \<open>The error queue is FIFO: of any errors offered to an empty queue, the first \<open>Capacity\<close> come out
  again in order (with their strings cut to the entry's buffers), and the rest are dropped.\<close>

theorem error_queue_fifo:
  assumes "eq_inv Capacity q" "eq_items q = []"
  shows "fst (deq_n (eq_take Capacity) n (enq_list (eq_enqueue Capacity) xs q)) =
         take n (take Capacity (map stored_entry xs))"
  using assms by (rule eq.fifo_order)

theorem error_queue_fifo_witness:
  "fst (deq_n (eq_take 2) 3 (enq_list (eq_enqueue 2)
     [(Some ''a'', None, ERROR, 1), (None, Some ''m'', INFO, 2), (Some ''c'', None, ERROR, 3)] (ErrorQueue 2))) =
   [stored_entry (Some ''a'', None, ERROR, 1), stored_entry (None, Some ''m'', INFO, 2)]"
  using error_queue_fifo [of 2 "ErrorQueue 2" 3
      "[(Some ''a'', None, ERROR, 1), (None, Some ''m'', INFO, 2), (Some ''c'', None, ERROR, 3)]"]
    eq_inv_init [of 2]
  by (simp add: eq_items_def ErrorQueue_def)

text \<open>Draining the queue reports every queued error to the handler, in queue order, and leaves the queue
  empty; the number returned is the number of errors that were queued.\<close>

theorem process_all_drains:
  assumes "eq_inv Capacity q" "report_list cks junk 0 (eq_items q) h = Some (calls, h')"
  shows "\<exists>q'. eq_processAll Capacity cks junk 0 q h = Some (eq_count q, calls, q', h') \<and>
              eq_inv Capacity q' \<and> eq_items q' = []"
proof -
  have "take (eq_count q) (eq_items q) = eq_items q" by (metis length_eq_items order_refl take_all)
  with processAll_loop_reports [OF assms(1), of cks junk 0 "eq_count q" h calls h'] assms(2)
  show ?thesis by (auto simp: eq_processAll_def)
qed

theorem process_all_drains_witness:
  "\<exists>q' calls h'. eq_processAll 4 (\<lambda>_. \<lparr>ck_throttle = 9, ck_dedup = 9, ck_stamp = 9\<rparr>) (replicate 128 NUL) 0
      (snd (eq_enqueue 4 (Some ''Net'', Some ''lost'', ERROR, 5) (ErrorQueue 4)))
      (ErrorHandler_init (\<lambda>_. LogOnlyPolicy)) = Some (1, calls, q', h') \<and> eq_items q' = []"
proof -
  let ?q = "snd (eq_enqueue 4 (Some ''Net'', Some ''lost'', ERROR, 5) (ErrorQueue 4))"
  let ?i = "ErrorHandler_init (\<lambda>_. LogOnlyPolicy)"
  let ?ck = "\<lparr>ck_throttle = 9, ck_dedup = 9, ck_stamp = 9 :: u32\<rparr>"
  have q: "eq_inv 4 ?q" "eq_items ?q = [stored_entry (Some ''Net'', Some ''lost'', ERROR, 5)]" "eq_count ?q = 1"
    using eq_enqueue_room [OF eq_inv_init [of 4], of "(Some ''Net'', Some ''lost'', ERROR, 5)"]
    by (auto simp: ErrorQueue_def eq_items_def eq_enqueue_def)
  have "\<exists>calls h'. reportError ?ck (replicate 128 NUL) ''Net'' (Some ''lost'') ERROR ?i = Some (calls, h')"
    using reportError_accepted [of ?i ERROR ?ck "''Net''" "Some ''lost''" "replicate 128 NUL"] eh_inv_init
    by (auto simp: filtered_def throttled_def duplicated_def dedup_overflow_def)
  then obtain calls h' where "report_list (\<lambda>_. ?ck) (replicate 128 NUL) 0 (eq_items ?q) ?i = Some (calls, h')"
    by (auto simp: q(2) bounded_copy_def)
  from process_all_drains [OF q(1) this] q(3) show ?thesis by auto
qed

end
