(* ===== verification/Std_Heap.thy ===== *)
theory Std_Heap
  imports Prelude
begin

text \<open>
  The heap algorithms of the C++ standard library that the timer queue is built on
  (\<open>std::push_heap\<close>, \<open>std::pop_heap\<close>, \<open>std::make_heap\<close>), and the interface the queue relies
  on: the locale \<open>std_heap\<close> states what the standard promises of the three functions, the
  interpretation at the end discharges it for the usual sift-up/sift-down implementation.
  \<open>HeapSortStrategy::add_sorted\<close> of \<open>src/include/Optimization/SortStrategy.h\<close> is the client
  operation.
\<close>

section \<open>The algorithms\<close>

definition swap_at :: "nat \<Rightarrow> nat \<Rightarrow> 'a list \<Rightarrow> 'a list" where
  "swap_at i j xs = xs[i := xs ! j, j := xs ! i]"

lemma length_swap_at [simp]: "length (swap_at i j xs) = length xs"
  by (simp add: swap_at_def)

lemma nth_swap_at:
  "i < length xs \<Longrightarrow> j < length xs \<Longrightarrow> m < length xs \<Longrightarrow>
   swap_at i j xs ! m = (if m = j then xs ! i else if m = i then xs ! j else xs ! m)"
  by (simp add: swap_at_def nth_list_update)

lemma mset_swap_at [simp]: "i < length xs \<Longrightarrow> j < length xs \<Longrightarrow> mset (swap_at i j xs) = mset xs"
  unfolding swap_at_def by (rule mset_swap)

lemma set_swap_at [simp]: "i < length xs \<Longrightarrow> j < length xs \<Longrightarrow> set (swap_at i j xs) = set xs"
  using mset_swap_at by (metis set_mset_mset)

function sift_up :: "('a \<Rightarrow> 'a \<Rightarrow> bool) \<Rightarrow> nat \<Rightarrow> 'a list \<Rightarrow> 'a list" where
  "sift_up cmp i xs =
     (if 0 < i \<and> cmp (xs ! ((i - 1) div 2)) (xs ! i)
      then sift_up cmp ((i - 1) div 2) (swap_at ((i - 1) div 2) i xs) else xs)"
  by pat_completeness auto
termination by (relation "measure (\<lambda>(c, i, xs). i)") auto

definition larger_child :: "('a \<Rightarrow> 'a \<Rightarrow> bool) \<Rightarrow> nat \<Rightarrow> nat \<Rightarrow> 'a list \<Rightarrow> nat" where
  "larger_child cmp i n xs =
     (if 2 * i + 2 < n \<and> cmp (xs ! (2 * i + 1)) (xs ! (2 * i + 2)) then 2 * i + 2 else 2 * i + 1)"

function sift_down :: "('a \<Rightarrow> 'a \<Rightarrow> bool) \<Rightarrow> nat \<Rightarrow> nat \<Rightarrow> 'a list \<Rightarrow> 'a list" where
  "sift_down cmp i n xs =
     (if 2 * i + 1 < n \<and> cmp (xs ! i) (xs ! larger_child cmp i n xs)
      then sift_down cmp (larger_child cmp i n xs) n (swap_at i (larger_child cmp i n xs) xs)
      else xs)"
  by pat_completeness auto
termination by (relation "measure (\<lambda>(c, i, n, xs). n - i)") (auto simp: larger_child_def)

declare sift_up.simps [simp del] sift_down.simps [simp del]

definition push_heap :: "('a \<Rightarrow> 'a \<Rightarrow> bool) \<Rightarrow> 'a list \<Rightarrow> 'a list" where
  "push_heap cmp xs = sift_up cmp (length xs - 1) xs"

definition pop_heap :: "('a \<Rightarrow> 'a \<Rightarrow> bool) \<Rightarrow> 'a list \<Rightarrow> 'a list" where
  "pop_heap cmp xs =
     (if length xs \<le> 1 then xs
      else sift_down cmp 0 (length xs - 1) (swap_at 0 (length xs - 1) xs))"

fun heapify :: "('a \<Rightarrow> 'a \<Rightarrow> bool) \<Rightarrow> nat \<Rightarrow> 'a list \<Rightarrow> 'a list" where
  "heapify cmp 0 xs = xs"
| "heapify cmp (Suc i) xs = heapify cmp i (sift_down cmp i (length xs) xs)"

definition make_heap :: "('a \<Rightarrow> 'a \<Rightarrow> bool) \<Rightarrow> 'a list \<Rightarrow> 'a list" where
  "make_heap cmp xs = heapify cmp (length xs div 2) xs"

section \<open>They permute the range\<close>

lemma sift_up_mset: "i < length xs \<Longrightarrow> mset (sift_up cmp i xs) = mset xs"
proof (induction cmp i xs rule: sift_up.induct)
  case (1 cmp i xs)
  then show ?case by (simp add: sift_up.simps [of cmp i xs])
qed

lemma larger_child_bounds:
  "2 * i + 1 < n \<Longrightarrow> larger_child cmp i n xs < n"
  "i < larger_child cmp i n xs"
  by (auto simp: larger_child_def)

lemma sift_down_mset: "n \<le> length xs \<Longrightarrow> mset (sift_down cmp i n xs) = mset xs"
proof (induction cmp i n xs rule: sift_down.induct)
  case (1 cmp i n xs)
  show ?case
  proof (cases "2 * i + 1 < n \<and> cmp (xs ! i) (xs ! larger_child cmp i n xs)")
    case True
    then have "larger_child cmp i n xs < length xs" "i < length xs"
      using larger_child_bounds(1) [of i n cmp xs] "1.prems" by auto
    then show ?thesis using True "1.IH" "1.prems" by (simp add: sift_down.simps [of cmp i n xs])
  next
    case False
    then show ?thesis by (subst sift_down.simps) auto
  qed
qed

lemma sift_down_beyond: "n \<le> length xs \<Longrightarrow> n \<le> m \<Longrightarrow> m < length xs \<Longrightarrow> sift_down cmp i n xs ! m = xs ! m"
proof (induction cmp i n xs rule: sift_down.induct)
  case (1 cmp i n xs)
  show ?case
  proof (cases "2 * i + 1 < n \<and> cmp (xs ! i) (xs ! larger_child cmp i n xs)")
    case True
    then have *: "larger_child cmp i n xs < n" "i < n"
      using larger_child_bounds(1) [of i n cmp xs] by auto
    then show ?thesis using True "1.IH" "1.prems"
      by (simp add: sift_down.simps [of cmp i n xs] nth_swap_at)
  next
    case False
    then show ?thesis by (subst sift_down.simps) auto
  qed
qed

lemma heapify_mset: "mset (heapify cmp i xs) = mset xs"
proof (induction i arbitrary: xs)
  case (Suc i)
  show ?case by (simp add: Suc sift_down_mset)
qed simp

lemma push_heap_mset [simp]: "mset (push_heap cmp xs) = mset xs"
proof (cases xs)
  case Nil
  then show ?thesis by (simp add: push_heap_def sift_up.simps)
next
  case (Cons y ys)
  then show ?thesis by (simp add: push_heap_def sift_up_mset)
qed

lemma pop_heap_mset [simp]: "mset (pop_heap cmp xs) = mset xs"
proof (cases "length xs \<le> 1")
  case False
  then have "0 < length xs" "length xs - 1 < length xs" by auto
  then show ?thesis using False by (simp add: pop_heap_def sift_down_mset)
qed (simp add: pop_heap_def)

lemma make_heap_mset [simp]: "mset (make_heap cmp xs) = mset xs"
  by (simp add: make_heap_def heapify_mset)

lemma perm_facts:
  assumes "mset ys = mset xs"
  shows "length ys = length xs" "set ys = set xs" "distinct ys = distinct xs"
  using assms by (metis mset_eq_length, metis set_mset_mset, metis mset_eq_imp_distinct_iff)

lemmas heap_perm [simp] =
  perm_facts [OF push_heap_mset] perm_facts [OF pop_heap_mset] perm_facts [OF make_heap_mset]

text \<open>\<open>pop_heap\<close> brings the front element to the back, whatever the comparison.\<close>

lemma pop_heap_last:
  assumes "xs \<noteq> []"
  shows "last (pop_heap cmp xs) = xs ! 0"
proof (cases "length xs \<le> 1")
  case True
  then show ?thesis using assms by (cases xs) (auto simp: pop_heap_def)
next
  case False
  have ne: "pop_heap cmp xs \<noteq> []" using assms heap_perm(4) by (metis length_0_conv)
  have "pop_heap cmp xs ! (length xs - 1) = xs ! 0"
    using False nth_swap_at [of 0 xs "length xs - 1" "length xs - 1"]
    by (cases "xs = []") (simp_all add: pop_heap_def sift_down_beyond)
  then show ?thesis using ne by (simp add: last_conv_nth)
qed

section \<open>They restore the heap order\<close>

text \<open>The comparison agrees with a key on the elements at hand: \<open>cmp a b\<close> says that \<open>b\<close>
  goes first. Then the heap order is that every element's key is at least its parent's.\<close>

definition keyed :: "('a \<Rightarrow> 'a \<Rightarrow> bool) \<Rightarrow> ('a \<Rightarrow> nat) \<Rightarrow> 'a set \<Rightarrow> bool" where
  "keyed cmp k A \<longleftrightarrow> (\<forall>a\<in>A. \<forall>b\<in>A. cmp a b \<longleftrightarrow> k b < k a)"

definition heap_from :: "('a \<Rightarrow> nat) \<Rightarrow> nat \<Rightarrow> nat \<Rightarrow> 'a list \<Rightarrow> bool" where
  "heap_from k lo n xs \<longleftrightarrow>
     (\<forall>j<n. 0 < j \<longrightarrow> lo \<le> (j - 1) div 2 \<longrightarrow> k (xs ! ((j - 1) div 2)) \<le> k (xs ! j))"

definition is_heap :: "('a \<Rightarrow> nat) \<Rightarrow> 'a list \<Rightarrow> bool" where
  "is_heap k xs \<longleftrightarrow> heap_from k 0 (length xs) xs"

lemma keyed_nth: "keyed cmp k (set xs) \<Longrightarrow> i < length xs \<Longrightarrow> j < length xs \<Longrightarrow>
  cmp (xs ! i) (xs ! j) \<longleftrightarrow> k (xs ! j) < k (xs ! i)"
  by (simp add: keyed_def)

lemma heap_fromD: "heap_from k lo n xs \<Longrightarrow> j < n \<Longrightarrow> 0 < j \<Longrightarrow> lo \<le> (j - 1) div 2 \<Longrightarrow>
  k (xs ! ((j - 1) div 2)) \<le> k (xs ! j)"
  by (simp add: heap_from_def)

lemma child_parent: "0 < j \<Longrightarrow> (j - 1) div 2 = i \<longleftrightarrow> j = 2 * i + 1 \<or> j = 2 * i + 2" for j i :: nat
  by arith

lemma parent_less: "0 < j \<Longrightarrow> (j - 1) div 2 < j" for j :: nat
  by arith

text \<open>The front of a heap has the least key.\<close>

lemma heap_front_least: "heap_from k 0 n xs \<Longrightarrow> j < n \<Longrightarrow> k (xs ! 0) \<le> k (xs ! j)"
proof (induction j rule: less_induct)
  case (less j)
  show ?case
  proof (cases "j = 0")
    case False
    then have "k (xs ! 0) \<le> k (xs ! ((j - 1) div 2))" using less by simp
    also have "\<dots> \<le> k (xs ! j)" using less.prems False by (intro heap_fromD) auto
    finally show ?thesis .
  qed simp
qed

text \<open>Sifting up repairs a heap in which only one element may be smaller than its parent.\<close>

lemma sift_up_heap:
  assumes "keyed cmp k (set xs)" "i < length xs"
    and "\<And>j. j < length xs \<Longrightarrow> 0 < j \<Longrightarrow> j \<noteq> i \<Longrightarrow> k (xs ! ((j - 1) div 2)) \<le> k (xs ! j)"
    and "\<And>j. j < length xs \<Longrightarrow> 0 < j \<Longrightarrow> 0 < i \<Longrightarrow> (j - 1) div 2 = i \<Longrightarrow> k (xs ! ((i - 1) div 2)) \<le> k (xs ! j)"
  shows "is_heap k (sift_up cmp i xs)"
  using assms
proof (induction cmp i xs rule: sift_up.induct)
  case (1 cmp i xs)
  let ?p = "(i - 1) div 2"
  note key = keyed_nth [OF "1.prems"(1)]
  show ?case
  proof (cases "0 < i \<and> cmp (xs ! ?p) (xs ! i)")
    case False
    have "k (xs ! ((j - 1) div 2)) \<le> k (xs ! j)" if "j < length xs" "0 < j" for j
    proof (cases "j = i")
      case True
      have "?p < length xs" using "1.prems"(2) by linarith
      then show ?thesis using False True key [of ?p i] that by auto
    next
      case False
      then show ?thesis using "1.prems"(3) that by simp
    qed
    moreover have "sift_up cmp i xs = xs" using False by (subst sift_up.simps) auto
    ultimately show ?thesis by (simp add: is_heap_def heap_from_def)
  next
    case True
    let ?ys = "swap_at ?p i xs"
    have pi: "?p < i" "?p < length xs" using True "1.prems"(2) by auto
    have less: "k (xs ! i) < k (xs ! ?p)" using True key [of ?p i] pi "1.prems"(2) by simp
    have nth: "?ys ! m = (if m = i then xs ! ?p else if m = ?p then xs ! i else xs ! m)"
      if "m < length xs" for m
      using that pi "1.prems"(2) by (simp add: nth_swap_at)
    have "is_heap k (sift_up cmp ?p ?ys)"
    proof (rule "1.IH" [OF True])
      show "keyed cmp k (set ?ys)" using "1.prems"(1,2) pi by simp
      show "?p < length ?ys" using pi by simp
    next
      fix j assume j: "j < length ?ys" "0 < j" "j \<noteq> ?p"
      then have pj: "(j - 1) div 2 < length xs" by simp
      consider "j = i" | "j \<noteq> i" "(j - 1) div 2 = i" | "j \<noteq> i" "(j - 1) div 2 = ?p"
        | "j \<noteq> i" "(j - 1) div 2 \<noteq> i" "(j - 1) div 2 \<noteq> ?p" by blast
      then show "k (?ys ! ((j - 1) div 2)) \<le> k (?ys ! j)"
      proof cases
        case 1
        then show ?thesis using less nth [of i] nth [of ?p] pi "1.prems"(2) by simp
      next
        case 2
        then show ?thesis using "1.prems"(4) [of j] j True nth [of i] nth [of j] "1.prems"(2) by simp
      next
        case 3
        then have "k (xs ! ?p) \<le> k (xs ! j)" using "1.prems"(3) [of j] j by simp
        then show ?thesis using 3 less j nth [of ?p] nth [of j] pi by simp
      next
        case 4
        then show ?thesis using "1.prems"(3) [of j] j nth [of j] nth [OF pj] by simp
      qed
    next
      fix j assume j: "j < length ?ys" "0 < j" "0 < ?p" "(j - 1) div 2 = ?p"
      let ?g = "(?p - 1) div 2"
      have g: "k (xs ! ?g) \<le> k (xs ! ?p)" using "1.prems"(3) [of ?p] j pi by simp
      have "?g < ?p" using j(3) by (rule parent_less)
      then have gn: "?ys ! ?g = xs ! ?g" using nth [of ?g] pi by auto
      show "k (?ys ! ?g) \<le> k (?ys ! j)"
      proof (cases "j = i")
        case True
        then show ?thesis using g gn nth [of i] "1.prems"(2) by simp
      next
        case False
        then have "k (xs ! ?p) \<le> k (xs ! j)" using "1.prems"(3) [of j] j by simp
        moreover have "?p < j" using parent_less [OF j(2)] j(4) by simp
        then have "?ys ! j = xs ! j" using nth [of j] j(1) False by auto
        ultimately show ?thesis using g gn by simp
      qed
    qed
    then show ?thesis using True by (simp add: sift_up.simps [of cmp i xs])
  qed
qed

text \<open>Sifting down repairs a heap whose element \<open>i\<close> may be larger than its children.\<close>

lemma larger_child_least:
  assumes "keyed cmp k (set xs)" "n \<le> length xs" "2 * i + 1 < n"
    "j < n" "0 < j" "(j - 1) div 2 = i"
  shows "k (xs ! larger_child cmp i n xs) \<le> k (xs ! j)"
  using assms keyed_nth [OF assms(1), of "2 * i + 1" "2 * i + 2"] child_parent [of j i]
  by (auto simp: larger_child_def)

lemma sift_down_heap:
  assumes "keyed cmp k (set xs)" "n \<le> length xs"
    and "\<And>j. j < n \<Longrightarrow> 0 < j \<Longrightarrow> lo \<le> (j - 1) div 2 \<Longrightarrow> (j - 1) div 2 \<noteq> i \<Longrightarrow>
      k (xs ! ((j - 1) div 2)) \<le> k (xs ! j)"
    and "\<And>j. j < n \<Longrightarrow> 0 < j \<Longrightarrow> 0 < i \<Longrightarrow> lo \<le> (i - 1) div 2 \<Longrightarrow> (j - 1) div 2 = i \<Longrightarrow>
      k (xs ! ((i - 1) div 2)) \<le> k (xs ! j)"
  shows "heap_from k lo n (sift_down cmp i n xs)"
  using assms
proof (induction cmp i n xs rule: sift_down.induct)
  case (1 cmp i n xs)
  let ?c = "larger_child cmp i n xs"
  note key = keyed_nth [OF "1.prems"(1)] and least = larger_child_least [OF "1.prems"(1,2)]
  show ?case
  proof (cases "2 * i + 1 < n \<and> cmp (xs ! i) (xs ! ?c)")
    case False
    have "k (xs ! ((j - 1) div 2)) \<le> k (xs ! j)" if j: "j < n" "0 < j" "lo \<le> (j - 1) div 2" for j
    proof (cases "(j - 1) div 2 = i")
      case True
      then have c: "2 * i + 1 < n" using j child_parent [of j i] by auto
      then have "?c < n" using larger_child_bounds(1) by blast
      then have "k (xs ! i) \<le> k (xs ! ?c)"
        using False c key [of i ?c] "1.prems"(2) by simp
      also have "\<dots> \<le> k (xs ! j)" using least [of i j] c j True by simp
      finally show ?thesis using True by simp
    qed (use "1.prems"(3) j in auto)
    moreover have "sift_down cmp i n xs = xs" using False by (subst sift_down.simps) auto
    ultimately show ?thesis by (simp add: heap_from_def)
  next
    case True
    let ?ys = "swap_at i ?c xs"
    have c: "i < ?c" "?c < n" "i < n" "?c < length xs" "i < length xs"
      using larger_child_bounds(1) [of i n cmp xs] larger_child_bounds(2) [of i cmp n xs]
        True "1.prems"(2) by auto
    have pc: "(?c - 1) div 2 = i" by (simp add: larger_child_def)
    have less: "k (xs ! ?c) < k (xs ! i)" using True key [of i ?c] c by simp
    have nth: "?ys ! m = (if m = ?c then xs ! i else if m = i then xs ! ?c else xs ! m)"
      if "m < n" for m
      using that c "1.prems"(2) by (simp add: nth_swap_at)
    have "heap_from k lo n (sift_down cmp ?c n ?ys)"
    proof (rule "1.IH" [OF True])
      show "keyed cmp k (set ?ys)" using "1.prems"(1) c by simp
      show "n \<le> length ?ys" using "1.prems"(2) by simp
    next
      fix j assume j: "j < n" "0 < j" "lo \<le> (j - 1) div 2" "(j - 1) div 2 \<noteq> ?c"
      then have pj: "(j - 1) div 2 < n" by simp
      consider "(j - 1) div 2 = i" | "j = i" "(j - 1) div 2 \<noteq> i"
        | "j \<noteq> i" "(j - 1) div 2 \<noteq> i" by blast
      then show "k (?ys ! ((j - 1) div 2)) \<le> k (?ys ! j)"
      proof cases
        case 1
        have "k (xs ! ?c) \<le> k (xs ! j)" using least [of i j] True j 1 by simp
        then show ?thesis using 1 j less nth [of i] nth [of j] c by auto
      next
        case 2
        then have "k (xs ! ((i - 1) div 2)) \<le> k (xs ! ?c)"
          using "1.prems"(4) [of ?c] c pc j by simp
        then show ?thesis using 2 j nth [of i] nth [OF pj] c by auto
      next
        case 3
        then have "j \<noteq> ?c" using pc by auto
        then show ?thesis using 3 "1.prems"(3) [of j] j nth [of j] nth [OF pj] by simp
      qed
    next
      fix j assume j: "j < n" "0 < j" "0 < ?c" "lo \<le> (?c - 1) div 2" "(j - 1) div 2 = ?c"
      then have "k (xs ! ?c) \<le> k (xs ! j)" using "1.prems"(3) [of j] c pc by simp
      moreover have "j \<noteq> i" "j \<noteq> ?c" using j c child_parent [of j ?c] by auto
      ultimately show "k (?ys ! ((?c - 1) div 2)) \<le> k (?ys ! j)"
        using nth [of i] nth [of j] j c pc by simp
    qed
    then show ?thesis using True by (simp add: sift_down.simps [of cmp i n xs])
  qed
qed

lemma push_heap_heap:
  assumes "keyed cmp k (set (xs @ [x]))" "is_heap k xs"
  shows "is_heap k (push_heap cmp (xs @ [x]))"
  unfolding push_heap_def
proof (rule sift_up_heap [OF assms(1)])
  fix j assume j: "j < length (xs @ [x])" "0 < j" "j \<noteq> length (xs @ [x]) - 1"
  moreover have "(j - 1) div 2 < j" using j(2) by (rule parent_less)
  ultimately have "j < length xs" "(j - 1) div 2 < length xs" by auto
  then show "k ((xs @ [x]) ! ((j - 1) div 2)) \<le> k ((xs @ [x]) ! j)"
    using assms(2) j(2) by (simp add: is_heap_def heap_from_def nth_append)
next
  fix j assume "j < length (xs @ [x])" "0 < j" "(j - 1) div 2 = length (xs @ [x]) - 1"
  with parent_less [of j] have False by simp
  then show "k ((xs @ [x]) ! ((length (xs @ [x]) - 1 - 1) div 2)) \<le> k ((xs @ [x]) ! j)" ..
qed simp

lemma pop_heap_heap:
  assumes "keyed cmp k (set xs)" "is_heap k xs"
  shows "is_heap k (butlast (pop_heap cmp xs))"
proof (cases "length xs \<le> 1")
  case True
  then show ?thesis by (auto simp: is_heap_def heap_from_def)
next
  case False
  let ?n = "length xs - 1"
  let ?ys = "swap_at 0 ?n xs"
  have b: "0 < length xs" "?n < length xs" using False by auto
  have "heap_from k 0 ?n (sift_down cmp 0 ?n ?ys)"
  proof (rule sift_down_heap)
    show "keyed cmp k (set ?ys)" using assms(1) set_swap_at [OF b] by simp
    fix j assume j: "j < ?n" "0 < j" "(j - 1) div 2 \<noteq> 0"
    moreover have "(j - 1) div 2 < j" using j(2) by (rule parent_less)
    ultimately have "?ys ! j = xs ! j" "?ys ! ((j - 1) div 2) = xs ! ((j - 1) div 2)"
      using nth_swap_at [OF b, of j] nth_swap_at [OF b, of "(j - 1) div 2"] by auto
    moreover have "k (xs ! ((j - 1) div 2)) \<le> k (xs ! j)"
      using assms(2) j by (simp add: is_heap_def heap_from_def)
    ultimately show "k (?ys ! ((j - 1) div 2)) \<le> k (?ys ! j)" by simp
  qed simp_all
  then have "heap_from k 0 ?n (pop_heap cmp xs)" using False by (simp add: pop_heap_def)
  then have "k (pop_heap cmp xs ! ((j - 1) div 2)) \<le> k (pop_heap cmp xs ! j)" if "j < ?n" "0 < j" for j
    using that by (simp add: heap_from_def)
  moreover have "(j - 1) div 2 < ?n" if "j < ?n" for j :: nat using that by linarith
  ultimately show ?thesis by (simp add: is_heap_def heap_from_def nth_butlast)
qed

lemma heapify_heap:
  "keyed cmp k (set xs) \<Longrightarrow> heap_from k i (length xs) xs \<Longrightarrow>
   heap_from k 0 (length xs) (heapify cmp i xs)"
proof (induction i arbitrary: xs)
  case (Suc i)
  let ?ys = "sift_down cmp i (length xs) xs"
  have perm: "mset ?ys = mset xs" by (simp add: sift_down_mset)
  have "heap_from k i (length xs) ?ys"
  proof (rule sift_down_heap [OF Suc.prems(1) order_refl])
    fix j assume "j < length xs" "0 < j" "i \<le> (j - 1) div 2" "(j - 1) div 2 \<noteq> i"
    then show "k (xs ! ((j - 1) div 2)) \<le> k (xs ! j)" by (intro heap_fromD [OF Suc.prems(2)]) auto
  next
    fix j assume "0 < i" "i \<le> (i - 1) div 2"
    with parent_less [of i] have False by simp
    then show "k (xs ! ((i - 1) div 2)) \<le> k (xs ! j)" ..
  qed
  then show ?case using Suc.IH [of ?ys] Suc.prems(1) perm_facts(1,2) [OF perm] by simp
qed simp

lemma make_heap_heap:
  assumes "keyed cmp k (set xs)"
  shows "is_heap k (make_heap cmp xs)"
proof -
  have "heap_from k (length xs div 2) (length xs) xs"
    unfolding heap_from_def by (intro allI impI) linarith
  then have "heap_from k 0 (length xs) (heapify cmp (length xs div 2) xs)"
    by (rule heapify_heap [OF assms])
  then show ?thesis by (simp add: is_heap_def flip: make_heap_def)
qed

section \<open>The interface\<close>

text \<open>What the C++ standard promises of the three functions; \<open>k\<close> is any key that the
  comparison follows on the range (the standard's strict weak ordering).\<close>

locale std_heap =
  fixes push pop make :: "('a \<Rightarrow> 'a \<Rightarrow> bool) \<Rightarrow> 'a list \<Rightarrow> 'a list"
  assumes push_perm: "mset (push cmp xs) = mset xs"
    and pop_perm: "mset (pop cmp xs) = mset xs"
    and make_perm: "mset (make cmp xs) = mset xs"
    and push_order: "keyed cmp k (set (xs @ [x])) \<Longrightarrow> is_heap k xs \<Longrightarrow> is_heap k (push cmp (xs @ [x]))"
    and pop_order: "keyed cmp k (set xs) \<Longrightarrow> is_heap k xs \<Longrightarrow> is_heap k (butlast (pop cmp xs))"
    and pop_front: "keyed cmp k (set xs) \<Longrightarrow> is_heap k xs \<Longrightarrow> xs \<noteq> [] \<Longrightarrow> last (pop cmp xs) = xs ! 0"
    and make_order: "keyed cmp k (set xs) \<Longrightarrow> is_heap k (make cmp xs)"
begin

lemma front_least:
  assumes "is_heap k xs" "x \<in> set xs"
  shows "k (xs ! 0) \<le> k x"
  using assms heap_front_least [of k "length xs" xs] by (auto simp: is_heap_def in_set_conv_nth)

text \<open>After the top is popped off, every remaining element is at least as late as it.\<close>

lemma pop_split:
  assumes "keyed cmp k (set xs)" "is_heap k xs" "xs \<noteq> []"
  shows "mset xs = add_mset (xs ! 0) (mset (butlast (pop cmp xs)))"
proof -
  have "pop cmp xs \<noteq> []" using assms(3) pop_perm [of cmp xs] by auto
  then have "mset (butlast (pop cmp xs) @ [last (pop cmp xs)]) = mset (pop cmp xs)" by simp
  then have "mset (pop cmp xs) = add_mset (last (pop cmp xs)) (mset (butlast (pop cmp xs)))" by simp
  then show ?thesis using pop_front [OF assms] pop_perm by metis
qed

end

interpretation heap: std_heap push_heap pop_heap make_heap
  by unfold_locales (simp_all add: push_heap_heap pop_heap_heap make_heap_heap pop_heap_last
      del: set_append)

section \<open>SortStrategy.h\<close>

text \<open>\<open>HeapSortStrategy::add_sorted\<close>, the one strategy in use (by the timer queue).\<close>

definition heap_add_sorted :: "('a \<Rightarrow> 'a \<Rightarrow> bool) \<Rightarrow> 'a \<Rightarrow> 'a list \<Rightarrow> 'a list" where
  "heap_add_sorted cmp x xs = push_heap cmp (xs @ [x])"

end
