(* ===== verification/Timer_Core.thy ===== *)
theory Timer_Core
  imports Std_Heap
begin

text \<open>
  The data of the timer subsystem and its storage: unit helpers (\<open>Timer/TimerUnits.h\<close>), the
  time comparisons and bitmap helpers (\<open>Timer/Optimization/TimerAsm.h\<close>), the generational
  identifiers and nodes (\<open>Timer/TimerTypes.h\<close>), and the pool with its free, active and paused
  lists (\<open>Timer/TimerStorage.h\<close>). \<open>unsigned long\<close> is 32 bits wide, as on the target. Pointers
  into the pool are pool indices; the static arrays of pointers are lists of at most
  \<open>MaxTimers\<close> elements (theory \<open>Static_Array\<close> shows that this is what they are).
\<close>

section \<open>Units\<close>

definition seconds :: "u32 \<Rightarrow> u32" where "seconds s = s * 1000"
definition minutes :: "u32 \<Rightarrow> u32" where "minutes m = m * 60000"
definition hours :: "u32 \<Rightarrow> u32" where "hours h = h * 3600000"
definition days :: "u32 \<Rightarrow> u32" where "days d = d * 86400000"

section \<open>Comparisons and bitmaps\<close>

text \<open>The Xtensa instruction sequence: subtract, extract bit 31, \<open>1 -\<close> that bit.\<close>

definition is_timer_expired :: "u32 \<Rightarrow> u32 \<Rightarrow> bool" where
  "is_timer_expired current_time next_ms =
     (let a4 = current_time - next_ms; a4 = drop_bit 31 a4 AND 1; res = 1 - a4 in res \<noteq> 0)"

text \<open>The C++ branch for other targets.\<close>

definition is_timer_expired_generic :: "u32 \<Rightarrow> u32 \<Rightarrow> bool" where
  "is_timer_expired_generic current_time next_ms \<longleftrightarrow> next_ms \<le> current_time"

definition timer_due :: "u32 \<Rightarrow> u32 \<Rightarrow> bool" where
  "timer_due current deadline = is_timer_expired current deadline"

definition calculate_drift :: "u32 \<Rightarrow> u32 \<Rightarrow> int" where
  "calculate_drift current scheduled = sint (current - scheduled)"

definition test_bitmap_bit :: "u32 \<Rightarrow> nat \<Rightarrow> bool" where
  "test_bitmap_bit bitmap index = (if 32 \<le> index then False else (bitmap AND push_bit index 1) \<noteq> 0)"

definition set_bitmap_bit :: "u32 \<Rightarrow> nat \<Rightarrow> u32" where
  "set_bitmap_bit bitmap index = (if 32 \<le> index then bitmap else bitmap OR push_bit index 1)"

definition clear_bitmap_bit :: "u32 \<Rightarrow> nat \<Rightarrow> u32" where
  "clear_bitmap_bit bitmap index = (if 32 \<le> index then bitmap else bitmap AND NOT (push_bit index 1))"

section \<open>Identifiers and nodes\<close>

definition getIndex :: "u32 \<Rightarrow> u16" where "getIndex v = ucast (v AND 0xFFFF)"
definition getGeneration :: "u32 \<Rightarrow> u16" where "getGeneration v = ucast (drop_bit 16 v AND 0xFFFF)"

definition make_id :: "u16 \<Rightarrow> u16 \<Rightarrow> u32" where
  "make_id gen index = push_bit 16 (ucast gen) OR ucast index"

definition INVALID_TIMER_ID :: u32 where "INVALID_TIMER_ID = 0"

datatype timer_state = Inactive | Active | Paused | Processing

record 'cb timer_node =
  nd_id :: u32
  next_call_ms :: u32
  interval_ms :: u32
  nd_state :: timer_state
  is_interval :: bool
  repeat_count :: int
  remaining_ms :: u32
  pause_requested :: bool
  remove_requested :: bool
  is_until :: bool
  until_timeout_ms :: u32
  callback :: "'cb option"
  until_callback :: "'cb option"
  until_timeout_callback :: "'cb option"

definition node_reset :: "u32 \<Rightarrow> u32 \<Rightarrow> u32 \<Rightarrow> bool \<Rightarrow> int \<Rightarrow> 'cb timer_node \<Rightarrow> 'cb timer_node" where
  "node_reset i nxt intv is_intv repeats nd = nd\<lparr>nd_id := i, next_call_ms := nxt, interval_ms := intv,
     nd_state := Active, is_interval := is_intv, repeat_count := repeats, remaining_ms := 0,
     pause_requested := False, remove_requested := False, is_until := False\<rparr>"

text \<open>Destruction and in-place construction: members without an initialiser keep their bytes.\<close>

definition node_reconstruct :: "'cb timer_node \<Rightarrow> 'cb timer_node" where
  "node_reconstruct nd = nd\<lparr>nd_state := Inactive, pause_requested := False, remove_requested := False,
     is_until := False, callback := None, until_callback := None, until_timeout_callback := None\<rparr>"

section \<open>Storage\<close>

record 'cb timer_storage =
  pool :: "'cb timer_node list"
  free_nodes :: "nat list"
  active_timers :: "nat list"
  paused_timers :: "nat list"
  generation_counter :: u16
  timeout_count :: u16
  interval_count :: u16

definition blank_node :: "'cb timer_node" where
  "blank_node = \<lparr>nd_id = 0, next_call_ms = 0, interval_ms = 0, nd_state = Inactive, is_interval = False,
     repeat_count = 0, remaining_ms = 0, pause_requested = False, remove_requested = False,
     is_until = False, until_timeout_ms = 0, callback = None, until_callback = None,
     until_timeout_callback = None\<rparr>"

definition TimerStorage :: "nat \<Rightarrow> 'cb timer_storage" where
  "TimerStorage MaxTimers = \<lparr>pool = replicate MaxTimers blank_node, free_nodes = [0..<MaxTimers],
     active_timers = [], paused_timers = [], generation_counter = 0, timeout_count = 0,
     interval_count = 0\<rparr>"

definition push_ptr :: "nat \<Rightarrow> nat \<Rightarrow> nat list \<Rightarrow> nat list" where
  "push_ptr MaxTimers i xs = (if length xs < MaxTimers then xs @ [i] else xs)"

definition max_timers :: "('cb, 'z) timer_storage_scheme \<Rightarrow> nat" where
  "max_timers st = length (pool st)"

definition node :: "('cb, 'z) timer_storage_scheme \<Rightarrow> nat \<Rightarrow> 'cb timer_node" where
  "node st i = pool st ! i"

definition upd_node ::
  "nat \<Rightarrow> ('cb timer_node \<Rightarrow> 'cb timer_node) \<Rightarrow> ('cb, 'z) timer_storage_scheme \<Rightarrow> ('cb, 'z) timer_storage_scheme" where
  "upd_node i f st = st\<lparr>pool := (pool st)[i := f (pool st ! i)]\<rparr>"

definition next_generation :: "u16 \<Rightarrow> u16" where
  "next_generation g = (if g + 1 = 0 then g + 1 + 1 else g + 1)"

definition allocateNode ::
  "('cb, 'z) timer_storage_scheme \<Rightarrow> (nat \<times> u32) option \<times> ('cb, 'z) timer_storage_scheme" where
  "allocateNode st =
     (if free_nodes st = [] then (None, st)
      else let i = last (free_nodes st); gen = next_generation (generation_counter st)
           in (Some (i, make_id gen (of_nat i)),
               st\<lparr>free_nodes := butlast (free_nodes st), generation_counter := gen\<rparr>))"

definition freeNode :: "nat \<Rightarrow> ('cb, 'z) timer_storage_scheme \<Rightarrow> ('cb, 'z) timer_storage_scheme" where
  "freeNode i st =
     (let st = upd_node i node_reconstruct st
      in st\<lparr>free_nodes := push_ptr (max_timers st) i (free_nodes st)\<rparr>)"

text \<open>\<open>(long)(a->next_call_ms - b->next_call_ms) > 0\<close>: the min-heap comparison.\<close>

definition node_later :: "('cb, 'z) timer_storage_scheme \<Rightarrow> nat \<Rightarrow> nat \<Rightarrow> bool" where
  "node_later st a b \<longleftrightarrow> 0 < sint (next_call_ms (node st a) - next_call_ms (node st b))"

definition addActiveNode :: "nat \<Rightarrow> ('cb, 'z) timer_storage_scheme \<Rightarrow> ('cb, 'z) timer_storage_scheme" where
  "addActiveNode i st =
     (if length (active_timers st) = max_timers st then freeNode i st
      else st\<lparr>active_timers := heap_add_sorted (node_later st) i (active_timers st)\<rparr>)"

definition lookup :: "u32 \<Rightarrow> ('cb, 'z) timer_storage_scheme \<Rightarrow> nat option" where
  "lookup i st =
     (if i = 0 then None
      else let index = unat (getIndex i)
           in if max_timers st \<le> index then None
              else if nd_id (node st index) = i \<and> nd_state (node st index) \<noteq> Inactive then Some index
              else None)"

definition removeActiveNode ::
  "nat \<Rightarrow> ('cb, 'z) timer_storage_scheme \<Rightarrow> bool \<times> ('cb, 'z) timer_storage_scheme" where
  "removeActiveNode i st =
     (if i \<in> set (active_timers st)
      then (True, st\<lparr>active_timers := make_heap (node_later st) (remove1 i (active_timers st))\<rparr>)
      else (False, st))"

definition removePausedNode ::
  "nat \<Rightarrow> ('cb, 'z) timer_storage_scheme \<Rightarrow> bool \<times> ('cb, 'z) timer_storage_scheme" where
  "removePausedNode i st =
     (if i \<in> set (paused_timers st)
      then (True, st\<lparr>paused_timers := remove1 i (paused_timers st)\<rparr>) else (False, st))"

definition clear_storage :: "('cb, 'z) timer_storage_scheme \<Rightarrow> ('cb, 'z) timer_storage_scheme" where
  "clear_storage st = st\<lparr>active_timers := [], paused_timers := [], generation_counter := 0,
     pool := map (nd_state_update (\<lambda>_. Inactive)) (pool st), free_nodes := [0..<max_timers st],
     timeout_count := 0, interval_count := 0\<rparr>"

definition timer_count :: "('cb, 'z) timer_storage_scheme \<Rightarrow> nat" where
  "timer_count st = length (active_timers st) + length (paused_timers st)"

definition inc_kind :: "bool \<Rightarrow> ('cb, 'z) timer_storage_scheme \<Rightarrow> ('cb, 'z) timer_storage_scheme" where
  "inc_kind intv st =
     (if intv then st\<lparr>interval_count := interval_count st + 1\<rparr>
      else st\<lparr>timeout_count := timeout_count st + 1\<rparr>)"

definition dec_kind :: "bool \<Rightarrow> ('cb, 'z) timer_storage_scheme \<Rightarrow> ('cb, 'z) timer_storage_scheme" where
  "dec_kind intv st =
     (if intv then (if 0 < interval_count st then st\<lparr>interval_count := interval_count st - 1\<rparr> else st)
      else (if 0 < timeout_count st then st\<lparr>timeout_count := timeout_count st - 1\<rparr> else st))"

section \<open>Due times across the wrap of the clock\<close>

lemma bit31_less: "drop_bit 31 (w :: u32) AND 1 = 0 \<longleftrightarrow> unat w < 2 ^ 31"
proof -
  have "unat w < 2 ^ LENGTH(32)" by (rule unsigned_less)
  then have w: "unat w < 2 ^ 32" by simp
  have "unat (drop_bit 31 w AND 1) = unat w div 2 ^ 31 mod 2"
    by (simp add: unsigned_and_eq unsigned_drop_bit_eq drop_bit_eq_div and_one_eq unsigned_take_bit_eq
        take_bit_drop_bit unat_div_distrib unat_mod_distrib)
  moreover have "unat w div 2 ^ 31 < 2" using w by (simp add: less_mult_imp_div_less)
  ultimately have "unat (drop_bit 31 w AND 1) = unat w div 2 ^ 31" by simp
  then have "drop_bit 31 w AND 1 = 0 \<longleftrightarrow> unat w div 2 ^ 31 = 0" by (metis unat_eq_zero)
  then show ?thesis by (simp add: div_eq_0_iff)
qed

lemma timer_due_iff: "timer_due now d \<longleftrightarrow> unat (now - d) < 2 ^ 31"
proof -
  let ?b = "drop_bit 31 (now - d) AND 1 :: u32"
  have "?b = 0 \<or> ?b = 1" by (simp add: and_one_eq mod_2_eq_odd)
  then show ?thesis using bit31_less [of "now - d"]
    by (auto simp: timer_due_def is_timer_expired_def Let_def)
qed

lemma bit31_iff: "bit (w :: u32) 31 \<longleftrightarrow> \<not> unat w < 2 ^ 31"
  using bit31_less [of w] by (auto simp: and_one_eq bit_iff_odd drop_bit_eq_div mod_2_eq_odd)

lemma uint_u32: "0 \<le> uint (w :: u32)" "uint (w :: u32) < 4294967296" "unat (w :: u32) = nat (uint w)"
proof -
  have "uint w < 2 ^ LENGTH(32)" by (rule unsigned_less)
  then show "uint w < 4294967296" by simp
qed simp_all

lemma sint_u32: "sint (w :: u32) = (if unat w < 2 ^ 31 then int (unat w) else int (unat w) - 2 ^ 32)"
proof -
  have u: "take_bit (Suc 31) (uint w) = uint w"
    using uint_u32 [of w] by (simp add: take_bit_int_eq_self)
  have s: "sint w = signed_take_bit 31 (uint w)" by (simp add: sint_uint)
  have b: "bit (uint w) 31 \<longleftrightarrow> \<not> unat w < 2 ^ 31"
    using bit31_iff [of w] by (simp add: bit_uint_iff)
  show ?thesis
    unfolding s signed_take_bit_eq_take_bit_minus u using b by auto
qed

lemma sint_pos_iff: "0 < sint (w :: u32) \<longleftrightarrow> w \<noteq> 0 \<and> unat w < 2 ^ 31"
proof -
  have "w \<noteq> 0 \<longleftrightarrow> uint w \<noteq> 0" by (simp add: uint_0_iff)
  then have "w \<noteq> 0 \<longleftrightarrow> 0 < uint w" using uint_u32(1) [of w] by linarith
  then show ?thesis using uint_u32 [of w] by (auto simp: sint_u32)
qed

text \<open>A window of half the clock's range: relative to its start, the circular comparisons are the
  comparisons of elapsed times.\<close>

lemma window_diff:
  fixes a b base :: u32
  assumes "unat (a - base) < 2 ^ 31" "unat (b - base) < 2 ^ 31"
  shows "unat (a - b) < 2 ^ 31 \<longleftrightarrow> unat (b - base) \<le> unat (a - base)"
proof -
  have eq: "a - b = (a - base) - (b - base)" by simp
  show ?thesis
  proof (cases "unat (b - base) \<le> unat (a - base)")
    case True
    then have "unat (a - b) = unat (a - base) - unat (b - base)"
      unfolding eq by (subst unat_sub) (simp_all add: word_le_nat_alt)
    then show ?thesis using True assms by simp
  next
    case False
    then have "unat (a - b) = 2 ^ 32 + unat (a - base) - unat (b - base)"
      unfolding eq by (subst unat_sub_if_size) (simp add: word_size)
    then show ?thesis using False assms by simp
  qed
qed

lemma window_later:
  fixes a b base :: u32
  assumes "unat (a - base) < 2 ^ 31" "unat (b - base) < 2 ^ 31"
  shows "0 < sint (a - b) \<longleftrightarrow> unat (b - base) < unat (a - base)"
proof -
  have "a = b \<longleftrightarrow> unat (a - base) = unat (b - base)" by (simp add: word_unat_eq_iff [symmetric])
  then show ?thesis using window_diff [OF assms] by (auto simp: sint_pos_iff)
qed

section \<open>Identifiers\<close>

lemma low_half_mask: "(0xFFFF :: u32) = mask 16"
  by (simp add: mask_eq_exp_minus_1)

lemma getIndex_make_id [simp]: "getIndex (make_id g i) = i"
  by (rule bit_word_eqI) (auto simp: getIndex_def make_id_def low_half_mask bit_simps)

lemma getGeneration_make_id [simp]: "getGeneration (make_id g i) = g"
  by (rule bit_word_eqI) (auto simp: getGeneration_def make_id_def low_half_mask bit_simps dest: bit_imp_le_length)

lemma make_id_inject [simp]: "make_id g i = make_id h j \<longleftrightarrow> g = h \<and> i = j"
  by (metis getGeneration_make_id getIndex_make_id)

lemma make_id_nonzero: "g \<noteq> 0 \<Longrightarrow> make_id g i \<noteq> 0"
  by (metis getGeneration_make_id getGeneration_def bit.conj_zero_left drop_bit_of_0 unsigned_0)

lemma next_generation_nonzero [simp]: "next_generation g \<noteq> 0"
  by (simp add: next_generation_def)

end
