(* ===== verification/Timer_Manager.thy ===== *)
theory Timer_Manager
  imports Timer_Core
begin

text \<open>
  The timer manager and its processing loop (\<open>Timer/TimerManager.h\<close>, \<open>Timer/TimerProcessor.h\<close>,
  \<open>Timer/TimerCore.h\<close>) and the facade's \<open>tick\<close> (\<open>Timer/Timer.h\<close>), in the configuration of
  \<open>TimerConfig.h\<close>: of the events only \<open>TIMER_EVENT_EXPIRED\<close> is compiled in, and
  \<open>TIMER_ENABLE_INTERVAL_UNTIL\<close> is on.
  What the user supplies is an environment: the time source (its n-th reading), what the callbacks
  do when they run (a sequence of calls to the timer's public interface and, for the callbacks of
  \<open>set_interval_until\<close>, a Boolean; it may depend on how many user functions ran before), and
  what the listeners of the expired event do.
\<close>

section \<open>State and environment\<close>

datatype 'cb timer_event =
    ExpiredEvent (ev_id: u32) (ev_scheduled: u32) (ev_time: u32) (ev_drift: int) (ev_is_interval: bool)
  | Ran (ran_id: u32) (ran_callback: 'cb)

record 'cb timer_manager = "'cb timer_storage" +
  reads :: nat
  steps :: nat
  log :: "'cb timer_event list"

datatype 'cb timer_cmd =
    SetTimeout 'cb u32
  | SetInterval 'cb u32 int
  | SetUntil 'cb u32
  | SetUntilTimeout 'cb u32 "'cb option" u32
  | ClearTimer u32
  | PauseTimer u32
  | ResumeTimer u32
  | NestedTick

record 'cb timer_env =
  time_source :: "nat \<Rightarrow> u32"
  behave :: "'cb \<Rightarrow> nat \<Rightarrow> 'cb timer_cmd list \<times> bool"
  listeners :: "(nat \<Rightarrow> 'cb timer_cmd list) option"

definition TimerManager :: "nat \<Rightarrow> 'cb timer_manager" where
  "TimerManager MaxTimers = timer_storage.extend (TimerStorage MaxTimers) \<lparr>reads = 0, steps = 0, log = []\<rparr>"

definition core_now :: "'cb timer_env \<Rightarrow> 'cb timer_manager \<Rightarrow> u32 \<times> 'cb timer_manager" where
  "core_now env m = (time_source env (reads m), m\<lparr>reads := reads m + 1\<rparr>)"

section \<open>Adding timers\<close>

definition finalizeNode :: "nat \<Rightarrow> 'cb timer_manager \<Rightarrow> 'cb timer_manager" where
  "finalizeNode i m = addActiveNode i (inc_kind (is_interval (node m i)) m)"

definition add_timeout :: "'cb timer_env \<Rightarrow> 'cb option \<Rightarrow> u32 \<Rightarrow> 'cb timer_manager \<Rightarrow> u32 \<times> 'cb timer_manager" where
  "add_timeout env cb timeout m =
     (case allocateNode m of
        (None, m) \<Rightarrow> (INVALID_TIMER_ID, m)
      | (Some (i, tid), m) \<Rightarrow>
          let (now, m) = core_now env m;
              m = upd_node i (node_reset tid (now + timeout) 0 False 1) m;
              m = upd_node i (callback_update (\<lambda>_. cb)) m
          in (tid, finalizeNode i m))"

definition add_interval ::
  "'cb timer_env \<Rightarrow> 'cb option \<Rightarrow> u32 \<Rightarrow> int \<Rightarrow> 'cb timer_manager \<Rightarrow> u32 \<times> 'cb timer_manager" where
  "add_interval env cb interval repeats m =
     (case allocateNode m of
        (None, m) \<Rightarrow> (INVALID_TIMER_ID, m)
      | (Some (i, tid), m) \<Rightarrow>
          let (now, m) = core_now env m;
              m = upd_node i (node_reset tid (now + interval) interval True
                    (if repeats = 0 then - 1 else repeats)) m;
              m = upd_node i (callback_update (\<lambda>_. cb)) m
          in (tid, finalizeNode i m))"

definition add_interval_until ::
  "'cb timer_env \<Rightarrow> 'cb option \<Rightarrow> u32 \<Rightarrow> 'cb timer_manager \<Rightarrow> u32 \<times> 'cb timer_manager" where
  "add_interval_until env cb interval m =
     (case allocateNode m of
        (None, m) \<Rightarrow> (INVALID_TIMER_ID, m)
      | (Some (i, tid), m) \<Rightarrow>
          let (now, m) = core_now env m;
              m = upd_node i (node_reset tid (now + interval) interval True (- 1)) m;
              m = upd_node i (\<lambda>nd. nd\<lparr>is_until := True, until_callback := cb,
                    until_timeout_callback := None, until_timeout_ms := 0\<rparr>) m
          in (tid, finalizeNode i m))"

definition add_interval_until_with_timeout ::
  "'cb timer_env \<Rightarrow> 'cb option \<Rightarrow> u32 \<Rightarrow> 'cb option \<Rightarrow> u32 \<Rightarrow> 'cb timer_manager \<Rightarrow> u32 \<times> 'cb timer_manager" where
  "add_interval_until_with_timeout env cb interval on_timeout timeout m =
     (case allocateNode m of
        (None, m) \<Rightarrow> (INVALID_TIMER_ID, m)
      | (Some (i, tid), m) \<Rightarrow>
          let (now, m) = core_now env m;
              m = upd_node i (node_reset tid (now + interval) interval True (- 1)) m;
              (now2, m) = core_now env m;
              m = upd_node i (\<lambda>nd. nd\<lparr>is_until := True, until_callback := cb,
                    until_timeout_callback := on_timeout, until_timeout_ms := now2 + timeout\<rparr>) m
          in (tid, finalizeNode i m))"

section \<open>Removing, pausing, resuming\<close>

definition freeFinishedNode :: "nat \<Rightarrow> 'cb timer_manager \<Rightarrow> 'cb timer_manager" where
  "freeFinishedNode i m = freeNode i (dec_kind (is_interval (node m i)) m)"

definition remove_timer :: "u32 \<Rightarrow> 'cb timer_manager \<Rightarrow> bool \<times> 'cb timer_manager" where
  "remove_timer tid m =
     (case lookup tid m of
        None \<Rightarrow> (False, m)
      | Some i \<Rightarrow>
          if nd_state (node m i) = Processing
          then (True, upd_node i (remove_requested_update (\<lambda>_. True)) m)
          else let m = (if nd_state (node m i) = Active then snd (removeActiveNode i m)
                        else if nd_state (node m i) = Paused then snd (removePausedNode i m) else m);
                   m = dec_kind (is_interval (node m i)) m
               in (True, freeNode i m))"

definition remaining_at :: "u32 \<Rightarrow> 'cb timer_node \<Rightarrow> u32" where
  "remaining_at now nd = (if timer_due now (next_call_ms nd) then 0 else next_call_ms nd - now)"

definition pause :: "'cb timer_env \<Rightarrow> u32 \<Rightarrow> 'cb timer_manager \<Rightarrow> bool \<times> 'cb timer_manager" where
  "pause env tid m =
     (case lookup tid m of
        None \<Rightarrow> (False, m)
      | Some i \<Rightarrow>
          if nd_state (node m i) = Paused then (False, m)
          else if nd_state (node m i) = Processing
          then (True, upd_node i (pause_requested_update (\<lambda>_. True)) m)
          else if nd_state (node m i) \<noteq> Active then (False, m)
          else let (now, m) = core_now env m;
                   m = upd_node i (\<lambda>nd. nd\<lparr>remaining_ms := remaining_at now nd, nd_state := Paused\<rparr>) m;
                   m = snd (removeActiveNode i m)
               in (True, m\<lparr>paused_timers := push_ptr (max_timers m) i (paused_timers m)\<rparr>))"

definition resume :: "'cb timer_env \<Rightarrow> u32 \<Rightarrow> 'cb timer_manager \<Rightarrow> bool \<times> 'cb timer_manager" where
  "resume env tid m =
     (case lookup tid m of
        None \<Rightarrow> (False, m)
      | Some i \<Rightarrow>
          if nd_state (node m i) \<noteq> Paused then (False, m)
          else let m = snd (removePausedNode i m);
                   (now, m) = core_now env m;
                   m = upd_node i (\<lambda>nd. nd\<lparr>next_call_ms := now + remaining_ms nd, nd_state := Active\<rparr>) m
               in (True, addActiveNode i m))"

definition isPaused :: "u32 \<Rightarrow> 'cb timer_manager \<Rightarrow> bool" where
  "isPaused tid m = (case lookup tid m of None \<Rightarrow> False | Some i \<Rightarrow> nd_state (node m i) = Paused)"

definition getNextExpiry :: "'cb timer_manager \<Rightarrow> u32 option" where
  "getNextExpiry m =
     (if active_timers m = [] then None else Some (next_call_ms (node m (active_timers m ! 0))))"

definition clear_manager :: "'cb timer_manager \<Rightarrow> 'cb timer_manager" where
  "clear_manager m = clear_storage m"

section \<open>The processing loop\<close>

text \<open>What user code may call; a tick inside a tick returns at once (\<open>tick_in_progress_\<close>).\<close>

fun exec_cmd :: "'cb timer_env \<Rightarrow> 'cb timer_cmd \<Rightarrow> 'cb timer_manager \<Rightarrow> 'cb timer_manager" where
  "exec_cmd env (SetTimeout cb t) m = snd (add_timeout env (Some cb) t m)"
| "exec_cmd env (SetInterval cb t n) m = snd (add_interval env (Some cb) t n m)"
| "exec_cmd env (SetUntil cb t) m = snd (add_interval_until env (Some cb) t m)"
| "exec_cmd env (SetUntilTimeout cb t cb2 t2) m =
     snd (add_interval_until_with_timeout env (Some cb) t cb2 t2 m)"
| "exec_cmd env (ClearTimer tid) m = snd (remove_timer tid m)"
| "exec_cmd env (PauseTimer tid) m = snd (pause env tid m)"
| "exec_cmd env (ResumeTimer tid) m = snd (resume env tid m)"
| "exec_cmd env NestedTick m = m"

definition exec_cmds :: "'cb timer_env \<Rightarrow> 'cb timer_cmd list \<Rightarrow> 'cb timer_manager \<Rightarrow> 'cb timer_manager" where
  "exec_cmds env cs m = fold (exec_cmd env) cs m"

definition invoke :: "'cb timer_env \<Rightarrow> u32 \<Rightarrow> 'cb \<Rightarrow> 'cb timer_manager \<Rightarrow> bool \<times> 'cb timer_manager" where
  "invoke env tid cb m =
     (let (cs, r) = behave env cb (steps m);
          m = m\<lparr>steps := steps m + 1, log := log m @ [Ran tid cb]\<rparr>
      in (r, exec_cmds env cs m))"

definition dispatch_expired :: "'cb timer_env \<Rightarrow> u32 \<Rightarrow> nat \<Rightarrow> 'cb timer_manager \<Rightarrow> 'cb timer_manager" where
  "dispatch_expired env t i m =
     (case listeners env of
        None \<Rightarrow> m
      | Some l \<Rightarrow>
          let nd = node m i;
              e = ExpiredEvent (nd_id nd) (next_call_ms nd) t (calculate_drift t (next_call_ms nd)) (is_interval nd);
              cs = l (steps m);
              m = m\<lparr>steps := steps m + 1, log := log m @ [e]\<rparr>
          in exec_cmds env cs m)"

text \<open>The first loop of \<open>TimerProcessor::process\<close>: due timers go from the heap to the execution
  queue. Its guard compares the number popped with the number \<^emph>\<open>left\<close> in the heap.\<close>

definition mark_processing :: "'cb timer_node \<Rightarrow> 'cb timer_node" where
  "mark_processing nd = nd\<lparr>nd_state := Processing, pause_requested := False, remove_requested := False\<rparr>"

function collect_due :: "u32 \<Rightarrow> nat \<Rightarrow> nat list \<Rightarrow> 'cb timer_manager \<Rightarrow> nat list \<times> 'cb timer_manager" where
  "collect_due t expired queue m =
     (if expired < length (active_timers m) \<and> timer_due t (next_call_ms (node m (active_timers m ! 0)))
      then let top = active_timers m ! 0;
               m = m\<lparr>active_timers := butlast (pop_heap (node_later m) (active_timers m))\<rparr>;
               m = upd_node top mark_processing m
           in collect_due t (expired + 1) (push_ptr (max_timers m) top queue) m
      else (queue, m))"
  by pat_completeness auto
termination
  by (relation "measure (\<lambda>(t, e, q, m). length (active_timers m))") (auto simp: upd_node_def Let_def)

declare collect_due.simps [simp del]

text \<open>The user callback of one timer, and whether the timer stops.\<close>

definition run_callback :: "'cb timer_env \<Rightarrow> u32 \<Rightarrow> nat \<Rightarrow> 'cb timer_manager \<Rightarrow> bool \<times> 'cb timer_manager" where
  "run_callback env t i m =
     (let tid = nd_id (node m i); stop = \<not> is_interval (node m i)
      in if is_until (node m i)
         then (case until_callback (node m i) of
                 None \<Rightarrow> (stop, m)
               | Some cb \<Rightarrow>
                   let (r, m) = invoke env tid cb m
                   in if r then (True, m)
                      else (case until_timeout_callback (node m i) of
                              None \<Rightarrow> (False, m)
                            | Some cb2 \<Rightarrow>
                                if timer_due t (until_timeout_ms (node m i))
                                then (True, snd (invoke env tid cb2 m)) else (False, m)))
         else (case callback (node m i) of
                 None \<Rightarrow> (stop, m)
               | Some cb \<Rightarrow> (stop, snd (invoke env tid cb m))))"

definition count_repeat :: "nat \<Rightarrow> bool \<Rightarrow> 'cb timer_manager \<Rightarrow> bool \<times> 'cb timer_manager" where
  "count_repeat i stop m =
     (if 0 < repeat_count (node m i)
      then let m = upd_node i (\<lambda>nd. nd\<lparr>repeat_count := repeat_count nd - 1\<rparr>) m
           in (if repeat_count (node m i) = 0 then True else stop, m)
      else (stop, m))"

definition settle :: "'cb timer_env \<Rightarrow> u32 \<Rightarrow> nat \<Rightarrow> bool \<Rightarrow> 'cb timer_manager \<Rightarrow> 'cb timer_manager" where
  "settle env t i stop m =
     (if remove_requested (node m i) then freeFinishedNode i m
      else if pause_requested (node m i)
      then let m = upd_node i (nd_state_update (\<lambda>_. Paused)) m;
               (now, m) = core_now env m;
               m = upd_node i (\<lambda>nd. nd\<lparr>remaining_ms := remaining_at now nd\<rparr>) m
           in m\<lparr>paused_timers := push_ptr (max_timers m) i (paused_timers m)\<rparr>
      else if \<not> stop
      then addActiveNode i
             (upd_node i (\<lambda>nd. nd\<lparr>next_call_ms := t + interval_ms nd, nd_state := Active\<rparr>) m)
      else freeFinishedNode i m)"

definition run_node :: "'cb timer_env \<Rightarrow> u32 \<Rightarrow> nat \<Rightarrow> 'cb timer_manager \<Rightarrow> 'cb timer_manager" where
  "run_node env t i m =
     (let m = dispatch_expired env t i m;
          (stop, m) = run_callback env t i m;
          (stop, m) = count_repeat i stop m
      in settle env t i stop m)"

definition process_timers :: "'cb timer_env \<Rightarrow> u32 \<Rightarrow> 'cb timer_manager \<Rightarrow> 'cb timer_manager" where
  "process_timers env t m = (let (queue, m) = collect_due t 0 [] m in fold (run_node env t) queue m)"

text \<open>\<open>TimerBase::tick\<close> when no other tick is in progress.\<close>

definition tick :: "'cb timer_env \<Rightarrow> 'cb timer_manager \<Rightarrow> 'cb timer_manager" where
  "tick env m =
     (case getNextExpiry m of
        None \<Rightarrow> m
      | Some next_expiry \<Rightarrow>
          let (cached_time, m) = core_now env m
          in if \<not> is_timer_expired cached_time next_expiry then m else process_timers env cached_time m)"

end
