(* ===== verification/Timer_Invariant.thy ===== *)
theory Timer_Invariant
  imports Timer_Manager
begin

text \<open>
  The ownership invariant of the timer pool: at every moment each node of the pool is in exactly
  one of the free, active and paused lists and the execution queue, the one its state names; the
  nodes in use carry an identifier of their own index with a nonzero generation; the two counters
  count the timeouts and intervals in use. Every public operation, every callback built from them
  and the whole processing loop keep it.
\<close>

section \<open>Where the nodes are\<close>

definition idx :: "'cb timer_node list \<Rightarrow> timer_state \<Rightarrow> nat multiset" where
  "idx pl s = mset_set {i. i < length pl \<and> nd_state (pl ! i) = s}"

definition parts ::
  "'cb timer_node list \<Rightarrow> nat multiset \<Rightarrow> nat multiset \<Rightarrow> nat multiset \<Rightarrow> nat multiset \<Rightarrow> bool" where
  "parts pl F A P Q \<longleftrightarrow> F = idx pl Inactive \<and> A = idx pl Active \<and> P = idx pl Paused \<and> Q = idx pl Processing"

definition kind_count :: "'cb timer_node list \<Rightarrow> bool \<Rightarrow> nat" where
  "kind_count pl b = length (filter (\<lambda>nd. nd_state nd \<noteq> Inactive \<and> is_interval nd = b) pl)"

definition node_id_ok :: "nat \<Rightarrow> 'cb timer_node \<Rightarrow> bool" where
  "node_id_ok i nd \<longleftrightarrow> getIndex (nd_id nd) = of_nat i \<and> getGeneration (nd_id nd) \<noteq> 0"

definition ids_ok :: "'cb timer_node list \<Rightarrow> bool" where
  "ids_ok pl \<longleftrightarrow> (\<forall>i<length pl. nd_state (pl ! i) \<noteq> Inactive \<longrightarrow> node_id_ok i (pl ! i))"

definition timer_inv :: "nat list \<Rightarrow> ('cb, 'z) timer_storage_scheme \<Rightarrow> bool" where
  "timer_inv q m \<longleftrightarrow> length (pool m) < 2 ^ 16 \<and>
     parts (pool m) (mset (free_nodes m)) (mset (active_timers m)) (mset (paused_timers m)) (mset q) \<and>
     unat (interval_count m) = kind_count (pool m) True \<and>
     unat (timeout_count m) = kind_count (pool m) False \<and> ids_ok (pool m)"

lemma set_idx [simp]: "set_mset (idx pl s) = {i. i < length pl \<and> nd_state (pl ! i) = s}"
  by (auto simp: idx_def)

lemma count_idx: "count (idx pl s) i = (if i < length pl \<and> nd_state (pl ! i) = s then 1 else 0)"
  by (simp add: idx_def)

lemma idx_update:
  assumes "i < length pl"
  shows "idx (pl[i := nd]) s =
    (if nd_state nd = s then add_mset i (idx pl s - {#i#}) else idx pl s - {#i#})"
  using assms by (intro multiset_eqI) (auto simp: count_idx nth_list_update)

lemma idx_remove_absent: "nd_state (pl ! i) \<noteq> s \<Longrightarrow> idx pl s - {#i#} = idx pl s"
  by (rule diff_single_trivial) auto

lemma parts_move:
  assumes "parts pl F A P Q" "i < length pl" "nd_state (pl ! i) = a" "nd_state nd = b" "a \<noteq> b"
  shows "parts (pl[i := nd])
    (if b = Inactive then add_mset i F else if a = Inactive then F - {#i#} else F)
    (if b = Active then add_mset i A else if a = Active then A - {#i#} else A)
    (if b = Paused then add_mset i P else if a = Paused then P - {#i#} else P)
    (if b = Processing then add_mset i Q else if a = Processing then Q - {#i#} else Q)"
  using assms by (auto simp: parts_def idx_update idx_remove_absent)

lemma parts_same:
  assumes "parts pl F A P Q" "nd_state nd = nd_state (pl ! i)"
  shows "parts (pl[i := nd]) F A P Q"
proof (cases "i < length pl")
  case True
  then have "idx (pl[i := nd]) s = idx pl s" for s
    using assms(2) by (auto simp: idx_update intro!: insert_DiffM idx_remove_absent)
  then show ?thesis using assms(1) by (simp add: parts_def)
next
  case False
  then show ?thesis using assms(1) by (simp add: list_update_beyond)
qed

lemma kind_count_le: "kind_count pl b \<le> length pl"
  by (simp add: kind_count_def)

lemma length_filter_update:
  "i < length xs \<Longrightarrow>
   length (filter P (xs[i := x])) + of_bool (P (xs ! i)) = length (filter P xs) + of_bool (P x)"
proof (induction xs arbitrary: i)
  case (Cons y ys)
  then show ?case by (cases i) auto
qed simp

lemma kind_count_update:
  assumes "i < length pl"
  shows "kind_count (pl[i := nd]) b + of_bool (nd_state (pl ! i) \<noteq> Inactive \<and> is_interval (pl ! i) = b) =
    kind_count pl b + of_bool (nd_state nd \<noteq> Inactive \<and> is_interval nd = b)"
  unfolding kind_count_def by (rule length_filter_update [OF assms])

lemma ids_ok_update:
  "ids_ok pl \<Longrightarrow> (nd_state nd \<noteq> Inactive \<Longrightarrow> i < length pl \<Longrightarrow> node_id_ok i nd) \<Longrightarrow> ids_ok (pl[i := nd])"
  by (cases "i < length pl") (auto simp: ids_ok_def nth_list_update)

section \<open>Consequences\<close>

lemma inv_in_free: "timer_inv q m \<Longrightarrow> i \<in> set (free_nodes m) \<longleftrightarrow> i < length (pool m) \<and> nd_state (node m i) = Inactive"
  by (simp add: timer_inv_def parts_def node_def flip: set_mset_mset)

lemma inv_in_active: "timer_inv q m \<Longrightarrow> i \<in> set (active_timers m) \<longleftrightarrow> i < length (pool m) \<and> nd_state (node m i) = Active"
  by (simp add: timer_inv_def parts_def node_def flip: set_mset_mset)

lemma inv_in_paused: "timer_inv q m \<Longrightarrow> i \<in> set (paused_timers m) \<longleftrightarrow> i < length (pool m) \<and> nd_state (node m i) = Paused"
  by (simp add: timer_inv_def parts_def node_def flip: set_mset_mset)

lemma inv_in_queue: "timer_inv q m \<Longrightarrow> i \<in> set q \<longleftrightarrow> i < length (pool m) \<and> nd_state (node m i) = Processing"
  by (simp add: timer_inv_def parts_def node_def flip: set_mset_mset)

lemma idx_size: "size (idx pl s) \<le> length pl"
  using card_mono [of "{..<length pl}" "{i. i < length pl \<and> nd_state (pl ! i) = s}"] by (auto simp: idx_def)

lemma idx_size_less:
  assumes "i < length pl" "nd_state (pl ! i) \<noteq> s"
  shows "size (idx pl s) < length pl"
proof -
  have "{i. i < length pl \<and> nd_state (pl ! i) = s} \<subset> {..<length pl}" using assms by auto
  then have "card {i. i < length pl \<and> nd_state (pl ! i) = s} < card {..<length pl}"
    by (intro psubset_card_mono) auto
  then show ?thesis by (simp add: idx_def)
qed

text \<open>A node that is not yet in a list always finds room there.\<close>

lemma inv_room:
  assumes "timer_inv q m" "i < length (pool m)"
  shows "nd_state (node m i) \<noteq> Inactive \<Longrightarrow> length (free_nodes m) < length (pool m)"
    and "nd_state (node m i) \<noteq> Active \<Longrightarrow> length (active_timers m) < length (pool m)"
    and "nd_state (node m i) \<noteq> Paused \<Longrightarrow> length (paused_timers m) < length (pool m)"
    and "nd_state (node m i) \<noteq> Processing \<Longrightarrow> length q < length (pool m)"
proof -
  have "mset (free_nodes m) = idx (pool m) Inactive" "mset (active_timers m) = idx (pool m) Active"
    "mset (paused_timers m) = idx (pool m) Paused" "mset q = idx (pool m) Processing"
    using assms(1) by (auto simp: timer_inv_def parts_def)
  then have len: "length (free_nodes m) = size (idx (pool m) Inactive)"
    "length (active_timers m) = size (idx (pool m) Active)"
    "length (paused_timers m) = size (idx (pool m) Paused)" "length q = size (idx (pool m) Processing)"
    by (metis size_mset)+
  note less = idx_size_less [OF assms(2)]
  show "nd_state (node m i) \<noteq> Inactive \<Longrightarrow> length (free_nodes m) < length (pool m)"
    "nd_state (node m i) \<noteq> Active \<Longrightarrow> length (active_timers m) < length (pool m)"
    "nd_state (node m i) \<noteq> Paused \<Longrightarrow> length (paused_timers m) < length (pool m)"
    "nd_state (node m i) \<noteq> Processing \<Longrightarrow> length q < length (pool m)"
    unfolding len node_def by (erule less)+
qed

section \<open>Every step keeps the invariant\<close>

text \<open>The general step: node \<open>i\<close> becomes \<open>nd\<close>, moving from the list of its old state to that of
  its new state, and the counters follow.\<close>

lemma timer_inv_step:
  assumes inv: "timer_inv q m" and i: "i < length (pool m)"
    and st: "nd_state (pool m ! i) = a" "nd_state nd = b" "a \<noteq> b"
    and pool: "pool m' = (pool m)[i := nd]"
    and free: "mset (free_nodes m') = (if b = Inactive then add_mset i (mset (free_nodes m))
      else if a = Inactive then mset (free_nodes m) - {#i#} else mset (free_nodes m))"
    and active: "mset (active_timers m') = (if b = Active then add_mset i (mset (active_timers m))
      else if a = Active then mset (active_timers m) - {#i#} else mset (active_timers m))"
    and paused: "mset (paused_timers m') = (if b = Paused then add_mset i (mset (paused_timers m))
      else if a = Paused then mset (paused_timers m) - {#i#} else mset (paused_timers m))"
    and queue: "mset q' = (if b = Processing then add_mset i (mset q)
      else if a = Processing then mset q - {#i#} else mset q)"
    and ints: "unat (interval_count m') + of_bool (a \<noteq> Inactive \<and> is_interval (pool m ! i)) =
      unat (interval_count m) + of_bool (b \<noteq> Inactive \<and> is_interval nd)"
    and tmos: "unat (timeout_count m') + of_bool (a \<noteq> Inactive \<and> \<not> is_interval (pool m ! i)) =
      unat (timeout_count m) + of_bool (b \<noteq> Inactive \<and> \<not> is_interval nd)"
    and ids: "b \<noteq> Inactive \<Longrightarrow> node_id_ok i nd"
  shows "timer_inv q' m'"
proof -
  note inv' = inv [unfolded timer_inv_def]
  have "parts (pool m') (mset (free_nodes m')) (mset (active_timers m')) (mset (paused_timers m')) (mset q')"
    unfolding pool free active paused queue using inv' by (intro parts_move [OF _ i st]) auto
  moreover have "unat (interval_count m') = kind_count (pool m') True"
    using kind_count_update [OF i, of nd True] ints inv' st pool by auto
  moreover have "unat (timeout_count m') = kind_count (pool m') False"
    using kind_count_update [OF i, of nd False] tmos inv' st pool by auto
  moreover have "ids_ok (pool m')"
    unfolding pool using inv' ids st by (intro ids_ok_update) auto
  ultimately show ?thesis using inv' pool by (simp add: timer_inv_def)
qed

text \<open>An update that leaves state, kind and identifier alone.\<close>

lemma timer_inv_same:
  assumes "timer_inv q m" and pool: "pool m' = (pool m)[i := nd]"
    and "nd_state nd = nd_state (pool m ! i)" "is_interval nd = is_interval (pool m ! i)"
      "nd_id nd = nd_id (pool m ! i)"
    and "free_nodes m' = free_nodes m" "active_timers m' = active_timers m"
      "paused_timers m' = paused_timers m" "interval_count m' = interval_count m"
      "timeout_count m' = timeout_count m"
  shows "timer_inv q m'"
proof (cases "i < length (pool m)")
  case True
  note inv = assms(1) [unfolded timer_inv_def]
  have "kind_count (pool m') b = kind_count (pool m) b" for b
    using kind_count_update [OF True, of nd b] assms(3,4) pool by simp
  moreover have "ids_ok (pool m')"
    unfolding pool using inv True assms(3,5)
    by (intro ids_ok_update) (auto simp: ids_ok_def node_id_ok_def)
  ultimately show ?thesis
    using inv assms parts_same [of "pool m" "mset (free_nodes m)" _ _ _ nd i] by (simp add: timer_inv_def)
next
  case False
  then have "pool m' = pool m" using pool by (simp add: list_update_beyond)
  then show ?thesis using assms by (simp add: timer_inv_def)
qed

lemma timer_inv_other [simp]:
  "timer_inv q (m\<lparr>reads := r\<rparr>) = timer_inv q m" "timer_inv q (m\<lparr>steps := s\<rparr>) = timer_inv q m"
  "timer_inv q (m\<lparr>log := l\<rparr>) = timer_inv q m" "timer_inv q (m\<lparr>generation_counter := g\<rparr>) = timer_inv q m"
  by (simp_all add: timer_inv_def)

lemma blank_pool:
  "idx (replicate n (blank_node :: 'cb timer_node)) s = (if s = Inactive then mset_set {0..<n} else {#})"
  "kind_count (replicate n (blank_node :: 'cb timer_node)) b = 0" "ids_ok (replicate n (blank_node :: 'cb timer_node))"
proof -
  have st: "nd_state (blank_node :: 'cb timer_node) = Inactive" by (simp add: blank_node_def)
  have "{i. i < n \<and> nd_state (replicate n (blank_node :: 'cb timer_node) ! i) = s} = (if s = Inactive then {0..<n} else {})"
    by (auto simp: st)
  then show "idx (replicate n (blank_node :: 'cb timer_node)) s = (if s = Inactive then mset_set {0..<n} else {#})"
    by (simp add: idx_def)
  show "kind_count (replicate n (blank_node :: 'cb timer_node)) b = 0" by (simp add: kind_count_def st)
  show "ids_ok (replicate n (blank_node :: 'cb timer_node))" by (simp add: ids_ok_def st)
qed

lemma timer_inv_TimerManager: "MaxTimers < 2 ^ 16 \<Longrightarrow> timer_inv [] (TimerManager MaxTimers)"
  by (simp add: timer_inv_def TimerManager_def TimerStorage_def timer_storage.extend_def parts_def blank_pool)

text \<open>The counters cannot wrap: they are bounded by the size of the pool.\<close>

lemma inv_count_inc:
  assumes "timer_inv q m" "i < length (pool m)" "nd_state (pool m ! i) = Inactive"
  shows "unat (interval_count m + 1) = Suc (unat (interval_count m))"
    and "unat (timeout_count m + 1) = Suc (unat (timeout_count m))"
proof -
  have "kind_count (pool m) b < length (pool m)" for b
    unfolding kind_count_def using assms(2,3) by (intro length_filter_less) (auto simp: in_set_conv_nth)
  then have lt: "kind_count (pool m) b < 65535" for b
    using assms(1) less_trans_Suc [of "kind_count (pool m) b" "length (pool m)" "2 ^ 16"]
    by (simp add: timer_inv_def)
  have ff: "unat (0xFFFF :: u16) = 65535" by simp
  have c: "unat (interval_count m) < unat (0xFFFF :: u16)" "unat (timeout_count m) < unat (0xFFFF :: u16)"
    unfolding ff using lt assms(1) by (auto simp: timer_inv_def)
  show "unat (interval_count m + 1) = Suc (unat (interval_count m))" by (rule unat_inc [OF c(1)])
  show "unat (timeout_count m + 1) = Suc (unat (timeout_count m))" by (rule unat_inc [OF c(2)])
qed

lemma inv_count_dec:
  assumes "timer_inv q m" "i < length (pool m)" "nd_state (pool m ! i) \<noteq> Inactive"
  shows "is_interval (pool m ! i) \<Longrightarrow> 0 < interval_count m \<and> unat (interval_count m - 1) + 1 = unat (interval_count m)"
    and "\<not> is_interval (pool m ! i) \<Longrightarrow> 0 < timeout_count m \<and> unat (timeout_count m - 1) + 1 = unat (timeout_count m)"
proof -
  have pos: "0 < kind_count (pool m) (is_interval (pool m ! i))"
    unfolding kind_count_def using assms(2,3) by (auto simp: length_filter_conv_card card_gt_0_iff)
  have dec: "0 < unat c \<Longrightarrow> 0 < c \<and> unat (c - 1) + 1 = unat c" for c :: u16
    by (simp add: unat_gt_0 unat_minus_one word_gt_0)
  show "is_interval (pool m ! i) \<Longrightarrow> 0 < interval_count m \<and> unat (interval_count m - 1) + 1 = unat (interval_count m)"
    "\<not> is_interval (pool m ! i) \<Longrightarrow> 0 < timeout_count m \<and> unat (timeout_count m - 1) + 1 = unat (timeout_count m)"
    using pos assms(1) by (intro dec; simp add: timer_inv_def)+
qed

lemmas fields = upd_node_def node_def max_timers_def core_now_def

lemma inv_start:
  assumes inv: "timer_inv q m" and ne: "free_nodes m \<noteq> []"
    and m1: "pool m1 = (pool m)[last (free_nodes m) := nd]" "free_nodes m1 = butlast (free_nodes m)"
      "active_timers m1 = active_timers m" "paused_timers m1 = paused_timers m"
      "interval_count m1 = interval_count m" "timeout_count m1 = timeout_count m"
    and nd: "nd_state nd = Active" "nd_id nd = make_id g (of_nat (last (free_nodes m)))" "g \<noteq> 0"
  shows "timer_inv q (finalizeNode (last (free_nodes m)) m1)"
proof -
  let ?i = "last (free_nodes m)"
  have "?i \<in> set (free_nodes m)" using ne by simp
  then have i: "?i < length (pool m)" "nd_state (pool m ! ?i) = Inactive"
    using inv_in_free [OF inv, of ?i] by (auto simp: node_def)
  have room: "length (active_timers m) < length (pool m)"
    using inv_room(2) [OF inv i(1)] i(2) by (simp add: node_def)
  have free: "mset (butlast (free_nodes m)) = mset (free_nodes m) - {#?i#}"
    using ne by (metis add_mset_remove_trivial append_butlast_last_id mset.simps(2) mset_append
        add.commute mset.simps(1) add_mset_add_single)
  note inc = inv_count_inc [OF inv i]
  show ?thesis
    by (rule timer_inv_step [OF inv i(1,2) nd(1), where m' = "finalizeNode ?i m1"])
      (use m1 i room free inc nd in \<open>auto simp: finalizeNode_def inc_kind_def addActiveNode_def
         heap_add_sorted_def node_id_ok_def fields\<close>)
qed

lemma inv_release:
  assumes inv: "timer_inv q m" and i: "i < length (pool m)" "nd_state (pool m ! i) = a" "a \<noteq> Inactive"
    and m1: "pool m1 = pool m" "free_nodes m1 = free_nodes m"
      "mset (active_timers m1) = mset (active_timers m) - (if a = Active then {#i#} else {#})"
      "mset (paused_timers m1) = mset (paused_timers m) - (if a = Paused then {#i#} else {#})"
      "interval_count m1 = interval_count m" "timeout_count m1 = timeout_count m"
    and q': "mset q' = mset q - (if a = Processing then {#i#} else {#})"
  shows "timer_inv q' (freeNode i (dec_kind (is_interval (node m1 i)) m1))"
proof -
  have room: "length (free_nodes m) < length (pool m)"
    using inv_room(1) [OF inv i(1)] i(2,3) by (simp add: node_def)
  note dec = inv_count_dec [OF inv i(1)]
  show ?thesis
    by (rule timer_inv_step [OF inv i(1,2) _ i(3),
          where nd = "node_reconstruct (pool m ! i)"
            and m' = "freeNode i (dec_kind (is_interval (node m1 i)) m1)"])
      (use m1 i room dec q' in \<open>auto simp: freeNode_def dec_kind_def push_ptr_def
         node_reconstruct_def fields Let_def\<close>)
qed

lemma last_free_bound:
  assumes "timer_inv q m" "free_nodes m \<noteq> []"
  shows "last (free_nodes m) < length (pool m)"
  using iffD1 [OF inv_in_free [OF assms(1)] last_in_set [OF assms(2)]] by simp

lemmas add_defs = allocateNode_def fields Let_def

lemma inv_add_timeout [inv_intros]:
  assumes "timer_inv q m"
  shows "timer_inv q (snd (add_timeout env cb t m))"
proof (cases "free_nodes m = []")
  case True
  then show ?thesis using assms by (simp add: add_timeout_def allocateNode_def)
next
  case False
  let ?i = "last (free_nodes m)" and ?g = "next_generation (generation_counter m)"
  let ?nd = "callback_update (\<lambda>_. cb) (node_reset (make_id ?g (of_nat ?i)) (time_source env (reads m) + t) 0 False 1 (pool m ! ?i))"
  have i: "?i < length (pool m)" by (rule last_free_bound [OF assms False])
  have eq: "snd (add_timeout env cb t m) = finalizeNode ?i (m\<lparr>free_nodes := butlast (free_nodes m),
      generation_counter := ?g, reads := reads m + 1, pool := (pool m)[?i := ?nd]\<rparr>)"
    using False i by (simp add: add_timeout_def add_defs eval_nat_numeral)
  show ?thesis unfolding eq
    by (rule inv_start [OF assms False, where nd = ?nd and g = ?g]) (simp_all add: node_reset_def)
qed

lemma inv_add_interval [inv_intros]:
  assumes "timer_inv q m"
  shows "timer_inv q (snd (add_interval env cb t n m))"
proof (cases "free_nodes m = []")
  case True
  then show ?thesis using assms by (simp add: add_interval_def allocateNode_def)
next
  case False
  let ?i = "last (free_nodes m)" and ?g = "next_generation (generation_counter m)"
  let ?nd = "callback_update (\<lambda>_. cb) (node_reset (make_id ?g (of_nat ?i)) (time_source env (reads m) + t) t True (if n = 0 then - 1 else n) (pool m ! ?i))"
  have i: "?i < length (pool m)" by (rule last_free_bound [OF assms False])
  have eq: "snd (add_interval env cb t n m) = finalizeNode ?i (m\<lparr>free_nodes := butlast (free_nodes m),
      generation_counter := ?g, reads := reads m + 1, pool := (pool m)[?i := ?nd]\<rparr>)"
    using False i by (simp add: add_interval_def add_defs eval_nat_numeral)
  show ?thesis unfolding eq
    by (rule inv_start [OF assms False, where nd = ?nd and g = ?g]) (simp_all add: node_reset_def)
qed

lemma inv_add_interval_until [inv_intros]:
  assumes "timer_inv q m"
  shows "timer_inv q (snd (add_interval_until env cb t m))"
proof (cases "free_nodes m = []")
  case True
  then show ?thesis using assms by (simp add: add_interval_until_def allocateNode_def)
next
  case False
  let ?i = "last (free_nodes m)" and ?g = "next_generation (generation_counter m)"
  let ?nd = "(node_reset (make_id ?g (of_nat ?i)) (time_source env (reads m) + t) t True (- 1) (pool m ! ?i))\<lparr>is_until := True, until_callback := cb,
      until_timeout_callback := None, until_timeout_ms := 0\<rparr>"
  have i: "?i < length (pool m)" by (rule last_free_bound [OF assms False])
  have eq: "snd (add_interval_until env cb t m) = finalizeNode ?i (m\<lparr>free_nodes := butlast (free_nodes m),
      generation_counter := ?g, reads := reads m + 1, pool := (pool m)[?i := ?nd]\<rparr>)"
    using False i by (simp add: add_interval_until_def add_defs eval_nat_numeral)
  show ?thesis unfolding eq
    by (rule inv_start [OF assms False, where nd = ?nd and g = ?g]) (simp_all add: node_reset_def)
qed

lemma inv_add_interval_until_with_timeout [inv_intros]:
  assumes "timer_inv q m"
  shows "timer_inv q (snd (add_interval_until_with_timeout env cb t cb2 t2 m))"
proof (cases "free_nodes m = []")
  case True
  then show ?thesis using assms by (simp add: add_interval_until_with_timeout_def allocateNode_def)
next
  case False
  let ?i = "last (free_nodes m)" and ?g = "next_generation (generation_counter m)"
  let ?nd = "(node_reset (make_id ?g (of_nat ?i)) (time_source env (reads m) + t) t True (- 1) (pool m ! ?i))\<lparr>is_until := True, until_callback := cb,
      until_timeout_callback := cb2, until_timeout_ms := time_source env (reads m + 1) + t2\<rparr>"
  have i: "?i < length (pool m)" by (rule last_free_bound [OF assms False])
  have eq: "snd (add_interval_until_with_timeout env cb t cb2 t2 m) = finalizeNode ?i (m\<lparr>free_nodes := butlast (free_nodes m),
      generation_counter := ?g, reads := reads m + 2, pool := (pool m)[?i := ?nd]\<rparr>)"
    using False i by (simp add: add_interval_until_with_timeout_def add_defs eval_nat_numeral)
  show ?thesis unfolding eq
    by (rule inv_start [OF assms False, where nd = ?nd and g = ?g]) (simp_all add: node_reset_def)
qed

lemma lookup_some:
  assumes "lookup tid m = Some i"
  shows "i < length (pool m)" "nd_id (pool m ! i) = tid" "nd_state (pool m ! i) \<noteq> Inactive"
  using assms by (auto simp: lookup_def Let_def fields split: if_splits)

lemma inv_request:
  assumes "timer_inv q m" "\<And>nd. nd_state (f nd) = nd_state nd" "\<And>nd. is_interval (f nd) = is_interval nd"
    "\<And>nd. nd_id (f nd) = nd_id nd"
  shows "timer_inv q (upd_node i f m)"
  by (rule timer_inv_same [OF assms(1), where i = i and nd = "f (pool m ! i)"])
     (simp_all add: upd_node_def assms(2-4))

lemma inv_remove_timer [inv_intros]:
  assumes inv: "timer_inv q m"
  shows "timer_inv q (snd (remove_timer tid m))"
proof (cases "lookup tid m")
  case None
  then show ?thesis using inv by (simp add: remove_timer_def)
next
  case (Some i)
  note l = lookup_some [OF Some]
  show ?thesis
  proof (cases "nd_state (pool m ! i)")
    case Inactive
    then show ?thesis using l by simp
  next
    case Processing
    then show ?thesis using inv Some by (simp add: remove_timer_def node_def inv_request)
  next
    case Active
    have "i \<in> set (active_timers m)" using inv_in_active [OF inv] l Active by (simp add: node_def)
    moreover let ?m1 = "m\<lparr>active_timers := make_heap (node_later m) (remove1 i (active_timers m))\<rparr>"
    have "timer_inv q (freeNode i (dec_kind (is_interval (node ?m1 i)) ?m1))"
      by (rule inv_release [OF inv l(1) Active]) simp_all
    ultimately show ?thesis using Some Active
      by (simp add: remove_timer_def node_def removeActiveNode_def Let_def)
  next
    case Paused
    have "i \<in> set (paused_timers m)" using inv_in_paused [OF inv] l Paused by (simp add: node_def)
    moreover let ?m1 = "m\<lparr>paused_timers := remove1 i (paused_timers m)\<rparr>"
    have "timer_inv q (freeNode i (dec_kind (is_interval (node ?m1 i)) ?m1))"
      by (rule inv_release [OF inv l(1) Paused]) simp_all
    ultimately show ?thesis using Some Paused
      by (simp add: remove_timer_def node_def removePausedNode_def Let_def)
  qed
qed

lemma inv_pause [inv_intros]:
  assumes inv: "timer_inv q m"
  shows "timer_inv q (snd (pause env tid m))"
proof (cases "lookup tid m")
  case None
  then show ?thesis using inv by (simp add: pause_def)
next
  case (Some i)
  note l = lookup_some [OF Some]
  show ?thesis
  proof (cases "nd_state (pool m ! i)")
    case Inactive
    then show ?thesis using l by simp
  next
    case Processing
    then show ?thesis using inv Some by (simp add: pause_def node_def inv_request)
  next
    case Paused
    then show ?thesis using inv Some by (simp add: pause_def node_def)
  next
    case Active
    have a: "i \<in> set (active_timers m)" using inv_in_active [OF inv] l Active by (simp add: node_def)
    have p: "length (paused_timers m) < length (pool m)"
      using inv_room(3) [OF inv l(1)] Active by (simp add: node_def)
    have id: "node_id_ok i (pool m ! i)" using inv l by (simp add: timer_inv_def ids_ok_def)
    show ?thesis
      by (rule timer_inv_step [OF inv l(1) Active, where b = Paused and q' = q
            and nd = "(pool m ! i)\<lparr>remaining_ms := remaining_at (time_source env (reads m)) (pool m ! i), nd_state := Paused\<rparr>"])
         (use Some Active a p id l in \<open>simp_all add: pause_def removeActiveNode_def push_ptr_def fields Let_def node_id_ok_def\<close>)
  qed
qed

lemma inv_resume [inv_intros]:
  assumes inv: "timer_inv q m"
  shows "timer_inv q (snd (resume env tid m))"
proof (cases "lookup tid m")
  case None
  then show ?thesis using inv by (simp add: resume_def)
next
  case (Some i)
  note l = lookup_some [OF Some]
  show ?thesis
  proof (cases "nd_state (pool m ! i) = Paused")
    case False
    then show ?thesis using inv Some by (simp add: resume_def node_def)
  next
    case Paused: True
    have p: "i \<in> set (paused_timers m)" using inv_in_paused [OF inv] l Paused by (simp add: node_def)
    have a: "length (active_timers m) < length (pool m)"
      using inv_room(2) [OF inv l(1)] Paused by (simp add: node_def)
    have id: "node_id_ok i (pool m ! i)" using inv l by (simp add: timer_inv_def ids_ok_def)
    show ?thesis
      by (rule timer_inv_step [OF inv l(1) Paused, where b = Active and q' = q
            and nd = "(pool m ! i)\<lparr>next_call_ms := time_source env (reads m) + remaining_ms (pool m ! i), nd_state := Active\<rparr>"])
         (use Some Paused p a id l in \<open>simp_all add: resume_def removePausedNode_def addActiveNode_def
            heap_add_sorted_def fields Let_def node_id_ok_def\<close>)
  qed
qed

lemma inv_exec_cmd [inv_intros]: "timer_inv q m \<Longrightarrow> timer_inv q (exec_cmd env c m)"
  by (cases c) (simp_all add: inv_intros)

lemma inv_exec_cmds [inv_intros]: "timer_inv q m \<Longrightarrow> timer_inv q (exec_cmds env cs m)"
  unfolding exec_cmds_def by (induction cs arbitrary: m) (simp_all add: inv_exec_cmd)

lemma inv_invoke [inv_intros]: "timer_inv q m \<Longrightarrow> timer_inv q (snd (invoke env tid cb m))"
  by (simp add: invoke_def Let_def split_beta inv_exec_cmds)

lemma inv_dispatch_expired [inv_intros]: "timer_inv q m \<Longrightarrow> timer_inv q (dispatch_expired env t i m)"
  by (simp add: dispatch_expired_def Let_def inv_exec_cmds split: option.split)

lemma inv_run_callback [inv_intros]: "timer_inv q m \<Longrightarrow> timer_inv q (snd (run_callback env t i m))"
  by (simp add: run_callback_def Let_def split_beta inv_invoke split: option.split)

lemma inv_count_repeat [inv_intros]: "timer_inv q m \<Longrightarrow> timer_inv q (snd (count_repeat i stop m))"
  by (simp add: count_repeat_def Let_def inv_request)

lemma inv_settle:
  assumes inv: "timer_inv (i # q) m"
  shows "timer_inv q (settle env t i stop m)"
proof -
  have i: "i < length (pool m)" and st: "nd_state (pool m ! i) = Processing"
    using inv_in_queue [OF inv, of i] by (auto simp: node_def)
  have id: "node_id_ok i (pool m ! i)" using inv i st by (simp add: timer_inv_def ids_ok_def)
  have free: "timer_inv q (freeFinishedNode i m)"
    unfolding freeFinishedNode_def by (rule inv_release [OF inv i st]) simp_all
  have room: "length (active_timers m) < length (pool m)" "length (paused_timers m) < length (pool m)"
    using inv_room(2,3) [OF inv i] st by (simp_all add: node_def)
  let ?now = "time_source env (reads m)"
  let ?pm = "m\<lparr>pool := (pool m)[i := (pool m ! i)\<lparr>nd_state := Paused,
      remaining_ms := remaining_at ?now ((pool m ! i)\<lparr>nd_state := Paused\<rparr>)\<rparr>],
    reads := reads m + 1, paused_timers := paused_timers m @ [i]\<rparr>"
  let ?am = "addActiveNode i (upd_node i (\<lambda>nd. nd\<lparr>next_call_ms := t + interval_ms nd, nd_state := Active\<rparr>) m)"
  have paused: "timer_inv q ?pm"
    by (rule timer_inv_step [OF inv i st, where b = Paused and nd = "(pool m ! i)\<lparr>nd_state := Paused,
          remaining_ms := remaining_at ?now ((pool m ! i)\<lparr>nd_state := Paused\<rparr>)\<rparr>"]) (use id in \<open>simp_all add: node_id_ok_def\<close>)
  have active: "timer_inv q ?am"
    by (rule timer_inv_step [OF inv i st, where b = Active and
          nd = "(pool m ! i)\<lparr>next_call_ms := t + interval_ms (pool m ! i), nd_state := Active\<rparr>"])
       (use id room i in \<open>simp_all add: node_id_ok_def addActiveNode_def heap_add_sorted_def fields\<close>)
  show ?thesis
  proof (cases "remove_requested (pool m ! i)")
    case True
    then show ?thesis using free by (simp add: settle_def node_def)
  next
    case nr: False
    show ?thesis
    proof (cases "pause_requested (pool m ! i)")
      case True
      then have "settle env t i stop m = ?pm"
        using nr i room by (simp add: settle_def fields Let_def push_ptr_def)
      then show ?thesis using paused by simp
    next
      case False
      then show ?thesis using nr free active by (simp add: settle_def node_def)
    qed
  qed
qed

lemma inv_run_node:
  assumes "timer_inv (i # q) m"
  shows "timer_inv q (run_node env t i m)"
  unfolding run_node_def Let_def split_beta
  by (intro inv_settle inv_count_repeat inv_run_callback inv_dispatch_expired assms)

lemma inv_run_queue: "timer_inv (xs @ q) m \<Longrightarrow> timer_inv q (fold (run_node env t) xs m)"
  by (induction xs arbitrary: m) (simp_all add: inv_run_node)

lemma inv_pop_due:
  assumes inv: "timer_inv q m" and ne: "active_timers m \<noteq> []"
  shows "timer_inv (q @ [active_timers m ! 0]) (upd_node (active_timers m ! 0) mark_processing
    (m\<lparr>active_timers := butlast (pop_heap (node_later m) (active_timers m))\<rparr>))"
proof -
  let ?top = "active_timers m ! 0" and ?as = "pop_heap (node_later m) (active_timers m)"
  have "?top \<in> set (active_timers m)" using ne by simp
  then have i: "?top < length (pool m)" and st: "nd_state (pool m ! ?top) = Active"
    using inv_in_active [OF inv, of ?top] by (auto simp: node_def)
  have id: "node_id_ok ?top (pool m ! ?top)" using inv i st by (simp add: timer_inv_def ids_ok_def)
  have as: "?as \<noteq> []" using ne heap_perm(4) by (metis length_0_conv)
  have "mset (butlast ?as @ [last ?as]) = mset (active_timers m)" using as by simp
  then have mset: "mset (active_timers m) = add_mset ?top (mset (butlast ?as))"
    using pop_heap_last [OF ne] by simp
  show ?thesis
    by (rule timer_inv_step [OF inv i st, where b = Processing and nd = "mark_processing (pool m ! ?top)"])
       (use id mset in \<open>simp_all add: mark_processing_def upd_node_def node_id_ok_def\<close>)
qed

lemma inv_collect_due:
  "timer_inv q m \<Longrightarrow> timer_inv (fst (collect_due t e q m)) (snd (collect_due t e q m))"
proof (induction t e q m rule: collect_due.induct)
  case (1 t e q m)
  show ?case
  proof (cases "e < length (active_timers m) \<and> timer_due t (next_call_ms (node m (active_timers m ! 0)))")
    case False
    then have "collect_due t e q m = (q, m)" by (subst collect_due.simps) auto
    then show ?thesis using "1.prems" by simp
  next
    case True
    let ?top = "active_timers m ! 0"
    let ?m = "upd_node ?top mark_processing
      (m\<lparr>active_timers := butlast (pop_heap (node_later m) (active_timers m))\<rparr>)"
    have ne: "active_timers m \<noteq> []" using True by auto
    have "?top \<in> set (active_timers m)" using ne by simp
    then have "length q < length (pool m)"
      using inv_room(4) [OF "1.prems", of ?top] inv_in_active [OF "1.prems", of ?top] by simp
    then have push: "push_ptr (max_timers ?m) ?top q = q @ [?top]" by (simp add: push_ptr_def fields)
    have "timer_inv (fst (collect_due t (e + 1) (push_ptr (max_timers ?m) ?top q) ?m))
        (snd (collect_due t (e + 1) (push_ptr (max_timers ?m) ?top q) ?m))"
      by (rule "1.IH" [OF True refl refl refl])
         (use inv_pop_due [OF "1.prems" ne] push in simp)
    then show ?thesis using True by (simp add: collect_due.simps [of t e q m] Let_def)
  qed
qed

lemma inv_process_timers [inv_intros]: "timer_inv [] m \<Longrightarrow> timer_inv [] (process_timers env t m)"
  using inv_collect_due [of "[]" m t 0] inv_run_queue [of "fst (collect_due t 0 [] m)" "[]"]
  by (simp add: process_timers_def split_beta)

lemma inv_tick [inv_intros]: "timer_inv [] m \<Longrightarrow> timer_inv [] (tick env m)"
  by (simp add: tick_def core_now_def inv_process_timers split: option.split)

end
