(* ===== verification/Timer_Schedule.thy ===== *)
theory Timer_Schedule
  imports Timer_Invariant
begin

text \<open>
  The order in which timers fire. The active list is a heap for the circular comparison; that
  comparison is an order only while all deadlines lie within half the range of the clock, so the
  invariant says: for every window that holds the active deadlines the list is a heap by time
  elapsed since the start of the window. Every operation keeps it, and it gives the guarantees of
  the processing loop: what is popped is due, is popped by increasing deadline, and nothing left
  behind is earlier. What a running timer owns is not touched by other callbacks (frame lemmas).
\<close>

section \<open>The heap invariant\<close>

definition key :: "u32 \<Rightarrow> ('cb, 'z) timer_storage_scheme \<Rightarrow> nat \<Rightarrow> nat" where
  "key base m i = unat (next_call_ms (node m i) - base)"

definition window :: "u32 \<Rightarrow> ('cb, 'z) timer_storage_scheme \<Rightarrow> bool" where
  "window base m \<longleftrightarrow> (\<forall>i\<in>set (active_timers m). key base m i < 2 ^ 31)"

definition heap_ok :: "('cb, 'z) timer_storage_scheme \<Rightarrow> bool" where
  "heap_ok m \<longleftrightarrow> (\<forall>base. window base m \<longrightarrow> is_heap (key base m) (active_timers m))"

lemma keyed_window:
  assumes "\<And>i. i \<in> A \<Longrightarrow> key base m i < 2 ^ 31"
  shows "keyed (node_later m) (key base m) A"
  using assms by (auto simp: keyed_def node_later_def key_def window_later)

lemma is_heap_cong:
  assumes "\<And>i. i \<in> set xs \<Longrightarrow> k i = k' i"
  shows "is_heap k xs = is_heap k' xs"
proof -
  have "heap_from k 0 (length xs) xs = heap_from k' 0 (length xs) xs"
    unfolding heap_from_def
  proof (intro all_cong imp_cong refl)
    fix j assume "j < length xs"
    moreover from this have "(j - 1) div 2 < length xs" by linarith
    ultimately show "(k (xs ! ((j - 1) div 2)) \<le> k (xs ! j)) = (k' (xs ! ((j - 1) div 2)) \<le> k' (xs ! j))"
      using assms by simp
  qed
  then show ?thesis by (simp add: is_heap_def)
qed

lemma heap_ok_cong:
  assumes "active_timers m' = active_timers m"
    "\<And>i. i \<in> set (active_timers m) \<Longrightarrow> next_call_ms (pool m' ! i) = next_call_ms (pool m ! i)"
  shows "heap_ok m' = heap_ok m"
proof -
  have k: "key base m' i = key base m i" if "i \<in> set (active_timers m)" for i base
    using assms(2) [OF that] by (simp add: key_def node_def)
  then have "is_heap (key base m') (active_timers m) = is_heap (key base m) (active_timers m)" for base
    by (intro is_heap_cong) simp
  then show ?thesis by (simp add: heap_ok_def window_def assms(1) k cong: ball_cong)
qed

lemma heap_ok_other [simp]:
  "heap_ok (m\<lparr>generation_counter := g\<rparr>) = heap_ok m" "heap_ok (m\<lparr>free_nodes := f\<rparr>) = heap_ok m"
  "heap_ok (m\<lparr>paused_timers := p\<rparr>) = heap_ok m" "heap_ok (m\<lparr>interval_count := c\<rparr>) = heap_ok m"
  "heap_ok (m\<lparr>timeout_count := c\<rparr>) = heap_ok m"
  "heap_ok (dec_kind b m) = heap_ok m" "heap_ok (inc_kind b m) = heap_ok m"
  by (rule heap_ok_cong; simp add: dec_kind_def inc_kind_def)+

lemma heap_ok_run_fields [simp]:
  "heap_ok (m\<lparr>reads := r\<rparr>) = heap_ok m" "heap_ok (m\<lparr>steps := s\<rparr>) = heap_ok m"
  "heap_ok (m\<lparr>log := l\<rparr>) = heap_ok m"
  by (rule heap_ok_cong; simp)+

lemma heap_ok_upd:
  assumes "i \<notin> set (active_timers m) \<or> next_call_ms (f (pool m ! i)) = next_call_ms (pool m ! i)"
  shows "heap_ok (upd_node i f m) = heap_ok m"
proof (rule heap_ok_cong)
  show "active_timers (upd_node i f m) = active_timers m" by (simp add: upd_node_def)
  fix j assume "j \<in> set (active_timers m)"
  then show "next_call_ms (pool (upd_node i f m) ! j) = next_call_ms (pool m ! j)"
    using assms by (cases "j = i"; cases "i < length (pool m)") (auto simp: upd_node_def list_update_beyond)
qed

lemma heap_ok_push:
  assumes "heap_ok m" "active_timers m' = push_heap (node_later m) (active_timers m @ [i])" "pool m' = pool m"
  shows "heap_ok m'"
  unfolding heap_ok_def
proof (intro allI impI)
  fix base assume w: "window base m'"
  have k: "key base m' = key base m" by (rule ext) (simp add: key_def node_def assms(3))
  have "keyed (node_later m) (key base m) (set (active_timers m @ [i]))"
    using w by (intro keyed_window) (auto simp: window_def assms(2) k)
  moreover have "is_heap (key base m) (active_timers m)"
    using assms(1) w by (simp add: heap_ok_def window_def assms(2) k)
  ultimately have "is_heap (key base m) (push_heap (node_later m) (active_timers m @ [i]))"
    by (rule heap.push_order)
  then show "is_heap (key base m') (active_timers m')" by (simp add: assms(2) k)
qed

lemma heap_ok_addActiveNode:
  assumes "heap_ok m" "length (active_timers m) < length (pool m)"
  shows "heap_ok (addActiveNode i m)"
  by (rule heap_ok_push [OF assms(1), where i = i])
     (use assms(2) in \<open>simp_all add: addActiveNode_def heap_add_sorted_def max_timers_def\<close>)

lemma heap_ok_remake:
  "heap_ok (m\<lparr>active_timers := make_heap (node_later m) xs\<rparr>)"
  unfolding heap_ok_def
proof (intro allI impI)
  let ?m = "m\<lparr>active_timers := make_heap (node_later m) xs\<rparr>"
  fix base assume w: "window base ?m"
  have k: "key base ?m = key base m" by (rule ext) (simp add: key_def node_def)
  have "keyed (node_later m) (key base m) (set xs)"
    using w by (intro keyed_window) (simp add: window_def k)
  then show "is_heap (key base ?m) (active_timers ?m)" by (simp add: k heap.make_order)
qed

text \<open>The order does not depend on the window, as long as there is one.\<close>

lemma key_base_change:
  assumes "key b1 m i < 2 ^ 31" "key b1 m j < 2 ^ 31" "key b2 m i < 2 ^ 31" "key b2 m j < 2 ^ 31"
  shows "key b1 m i \<le> key b1 m j \<longleftrightarrow> key b2 m i \<le> key b2 m j"
  using window_diff [of "next_call_ms (node m j)" b1 "next_call_ms (node m i)"]
    window_diff [of "next_call_ms (node m j)" b2 "next_call_ms (node m i)"] assms
  by (simp add: key_def)

lemma is_heap_base_change:
  assumes "\<And>i. i \<in> set xs \<Longrightarrow> key b1 m i < 2 ^ 31" "\<And>i. i \<in> set xs \<Longrightarrow> key b2 m i < 2 ^ 31"
    "is_heap (key b1 m) xs"
  shows "is_heap (key b2 m) xs"
  unfolding is_heap_def heap_from_def
proof (intro allI impI)
  fix j assume j: "j < length xs" "0 < j"
  then have "(j - 1) div 2 < length xs" by linarith
  then show "key b2 m (xs ! ((j - 1) div 2)) \<le> key b2 m (xs ! j)"
    using assms j key_base_change [of b1 m "xs ! ((j - 1) div 2)" "xs ! j" b2]
    by (simp add: is_heap_def heap_from_def)
qed

lemma heap_ok_pop:
  assumes "heap_ok m" "window base m" "active_timers m \<noteq> []" "pool m' = pool m"
    "active_timers m' = butlast (pop_heap (node_later m) (active_timers m))"
  shows "heap_ok m'"
  unfolding heap_ok_def
proof (intro allI impI)
  fix b assume w: "window b m'"
  have k: "key b m' = key b m" for b by (rule ext) (simp add: key_def node_def assms(4))
  have "is_heap (key base m) (butlast (pop_heap (node_later m) (active_timers m)))"
    using assms(1,2) by (intro heap.pop_order keyed_window) (auto simp: heap_ok_def window_def)
  moreover have "set (butlast (pop_heap (node_later m) (active_timers m))) \<subseteq> set (active_timers m)"
    using in_set_butlastD [of _ "pop_heap (node_later m) (active_timers m)"] by auto
  ultimately show "is_heap (key b m') (active_timers m')"
    unfolding k assms(5) using assms(2,5) w k
    by (intro is_heap_base_change [where ?b1.0 = base and ?b2.0 = b]) (auto simp: window_def)
qed

section \<open>Every operation keeps it\<close>

lemma heap_ok_finalize:
  assumes "heap_ok m1" "length (active_timers m1) < length (pool m1)"
  shows "heap_ok (finalizeNode i m1)"
  unfolding finalizeNode_def
  by (rule heap_ok_addActiveNode) (use assms in \<open>simp_all add: inc_kind_def\<close>)

lemma heap_ok_freeNode:
  assumes "heap_ok m"
  shows "heap_ok (freeNode i m)"
proof -
  have "heap_ok (upd_node i node_reconstruct m)"
    using assms by (subst heap_ok_upd) (simp_all add: node_reconstruct_def)
  then show ?thesis by (simp add: freeNode_def Let_def)
qed

lemma heap_ok_start:
  assumes "timer_inv q m" "heap_ok m" "free_nodes m \<noteq> []"
    "active_timers m1 = active_timers m" "pool m1 = (pool m)[last (free_nodes m) := nd]"
  shows "heap_ok (finalizeNode (last (free_nodes m)) m1)"
proof (rule heap_ok_finalize)
  let ?i = "last (free_nodes m)"
  have i: "?i < length (pool m)" "nd_state (node m ?i) = Inactive"
    using iffD1 [OF inv_in_free [OF assms(1)] last_in_set [OF assms(3)]] by auto
  then have "?i \<notin> set (active_timers m)" using inv_in_active [OF assms(1), of ?i] by simp
  then have "next_call_ms (pool m1 ! j) = next_call_ms (pool m ! j)" if "j \<in> set (active_timers m)" for j
    using that by (cases "j = ?i") (auto simp: assms(5))
  then show "heap_ok m1" using assms(2) heap_ok_cong [OF assms(4)] by blast
  show "length (active_timers m1) < length (pool m1)"
    using inv_room(2) [OF assms(1) i(1)] i(2) assms(4,5) by simp
qed

lemma heap_ok_adds:
  assumes inv: "timer_inv q m" and ok: "heap_ok m"
  shows "heap_ok (snd (add_timeout env cb t m))" "heap_ok (snd (add_interval env cb t n m))"
    "heap_ok (snd (add_interval_until env cb t m))"
    "heap_ok (snd (add_interval_until_with_timeout env cb t cb2 t2 m))"
proof -
  consider "free_nodes m = []" | "free_nodes m \<noteq> []" "last (free_nodes m) < length (pool m)"
    using last_free_bound [OF inv] by blast
  then have "heap_ok (snd (add_timeout env cb t m)) \<and> heap_ok (snd (add_interval env cb t n m)) \<and>
    heap_ok (snd (add_interval_until env cb t m)) \<and>
    heap_ok (snd (add_interval_until_with_timeout env cb t cb2 t2 m))"
  proof cases
    case 1
    then show ?thesis using ok by (simp add: add_timeout_def add_interval_def add_interval_until_def
        add_interval_until_with_timeout_def allocateNode_def)
  next
    case 2
    then show ?thesis
      by (simp add: add_timeout_def add_interval_def add_interval_until_def
        add_interval_until_with_timeout_def add_defs)
        (intro conjI impI; rule heap_ok_start [OF inv ok 2(1)]; simp)
  qed
  then show "heap_ok (snd (add_timeout env cb t m))" "heap_ok (snd (add_interval env cb t n m))"
    "heap_ok (snd (add_interval_until env cb t m))"
    "heap_ok (snd (add_interval_until_with_timeout env cb t cb2 t2 m))" by auto
qed

lemma heap_ok_removeActiveNode: "heap_ok m \<Longrightarrow> heap_ok (snd (removeActiveNode i m))"
  by (simp add: removeActiveNode_def heap_ok_remake)

lemma heap_ok_removePausedNode: "heap_ok m \<Longrightarrow> heap_ok (snd (removePausedNode i m))"
  by (simp add: removePausedNode_def)

lemma heap_ok_remove_timer: "heap_ok m \<Longrightarrow> heap_ok (snd (remove_timer tid m))"
  by (simp add: remove_timer_def Let_def heap_ok_freeNode heap_ok_removeActiveNode
      heap_ok_removePausedNode heap_ok_upd split: option.split)

lemma heap_ok_pause: "heap_ok m \<Longrightarrow> heap_ok (snd (pause env tid m))"
  by (simp add: pause_def Let_def core_now_def heap_ok_removeActiveNode heap_ok_upd split: option.split)

lemma heap_ok_resume:
  assumes inv: "timer_inv q m" and ok: "heap_ok m"
  shows "heap_ok (snd (resume env tid m))"
proof (cases "lookup tid m")
  case None
  then show ?thesis using ok by (simp add: resume_def)
next
  case (Some i)
  note l = lookup_some [OF Some]
  show ?thesis
  proof (cases "nd_state (node m i) = Paused")
    case False
    then show ?thesis using ok Some by (simp add: resume_def)
  next
    case True
    let ?m1 = "(snd (removePausedNode i m))\<lparr>reads := reads m + 1\<rparr>"
    let ?f = "\<lambda>nd. nd\<lparr>next_call_ms := time_source env (reads m) + remaining_ms nd, nd_state := Active\<rparr>"
    have out: "i \<notin> set (active_timers m)" using inv_in_active [OF inv, of i] True by simp
    have room: "length (active_timers m) < length (pool m)" using inv_room(2) [OF inv l(1)] True by simp
    have "heap_ok (upd_node i ?f ?m1)"
      using ok out by (subst heap_ok_upd) (simp_all add: removePausedNode_def)
    then have "heap_ok (addActiveNode i (upd_node i ?f ?m1))"
      using room by (intro heap_ok_addActiveNode) (simp_all add: upd_node_def removePausedNode_def)
    moreover have "snd (resume env tid m) = addActiveNode i (upd_node i ?f ?m1)"
      using Some True by (simp add: resume_def core_now_def Let_def removePausedNode_def)
    ultimately show ?thesis by simp
  qed
qed

lemma heap_ok_exec_cmd: "timer_inv q m \<Longrightarrow> heap_ok m \<Longrightarrow> heap_ok (exec_cmd env c m)"
  by (cases c) (simp_all add: heap_ok_adds heap_ok_remove_timer heap_ok_pause heap_ok_resume)

lemma heap_ok_exec_cmds: "timer_inv q m \<Longrightarrow> heap_ok m \<Longrightarrow> heap_ok (exec_cmds env cs m)"
  unfolding exec_cmds_def
  by (induction cs arbitrary: m) (simp_all add: heap_ok_exec_cmd inv_exec_cmd)

lemma heap_ok_invoke: "timer_inv q m \<Longrightarrow> heap_ok m \<Longrightarrow> heap_ok (snd (invoke env tid cb m))"
  by (simp add: invoke_def Let_def split_beta heap_ok_exec_cmds)

lemma heap_ok_dispatch_expired: "timer_inv q m \<Longrightarrow> heap_ok m \<Longrightarrow> heap_ok (dispatch_expired env t i m)"
  by (simp add: dispatch_expired_def Let_def heap_ok_exec_cmds split: option.split)

lemma heap_ok_run_callback:
  "timer_inv q m \<Longrightarrow> heap_ok m \<Longrightarrow> heap_ok (snd (run_callback env t i m))"
  by (simp add: run_callback_def Let_def split_beta heap_ok_invoke [of q] inv_invoke split: option.split)

lemma heap_ok_count_repeat: "heap_ok m \<Longrightarrow> heap_ok (snd (count_repeat i stop m))"
  by (simp add: count_repeat_def Let_def heap_ok_upd)

lemma heap_ok_settle:
  assumes inv: "timer_inv (i # q) m" and ok: "heap_ok m"
  shows "heap_ok (settle env t i stop m)"
proof -
  have i: "i < length (pool m)" and st: "nd_state (node m i) = Processing"
    using inv_in_queue [OF inv, of i] by auto
  have out: "i \<notin> set (active_timers m)" using inv_in_active [OF inv, of i] st by simp
  have room: "length (active_timers m) < length (pool m)" using inv_room(2) [OF inv i] st by simp
  have free: "heap_ok (freeFinishedNode i m)" using ok by (simp add: freeFinishedNode_def heap_ok_freeNode)
  have "heap_ok (upd_node i (\<lambda>nd. nd\<lparr>next_call_ms := t + interval_ms nd, nd_state := Active\<rparr>) m)"
    using ok out by (subst heap_ok_upd) simp_all
  then have "heap_ok (addActiveNode i (upd_node i (\<lambda>nd. nd\<lparr>next_call_ms := t + interval_ms nd, nd_state := Active\<rparr>) m))"
    using room by (intro heap_ok_addActiveNode) (simp_all add: upd_node_def)
  then show ?thesis using free ok
    by (simp add: settle_def Let_def core_now_def heap_ok_upd)
qed

lemma heap_ok_run_node:
  assumes "timer_inv (i # q) m" "heap_ok m"
  shows "heap_ok (run_node env t i m)"
  unfolding run_node_def Let_def split_beta
  by (intro heap_ok_settle inv_count_repeat inv_run_callback inv_dispatch_expired
      heap_ok_count_repeat heap_ok_run_callback heap_ok_dispatch_expired assms)
     (rule assms inv_dispatch_expired)+

lemma heap_ok_run_queue:
  "timer_inv (xs @ q) m \<Longrightarrow> heap_ok m \<Longrightarrow> heap_ok (fold (run_node env t) xs m)"
  by (induction xs arbitrary: m) (simp_all add: inv_run_node heap_ok_run_node)

section \<open>What the processing loop pops\<close>

definition popped :: "('cb, 'z) timer_storage_scheme \<Rightarrow> ('cb, 'z) timer_storage_scheme" where
  "popped m = upd_node (active_timers m ! 0) mark_processing
     (m\<lparr>active_timers := butlast (pop_heap (node_later m) (active_timers m))\<rparr>)"

lemma collect_due_step:
  assumes "timer_inv q m" "e < length (active_timers m)"
    "timer_due t (next_call_ms (node m (active_timers m ! 0)))"
  shows "collect_due t e q m = collect_due t (e + 1) (q @ [active_timers m ! 0]) (popped m)"
proof -
  have "active_timers m ! 0 \<in> set (active_timers m)" using assms(2) by (intro nth_mem) linarith
  then have "length q < length (pool m)"
    using inv_room(4) [OF assms(1), of "active_timers m ! 0"] inv_in_active [OF assms(1)] by simp
  then show ?thesis using assms(2,3)
    by (simp add: collect_due.simps [of t e q m] Let_def push_ptr_def fields popped_def)
qed

lemma collect_due_stop:
  assumes "\<not> (e < length (active_timers m) \<and> timer_due t (next_call_ms (node m (active_timers m ! 0))))"
  shows "collect_due t e q m = (q, m)"
  using assms by (subst collect_due.simps) auto

lemma popped_next [simp]: "next_call_ms (node (popped m) i) = next_call_ms (node m i)"
proof (cases "active_timers m ! 0 < length (pool m)")
  case True
  then show ?thesis by (simp add: popped_def fields nth_list_update mark_processing_def)
qed (simp add: popped_def fields list_update_beyond)

lemma popped_key [simp]: "key base (popped m) = key base m"
  by (rule ext) (simp add: key_def)

lemma popped_mset:
  assumes "active_timers m \<noteq> []"
  shows "mset (active_timers m) = add_mset (active_timers m ! 0) (mset (active_timers (popped m)))"
proof -
  let ?as = "pop_heap (node_later m) (active_timers m)"
  have "?as \<noteq> []" using assms heap_perm(4) by (metis length_0_conv)
  then have "mset (butlast ?as @ [last ?as]) = mset (active_timers m)" by simp
  then show ?thesis using pop_heap_last [OF assms] by (simp add: popped_def upd_node_def)
qed

lemma window_subset:
  "window base m \<Longrightarrow> set (active_timers m') \<subseteq> set (active_timers m) \<Longrightarrow> key base m' = key base m \<Longrightarrow> window base m'"
  by (auto simp: window_def)

lemma heap_ok_popped:
  assumes "heap_ok m" "window base m" "active_timers m \<noteq> []"
  shows "heap_ok (popped m)" "window base (popped m)"
proof -
  let ?m = "m\<lparr>active_timers := butlast (pop_heap (node_later m) (active_timers m))\<rparr>"
  have "heap_ok ?m" by (rule heap_ok_pop [OF assms]) simp_all
  then show "heap_ok (popped m)"
    unfolding popped_def by (subst heap_ok_upd) (simp_all add: mark_processing_def)
  have "set (active_timers (popped m)) \<subseteq> set (active_timers m)"
    using arg_cong [OF popped_mset [OF assms(3)], of set_mset] by auto
  then show "window base (popped m)" by (rule window_subset [OF assms(2)]) simp_all
qed

lemma due_key:
  assumes "key base m i < 2 ^ 31" "unat (t - base) < 2 ^ 31"
  shows "timer_due t (next_call_ms (node m i)) \<longleftrightarrow> key base m i \<le> unat (t - base)"
  using window_diff [OF assms(2) assms(1) [unfolded key_def]] by (simp add: timer_due_iff key_def)

definition pops_in_order :: "u32 \<Rightarrow> u32 \<Rightarrow> nat \<Rightarrow> 'cb timer_manager \<Rightarrow> nat list \<Rightarrow> 'cb timer_manager \<Rightarrow> bool" where
  "pops_in_order base t e m ps m' \<longleftrightarrow>
     mset (active_timers m) = mset ps + mset (active_timers m') \<and>
     key base m' = key base m \<and> heap_ok m' \<and> window base m' \<and>
     sorted (map (key base m) ps) \<and> (\<forall>i\<in>set ps. key base m i \<le> unat (t - base)) \<and>
     (\<forall>i\<in>set ps. \<forall>j\<in>set (active_timers m'). key base m i \<le> key base m j) \<and>
     (length (active_timers m') \<le> e + length ps \<or> (\<forall>j\<in>set (active_timers m'). unat (t - base) < key base m j)) \<and>
     (ps \<noteq> [] \<longrightarrow> e + length ps \<le> length (active_timers m') + 1)"

lemma collect_due_order:
  assumes "timer_inv q m" "heap_ok m" "window base m" "unat (t - base) < 2 ^ 31"
  shows "\<exists>ps. fst (collect_due t e q m) = q @ ps \<and> pops_in_order base t e m ps (snd (collect_due t e q m))"
  using assms
proof (induction "length (active_timers m)" arbitrary: e q m)
  case 0
  then have "collect_due t e q m = (q, m)" by (intro collect_due_stop) simp
  then show ?case using 0 by (intro exI [of _ "[]"]) (simp add: pops_in_order_def)
next
  case (Suc n)
  let ?top = "active_timers m ! 0"
  have ne: "active_timers m \<noteq> []" using Suc.hyps(2) by auto
  then have top: "?top \<in> set (active_timers m)" by simp
  have heap: "is_heap (key base m) (active_timers m)" using Suc.prems(2,3) by (simp add: heap_ok_def)
  have due: "timer_due t (next_call_ms (node m ?top)) \<longleftrightarrow> key base m ?top \<le> unat (t - base)"
    using Suc.prems(3,4) top by (intro due_key) (auto simp: window_def)
  show ?case
  proof (cases "e < length (active_timers m) \<and> timer_due t (next_call_ms (node m ?top))")
    case False
    then have eq: "collect_due t e q m = (q, m)" by (rule collect_due_stop)
    have "unat (t - base) < key base m j"
      if "j \<in> set (active_timers m)" "e < length (active_timers m)" for j
      using False due that heap.front_least [OF heap that(1)] by simp
    then show ?thesis using Suc.prems eq
      by (intro exI [of _ "[]"]) (auto simp: pops_in_order_def not_less)
  next
    case True
    have mset: "mset (active_timers m) = add_mset ?top (mset (active_timers (popped m)))"
      by (rule popped_mset [OF ne])
    then have len: "n = length (active_timers (popped m))"
      using Suc.hyps(2) by (metis Suc_inject size_add_mset size_mset)
    have eq: "collect_due t e q m = collect_due t (e + 1) (q @ [?top]) (popped m)"
      using True Suc.prems(1) by (intro collect_due_step) auto
    have inv: "timer_inv (q @ [?top]) (popped m)"
      unfolding popped_def by (rule inv_pop_due [OF Suc.prems(1) ne])
    obtain ps where ps: "fst (collect_due t e q m) = (q @ [?top]) @ ps"
      "pops_in_order base t (e + 1) (popped m) ps (snd (collect_due t e q m))"
      using Suc.hyps(1) [OF len inv heap_ok_popped [OF Suc.prems(2,3) ne] Suc.prems(4), of "e + 1"]
      unfolding eq by blast
    note ps' = ps(2) [unfolded pops_in_order_def popped_key]
    have least: "key base m ?top \<le> key base m j" if "j \<in> set (active_timers m)" for j
      by (rule heap.front_least [OF heap that])
    have sub: "set ps \<union> set (active_timers (snd (collect_due t e q m))) \<subseteq> set (active_timers m)"
      using arg_cong [OF mset, of set_mset] arg_cong [OF conjunct1 [OF ps'], of set_mset] by auto
    have len2: "length (active_timers (popped m)) = length ps + length (active_timers (snd (collect_due t e q m)))"
      using arg_cong [OF conjunct1 [OF ps'], of size] by simp
    have "pops_in_order base t e m (?top # ps) (snd (collect_due t e q m))"
      unfolding pops_in_order_def
      using ps' mset least sub due True len len2 Suc.hyps(2) by auto
    then show ?thesis using ps(1) by (intro exI [of _ "?top # ps"]) simp
  qed
qed

end
