(* ===== verification/Timer_Frame.thy ===== *)
theory Timer_Frame
  imports Timer_Schedule
begin

text \<open>
  What user code can do to a timer whose callback is due or running (state \<open>Processing\<close>): raise its
  pause and remove requests, and nothing else. From this follow the outcome of one processing
  step and the list of expiry events of a whole tick.
\<close>

section \<open>Frame lemmas\<close>

definition owned :: "'cb timer_node \<Rightarrow> 'cb timer_node" where
  "owned nd = nd\<lparr>pause_requested := False, remove_requested := False\<rparr>"

lemma owned_fields:
  assumes "owned nd = owned nd'"
  shows "nd_id nd = nd_id nd'" "next_call_ms nd = next_call_ms nd'" "interval_ms nd = interval_ms nd'"
    "nd_state nd = nd_state nd'" "is_interval nd = is_interval nd'" "repeat_count nd = repeat_count nd'"
    "is_until nd = is_until nd'" "until_timeout_ms nd = until_timeout_ms nd'" "callback nd = callback nd'"
    "until_callback nd = until_callback nd'" "until_timeout_callback nd = until_timeout_callback nd'"
  using assms by (cases nd; cases nd'; simp add: owned_def)+

lemma node_upd: "node (upd_node j f m) i = (if i = j \<and> j < length (pool m) then f (node m j) else node m i)"
  by (cases "j < length (pool m)"; cases "i = j") (simp_all add: fields list_update_beyond)

lemma upd_node_sel [simp]:
  "length (pool (upd_node j f m)) = length (pool m)" "active_timers (upd_node j f m) = active_timers m"
  "free_nodes (upd_node j f m) = free_nodes m" "paused_timers (upd_node j f m) = paused_timers m"
  by (simp_all add: upd_node_def)

lemma node_freeNode:
  "node (freeNode j m) i = (if i = j \<and> j < length (pool m) then node_reconstruct (node m j) else node m i)"
proof -
  have "node (freeNode j m) i = node (upd_node j node_reconstruct m) i"
    by (simp add: freeNode_def Let_def node_def)
  then show ?thesis by (simp add: node_upd)
qed

lemma node_dec_kind [simp]: "node (dec_kind b m) i = node m i" "pool (dec_kind b m) = pool m"
  by (simp_all add: dec_kind_def node_def)

lemma node_addActiveNode:
  "length (active_timers m) < length (pool m) \<Longrightarrow> node (addActiveNode j m) i = node m i"
  by (simp add: addActiveNode_def fields)

lemma node_finalizeNode:
  "length (active_timers m) < length (pool m) \<Longrightarrow> node (finalizeNode j m) i = node m i"
  by (simp add: finalizeNode_def inc_kind_def node_addActiveNode) (simp add: node_def)

lemma free_room:
  assumes "timer_inv q m" "free_nodes m \<noteq> []"
  shows "length (active_timers m) < length (pool m)"
  using inv_room(2) [OF assms(1) last_free_bound [OF assms]]
    iffD1 [OF inv_in_free [OF assms(1)] last_in_set [OF assms(2)]] by simp

text \<open>Adding a timer touches only the node it takes from the free list.\<close>

lemma node_adds:
  assumes inv: "timer_inv q m" and i: "i \<notin> set (free_nodes m)"
  shows "node (snd (add_timeout env cb t m)) i = node m i"
    "node (snd (add_interval env cb t n m)) i = node m i"
    "node (snd (add_interval_until env cb t m)) i = node m i"
    "node (snd (add_interval_until_with_timeout env cb t cb2 t2 m)) i = node m i"
proof -
  consider "free_nodes m = []" | "free_nodes m \<noteq> []" "last (free_nodes m) < length (pool m)"
    "length (active_timers m) < length (pool m)" "i \<noteq> last (free_nodes m)"
    using last_free_bound [OF inv] free_room [OF inv] i by (metis last_in_set)
  then have "node (snd (add_timeout env cb t m)) i = node m i \<and>
    node (snd (add_interval env cb t n m)) i = node m i \<and>
    node (snd (add_interval_until env cb t m)) i = node m i \<and>
    node (snd (add_interval_until_with_timeout env cb t cb2 t2 m)) i = node m i"
  proof cases
    case 1
    then show ?thesis by (simp add: add_timeout_def add_interval_def add_interval_until_def
        add_interval_until_with_timeout_def allocateNode_def)
  next
    case 2
    then show ?thesis
      by (simp add: add_timeout_def add_interval_def add_interval_until_def
        add_interval_until_with_timeout_def allocateNode_def core_now_def Let_def node_finalizeNode)
        (simp add: fields)
  qed
  then show "node (snd (add_timeout env cb t m)) i = node m i"
    "node (snd (add_interval env cb t n m)) i = node m i"
    "node (snd (add_interval_until env cb t m)) i = node m i"
    "node (snd (add_interval_until_with_timeout env cb t cb2 t2 m)) i = node m i" by auto
qed

text \<open>A node in use is found under its own identifier and under no other.\<close>

lemma lookup_own:
  assumes inv: "timer_inv q m" and i: "i < length (pool m)" "nd_state (node m i) \<noteq> Inactive"
  shows "lookup tid m = Some i \<longleftrightarrow> tid = nd_id (node m i)"
proof
  assume "lookup tid m = Some i"
  from lookup_some(2) [OF this] show "tid = nd_id (node m i)" by (simp add: node_def)
next
  have ok: "node_id_ok i (pool m ! i)" and n: "length (pool m) < 2 ^ 16"
    using inv i by (auto simp: timer_inv_def ids_ok_def node_def)
  have "nd_id (node m i) \<noteq> 0"
    using ok by (auto simp: node_id_ok_def node_def getGeneration_def)
  moreover have "unat (getIndex (nd_id (node m i))) = i"
    using ok i(1) n by (simp add: node_id_ok_def node_def unat_of_nat take_bit_eq_mod)
  moreover assume "tid = nd_id (node m i)"
  ultimately show "lookup tid m = Some i" using i by (simp add: lookup_def max_timers_def Let_def)
qed

lemma node_remove_other:
  "lookup tid m \<noteq> Some i \<Longrightarrow> node (snd (remove_timer tid m)) i = node m i"
  by (auto simp: remove_timer_def node_upd node_freeNode Let_def removeActiveNode_def removePausedNode_def
      split: option.split) (simp_all add: node_def)

lemma node_pause_other:
  "lookup tid m \<noteq> Some i \<Longrightarrow> node (snd (pause env tid m)) i = node m i"
  by (auto simp: pause_def Let_def core_now_def removeActiveNode_def fields nth_list_update
      list_update_beyond split: option.split)

lemma node_resume_other:
  assumes inv: "timer_inv q m" and i: "nd_state (node m i) \<noteq> Paused"
  shows "node (snd (resume env tid m)) i = node m i"
proof (cases "lookup tid m")
  case None
  then show ?thesis by (simp add: resume_def)
next
  case (Some j)
  note l = lookup_some [OF Some]
  show ?thesis
  proof (cases "nd_state (node m j) = Paused")
    case True
    have room: "length (active_timers m) < length (pool m)" using inv_room(2) [OF inv l(1)] True by simp
    have "i \<noteq> j" using i True by auto
    then show ?thesis using Some True room
      by (simp add: resume_def core_now_def Let_def removePausedNode_def node_addActiveNode node_upd)
        (simp add: node_def)
  qed (simp add: resume_def Some)
qed

text \<open>One command of user code, seen from a timer that is due or running.\<close>

lemma exec_cmd_frame:
  assumes inv: "timer_inv q m" and i: "i \<in> set q"
  shows "owned (node (exec_cmd env c m) i) = owned (node m i) \<and>
    (remove_requested (node (exec_cmd env c m) i) \<longleftrightarrow>
       remove_requested (node m i) \<or> c = ClearTimer (nd_id (node m i))) \<and>
    (pause_requested (node (exec_cmd env c m) i) \<longleftrightarrow>
       pause_requested (node m i) \<or> c = PauseTimer (nd_id (node m i)))"
proof -
  have ib: "i < length (pool m)" and st: "nd_state (node m i) = Processing"
    using inv_in_queue [OF inv] i by auto
  have nf: "i \<notin> set (free_nodes m)" using inv_in_free [OF inv] st by simp
  have lk: "lookup tid m = Some i \<longleftrightarrow> tid = nd_id (node m i)" for tid
    using lookup_own [OF inv ib] st by simp
  show ?thesis
  proof (cases c)
    case (ClearTimer tid)
    show ?thesis
    proof (cases "tid = nd_id (node m i)")
      case True
      then have "lookup tid m = Some i" using lk by simp
      then show ?thesis using ClearTimer st ib True
        by (simp add: remove_timer_def node_upd owned_def)
    next
      case False
      then show ?thesis using ClearTimer lk by (simp add: node_remove_other)
    qed
  next
    case (PauseTimer tid)
    show ?thesis
    proof (cases "tid = nd_id (node m i)")
      case True
      then have "lookup tid m = Some i" using lk by simp
      then show ?thesis using PauseTimer st ib True
        by (simp add: pause_def node_upd owned_def)
    next
      case False
      then show ?thesis using PauseTimer lk by (simp add: node_pause_other)
    qed
  qed (simp_all add: node_adds [OF inv nf] node_resume_other [OF inv] st)
qed

lemma exec_cmds_frame:
  assumes "timer_inv q m" "i \<in> set q"
  shows "owned (node (exec_cmds env cs m) i) = owned (node m i) \<and>
    (remove_requested (node (exec_cmds env cs m) i) \<longleftrightarrow>
       remove_requested (node m i) \<or> ClearTimer (nd_id (node m i)) \<in> set cs) \<and>
    (pause_requested (node (exec_cmds env cs m) i) \<longleftrightarrow>
       pause_requested (node m i) \<or> PauseTimer (nd_id (node m i)) \<in> set cs)"
  using assms unfolding exec_cmds_def
proof (induction cs arbitrary: m)
  case (Cons c cs)
  note one = exec_cmd_frame [OF Cons.prems, of env c]
  have "nd_id (node (exec_cmd env c m) i) = nd_id (node m i)" using one owned_fields(1) by blast
  then show ?case
    using Cons.IH [OF inv_exec_cmd [OF Cons.prems(1)] Cons.prems(2), of env c] one by auto
qed simp

lemma log_exec_cmd [simp]: "log (exec_cmd env c m) = log m"
  by (cases c) (simp_all add: add_timeout_def add_interval_def add_interval_until_def
    add_interval_until_with_timeout_def allocateNode_def core_now_def Let_def finalizeNode_def
    addActiveNode_def inc_kind_def upd_node_def freeNode_def remove_timer_def pause_def resume_def
    removeActiveNode_def removePausedNode_def dec_kind_def split: option.split)

lemma log_exec_cmds [simp]: "log (exec_cmds env cs m) = log m"
  unfolding exec_cmds_def by (induction cs arbitrary: m) simp_all

lemma node_lists [simp]:
  "node (m\<lparr>paused_timers := p\<rparr>) i = node m i" "node (m\<lparr>free_nodes := p\<rparr>) i = node m i"
  "node (m\<lparr>active_timers := p\<rparr>) i = node m i" "reads (upd_node j f m') = reads m'"
  by (simp_all add: node_def upd_node_def)

lemma node_run_fields [simp]:
  "node (m\<lparr>steps := s, log := l\<rparr>) i = node m i" "node (m\<lparr>reads := r\<rparr>) i = node m i"
  by (simp_all add: node_def)

lemma owned_invoke:
  "timer_inv q m \<Longrightarrow> i \<in> set q \<Longrightarrow> owned (node (snd (invoke env tid cb m)) i) = owned (node m i)"
  using exec_cmds_frame [of q "m\<lparr>steps := Suc (steps m), log := log m @ [Ran tid cb]\<rparr>" i env]
  by (simp add: invoke_def Let_def split_beta)

lemma owned_dispatch:
  "timer_inv q m \<Longrightarrow> i \<in> set q \<Longrightarrow> owned (node (dispatch_expired env t j m) i) = owned (node m i)"
  using exec_cmds_frame [of q "m\<lparr>steps := Suc (steps m), log := log m @ [e]\<rparr>" i env for e]
  by (simp add: dispatch_expired_def Let_def split: option.split)

lemma owned_run_callback:
  "timer_inv q m \<Longrightarrow> i \<in> set q \<Longrightarrow> owned (node (snd (run_callback env t j m)) i) = owned (node m i)"
  by (auto simp: run_callback_def Let_def split_beta owned_invoke [of q] inv_invoke split: option.split)

section \<open>One processing step\<close>

lemma node_count_repeat:
  assumes "i < length (pool m)"
  shows "node (snd (count_repeat i stop m)) j = (if j = i \<and> 0 < repeat_count (node m i)
      then (node m i)\<lparr>repeat_count := repeat_count (node m i) - 1\<rparr> else node m j)"
    and "fst (count_repeat i stop m) = (stop \<or> repeat_count (node m i) = 1)"
  using assms by (auto simp: count_repeat_def Let_def node_upd)

lemma node_settle:
  assumes inv: "timer_inv (i # q) m"
  shows "node (settle env t i stop m) j =
    (if j \<noteq> i then node m j
     else if remove_requested (node m i) then node_reconstruct (node m i)
     else if pause_requested (node m i)
     then (node m i)\<lparr>nd_state := Paused, remaining_ms := remaining_at (time_source env (reads m)) (node m i)\<rparr>
     else if stop then node_reconstruct (node m i)
     else (node m i)\<lparr>next_call_ms := t + interval_ms (node m i), nd_state := Active\<rparr>)"
proof -
  have i: "i < length (pool m)" and st: "nd_state (node m i) = Processing"
    using inv_in_queue [OF inv, of i] by auto
  have room: "length (active_timers m) < length (pool m)" using inv_room(2) [OF inv i] st by simp
  show ?thesis using i room
    by (auto simp: settle_def freeFinishedNode_def node_freeNode Let_def core_now_def node_upd
        node_addActiveNode remaining_at_def)
qed

lemma length_pool_exec [simp]: "length (pool (exec_cmd env c m)) = length (pool m)"
  by (cases c) (simp_all add: add_timeout_def add_interval_def add_interval_until_def
    add_interval_until_with_timeout_def allocateNode_def core_now_def Let_def finalizeNode_def
    addActiveNode_def inc_kind_def upd_node_def freeNode_def remove_timer_def pause_def resume_def
    removeActiveNode_def removePausedNode_def dec_kind_def split: option.split)

lemma length_pool_cmds [simp]: "length (pool (exec_cmds env cs m)) = length (pool m)"
  unfolding exec_cmds_def by (induction cs arbitrary: m) simp_all

text \<open>The whole step, for a timer with a plain callback and no event listeners.\<close>

lemma run_node_outcome:
  fixes t :: u32
  assumes inv: "timer_inv (i # q) m" and env: "listeners env = None"
    and cb: "callback (node m i) = Some cb" "\<not> is_until (node m i)"
    and flags: "\<not> remove_requested (node m i)" "\<not> pause_requested (node m i)"
    and cs: "fst (behave env cb (steps m)) = cs"
  defines "nd \<equiv> node m i" and "nd' \<equiv> node (run_node env t i m) i"
  shows "nd_state nd' =
      (if ClearTimer (nd_id nd) \<in> set cs then Inactive
       else if PauseTimer (nd_id nd) \<in> set cs then Paused
       else if \<not> is_interval nd \<or> repeat_count nd = 1 then Inactive else Active)"
    and "nd_state nd' = Active \<Longrightarrow> next_call_ms nd' = t + interval_ms nd"
    and "nd_state nd' \<noteq> Inactive \<Longrightarrow>
      repeat_count nd' = (if 0 < repeat_count nd then repeat_count nd - 1 else repeat_count nd)"
    and "nd_state nd' \<noteq> Inactive \<Longrightarrow> nd_id nd' = nd_id nd \<and> is_interval nd' = is_interval nd \<and>
      interval_ms nd' = interval_ms nd \<and> callback nd' = Some cb \<and> \<not> is_until nd'"
    and "log (run_node env t i m) = log m @ [Ran (nd_id nd) cb]"
proof -
  let ?m0 = "m\<lparr>steps := Suc (steps m), log := log m @ [Ran (nd_id nd) cb]\<rparr>"
  let ?m1 = "exec_cmds env cs ?m0"
  let ?m2 = "snd (count_repeat i (\<not> is_interval nd) ?m1)"
  let ?stop = "fst (count_repeat i (\<not> is_interval nd) ?m1)"
  have i: "i < length (pool m)" using inv_in_queue [OF inv, of i] by auto
  have inv1: "timer_inv (i # q) ?m1" using inv by (simp add: inv_exec_cmds)
  have inv2: "timer_inv (i # q) ?m2" by (rule inv_count_repeat [OF inv1])
  have frame: "owned (node ?m1 i) = owned nd" "remove_requested (node ?m1 i) \<longleftrightarrow> ClearTimer (nd_id nd) \<in> set cs"
    "pause_requested (node ?m1 i) \<longleftrightarrow> PauseTimer (nd_id nd) \<in> set cs"
    using exec_cmds_frame [of "i # q" ?m0 i env cs] inv flags by (auto simp: nd_def)
  note own = owned_fields [OF frame(1)]
  have i1: "i < length (pool ?m1)" using i by simp
  note rep = node_count_repeat [OF i1]
  have "run_callback env t i m = (\<not> is_interval nd, ?m1)"
    using cb cs by (simp add: run_callback_def invoke_def Let_def nd_def split_beta)
  then have run: "run_node env t i m = settle env t i ?stop ?m2"
    by (simp add: run_node_def dispatch_expired_def env split_beta)
  have nd': "nd' = node (settle env t i ?stop ?m2) i" by (simp add: nd'_def run)
  show "nd_state nd' =
      (if ClearTimer (nd_id nd) \<in> set cs then Inactive
       else if PauseTimer (nd_id nd) \<in> set cs then Paused
       else if \<not> is_interval nd \<or> repeat_count nd = 1 then Inactive else Active)"
    unfolding nd' node_settle [OF inv2] using frame own
    by (simp add: rep node_reconstruct_def)
  show "nd_state nd' = Active \<Longrightarrow> next_call_ms nd' = t + interval_ms nd"
    unfolding nd' node_settle [OF inv2] using frame own
    by (simp add: rep node_reconstruct_def split: if_splits)
  show "nd_state nd' \<noteq> Inactive \<Longrightarrow>
      repeat_count nd' = (if 0 < repeat_count nd then repeat_count nd - 1 else repeat_count nd)"
    unfolding nd' node_settle [OF inv2] using frame own
    by (simp add: rep node_reconstruct_def split: if_splits)
  show "nd_state nd' \<noteq> Inactive \<Longrightarrow> nd_id nd' = nd_id nd \<and> is_interval nd' = is_interval nd \<and>
      interval_ms nd' = interval_ms nd \<and> callback nd' = Some cb \<and> \<not> is_until nd'"
    unfolding nd' node_settle [OF inv2] using frame own cb [folded nd_def]
    by (simp add: rep node_reconstruct_def split: if_splits)
  show "log (run_node env t i m) = log m @ [Ran (nd_id nd) cb]"
    unfolding run by (simp add: settle_def count_repeat_def Let_def freeFinishedNode_def freeNode_def
        dec_kind_def upd_node_def core_now_def addActiveNode_def)
qed

end
