(* ===== verification/Timer_Facade.thy ===== *)
theory Timer_Facade
  imports Timer_Frame
begin

text \<open>
  The facade over the manager: \<open>TimerBase\<close> with its re-entrancy guard (\<open>Timer/Timer.h\<close>), timer
  groups (\<open>Timer/TimerGroupsImpl.h\<close>), handles (\<open>Timer/TimerHandle.h\<close>, \<open>Timer/TimerHandleImpl.h\<close>)
  and the hardware trigger (\<open>Timer/HardwareTimer.h\<close>, \<open>Timer/TimerHardwareImpl.h\<close>). The map of
  groups is a \<open>StaticHashMap\<close> of 16 entries keyed by the hash of the name; it appears here as the
  bounded map that theory \<open>Static_Hash_Map\<close> shows it to be. The calls into ESP-IDF are parameters.
\<close>

section \<open>The facade\<close>

record group_entry =
  ge_name :: string
  ge_timer_ids :: "u32 list"

record 'cb timer =
  manager :: "'cb timer_manager"
  tick_in_progress :: bool
  hw_timer_active :: bool
  groups :: "u32 \<rightharpoonup> group_entry"

definition TimerBase :: "nat \<Rightarrow> 'cb timer" where
  "TimerBase MaxTimers = \<lparr>manager = TimerManager MaxTimers, tick_in_progress = False,
     hw_timer_active = False, groups = Map.empty\<rparr>"

definition timer_tick :: "'cb timer_env \<Rightarrow> 'cb timer \<Rightarrow> 'cb timer" where
  "timer_tick env tm =
     (if tick_in_progress tm then tm
      else case getNextExpiry (manager tm) of
        None \<Rightarrow> tm
      | Some next_expiry \<Rightarrow>
          let (cached_time, m) = core_now env (manager tm); tm = tm\<lparr>manager := m\<rparr>
          in if \<not> is_timer_expired cached_time next_expiry then tm
             else let tm = tm\<lparr>tick_in_progress := True\<rparr>;
                      tm = tm\<lparr>manager := process_timers env cached_time (manager tm)\<rparr>
                  in tm\<lparr>tick_in_progress := False\<rparr>)"

section \<open>Handles\<close>

record timer_handle =
  h_timer :: bool
  h_id :: u32
  h_is_interval :: bool
  h_cancelled :: bool

definition TimerHandle :: "bool \<Rightarrow> u32 \<Rightarrow> bool \<Rightarrow> timer_handle" where
  "TimerHandle has_timer i intv =
     \<lparr>h_timer = has_timer, h_id = i, h_is_interval = intv, h_cancelled = (\<not> has_timer)\<rparr>"

definition h_isActive :: "timer_handle \<Rightarrow> bool" where "h_isActive h \<longleftrightarrow> \<not> h_cancelled h"

definition with_manager :: "('cb timer_manager \<Rightarrow> 'b \<times> 'cb timer_manager) \<Rightarrow> 'cb timer \<Rightarrow> 'b \<times> 'cb timer" where
  "with_manager f tm = (let (r, m) = f (manager tm) in (r, tm\<lparr>manager := m\<rparr>))"

definition clear_timeout :: "u32 \<Rightarrow> 'cb timer \<Rightarrow> 'cb timer" where
  "clear_timeout i tm = snd (with_manager (remove_timer i) tm)"

definition clear_interval :: "u32 \<Rightarrow> 'cb timer \<Rightarrow> 'cb timer" where
  "clear_interval i tm = snd (with_manager (remove_timer i) tm)"

definition timer_pause :: "'cb timer_env \<Rightarrow> u32 \<Rightarrow> 'cb timer \<Rightarrow> bool \<times> 'cb timer" where
  "timer_pause env i = with_manager (pause env i)"

definition timer_resume :: "'cb timer_env \<Rightarrow> u32 \<Rightarrow> 'cb timer \<Rightarrow> bool \<times> 'cb timer" where
  "timer_resume env i = with_manager (resume env i)"

definition setTimeout :: "'cb timer_env \<Rightarrow> 'cb option \<Rightarrow> u32 \<Rightarrow> 'cb timer \<Rightarrow> timer_handle \<times> 'cb timer" where
  "setTimeout env cb t tm =
     (let (i, tm) = with_manager (add_timeout env cb t) tm in (TimerHandle True i False, tm))"

definition setImmediate :: "'cb timer_env \<Rightarrow> 'cb option \<Rightarrow> 'cb timer \<Rightarrow> timer_handle \<times> 'cb timer" where
  "setImmediate env cb tm =
     (let (i, tm) = with_manager (add_timeout env cb 0) tm in (TimerHandle True i False, tm))"

definition setInterval ::
  "'cb timer_env \<Rightarrow> 'cb option \<Rightarrow> u32 \<Rightarrow> int \<Rightarrow> 'cb timer \<Rightarrow> timer_handle \<times> 'cb timer" where
  "setInterval env cb t n tm =
     (let (i, tm) = with_manager (add_interval env cb t n) tm in (TimerHandle True i True, tm))"

definition set_interval_until ::
  "'cb timer_env \<Rightarrow> 'cb option \<Rightarrow> u32 \<Rightarrow> ('cb option \<times> u32) option \<Rightarrow> 'cb timer \<Rightarrow> timer_handle \<times> 'cb timer" where
  "set_interval_until env cb t tmo tm =
     (let (i, tm) = (case tmo of
            None \<Rightarrow> with_manager (add_interval_until env cb t) tm
          | Some (cb2, t2) \<Rightarrow> with_manager (add_interval_until_with_timeout env cb t cb2 t2) tm)
      in (TimerHandle True i True, tm))"

definition h_cancel :: "timer_handle \<Rightarrow> 'cb timer \<Rightarrow> timer_handle \<times> 'cb timer" where
  "h_cancel h tm =
     (if h_timer h \<and> \<not> h_cancelled h
      then (h\<lparr>h_cancelled := True\<rparr>,
            if h_is_interval h then clear_interval (h_id h) tm else clear_timeout (h_id h) tm)
      else (h, tm))"

definition h_pause :: "'cb timer_env \<Rightarrow> timer_handle \<Rightarrow> 'cb timer \<Rightarrow> bool \<times> 'cb timer" where
  "h_pause env h tm = (if h_timer h \<and> \<not> h_cancelled h then timer_pause env (h_id h) tm else (False, tm))"

definition h_resume :: "'cb timer_env \<Rightarrow> timer_handle \<Rightarrow> 'cb timer \<Rightarrow> bool \<times> 'cb timer" where
  "h_resume env h tm = (if h_timer h \<and> \<not> h_cancelled h then timer_resume env (h_id h) tm else (False, tm))"

definition h_isPaused :: "timer_handle \<Rightarrow> 'cb timer \<Rightarrow> bool" where
  "h_isPaused h tm \<longleftrightarrow> h_timer h \<and> \<not> h_cancelled h \<and> isPaused (h_id h) (manager tm)"

section \<open>Groups\<close>

definition hashString :: "string \<Rightarrow> u32" where
  "hashString s = fold (\<lambda>c h. (push_bit 5 h + h) + of_char c) s 5381"

definition findGroup :: "string \<Rightarrow> 'cb timer \<Rightarrow> group_entry option" where
  "findGroup name tm = groups tm (hashString name)"

definition createGroup :: "string \<Rightarrow> 'cb timer \<Rightarrow> 'cb timer" where
  "createGroup name tm =
     (if groups tm (hashString name) \<noteq> None then tm
      else if 16 \<le> card (dom (groups tm)) then tm
      else tm\<lparr>groups := (groups tm)(hashString name \<mapsto> \<lparr>ge_name = take 31 name, ge_timer_ids = []\<rparr>)\<rparr>)"

definition addToGroup :: "string \<Rightarrow> u32 \<Rightarrow> 'cb timer \<Rightarrow> 'cb timer" where
  "addToGroup name i tm =
     (let tm = (if groups tm (hashString name) = None then createGroup name tm else tm)
      in case groups tm (hashString name) of
           None \<Rightarrow> tm
         | Some entry \<Rightarrow>
             if length (ge_timer_ids entry) = max_timers (manager tm) \<or> i \<in> set (ge_timer_ids entry) then tm
             else tm\<lparr>groups := (groups tm)(hashString name \<mapsto>
                    entry\<lparr>ge_timer_ids := ge_timer_ids entry @ [i]\<rparr>)\<rparr>)"

fun count_calls :: "(u32 \<Rightarrow> 'cb timer \<Rightarrow> bool \<times> 'cb timer) \<Rightarrow> u32 list \<Rightarrow> nat \<Rightarrow> 'cb timer \<Rightarrow> nat \<times> 'cb timer" where
  "count_calls f [] cnt tm = (cnt, tm)"
| "count_calls f (i # is) cnt tm =
     (let (ok, tm) = f i tm in count_calls f is (if ok then cnt + 1 else cnt) tm)"

definition pauseGroup :: "'cb timer_env \<Rightarrow> string \<Rightarrow> 'cb timer \<Rightarrow> nat \<times> 'cb timer" where
  "pauseGroup env name tm =
     (case findGroup name tm of
        None \<Rightarrow> (0, tm)
      | Some entry \<Rightarrow> count_calls (timer_pause env) (ge_timer_ids entry) 0 tm)"

definition resumeGroup :: "'cb timer_env \<Rightarrow> string \<Rightarrow> 'cb timer \<Rightarrow> nat \<times> 'cb timer" where
  "resumeGroup env name tm =
     (case findGroup name tm of
        None \<Rightarrow> (0, tm)
      | Some entry \<Rightarrow> count_calls (timer_resume env) (ge_timer_ids entry) 0 tm)"

definition clearGroup :: "string \<Rightarrow> 'cb timer \<Rightarrow> nat \<times> 'cb timer" where
  "clearGroup name tm =
     (case groups tm (hashString name) of
        None \<Rightarrow> (0, tm)
      | Some entry \<Rightarrow>
          let (cnt, tm) = count_calls (\<lambda>i tm. (True, snd (with_manager (remove_timer i) tm)))
                            (ge_timer_ids entry) 0 tm
          in (cnt, tm\<lparr>groups := (groups tm)(hashString name := None)\<rparr>))"

definition removeFromGroup :: "string \<Rightarrow> u32 \<Rightarrow> 'cb timer \<Rightarrow> bool \<times> 'cb timer" where
  "removeFromGroup name i tm =
     (case findGroup name tm of
        None \<Rightarrow> (False, tm)
      | Some entry \<Rightarrow>
          (i \<in> set (ge_timer_ids entry),
           tm\<lparr>groups := (groups tm)(hashString name \<mapsto>
             entry\<lparr>ge_timer_ids := remove1 i (ge_timer_ids entry)\<rparr>)\<rparr>))"

definition removeGroup :: "string \<Rightarrow> 'cb timer \<Rightarrow> bool \<times> 'cb timer" where
  "removeGroup name tm =
     (if groups tm (hashString name) = None then (False, tm)
      else (True, tm\<lparr>groups := (groups tm)(hashString name := None)\<rparr>))"

definition groupSize :: "string \<Rightarrow> 'cb timer \<Rightarrow> nat" where
  "groupSize name tm = (case findGroup name tm of None \<Rightarrow> 0 | Some entry \<Rightarrow> length (ge_timer_ids entry))"

definition hasGroup :: "string \<Rightarrow> 'cb timer \<Rightarrow> bool" where
  "hasGroup name tm \<longleftrightarrow> findGroup name tm \<noteq> None"

section \<open>The hardware trigger\<close>

text \<open>\<open>'t\<close> are the timers it can call; \<open>live\<close> records which ESP timers exist. \<open>esp_create\<close> gives the
  handle of a new ESP timer (or fails), \<open>esp_start\<close> says whether arming it succeeds.\<close>

record 't hw_trigger =
  hw_timer :: "'t option"
  hw_interval_us :: "64 word"
  hw_running :: bool
  hw_handle :: "nat option"
  hw_live :: "nat set"

definition HardwareTimerTrigger :: "'t hw_trigger" where
  "HardwareTimerTrigger = \<lparr>hw_timer = None, hw_interval_us = 1000, hw_running = False,
     hw_handle = None, hw_live = {}\<rparr>"

definition initHardwareTimer :: "nat option \<Rightarrow> bool \<Rightarrow> 't hw_trigger \<Rightarrow> bool \<times> 't hw_trigger" where
  "initHardwareTimer esp_create esp_start hw =
     (case esp_create of
        None \<Rightarrow> (False, hw)
      | Some h \<Rightarrow>
          let hw = hw\<lparr>hw_handle := Some h, hw_live := insert h (hw_live hw)\<rparr>
          in if \<not> esp_start
             then (False, hw\<lparr>hw_live := hw_live hw - {h}, hw_handle := None\<rparr>)
             else (True, hw\<lparr>hw_running := True\<rparr>))"

definition hw_start ::
  "nat option \<Rightarrow> bool \<Rightarrow> 't \<Rightarrow> 64 word \<Rightarrow> 't hw_trigger \<Rightarrow> bool \<times> 't hw_trigger" where
  "hw_start esp_create esp_start tm us hw =
     (if hw_running hw then (False, hw)
      else initHardwareTimer esp_create esp_start (hw\<lparr>hw_timer := Some tm, hw_interval_us := us\<rparr>))"

definition hw_stop :: "'t hw_trigger \<Rightarrow> 't hw_trigger" where
  "hw_stop hw =
     (let hw = (case hw_handle hw of
                  None \<Rightarrow> hw
                | Some h \<Rightarrow> hw\<lparr>hw_live := hw_live hw - {h}, hw_handle := None\<rparr>)
      in hw\<lparr>hw_running := False\<rparr>)"

definition hw_restart ::
  "nat option \<Rightarrow> bool \<Rightarrow> 't \<Rightarrow> 64 word \<Rightarrow> 't hw_trigger \<Rightarrow> bool \<times> 't hw_trigger" where
  "hw_restart esp_create esp_start tm us hw = hw_start esp_create esp_start tm us (hw_stop hw)"

definition startHardwareTimer ::
  "nat option \<Rightarrow> bool \<Rightarrow> 't \<Rightarrow> 64 word \<Rightarrow> 'cb timer \<Rightarrow> 't hw_trigger \<Rightarrow> bool \<times> 'cb timer \<times> 't hw_trigger" where
  "startHardwareTimer esp_create esp_start self us tm hw =
     (let (ok, hw) = hw_start esp_create esp_start self us hw
      in (ok, tm\<lparr>hw_timer_active := ok\<rparr>, hw))"

definition stopHardwareTimer :: "'cb timer \<Rightarrow> 't hw_trigger \<Rightarrow> 'cb timer \<times> 't hw_trigger" where
  "stopHardwareTimer tm hw = (tm\<lparr>hw_timer_active := False\<rparr>, hw_stop hw)"

definition hw_ok :: "'t hw_trigger \<Rightarrow> bool" where
  "hw_ok hw \<longleftrightarrow> hw_live hw = set_option (hw_handle hw) \<and> (hw_running hw \<longleftrightarrow> hw_handle hw \<noteq> None) \<and>
     (hw_running hw \<longrightarrow> hw_timer hw \<noteq> None)"

lemma hw_ok_start: "hw_ok hw \<Longrightarrow> hw_ok (snd (hw_start c s tm us hw))"
  by (cases c) (auto simp: hw_ok_def hw_start_def initHardwareTimer_def Let_def)

lemma hw_ok_stop: "hw_ok hw \<Longrightarrow> hw_ok (hw_stop hw)"
  by (cases "hw_handle hw") (auto simp: hw_ok_def hw_stop_def)

end
