(* ===== verification/Timer_Properties.thy ===== *)
theory Timer_Properties
  imports Timer_Facade
begin

text \<open>
  The guarantees of the timer subsystem, each a few steps over the invariant, scheduling and frame
  lemmas: the pool never loses or duplicates a node, due times are right across the wrap of the
  clock, ticks fire timers in deadline order and report exactly those, the outcome of a callback,
  pausing, identifiers, the hardware trigger. Some of them say where the code departs from what
  its comments promise.
\<close>

section \<open>Due times\<close>

text \<open>C34: A timer set at clock reading \<open>start\<close> with a delay below \<open>2\<^sup>3\<^sup>1\<close> ms is due at a later reading
  exactly when at least the delay has elapsed, also when the 32-bit clock has wrapped in between
  (as long as it is less than \<open>2\<^sup>3\<^sup>1\<close> ms overdue); and it is reported due with the drift that
  \<open>calculate_drift\<close> computes.\<close>

theorem due_across_wrap:
  assumes "delay < 2 ^ 31" "elapsed < delay + 2 ^ 31"
  shows "(timer_due (start + of_nat elapsed) (start + of_nat delay) \<longleftrightarrow> delay \<le> elapsed) \<and>
    (delay \<le> elapsed \<longrightarrow>
      calculate_drift (start + of_nat elapsed) (start + of_nat delay) = int elapsed - int delay)"
proof -
  let ?d = "start + of_nat elapsed - (start + of_nat delay) :: u32"
  have eq: "?d = of_nat elapsed - of_nat delay" by simp
  have un: "unat (of_nat n :: u32) = n" if "n < 2 ^ 32" for n
    using that by (simp add: unat_of_nat take_bit_eq_mod)
  have "unat ?d = (if delay \<le> elapsed then elapsed - delay else elapsed + 2 ^ 32 - delay)"
    unfolding eq using assms by (subst unat_sub_if_size) (simp add: un word_size)
  then show ?thesis
    using assms by (auto simp: timer_due_iff calculate_drift_def sint_u32)
qed

theorem due_across_wrap_witness:
  "timer_due (0xFFFFFF00 + of_nat 1000) (0xFFFFFF00 + of_nat 600) \<and>
   \<not> timer_due (0xFFFFFF00 + of_nat 300) (0xFFFFFF00 + of_nat 600) \<and>
   \<not> is_timer_expired_generic (0xFFFFFF00 + of_nat 1000 - 600) (0xFFFFFF00)"
  using due_across_wrap [of 600 1000 "0xFFFFFF00"] due_across_wrap [of 600 300 "0xFFFFFF00"]
  by (simp add: is_timer_expired_generic_def)

section \<open>The pool\<close>

datatype 'cb timer_action = Call "'cb timer_cmd" | Tick

fun run_actions :: "'cb timer_env \<Rightarrow> 'cb timer_action list \<Rightarrow> 'cb timer_manager \<Rightarrow> 'cb timer_manager" where
  "run_actions env [] m = m"
| "run_actions env (Call c # as) m = run_actions env as (exec_cmd env c m)"
| "run_actions env (Tick # as) m = run_actions env as (tick env m)"

lemma inv_run_actions: "timer_inv [] m \<Longrightarrow> timer_inv [] (run_actions env as m)"
  by (induction env as m rule: run_actions.induct) (simp_all add: inv_exec_cmd inv_tick)

lemma mset_set_list:
  assumes "mset xs = mset_set A" "finite A"
  shows "distinct xs" "set xs = A"
proof -
  show "set xs = A" using arg_cong [OF assms(1), of set_mset] assms(2) by simp
  then show "distinct xs" using assms by (auto simp: distinct_count_atmost_1)
qed

lemma length_pool_steps [simp]:
  "length (pool (snd (invoke env tid cb m))) = length (pool m)"
  "length (pool (dispatch_expired env t i m)) = length (pool m)"
  "length (pool (snd (count_repeat i stop m))) = length (pool m)"
  "length (pool (settle env t i stop m)) = length (pool m)"
  by (simp_all add: invoke_def dispatch_expired_def count_repeat_def settle_def Let_def split_beta
      freeFinishedNode_def freeNode_def addActiveNode_def core_now_def split: option.split)

lemma length_pool_run [simp]:
  "length (pool (snd (run_callback env t i m))) = length (pool m)"
  "length (pool (run_node env t i m)) = length (pool m)"
proof -
  show cb: "length (pool (snd (run_callback env t i m))) = length (pool m)" for m
    by (simp add: run_callback_def Let_def split_beta split: option.split)
  show "length (pool (run_node env t i m)) = length (pool m)"
    by (simp add: run_node_def Let_def split_beta cb)
qed

lemma length_pool_collect: "length (pool (snd (collect_due t e q m))) = length (pool m)"
proof (induction t e q m rule: collect_due.induct)
  case (1 t e q m)
  then show ?case by (subst collect_due.simps) (auto simp: Let_def)
qed

lemma length_pool_actions [simp]: "length (pool (run_actions env as m)) = length (pool m)"
proof (induction env as m rule: run_actions.induct)
  case (3 env as m)
  have "length (pool (fold (run_node env t) q m)) = length (pool m)" for t q and m :: "'a timer_manager"
    by (induction q arbitrary: m) simp_all
  then have "length (pool (tick env m)) = length (pool m)"
    by (simp add: tick_def core_now_def process_timers_def split_beta length_pool_collect split: option.split)
  then show ?case using 3 by simp
qed simp_all

lemma kind_counts: "kind_count pl True + kind_count pl False = length (filter (\<lambda>nd. nd_state nd \<noteq> Inactive) pl)"
  unfolding kind_count_def by (induction pl) auto

text \<open>C2: Whatever sequence of calls and ticks the program makes, and whatever its callbacks do, every
  node of the pool is in exactly one of the free, active and paused lists; the two counters add up
  to the number of timers in use, and every timer in use is found under its own identifier.\<close>

theorem timer_pool_partition:
  fixes env :: "'cb timer_env" and acts :: "'cb timer_action list"
  assumes "MaxTimers < 2 ^ 16"
  defines "m \<equiv> run_actions env acts (TimerManager MaxTimers)"
  shows "distinct (free_nodes m @ active_timers m @ paused_timers m) \<and>
    set (free_nodes m @ active_timers m @ paused_timers m) = {0..<MaxTimers} \<and>
    unat (timeout_count m) + unat (interval_count m) = timer_count m \<and>
    (\<forall>i \<in> set (active_timers m @ paused_timers m). lookup (nd_id (node m i)) m = Some i)"
proof -
  have inv: "timer_inv [] m" unfolding m_def
    by (intro inv_run_actions timer_inv_TimerManager assms(1))
  have len: "length (pool m) = MaxTimers"
    by (simp add: m_def TimerManager_def TimerStorage_def timer_storage.extend_def)
  let ?I = "\<lambda>s. {i. i < MaxTimers \<and> nd_state (pool m ! i) = s}"
  note parts = inv [unfolded timer_inv_def parts_def idx_def len]
  have f: "distinct (free_nodes m)" "set (free_nodes m) = ?I Inactive"
    and a: "distinct (active_timers m)" "set (active_timers m) = ?I Active"
    and p: "distinct (paused_timers m)" "set (paused_timers m) = ?I Paused"
    using parts mset_set_list [of "free_nodes m" "?I Inactive"]
      mset_set_list [of "active_timers m" "?I Active"] mset_set_list [of "paused_timers m" "?I Paused"]
    by simp_all
  have none: "?I Processing = {}" using parts by (auto simp: mset_set_empty_iff)
  have dist: "distinct (free_nodes m @ active_timers m @ paused_timers m)" using f a p by auto
  have none': "x < MaxTimers \<Longrightarrow> nd_state (pool m ! x) \<noteq> Processing" for x using none by blast
  have set: "set (free_nodes m @ active_timers m @ paused_timers m) = {0..<MaxTimers}"
    unfolding set_append f(2) a(2) p(2)
  proof (rule set_eqI)
    fix x show "x \<in> ?I Inactive \<union> (?I Active \<union> ?I Paused) \<longleftrightarrow> x \<in> {0..<MaxTimers}"
      using none' [of x] by (cases "nd_state (pool m ! x)") auto
  qed
  have "unat (timeout_count m) + unat (interval_count m) =
      length (filter (\<lambda>nd. nd_state nd \<noteq> Inactive) (pool m))"
    using kind_counts [of "pool m"] parts by simp
  also have "\<dots> = card {i. i < MaxTimers \<and> nd_state (pool m ! i) \<noteq> Inactive}"
    unfolding length_filter_conv_card len ..
  also have "{i. i < MaxTimers \<and> nd_state (pool m ! i) \<noteq> Inactive} = set (active_timers m @ paused_timers m)"
    unfolding set_append a(2) p(2)
  proof (rule set_eqI)
    fix x show "x \<in> {i. i < MaxTimers \<and> nd_state (pool m ! i) \<noteq> Inactive} \<longleftrightarrow> x \<in> ?I Active \<union> ?I Paused"
      using none' [of x] by (cases "nd_state (pool m ! x)") auto
  qed
  also have "card \<dots> = length (active_timers m @ paused_timers m)"
    by (rule distinct_card [OF conjunct1 [OF conjunct2 [OF iffD1 [OF distinct_append dist]]]])
  also have "\<dots> = timer_count m" by (simp add: timer_count_def)
  finally have counts: "unat (timeout_count m) + unat (interval_count m) = timer_count m" .
  have "lookup (nd_id (node m i)) m = Some i" if "i \<in> set (active_timers m @ paused_timers m)" for i
  proof -
    have "i \<in> ?I Active \<or> i \<in> ?I Paused" using that unfolding set_append a(2) p(2) by blast
    then have "i < length (pool m)" "nd_state (node m i) \<noteq> Inactive"
      unfolding node_def len by (elim disjE; simp)+
    then show ?thesis using lookup_own [OF inv, of i "nd_id (node m i)"] by simp
  qed
  then show ?thesis using dist set counts by blast
qed

text \<open>A concrete environment for the witnesses: a clock that stands at a given reading, no
  listeners, callbacks that issue fixed commands.\<close>

definition still_env :: "u32 \<Rightarrow> ('cb \<Rightarrow> 'cb timer_cmd list) \<Rightarrow> 'cb timer_env" where
  "still_env now f = \<lparr>time_source = (\<lambda>_. now), behave = (\<lambda>cb _. (f cb, False)), listeners = None\<rparr>"

theorem timer_pool_partition_witness:
  "let m = run_actions (still_env 5 (\<lambda>_. [])) [Call (SetTimeout ''a'' 3), Call (SetInterval ''b'' 7 0), Tick]
       (TimerManager 4)
   in set (free_nodes m @ active_timers m @ paused_timers m) = {0..<4}"
  using timer_pool_partition [of 4 "still_env 5 (\<lambda>_. [])"
      "[Call (SetTimeout ''a'' 3), Call (SetInterval ''b'' 7 0), Tick]"]
  by (simp add: Let_def)

section \<open>What a tick fires\<close>

lemma collect_due_due:
  assumes "timer_inv [] m" "heap_ok m" "window base m" "unat (t - base) < 2 ^ 31"
    "i \<in> set (fst (collect_due t 0 [] m))"
  shows "timer_due t (next_call_ms (node m i))"
proof -
  obtain ps where q: "fst (collect_due t 0 [] m) = [] @ ps" "pops_in_order base t 0 m ps (snd (collect_due t 0 [] m))"
    using collect_due_order [OF assms(1-4)] by blast
  note p = q(2) [unfolded pops_in_order_def]
  have "set ps \<subseteq> set (active_timers m)" using arg_cong [OF conjunct1 [OF p], of set_mset] by auto
  then have "i \<in> set (active_timers m)" using assms(5) q(1) by auto
  moreover have "key base m i \<le> unat (t - base)" using p assms(5) q(1) by simp
  ultimately show ?thesis using assms(3,4) due_key [of base m i t] by (simp add: window_def)
qed

text \<open>C27: The first loop of \<open>TimerProcessor::process\<close> moves due timers to the execution queue in the
  order of their deadlines, and nothing it leaves in the heap is earlier; but since its guard
  compares the number already popped with the number left, it moves at most half of the active
  timers (rounded up): with \<open>n\<close> active timers of which \<open>d\<close> are due, exactly \<open>min d ((n + 1) div 2)\<close>.
  The deadlines lie in a window of half the clock's range, as \<open>base\<close> and the current time say.\<close>

theorem process_pops_half:
  assumes "timer_inv [] m" "heap_ok m" "window base m" "unat (t - base) < 2 ^ 31"
  defines "queue \<equiv> fst (collect_due t 0 [] m)" and "m' \<equiv> snd (collect_due t 0 [] m)"
  shows "sorted (map (key base m) queue) \<and>
    (\<forall>i \<in> set queue. timer_due t (next_call_ms (node m i))) \<and>
    (\<forall>i \<in> set queue. \<forall>j \<in> set (active_timers m'). key base m i \<le> key base m j) \<and>
    mset (active_timers m) = mset queue + mset (active_timers m') \<and>
    length queue = min (length (filter (\<lambda>i. timer_due t (next_call_ms (node m i))) (active_timers m)))
                       ((length (active_timers m) + 1) div 2)"
proof -
  obtain ps where "fst (collect_due t 0 [] m) = [] @ ps" "pops_in_order base t 0 m ps (snd (collect_due t 0 [] m))"
    using collect_due_order [OF assms(1-4)] by blast
  then have q: "pops_in_order base t 0 m queue m'" by (simp add: queue_def m'_def)
  note p = q [unfolded pops_in_order_def]
  have split: "mset (active_timers m) = mset queue + mset (active_timers m')" using p by blast
  have sub: "set queue \<subseteq> set (active_timers m)" "set (active_timers m') \<subseteq> set (active_timers m)"
    using arg_cong [OF split, of set_mset] by auto
  have due: "timer_due t (next_call_ms (node m i)) \<longleftrightarrow> key base m i \<le> unat (t - base)"
    if "i \<in> set (active_timers m)" for i
    using assms(3,4) that by (intro due_key) (auto simp: window_def)
  let ?P = "\<lambda>i. timer_due t (next_call_ms (node m i))"
  have due_q: "\<forall>i\<in>set queue. ?P i" using p due sub(1) by blast
  have "length (filter ?P (active_timers m)) = size (filter_mset ?P (mset (active_timers m)))"
    by (simp flip: mset_filter)
  also have "\<dots> = length (filter ?P queue) + length (filter ?P (active_timers m'))"
    unfolding split by (simp flip: mset_filter)
  also have "filter ?P queue = queue" using due_q by (simp add: filter_id_conv)
  finally have d: "length (filter ?P (active_timers m)) = length queue + length (filter ?P (active_timers m'))" .
  have n: "length (active_timers m) = length queue + length (active_timers m')"
    using arg_cong [OF split, of size] by simp
  have "\<not> ?P j" if "j \<in> set (active_timers m')" "unat (t - base) < key base m j" for j
    using due [of j] that sub(2) by auto
  then have cases: "length (active_timers m') \<le> length queue \<or> filter ?P (active_timers m') = []"
    using p by (simp add: filter_empty_conv) blast
  have up: "length queue \<le> length (active_timers m') + 1" using p by (cases "queue = []") auto
  have "length queue = min (length (filter ?P (active_timers m))) ((length (active_timers m) + 1) div 2)"
  proof (cases "filter ?P (active_timers m') = []")
    case True
    then show ?thesis using d n up by simp
  next
    case False
    then have "length (active_timers m') \<le> length queue" using cases by blast
    then show ?thesis using d n up by simp
  qed
  then show ?thesis using p split due_q by blast
qed

text \<open>Two timeouts set at clock reading 5.\<close>

definition two_timeouts :: "string timer_manager" where
  "two_timeouts = exec_cmds (still_env 5 (\<lambda>_. [])) [SetTimeout ''a'' 3, SetTimeout ''b'' 4] (TimerManager 2)"

lemma two_timeouts_ok:
  "timer_inv [] two_timeouts" "heap_ok two_timeouts" "window 5 two_timeouts"
  "active_timers two_timeouts = [Suc 0, 0]" "next_call_ms (node two_timeouts (Suc 0)) = 8"
  "next_call_ms (node two_timeouts 0) = 9" "reads two_timeouts = 2"
proof -
  show inv: "timer_inv [] two_timeouts" unfolding two_timeouts_def
    by (intro inv_exec_cmds timer_inv_TimerManager) simp
  have "heap_ok (TimerManager 2)"
    by (simp add: heap_ok_def TimerManager_def TimerStorage_def timer_storage.extend_def is_heap_def heap_from_def)
  then show "heap_ok two_timeouts" unfolding two_timeouts_def
    by (intro heap_ok_exec_cmds [of "[]"] timer_inv_TimerManager) simp_all
  show a: "active_timers two_timeouts = [Suc 0, 0]" by code_simp
  show n: "next_call_ms (node two_timeouts (Suc 0)) = 8" "next_call_ms (node two_timeouts 0) = 9" 
    "reads two_timeouts = 2" by code_simp+
  show "window 5 two_timeouts" by (simp add: window_def a key_def n)
qed

theorem process_pops_half_witness:
  "length (fst (collect_due 100 0 [] two_timeouts)) = 1 \<and>
   timer_due 100 (next_call_ms (node two_timeouts 0)) \<and> timer_due 100 (next_call_ms (node two_timeouts 1))"
  using process_pops_half [OF two_timeouts_ok(1-3), of 100]
  by (simp add: two_timeouts_ok timer_due_iff)

text \<open>The shortcut in \<open>TimerBase::tick\<close>: looking only at the front of the heap decides whether any
  timer is due.\<close>

lemma front_due_iff:
  assumes "heap_ok m" "window base m" "unat (t - base) < 2 ^ 31" "active_timers m \<noteq> []"
  shows "timer_due t (next_call_ms (node m (active_timers m ! 0))) \<longleftrightarrow>
    (\<exists>i \<in> set (active_timers m). timer_due t (next_call_ms (node m i)))"
proof -
  have heap: "is_heap (key base m) (active_timers m)" using assms(1,2) by (simp add: heap_ok_def)
  have due: "timer_due t (next_call_ms (node m i)) \<longleftrightarrow> key base m i \<le> unat (t - base)"
    if "i \<in> set (active_timers m)" for i
    using assms(2,3) that by (intro due_key) (auto simp: window_def)
  show ?thesis using heap.front_least [OF heap] due assms(4) by (meson length_greater_0_conv nth_mem order_trans)
qed

text \<open>The fast path of \<open>tick\<close> is equivalent to asking every timer: \<open>tick\<close> does nothing when the
  active list is empty, reads the clock and returns when no active timer is due, and runs the
  processing loop otherwise.\<close>

theorem tick_fast_path:
  assumes "heap_ok m" "window base m" "unat (time_source env (reads m) - base) < 2 ^ 31"
  shows "tick env m =
    (if active_timers m = [] then m
     else if \<exists>i \<in> set (active_timers m). timer_due (time_source env (reads m)) (next_call_ms (node m i))
     then process_timers env (time_source env (reads m)) (m\<lparr>reads := reads m + 1\<rparr>)
     else m\<lparr>reads := reads m + 1\<rparr>)"
  using front_due_iff [OF assms]
  by (simp add: tick_def getNextExpiry_def core_now_def Let_def timer_due_def)

theorem tick_fast_path_witness:
  "tick (still_env 6 (\<lambda>_. [])) two_timeouts = two_timeouts\<lparr>reads := 3\<rparr>"
  using tick_fast_path [OF two_timeouts_ok(2,3), of "still_env 6 (\<lambda>_. [])"]
  by (simp add: two_timeouts_ok still_env_def timer_due_iff)

section \<open>Expiry events\<close>

lemma log_settle [simp]: "log (settle env t i stop m) = log m"
  by (simp add: settle_def Let_def freeFinishedNode_def freeNode_def dec_kind_def upd_node_def
      core_now_def addActiveNode_def)

lemma log_count_repeat [simp]: "log (snd (count_repeat i stop m)) = log m"
  by (simp add: count_repeat_def upd_node_def Let_def)

definition expiries :: "'cb timer_manager \<Rightarrow> 'cb timer_event list" where
  "expiries m = filter (\<lambda>e. case e of ExpiredEvent _ _ _ _ _ \<Rightarrow> True | Ran _ _ \<Rightarrow> False) (log m)"

definition expired_event :: "u32 \<Rightarrow> 'cb timer_node \<Rightarrow> 'cb timer_event" where
  "expired_event t nd = ExpiredEvent (nd_id nd) (next_call_ms nd) t (calculate_drift t (next_call_ms nd)) (is_interval nd)"

lemma expiries_invoke: "expiries (snd (invoke env tid cb m)) = expiries m"
  by (simp add: expiries_def invoke_def Let_def split_beta)

lemma expiries_run_callback: "expiries (snd (run_callback env t i m)) = expiries m"
  by (simp add: run_callback_def Let_def split_beta expiries_invoke split: option.split)

lemma expiries_dispatch:
  "listeners env \<noteq> None \<Longrightarrow> expiries (dispatch_expired env t i m) = expiries m @ [expired_event t (node m i)]"
  by (auto simp: expiries_def dispatch_expired_def expired_event_def Let_def)

lemma expiries_run_node:
  assumes "listeners env \<noteq> None"
  shows "expiries (run_node env t i m) = expiries m @ [expired_event t (node m i)]"
proof -
  have "expiries (settle env t i stop m') = expiries m'" "expiries (snd (count_repeat i stop m')) = expiries m'"
    for stop and m' :: "'a timer_manager" by (simp_all add: expiries_def)
  then show ?thesis using assms
    by (simp add: run_node_def Let_def split_beta expiries_run_callback expiries_dispatch)
qed

text \<open>The timers still waiting in the execution queue keep what they own.\<close>

lemma owned_run_node:
  assumes "timer_inv (i # q) m" "j \<in> set q"
  shows "owned (node (run_node env t i m) j) = owned (node m j)"
proof -
  let ?m1 = "dispatch_expired env t i m"
  let ?m2 = "snd (run_callback env t i ?m1)"
  let ?m3 = "snd (count_repeat i (fst (run_callback env t i ?m1)) ?m2)"
  have inv1: "timer_inv (i # q) ?m1" by (rule inv_dispatch_expired [OF assms(1)])
  have inv2: "timer_inv (i # q) ?m2" by (rule inv_run_callback [OF inv1])
  have inv3: "timer_inv (i # q) ?m3" by (rule inv_count_repeat [OF inv2])
  have "mset (i # q) = idx (pool m) Processing" using assms(1) by (simp add: timer_inv_def parts_def)
  then have "distinct (i # q)" using mset_set_list(1) by (metis idx_def finite_Collect_conjI finite_Collect_less_nat)
  then have ne: "j \<noteq> i" using assms(2) by auto
  have ib: "i < length (pool ?m2)" using inv_in_queue [OF inv2, of i] by auto
  have "node (run_node env t i m) j = node ?m3 j"
    using ne by (simp add: run_node_def Let_def split_beta node_settle [OF inv3])
  also have "\<dots> = node ?m2 j" using ne by (simp add: node_count_repeat [OF ib])
  finally show ?thesis
    using owned_run_callback [OF inv1, of j env t i] owned_dispatch [OF assms(1), of j env t i] assms(2) by simp
qed

lemma expiries_run_queue:
  assumes "listeners env \<noteq> None" "timer_inv q m"
  shows "expiries (fold (run_node env t) q m) = expiries m @ map (\<lambda>i. expired_event t (node m i)) q"
  using assms(2)
proof (induction q arbitrary: m)
  case (Cons i q)
  have ev: "expired_event t (node (run_node env t i m) j) = expired_event t (node m j)" if "j \<in> set q" for j
    using owned_fields [OF owned_run_node [OF Cons.prems that, of env t]] by (simp add: expired_event_def)
  show ?case
    using Cons.IH [OF inv_run_node [OF Cons.prems, of env t]] ev
    by (simp add: expiries_run_node [OF assms(1)] cong: map_cong)
qed simp

lemma collect_due_keeps:
  "log (snd (collect_due t e q m)) = log m \<and>
   expired_event u (node (snd (collect_due t e q m)) i) = expired_event u (node m i)"
proof (induction t e q m rule: collect_due.induct)
  case (1 t e q m)
  have "expired_event u (node (upd_node j mark_processing m') i) = expired_event u (node m' i)"
    for j and m' :: "'a timer_manager"
    by (simp add: node_upd expired_event_def mark_processing_def)
  moreover have "log (upd_node j f m') = log m'" for j f and m' :: "'a timer_manager"
    by (simp add: upd_node_def)
  ultimately show ?case using "1.IH" by (subst collect_due.simps, subst collect_due.simps) (simp add: Let_def)
qed

text \<open>C14: With an event dispatcher attached, a tick dispatches exactly one expiry event per timer it
  fires, in the order it fires them, each with the identifier and the deadline that timer had when
  the tick began and the drift against the tick's time; no event is sent early. What the callbacks
  and listeners of earlier timers do cannot change the events of later ones.\<close>

theorem tick_expiry_events:
  assumes "timer_inv [] m" "heap_ok m" "window base m" "unat (t - base) < 2 ^ 31" "listeners env \<noteq> None"
  defines "queue \<equiv> fst (collect_due t 0 [] m)"
  shows "expiries (process_timers env t m) = expiries m @ map (\<lambda>i. expired_event t (node m i)) queue \<and>
    (\<forall>i \<in> set queue. timer_due t (next_call_ms (node m i)))"
proof -
  let ?m = "snd (collect_due t 0 [] m)"
  have inv: "timer_inv queue ?m" unfolding queue_def by (rule inv_collect_due [OF assms(1)])
  have keep: "expiries ?m = expiries m" "\<And>i. expired_event t (node ?m i) = expired_event t (node m i)"
    using collect_due_keeps [of t 0 "[]" m t] by (auto simp: expiries_def)
  have "process_timers env t m = fold (run_node env t) queue ?m"
    by (simp add: process_timers_def queue_def split_beta)
  then show ?thesis
    using expiries_run_queue [OF assms(5) inv, of t] keep collect_due_due [OF assms(1-4)]
    by (simp add: queue_def)
qed

definition listening_env :: "'cb timer_env" where
  "listening_env = \<lparr>time_source = (\<lambda>_. 100), behave = (\<lambda>_ _. ([], False)), listeners = Some (\<lambda>_. [])\<rparr>"

theorem tick_expiry_events_witness:
  "expiries (process_timers listening_env 100 two_timeouts) =
   map (\<lambda>i. expired_event 100 (node two_timeouts i)) (fst (collect_due 100 0 [] two_timeouts))"
proof -
  have "expiries two_timeouts = []" by code_simp
  then show ?thesis
    using tick_expiry_events [OF two_timeouts_ok(1-3), of 100 listening_env] by (simp add: listening_env_def)
qed

section \<open>One timer\<close>

text \<open>What becomes of a timer after its callback has run (plain callback, no listeners): it is gone
  if the callback cleared it, paused if the callback paused it, gone if it was a timeout or its last
  repetition; otherwise it is active again, due one interval after the tick's time, with one
  repetition less (an infinite interval stays infinite). The callback ran exactly once.\<close>

theorem callback_outcome:
  assumes "timer_inv (i # q) m" "listeners env = None" "callback (node m i) = Some cb"
    "\<not> is_until (node m i)" "\<not> remove_requested (node m i)" "\<not> pause_requested (node m i)"
  shows "let nd = node m i; m' = run_node env t i m; nd' = node m' i; cs = fst (behave env cb (steps m));
      cleared = (ClearTimer (nd_id nd) \<in> set cs); paused = (PauseTimer (nd_id nd) \<in> set cs);
      finished = (\<not> is_interval nd \<or> repeat_count nd = 1)
    in nd_state nd' = (if cleared then Inactive else if paused then Paused
         else if finished then Inactive else Active) \<and>
       (nd_state nd' = Active \<longrightarrow> next_call_ms nd' = t + interval_ms nd \<and> i \<in> set (active_timers m') \<and>
          repeat_count nd' = (if 0 < repeat_count nd then repeat_count nd - 1 else repeat_count nd)) \<and>
       (nd_state nd' = Inactive \<longrightarrow> lookup (nd_id nd) m' \<noteq> Some i) \<and>
       log m' = log m @ [Ran (nd_id nd) cb]"
proof -
  note out = run_node_outcome [OF assms refl, of t]
  let ?m' = "run_node env t i m"
  have inv: "timer_inv q ?m'" by (rule inv_run_node [OF assms(1)])
  have i: "i < length (pool m)" using inv_in_queue [OF assms(1), of i] by auto
  have "i \<in> set (active_timers ?m')" if "nd_state (node ?m' i) = Active"
    using inv_in_active [OF inv, of i] that i by simp
  moreover have "lookup tid ?m' \<noteq> Some i" if "nd_state (node ?m' i) = Inactive" for tid
    using lookup_some(3) [of tid ?m' i] that by (auto simp: node_def)
  ultimately show ?thesis
    unfolding Let_def using out(1) out(2) out(3) out(5) by auto
qed

text \<open>The first of the two timeouts, due and taken from the heap, with a callback that pauses it.\<close>

lemma running_timeout_ok:
  "timer_inv [Suc 0] (popped two_timeouts)" "callback (node (popped two_timeouts) (Suc 0)) = Some ''a''"
  "\<not> is_until (node (popped two_timeouts) (Suc 0))" "\<not> remove_requested (node (popped two_timeouts) (Suc 0))"
  "\<not> pause_requested (node (popped two_timeouts) (Suc 0))" "nd_id (node (popped two_timeouts) (Suc 0)) = 65537"
proof -
  show "timer_inv [Suc 0] (popped two_timeouts)"
    using inv_pop_due [OF two_timeouts_ok(1)] two_timeouts_ok(4) by (simp add: popped_def)
  show "callback (node (popped two_timeouts) (Suc 0)) = Some ''a''"
    "\<not> is_until (node (popped two_timeouts) (Suc 0))" "\<not> remove_requested (node (popped two_timeouts) (Suc 0))"
    "\<not> pause_requested (node (popped two_timeouts) (Suc 0))"
    "nd_id (node (popped two_timeouts) (Suc 0)) = 65537" by code_simp+
qed

theorem callback_outcome_witness:
  "nd_state (node (run_node (still_env 9 (\<lambda>_. [PauseTimer 65537])) 9 (Suc 0) (popped two_timeouts)) (Suc 0)) = Paused \<and>
   nd_state (node (run_node (still_env 9 (\<lambda>_. [])) 9 (Suc 0) (popped two_timeouts)) (Suc 0)) = Inactive"
proof -
  have env: "listeners (still_env 9 f) = None" "fst (behave (still_env 9 f) cb n) = f cb"
    for f :: "string \<Rightarrow> string timer_cmd list" and cb n by (simp_all add: still_env_def)
  have intv: "\<not> is_interval (node (popped two_timeouts) (Suc 0))" by code_simp
  show ?thesis
    using callback_outcome [OF running_timeout_ok(1) env(1) running_timeout_ok(2-5), where t = 9 and f1 = "\<lambda>_. [PauseTimer 65537]"]
      callback_outcome [OF running_timeout_ok(1) env(1) running_timeout_ok(2-5), where t = 9 and f1 = "\<lambda>_. []"]
    by (simp add: Let_def env intv running_timeout_ok(6))
qed

text \<open>An interval with a finite number of repetitions that is paused from its own last callback
  never ends: the pause wins over the end of the count, the node keeps a repetition count of 0, and
  once it is resumed and runs again it is rescheduled with count 0, which the code treats as
  ``no limit''.\<close>

theorem paused_last_run_never_ends:
  assumes "timer_inv (i # q) m" "listeners env = None" "callback (node m i) = Some cb"
    "\<not> is_until (node m i)" "\<not> remove_requested (node m i)" "\<not> pause_requested (node m i)"
    "is_interval (node m i)" "ClearTimer (nd_id (node m i)) \<notin> set (fst (behave env cb (steps m)))"
  shows "(repeat_count (node m i) = 1 \<and> PauseTimer (nd_id (node m i)) \<in> set (fst (behave env cb (steps m))) \<longrightarrow>
      nd_state (node (run_node env t i m) i) = Paused \<and> repeat_count (node (run_node env t i m) i) = 0) \<and>
    (repeat_count (node m i) = 0 \<and> PauseTimer (nd_id (node m i)) \<notin> set (fst (behave env cb (steps m))) \<longrightarrow>
      nd_state (node (run_node env t i m) i) = Active \<and> repeat_count (node (run_node env t i m) i) = 0)"
  using run_node_outcome [OF assms(1-6) refl, of t] assms(7,8) by auto

definition one_interval :: "string timer_manager" where
  "one_interval = popped (exec_cmds (still_env 5 (\<lambda>_. [])) [SetInterval ''a'' 3 1] (TimerManager 1))"

theorem paused_last_run_never_ends_witness:
  "nd_state (node (run_node (still_env 9 (\<lambda>_. [PauseTimer 65536])) 9 0 one_interval) 0) = Paused \<and>
   repeat_count (node (run_node (still_env 9 (\<lambda>_. [PauseTimer 65536])) 9 0 one_interval) 0) = 0"
proof -
  let ?m = "exec_cmds (still_env 5 (\<lambda>_. [])) [SetInterval ''a'' 3 1] (TimerManager 1)"
  have inv: "timer_inv [] ?m" by (intro inv_exec_cmds timer_inv_TimerManager) simp
  have act: "active_timers ?m = [0]" by code_simp
  have inv: "timer_inv [0] one_interval"
    using inv_pop_due [OF inv] act by (simp add: popped_def one_interval_def)
  have nd: "callback (node one_interval 0) = Some ''a''" "\<not> is_until (node one_interval 0)"
    "\<not> remove_requested (node one_interval 0)" "\<not> pause_requested (node one_interval 0)"
    "is_interval (node one_interval 0)" "nd_id (node one_interval 0) = 65536"
    "repeat_count (node one_interval 0) = 1"
    by code_simp+
  let ?env = "still_env 9 (\<lambda>_. [PauseTimer 65536])"
  have env: "listeners ?env = None" "fst (behave ?env cb n) = [PauseTimer 65536]" for cb :: string and n
    by (simp_all add: still_env_def)
  show ?thesis
    using paused_last_run_never_ends [OF inv env(1) nd(1-5), of 9] nd(6,7) by (simp add: env)
qed

lemma log_run_node:
  assumes "listeners env = None" "callback (node m i) = Some cb" "\<not> is_until (node m i)"
  shows "log (run_node env t i m) = log m @ [Ran (nd_id (node m i)) cb]"
  using assms by (simp add: run_node_def dispatch_expired_def run_callback_def invoke_def Let_def split_beta)

text \<open>Clearing a timer that is already in this tick's execution queue reports success but does not
  stop the callback: it still runs once, later in the same tick.\<close>

theorem cleared_due_timer_still_fires:
  assumes "timer_inv q m" "i \<in> set q" "listeners env = None" "callback (node m i) = Some cb" "\<not> is_until (node m i)"
  defines "r \<equiv> remove_timer (nd_id (node m i)) m"
  shows "fst r \<and> log (run_node env t i (snd r)) = log m @ [Ran (nd_id (node m i)) cb]"
proof -
  have i: "i < length (pool m)" "nd_state (node m i) = Processing" using inv_in_queue [OF assms(1)] assms(2) by auto
  then have "lookup (nd_id (node m i)) m = Some i" using lookup_own [OF assms(1)] by simp
  then have r: "r = (True, upd_node i (remove_requested_update (\<lambda>_. True)) m)"
    using i by (simp add: r_def remove_timer_def)
  have nd: "node (snd r) i = (node m i)\<lparr>remove_requested := True\<rparr>" and l: "log (snd r) = log m"
    using i by (simp_all add: r node_upd) (simp_all add: upd_node_def)
  have "log (run_node env t i (snd r)) = log (snd r) @ [Ran (nd_id (node (snd r) i)) cb]"
    using assms(3-5) nd by (intro log_run_node) simp_all
  then show ?thesis by (simp add: nd l) (simp add: r)
qed

theorem cleared_due_timer_still_fires_witness:
  "log (run_node (still_env 9 (\<lambda>_. [])) 9 (Suc 0) (snd (remove_timer 65537 (popped two_timeouts)))) = [Ran 65537 ''a'']"
proof -
  have "listeners (still_env 9 (\<lambda>_ :: string. [])) = None" "log (popped two_timeouts) = []"
    by (simp add: still_env_def, code_simp)
  then show ?thesis
    using cleared_due_timer_still_fires [OF running_timeout_ok(1), of "Suc 0" "still_env 9 (\<lambda>_. [])" _ 9]
      running_timeout_ok by simp
qed

text \<open>C36: Pausing freezes the time left: a timer that is not yet due when it is paused, and is resumed
  any time later, is due as long after the resumption as it was after the pause.\<close>

theorem pause_resume_keeps_remaining:
  assumes "timer_inv q m" "lookup tid m = Some i" "nd_state (node m i) = Active"
    "\<not> timer_due (time_source env (reads m)) (next_call_ms (node m i))"
  defines "m1 \<equiv> snd (pause env tid m)"
  shows "isPaused tid m1 \<and> i \<notin> set (active_timers m1) \<and>
    (let m2 = snd (resume env2 tid m1) in nd_state (node m2 i) = Active \<and> i \<in> set (active_timers m2) \<and>
       next_call_ms (node m2 i) - time_source env2 (reads m1) = next_call_ms (node m i) - time_source env (reads m))"
proof -
  let ?now = "time_source env (reads m)"
  note l = lookup_some [OF assms(2)]
  have inv1: "timer_inv q m1" unfolding m1_def by (rule inv_pause [OF assms(1)])
  have len: "length (pool m1) = length (pool m)"
    unfolding m1_def using length_pool_exec [of env "PauseTimer tid" m] by simp
  have nd1: "node m1 i = (node m i)\<lparr>remaining_ms := next_call_ms (node m i) - ?now, nd_state := Paused\<rparr>"
    using assms(2-4) l(1) by (simp add: m1_def pause_def core_now_def Let_def removeActiveNode_def
        remaining_at_def node_upd)
  have l1: "lookup tid m1 = Some i"
    using lookup_own [OF inv1, of i tid] len l(1,2) nd1 by (simp add: node_def)
  have inv2: "timer_inv q (snd (resume env2 tid m1))" by (rule inv_resume [OF inv1])
  have room: "length (active_timers m1) < length (pool m1)"
    using inv_room(2) [OF inv1, of i] nd1 len l(1) by simp
  have nd2: "node (snd (resume env2 tid m1)) i =
      (node m1 i)\<lparr>next_call_ms := time_source env2 (reads m1) + remaining_ms (node m1 i), nd_state := Active\<rparr>"
    using l1 nd1 room len l(1)
    by (simp add: resume_def core_now_def Let_def removePausedNode_def node_addActiveNode node_upd)
  have "i \<in> set (active_timers (snd (resume env2 tid m1)))"
    using inv_in_active [OF inv2, of i] nd2 len l(1) length_pool_exec [of env2 "ResumeTimer tid" m1] by simp
  then show ?thesis
    using l1 nd1 nd2 inv_in_active [OF inv1, of i] by (simp add: isPaused_def Let_def)
qed

theorem pause_resume_keeps_remaining_witness:
  "next_call_ms (node (snd (resume (still_env 1000 (\<lambda>_. [])) 65537 (snd (pause (still_env 6 (\<lambda>_. [])) 65537 two_timeouts)))) (Suc 0))
     - 1000 = (2 :: u32)"
proof -
  have "lookup 65537 two_timeouts = Some (Suc 0)" "nd_state (node two_timeouts (Suc 0)) = Active" by code_simp+
  then show ?thesis
    using pause_resume_keeps_remaining [OF two_timeouts_ok(1), of 65537 "Suc 0" "still_env 6 (\<lambda>_. [])" "still_env 1000 (\<lambda>_. [])"]
    by (simp add: two_timeouts_ok timer_due_iff still_env_def Let_def)
qed

section \<open>Identifiers\<close>

lemma next_generation_unat: "unat (next_generation g) = unat g mod 65535 + 1"
proof (cases "g = 0xFFFF")
  case True
  then show ?thesis by (simp add: next_generation_def)
next
  case False
  have "unat g \<noteq> unat (0xFFFF :: u16)" using False by (metis word_unat_eq_iff)
  moreover have "unat g < 2 ^ LENGTH(16)" by (rule unsigned_less)
  ultimately have lt: "unat g < 65535" by simp
  then have "unat g < unat (0xFFFF :: u16)" by simp
  then have "unat (g + 1) = Suc (unat g)" by (rule unat_inc)
  moreover from this have "g + 1 \<noteq> 0" by (metis nat.distinct(1) unat_0)
  ultimately show ?thesis using lt by (simp add: next_generation_def)
qed

lemma generations: "0 < k \<Longrightarrow> unat ((next_generation ^^ k) g) = (unat g + k - 1) mod 65535 + 1"
proof (induction k)
  case (Suc k)
  show ?case
  proof (cases "k = 0")
    case False
    then have "unat ((next_generation ^^ Suc k) g) = ((unat g + k - 1) mod 65535 + 1) mod 65535 + 1"
      using Suc by (simp add: next_generation_unat)
    also have "\<dots> = (unat g + k) mod 65535 + 1"
      using False mod_Suc_eq [of "unat g + k - 1" 65535] by (simp add: Suc_diff_le)
    finally show ?thesis by simp
  qed (simp add: next_generation_unat)
qed simp

text \<open>C33: Timer identifiers are never zero, they lead back to the slot and generation they were made
  from, and an identifier is not handed out again for the next 65534 allocations; the 65535th
  allocation after it repeats its generation, so an old handle can then name a new timer.\<close>

theorem timer_ids_fresh:
  fixes g :: u16
  assumes "0 < j" "j < k"
  defines "gen \<equiv> \<lambda>n. (next_generation ^^ n) g"
  shows "make_id (gen j) a \<noteq> 0 \<and> getIndex (make_id (gen j) a) = a \<and> getGeneration (make_id (gen j) a) = gen j \<and>
    (k - j < 65535 \<longrightarrow> make_id (gen j) a \<noteq> make_id (gen k) b) \<and>
    (k - j = 65535 \<longrightarrow> make_id (gen j) a = make_id (gen k) a)"
proof -
  have "gen j \<noteq> 0" using assms(1) generations [of j g] by (auto simp: gen_def)
  moreover have "gen j \<noteq> gen k" if "k - j < 65535"
  proof
    assume "gen j = gen k"
    then have "(unat g + j - 1) mod 65535 = (unat g + k - 1) mod 65535"
      using generations [of j g] generations [of k g] assms(1,2) by (simp add: gen_def)
    then have "65535 dvd (unat g + k - 1) - (unat g + j - 1)"
      using assms(2) by (intro mod_eq_dvd_iff_nat [THEN iffD1]) simp_all
    then have "65535 dvd k - j" using assms(1,2) by simp
    then show False using that assms(2) by (auto dest: dvd_imp_le)
  qed
  moreover have "gen j = gen k" if "k - j = 65535"
  proof -
    have k: "k = j + 65535" using that assms(2) by simp
    have "unat (gen j) = unat (gen k)"
      using generations [of j g] generations [of k g] assms(1) mod_add_self2 [of "unat g + j - 1" 65535]
      by (simp add: gen_def k add.commute add.left_commute)
    then show ?thesis by (simp only: word_unat_eq_iff)
  qed
  ultimately show ?thesis by (simp add: make_id_nonzero)
qed

theorem timer_ids_fresh_witness:
  "make_id ((next_generation ^^ 1) 7) 3 \<noteq> make_id ((next_generation ^^ 2) 7) 3"
  using timer_ids_fresh [of 1 2 7 3 3] by simp

lemma fst_add_timeout:
  "fst (add_timeout env cb t m) = (if free_nodes m = [] then 0
     else make_id (next_generation (generation_counter m)) (of_nat (last (free_nodes m))))"
  by (simp add: add_timeout_def allocateNode_def core_now_def Let_def INVALID_TIMER_ID_def)

lemma lookup_cleared: "lookup tid (clear_storage m) = None"
  by (simp add: lookup_def clear_storage_def fields Let_def)

text \<open>\<open>TimerManager::clear\<close> also resets the generation counter: the first identifier handed out
  after it is the first one ever handed out, so a handle from before the clear controls the new
  timer.\<close>

theorem clear_reissues_ids:
  fixes env env2 :: "'cb timer_env" and cb cb2 :: 'cb and t t2 :: u32
  assumes "0 < MaxTimers"
  defines "first \<equiv> add_timeout env (Some cb) t (TimerManager MaxTimers)"
  defines "again \<equiv> add_timeout env2 (Some cb2) t2 (clear_manager (snd first))"
  shows "fst first \<noteq> 0 \<and> lookup (fst first) (clear_manager (snd first)) = None \<and> fst again = fst first"
proof -
  have len: "length (pool (snd first)) = MaxTimers"
    using length_pool_exec [of env "SetTimeout cb t" "TimerManager MaxTimers"]
    by (simp add: first_def TimerManager_def TimerStorage_def timer_storage.extend_def)
  have "free_nodes (clear_manager (snd first)) = [0..<MaxTimers]" "generation_counter (clear_manager (snd first)) = 0"
    by (simp_all add: clear_manager_def clear_storage_def max_timers_def len)
  moreover have "free_nodes (TimerManager MaxTimers :: 'cb timer_manager) = [0..<MaxTimers]"
    "generation_counter (TimerManager MaxTimers :: 'cb timer_manager) = 0"
    by (simp_all add: TimerManager_def TimerStorage_def timer_storage.extend_def)
  ultimately have "fst again = fst first" "fst first \<noteq> 0"
    using assms(1) by (simp_all add: first_def again_def fst_add_timeout make_id_nonzero)
  then show ?thesis by (simp add: clear_manager_def lookup_cleared)
qed

theorem clear_reissues_ids_witness:
  "fst (add_timeout (still_env 9 (\<lambda>_. [])) (Some ''b'') 2 (clear_manager (snd (add_timeout (still_env 5 (\<lambda>_. [])) (Some ''a'') 1 (TimerManager 4)))))
   = fst (add_timeout (still_env 5 (\<lambda>_. [])) (Some ''a'') 1 (TimerManager 4))"
  using clear_reissues_ids [of 4 "still_env 5 (\<lambda>_. [])" "''a''" 1 "still_env 9 (\<lambda>_. [])" "''b''" 2] by simp

section \<open>The hardware trigger\<close>

datatype 't hw_call = HwStart "nat option" bool 't "64 word" | HwStop | HwRestart "nat option" bool 't "64 word"

fun hw_run :: "'t hw_call list \<Rightarrow> 't hw_trigger \<Rightarrow> 't hw_trigger" where
  "hw_run [] hw = hw"
| "hw_run (HwStart c s tm us # cs) hw = hw_run cs (snd (hw_start c s tm us hw))"
| "hw_run (HwStop # cs) hw = hw_run cs (hw_stop hw)"
| "hw_run (HwRestart c s tm us # cs) hw = hw_run cs (snd (hw_restart c s tm us hw))"

lemma hw_ok_run: "hw_ok hw \<Longrightarrow> hw_ok (hw_run cs hw)"
  by (induction cs hw rule: hw_run.induct) (simp_all add: hw_ok_start hw_ok_stop hw_restart_def)

text \<open>Whatever sequence of starts, stops and restarts is made and however the ESP calls fail, at most
  one ESP timer exists, it exists exactly while the trigger is running, and it has a timer to call.
  But the facade's own flag does not follow: a second \<open>startHardwareTimer\<close> while the trigger runs
  returns false and marks the timer as not hardware-driven, although it still is.\<close>

theorem hardware_trigger_owns_one:
  fixes cs :: "'t hw_call list"
  defines "hw \<equiv> hw_run cs HardwareTimerTrigger"
  shows "hw_live hw = set_option (hw_handle hw) \<and> (hw_running hw \<longleftrightarrow> hw_handle hw \<noteq> None) \<and>
    (hw_running hw \<longrightarrow> hw_timer hw \<noteq> None \<and>
       (let (ok, tm', hw') = startHardwareTimer c s self us tm hw in \<not> ok \<and> \<not> hw_timer_active tm' \<and> hw' = hw))"
proof -
  have "hw_ok HardwareTimerTrigger" by (simp add: hw_ok_def HardwareTimerTrigger_def)
  then have "hw_ok hw" unfolding hw_def by (rule hw_ok_run)
  then show ?thesis by (auto simp: hw_ok_def startHardwareTimer_def hw_start_def)
qed

theorem hardware_trigger_owns_one_witness:
  "let hw = hw_run [HwStart (Some 7) True ''t'' 1000] HardwareTimerTrigger
   in hw_running hw \<and> hw_live hw = {7} \<and> \<not> hw_timer_active (fst (snd (startHardwareTimer (Some 8) True ''t'' 500 (TimerBase 2 :: string timer) hw)))"
  using hardware_trigger_owns_one [of "[HwStart (Some 7) True ''t'' 1000]" "Some 8" True "''t''" 500 "TimerBase 2 :: string timer"]
  by (simp add: Let_def split_beta hw_start_def initHardwareTimer_def HardwareTimerTrigger_def)

end
