(* ===== verification/WiFi_Net.thy ===== *)
theory WiFi_Net
  imports Prelude
begin

text \<open>
  IPv4 arithmetic of \<open>src/lib/WiFi/src/WiFiGeneric.cpp\<close> (network id, broadcast address, prefix
  length, byte order), the choice of the DHCP lease range, and the configuration of an interface
  (\<open>set_esp_interface_ip\<close>, \<open>set_esp_interface_dns\<close>). An \<open>IPAddress\<close> is the 32-bit word the code
  casts it to: octet 0 is the lowest byte.
  The calls into ESP-IDF are a parameter: an environment that answers each call with an error code
  and may look at all earlier calls. The state threaded through is the list of calls made so far.
\<close>

section \<open>The driver interface\<close>

datatype esp_err = ESP_OK | ESP_FAIL | ESP_ERR_INVALID_STATE | ESP_ERR_ESP_NETIF_DHCP_ALREADY_STOPPED
  | ESP_ERR_OTHER int

datatype esp_interface = ESP_IF_WIFI_STA | ESP_IF_WIFI_AP | ESP_IF_ETH | ESP_IF_MAX

datatype dns_kind = DNS_MAIN | DNS_BACKUP | DNS_FALLBACK

datatype event_base = WIFI_EVENT | IP_EVENT | SC_EVENT | ETH_EVENT | WIFI_PROV_EVENT

datatype wifi_ps = WIFI_PS_NONE | WIFI_PS_MIN_MODEM | WIFI_PS_MAX_MODEM

text \<open>A WiFi mode is the set of its two bits (\<open>WIFI_MODE_STA\<close>, \<open>WIFI_MODE_AP\<close>).\<close>

record wifi_mode =
  mode_sta :: bool
  mode_ap :: bool

text \<open>The fields of a station configuration that depend on the arguments of \<open>wifi_sta_config\<close>.\<close>

datatype wifi_scan_method = WIFI_FAST_SCAN | WIFI_ALL_CHANNEL_SCAN
datatype wifi_sort_method = WIFI_CONNECT_AP_BY_SIGNAL | WIFI_CONNECT_AP_BY_SECURITY

record sta_config =
  sta_ssid :: string
  sta_password :: string
  sta_bssid :: "u8 list option"
  sta_channel :: u8
  sta_authmode :: "nat option"
  sta_scan_method :: wifi_scan_method
  sta_sort_method :: wifi_sort_method

text \<open>The access point configuration: character arrays of 32 and 64 bytes, and what the library sets.\<close>

record ap_config =
  ap_ssid :: string
  ap_ssid_len :: u8
  ap_password :: string
  ap_channel :: u8
  ap_authmode :: nat
  ap_ssid_hidden :: u8
  ap_max_connection :: u8
  ap_beacon_interval :: u16
  ap_pairwise_cipher :: nat
  ap_ftm_responder :: bool

text \<open>A record of a scan, or of the access point of the station, and the addresses of an interface.\<close>

record ap_record =
  rec_ssid :: string
  rec_bssid :: "u8 list"
  rec_primary :: u8
  rec_rssi :: int
  rec_authmode :: nat

record ip_info =
  ip_addr :: u32
  ip_netmask :: u32
  ip_gw :: u32

text \<open>The request of a distance measurement, and the antennas: four lines with a select bit and a number of 7 bits, and
  the modes, where antenna 2 is \<open>WIFI_ANT_MAX\<close>.\<close>

record ftm_config =
  ftm_mac :: "u8 list"
  ftm_channel :: u8
  ftm_frm_count :: u8
  ftm_burst_period :: u16

datatype wifi_ant_mode = WIFI_ANT_MODE_ANT0 | WIFI_ANT_MODE_ANT1 | WIFI_ANT_MODE_AUTO

record ant_config =
  rx_ant_mode :: wifi_ant_mode
  rx_ant_default :: nat
  tx_ant_mode :: wifi_ant_mode
  enabled_ant0 :: nat
  enabled_ant1 :: nat

datatype (plugins only: code size) esp_call =
    Netif_dhcpc_get_status esp_interface
  | Netif_dhcpc_stop esp_interface
  | Netif_dhcpc_start esp_interface
  | Netif_set_ip_info esp_interface u32 u32 u32
  | Netif_dhcps_get_status esp_interface
  | Netif_dhcps_stop esp_interface
  | Netif_dhcps_set_lease esp_interface u32 u32
  | Netif_dhcps_start esp_interface
  | Netif_set_dns_info esp_interface dns_kind u32
  | Netif_set_hostname esp_interface string
  | Netif_init
  | Netif_create_default esp_interface
  | Efuse_mac_get
  | Base_mac_set
  | Event_group_create
  | Event_queue_create
  | Event_malloc
  | Event_queue_send
  | Event_loop_create
  | Event_task_create
  | Event_handler_register event_base
  | Wifi_init bool
  | Wifi_set_storage_ram
  | Wifi_deinit
  | Wifi_start
  | Wifi_stop
  | Wifi_restore
  | Wifi_get_mac
  | Wifi_get_mode
  | Wifi_set_mode wifi_mode
  | Wifi_set_protocol_lr esp_interface
  | Wifi_set_ps wifi_ps
  | Wifi_connect
  | Wifi_disconnect
  | Wifi_get_config
  | Wifi_set_config sta_config
  | Wifi_ap_get_sta_list
  | Wifi_scan_start
  | Wifi_scan_get_ap_num
  | Wifi_scan_get_ap_records nat
  | Wifi_set_max_tx_power int
  | Smartconfig_stop
  | Smartconfig_set_type nat
  | Smartconfig_start "string option"
  | Wifi_get_ap_config
  | Wifi_set_ap_config ap_config
  | Wifi_get_ap_mac
  | Wifi_sta_get_ap_info
  | Read_mac
  | Netif_get_ip_info "nat option"
  | Netif_get_hostname "nat option"
  | Netif_put_hostname "nat option" "string option"
  | Netif_create_ip6 "nat option"
  | Netif_get_ip6 "nat option"
  | Dns_getserver u8
  | Wpa2_set_ca string
  | Wpa2_set_cert_key string string
  | Wpa2_set_identity string
  | Wpa2_set_username string
  | Wpa2_set_password string
  | Wpa2_enable
  | Wifi_get_channel
  | Wifi_get_max_tx_power
  | Wifi_ftm_initiate_session ftm_config
  | Wifi_get_ant_gpio
  | Wifi_set_ant_gpio "(bool \<times> u8) list"
  | Wifi_set_ant ant_config
  | Prov_mgr_deinit

type_synonym esp_env = "esp_call list \<Rightarrow> esp_call \<Rightarrow> esp_err"

text \<open>What the driver returns through pointers, after the calls made so far, and the name of the target
  (\<open>CONFIG_IDF_TARGET\<close>).\<close>

record esp_driver =
  answer :: esp_env
  got_mode :: "esp_call list \<Rightarrow> wifi_mode"
  got_config :: "esp_call list \<Rightarrow> sta_config"
  got_clients :: "esp_call list \<Rightarrow> nat"
  got_ap_num :: "esp_call list \<Rightarrow> u16"
  got_mac :: "esp_call list \<Rightarrow> u8 list"
  got_ap_config :: "esp_call list \<Rightarrow> ap_config"
  got_ap_info :: "esp_call list \<Rightarrow> ap_record"
  got_ap_records :: "esp_call list \<Rightarrow> ap_record list"
  got_ip_info :: "esp_call list \<Rightarrow> ip_info"
  got_hostname :: "esp_call list \<Rightarrow> string option"
  got_ip6 :: "esp_call list \<Rightarrow> u8 list"
  got_dns :: "esp_call list \<Rightarrow> u32"
  got_channel :: "esp_call list \<Rightarrow> u8"
  got_tx_power :: "esp_call list \<Rightarrow> int"
  got_ant_gpio :: "esp_call list \<Rightarrow> (bool \<times> u8) list"
  idf_target :: string

text \<open>The array \<open>esp_netifs\<close>: a network interface object (a handle) or NULL for each interface.\<close>

type_synonym netif_table = "esp_interface \<Rightarrow> nat option"

definition esp :: "esp_env \<Rightarrow> esp_call \<Rightarrow> esp_call list \<Rightarrow> esp_err \<times> esp_call list" where
  "esp env c calls = (env calls c, calls @ [c])"

definition get_esp_netif_interface :: "netif_table \<Rightarrow> nat option \<Rightarrow> esp_interface" where
  "get_esp_netif_interface tab esp_netif =
     (case filter (\<lambda>i. tab i \<noteq> None \<and> tab i = esp_netif) [ESP_IF_WIFI_STA, ESP_IF_WIFI_AP, ESP_IF_ETH] of
        [] \<Rightarrow> ESP_IF_MAX | i # _ \<Rightarrow> i)"

definition add_esp_interface_netif :: "esp_interface \<Rightarrow> nat option \<Rightarrow> netif_table \<Rightarrow> netif_table" where
  "add_esp_interface_netif i esp_netif tab = (if i \<noteq> ESP_IF_MAX then tab(i := esp_netif) else tab)"

definition get_esp_interface_netif :: "esp_interface \<Rightarrow> netif_table \<Rightarrow> nat option" where
  "get_esp_interface_netif i tab = (if i \<noteq> ESP_IF_MAX then tab i else None)"

definition set_esp_interface_hostname ::
  "esp_env \<Rightarrow> esp_interface \<Rightarrow> string \<Rightarrow> esp_call list \<Rightarrow> esp_err \<times> esp_call list" where
  "set_esp_interface_hostname env i hostname cs =
     (if i \<noteq> ESP_IF_MAX then esp env (Netif_set_hostname i hostname) cs else (ESP_FAIL, cs))"

section \<open>IPv4 arithmetic\<close>

definition octet :: "u32 \<Rightarrow> nat \<Rightarrow> u8" where
  "octet a i = ucast (drop_bit (8 * i) a)"

definition of_octets :: "u8 \<Rightarrow> u8 \<Rightarrow> u8 \<Rightarrow> u8 \<Rightarrow> u32" where
  "of_octets a b c d = ucast a OR push_bit 8 (ucast b) OR push_bit 16 (ucast c) OR push_bit 24 (ucast d)"

definition byte_swap32 :: "u32 \<Rightarrow> u32" where
  "byte_swap32 num = (drop_bit 24 num AND 0xff) OR (push_bit 8 num AND 0xff0000)
     OR (drop_bit 8 num AND 0xff00) OR (push_bit 24 num AND 0xff000000)"

definition calculateNetworkID :: "u32 \<Rightarrow> u32 \<Rightarrow> u32" where
  "calculateNetworkID ip subnet =
     (let n = (\<lambda>i. octet subnet i AND octet ip i) in of_octets (n 0) (n 1) (n 2) (n 3))"

definition calculateBroadcast :: "u32 \<Rightarrow> u32 \<Rightarrow> u32" where
  "calculateBroadcast ip subnet =
     (let n = (\<lambda>i. NOT (octet subnet i) OR octet ip i) in of_octets (n 0) (n 1) (n 2) (n 3))"

definition octet_bits :: "u8 \<Rightarrow> u8" where
  "octet_bits b =
     (if b = 0x80 then 1 else if b = 0xC0 then 2 else if b = 0xE0 then 3 else if b = 0xF0 then 4
      else if b = 0xF8 then 5 else if b = 0xFC then 6 else if b = 0xFE then 7 else if b = 0xFF then 8 else 0)"

definition calculateSubnetCIDR :: "u32 \<Rightarrow> u8" where
  "calculateSubnetCIDR subnetMask = fold (\<lambda>i cidr. cidr + octet_bits (octet subnetMask i)) [0..<4] 0"

section \<open>The DHCP lease range\<close>

text \<open>The checks of \<open>set_esp_interface_ip\<close> for the access point, in host byte order; \<open>None\<close> is the
  early return with \<open>ESP_FAIL\<close>, otherwise the first and last address of the lease.\<close>

definition dhcp_lease :: "u32 \<Rightarrow> u32 \<Rightarrow> u32 \<Rightarrow> u32 \<Rightarrow> (u32 \<times> u32) option" where
  "dhcp_lease local_ip gateway subnet dhcp_lease_start =
     (let cidr = calculateSubnetCIDR subnet
      in if 28 < cidr \<or> cidr < 24 then None
      else let netmask = byte_swap32 subnet;
               ap_ipaddr = byte_swap32 local_ip;
               dhcp_ipaddr = byte_swap32 dhcp_lease_start;
               dhcp_ipaddr = (if dhcp_ipaddr = 0 then ap_ipaddr + 1 else dhcp_ipaddr);
               leaseStartMax = NOT netmask - 10;
               start = dhcp_ipaddr; stop = start + 10
           in if (ap_ipaddr AND netmask) \<noteq> (dhcp_ipaddr AND netmask) then None
           else let (start, stop) =
                      (if leaseStartMax \<le> (dhcp_ipaddr AND NOT netmask)
                       then let s = (dhcp_ipaddr AND netmask) + 1 in (s, s + 10) else (start, stop))
                in if start \<le> ap_ipaddr \<and> ap_ipaddr \<le> stop then None
                else let gw_ipaddr = byte_swap32 gateway;
                         gw_in_same_subnet = ((gw_ipaddr AND netmask) = (ap_ipaddr AND netmask))
                     in if gw_in_same_subnet \<and> start \<le> gw_ipaddr \<and> gw_ipaddr \<le> stop then None
                     else Some (start, stop))"

definition set_esp_interface_ip ::
  "esp_env \<Rightarrow> esp_interface \<Rightarrow> u32 \<Rightarrow> u32 \<Rightarrow> u32 \<Rightarrow> u32 \<Rightarrow> esp_call list \<Rightarrow> esp_err \<times> esp_call list" where
  "set_esp_interface_ip env interface local_ip gateway subnet dhcp_lease_start cs =
     (if interface \<noteq> ESP_IF_WIFI_AP
      then let (err, cs) = esp env (Netif_dhcpc_get_status interface) cs
           in if err \<noteq> ESP_OK then (err, cs)
           else let (err, cs) = esp env (Netif_dhcpc_stop interface) cs
           in if err \<noteq> ESP_OK \<and> err \<noteq> ESP_ERR_ESP_NETIF_DHCP_ALREADY_STOPPED then (err, cs)
           else let (err, cs) = esp env (Netif_set_ip_info interface local_ip gateway subnet) cs
           in if err \<noteq> ESP_OK then (err, cs)
           else if local_ip = 0 then esp env (Netif_dhcpc_start interface) cs else (err, cs)
      else let (err, cs) = esp env (Netif_dhcps_get_status interface) cs
           in if err \<noteq> ESP_OK then (err, cs)
           else let (err, cs) = esp env (Netif_dhcps_stop interface) cs
           in if err \<noteq> ESP_OK \<and> err \<noteq> ESP_ERR_ESP_NETIF_DHCP_ALREADY_STOPPED then (err, cs)
           else let (err, cs) = esp env (Netif_set_ip_info interface local_ip gateway subnet) cs
           in if err \<noteq> ESP_OK then (err, cs)
           else case dhcp_lease local_ip gateway subnet dhcp_lease_start of
             None \<Rightarrow> (ESP_FAIL, cs)
           | Some (start, stop) \<Rightarrow>
               let (err, cs) = esp env (Netif_dhcps_set_lease interface (byte_swap32 start) (byte_swap32 stop)) cs
               in if err \<noteq> ESP_OK then (err, cs)
               else esp env (Netif_dhcps_start interface) cs)"

definition set_dns ::
  "esp_env \<Rightarrow> esp_interface \<Rightarrow> dns_kind \<Rightarrow> u32 \<Rightarrow> esp_call list \<Rightarrow> bool \<times> esp_call list" where
  "set_dns env interface k addr cs =
     (if addr = 0 then (True, cs)
      else let (err, cs) = esp env (Netif_set_dns_info interface k addr) cs in (err = ESP_OK, cs))"

definition set_esp_interface_dns ::
  "esp_env \<Rightarrow> esp_interface \<Rightarrow> u32 \<Rightarrow> u32 \<Rightarrow> u32 \<Rightarrow> esp_call list \<Rightarrow> esp_err \<times> esp_call list" where
  "set_esp_interface_dns env interface main_dns backup_dns fallback_dns cs =
     (let (ok, cs) = set_dns env interface DNS_MAIN main_dns cs
      in if \<not> ok then (ESP_FAIL, cs)
      else if interface = ESP_IF_WIFI_AP then (ESP_OK, cs)
      else let (ok, cs) = set_dns env interface DNS_BACKUP backup_dns cs
      in if \<not> ok then (ESP_FAIL, cs)
      else let (ok, cs) = set_dns env interface DNS_FALLBACK fallback_dns cs
      in if \<not> ok then (ESP_FAIL, cs) else (ESP_OK, cs))"

section \<open>Lemmas\<close>

lemma mask_numerals:
  "(0xff :: u32) = mask 8" "(0xff00 :: u32) = push_bit 8 (mask 8)"
  "(0xff0000 :: u32) = push_bit 16 (mask 8)" "(0xff000000 :: u32) = push_bit 24 (mask 8)"
  by (simp_all add: mask_eq_exp_minus_1 push_bit_eq_mult)

lemma bit_u8: "bit (b :: u8) n \<Longrightarrow> n < 8"
  using bit_imp_le_length [of b n] by simp

lemma bit_u32: "bit (a :: u32) n \<Longrightarrow> n < 32"
  using bit_imp_le_length [of a n] by simp

lemma bit_octet: "bit (octet a i) n \<longleftrightarrow> n < 8 \<and> bit a (8 * i + n)"
  by (simp add: octet_def bit_simps)

lemma bit_of_octets:
  "bit (of_octets a b c d) n \<longleftrightarrow>
     bit a n \<or> (8 \<le> n \<and> bit b (n - 8)) \<or> (16 \<le> n \<and> bit c (n - 16)) \<or> (24 \<le> n \<and> bit d (n - 24))"
  using bit_u8 [of a n] bit_u8 [of b "n - 8"] bit_u8 [of c "n - 16"] bit_u8 [of d "n - 24"]
  by (auto simp: of_octets_def bit_simps)

lemma bit_mask_u32: "bit (mask 8 :: u32) n \<longleftrightarrow> n < 8"
  by (auto simp: bit_simps)

lemma bit_byte_mask:
  "bit (push_bit k (mask 8) :: u32) n \<longleftrightarrow> k \<le> n \<and> n < k + 8 \<and> n < 32"
  by (auto simp: bit_simps)

lemma bit_shifted:
  "bit (push_bit k a :: u32) n \<longleftrightarrow> k \<le> n \<and> n < 32 \<and> bit a (n - k)"
  by (auto simp: bit_simps dest: bit_u32)

lemma bit_byte_swap:
  "bit (byte_swap32 a) n \<longleftrightarrow>
     (n < 8 \<and> bit a (24 + n)) \<or> (8 \<le> n \<and> n < 16 \<and> bit a (8 + n)) \<or>
     (16 \<le> n \<and> n < 24 \<and> bit a (n - 8)) \<or> (24 \<le> n \<and> n < 32 \<and> bit a (n - 24))"
  unfolding byte_swap32_def mask_numerals bit_or_iff bit_and_iff bit_shifted bit_byte_mask
    bit_drop_bit_eq o_def bit_mask_u32
  by (auto dest: bit_u32)

lemma byte_word_eqI:
  assumes "\<And>i k. i < 4 \<Longrightarrow> k < 8 \<Longrightarrow> bit x (8 * i + k) = bit (y :: u32) (8 * i + k)"
  shows "x = y"
proof (rule bit_word_eqI)
  fix n :: nat assume "n < LENGTH(32)"
  then have "n div 8 < 4" "n mod 8 < 8" by auto
  from assms [OF this] show "bit x n = bit y n" by simp
qed

lemma less_4_cases: "i < 4 \<Longrightarrow> i = 0 \<or> i = 1 \<or> i = 2 \<or> i = (3 :: nat)"
  by linarith

lemma bit_of_octets_at:
  assumes "i < 4" "k < 8"
  shows "bit (of_octets a b c d) (8 * i + k) = bit ([a, b, c, d] ! i) k"
  using less_4_cases [OF assms(1)] assms(2)
  by (elim disjE) (auto simp: bit_of_octets dest: bit_u8)

lemma bit_byte_swap_at:
  assumes "i < 4" "k < 8"
  shows "bit (byte_swap32 a) (8 * i + k) = bit a (8 * (3 - i) + k)"
  using less_4_cases [OF assms(1)] assms(2) by (elim disjE) (simp_all add: bit_byte_swap)

lemma octet_of_octets:
  assumes "i < 4"
  shows "octet (of_octets a b c d) i = [a, b, c, d] ! i"
proof (rule bit_word_eqI)
  fix k :: nat assume "k < LENGTH(8)"
  then show "bit (octet (of_octets a b c d) i) k = bit ([a, b, c, d] ! i) k"
    using assms by (simp add: bit_octet bit_of_octets_at)
qed

lemma of_octets_octet: "of_octets (octet a 0) (octet a 1) (octet a 2) (octet a 3) = a"
proof (rule byte_word_eqI)
  fix i k :: nat assume i: "i < 4" and k: "k < 8"
  show "bit (of_octets (octet a 0) (octet a 1) (octet a 2) (octet a 3)) (8 * i + k) = bit a (8 * i + k)"
    using less_4_cases [OF i] unfolding bit_of_octets_at [OF i k]
    by (elim disjE) (simp_all add: bit_octet k)
qed

lemma byte_swap_swap [simp]: "byte_swap32 (byte_swap32 a) = a"
  by (rule byte_word_eqI) (simp add: bit_byte_swap_at)

section \<open>Prefix masks and host parts\<close>

text \<open>The netmask of length \<open>n\<close>, in host byte order.\<close>

definition prefix_mask :: "nat \<Rightarrow> u32" where
  "prefix_mask n = NOT (mask (32 - n))"

lemma unat_net: "unat (drop_bit m (x :: u32)) = unat x div 2 ^ m"
proof -
  have "take_bit 32 (unat x) = unat x"
    by (rule take_bit_nat_eq_self) (use unsigned_less [of x] in simp)
  then show ?thesis by (simp only: unsigned_drop_bit_eq) (simp add: drop_bit_eq_div)
qed

lemma same_net_iff:
  "(x AND NOT (mask m)) = (y AND NOT (mask m)) \<longleftrightarrow> unat (x :: u32) div 2 ^ m = unat y div 2 ^ m"
proof
  assume eq: "(x AND NOT (mask m)) = (y AND NOT (mask m))"
  have "drop_bit m x = drop_bit m y"
  proof (rule bit_word_eqI)
    fix n assume "n < LENGTH(32)"
    have "bit (x AND NOT (mask m)) (m + n) = bit (y AND NOT (mask m)) (m + n)" by (simp only: eq)
    then show "bit (drop_bit m x) n = bit (drop_bit m y) n"
      by (auto simp: bit_simps dest: bit_u32)
  qed
  then have "unat (drop_bit m x) = unat (drop_bit m y)" by simp
  then show "unat x div 2 ^ m = unat y div 2 ^ m" by (simp only: unat_net)
next
  assume eq: "unat x div 2 ^ m = unat y div 2 ^ m"
  then have d: "drop_bit m x = drop_bit m y"
    by (metis unat_net unsigned_word_eqI)
  show "(x AND NOT (mask m)) = (y AND NOT (mask m))"
  proof (rule bit_word_eqI)
    fix n assume "n < LENGTH(32)"
    have "bit (drop_bit m x) (n - m) = bit (drop_bit m y) (n - m)" by (simp only: d)
    then show "bit (x AND NOT (mask m)) n = bit (y AND NOT (mask m)) n"
      by (auto simp: bit_simps)
  qed
qed

lemma unat_host: "unat ((x :: u32) AND mask m) = unat x mod 2 ^ m"
  by (metis take_bit_eq_mask unsigned_take_bit_eq take_bit_eq_mod)

lemma unat_mask_u32: "m \<le> 32 \<Longrightarrow> unat (mask m :: u32) = 2 ^ m - 1"
proof -
  assume m: "m \<le> 32"
  have "unat (mask m :: u32) = mask m"
    using m by (intro bit_eqI) (auto simp: bit_simps)
  then show ?thesis by (simp add: mask_eq_exp_minus_1)
qed

lemma unat_add_in_net:
  assumes "unat (x :: u32) mod 2 ^ m + k < 2 ^ m" "m \<le> 32"
  shows "unat (x + of_nat k) = unat x + k"
proof -
  have "unat x < 2 ^ 32" using unsigned_less [of x] by simp
  then have "unat x div 2 ^ m < 2 ^ (32 - m)"
    using assms(2) by (simp add: less_mult_imp_div_less flip: power_add)
  then have "(unat x div 2 ^ m + 1) * 2 ^ m \<le> 2 ^ (32 - m) * 2 ^ m"
    by (intro mult_right_mono) auto
  then have "unat x div 2 ^ m * 2 ^ m + 2 ^ m \<le> 2 ^ 32"
    using assms(2) by (simp add: algebra_simps flip: power_add)
  then have lt: "unat x + k < 2 ^ 32"
    using assms(1) div_mult_mod_eq [of "unat x" "2 ^ m"] by linarith
  then have "unat (of_nat k :: u32) = k" by (simp add: unat_of_nat take_bit_eq_mod)
  then show ?thesis using lt by (simp add: unat_word_ariths unat_plus_if_size word_size)
qed


end
