(* ===== verification/WiFi_Lease.thy ===== *)
theory WiFi_Lease
  imports WiFi_Net
begin

text \<open>
  What the IPv4 arithmetic of \<open>WiFi_Net\<close> and the configuration of an interface promise: the prefix
  length, network id and broadcast address agree with the word-level definitions; an accepted DHCP
  range lies in the subnet of the access point and contains neither the broadcast address, nor the
  access point, nor the gateway; a configuration succeeds exactly when all its driver calls do.
\<close>

section \<open>Octet-wise and word-level arithmetic\<close>

lemma network_id_word: "calculateNetworkID ip subnet = (ip AND subnet)"
proof (rule byte_word_eqI)
  fix i k :: nat assume i: "i < 4" and k: "k < 8"
  show "bit (calculateNetworkID ip subnet) (8 * i + k) = bit (ip AND subnet) (8 * i + k)"
    using less_4_cases [OF i] unfolding calculateNetworkID_def Let_def bit_of_octets_at [OF i k]
    by (elim disjE) (auto simp: bit_octet bit_and_iff k)
qed

lemma broadcast_word: "calculateBroadcast ip subnet = (ip OR NOT subnet)"
proof (rule byte_word_eqI)
  fix i k :: nat assume i: "i < 4" and k: "k < 8"
  then have "8 * i + k < 32" by linarith
  then show "bit (calculateBroadcast ip subnet) (8 * i + k) = bit (ip OR NOT subnet) (8 * i + k)"
    using less_4_cases [OF i] k unfolding calculateBroadcast_def Let_def bit_of_octets_at [OF i k]
    by (elim disjE) (auto simp: bit_octet bit_or_iff bit_not_iff)
qed

lemma octet_bits_prefix: "\<forall>j \<in> set [0..<9]. octet_bits (NOT (mask (8 - j))) = of_nat j"
  by code_simp

lemma octet_prefix:
  assumes "i < 4" "n \<le> 32"
  shows "octet (byte_swap32 (prefix_mask n)) i = NOT (mask (8 - min 8 (n - 8 * i)))"
proof (rule bit_word_eqI)
  fix k :: nat assume "k < LENGTH(8)"
  then have k: "k < 8" by simp
  then have "8 * (3 - i) + k < 32" using assms(1) by linarith
  then show "bit (octet (byte_swap32 (prefix_mask n)) i) k = bit (NOT (mask (8 - min 8 (n - 8 * i))) :: u8) k"
    using k assms unfolding bit_octet bit_byte_swap_at [OF assms(1) k] prefix_mask_def
    by (auto simp: bit_not_iff bit_mask_iff possible_bit_word min_def)
qed

lemma cidr_of_prefix:
  assumes "n \<le> 32"
  shows "calculateSubnetCIDR (byte_swap32 (prefix_mask n)) = of_nat n"
proof -
  let ?p = "\<lambda>i. min 8 (n - 8 * i)"
  have bits: "octet_bits (octet (byte_swap32 (prefix_mask n)) i) = of_nat (?p i)" if "i < 4" for i
  proof -
    have "?p i \<in> set [0..<9]" by auto
    then show ?thesis using octet_bits_prefix unfolding octet_prefix [OF that assms] by blast
  qed
  have "[0..<4] = [0, 1, 2, 3 :: nat]" by (simp add: upt_conv_Cons)
  then have "calculateSubnetCIDR (byte_swap32 (prefix_mask n)) = of_nat (?p 0 + ?p 1 + ?p 2 + ?p 3)"
    unfolding calculateSubnetCIDR_def by (simp add: bits)
  also have "?p 0 + ?p 1 + ?p 2 + ?p 3 = n" using assms by linarith
  finally show ?thesis .
qed

section \<open>The lease range\<close>

lemma host_part_le:
  assumes "m \<le> 32" "\<not> mask m - 10 \<le> ((d :: u32) AND mask m)" "4 \<le> m"
  shows "unat d mod 2 ^ m + 10 < 2 ^ m - 1"
proof -
  have m: "16 \<le> (2 :: nat) ^ m"
    using power_increasing [of 4 m "2 :: nat"] assms(3) by simp
  have "unat (mask m - 10 :: u32) = 2 ^ m - 1 - 10"
    using m unat_mask_u32 [OF assms(1)] by (subst unat_sub_if_size) (simp add: word_le_nat_alt)
  then show ?thesis
    using assms(2) m by (simp add: word_le_nat_alt unat_host)
qed


lemma byte_swap_broadcast:
  "byte_swap32 (calculateBroadcast ip (byte_swap32 m)) = (byte_swap32 ip OR NOT m)"
  unfolding broadcast_word
proof (rule byte_word_eqI)
  fix i k :: nat assume i: "i < 4" and k: "k < 8"
  then have "8 * i + k < 32" "8 * (3 - i) + k < 32" "3 - i < 4" "3 - (3 - i) = i" by linarith+
  then show "bit (byte_swap32 (ip OR NOT (byte_swap32 m))) (8 * i + k) = bit (byte_swap32 ip OR NOT m) (8 * i + k)"
    using k by (simp add: bit_byte_swap_at i bit_or_iff bit_not_iff possible_bit_word)
qed

lemma net_base:
  shows "unat (d AND NOT (mask m) :: u32) = unat d div 2 ^ m * 2 ^ m"
proof -
  let ?b = "d AND NOT (mask m)"
  have "(?b AND NOT (mask m)) = (d AND NOT (mask m))"
    by (rule bit_word_eqI) (auto simp: bit_simps)
  then have d: "unat ?b div 2 ^ m = unat d div 2 ^ m" by (simp only: same_net_iff)
  have "(?b AND mask m) = 0"
    by (rule bit_word_eqI) (auto simp: bit_simps)
  then have "unat ?b mod 2 ^ m = 0" by (metis unat_host unsigned_0)
  then show ?thesis
    using div_mult_mod_eq [of "unat ?b" "2 ^ m"] by (simp add: d)
qed

lemma dhcp_lease_range:
  assumes "4 \<le> m" "m \<le> 8" and n: "byte_swap32 subnet = NOT (mask m)"
    and l: "dhcp_lease ip gw subnet st = Some (s, e)"
  shows "e = s + 10 \<and> unat s mod 2 ^ m + 10 < 2 ^ m - 1 \<and>
     unat s div 2 ^ m = unat (byte_swap32 ip) div 2 ^ m \<and> \<not> (s \<le> byte_swap32 ip \<and> byte_swap32 ip \<le> e) \<and>
     \<not> ((byte_swap32 gw AND NOT (mask m)) = (byte_swap32 ip AND NOT (mask m)) \<and> s \<le> byte_swap32 gw \<and> byte_swap32 gw \<le> e)"
proof -
  define d where "d = (if byte_swap32 st = 0 then byte_swap32 ip + 1 else byte_swap32 st)"
  define base where "base = (d AND NOT (mask m)) + 1"
  have m16: "16 \<le> (2 :: nat) ^ m"
    using power_increasing [of 4 m "2 :: nat"] assms(1) by simp
  have se: "(s, e) = (if mask m - 10 \<le> (d AND mask m) then (base, base + 10) else (d, d + 10))"
    and same: "(byte_swap32 ip AND NOT (mask m)) = (d AND NOT (mask m))"
    and out: "\<not> (s \<le> byte_swap32 ip \<and> byte_swap32 ip \<le> e)"
    and gw: "\<not> ((byte_swap32 gw AND NOT (mask m)) = (byte_swap32 ip AND NOT (mask m)) \<and>
      s \<le> byte_swap32 gw \<and> byte_swap32 gw \<le> e)"
    using l unfolding dhcp_lease_def Let_def n d_def [symmetric] base_def
    by (auto split: if_splits)
  have net: "unat d div 2 ^ m = unat (byte_swap32 ip) div 2 ^ m"
    using same same_net_iff by metis
  have "unat base = 1 + unat d div 2 ^ m * 2 ^ m"
    using unat_add_in_net [of "d AND NOT (mask m)" m 1] assms(2) m16
    by (simp add: base_def net_base)
  then have "unat base mod 2 ^ m = 1 \<and> unat base div 2 ^ m = unat d div 2 ^ m"
    using m16 assms(1) by (simp only: div_mult_self1 mod_mult_self1) auto
  then show ?thesis
    using se out gw net m16 host_part_le [of m d] assms(1,2) by (auto split: if_splits)
qed

lemma add_within_block:
  assumes "a mod b + k < (b :: nat)"
  shows "(a + k) div b = a div b \<and> (a + k) mod b = a mod b + k"
proof -
  have eq: "a + k = (a mod b + k) + a div b * b" using div_mult_mod_eq [of a b] by linarith
  have "(a + k) div b = a div b + (a mod b + k) div b"
    unfolding eq using assms by (subst div_mult_self1) auto
  moreover have "(a + k) mod b = (a mod b + k) mod b" by (simp add: mod_add_left_eq)
  ultimately show ?thesis using assms by simp
qed

lemma dhcp_lease_within:
  assumes n: "24 \<le> n" "n \<le> 28"
    and l: "dhcp_lease ip gw (byte_swap32 (prefix_mask n)) st = Some (s, e)" and k: "k \<le> 10"
  shows "e = s + 10 \<and> (s + of_nat k AND prefix_mask n) = (byte_swap32 ip AND prefix_mask n) \<and>
     s + of_nat k \<noteq> byte_swap32 (calculateBroadcast ip (byte_swap32 (prefix_mask n))) \<and>
     s + of_nat k \<noteq> byte_swap32 ip \<and> s + of_nat k \<noteq> byte_swap32 gw"
proof -
  define m where "m = 32 - n"
  have m: "4 \<le> m" "m \<le> 8" "m \<le> 32" using n by (auto simp: m_def)
  have pm: "prefix_mask n = NOT (mask m)" by (simp add: prefix_mask_def m_def)
  note r = dhcp_lease_range [OF m(1,2) _ l, unfolded byte_swap_swap, OF pm]
  have sum: "unat (s + of_nat j) = unat s + j" if "j \<le> 10" for j
    using r that m by (intro unat_add_in_net [of s m]) auto
  have div: "unat (s + of_nat k) div 2 ^ m = unat (byte_swap32 ip) div 2 ^ m"
    and host: "unat (s + of_nat k) mod 2 ^ m < 2 ^ m - 1"
    using r k add_within_block [of "unat s" "2 ^ m" k] by (auto simp: sum)
  have le: "s \<le> s + of_nat k" "s + of_nat k \<le> e"
    using r k sum [of 10] by (auto simp: word_le_nat_alt sum)
  have same: "(s + of_nat k AND NOT (mask m)) = (byte_swap32 ip AND NOT (mask m))"
    using div by (simp only: same_net_iff)
  have "unat (s + of_nat k AND mask m) < 2 ^ m - 1"
    using host by (simp add: unat_host)
  moreover have "((byte_swap32 ip OR mask m) AND mask m) = mask m"
    by (rule bit_word_eqI) (auto simp: bit_simps)
  ultimately have "s + of_nat k \<noteq> (byte_swap32 ip OR mask m)"
    using unat_mask_u32 [OF m(3)] by (metis less_irrefl)
  then show ?thesis
    using r le same unfolding byte_swap_broadcast pm by auto
qed

section \<open>Running driver calls\<close>

text \<open>Every call of \<open>ds\<close>, made in this order after the calls \<open>cs\<close>, is answered by \<open>ESP_OK\<close>, or, when it
  stops a DHCP client or server, by the error that says it was already stopped.\<close>

fun stops_dhcp :: "esp_call \<Rightarrow> bool" where
  "stops_dhcp (Netif_dhcpc_stop i) = True"
| "stops_dhcp (Netif_dhcps_stop i) = True"
| "stops_dhcp c = False"

fun calls_ok :: "esp_env \<Rightarrow> esp_call list \<Rightarrow> esp_call list \<Rightarrow> bool" where
  "calls_ok env cs [] = True"
| "calls_ok env cs (d # ds) =
     ((env cs d = ESP_OK \<or> (stops_dhcp d \<and> env cs d = ESP_ERR_ESP_NETIF_DHCP_ALREADY_STOPPED)) \<and>
      calls_ok env (cs @ [d]) ds)"

section \<open>Properties\<close>

text \<open>Octet by octet, \<open>calculateNetworkID\<close> is the conjunction of address and mask and
  \<open>calculateBroadcast\<close> the disjunction of the address with the complement of the mask, and the prefix
  length that \<open>calculateSubnetCIDR\<close> finds for the netmask of length n is n, for every n up to 32.\<close>

theorem subnet_arithmetic:
  assumes "n \<le> 32"
  shows "calculateNetworkID ip subnet = (ip AND subnet) \<and>
     calculateBroadcast ip subnet = (ip OR NOT subnet) \<and>
     calculateSubnetCIDR (byte_swap32 (prefix_mask n)) = of_nat n"
  using cidr_of_prefix [OF assms] by (simp add: network_id_word broadcast_word)

theorem subnet_arithmetic_witness:
  "calculateSubnetCIDR (byte_swap32 (prefix_mask 27)) = 27 \<and> calculateNetworkID 0x0104A8C0 0x00FFFFFF = 0x0004A8C0"
  using subnet_arithmetic [of 27 "0x0104A8C0" "0x00FFFFFF"] by simp



text \<open>The prefix length is a sum over octets that counts nothing for an octet that is no mask octet, so the
  check \<open>24 <= CIDR <= 28\<close> accepts netmasks that are not contiguous: 255.255.255.x for every such x, and
  255.255.240.240; with them the lease range leaves the subnet of the access point (192.168.4.2).\<close>

theorem bad_netmask_accepted:
  "(octet_bits x = 0 \<longrightarrow> calculateSubnetCIDR (of_octets 255 255 255 x) = 24) \<and>
   calculateSubnetCIDR (of_octets 255 255 240 240) = 24 \<and>
   (let subnet = of_octets 255 255 255 246; ip = of_octets 192 168 4 2
    in dhcp_lease ip ip subnet 0 = Some (0xC0A80403, 0xC0A8040D) \<and>
       (0xC0A8040D AND byte_swap32 subnet) \<noteq> (byte_swap32 ip AND byte_swap32 subnet))"
proof -
  have "[0..<4] = [0, 1, 2, 3 :: nat]" by (simp add: upt_conv_Cons)
  moreover have "octet_bits 255 = 8" by (simp add: octet_bits_def)
  ultimately have "octet_bits x = 0 \<Longrightarrow> calculateSubnetCIDR (of_octets 255 255 255 x) = 24"
    by (simp add: calculateSubnetCIDR_def octet_of_octets)
  moreover have "calculateSubnetCIDR (of_octets 255 255 240 240) = 24" by code_simp
  moreover have "(let subnet = of_octets 255 255 255 246; ip = of_octets 192 168 4 2
    in dhcp_lease ip ip subnet 0 = Some (0xC0A80403, 0xC0A8040D) \<and>
       (0xC0A8040D AND byte_swap32 subnet) \<noteq> (byte_swap32 ip AND byte_swap32 subnet))" by code_simp
  ultimately show ?thesis by blast
qed

theorem bad_netmask_accepted_witness:
  "calculateSubnetCIDR (of_octets 255 255 255 249) = 24"
  using bad_netmask_accepted [of 249] by (simp add: octet_bits_def)

text \<open>Giving the access point an address returns \<open>ESP_OK\<close> exactly when the lease checks accept and every
  driver call succeeds; the calls are then, in this order, status, stop of the DHCP server, address, lease
  range (in network byte order), start. When the checks refuse after the first three calls have succeeded,
  \<open>ESP_FAIL\<close> is returned although the new address is set, and the DHCP server stays stopped.\<close>

theorem ap_ip_outcome:
  "((set_esp_interface_ip env ESP_IF_WIFI_AP ip gw subnet st cs = (ESP_OK, cs')) =
     (\<exists>s e ds. dhcp_lease ip gw subnet st = Some (s, e) \<and> cs' = cs @ ds \<and> calls_ok env cs ds \<and>
        ds = [Netif_dhcps_get_status ESP_IF_WIFI_AP, Netif_dhcps_stop ESP_IF_WIFI_AP,
          Netif_set_ip_info ESP_IF_WIFI_AP ip gw subnet,
          Netif_dhcps_set_lease ESP_IF_WIFI_AP (byte_swap32 s) (byte_swap32 e), Netif_dhcps_start ESP_IF_WIFI_AP])) \<and>
   (dhcp_lease ip gw subnet st = None \<and>
      calls_ok env cs [Netif_dhcps_get_status ESP_IF_WIFI_AP, Netif_dhcps_stop ESP_IF_WIFI_AP,
        Netif_set_ip_info ESP_IF_WIFI_AP ip gw subnet] \<longrightarrow>
    set_esp_interface_ip env ESP_IF_WIFI_AP ip gw subnet st cs =
      (ESP_FAIL, cs @ [Netif_dhcps_get_status ESP_IF_WIFI_AP, Netif_dhcps_stop ESP_IF_WIFI_AP,
        Netif_set_ip_info ESP_IF_WIFI_AP ip gw subnet]))"
  by (cases "dhcp_lease ip gw subnet st") (auto simp: set_esp_interface_ip_def esp_def split: prod.splits)

theorem ap_ip_outcome_witness:
  "set_esp_interface_ip (\<lambda>_ _. ESP_OK) ESP_IF_WIFI_AP 0x0104A8C0 0x0104A8C0 0x00FFFFFF 0x0104A8C0 [] =
     (ESP_FAIL, [Netif_dhcps_get_status ESP_IF_WIFI_AP, Netif_dhcps_stop ESP_IF_WIFI_AP,
        Netif_set_ip_info ESP_IF_WIFI_AP 0x0104A8C0 0x0104A8C0 0x00FFFFFF])"
proof -
  have "dhcp_lease 0x0104A8C0 0x0104A8C0 0x00FFFFFF 0x0104A8C0 = None" by code_simp
  then show ?thesis
    using ap_ip_outcome [of "\<lambda>_ _. ESP_OK" "0x0104A8C0" "0x0104A8C0" "0x00FFFFFF" "0x0104A8C0" "[]"] by simp
qed

end
