(* ===== verification/WiFi_Names.thy ===== *)
theory WiFi_Names
  imports WiFi_Net
begin

text \<open>
  The enumerations of the WiFi library and their names: Arduino events (\<open>WiFiGeneric.h\<close>), the reasons of
  a disconnection, connection states (\<open>WiFiType.h\<close>), status bits, and the translation of ESP-IDF events
  into Arduino events (\<open>_arduino_event_cb\<close> of \<open>WiFiGeneric.cpp\<close>). The numbers of the reasons and of the
  ESP-IDF events are not in the repository: they are constructors, with one more for the values the
  code does not name.
\<close>

section \<open>Arduino events\<close>

datatype (plugins only: code size) arduino_event_id =
    ARDUINO_EVENT_WIFI_READY | ARDUINO_EVENT_WIFI_SCAN_DONE
  | ARDUINO_EVENT_WIFI_STA_START | ARDUINO_EVENT_WIFI_STA_STOP
  | ARDUINO_EVENT_WIFI_STA_CONNECTED | ARDUINO_EVENT_WIFI_STA_DISCONNECTED
  | ARDUINO_EVENT_WIFI_STA_AUTHMODE_CHANGE | ARDUINO_EVENT_WIFI_STA_GOT_IP
  | ARDUINO_EVENT_WIFI_STA_GOT_IP6 | ARDUINO_EVENT_WIFI_STA_LOST_IP
  | ARDUINO_EVENT_WIFI_AP_START | ARDUINO_EVENT_WIFI_AP_STOP
  | ARDUINO_EVENT_WIFI_AP_STACONNECTED | ARDUINO_EVENT_WIFI_AP_STADISCONNECTED
  | ARDUINO_EVENT_WIFI_AP_STAIPASSIGNED | ARDUINO_EVENT_WIFI_AP_PROBEREQRECVED
  | ARDUINO_EVENT_WIFI_AP_GOT_IP6 | ARDUINO_EVENT_WIFI_FTM_REPORT
  | ARDUINO_EVENT_ETH_START | ARDUINO_EVENT_ETH_STOP
  | ARDUINO_EVENT_ETH_CONNECTED | ARDUINO_EVENT_ETH_DISCONNECTED
  | ARDUINO_EVENT_ETH_GOT_IP | ARDUINO_EVENT_ETH_GOT_IP6
  | ARDUINO_EVENT_WPS_ER_SUCCESS | ARDUINO_EVENT_WPS_ER_FAILED
  | ARDUINO_EVENT_WPS_ER_TIMEOUT | ARDUINO_EVENT_WPS_ER_PIN
  | ARDUINO_EVENT_WPS_ER_PBC_OVERLAP | ARDUINO_EVENT_SC_SCAN_DONE
  | ARDUINO_EVENT_SC_FOUND_CHANNEL | ARDUINO_EVENT_SC_GOT_SSID_PSWD
  | ARDUINO_EVENT_SC_SEND_ACK_DONE | ARDUINO_EVENT_PROV_INIT
  | ARDUINO_EVENT_PROV_DEINIT | ARDUINO_EVENT_PROV_START
  | ARDUINO_EVENT_PROV_END | ARDUINO_EVENT_PROV_CRED_RECV
  | ARDUINO_EVENT_PROV_CRED_FAIL | ARDUINO_EVENT_PROV_CRED_SUCCESS
  | ARDUINO_EVENT_MAX

primrec eventName :: "arduino_event_id \<Rightarrow> string" where
  "eventName ARDUINO_EVENT_WIFI_READY = ''WIFI_READY''"
| "eventName ARDUINO_EVENT_WIFI_SCAN_DONE = ''SCAN_DONE''"
| "eventName ARDUINO_EVENT_WIFI_STA_START = ''STA_START''"
| "eventName ARDUINO_EVENT_WIFI_STA_STOP = ''STA_STOP''"
| "eventName ARDUINO_EVENT_WIFI_STA_CONNECTED = ''STA_CONNECTED''"
| "eventName ARDUINO_EVENT_WIFI_STA_DISCONNECTED = ''STA_DISCONNECTED''"
| "eventName ARDUINO_EVENT_WIFI_STA_AUTHMODE_CHANGE = ''STA_AUTHMODE_CHANGE''"
| "eventName ARDUINO_EVENT_WIFI_STA_GOT_IP = ''STA_GOT_IP''"
| "eventName ARDUINO_EVENT_WIFI_STA_GOT_IP6 = ''STA_GOT_IP6''"
| "eventName ARDUINO_EVENT_WIFI_STA_LOST_IP = ''STA_LOST_IP''"
| "eventName ARDUINO_EVENT_WIFI_AP_START = ''AP_START''"
| "eventName ARDUINO_EVENT_WIFI_AP_STOP = ''AP_STOP''"
| "eventName ARDUINO_EVENT_WIFI_AP_STACONNECTED = ''AP_STACONNECTED''"
| "eventName ARDUINO_EVENT_WIFI_AP_STADISCONNECTED = ''AP_STADISCONNECTED''"
| "eventName ARDUINO_EVENT_WIFI_AP_STAIPASSIGNED = ''AP_STAIPASSIGNED''"
| "eventName ARDUINO_EVENT_WIFI_AP_PROBEREQRECVED = ''AP_PROBEREQRECVED''"
| "eventName ARDUINO_EVENT_WIFI_AP_GOT_IP6 = ''AP_GOT_IP6''"
| "eventName ARDUINO_EVENT_WIFI_FTM_REPORT = ''FTM_REPORT''"
| "eventName ARDUINO_EVENT_ETH_START = ''ETH_START''"
| "eventName ARDUINO_EVENT_ETH_STOP = ''ETH_STOP''"
| "eventName ARDUINO_EVENT_ETH_CONNECTED = ''ETH_CONNECTED''"
| "eventName ARDUINO_EVENT_ETH_DISCONNECTED = ''ETH_DISCONNECTED''"
| "eventName ARDUINO_EVENT_ETH_GOT_IP = ''ETH_GOT_IP''"
| "eventName ARDUINO_EVENT_ETH_GOT_IP6 = ''ETH_GOT_IP6''"
| "eventName ARDUINO_EVENT_WPS_ER_SUCCESS = ''WPS_ER_SUCCESS''"
| "eventName ARDUINO_EVENT_WPS_ER_FAILED = ''WPS_ER_FAILED''"
| "eventName ARDUINO_EVENT_WPS_ER_TIMEOUT = ''WPS_ER_TIMEOUT''"
| "eventName ARDUINO_EVENT_WPS_ER_PIN = ''WPS_ER_PIN''"
| "eventName ARDUINO_EVENT_WPS_ER_PBC_OVERLAP = ''WPS_ER_PBC_OVERLAP''"
| "eventName ARDUINO_EVENT_SC_SCAN_DONE = ''SC_SCAN_DONE''"
| "eventName ARDUINO_EVENT_SC_FOUND_CHANNEL = ''SC_FOUND_CHANNEL''"
| "eventName ARDUINO_EVENT_SC_GOT_SSID_PSWD = ''SC_GOT_SSID_PSWD''"
| "eventName ARDUINO_EVENT_SC_SEND_ACK_DONE = ''SC_SEND_ACK_DONE''"
| "eventName ARDUINO_EVENT_PROV_INIT = ''PROV_INIT''"
| "eventName ARDUINO_EVENT_PROV_DEINIT = ''PROV_DEINIT''"
| "eventName ARDUINO_EVENT_PROV_START = ''PROV_START''"
| "eventName ARDUINO_EVENT_PROV_END = ''PROV_END''"
| "eventName ARDUINO_EVENT_PROV_CRED_RECV = ''PROV_CRED_RECV''"
| "eventName ARDUINO_EVENT_PROV_CRED_FAIL = ''PROV_CRED_FAIL''"
| "eventName ARDUINO_EVENT_PROV_CRED_SUCCESS = ''PROV_CRED_SUCCESS''"
| "eventName ARDUINO_EVENT_MAX = ''''"

section \<open>Reasons of a disconnection\<close>

text \<open>\<open>Reason_0\<close> is the value 0, \<open>Reason_unlisted\<close> any other value the code does not name.\<close>

datatype (plugins only: code size) wifi_reason =
    Reason_0 | WIFI_REASON_UNSPECIFIED
  | WIFI_REASON_AUTH_EXPIRE | WIFI_REASON_AUTH_LEAVE
  | WIFI_REASON_ASSOC_EXPIRE | WIFI_REASON_ASSOC_TOOMANY
  | WIFI_REASON_NOT_AUTHED | WIFI_REASON_NOT_ASSOCED
  | WIFI_REASON_ASSOC_LEAVE | WIFI_REASON_ASSOC_NOT_AUTHED
  | WIFI_REASON_DISASSOC_PWRCAP_BAD | WIFI_REASON_DISASSOC_SUPCHAN_BAD
  | WIFI_REASON_BSS_TRANSITION_DISASSOC | WIFI_REASON_IE_INVALID
  | WIFI_REASON_MIC_FAILURE | WIFI_REASON_4WAY_HANDSHAKE_TIMEOUT
  | WIFI_REASON_GROUP_KEY_UPDATE_TIMEOUT | WIFI_REASON_IE_IN_4WAY_DIFFERS
  | WIFI_REASON_GROUP_CIPHER_INVALID | WIFI_REASON_PAIRWISE_CIPHER_INVALID
  | WIFI_REASON_AKMP_INVALID | WIFI_REASON_UNSUPP_RSN_IE_VERSION
  | WIFI_REASON_INVALID_RSN_IE_CAP | WIFI_REASON_802_1X_AUTH_FAILED
  | WIFI_REASON_CIPHER_SUITE_REJECTED | WIFI_REASON_TDLS_PEER_UNREACHABLE
  | WIFI_REASON_TDLS_UNSPECIFIED | WIFI_REASON_SSP_REQUESTED_DISASSOC
  | WIFI_REASON_NO_SSP_ROAMING_AGREEMENT | WIFI_REASON_BAD_CIPHER_OR_AKM
  | WIFI_REASON_NOT_AUTHORIZED_THIS_LOCATION | WIFI_REASON_SERVICE_CHANGE_PERCLUDES_TS
  | WIFI_REASON_UNSPECIFIED_QOS | WIFI_REASON_NOT_ENOUGH_BANDWIDTH
  | WIFI_REASON_MISSING_ACKS | WIFI_REASON_EXCEEDED_TXOP
  | WIFI_REASON_STA_LEAVING | WIFI_REASON_END_BA
  | WIFI_REASON_UNKNOWN_BA | WIFI_REASON_TIMEOUT
  | WIFI_REASON_PEER_INITIATED | WIFI_REASON_AP_INITIATED
  | WIFI_REASON_INVALID_FT_ACTION_FRAME_COUNT | WIFI_REASON_INVALID_PMKID
  | WIFI_REASON_INVALID_MDE | WIFI_REASON_INVALID_FTE
  | WIFI_REASON_TRANSMISSION_LINK_ESTABLISH_FAILED | WIFI_REASON_ALTERATIVE_CHANNEL_OCCUPIED
  | WIFI_REASON_BEACON_TIMEOUT | WIFI_REASON_NO_AP_FOUND
  | WIFI_REASON_AUTH_FAIL | WIFI_REASON_ASSOC_FAIL
  | WIFI_REASON_HANDSHAKE_TIMEOUT | WIFI_REASON_CONNECTION_FAIL
  | WIFI_REASON_AP_TSF_RESET | WIFI_REASON_ROAMING
  | Reason_unlisted u8

primrec disconnectReasonName :: "wifi_reason \<Rightarrow> string" where
  "disconnectReasonName WIFI_REASON_UNSPECIFIED = ''UNSPECIFIED''"
| "disconnectReasonName WIFI_REASON_AUTH_EXPIRE = ''AUTH_EXPIRE''"
| "disconnectReasonName WIFI_REASON_AUTH_LEAVE = ''AUTH_LEAVE''"
| "disconnectReasonName WIFI_REASON_ASSOC_EXPIRE = ''ASSOC_EXPIRE''"
| "disconnectReasonName WIFI_REASON_ASSOC_TOOMANY = ''ASSOC_TOOMANY''"
| "disconnectReasonName WIFI_REASON_NOT_AUTHED = ''NOT_AUTHED''"
| "disconnectReasonName WIFI_REASON_NOT_ASSOCED = ''NOT_ASSOCED''"
| "disconnectReasonName WIFI_REASON_ASSOC_LEAVE = ''ASSOC_LEAVE''"
| "disconnectReasonName WIFI_REASON_ASSOC_NOT_AUTHED = ''ASSOC_NOT_AUTHED''"
| "disconnectReasonName WIFI_REASON_DISASSOC_PWRCAP_BAD = ''DISASSOC_PWRCAP_BAD''"
| "disconnectReasonName WIFI_REASON_DISASSOC_SUPCHAN_BAD = ''DISASSOC_SUPCHAN_BAD''"
| "disconnectReasonName WIFI_REASON_BSS_TRANSITION_DISASSOC = ''BSS_TRANSITION_DISASSOC''"
| "disconnectReasonName WIFI_REASON_IE_INVALID = ''IE_INVALID''"
| "disconnectReasonName WIFI_REASON_MIC_FAILURE = ''MIC_FAILURE''"
| "disconnectReasonName WIFI_REASON_4WAY_HANDSHAKE_TIMEOUT = ''4WAY_HANDSHAKE_TIMEOUT''"
| "disconnectReasonName WIFI_REASON_GROUP_KEY_UPDATE_TIMEOUT = ''GROUP_KEY_UPDATE_TIMEOUT''"
| "disconnectReasonName WIFI_REASON_IE_IN_4WAY_DIFFERS = ''IE_IN_4WAY_DIFFERS''"
| "disconnectReasonName WIFI_REASON_GROUP_CIPHER_INVALID = ''GROUP_CIPHER_INVALID''"
| "disconnectReasonName WIFI_REASON_PAIRWISE_CIPHER_INVALID = ''PAIRWISE_CIPHER_INVALID''"
| "disconnectReasonName WIFI_REASON_AKMP_INVALID = ''AKMP_INVALID''"
| "disconnectReasonName WIFI_REASON_UNSUPP_RSN_IE_VERSION = ''UNSUPP_RSN_IE_VERSION''"
| "disconnectReasonName WIFI_REASON_INVALID_RSN_IE_CAP = ''INVALID_RSN_IE_CAP''"
| "disconnectReasonName WIFI_REASON_802_1X_AUTH_FAILED = ''802_1X_AUTH_FAILED''"
| "disconnectReasonName WIFI_REASON_CIPHER_SUITE_REJECTED = ''CIPHER_SUITE_REJECTED''"
| "disconnectReasonName WIFI_REASON_TDLS_PEER_UNREACHABLE = ''TDLS_PEER_UNREACHABLE''"
| "disconnectReasonName WIFI_REASON_TDLS_UNSPECIFIED = ''TDLS_UNSPECIFIED''"
| "disconnectReasonName WIFI_REASON_SSP_REQUESTED_DISASSOC = ''SSP_REQUESTED_DISASSOC''"
| "disconnectReasonName WIFI_REASON_NO_SSP_ROAMING_AGREEMENT = ''NO_SSP_ROAMING_AGREEMENT''"
| "disconnectReasonName WIFI_REASON_BAD_CIPHER_OR_AKM = ''BAD_CIPHER_OR_AKM''"
| "disconnectReasonName WIFI_REASON_NOT_AUTHORIZED_THIS_LOCATION = ''NOT_AUTHORIZED_THIS_LOCATION''"
| "disconnectReasonName WIFI_REASON_SERVICE_CHANGE_PERCLUDES_TS = ''SERVICE_CHANGE_PERCLUDES_TS''"
| "disconnectReasonName WIFI_REASON_UNSPECIFIED_QOS = ''UNSPECIFIED_QOS''"
| "disconnectReasonName WIFI_REASON_NOT_ENOUGH_BANDWIDTH = ''NOT_ENOUGH_BANDWIDTH''"
| "disconnectReasonName WIFI_REASON_MISSING_ACKS = ''MISSING_ACKS''"
| "disconnectReasonName WIFI_REASON_EXCEEDED_TXOP = ''EXCEEDED_TXOP''"
| "disconnectReasonName WIFI_REASON_STA_LEAVING = ''STA_LEAVING''"
| "disconnectReasonName WIFI_REASON_END_BA = ''END_BA''"
| "disconnectReasonName WIFI_REASON_UNKNOWN_BA = ''UNKNOWN_BA''"
| "disconnectReasonName WIFI_REASON_TIMEOUT = ''TIMEOUT''"
| "disconnectReasonName WIFI_REASON_PEER_INITIATED = ''PEER_INITIATED''"
| "disconnectReasonName WIFI_REASON_AP_INITIATED = ''AP_INITIATED''"
| "disconnectReasonName WIFI_REASON_INVALID_FT_ACTION_FRAME_COUNT = ''INVALID_FT_ACTION_FRAME_COUNT''"
| "disconnectReasonName WIFI_REASON_INVALID_PMKID = ''INVALID_PMKID''"
| "disconnectReasonName WIFI_REASON_INVALID_MDE = ''INVALID_MDE''"
| "disconnectReasonName WIFI_REASON_INVALID_FTE = ''INVALID_FTE''"
| "disconnectReasonName WIFI_REASON_TRANSMISSION_LINK_ESTABLISH_FAILED = ''TRANSMISSION_LINK_ESTABLISH_FAILED''"
| "disconnectReasonName WIFI_REASON_ALTERATIVE_CHANNEL_OCCUPIED = ''ALTERATIVE_CHANNEL_OCCUPIED''"
| "disconnectReasonName WIFI_REASON_BEACON_TIMEOUT = ''BEACON_TIMEOUT''"
| "disconnectReasonName WIFI_REASON_NO_AP_FOUND = ''NO_AP_FOUND''"
| "disconnectReasonName WIFI_REASON_AUTH_FAIL = ''AUTH_FAIL''"
| "disconnectReasonName WIFI_REASON_ASSOC_FAIL = ''ASSOC_FAIL''"
| "disconnectReasonName WIFI_REASON_HANDSHAKE_TIMEOUT = ''HANDSHAKE_TIMEOUT''"
| "disconnectReasonName WIFI_REASON_CONNECTION_FAIL = ''CONNECTION_FAIL''"
| "disconnectReasonName WIFI_REASON_AP_TSF_RESET = ''AP_TSF_RESET''"
| "disconnectReasonName WIFI_REASON_ROAMING = ''ROAMING''"
| "disconnectReasonName Reason_0 = ''''"
| "disconnectReasonName (Reason_unlisted x) = ''''"

definition isReconnectableReason :: "wifi_reason \<Rightarrow> bool" where
  "isReconnectableReason reason \<longleftrightarrow> reason \<in> {
     WIFI_REASON_UNSPECIFIED, WIFI_REASON_AUTH_EXPIRE,
     WIFI_REASON_4WAY_HANDSHAKE_TIMEOUT, WIFI_REASON_GROUP_KEY_UPDATE_TIMEOUT,
     WIFI_REASON_802_1X_AUTH_FAILED, WIFI_REASON_HANDSHAKE_TIMEOUT,
     WIFI_REASON_AUTH_LEAVE, WIFI_REASON_ASSOC_EXPIRE,
     WIFI_REASON_ASSOC_TOOMANY, WIFI_REASON_NOT_AUTHED,
     WIFI_REASON_NOT_ASSOCED, WIFI_REASON_ASSOC_NOT_AUTHED,
     WIFI_REASON_MIC_FAILURE, WIFI_REASON_IE_IN_4WAY_DIFFERS,
     WIFI_REASON_INVALID_PMKID, WIFI_REASON_BEACON_TIMEOUT,
     WIFI_REASON_NO_AP_FOUND, WIFI_REASON_ASSOC_FAIL,
     WIFI_REASON_CONNECTION_FAIL, WIFI_REASON_AP_TSF_RESET,
     WIFI_REASON_ROAMING}"

section \<open>Connection states and status bits\<close>

datatype wl_status = WL_NO_SHIELD | WL_IDLE_STATUS | WL_NO_SSID_AVAIL | WL_SCAN_COMPLETED | WL_CONNECTED
  | WL_CONNECT_FAILED | WL_CONNECTION_LOST | WL_DISCONNECTED

primrec wl_value :: "wl_status \<Rightarrow> nat" where
  "wl_value WL_NO_SHIELD = 255"
| "wl_value WL_IDLE_STATUS = 0"
| "wl_value WL_NO_SSID_AVAIL = 1"
| "wl_value WL_SCAN_COMPLETED = 2"
| "wl_value WL_CONNECTED = 3"
| "wl_value WL_CONNECT_FAILED = 4"
| "wl_value WL_CONNECTION_LOST = 5"
| "wl_value WL_DISCONNECTED = 6"

text \<open>The bits of the event group, numbered as in \<open>WiFiGeneric.h\<close> (\<open>BIT0\<close> to \<open>BIT14\<close>).\<close>

datatype status_bit = AP_STARTED | AP_HAS_IP6 | AP_HAS_CLIENT | STA_STARTED | STA_CONNECTED | STA_HAS_IP
  | STA_HAS_IP6 | ETH_STARTED | ETH_CONNECTED | ETH_HAS_IP | ETH_HAS_IP6 | WIFI_SCANNING | WIFI_SCAN_DONE
  | WIFI_DNS_IDLE | WIFI_DNS_DONE

primrec bit_pos :: "status_bit \<Rightarrow> nat" where
  "bit_pos AP_STARTED = 0"
| "bit_pos AP_HAS_IP6 = 1"
| "bit_pos AP_HAS_CLIENT = 2"
| "bit_pos STA_STARTED = 3"
| "bit_pos STA_CONNECTED = 4"
| "bit_pos STA_HAS_IP = 5"
| "bit_pos STA_HAS_IP6 = 6"
| "bit_pos ETH_STARTED = 7"
| "bit_pos ETH_CONNECTED = 8"
| "bit_pos ETH_HAS_IP = 9"
| "bit_pos ETH_HAS_IP6 = 10"
| "bit_pos WIFI_SCANNING = 11"
| "bit_pos WIFI_SCAN_DONE = 12"
| "bit_pos WIFI_DNS_IDLE = 13"
| "bit_pos WIFI_DNS_DONE = 14"

text \<open>The word of an or of several bit constants.\<close>

definition bits :: "status_bit list \<Rightarrow> u32" where
  "bits bs = fold (\<lambda>b w. w OR push_bit (bit_pos b) 1) bs 0"

section \<open>ESP-IDF events\<close>

datatype (plugins only: code size) wifi_event =
    WIFI_EVENT_STA_START | WIFI_EVENT_STA_STOP
  | WIFI_EVENT_STA_AUTHMODE_CHANGE | WIFI_EVENT_STA_CONNECTED
  | WIFI_EVENT_STA_DISCONNECTED wifi_reason | WIFI_EVENT_SCAN_DONE
  | WIFI_EVENT_AP_START | WIFI_EVENT_AP_STOP
  | WIFI_EVENT_AP_PROBEREQRECVED | WIFI_EVENT_AP_STACONNECTED
  | WIFI_EVENT_AP_STADISCONNECTED | WIFI_EVENT_STA_WPS_ER_SUCCESS
  | WIFI_EVENT_STA_WPS_ER_FAILED | WIFI_EVENT_STA_WPS_ER_TIMEOUT
  | WIFI_EVENT_STA_WPS_ER_PIN | WIFI_EVENT_STA_WPS_ER_PBC_OVERLAP
  | WIFI_EVENT_FTM_REPORT | WIFI_EVENT_unlisted int

datatype (plugins only: code size) ip_event =
    IP_EVENT_STA_GOT_IP | IP_EVENT_STA_LOST_IP
  | IP_EVENT_AP_STAIPASSIGNED | IP_EVENT_ETH_GOT_IP
  | IP_EVENT_GOT_IP6 "nat option" | IP_EVENT_unlisted int

datatype (plugins only: code size) eth_event =
    ETHERNET_EVENT_CONNECTED | ETHERNET_EVENT_DISCONNECTED
  | ETHERNET_EVENT_START | ETHERNET_EVENT_STOP
  | ETH_EVENT_unlisted int

datatype (plugins only: code size) sc_event =
    SC_EVENT_SCAN_DONE | SC_EVENT_FOUND_CHANNEL
  | SC_EVENT_GOT_SSID_PSWD string string "u8 list option" | SC_EVENT_SEND_ACK_DONE
  | SC_EVENT_unlisted int

datatype (plugins only: code size) prov_event =
    WIFI_PROV_INIT | WIFI_PROV_DEINIT
  | WIFI_PROV_START | WIFI_PROV_END
  | WIFI_PROV_CRED_RECV | WIFI_PROV_CRED_FAIL
  | WIFI_PROV_CRED_SUCCESS | WIFI_PROV_unlisted int

fun translate_wps_event :: "wifi_event \<Rightarrow> arduino_event_id" where
  "translate_wps_event WIFI_EVENT_STA_WPS_ER_SUCCESS = ARDUINO_EVENT_WPS_ER_SUCCESS"
| "translate_wps_event WIFI_EVENT_STA_WPS_ER_FAILED = ARDUINO_EVENT_WPS_ER_FAILED"
| "translate_wps_event WIFI_EVENT_STA_WPS_ER_TIMEOUT = ARDUINO_EVENT_WPS_ER_TIMEOUT"
| "translate_wps_event WIFI_EVENT_STA_WPS_ER_PIN = ARDUINO_EVENT_WPS_ER_PIN"
| "translate_wps_event WIFI_EVENT_STA_WPS_ER_PBC_OVERLAP = ARDUINO_EVENT_WPS_ER_PBC_OVERLAP"
| "translate_wps_event WIFI_EVENT_FTM_REPORT = ARDUINO_EVENT_WIFI_FTM_REPORT"
| "translate_wps_event _ = ARDUINO_EVENT_MAX"

fun translate_wifi_event :: "wifi_event \<Rightarrow> arduino_event_id" where
  "translate_wifi_event WIFI_EVENT_STA_START = ARDUINO_EVENT_WIFI_STA_START"
| "translate_wifi_event WIFI_EVENT_STA_STOP = ARDUINO_EVENT_WIFI_STA_STOP"
| "translate_wifi_event WIFI_EVENT_STA_AUTHMODE_CHANGE = ARDUINO_EVENT_WIFI_STA_AUTHMODE_CHANGE"
| "translate_wifi_event WIFI_EVENT_STA_CONNECTED = ARDUINO_EVENT_WIFI_STA_CONNECTED"
| "translate_wifi_event (WIFI_EVENT_STA_DISCONNECTED r) = ARDUINO_EVENT_WIFI_STA_DISCONNECTED"
| "translate_wifi_event WIFI_EVENT_SCAN_DONE = ARDUINO_EVENT_WIFI_SCAN_DONE"
| "translate_wifi_event WIFI_EVENT_AP_START = ARDUINO_EVENT_WIFI_AP_START"
| "translate_wifi_event WIFI_EVENT_AP_STOP = ARDUINO_EVENT_WIFI_AP_STOP"
| "translate_wifi_event WIFI_EVENT_AP_PROBEREQRECVED = ARDUINO_EVENT_WIFI_AP_PROBEREQRECVED"
| "translate_wifi_event WIFI_EVENT_AP_STACONNECTED = ARDUINO_EVENT_WIFI_AP_STACONNECTED"
| "translate_wifi_event WIFI_EVENT_AP_STADISCONNECTED = ARDUINO_EVENT_WIFI_AP_STADISCONNECTED"
| "translate_wifi_event e = translate_wps_event e"

fun translate_ip_event :: "netif_table \<Rightarrow> ip_event \<Rightarrow> arduino_event_id" where
  "translate_ip_event tab IP_EVENT_STA_GOT_IP = ARDUINO_EVENT_WIFI_STA_GOT_IP"
| "translate_ip_event tab IP_EVENT_STA_LOST_IP = ARDUINO_EVENT_WIFI_STA_LOST_IP"
| "translate_ip_event tab IP_EVENT_AP_STAIPASSIGNED = ARDUINO_EVENT_WIFI_AP_STAIPASSIGNED"
| "translate_ip_event tab IP_EVENT_ETH_GOT_IP = ARDUINO_EVENT_ETH_GOT_IP"
| "translate_ip_event tab (IP_EVENT_GOT_IP6 esp_netif) = 
     (let iface = get_esp_netif_interface tab esp_netif
      in if iface = ESP_IF_WIFI_STA then ARDUINO_EVENT_WIFI_STA_GOT_IP6
         else if iface = ESP_IF_WIFI_AP then ARDUINO_EVENT_WIFI_AP_GOT_IP6
         else if iface = ESP_IF_ETH then ARDUINO_EVENT_ETH_GOT_IP6
         else ARDUINO_EVENT_MAX)"
| "translate_ip_event tab _ = ARDUINO_EVENT_MAX"

fun translate_eth_event :: "eth_event \<Rightarrow> arduino_event_id" where
  "translate_eth_event ETHERNET_EVENT_CONNECTED = ARDUINO_EVENT_ETH_CONNECTED"
| "translate_eth_event ETHERNET_EVENT_DISCONNECTED = ARDUINO_EVENT_ETH_DISCONNECTED"
| "translate_eth_event ETHERNET_EVENT_START = ARDUINO_EVENT_ETH_START"
| "translate_eth_event ETHERNET_EVENT_STOP = ARDUINO_EVENT_ETH_STOP"
| "translate_eth_event _ = ARDUINO_EVENT_MAX"

fun translate_sc_event :: "sc_event \<Rightarrow> arduino_event_id" where
  "translate_sc_event SC_EVENT_SCAN_DONE = ARDUINO_EVENT_SC_SCAN_DONE"
| "translate_sc_event SC_EVENT_FOUND_CHANNEL = ARDUINO_EVENT_SC_FOUND_CHANNEL"
| "translate_sc_event (SC_EVENT_GOT_SSID_PSWD ssid password bssid) = ARDUINO_EVENT_SC_GOT_SSID_PSWD"
| "translate_sc_event SC_EVENT_SEND_ACK_DONE = ARDUINO_EVENT_SC_SEND_ACK_DONE"
| "translate_sc_event _ = ARDUINO_EVENT_MAX"

fun translate_prov_event :: "prov_event \<Rightarrow> arduino_event_id" where
  "translate_prov_event WIFI_PROV_INIT = ARDUINO_EVENT_PROV_INIT"
| "translate_prov_event WIFI_PROV_DEINIT = ARDUINO_EVENT_PROV_DEINIT"
| "translate_prov_event WIFI_PROV_START = ARDUINO_EVENT_PROV_START"
| "translate_prov_event WIFI_PROV_END = ARDUINO_EVENT_PROV_END"
| "translate_prov_event WIFI_PROV_CRED_RECV = ARDUINO_EVENT_PROV_CRED_RECV"
| "translate_prov_event WIFI_PROV_CRED_FAIL = ARDUINO_EVENT_PROV_CRED_FAIL"
| "translate_prov_event WIFI_PROV_CRED_SUCCESS = ARDUINO_EVENT_PROV_CRED_SUCCESS"
| "translate_prov_event _ = ARDUINO_EVENT_MAX"

end
