(* ===== verification/WiFi_Mode.thy ===== *)
theory WiFi_Mode
  imports WiFi_Names
begin

text \<open>
  The state of the WiFi library and its life cycle (\<open>WiFiGeneric.cpp\<close>): status bits, event task and queue,
  initialisation of the network stack and of the driver, start and stop, and the choice of the mode.
  Every operation takes the driver and the state and returns its result and the new state; a driver call
  is appended to \<open>calls\<close>. The configuration is the one of the ESP32 with Ethernet enabled and without
  the dual antenna.
\<close>

section \<open>State\<close>

datatype event_info = No_info | Disconnected_info wifi_reason | Sc_info string string "u8 list option"

record arduino_event =
  event_id :: arduino_event_id
  event_info :: event_info

text \<open>A registered callback: a plain, a function-object or a system callback, each a token or NULL.\<close>

record event_listener =
  listener_id :: nat
  cb :: "nat option"
  fcb :: "nat option"
  scb :: "nat option"
  on_event :: arduino_event_id

record wifi =
  netifs :: netif_table
  default_hostname :: string
  event_group :: "u32 option"
  event_queue :: "arduino_event list option"
  event_task :: bool
  tcpip_initialized :: bool
  lowLevelInitDone :: bool
  esp_wifi_started :: bool
  wifiUseStaticBuffers :: bool
  persistent :: bool
  long_range :: bool
  sleepEnabled :: wifi_ps
  sta_status :: wl_status
  sta_status_group :: "wl_status option"
  autoReconnect :: bool
  useStaticIp :: bool
  min_security :: nat
  scanMethod :: wifi_scan_method
  sortMethod :: wifi_sort_method
  smartConfigStarted :: bool
  smartConfigDone :: bool
  first_connect :: bool
  scanAsync :: bool
  scanStarted :: u32
  scanTimeout :: u32
  scanCount :: u16
  scanResult :: "ap_record list"
  cbEventList :: "event_listener list"
  current_id :: nat
  calls :: "esp_call list"

definition mode_null :: wifi_mode where
  "mode_null = \<lparr>mode_sta = False, mode_ap = False\<rparr>"

text \<open>The static variables after a reset.\<close>

definition wifi_reset :: wifi where
  "wifi_reset = \<lparr>netifs = (\<lambda>_. None), default_hostname = [], event_group = None, event_queue = None,
     event_task = False, tcpip_initialized = False, lowLevelInitDone = False, esp_wifi_started = False,
     wifiUseStaticBuffers = False, persistent = True, long_range = False, sleepEnabled = WIFI_PS_MIN_MODEM,
     sta_status = WL_NO_SHIELD, sta_status_group = None, autoReconnect = True, useStaticIp = False,
     min_security = 3, scanMethod = WIFI_FAST_SCAN, sortMethod = WIFI_CONNECT_AP_BY_SIGNAL,
     smartConfigStarted = False, smartConfigDone = False, first_connect = True, scanAsync = False, scanStarted = 0,
     scanTimeout = 10000, scanCount = 0, scanResult = [], cbEventList = [], current_id = 1, calls = []\<rparr>"

text \<open>One driver call, and a function on the list of calls lifted to the state.\<close>

definition drv :: "esp_driver \<Rightarrow> esp_call \<Rightarrow> wifi \<Rightarrow> esp_err \<times> wifi" where
  "drv d c w = (answer d (calls w) c, w\<lparr>calls := calls w @ [c]\<rparr>)"

definition with_calls :: "(esp_call list \<Rightarrow> 'r \<times> esp_call list) \<Rightarrow> wifi \<Rightarrow> 'r \<times> wifi" where
  "with_calls f w = (let (r, cs) = f (calls w) in (r, w\<lparr>calls := cs\<rparr>))"

section \<open>Status bits\<close>

definition setStatusBits :: "u32 \<Rightarrow> wifi \<Rightarrow> wifi" where
  "setStatusBits b w = (case event_group w of None \<Rightarrow> w | Some g \<Rightarrow> w\<lparr>event_group := Some (g OR b)\<rparr>)"

definition clearStatusBits :: "u32 \<Rightarrow> wifi \<Rightarrow> wifi" where
  "clearStatusBits b w = (case event_group w of None \<Rightarrow> w | Some g \<Rightarrow> w\<lparr>event_group := Some (g AND NOT b)\<rparr>)"

definition getStatusBits :: "wifi \<Rightarrow> u32" where
  "getStatusBits w = (case event_group w of None \<Rightarrow> 0 | Some g \<Rightarrow> g)"

text \<open>Waiting for all of the bits: \<open>others\<close> is what the other tasks do until the bits are set or the time is
  up.\<close>

definition waitStatusBits :: "(wifi \<Rightarrow> wifi) \<Rightarrow> u32 \<Rightarrow> wifi \<Rightarrow> u32 \<times> wifi" where
  "waitStatusBits others b w =
     (case event_group w of None \<Rightarrow> (0, w)
      | Some g \<Rightarrow> let w = (if (g AND b) = b then w else others w) in (getStatusBits w AND b, w))"

section \<open>Host name\<close>

definition hex_digit :: "nat \<Rightarrow> char" where
  "hex_digit n = ''0123456789ABCDEF'' ! n"

definition hex2 :: "u8 \<Rightarrow> string" where
  "hex2 b = [hex_digit (unat b div 16), hex_digit (unat b mod 16)]"

definition get_esp_netif_hostname :: "esp_driver \<Rightarrow> wifi \<Rightarrow> string \<times> wifi" where
  "get_esp_netif_hostname d w =
     (if default_hostname w = []
      then let (_, w) = drv d Wifi_get_mac w; mac = got_mac d (calls w);
               name = take 31 (idf_target d @ ''-'' @ hex2 (mac ! 3) @ hex2 (mac ! 4) @ hex2 (mac ! 5))
           in (name, w\<lparr>default_hostname := name\<rparr>)
      else (default_hostname w, w))"

definition set_esp_netif_hostname :: "string option \<Rightarrow> wifi \<Rightarrow> wifi" where
  "set_esp_netif_hostname name w =
     (case name of None \<Rightarrow> w | Some s \<Rightarrow> w\<lparr>default_hostname := take 31 s\<rparr>)"

section \<open>Events: queue and task\<close>

text \<open>Posting an event copies it to the queue; the queue blocks while it is full, so that its length has no
  effect on the result. (A NULL queue makes FreeRTOS stop; \<open>queue_before_events\<close> shows that it does not
  happen.)\<close>

definition postArduinoEvent :: "esp_driver \<Rightarrow> arduino_event option \<Rightarrow> wifi \<Rightarrow> esp_err \<times> wifi" where
  "postArduinoEvent d dat w =
     (case dat of None \<Rightarrow> (ESP_FAIL, w)
      | Some e \<Rightarrow>
         let (err, w) = drv d Event_malloc w
         in if err \<noteq> ESP_OK then (ESP_FAIL, w)
         else let (err, w) = drv d Event_queue_send w
              in if err \<noteq> ESP_OK then (ESP_FAIL, w)
              else (ESP_OK, w\<lparr>event_queue := map_option (\<lambda>q. q @ [e]) (event_queue w)\<rparr>))"

definition create_event_group :: "esp_driver \<Rightarrow> wifi \<Rightarrow> bool \<times> wifi" where
  "create_event_group d w =
     (if event_group w \<noteq> None then (True, w)
      else let (err, w) = drv d Event_group_create w
           in if err \<noteq> ESP_OK then (False, w) else (True, w\<lparr>event_group := Some (bits [WIFI_DNS_IDLE])\<rparr>))"

definition create_event_queue :: "esp_driver \<Rightarrow> wifi \<Rightarrow> bool \<times> wifi" where
  "create_event_queue d w =
     (if event_queue w \<noteq> None then (True, w)
      else let (err, w) = drv d Event_queue_create w
           in if err \<noteq> ESP_OK then (False, w) else (True, w\<lparr>event_queue := Some []\<rparr>))"

definition create_event_task :: "esp_driver \<Rightarrow> wifi \<Rightarrow> bool \<times> wifi" where
  "create_event_task d w =
     (if event_task w then (True, w)
      else let (err, w) = drv d Event_task_create w
           in if err \<noteq> ESP_OK then (False, w) else (True, w\<lparr>event_task := True\<rparr>))"

fun register_handlers :: "esp_driver \<Rightarrow> event_base list \<Rightarrow> wifi \<Rightarrow> bool \<times> wifi" where
  "register_handlers d [] w = (True, w)"
| "register_handlers d (b # bs) w =
     (let (err, w) = drv d (Event_handler_register b) w
      in if err \<noteq> ESP_OK then (False, w) else register_handlers d bs w)"

text \<open>The failure of the event loop is returned as an error code from a function of type bool, that is,
  as \<open>True\<close>.\<close>

definition start_network_event_task :: "esp_driver \<Rightarrow> wifi \<Rightarrow> bool \<times> wifi" where
  "start_network_event_task d w =
     (let (ok, w) = create_event_group d w
      in if \<not> ok then (False, w)
      else let (ok, w) = create_event_queue d w
      in if \<not> ok then (False, w)
      else let (err, w) = drv d Event_loop_create w
      in if err \<noteq> ESP_OK \<and> err \<noteq> ESP_ERR_INVALID_STATE then (err \<noteq> ESP_OK, w)
      else let (ok, w) = create_event_task d w
      in if \<not> ok then (False, w)
      else register_handlers d [WIFI_EVENT, IP_EVENT, SC_EVENT, ETH_EVENT, WIFI_PROV_EVENT] w)"

section \<open>Initialisation\<close>

definition tcpipInit :: "esp_driver \<Rightarrow> wifi \<Rightarrow> bool \<times> wifi" where
  "tcpipInit d w =
     (if tcpip_initialized w then (True, w)
      else let w = w\<lparr>tcpip_initialized := True\<rparr>;
               (err, w) = drv d Efuse_mac_get w;
               w = (if err = ESP_OK then snd (drv d Base_mac_set w) else w);
               (err, w) = drv d Netif_init w;
               w = w\<lparr>tcpip_initialized := (err = ESP_OK)\<rparr>
           in if tcpip_initialized w
              then let (ok, w) = start_network_event_task d w in (ok, w\<lparr>tcpip_initialized := ok\<rparr>)
              else (False, w))"

definition create_netif :: "esp_driver \<Rightarrow> esp_interface \<Rightarrow> nat \<Rightarrow> wifi \<Rightarrow> wifi" where
  "create_netif d i handle w =
     (if netifs w i = None
      then let (err, w) = drv d (Netif_create_default i) w
           in w\<lparr>netifs := (netifs w)(i := if err = ESP_OK then Some handle else None)\<rparr>
      else w)"

text \<open>The part of \<open>wifiLowLevelInit\<close> after the network stack is up.\<close>

definition wifi_driver_init :: "esp_driver \<Rightarrow> bool \<Rightarrow> wifi \<Rightarrow> bool \<times> wifi" where
  "wifi_driver_init d persist w =
     (let w = create_netif d ESP_IF_WIFI_AP 1 w;
          w = create_netif d ESP_IF_WIFI_STA 0 w;
          (err, w) = drv d (Wifi_init (wifiUseStaticBuffers w)) w
      in if err \<noteq> ESP_OK then (False, w\<lparr>lowLevelInitDone := False\<rparr>)
      else let w = (if \<not> persist
                    then let (err, w) = drv d Wifi_set_storage_ram w in w\<lparr>lowLevelInitDone := (err = ESP_OK)\<rparr>
                    else w);
               w = (if lowLevelInitDone w
                    then snd (postArduinoEvent d (Some \<lparr>event_id = ARDUINO_EVENT_WIFI_READY, event_info = No_info\<rparr>) w)
                    else w)
           in (lowLevelInitDone w, w))"

definition wifiLowLevelInit :: "esp_driver \<Rightarrow> bool \<Rightarrow> wifi \<Rightarrow> bool \<times> wifi" where
  "wifiLowLevelInit d persist w =
     (if lowLevelInitDone w then (True, w)
      else let w = w\<lparr>lowLevelInitDone := True\<rparr>; (ok, w) = tcpipInit d w
      in if \<not> ok then (False, w\<lparr>lowLevelInitDone := False\<rparr>) else wifi_driver_init d persist w)"

definition wifiLowLevelDeinit :: "esp_driver \<Rightarrow> wifi \<Rightarrow> bool \<times> wifi" where
  "wifiLowLevelDeinit d w =
     (let w = (if lowLevelInitDone w
               then let (err, w) = drv d Wifi_deinit w in w\<lparr>lowLevelInitDone := (err \<noteq> ESP_OK)\<rparr> else w)
      in (\<not> lowLevelInitDone w, w))"

definition espWiFiStart :: "esp_driver \<Rightarrow> wifi \<Rightarrow> bool \<times> wifi" where
  "espWiFiStart d w =
     (if esp_wifi_started w then (True, w)
      else let w = w\<lparr>esp_wifi_started := True\<rparr>; (err, w) = drv d Wifi_start w
           in if err \<noteq> ESP_OK then (False, w\<lparr>esp_wifi_started := False\<rparr>) else (True, w))"

definition espWiFiStop :: "esp_driver \<Rightarrow> wifi \<Rightarrow> bool \<times> wifi" where
  "espWiFiStop d w =
     (if \<not> esp_wifi_started w then (True, w)
      else let w = w\<lparr>esp_wifi_started := False\<rparr>; (err, w) = drv d Wifi_stop w
           in if err \<noteq> ESP_OK then (False, w\<lparr>esp_wifi_started := True\<rparr>) else wifiLowLevelDeinit d w)"

section \<open>Modes\<close>

definition getMode :: "esp_driver \<Rightarrow> wifi \<Rightarrow> wifi_mode \<times> wifi" where
  "getMode d w =
     (if \<not> lowLevelInitDone w \<or> \<not> esp_wifi_started w then (mode_null, w)
      else let (err, w) = drv d Wifi_get_mode w
           in if err \<noteq> ESP_OK then (mode_null, w) else (got_mode d (calls w), w))"

definition set_protocol_lr :: "esp_driver \<Rightarrow> bool \<Rightarrow> esp_interface \<Rightarrow> wifi \<Rightarrow> bool \<times> wifi" where
  "set_protocol_lr d enabled i w =
     (if enabled then let (err, w) = drv d (Wifi_set_protocol_lr i) w in (err = ESP_OK, w) else (True, w))"

definition apply_mode :: "esp_driver \<Rightarrow> wifi_mode \<Rightarrow> wifi \<Rightarrow> bool \<times> wifi" where
  "apply_mode d m w =
     (let (err, w) = (if mode_sta m
                      then let (name, w) = get_esp_netif_hostname d w
                           in with_calls (set_esp_interface_hostname (answer d) ESP_IF_WIFI_STA name) w
                      else (ESP_OK, w))
      in if err \<noteq> ESP_OK then (False, w)
      else let (err, w) = drv d (Wifi_set_mode m) w
      in if err \<noteq> ESP_OK then (False, w)
      else let (ok, w) = set_protocol_lr d (long_range w \<and> mode_sta m) ESP_IF_WIFI_STA w
      in if \<not> ok then (False, w)
      else let (ok, w) = set_protocol_lr d (long_range w \<and> mode_ap m) ESP_IF_WIFI_AP w
      in if \<not> ok then (False, w)
      else espWiFiStart d w)"

definition set_mode :: "esp_driver \<Rightarrow> wifi_mode \<Rightarrow> wifi \<Rightarrow> bool \<times> wifi" where
  "set_mode d m w =
     (let (cm, w) = getMode d w
      in if cm = m then (True, w)
      else if cm = mode_null
      then let (ok, w) = wifiLowLevelInit d (persistent w) w in if \<not> ok then (False, w) else apply_mode d m w
      else if m = mode_null then espWiFiStop d w
      else apply_mode d m w)"

definition enableSTA :: "esp_driver \<Rightarrow> bool \<Rightarrow> wifi \<Rightarrow> bool \<times> wifi" where
  "enableSTA d enable w =
     (let (currentMode, w) = getMode d w
      in if mode_sta currentMode \<noteq> enable then set_mode d (currentMode\<lparr>mode_sta := enable\<rparr>) w else (True, w))"

definition enableAP :: "esp_driver \<Rightarrow> bool \<Rightarrow> wifi \<Rightarrow> bool \<times> wifi" where
  "enableAP d enable w =
     (let (currentMode, w) = getMode d w
      in if mode_ap currentMode \<noteq> enable then set_mode d (currentMode\<lparr>mode_ap := enable\<rparr>) w else (True, w))"

section \<open>Power\<close>

definition setSleep :: "esp_driver \<Rightarrow> wifi_ps \<Rightarrow> wifi \<Rightarrow> bool \<times> wifi" where
  "setSleep d sleepType w =
     (if sleepType \<noteq> sleepEnabled w
      then let w = w\<lparr>sleepEnabled := sleepType\<rparr>; (m, w) = getMode d w
           in if mode_sta m then let (err, w) = drv d (Wifi_set_ps (sleepEnabled w)) w in (err = ESP_OK, w)
              else (True, w)
      else (False, w))"

definition setTxPower :: "esp_driver \<Rightarrow> int \<Rightarrow> wifi \<Rightarrow> bool \<times> wifi" where
  "setTxPower d txpower w =
     (if (getStatusBits w AND bits [STA_STARTED, AP_STARTED]) = 0 then (False, w)
      else let (err, w) = drv d (Wifi_set_max_tx_power txpower) w in (err = ESP_OK, w))"

end
