(* ===== verification/WiFi_STA.thy ===== *)
theory WiFi_STA
  imports WiFi_Mode
begin

text \<open>
  The station (\<open>WiFiSTA.cpp\<close>, \<open>WiFiSTAInternal.h\<close>, \<open>WiFiSTAConfig.cpp\<close>) and the scan (\<open>WiFiScan.cpp\<close>):
  connection state, begin, disconnect, reconnect, static configuration, and the life of a scan. A C string
  is a string without zero characters, NULL is \<open>None\<close>.
\<close>

section \<open>Connection state\<close>

definition setStatus :: "esp_driver \<Rightarrow> wl_status \<Rightarrow> wifi \<Rightarrow> wifi" where
  "setStatus d s w =
     (case sta_status_group w of
        Some _ \<Rightarrow> w\<lparr>sta_status_group := Some s\<rparr>
      | None \<Rightarrow> let (err, w) = drv d Event_group_create w
                in if err \<noteq> ESP_OK then w\<lparr>sta_status := s\<rparr> else w\<lparr>sta_status_group := Some s\<rparr>)"

definition status :: "wifi \<Rightarrow> wl_status" where
  "status w = (case sta_status_group w of None \<Rightarrow> sta_status w | Some s \<Rightarrow> s)"

definition isConnected :: "wifi \<Rightarrow> bool" where
  "isConnected w \<longleftrightarrow> status w = WL_CONNECTED"

text \<open>The loop condition of \<open>waitForConnectResult\<close>: the states it keeps waiting in.\<close>

definition still_connecting :: "wl_status \<Rightarrow> bool" where
  "still_connecting s \<longleftrightarrow> wl_value s = 0 \<or> wl_value WL_DISCONNECTED \<le> wl_value s"

section \<open>Configuration\<close>

definition wifi_sta_config ::
  "string option \<Rightarrow> string option \<Rightarrow> u8 list option \<Rightarrow> u8 \<Rightarrow> nat \<Rightarrow> wifi_scan_method \<Rightarrow> wifi_sort_method \<Rightarrow> sta_config" where
  "wifi_sta_config ssid password bssid channel min_sec scan_method sort_method =
     (let conf = \<lparr>sta_ssid = [], sta_password = [], sta_bssid = None, sta_channel = channel, sta_authmode = None,
            sta_scan_method = scan_method, sta_sort_method = sort_method\<rparr>
      in case ssid of None \<Rightarrow> conf
         | Some s \<Rightarrow>
             if s = [] then conf
             else let conf = conf\<lparr>sta_ssid := take 32 s\<rparr>;
                      conf = (case password of None \<Rightarrow> conf
                              | Some p \<Rightarrow> if p = [] then conf
                                          else conf\<lparr>sta_authmode := Some min_sec, sta_password := take 64 p\<rparr>)
                  in conf\<lparr>sta_bssid := bssid\<rparr>)"

definition dhcp_address :: "esp_driver \<Rightarrow> wifi \<Rightarrow> esp_err \<times> wifi" where
  "dhcp_address d w = with_calls (set_esp_interface_ip (answer d) ESP_IF_WIFI_STA 0 0 0 0) w"

definition sta_config_static ::
  "esp_driver \<Rightarrow> u32 \<Rightarrow> u32 \<Rightarrow> u32 \<Rightarrow> u32 \<Rightarrow> u32 \<Rightarrow> wifi \<Rightarrow> bool \<times> wifi" where
  "sta_config_static d local_ip gateway subnet dns1 dns2 w =
     (let (ok, w) = enableSTA d True w
      in if \<not> ok then (False, w)
      else let (err, w) = with_calls (set_esp_interface_ip (answer d) ESP_IF_WIFI_STA local_ip gateway subnet 0) w;
               (err, w) = (if err = ESP_OK
                           then with_calls (set_esp_interface_dns (answer d) ESP_IF_WIFI_STA dns1 dns2 0) w
                           else (err, w))
           in (err = ESP_OK, w\<lparr>useStaticIp := (err = ESP_OK)\<rparr>))"

section \<open>Connecting\<close>

definition connect_now :: "esp_driver \<Rightarrow> wifi \<Rightarrow> wl_status \<times> wifi" where
  "connect_now d w =
     (let (err, w) = drv d Wifi_connect w
      in if err \<noteq> ESP_OK then (WL_CONNECT_FAILED, w) else (status w, w))"

definition connect_step :: "esp_driver \<Rightarrow> bool \<Rightarrow> wifi \<Rightarrow> wl_status \<times> wifi" where
  "connect_step d connect w = (if connect then connect_now d w else (status w, w))"

definition begin_address :: "esp_driver \<Rightarrow> bool \<Rightarrow> wifi \<Rightarrow> wl_status \<times> wifi" where
  "begin_address d connect w =
     (if \<not> useStaticIp w
      then let (err, w) = dhcp_address d w
           in if err \<noteq> ESP_OK then (WL_CONNECT_FAILED, w) else connect_step d connect w
      else connect_step d connect w)"

definition begin_config :: "esp_driver \<Rightarrow> sta_config \<Rightarrow> bool \<Rightarrow> wifi \<Rightarrow> wl_status \<times> wifi" where
  "begin_config d conf connect w =
     (let (err, w) = drv d Wifi_get_config w
      in if err \<noteq> ESP_OK then (WL_CONNECT_FAILED, w)
      else if got_config d (calls w) \<noteq> conf
      then let (err, w) = drv d Wifi_disconnect w
           in if err \<noteq> ESP_OK then (WL_CONNECT_FAILED, w)
           else let (err, w) = drv d (Wifi_set_config conf) w
           in if err \<noteq> ESP_OK then (WL_CONNECT_FAILED, w) else begin_address d connect w
      else if status w = WL_CONNECTED then (WL_CONNECTED, w)
      else let (err, w) = drv d (Wifi_set_config conf) w
           in if err \<noteq> ESP_OK then (WL_CONNECT_FAILED, w) else begin_address d connect w)"

definition begin_ssid ::
  "esp_driver \<Rightarrow> string option \<Rightarrow> string option \<Rightarrow> int \<Rightarrow> u8 list option \<Rightarrow> bool \<Rightarrow> wifi \<Rightarrow> wl_status \<times> wifi" where
  "begin_ssid d ssid passphrase channel bssid connect w =
     (let (ok, w) = enableSTA d True w
      in if \<not> ok then (WL_CONNECT_FAILED, w)
      else if ssid = None \<or> the ssid = [] \<or> 32 < length (the ssid) then (WL_CONNECT_FAILED, w)
      else if passphrase \<noteq> None \<and> 64 < length (the passphrase) then (WL_CONNECT_FAILED, w)
      else begin_config d (wifi_sta_config ssid passphrase bssid (word_of_int channel) (min_security w) (scanMethod w) (sortMethod w)) connect w)"

definition begin_current :: "esp_driver \<Rightarrow> wifi \<Rightarrow> wl_status \<times> wifi" where
  "begin_current d w =
     (let (ok, w) = enableSTA d True w
      in if \<not> ok then (WL_CONNECT_FAILED, w)
      else let (err, w) = drv d Wifi_get_config w
      in if err \<noteq> ESP_OK then (WL_CONNECT_FAILED, w)
      else let (err, w) = drv d (Wifi_set_config (got_config d (calls w))) w
      in if err \<noteq> ESP_OK then (WL_CONNECT_FAILED, w)
      else let (err, w) = (if \<not> useStaticIp w then dhcp_address d w else (ESP_OK, w))
      in if err \<noteq> ESP_OK then (WL_CONNECT_FAILED, w)
      else if status w \<noteq> WL_CONNECTED then connect_now d w else (status w, w))"

definition reconnect :: "esp_driver \<Rightarrow> wifi \<Rightarrow> bool \<times> wifi" where
  "reconnect d w =
     (let (m, w) = getMode d w
      in if mode_sta m
         then let (err, w) = drv d Wifi_disconnect w
              in if err = ESP_OK then let (err, w) = drv d Wifi_connect w in (err = ESP_OK, w) else (False, w)
         else (False, w))"

definition disconnect :: "esp_driver \<Rightarrow> bool \<Rightarrow> bool \<Rightarrow> wifi \<Rightarrow> bool \<times> wifi" where
  "disconnect d wifioff eraseap w =
     (let conf = wifi_sta_config None None None 0 3 WIFI_ALL_CHANNEL_SCAN WIFI_CONNECT_AP_BY_SIGNAL; (m, w) = getMode d w
      in if mode_sta m
         then let w = (if eraseap then snd (drv d (Wifi_set_config conf) w) else w);
                  (err, w) = drv d Wifi_disconnect w
              in if err \<noteq> ESP_OK then (False, w)
                 else if wifioff then enableSTA d False w else (True, w)
         else (False, w))"

definition eraseAP :: "esp_driver \<Rightarrow> wifi \<Rightarrow> bool \<times> wifi" where
  "eraseAP d w =
     (let (m, w) = getMode d w;
          (ok, w) = (if m = mode_null then enableSTA d True w else (True, w))
      in if \<not> ok then (False, w) else let (err, w) = drv d Wifi_restore w in (err = ESP_OK, w))"

section \<open>Scanning\<close>

definition WIFISCAN_MAX_RESULTS :: u16 where
  "WIFISCAN_MAX_RESULTS = 32"

datatype scan_result = WIFI_SCAN_RUNNING | WIFI_SCAN_FAILED | Scan_count u16

definition scanDelete :: "wifi \<Rightarrow> wifi" where
  "scanDelete w = (clearStatusBits (bits [WIFI_SCAN_DONE]) w)\<lparr>scanCount := 0\<rparr>"

definition scanNetworks ::
  "esp_driver \<Rightarrow> (wifi \<Rightarrow> wifi) \<Rightarrow> u32 \<Rightarrow> bool \<Rightarrow> u32 \<Rightarrow> wifi \<Rightarrow> scan_result \<times> wifi" where
  "scanNetworks d others millis async max_ms_per_chan w =
     (if getStatusBits w AND bits [WIFI_SCANNING] \<noteq> 0 then (WIFI_SCAN_RUNNING, w)
      else let w = w\<lparr>scanTimeout := max_ms_per_chan * 20, scanAsync := async\<rparr>;
               w = snd (enableSTA d True w);
               w = scanDelete w;
               (err, w) = drv d Wifi_scan_start w
           in if err \<noteq> ESP_OK then (WIFI_SCAN_FAILED, w)
           else let w = w\<lparr>scanStarted := (if millis = 0 then 1 else millis)\<rparr>;
                    w = clearStatusBits (bits [WIFI_SCAN_DONE]) w;
                    w = setStatusBits (bits [WIFI_SCANNING]) w
                in if scanAsync w then (WIFI_SCAN_RUNNING, w)
                else let (b, w) = waitStatusBits others (bits [WIFI_SCAN_DONE]) w
                     in if b \<noteq> 0 then (Scan_count (scanCount w), w) else (WIFI_SCAN_FAILED, w))"

definition scanDone :: "esp_driver \<Rightarrow> wifi \<Rightarrow> wifi" where
  "scanDone d w =
     (let (_, w) = drv d Wifi_scan_get_ap_num w;
          w = w\<lparr>scanCount := got_ap_num d (calls w)\<rparr>;
          w = (if scanCount w \<noteq> 0
               then let w = w\<lparr>scanCount := (if WIFISCAN_MAX_RESULTS < scanCount w then WIFISCAN_MAX_RESULTS else scanCount w)\<rparr>;
                        (err, w) = drv d (Wifi_scan_get_ap_records (unat (scanCount w))) w
                    in w\<lparr>scanCount := (if err \<noteq> ESP_OK then 0 else got_ap_num d (calls w)),
                         scanResult := got_ap_records d (calls w)\<rparr>
               else w);
          w = w\<lparr>scanStarted := 0\<rparr>;
          w = setStatusBits (bits [WIFI_SCAN_DONE]) w
      in clearStatusBits (bits [WIFI_SCANNING]) w)"

definition scanComplete :: "u32 \<Rightarrow> wifi \<Rightarrow> scan_result \<times> wifi" where
  "scanComplete millis w =
     (if scanStarted w \<noteq> 0 \<and> scanTimeout w < millis - scanStarted w
      then (WIFI_SCAN_FAILED, clearStatusBits (bits [WIFI_SCANNING]) w)
      else if getStatusBits w AND bits [WIFI_SCAN_DONE] \<noteq> 0 then (Scan_count (scanCount w), w)
      else if getStatusBits w AND bits [WIFI_SCANNING] \<noteq> 0 then (WIFI_SCAN_RUNNING, w)
      else (WIFI_SCAN_FAILED, w))"

text \<open>The index of a record, or NULL.\<close>

definition getScanInfoByIndex :: "u32 \<Rightarrow> wifi \<Rightarrow> nat option" where
  "getScanInfoByIndex i w = (if ucast (scanCount w) \<le> i then None else Some (unat i))"

end
