(* ===== verification/WiFi_Events.thy ===== *)
theory WiFi_Events
  imports WiFi_STA
begin

text \<open>
  Event handling of \<open>WiFiGeneric.cpp\<close>: ESP-IDF events become Arduino events and are queued
  (\<open>_arduino_event_cb\<close>), the event task takes them from the queue, \<open>_eventCallback\<close> updates the
  connection state and the status bits, reconnects, and calls the registered listeners.
  A listener is a parameter: a function of its token, the event and the state that may change the state,
  the list of listeners included.
\<close>

section \<open>From ESP-IDF events to the queue\<close>

datatype esp_event = Wifi_event wifi_event | Ip_event ip_event | Eth_event eth_event | Sc_event sc_event
  | Prov_event prov_event

fun translate :: "netif_table \<Rightarrow> esp_event \<Rightarrow> arduino_event_id" where
  "translate tab (Wifi_event e) = translate_wifi_event e"
| "translate tab (Ip_event e) = translate_ip_event tab e"
| "translate tab (Eth_event e) = translate_eth_event e"
| "translate tab (Sc_event e) = translate_sc_event e"
| "translate tab (Prov_event e) = translate_prov_event e"

fun info_of :: "esp_event \<Rightarrow> event_info" where
  "info_of (Wifi_event (WIFI_EVENT_STA_DISCONNECTED r)) = Disconnected_info r"
| "info_of (Sc_event (SC_EVENT_GOT_SSID_PSWD ssid password bssid)) = Sc_info ssid password bssid"
| "info_of _ = No_info"

definition arduino_event_cb :: "esp_driver \<Rightarrow> esp_event \<Rightarrow> wifi \<Rightarrow> wifi" where
  "arduino_event_cb d e w =
     (let i = translate (netifs w) e;
          w = (if e = Prov_event WIFI_PROV_END then snd (drv d Prov_mgr_deinit w) else w)
      in if i \<noteq> ARDUINO_EVENT_MAX
         then snd (postArduinoEvent d (Some \<lparr>event_id = i, event_info = info_of e\<rparr>) w) else w)"

section \<open>Registering listeners\<close>

definition new_listener :: "wifi \<Rightarrow> event_listener" where
  "new_listener w = \<lparr>listener_id = current_id w, cb = None, fcb = None, scb = None,
     on_event = ARDUINO_EVENT_WIFI_READY\<rparr>"

definition push_listener :: "event_listener \<Rightarrow> wifi \<Rightarrow> nat \<times> wifi" where
  "push_listener l w =
     (listener_id l, w\<lparr>cbEventList := cbEventList w @ [l], current_id := current_id w + 1\<rparr>)"

definition onEvent_cb :: "nat option \<Rightarrow> arduino_event_id \<Rightarrow> wifi \<Rightarrow> nat \<times> wifi" where
  "onEvent_cb f e w =
     (if f = None then (0, w) else push_listener ((new_listener w)\<lparr>cb := f, on_event := e\<rparr>) w)"

definition onEvent_fcb :: "nat option \<Rightarrow> arduino_event_id \<Rightarrow> wifi \<Rightarrow> nat \<times> wifi" where
  "onEvent_fcb f e w =
     (if f = None then (0, w) else push_listener ((new_listener w)\<lparr>fcb := f, on_event := e\<rparr>) w)"

definition onEvent_scb :: "nat option \<Rightarrow> arduino_event_id \<Rightarrow> wifi \<Rightarrow> nat \<times> wifi" where
  "onEvent_scb f e w =
     (if f = None then (0, w) else push_listener ((new_listener w)\<lparr>scb := f, on_event := e\<rparr>) w)"

text \<open>The loop of \<open>removeEvent\<close>: after an element is erased, the index still moves on.\<close>

function erase_matching :: "('a \<Rightarrow> bool) \<Rightarrow> nat \<Rightarrow> 'a list \<Rightarrow> 'a list" where
  "erase_matching P i xs =
     (if i < length xs
      then erase_matching P (Suc i) (if P (xs ! i) then take i xs @ drop (Suc i) xs else xs)
      else xs)"
  by auto
termination by (relation "measure (\<lambda>(P, i, xs). length xs - i)") auto

declare erase_matching.simps [simp del]

definition removeEvent_cb :: "nat option \<Rightarrow> arduino_event_id \<Rightarrow> wifi \<Rightarrow> wifi" where
  "removeEvent_cb f e w =
     (if f = None then w
      else w\<lparr>cbEventList := erase_matching (\<lambda>l. cb l = f \<and> on_event l = e) 0 (cbEventList w)\<rparr>)"

definition removeEvent_scb :: "nat option \<Rightarrow> arduino_event_id \<Rightarrow> wifi \<Rightarrow> wifi" where
  "removeEvent_scb f e w =
     (if f = None then w
      else w\<lparr>cbEventList := erase_matching (\<lambda>l. scb l = f \<and> on_event l = e) 0 (cbEventList w)\<rparr>)"

definition removeEvent_id :: "nat \<Rightarrow> wifi \<Rightarrow> wifi" where
  "removeEvent_id i w = w\<lparr>cbEventList := erase_matching (\<lambda>l. listener_id l = i) 0 (cbEventList w)\<rparr>"

section \<open>The event callback\<close>

definition disconnected_status :: "esp_driver \<Rightarrow> wifi_reason \<Rightarrow> wifi \<Rightarrow> wifi" where
  "disconnected_status d reason w =
     (if reason = WIFI_REASON_NO_AP_FOUND then setStatus d WL_NO_SSID_AVAIL w
      else if reason = WIFI_REASON_AUTH_FAIL \<and> \<not> first_connect w then setStatus d WL_CONNECT_FAILED w
      else if reason = WIFI_REASON_BEACON_TIMEOUT \<or> reason = WIFI_REASON_HANDSHAKE_TIMEOUT
      then setStatus d WL_CONNECTION_LOST w
      else if reason = WIFI_REASON_AUTH_EXPIRE then w
      else setStatus d WL_DISCONNECTED w)"

definition reconnect_decision :: "esp_driver \<Rightarrow> wifi_reason \<Rightarrow> wifi \<Rightarrow> bool \<times> wifi" where
  "reconnect_decision d reason w =
     (if reason = WIFI_REASON_ASSOC_LEAVE then (False, w)
      else if first_connect w then (True, w\<lparr>first_connect := False\<rparr>)
      else if autoReconnect w \<and> isReconnectableReason reason then (True, w)
      else if reason = WIFI_REASON_ASSOC_FAIL then (False, setStatus d WL_CONNECT_FAILED w)
      else (False, w))"

definition sta_disconnected :: "esp_driver \<Rightarrow> wifi_reason \<Rightarrow> wifi \<Rightarrow> wifi" where
  "sta_disconnected d r w =
     (let reason = (if r = Reason_0 then WIFI_REASON_UNSPECIFIED else r);
          w = disconnected_status d reason w;
          w = clearStatusBits (bits [STA_CONNECTED, STA_HAS_IP, STA_HAS_IP6]) w;
          (doReconnect, w) = reconnect_decision d reason w
      in if doReconnect then snd (begin_current d (snd (disconnect d False False w))) else w)"

definition ap_client_left :: "esp_driver \<Rightarrow> wifi \<Rightarrow> wifi" where
  "ap_client_left d w =
     (let (err, w) = drv d Wifi_ap_get_sta_list w
      in if err \<noteq> ESP_OK \<or> got_clients d (calls w) = 0 then clearStatusBits (bits [AP_HAS_CLIENT]) w else w)"

definition reason_of :: "event_info \<Rightarrow> wifi_reason" where
  "reason_of i = (case i of Disconnected_info r \<Rightarrow> r | _ \<Rightarrow> Reason_0)"

definition smartconfig_credentials :: "esp_driver \<Rightarrow> event_info \<Rightarrow> wifi \<Rightarrow> wifi" where
  "smartconfig_credentials d i w =
     (case i of Sc_info ssid password bssid \<Rightarrow> snd (begin_ssid d (Some ssid) (Some password) 0 bssid True w)
      | _ \<Rightarrow> w)"

definition handle_event :: "esp_driver \<Rightarrow> arduino_event \<Rightarrow> wifi \<Rightarrow> wifi" where
  "handle_event d e w =
     (case event_id e of
        ARDUINO_EVENT_WIFI_SCAN_DONE \<Rightarrow> scanDone d w
      | ARDUINO_EVENT_WIFI_STA_START \<Rightarrow>
          (let w = setStatus d WL_DISCONNECTED w; w = setStatusBits (bits [STA_STARTED]) w
           in snd (drv d (Wifi_set_ps (sleepEnabled w)) w))
      | ARDUINO_EVENT_WIFI_STA_STOP \<Rightarrow>
          clearStatusBits (bits [STA_STARTED, STA_CONNECTED, STA_HAS_IP, STA_HAS_IP6]) (setStatus d WL_NO_SHIELD w)
      | ARDUINO_EVENT_WIFI_STA_CONNECTED \<Rightarrow> setStatusBits (bits [STA_CONNECTED]) (setStatus d WL_IDLE_STATUS w)
      | ARDUINO_EVENT_WIFI_STA_DISCONNECTED \<Rightarrow> sta_disconnected d (reason_of (event_info e)) w
      | ARDUINO_EVENT_WIFI_STA_GOT_IP \<Rightarrow> setStatusBits (bits [STA_HAS_IP, STA_CONNECTED]) (setStatus d WL_CONNECTED w)
      | ARDUINO_EVENT_WIFI_STA_LOST_IP \<Rightarrow> clearStatusBits (bits [STA_HAS_IP]) (setStatus d WL_IDLE_STATUS w)
      | ARDUINO_EVENT_WIFI_AP_START \<Rightarrow> setStatusBits (bits [AP_STARTED]) w
      | ARDUINO_EVENT_WIFI_AP_STOP \<Rightarrow> clearStatusBits (bits [AP_STARTED, AP_HAS_CLIENT]) w
      | ARDUINO_EVENT_WIFI_AP_STACONNECTED \<Rightarrow> setStatusBits (bits [AP_HAS_CLIENT]) w
      | ARDUINO_EVENT_WIFI_AP_STADISCONNECTED \<Rightarrow> ap_client_left d w
      | ARDUINO_EVENT_ETH_START \<Rightarrow> setStatusBits (bits [ETH_STARTED]) w
      | ARDUINO_EVENT_ETH_STOP \<Rightarrow> clearStatusBits (bits [ETH_STARTED, ETH_CONNECTED, ETH_HAS_IP, ETH_HAS_IP6]) w
      | ARDUINO_EVENT_ETH_CONNECTED \<Rightarrow> setStatusBits (bits [ETH_CONNECTED]) w
      | ARDUINO_EVENT_ETH_DISCONNECTED \<Rightarrow> clearStatusBits (bits [ETH_CONNECTED, ETH_HAS_IP, ETH_HAS_IP6]) w
      | ARDUINO_EVENT_ETH_GOT_IP \<Rightarrow> setStatusBits (bits [ETH_CONNECTED, ETH_HAS_IP]) w
      | ARDUINO_EVENT_WIFI_STA_GOT_IP6 \<Rightarrow> setStatusBits (bits [STA_CONNECTED, STA_HAS_IP6]) w
      | ARDUINO_EVENT_WIFI_AP_GOT_IP6 \<Rightarrow> setStatusBits (bits [AP_HAS_IP6]) w
      | ARDUINO_EVENT_ETH_GOT_IP6 \<Rightarrow> setStatusBits (bits [ETH_CONNECTED, ETH_HAS_IP6]) w
      | ARDUINO_EVENT_SC_GOT_SSID_PSWD \<Rightarrow> smartconfig_credentials d (event_info e) w
      | ARDUINO_EVENT_SC_SEND_ACK_DONE \<Rightarrow> (snd (drv d Smartconfig_stop w))\<lparr>smartConfigDone := True\<rparr>
      | _ \<Rightarrow> w)"

section \<open>Calling the listeners\<close>

datatype callback = Plain nat | Function_object nat | System nat

type_synonym listeners = "callback \<Rightarrow> arduino_event \<Rightarrow> wifi \<Rightarrow> wifi"

definition listener_call :: "arduino_event \<Rightarrow> event_listener \<Rightarrow> callback option" where
  "listener_call e l =
     (if on_event l = event_id e \<or> on_event l = ARDUINO_EVENT_MAX
      then case cb l of Some f \<Rightarrow> Some (Plain f)
           | None \<Rightarrow> (case fcb l of Some f \<Rightarrow> Some (Function_object f)
                      | None \<Rightarrow> (case scb l of Some f \<Rightarrow> Some (System f) | None \<Rightarrow> None))
      else None)"

definition call_listener :: "listeners \<Rightarrow> arduino_event \<Rightarrow> event_listener \<Rightarrow> wifi \<Rightarrow> wifi" where
  "call_listener run e l w = (case listener_call e l of None \<Rightarrow> w | Some c \<Rightarrow> run c e w)"

partial_function (option) dispatch_from :: "listeners \<Rightarrow> arduino_event \<Rightarrow> nat \<Rightarrow> wifi \<Rightarrow> wifi option" where
  "dispatch_from run e i w =
     (if i < length (cbEventList w)
      then dispatch_from run e (Suc i) (call_listener run e (cbEventList w ! i) w)
      else Some w)"

definition eventCallback :: "esp_driver \<Rightarrow> listeners \<Rightarrow> arduino_event option \<Rightarrow> wifi \<Rightarrow> wifi option" where
  "eventCallback d run ev w =
     (case ev of None \<Rightarrow> Some w | Some e \<Rightarrow> dispatch_from run e 0 (handle_event d e w))"

text \<open>One round of the event task: nothing when the queue is empty.\<close>

definition arduino_event_task :: "esp_driver \<Rightarrow> listeners \<Rightarrow> wifi \<Rightarrow> wifi option" where
  "arduino_event_task d run w =
     (case event_queue w of
        Some (e # q) \<Rightarrow> eventCallback d run (Some e) (w\<lparr>event_queue := Some q\<rparr>)
      | _ \<Rightarrow> Some w)"

end
