(* ===== verification/WiFi_Frame.thy ===== *)
theory WiFi_Frame
  imports WiFi_Events
begin

text \<open>
  What the life-cycle and station operations leave alone: a view of the state (connection state, listeners,
  scan, reconnect switches), the status bits once the event group exists, and the number of connection
  attempts made. The operations that connect add at most one attempt.
\<close>

section \<open>Rules along the structure of an operation\<close>

text \<open>A relation \<open>S\<close> between the state before and after an operation, when every part of the operation but the
  last is related by \<open>R\<close>.\<close>

locale structural =
  fixes R S :: "wifi \<Rightarrow> wifi \<Rightarrow> bool"
  assumes R_S: "R w w1 \<Longrightarrow> S w1 w2 \<Longrightarrow> S w w2"
begin

lemma let_pair:
  assumes "R w (snd p)" "\<And>r v. S v (snd (f r v))"
  shows "S w (snd (Let p (\<lambda>(r, v). f r v)))"
  using R_S [OF assms(1) assms(2) [of "snd p" "fst p"]] by (cases p) simp

lemma let_pair_state:
  assumes "R w (snd p)" "\<And>r v. S v (f r v)"
  shows "S w (Let p (\<lambda>(r, v). f r v))"
  using R_S [OF assms(1) assms(2) [of "snd p" "fst p"]] by (cases p) simp

lemma case_pair:
  assumes "R w (snd p)" "\<And>r v. S v (snd (f r v))"
  shows "S w (snd (case p of (r, v) \<Rightarrow> f r v))"
  using let_pair [OF assms] by simp

lemma case_pair_state:
  assumes "R w (snd p)" "\<And>r v. S v (f r v)"
  shows "S w (case p of (r, v) \<Rightarrow> f r v)"
  using let_pair_state [OF assms] by simp

lemma let_state:
  assumes "R w v" "\<And>v. S v (snd (f v))"
  shows "S w (snd (Let v f))"
  using R_S [OF assms] by simp

lemma let_states:
  assumes "R w v" "\<And>v. S v (f v)"
  shows "S w (Let v f)"
  using R_S [OF assms] by simp

lemma cond:
  assumes "c \<Longrightarrow> S w (snd a)" "\<not> c \<Longrightarrow> S w (snd b)"
  shows "S w (snd (if c then a else b))"
  using assms by simp

lemma cond_state:
  assumes "c \<Longrightarrow> S w a" "\<not> c \<Longrightarrow> S w b"
  shows "S w (if c then a else b)"
  using assms by simp

lemma pair: "S w v \<Longrightarrow> S w (snd (r, v))"
  by simp

lemma let_value:
  "(\<And>x. S w (snd (f x))) \<Longrightarrow> S w (snd (Let (e :: sta_config) f))"
  "(\<And>y. S w (snd (g y))) \<Longrightarrow> S w (snd (Let (m :: u8 list) g))"
  "(\<And>z. S w (snd (h z))) \<Longrightarrow> S w (snd (Let (s :: string) h))"
  by simp_all

lemma let_reason: "(\<And>x. S w (f x)) \<Longrightarrow> S w (Let (e :: wifi_reason) f)"
  by simp

lemmas rules = let_reason let_pair let_pair_state case_pair case_pair_state cond cond_state let_state let_states let_value
  pair

end

section \<open>What is kept\<close>

definition view :: "wifi \<Rightarrow> _" where
  "view w = (first_connect w, autoReconnect w, cbEventList w, current_id w, sta_status w, sta_status_group w,
     smartConfigDone w, scanCount w, scanStarted w)"

definition attempts :: "wifi \<Rightarrow> nat" where
  "attempts w = count_list (calls w) Wifi_connect"

text \<open>\<open>keeps n w w'\<close>: the view is unchanged, the status bits survive (an event group created on the way has
  only the DNS bit), at most \<open>n\<close> attempts were made.\<close>

definition keeps :: "nat \<Rightarrow> wifi \<Rightarrow> wifi \<Rightarrow> bool" where
  "keeps n w w' \<longleftrightarrow> view w' = view w \<and>
     (event_group w' = event_group w \<or> event_group w = None \<and> event_group w' = Some (bits [WIFI_DNS_IDLE])) \<and>
     attempts w \<le> attempts w' \<and> attempts w' \<le> attempts w + n"

lemma keeps_refl [simp, intro]: "keeps n w w"
  by (simp add: keeps_def)

lemma keeps_trans: "keeps m w w1 \<Longrightarrow> keeps n w1 w2 \<Longrightarrow> keeps (m + n) w w2"
  by (auto simp: keeps_def)

lemma keeps_trans0: "keeps 0 w w1 \<Longrightarrow> keeps n w1 w2 \<Longrightarrow> keeps n w w2"
  using keeps_trans [of 0] by simp

lemma keeps_mono: "keeps m w w' \<Longrightarrow> m \<le> n \<Longrightarrow> keeps n w w'"
  by (auto simp: keeps_def)

interpretation keeps: structural "keeps 0" "keeps n" for n
  by unfold_locales (rule keeps_trans0)

text \<open>Changes of the fields outside the view.\<close>

lemma keeps_fields [simp]:
  "keeps n w (w'\<lparr>tcpip_initialized := x\<rparr>) = keeps n w w'"
  "keeps n w (w'\<lparr>lowLevelInitDone := x\<rparr>) = keeps n w w'"
  "keeps n w (w'\<lparr>esp_wifi_started := x\<rparr>) = keeps n w w'"
  "keeps n w (w'\<lparr>event_task := x\<rparr>) = keeps n w w'"
  "keeps n w (w'\<lparr>event_queue := y\<rparr>) = keeps n w w'"
  "keeps n w (w'\<lparr>netifs := z\<rparr>) = keeps n w w'"
  "keeps n w (w'\<lparr>default_hostname := h\<rparr>) = keeps n w w'"
  "keeps n w (w'\<lparr>useStaticIp := x\<rparr>) = keeps n w w'"
  "keeps n w (w'\<lparr>sleepEnabled := q\<rparr>) = keeps n w w'"
  by (simp_all add: keeps_def view_def attempts_def)

lemma keeps_new_group [simp]:
  "event_group w = None \<Longrightarrow> keeps n w (w\<lparr>event_group := Some (bits [WIFI_DNS_IDLE])\<rparr>)"
  by (simp add: keeps_def view_def attempts_def)

lemma keeps_drv: "keeps 1 w (snd (drv d c w))"
  by (auto simp: drv_def keeps_def view_def attempts_def)

lemma keeps_drv0 [simp, intro]: "c \<noteq> Wifi_connect \<Longrightarrow> keeps 0 w (snd (drv d c w))"
  by (auto simp: drv_def keeps_def view_def attempts_def)

section \<open>Initialisation\<close>

lemma keeps_post [simp, intro]: "keeps 0 w (snd (postArduinoEvent d e w))"
  unfolding postArduinoEvent_def
  by (cases e) (auto intro!: keeps.rules)

lemma event_group_drv [simp]: "event_group (snd (drv d c w)) = event_group w"
  by (simp add: drv_def)

lemma keeps_create [simp, intro]:
  "keeps 0 w (snd (create_event_group d w))"
  "keeps 0 w (snd (create_event_queue d w))"
  "keeps 0 w (snd (create_event_task d w))"
  subgoal
    by (cases "drv d Event_group_create w")
      (use keeps_drv0 [of Event_group_create w d] event_group_drv [of d Event_group_create w] in
        \<open>auto simp: create_event_group_def keeps_def view_def attempts_def\<close>)
  unfolding create_event_queue_def create_event_task_def
  by (auto intro!: keeps.rules)

lemma keeps_register [simp, intro]: "keeps 0 w (snd (register_handlers d bs w))"
  by (induction bs arbitrary: w) (auto simp del: Let_def intro!: keeps.rules)

lemma keeps_start_task [simp, intro]: "keeps 0 w (snd (start_network_event_task d w))"
  unfolding start_network_event_task_def by (auto intro!: keeps.rules)

lemma keeps_tcpipInit [simp, intro]: "keeps 0 w (snd (tcpipInit d w))"
  unfolding tcpipInit_def
  by (intro keeps.rules keeps_drv0) auto

lemma keeps_create_netif [simp, intro]: "keeps 0 w (create_netif d i h w)"
  unfolding create_netif_def by (auto intro!: keeps.rules)

lemma keeps_driver_init [simp, intro]: "keeps 0 w (snd (wifi_driver_init d p w))"
  unfolding wifi_driver_init_def
  by (intro keeps.rules keeps_drv0 keeps_create_netif) (auto intro!: keeps.rules)

lemma keeps_low_level_init [simp, intro]: "keeps 0 w (snd (wifiLowLevelInit d p w))"
  unfolding wifiLowLevelInit_def
  by (intro keeps.rules keeps_tcpipInit keeps_driver_init) simp_all

lemma keeps_stop [simp, intro]:
  "keeps 0 w (snd (wifiLowLevelDeinit d w))" "keeps 0 w (snd (espWiFiStart d w))"
  unfolding wifiLowLevelDeinit_def espWiFiStart_def
  by (intro keeps.rules keeps_drv0; auto intro!: keeps.rules)+

lemma keeps_espWiFiStop [simp, intro]: "keeps 0 w (snd (espWiFiStop d w))"
  unfolding espWiFiStop_def
  by (intro keeps.rules keeps_drv0) (auto intro!: keeps.rules)

section \<open>Modes\<close>

lemma keeps_getMode [simp, intro]: "keeps 0 w (snd (getMode d w))"
  unfolding getMode_def by (intro keeps.rules) auto

lemma keeps_hostname [simp, intro]: "keeps 0 w (snd (get_esp_netif_hostname d w))"
  unfolding get_esp_netif_hostname_def by (intro keeps.rules keeps_drv0) simp_all

lemma keeps_protocol [simp, intro]: "keeps 0 w (snd (set_protocol_lr d b i w))"
  unfolding set_protocol_lr_def by (intro keeps.rules) auto

definition no_attempt :: "nat \<Rightarrow> 'r \<times> esp_call list \<Rightarrow> bool" where
  "no_attempt n p \<longleftrightarrow> count_list (snd p) Wifi_connect = n"

lemma no_attempt_esp: "c \<noteq> Wifi_connect \<Longrightarrow> no_attempt n (r, cs) \<Longrightarrow> no_attempt n (esp env c cs)"
  by (simp add: no_attempt_def esp_def)

lemma no_attempt_let:
  assumes "no_attempt n p" "\<And>r cs. no_attempt n (r, cs) \<Longrightarrow> no_attempt n (f r cs)"
  shows "no_attempt n (Let p (\<lambda>(r, cs). f r cs))"
  using assms by (cases p) simp

lemma no_attempt_if: "no_attempt n a \<Longrightarrow> no_attempt n b \<Longrightarrow> no_attempt n (if c then a else b)"
  by simp

lemma no_attempt_result: "no_attempt n (r, cs) \<Longrightarrow> no_attempt n (r', cs)"
  by (simp add: no_attempt_def)

lemma no_attempt_lease:
  assumes "no_attempt n a" "\<And>s e. no_attempt n (f s e)"
  shows "no_attempt n (case x of None \<Rightarrow> a | Some (s, e) \<Rightarrow> f s e)"
  using assms by (simp split: option.split)

lemmas no_attempt_rules = no_attempt_let no_attempt_if no_attempt_lease no_attempt_esp

lemma no_attempt_set_ip:
  "no_attempt n (r, cs) \<Longrightarrow> no_attempt n (set_esp_interface_ip env i ip gw sn st cs)"
  unfolding set_esp_interface_ip_def
  by (intro no_attempt_rules; (simp; fail | erule no_attempt_result))

lemma no_attempt_dns: "no_attempt n (r, cs) \<Longrightarrow> no_attempt n (set_dns env i k a cs)"
  unfolding set_dns_def
  by (intro no_attempt_rules; (simp; fail | erule no_attempt_result))

lemma no_attempt_set_dns:
  "no_attempt n (r, cs) \<Longrightarrow> no_attempt n (set_esp_interface_dns env i a b c cs)"
  unfolding set_esp_interface_dns_def
  by (intro no_attempt_rules no_attempt_dns; erule no_attempt_result)

lemma no_attempt_hostname:
  "no_attempt n (r, cs) \<Longrightarrow> no_attempt n (set_esp_interface_hostname env i name cs)"
  unfolding set_esp_interface_hostname_def
  by (intro no_attempt_rules; (simp; fail | erule no_attempt_result))

lemma keeps_with_calls:
  assumes "\<And>cs. no_attempt (count_list cs Wifi_connect) (f cs)"
  shows "keeps 0 w (snd (with_calls f w))"
  using assms [of "calls w"]
  by (auto simp: with_calls_def keeps_def view_def attempts_def no_attempt_def split: prod.split)

lemma no_attempt_start: "no_attempt (count_list cs Wifi_connect) (r, cs)"
  by (simp add: no_attempt_def)

lemma keeps_set_hostname [simp, intro]:
  "keeps 0 w (snd (with_calls (set_esp_interface_hostname env i name) w))"
  by (intro keeps_with_calls no_attempt_hostname no_attempt_start)

lemma keeps_set_ip [simp, intro]:
  "keeps 0 w (snd (with_calls (set_esp_interface_ip env i ip gw sn st) w))"
  by (intro keeps_with_calls no_attempt_set_ip no_attempt_start)

lemma keeps_set_dns [simp, intro]:
  "keeps 0 w (snd (with_calls (set_esp_interface_dns env i a b c) w))"
  by (intro keeps_with_calls no_attempt_set_dns no_attempt_start)

lemma keeps_apply_mode [simp, intro]: "keeps 0 w (snd (apply_mode d m w))"
  unfolding apply_mode_def by (intro keeps.rules) auto

lemma keeps_set_mode [simp, intro]: "keeps 0 w (snd (set_mode d m w))"
  unfolding set_mode_def by (intro keeps.rules) auto

lemma keeps_enable [simp, intro]:
  "keeps 0 w (snd (enableSTA d b w))" "keeps 0 w (snd (enableAP d b w))"
  unfolding enableSTA_def enableAP_def by (intro keeps.rules; auto)+

section \<open>The station\<close>

lemma keeps_dhcp_address [simp, intro]: "keeps 0 w (snd (dhcp_address d w))"
  unfolding dhcp_address_def by auto

lemma keeps_connect_now [simp, intro]: "keeps 1 w (snd (connect_now d w))"
  using keeps_drv [of w d Wifi_connect] by (auto simp: connect_now_def split: prod.split)

lemma keeps_connect_step [simp, intro]: "keeps 1 w (snd (connect_step d c w))"
  unfolding connect_step_def by (intro keeps.rules keeps_connect_now keeps_refl)

lemma keeps_begin_address [simp, intro]: "keeps 1 w (snd (begin_address d c w))"
  unfolding begin_address_def
  by (intro keeps.rules keeps_connect_step keeps_refl keeps_dhcp_address)

lemma keeps_begin_config [simp, intro]: "keeps 1 w (snd (begin_config d conf c w))"
  unfolding begin_config_def
  by (intro keeps.rules keeps_begin_address keeps_refl keeps_drv0) simp_all

lemma keeps_begin_ssid [simp, intro]: "keeps 1 w (snd (begin_ssid d ssid pass ch bssid c w))"
  unfolding begin_ssid_def
  by (intro keeps.rules keeps_begin_config keeps_refl keeps_enable)

lemma keeps_begin_current [simp, intro]: "keeps 1 w (snd (begin_current d w))"
  unfolding begin_current_def
  by (intro keeps.rules keeps_connect_now keeps_refl keeps_enable keeps_dhcp_address keeps_drv0) simp_all

lemma keeps_disconnect [simp, intro]: "keeps 0 w (snd (disconnect d off erase w))"
  unfolding disconnect_def
  by (intro keeps.rules keeps_getMode keeps_refl keeps_enable keeps_drv0) simp_all

lemma keeps_static [simp, intro]: "keeps 0 w (snd (sta_config_static d ip gw sn a b w))"
  unfolding sta_config_static_def
  by (intro keeps.rules keeps_enable keeps_refl keeps_set_ip keeps_set_dns) simp_all

lemma keeps_connect_ok: "keeps 1 w (snd (let (err, w) = drv d Wifi_connect w in (err = ESP_OK, w)))"
  using keeps_drv [of w d Wifi_connect] by (cases "drv d Wifi_connect w") simp

lemma keeps_reconnect [simp, intro]: "keeps 1 w (snd (reconnect d w))"
  unfolding reconnect_def
  by (rule keeps.let_pair, rule keeps_getMode, rule keeps.cond, rule keeps.let_pair, simp, rule keeps.cond,
      rule keeps_connect_ok) simp_all

lemma keeps_erase [simp, intro]: "keeps 0 w (snd (eraseAP d w))"
  unfolding eraseAP_def by (intro keeps.rules keeps_getMode keeps_drv0 keeps_refl keeps_enable) simp_all

lemma keeps_power [simp, intro]: "keeps 0 w (snd (setSleep d ps w))" "keeps 0 w (snd (setTxPower d p w))"
  unfolding setSleep_def setTxPower_def
  by (intro keeps.rules keeps_getMode keeps_drv0 keeps_refl; simp)+

end
