(* ===== verification/WiFi_Machine.thy ===== *)
theory WiFi_Machine
  imports WiFi_Frame
begin

text \<open>
  The WiFi library as a state machine: every call of its interface, every ESP-IDF event and every round of the
  event task is a step, in any order. A listener acts through the same calls, so its effects are steps that
  follow the event; the wait of a synchronous scan is a scan whose bits are set by later steps.
  Invariants of the reachable states: the order of initialisation, the consistency of the status bits, and
  the registry of listeners.
\<close>

inductive wifi_step :: "esp_driver \<Rightarrow> wifi \<Rightarrow> wifi \<Rightarrow> bool" for d :: esp_driver where
  Esp_event: "wifi_step d w (arduino_event_cb d e w)"
| Task_event: "event_queue w = Some (e # q) \<Longrightarrow> wifi_step d w (handle_event d e (w\<lparr>event_queue := Some q\<rparr>))"
| Tcpip: "wifi_step d w (snd (tcpipInit d w))"
| Mode: "wifi_step d w (snd (set_mode d m w))"
| Sta: "wifi_step d w (snd (enableSTA d b w))"
| Ap: "wifi_step d w (snd (enableAP d b w))"
| Sleep: "wifi_step d w (snd (setSleep d ps w))"
| Tx_power: "wifi_step d w (snd (setTxPower d p w))"
| Hostname: "wifi_step d w (set_esp_netif_hostname h w)"
| Persistent: "wifi_step d w (w\<lparr>persistent := b\<rparr>)"
| Long_range: "wifi_step d w (w\<lparr>long_range := b\<rparr>)"
| Auto_reconnect: "wifi_step d w (w\<lparr>autoReconnect := b\<rparr>)"
| Begin_ssid: "wifi_step d w (snd (begin_ssid d ssid pass ch bssid c w))"
| Begin_current: "wifi_step d w (snd (begin_current d w))"
| Config: "wifi_step d w (snd (sta_config_static d ip gw sn dns1 dns2 w))"
| Reconnect: "wifi_step d w (snd (reconnect d w))"
| Disconnect: "wifi_step d w (snd (disconnect d off erase w))"
| Erase: "wifi_step d w (snd (eraseAP d w))"
| Scan: "wifi_step d w (snd (scanNetworks d id now async ms w))"
| Scan_complete: "wifi_step d w (snd (scanComplete now w))"
| Scan_delete: "wifi_step d w (scanDelete w)"
| Listen_cb: "wifi_step d w (snd (onEvent_cb f ev w))"
| Listen_fcb: "wifi_step d w (snd (onEvent_fcb f ev w))"
| Listen_scb: "wifi_step d w (snd (onEvent_scb f ev w))"
| Remove_cb: "wifi_step d w (removeEvent_cb f ev w)"
| Remove_scb: "wifi_step d w (removeEvent_scb f ev w)"
| Remove_id: "wifi_step d w (removeEvent_id i w)"

inductive wifi_reachable :: "esp_driver \<Rightarrow> wifi \<Rightarrow> bool" for d :: esp_driver where
  Reset: "wifi_reachable d wifi_reset"
| Step: "wifi_reachable d w \<Longrightarrow> wifi_step d w w' \<Longrightarrow> wifi_reachable d w'"

section \<open>Order of initialisation\<close>

definition stack_ok :: "wifi \<Rightarrow> bool" where
  "stack_ok w \<longleftrightarrow> (tcpip_initialized w \<longrightarrow> event_group w \<noteq> None \<and> event_queue w \<noteq> None)"

definition life_ok :: "wifi \<Rightarrow> bool" where
  "life_ok w \<longleftrightarrow> (esp_wifi_started w \<longrightarrow> lowLevelInitDone w) \<and> (lowLevelInitDone w \<longrightarrow> tcpip_initialized w) \<and> stack_ok w"

text \<open>Steps that leave the flags alone and never lose the group or the queue.\<close>

definition calm :: "wifi \<Rightarrow> wifi \<Rightarrow> bool" where
  "calm w w' \<longleftrightarrow> tcpip_initialized w' = tcpip_initialized w \<and> lowLevelInitDone w' = lowLevelInitDone w \<and>
     esp_wifi_started w' = esp_wifi_started w \<and> (event_group w \<noteq> None \<longrightarrow> event_group w' \<noteq> None) \<and>
     (event_queue w \<noteq> None \<longrightarrow> event_queue w' \<noteq> None)"

lemma calm_refl [simp, intro]: "calm w w"
  by (simp add: calm_def)

lemma calm_trans: "calm w w1 \<Longrightarrow> calm w1 w2 \<Longrightarrow> calm w w2"
  by (auto simp: calm_def)

lemma calm_life: "calm w w' \<Longrightarrow> life_ok w \<Longrightarrow> life_ok w'"
  by (auto simp: calm_def life_ok_def stack_ok_def)

lemma calm_drv [simp, intro]: "calm w (snd (drv d c w))"
  by (simp add: drv_def calm_def)

lemma calm_with_calls [simp, intro]: "calm w (snd (with_calls f w))"
  by (simp add: with_calls_def calm_def split: prod.split)

lemma calm_bits [simp, intro]: "calm w (setStatusBits b w)" "calm w (clearStatusBits b w)"
  by (simp_all add: setStatusBits_def clearStatusBits_def calm_def split: option.split)

lemma calm_fields [simp]:
  "calm w (w'\<lparr>event_task := b\<rparr>) = calm w w'"
  "calm w (w'\<lparr>netifs := z\<rparr>) = calm w w'"
  "calm w (w'\<lparr>default_hostname := h\<rparr>) = calm w w'"
  "calm w (w'\<lparr>useStaticIp := b\<rparr>) = calm w w'"
  "calm w (w'\<lparr>sleepEnabled := q\<rparr>) = calm w w'"
  "calm w (w'\<lparr>scanCount := n\<rparr>) = calm w w'"
  "calm w (w'\<lparr>scanCount := n, scanResult := rs\<rparr>) = calm w w'"
  "calm w (w'\<lparr>scanStarted := t\<rparr>) = calm w w'"
  "calm w (w'\<lparr>sta_status := s\<rparr>) = calm w w'"
  "calm w (w'\<lparr>sta_status_group := g\<rparr>) = calm w w'"
  "calm w (w'\<lparr>first_connect := b\<rparr>) = calm w w'"
  "calm w (w'\<lparr>smartConfigDone := b\<rparr>) = calm w w'"
  "calm w (w'\<lparr>event_group := Some g'\<rparr>) = calm w (w'\<lparr>event_group := Some 0\<rparr>)"
  "calm w w' \<Longrightarrow> calm w (w'\<lparr>event_group := Some 0\<rparr>)"
  "calm w w' \<Longrightarrow> calm w (w'\<lparr>event_queue := Some y\<rparr>)"
  by (auto simp: calm_def)

interpretation calm: structural calm calm
  by unfold_locales (rule calm_trans)

text \<open>The preservation of \<open>life_ok\<close>.\<close>

definition lives :: "wifi \<Rightarrow> wifi \<Rightarrow> bool" where
  "lives w w' \<longleftrightarrow> (life_ok w \<longrightarrow> life_ok w')"

interpretation lives: structural lives lives
  by unfold_locales (simp add: lives_def)

lemma lives_calm [simp, intro]: "calm w w' \<Longrightarrow> lives w w'"
  using calm_life by (auto simp: lives_def)

lemma calm_post [simp, intro]: "calm w (snd (postArduinoEvent d e w))"
  unfolding postArduinoEvent_def
  by (cases e) (auto simp: calm_def drv_def split: prod.split)

lemma calm_post_eq: "postArduinoEvent d e w = (r, w') \<Longrightarrow> calm w w'"
  using calm_post [of w d e] by simp

lemma calm_create [simp, intro]:
  "calm w (snd (create_event_group d w))" "calm w (snd (create_event_queue d w))"
  "calm w (snd (create_event_task d w))"
  unfolding create_event_group_def create_event_queue_def create_event_task_def
  by (auto simp: calm_def drv_def split: prod.split)

lemma calm_register [simp, intro]: "calm w (snd (register_handlers d bs w))"
  by (induction bs arbitrary: w) (auto intro!: calm.rules)

lemma calm_start_task [simp, intro]: "calm w (snd (start_network_event_task d w))"
  unfolding start_network_event_task_def by (auto intro!: calm.rules)

lemma calm_create_netif [simp, intro]: "calm w (create_netif d i h w)"
  unfolding create_netif_def by (auto intro!: calm.rules)

lemma calm_getMode [simp, intro]: "calm w (snd (getMode d w))"
  unfolding getMode_def by (auto intro!: calm.rules)

lemma calm_hostname [simp, intro]: "calm w (snd (get_esp_netif_hostname d w))"
  unfolding get_esp_netif_hostname_def by (intro calm.rules) simp_all

lemma calm_protocol [simp, intro]: "calm w (snd (set_protocol_lr d b i w))"
  unfolding set_protocol_lr_def by (auto intro!: calm.rules)

lemma calm_setStatus [simp, intro]: "calm w (setStatus d s w)"
  unfolding setStatus_def by (auto simp: calm_def drv_def split: option.split prod.split)

text \<open>A successful start of the event task has created the group and the queue.\<close>

lemma create_done:
  "create_event_group d w = (True, w') \<Longrightarrow> event_group w' \<noteq> None"
  "create_event_queue d w = (True, w') \<Longrightarrow> event_queue w' \<noteq> None"
  by (auto simp: create_event_group_def create_event_queue_def split: if_splits prod.splits)

lemma start_task_done:
  assumes "start_network_event_task d w = (True, w')"
  shows "event_group w' \<noteq> None \<and> event_queue w' \<noteq> None"
proof -
  obtain w1 where g: "create_event_group d w = (True, w1)"
    using assms by (auto simp: start_network_event_task_def split: prod.splits if_splits)
  obtain w2 where q: "create_event_queue d w1 = (True, w2)"
    using assms g by (auto simp: start_network_event_task_def split: prod.splits if_splits)
  have "calm w2 (snd (start_network_event_task d w))"
    using g q unfolding start_network_event_task_def by (auto intro!: calm.rules)
  moreover have "calm w1 w2" using calm_create(2) [of w1 d] q by simp
  ultimately show ?thesis
    using create_done(1) [OF g] create_done(2) [OF q] assms by (auto simp: calm_def)
qed

lemma start_task_spec:
  assumes "start_network_event_task d w = (b, w')"
  shows "calm w w' \<and> (b \<longrightarrow> event_group w' \<noteq> None \<and> event_queue w' \<noteq> None)"
  using calm_start_task [of w d] start_task_done [of d w w'] assms by (cases b) auto

lemma tcpipInit_spec:
  assumes "tcpipInit d w = (ok, w')" "stack_ok w"
  shows "stack_ok w' \<and> tcpip_initialized w' = ok \<and> lowLevelInitDone w' = lowLevelInitDone w \<and>
     esp_wifi_started w' = esp_wifi_started w"
  using assms
  by (auto simp: tcpipInit_def Let_def drv_def stack_ok_def calm_def split: if_splits prod.splits
      dest!: start_task_spec)

text \<open>Steps that may also change \<open>lowLevelInitDone\<close>.\<close>

definition boot :: "wifi \<Rightarrow> wifi \<Rightarrow> bool" where
  "boot w w' \<longleftrightarrow> calm (w\<lparr>lowLevelInitDone := False\<rparr>) (w'\<lparr>lowLevelInitDone := False\<rparr>)"

interpretation boot: structural boot boot
  by unfold_locales (auto simp: boot_def intro: calm_trans)

lemma boot_calm [simp, intro]: "calm w w' \<Longrightarrow> boot w w'"
  by (simp add: boot_def calm_def)

lemma boot_field [simp]:
  "boot w (w'\<lparr>lowLevelInitDone := b\<rparr>) = boot w w'" "boot (w\<lparr>lowLevelInitDone := b\<rparr>) w' = boot w w'"
  by (simp_all add: boot_def)

lemma boot_driver_init: "boot w (snd (wifi_driver_init d p w))"
  unfolding wifi_driver_init_def
  by (intro boot.rules boot_calm [OF calm_drv] boot_calm [OF calm_create_netif]) (auto intro!: boot.rules)

lemma driver_init_result:
  "wifi_driver_init d p w = (ok, w') \<Longrightarrow> lowLevelInitDone w' = ok"
  unfolding wifi_driver_init_def Let_def by (auto split: prod.splits if_splits)

lemma wifiLowLevelInit_spec:
  assumes "wifiLowLevelInit d p w = (ok, w')" "life_ok w"
  shows "life_ok w' \<and> lowLevelInitDone w' = ok \<and> esp_wifi_started w' = esp_wifi_started w"
proof (cases "lowLevelInitDone w")
  case True
  then show ?thesis using assms by (auto simp: wifiLowLevelInit_def)
next
  case False
  obtain b x where t: "tcpipInit d (w\<lparr>lowLevelInitDone := True\<rparr>) = (b, x)" by fastforce
  have x: "stack_ok x" "tcpip_initialized x = b" "\<not> esp_wifi_started x" "\<not> esp_wifi_started w"
    using tcpipInit_spec [OF t] assms(2) False by (auto simp: life_ok_def stack_ok_def)
  show ?thesis
  proof (cases b)
    case False
    then show ?thesis using assms x \<open>\<not> lowLevelInitDone w\<close> t
      by (auto simp: wifiLowLevelInit_def Let_def life_ok_def stack_ok_def)
  next
    case True
    then have "wifi_driver_init d p x = (ok, w')"
      using assms(1) False t by (simp add: wifiLowLevelInit_def)
    then show ?thesis
      using driver_init_result boot_driver_init [of x d p] x True
      by (auto simp: boot_def calm_def life_ok_def stack_ok_def)
  qed
qed

section \<open>Modes\<close>

lemma lives_low_level_init [simp, intro]: "lives w (snd (wifiLowLevelInit d p w))"
  using wifiLowLevelInit_spec [of d p w] by (cases "wifiLowLevelInit d p w") (auto simp: lives_def)

lemma lives_stop [simp, intro]:
  "lives w (snd (espWiFiStop d w))"
  by (auto simp: lives_def life_ok_def stack_ok_def espWiFiStop_def wifiLowLevelDeinit_def drv_def Let_def)

text \<open>Starting the driver keeps the invariant when the driver is initialised.\<close>

definition starts :: "wifi \<Rightarrow> wifi \<Rightarrow> bool" where
  "starts w w' \<longleftrightarrow> (life_ok w \<and> lowLevelInitDone w \<longrightarrow> life_ok w')"

interpretation starts: structural calm starts
  by unfold_locales (auto simp: starts_def calm_life, simp add: calm_def)

lemma starts_start [simp, intro]: "starts w (snd (espWiFiStart d w))"
  by (auto simp: starts_def life_ok_def stack_ok_def espWiFiStart_def drv_def Let_def)

lemma starts_calm [simp, intro]: "calm w w' \<Longrightarrow> starts w w'"
  by (auto simp: starts_def dest: calm_life)

lemma starts_apply_mode [simp, intro]: "starts w (snd (apply_mode d m w))"
  unfolding apply_mode_def
  by (intro starts.rules calm_drv starts_start calm.rules calm_hostname) simp_all

lemma getMode_running: "getMode d w = (m, w') \<Longrightarrow> m \<noteq> mode_null \<Longrightarrow> lowLevelInitDone w"
  by (auto simp: getMode_def split: if_splits)

lemma lives_set_mode [simp, intro]: "lives w (snd (set_mode d m w))"
proof -
  obtain cm v where g: "getMode d w = (cm, v)" by fastforce
  have c: "calm w v" using calm_getMode [of w d] g by simp
  obtain ok u where i: "wifiLowLevelInit d (persistent v) v = (ok, u)" by fastforce
  have "life_ok (snd (set_mode d m w))" if "life_ok w"
  proof -
    have v: "life_ok v" using calm_life c that by blast
    have u: "life_ok u" "lowLevelInitDone u = ok" using wifiLowLevelInit_spec [OF i v] by auto
    have "cm \<noteq> mode_null \<Longrightarrow> lowLevelInitDone v" using getMode_running [OF g] c by (simp add: calm_def)
    then show ?thesis
      using g i u v starts_apply_mode [of u d m] starts_apply_mode [of v d m] lives_stop [of v d]
      by (auto simp: set_mode_def starts_def lives_def)
  qed
  then show ?thesis by (simp add: lives_def)
qed

lemma lives_enable [simp, intro]:
  "lives w (snd (enableSTA d b w))" "lives w (snd (enableAP d b w))"
  unfolding enableSTA_def enableAP_def
  by (intro lives.rules lives_calm [OF calm_getMode] lives_set_mode lives_calm [OF calm_refl])+

section \<open>The station and the scan\<close>

lemma lives_refl [simp, intro]: "lives w w"
  by (simp add: lives_def)

lemma lives_drv [simp, intro]: "lives w (snd (drv d c w))"
  by (simp add: lives_calm)

lemma lives_with_calls [simp, intro]: "lives w (snd (with_calls f w))"
  by (simp add: lives_calm)

lemmas lives_rules = lives.rules lives_refl lives_drv lives_with_calls lives_enable lives_calm [OF calm_getMode]

lemma lives_connect [simp, intro]:
  "lives w (snd (connect_now d w))" "lives w (snd (dhcp_address d w))"
  unfolding connect_now_def dhcp_address_def by (intro lives_rules)+

lemma lives_begin [simp, intro]:
  "lives w (snd (connect_step d c w))" "lives w (snd (begin_address d c w))"
  unfolding begin_address_def connect_step_def by (intro lives_rules lives_connect)+

lemma lives_begin_config [simp, intro]: "lives w (snd (begin_config d conf c w))"
  unfolding begin_config_def by (intro lives_rules lives_begin)

lemma lives_begin_ssid [simp, intro]: "lives w (snd (begin_ssid d ssid pass ch bssid c w))"
  unfolding begin_ssid_def by (intro lives_rules lives_begin_config)

lemma lives_begin_current [simp, intro]: "lives w (snd (begin_current d w))"
  unfolding begin_current_def by (intro lives_rules lives_connect)

lemma lives_disconnect [simp, intro]: "lives w (snd (disconnect d off erase w))"
  unfolding disconnect_def by (intro lives_rules)

lemma lives_static [simp, intro]: "lives w (snd (sta_config_static d ip gw sn a b w))"
  unfolding sta_config_static_def
  by (intro lives_rules lives_calm) (simp_all add: calm_def)

lemma lives_reconnect [simp, intro]: "lives w (snd (reconnect d w))" "lives w (snd (eraseAP d w))"
  unfolding reconnect_def eraseAP_def by (intro lives_rules)+

lemma calm_wait [simp, intro]: "calm w (snd (waitStatusBits id b w))"
  by (simp add: waitStatusBits_def split: option.split)

lemma calm_scan_fields [simp]:
  "calm w (w'\<lparr>scanTimeout := t\<rparr>) = calm w w'" "calm w (w'\<lparr>scanAsync := b\<rparr>) = calm w w'"
  by (simp_all add: calm_def)

lemma calm_scan [simp, intro]: "calm w (scanDelete w)" "calm w (snd (scanComplete t w))"
  unfolding scanDelete_def scanComplete_def by (auto intro!: calm.rules)

lemma calm_scanDone [simp, intro]: "calm w (scanDone d w)"
  unfolding scanDone_def by (intro calm.rules calm_drv calm_bits) simp_all

lemma lives_scan [simp, intro]: "lives w (snd (scanNetworks d id t a ms w))"
  unfolding scanNetworks_def
  by (intro lives_rules lives_calm [OF calm_scan(1)] lives_calm [OF calm_bits(1)] lives_calm [OF calm_bits(2)]
      lives_calm [OF calm_wait]) (simp_all add: lives_calm)

lemma lives_power [simp, intro]: "lives w (snd (setSleep d ps w))" "lives w (snd (setTxPower d p w))"
  unfolding setSleep_def setTxPower_def by (intro lives_rules; simp add: lives_calm)+

lemma calm_listen [simp, intro]:
  "calm w (snd (onEvent_cb f ev w))" "calm w (snd (onEvent_fcb f ev w))" "calm w (snd (onEvent_scb f ev w))"
  "calm w (removeEvent_cb f ev w)" "calm w (removeEvent_scb f ev w)" "calm w (removeEvent_id i w)"
  by (simp_all add: onEvent_cb_def onEvent_fcb_def onEvent_scb_def push_listener_def removeEvent_cb_def
      removeEvent_scb_def removeEvent_id_def calm_def)

section \<open>Events\<close>

lemma calm_disconnected_status [simp, intro]: "calm w (disconnected_status d r w)"
  by (simp add: disconnected_status_def)

lemma calm_reconnect_decision [simp, intro]: "calm w (snd (reconnect_decision d r w))"
  by (simp add: reconnect_decision_def)

lemma lives_sta_disconnected [simp, intro]: "lives w (sta_disconnected d r w)"
  unfolding sta_disconnected_def
  by (intro lives.rules lives.R_S [OF lives_disconnect lives_begin_current]
      lives_refl lives_calm [OF calm_disconnected_status] lives_calm [OF calm_bits(2)]
      lives_calm [OF calm_reconnect_decision])

lemma calm_after [simp]:
  assumes "calm w v"
  shows "calm w (setStatusBits b v)" "calm w (clearStatusBits b v)" "calm w (setStatus d s v)"
    "calm w (snd (drv d c v))"
  using calm_trans [OF assms] by blast+

lemma lives_client_left [simp]: "lives w (ap_client_left d w)"
  unfolding ap_client_left_def by (intro lives_calm calm.rules calm_drv calm_bits calm_refl)

lemma lives_smartconfig [simp]:
  "lives w (smartconfig_credentials d i w)" "lives w ((snd (drv d Smartconfig_stop w))\<lparr>smartConfigDone := True\<rparr>)"
  by (simp_all add: smartconfig_credentials_def lives_calm split: event_info.split)

lemma lives_handle_event [simp, intro]: "lives w (handle_event d e w)"
  unfolding handle_event_def Let_def
  by (cases "event_id e") (simp_all add: lives_calm)

lemma lives_event_cb [simp, intro]: "lives w (arduino_event_cb d e w)"
  unfolding arduino_event_cb_def Let_def
  by (auto intro!: lives_calm intro: calm_trans [OF calm_drv])

lemma lives_tcpip [simp, intro]: "lives w (snd (tcpipInit d w))"
proof (cases "tcpip_initialized w")
  case True
  then show ?thesis by (simp add: tcpipInit_def)
next
  case False
  obtain ok w' where "tcpipInit d w = (ok, w')" by fastforce
  then show ?thesis using tcpipInit_spec [of d w ok w'] False by (auto simp: lives_def life_ok_def)
qed

lemma step_lives: "wifi_step d w w' \<Longrightarrow> lives w w'"
proof (induction rule: wifi_step.induct)
  case (Task_event w e q)
  have "lives w (w\<lparr>event_queue := Some q\<rparr>)" by (rule lives_calm) (simp add: calm_def)
  then show ?case using lives.R_S lives_handle_event by blast
qed (auto simp: lives_calm calm_def set_esp_netif_hostname_def split: option.split)

lemma reachable_life: "wifi_reachable d w \<Longrightarrow> life_ok w"
  by (induction rule: wifi_reachable.induct)
    (auto simp: life_ok_def stack_ok_def wifi_reset_def dest!: step_lives [unfolded lives_def life_ok_def stack_ok_def])

end
