(* ===== verification/WiFi_Status.thy ===== *)
theory WiFi_Status
  imports WiFi_Machine
begin

text \<open>
  Invariants of the reachable states beyond the order of initialisation: the status bits are consistent, and the
  listeners are registered under distinct numbers. Both follow the same pattern: what the life-cycle operations
  keep (\<open>keeps\<close>) preserves them, and each event handler does.
\<close>

section \<open>Status bits\<close>

definition has :: "status_bit \<Rightarrow> wifi \<Rightarrow> bool" where
  "has b w \<longleftrightarrow> bit (getStatusBits w) (bit_pos b)"

lemma bit_pos_inj [simp]: "bit_pos a = bit_pos b \<longleftrightarrow> a = b"
  by (cases a; cases b) simp_all

lemma bit_pos_less [simp]: "bit_pos a < 32"
  by (cases a) simp_all

lemma bit_fold_bits:
  "bit (fold (\<lambda>b w. w OR push_bit (bit_pos b) 1) bs w0 :: u32) (bit_pos c) \<longleftrightarrow> bit w0 (bit_pos c) \<or> c \<in> set bs"
proof (induction bs arbitrary: w0)
  case (Cons b bs)
  have "bit (push_bit (bit_pos b) 1 :: u32) (bit_pos c) \<longleftrightarrow> c = b"
    by (auto simp: bit_exp_iff possible_bit_word)
  then show ?case unfolding fold_Cons o_def Cons bit_or_iff by auto
qed simp

lemma bit_bits [simp]: "bit (bits bs) (bit_pos c) \<longleftrightarrow> c \<in> set bs"
  unfolding bits_def bit_fold_bits by simp

lemma has_set [simp]: "has c (setStatusBits (bits bs) w) \<longleftrightarrow> has c w \<or> event_group w \<noteq> None \<and> c \<in> set bs"
  by (auto simp: has_def setStatusBits_def getStatusBits_def bit_or_iff split: option.split)

lemma has_clear [simp]: "has c (clearStatusBits (bits bs) w) \<longleftrightarrow> has c w \<and> c \<notin> set bs"
  by (auto simp: has_def clearStatusBits_def getStatusBits_def bit_and_iff bit_not_iff split: option.split)

lemma group_bits [simp]:
  "event_group (setStatusBits b w) = None \<longleftrightarrow> event_group w = None"
  "event_group (clearStatusBits b w) = None \<longleftrightarrow> event_group w = None"
  by (simp_all add: setStatusBits_def clearStatusBits_def split: option.split)

definition bits_ok :: "wifi \<Rightarrow> bool" where
  "bits_ok w \<longleftrightarrow>
     (has STA_HAS_IP w \<or> has STA_HAS_IP6 w \<longrightarrow> has STA_CONNECTED w) \<and>
     (has ETH_HAS_IP w \<or> has ETH_HAS_IP6 w \<longrightarrow> has ETH_CONNECTED w) \<and>
     \<not> (has WIFI_SCANNING w \<and> has WIFI_SCAN_DONE w)"

definition bits_kept :: "wifi \<Rightarrow> wifi \<Rightarrow> bool" where
  "bits_kept w w' \<longleftrightarrow> (bits_ok w \<longrightarrow> bits_ok w')"

interpretation bits_kept: structural bits_kept bits_kept
  by unfold_locales (simp add: bits_kept_def)

lemma bits_refl [simp, intro]: "bits_kept w w"
  by (simp add: bits_kept_def)

lemma bits_same: "event_group w' = event_group w \<Longrightarrow> bits_kept w w'"
  by (simp add: bits_kept_def bits_ok_def has_def getStatusBits_def)

lemma bits_keeps [intro]:
  assumes "keeps n w w'"
  shows "bits_kept w w'"
proof (cases "event_group w' = event_group w")
  case True
  then show ?thesis by (rule bits_same)
next
  case False
  then have "event_group w' = Some (bits [WIFI_DNS_IDLE])" using assms by (auto simp: keeps_def)
  then have "has c w' \<longleftrightarrow> c = WIFI_DNS_IDLE" for c by (simp add: has_def getStatusBits_def)
  then show ?thesis by (simp add: bits_kept_def bits_ok_def)
qed

lemma group_setStatus [simp]: "event_group (setStatus d s w) = event_group w"
  by (simp add: setStatus_def drv_def split: option.split prod.split)

lemma has_setStatus [simp]: "has c (setStatus d s w) = has c w"
  by (simp add: has_def getStatusBits_def)

lemma has_drv [simp]: "has c (snd (drv d x w)) = has c w"
  by (simp add: has_def getStatusBits_def)

lemma bits_drv [simp, intro]: "bits_kept w (snd (drv d c w))"
  by (simp add: bits_same)

lemma has_fields [simp]:
  "has c (w\<lparr>scanCount := n\<rparr>) = has c w" "has c (w\<lparr>scanResult := rs\<rparr>) = has c w" "has c (w\<lparr>scanStarted := x\<rparr>) = has c w"
  "has c (w\<lparr>scanTimeout := x\<rparr>) = has c w" "has c (w\<lparr>scanAsync := b\<rparr>) = has c w"
  "has c (w\<lparr>smartConfigDone := b\<rparr>) = has c w"
  by (simp_all add: has_def getStatusBits_def)

lemma bits_scan [simp, intro]: "bits_kept w (scanDelete w)" "bits_kept w (snd (scanComplete t w))"
  by (auto simp: bits_kept_def bits_ok_def scanDelete_def scanComplete_def)

lemma bits_fields [simp]:
  "bits_kept w (w'\<lparr>scanCount := n\<rparr>) = bits_kept w w'" "bits_kept w (w'\<lparr>scanResult := rs\<rparr>) = bits_kept w w'" "bits_kept w (w'\<lparr>scanStarted := x\<rparr>) = bits_kept w w'"
  "bits_kept w (w'\<lparr>scanTimeout := x\<rparr>) = bits_kept w w'" "bits_kept w (w'\<lparr>scanAsync := b\<rparr>) = bits_kept w w'"
  by (simp_all add: bits_kept_def bits_ok_def)

text \<open>The two bits of a scan change together.\<close>

lemma bits_scan_done [simp]:
  "bits_kept w (clearStatusBits (bits [WIFI_SCANNING]) (setStatusBits (bits [WIFI_SCAN_DONE]) w))"
  by (simp add: bits_kept_def bits_ok_def)

lemma bits_scanning [simp]:
  "bits_kept w (setStatusBits (bits [WIFI_SCANNING]) (clearStatusBits (bits [WIFI_SCAN_DONE]) w))"
  by (simp add: bits_kept_def bits_ok_def)

lemma bits_scanDone [simp, intro]: "bits_kept w (scanDone d w)"
  unfolding scanDone_def
  apply (rule bits_kept.let_pair_state, simp)
  apply (rule bits_kept.let_states, simp)
  apply (rule bits_kept.let_states, intro bits_kept.rules bits_drv, simp_all)
  apply (simp add: bits_kept_def bits_ok_def)
  done

lemma wait_id [simp]: "snd (waitStatusBits id b w) = w"
  by (simp add: waitStatusBits_def split: option.split)

lemma bits_scan_started:
  "bits_kept w (snd (if b then (r, v) else case waitStatusBits id x v of (y, u) \<Rightarrow> if y \<noteq> 0 then (s u, u) else (t, u)))
     = bits_kept w v"
  using wait_id [of x v] by (cases "waitStatusBits id x v") simp

lemma bits_scanNetworks [simp, intro]: "bits_kept w (snd (scanNetworks d id t a ms w))"
  unfolding scanNetworks_def
  apply (rule bits_kept.cond, simp)
  apply (rule bits_kept.let_state, simp)
  apply (rule bits_kept.let_state, rule bits_keeps, rule keeps_enable)
  apply (rule bits_kept.let_state, simp)
  apply (rule bits_kept.let_pair, simp)
  apply (rule bits_kept.cond, simp)
  apply (simp only: Let_def bits_scan_started)
  apply (simp add: bits_kept_def bits_ok_def)
  done

lemma bits_disconnected [simp, intro]: "bits_kept w (disconnected_status d r w)"
  by (rule bits_same) (simp add: disconnected_status_def)

lemma bits_decision [simp, intro]: "bits_kept w (snd (reconnect_decision d r w))"
  by (rule bits_same) (simp add: reconnect_decision_def)

lemma bits_sta_clear [simp, intro]:
  "bits_kept w (clearStatusBits (bits [STA_CONNECTED, STA_HAS_IP, STA_HAS_IP6]) w)"
  by (auto simp: bits_kept_def bits_ok_def)

lemma bits_sta_disconnected [simp, intro]: "bits_kept w (sta_disconnected d r w)"
  unfolding sta_disconnected_def
  by (intro bits_kept.rules bits_disconnected bits_sta_clear bits_decision bits_refl
      bits_kept.R_S [OF bits_keeps [OF keeps_disconnect] bits_keeps [OF keeps_begin_current]])

lemma bits_client_left [simp, intro]: "bits_kept w (ap_client_left d w)"
  unfolding ap_client_left_def
  by (intro bits_kept.rules bits_drv) (auto simp: bits_kept_def bits_ok_def)

lemma bits_smartconfig [simp, intro]: "bits_kept w (smartconfig_credentials d i w)"
  by (auto simp: smartconfig_credentials_def split: event_info.split)

lemma bits_handle_event [simp, intro]: "bits_kept w (handle_event d e w)"
  unfolding handle_event_def Let_def
  by (cases "event_id e") (simp_all add: bits_kept_def [of w "setStatusBits b v" for b v]
      bits_kept_def [of w "clearStatusBits b v" for b v] bits_kept_def [of w "snd (drv d x v)" for x v]
      bits_kept_def [of w "v\<lparr>smartConfigDone := True\<rparr>" for v] bits_ok_def)

lemma bits_event_cb [simp, intro]: "bits_kept w (arduino_event_cb d e w)"
proof -
  have "keeps 0 w (arduino_event_cb d e w)"
    unfolding arduino_event_cb_def by (auto simp: Let_def intro: keeps_trans0 [OF keeps_drv0])
  then show ?thesis by (rule bits_keeps)
qed

lemma bits_listen [simp, intro]:
  "bits_kept w (snd (onEvent_cb f ev w))" "bits_kept w (snd (onEvent_fcb f ev w))"
  "bits_kept w (snd (onEvent_scb f ev w))" "bits_kept w (removeEvent_cb f ev w)"
  "bits_kept w (removeEvent_scb f ev w)" "bits_kept w (removeEvent_id i w)"
  by (simp_all add: onEvent_cb_def onEvent_fcb_def onEvent_scb_def push_listener_def removeEvent_cb_def
      removeEvent_scb_def removeEvent_id_def bits_same)

lemma step_bits: "wifi_step d w w' \<Longrightarrow> bits_kept w w'"
proof (induction rule: wifi_step.induct)
  case (Task_event w e q)
  have "bits_kept w (w\<lparr>event_queue := Some q\<rparr>)" by (rule bits_same) simp
  then show ?case using bits_kept.R_S bits_handle_event by blast
qed (auto simp: bits_same set_esp_netif_hostname_def split: option.split)

lemma reachable_bits: "wifi_reachable d w \<Longrightarrow> bits_ok w"
  by (induction rule: wifi_reachable.induct)
    (auto simp: bits_ok_def has_def getStatusBits_def wifi_reset_def
      dest!: step_bits [unfolded bits_kept_def])

section \<open>The registry of listeners\<close>

text \<open>Operations that leave the registry alone.\<close>

definition registry_same :: "wifi \<Rightarrow> wifi \<Rightarrow> bool" where
  "registry_same w w' \<longleftrightarrow> cbEventList w' = cbEventList w \<and> current_id w' = current_id w"

interpretation registry_same: structural registry_same registry_same
  by unfold_locales (simp add: registry_same_def)

lemma registry_keeps [intro]: "keeps n w w' \<Longrightarrow> registry_same w w'"
  by (simp add: keeps_def view_def registry_same_def)

lemma registry_refl [simp, intro]: "registry_same w w"
  by (simp add: registry_same_def)

lemma registry_bits [simp, intro]:
  "registry_same w (setStatusBits b w)" "registry_same w (clearStatusBits b w)" "registry_same w (setStatus d s w)"
  "registry_same w (snd (drv d c w))"
  by (simp_all add: registry_same_def setStatusBits_def clearStatusBits_def setStatus_def drv_def
      split: option.split prod.split)

lemma registry_after [simp]:
  assumes "registry_same w v"
  shows "registry_same w (setStatusBits b v)" "registry_same w (clearStatusBits b v)"
    "registry_same w (setStatus d s v)" "registry_same w (snd (drv d c v))"
  using registry_same.R_S [OF assms] by blast+

lemma registry_fields [simp]:
  "registry_same w (w'\<lparr>scanCount := n\<rparr>) = registry_same w w'"
  "registry_same w (w'\<lparr>scanResult := rs\<rparr>) = registry_same w w'"
  "registry_same w (w'\<lparr>scanStarted := x\<rparr>) = registry_same w w'"
  "registry_same w (w'\<lparr>scanTimeout := x\<rparr>) = registry_same w w'"
  "registry_same w (w'\<lparr>scanAsync := b\<rparr>) = registry_same w w'"
  "registry_same w (w'\<lparr>smartConfigDone := b\<rparr>) = registry_same w w'"
  "registry_same w (w'\<lparr>first_connect := b\<rparr>) = registry_same w w'"
  "registry_same w (w'\<lparr>event_queue := q\<rparr>) = registry_same w w'"
  by (simp_all add: registry_same_def)

lemma registry_scanDone [simp, intro]: "registry_same w (scanDone d w)"
  unfolding scanDone_def by (intro registry_same.rules registry_bits) simp_all

lemma registry_sta_disconnected [simp, intro]: "registry_same w (sta_disconnected d r w)"
  unfolding sta_disconnected_def
  by (intro registry_same.rules registry_bits registry_refl
      registry_same.R_S [OF registry_keeps [OF keeps_disconnect] registry_keeps [OF keeps_begin_current]])
    (simp_all add: disconnected_status_def reconnect_decision_def)

lemma registry_handle_event [simp, intro]: "registry_same w (handle_event d e w)"
proof -
  have "registry_same w (ap_client_left d w)"
    unfolding ap_client_left_def by (intro registry_same.rules registry_bits registry_refl)
  moreover have "registry_same w (smartconfig_credentials d i w)" for i
    by (auto simp: smartconfig_credentials_def split: event_info.split)
  ultimately show ?thesis
    unfolding handle_event_def Let_def by (cases "event_id e") simp_all
qed

text \<open>Listeners have distinct numbers, all given out before, and exactly one callback.\<close>

definition registry_ok :: "wifi \<Rightarrow> bool" where
  "registry_ok w \<longleftrightarrow> distinct (map listener_id (cbEventList w)) \<and>
     (\<forall>l \<in> set (cbEventList w). 1 \<le> listener_id l \<and> listener_id l < current_id w) \<and> 1 \<le> current_id w"

lemma registry_same_ok: "registry_same w w' \<Longrightarrow> registry_ok w \<Longrightarrow> registry_ok w'"
  by (simp add: registry_same_def registry_ok_def)

text \<open>What the loop of \<open>removeEvent\<close> computes: an element that follows an erased one is skipped.\<close>

fun erase_skipping :: "('a \<Rightarrow> bool) \<Rightarrow> 'a list \<Rightarrow> 'a list" where
  "erase_skipping P [] = []"
| "erase_skipping P [x] = (if P x then [] else [x])"
| "erase_skipping P (x # y # xs) =
     (if P x then y # erase_skipping P xs else x # erase_skipping P (y # xs))"

lemma erase_matching_end: "length xs \<le> i \<Longrightarrow> erase_matching P i xs = xs"
  by (subst erase_matching.simps) simp

lemma erase_matching_skipping:
  "i \<le> length xs \<Longrightarrow> erase_matching P i xs = take i xs @ erase_skipping P (drop i xs)"
proof (induction "length xs - i" arbitrary: i xs rule: less_induct)
  case less
  show ?case
  proof (cases "i < length xs")
    case False
    then show ?thesis using less.prems by (simp add: erase_matching_end)
  next
    case True
    note d = Cons_nth_drop_Suc [OF True, symmetric]
    let ?ys = "take i xs @ drop (Suc i) xs"
    show ?thesis
    proof (cases "P (xs ! i)")
      case False
      then have "erase_matching P i xs = erase_matching P (Suc i) xs"
        using True by (subst erase_matching.simps) simp
      also have "\<dots> = take (Suc i) xs @ erase_skipping P (drop (Suc i) xs)"
        using True by (intro less.hyps) auto
      also have "\<dots> = take i xs @ erase_skipping P (drop i xs)"
        using False True id_take_nth_drop [OF True]
        by (cases "drop (Suc i) xs") (simp_all add: d take_Suc_conv_app_nth)
      finally show ?thesis .
    next
      case P: True
      then have eq: "erase_matching P i xs = erase_matching P (Suc i) ?ys"
        using True by (subst erase_matching.simps) simp
      show ?thesis
      proof (cases "Suc i < length xs")
        case False
        then show ?thesis using P True by (simp add: eq erase_matching_end d)
      next
        case T: True
        have "erase_matching P (Suc i) ?ys = take (Suc i) ?ys @ erase_skipping P (drop (Suc i) ?ys)"
          using T by (intro less.hyps) auto
        then show ?thesis
          using P T True by (simp add: eq d Cons_nth_drop_Suc [OF T, symmetric])
      qed
    qed
  qed
qed

lemma erase_matching_start: "erase_matching P 0 xs = erase_skipping P xs"
  using erase_matching_skipping [of 0 xs P] by simp

lemma erase_distinct:
  "distinct (map f xs) \<Longrightarrow> erase_skipping (\<lambda>x. f x = i) xs = filter (\<lambda>x. f x \<noteq> i) xs"
  by (induction "\<lambda>x. f x = i" xs rule: erase_skipping.induct)
    (auto simp: filter_id_conv)

lemma set_erase: "set (erase_skipping P xs) \<subseteq> set xs"
  by (induction P xs rule: erase_skipping.induct) auto

lemma distinct_erase: "distinct (map f xs) \<Longrightarrow> distinct (map f (erase_skipping P xs))"
  by (induction P xs rule: erase_skipping.induct) (use set_erase in fastforce)+

lemma registry_erase:
  "registry_ok w \<Longrightarrow> registry_ok (w\<lparr>cbEventList := erase_matching P 0 (cbEventList w)\<rparr>)"
  using set_erase [of P "cbEventList w"]
  by (auto simp: registry_ok_def erase_matching_start distinct_erase)

lemma registry_push:
  "registry_ok w \<Longrightarrow> listener_id l = current_id w \<Longrightarrow> registry_ok (snd (push_listener l w))"
  by (auto simp: registry_ok_def push_listener_def)

lemma registry_listen:
  assumes "registry_ok w"
  shows "registry_ok (snd (onEvent_cb f ev w))" "registry_ok (snd (onEvent_fcb f ev w))"
    "registry_ok (snd (onEvent_scb f ev w))" "registry_ok (removeEvent_cb f ev w)"
    "registry_ok (removeEvent_scb f ev w)" "registry_ok (removeEvent_id i w)"
  using assms registry_erase [OF assms]
  by (simp_all add: onEvent_cb_def onEvent_fcb_def onEvent_scb_def removeEvent_cb_def
      removeEvent_scb_def removeEvent_id_def registry_push new_listener_def)

lemma registry_scan [simp, intro]: "registry_same w (scanDelete w)" "registry_same w (snd (scanComplete t w))"
  by (simp_all add: scanDelete_def scanComplete_def)

lemma registry_scanNetworks [simp, intro]: "registry_same w (snd (scanNetworks d id t a ms w))"
  unfolding scanNetworks_def
  by (intro registry_same.rules registry_bits registry_scan registry_keeps [OF keeps_enable(1)]) simp_all

lemma registry_event_cb [simp, intro]: "registry_same w (arduino_event_cb d e w)"
  unfolding arduino_event_cb_def Let_def
  by (auto intro: registry_same.R_S [OF registry_bits(4)])

lemma registry_ok_fields [simp]:
  "registry_ok (w\<lparr>persistent := b\<rparr>) = registry_ok w" "registry_ok (w\<lparr>long_range := b\<rparr>) = registry_ok w"
  "registry_ok (w\<lparr>autoReconnect := b\<rparr>) = registry_ok w" "registry_ok (w\<lparr>default_hostname := s\<rparr>) = registry_ok w"
  by (simp_all add: registry_ok_def)

lemma step_registry: "wifi_step d w w' \<Longrightarrow> registry_ok w \<Longrightarrow> registry_ok w'"
proof (induction rule: wifi_step.induct)
  case (Task_event w e q)
  have "registry_same w (handle_event d e (w\<lparr>event_queue := Some q\<rparr>))"
    by (rule registry_same.R_S [OF _ registry_handle_event]) simp
  then show ?case using registry_same_ok Task_event by blast
qed (auto simp: registry_listen set_esp_netif_hostname_def split: option.split
    intro: registry_same_ok [OF registry_keeps] registry_same_ok [OF registry_event_cb]
      registry_same_ok [OF registry_scan(1)] registry_same_ok [OF registry_scan(2)]
      registry_same_ok [OF registry_scanNetworks])

lemma reachable_registry: "wifi_reachable d w \<Longrightarrow> registry_ok w"
proof (induction rule: wifi_reachable.induct)
  case Reset
  then show ?case by (simp add: registry_ok_def wifi_reset_def)
qed (rule step_registry)

end
