(* ===== verification/WiFi_Reconnect.thy ===== *)
theory WiFi_Reconnect
  imports WiFi_Status
begin

text \<open>
  Two behaviours of the event callback: how often it reconnects, and whom it calls. A reconnection is counted by
  the connection attempts made; a callback run ends, and reaches the listeners in the order of their
  registration, as long as no listener changes the registry.
\<close>

section \<open>Reconnection\<close>

definition reason_used :: "arduino_event \<Rightarrow> wifi_reason" where
  "reason_used e = (if reason_of (event_info e) = Reason_0 then WIFI_REASON_UNSPECIFIED else reason_of (event_info e))"

definition reconnectable :: "arduino_event \<Rightarrow> bool" where
  "reconnectable e \<longleftrightarrow> event_id e = ARDUINO_EVENT_WIFI_STA_DISCONNECTED \<and> isReconnectableReason (reason_used e)"

definition switches :: "wifi \<Rightarrow> nat \<times> bool \<times> bool" where
  "switches w = (attempts w, first_connect w, autoReconnect w)"

lemma switches_set [simp]:
  "switches (setStatusBits b w) = switches w" "switches (clearStatusBits b w) = switches w"
  "switches (setStatus d s w) = switches w"
  by (simp_all add: switches_def attempts_def setStatusBits_def clearStatusBits_def setStatus_def drv_def
      split: option.split prod.split)

lemma switches_drv [simp]: "c \<noteq> Wifi_connect \<Longrightarrow> switches (snd (drv d c w)) = switches w"
  by (simp add: switches_def attempts_def drv_def)

lemma switches_fields [simp]:
  "switches (w\<lparr>scanCount := n\<rparr>) = switches w" "switches (w\<lparr>scanResult := rs\<rparr>) = switches w" "switches (w\<lparr>scanStarted := x\<rparr>) = switches w"
  "switches (w\<lparr>smartConfigDone := b\<rparr>) = switches w"
  by (simp_all add: switches_def attempts_def)

lemma switches_scanDone [simp]: "switches (scanDone d w) = switches w"
proof -
  have s: "switches v = switches w \<Longrightarrow> switches (case drv d c v of (e, u) \<Rightarrow> u\<lparr>scanCount := f e u, scanResult := g e u\<rparr>) = switches w"
    if "c \<noteq> Wifi_connect" for c v f g
    using switches_drv [OF that, of d v] by (cases "drv d c v") simp
  show ?thesis
    using switches_drv [of Wifi_scan_get_ap_num d w]
    by (cases "drv d Wifi_scan_get_ap_num w") (simp add: scanDone_def Let_def s)
qed

lemma switches_status [simp]: "switches (disconnected_status d r w) = switches w"
  by (simp add: disconnected_status_def)

lemma sta_disconnected_switches:
  assumes "reason = (if r = Reason_0 then WIFI_REASON_UNSPECIFIED else r)"
  shows "attempts (sta_disconnected d r w) \<le> attempts w +
      (if reason \<noteq> WIFI_REASON_ASSOC_LEAVE \<and> (first_connect w \<or> autoReconnect w \<and> isReconnectableReason reason) then 1 else 0) \<and>
    attempts w \<le> attempts (sta_disconnected d r w) \<and>
    first_connect (sta_disconnected d r w) = (first_connect w \<and> reason = WIFI_REASON_ASSOC_LEAVE) \<and>
    autoReconnect (sta_disconnected d r w) = autoReconnect w"
proof -
  define v where "v = clearStatusBits (bits [STA_CONNECTED, STA_HAS_IP, STA_HAS_IP6]) (disconnected_status d reason w)"
  have v: "switches v = switches w" by (simp add: v_def)
  have k: "keeps 1 u (snd (begin_current d (snd (disconnect d False False u))))" for u
    by (rule keeps_trans0 [OF keeps_disconnect keeps_begin_current])
  have eq: "sta_disconnected d r w = (case reconnect_decision d reason v of (b, u) \<Rightarrow>
      if b then snd (begin_current d (snd (disconnect d False False u))) else u)"
    unfolding sta_disconnected_def v_def assms Let_def ..
  show ?thesis
    using v k [of "v\<lparr>first_connect := False\<rparr>"] k [of v] switches_set(3) [of d WL_CONNECT_FAILED v]
    unfolding eq reconnect_decision_def keeps_def view_def switches_def attempts_def
    by auto
qed

text \<open>One event other than the smart configuration credentials.\<close>

lemma event_switches:
  assumes "event_id e \<noteq> ARDUINO_EVENT_SC_GOT_SSID_PSWD"
  shows "attempts (handle_event d e w) \<le> attempts w +
      (if event_id e = ARDUINO_EVENT_WIFI_STA_DISCONNECTED \<and> reason_used e \<noteq> WIFI_REASON_ASSOC_LEAVE \<and>
        (first_connect w \<or> autoReconnect w \<and> reconnectable e) then 1 else 0) \<and>
    attempts w \<le> attempts (handle_event d e w) \<and>
    (first_connect (handle_event d e w) \<longrightarrow> first_connect w) \<and>
    (event_id e = ARDUINO_EVENT_WIFI_STA_DISCONNECTED \<and> reason_used e \<noteq> WIFI_REASON_ASSOC_LEAVE \<longrightarrow>
      \<not> first_connect (handle_event d e w)) \<and>
    autoReconnect (handle_event d e w) = autoReconnect w"
proof (cases "event_id e = ARDUINO_EVENT_WIFI_STA_DISCONNECTED")
  case True
  then have "handle_event d e w = sta_disconnected d (reason_of (event_info e)) w"
    by (simp add: handle_event_def)
  then show ?thesis
    using sta_disconnected_switches [of "reason_used e" "reason_of (event_info e)" d w] True
    by (auto simp: reason_used_def reconnectable_def)
next
  case False
  have "switches (ap_client_left d w) = switches w"
    using switches_drv [of Wifi_ap_get_sta_list d w]
    by (cases "drv d Wifi_ap_get_sta_list w") (simp add: ap_client_left_def)
  then have "switches (handle_event d e w) = switches w"
    using assms False unfolding handle_event_def Let_def by (cases "event_id e") simp_all
  then show ?thesis using False by (simp add: switches_def)
qed

lemma events_attempts:
  assumes "\<forall>e \<in> set es. event_id e \<noteq> ARDUINO_EVENT_SC_GOT_SSID_PSWD"
  shows "attempts (fold (handle_event d) es w) \<le> attempts w + (if first_connect w then 1 else 0) +
      (if autoReconnect w then length (filter reconnectable es) else 0)"
  using assms
proof (induction es arbitrary: w)
  case (Cons e es)
  let ?v = "handle_event d e w"
  have "attempts (fold (handle_event d) es ?v) \<le> attempts ?v + (if first_connect ?v then 1 else 0) +
      (if autoReconnect ?v then length (filter reconnectable es) else 0)"
    using Cons by simp
  moreover have "event_id e \<noteq> ARDUINO_EVENT_SC_GOT_SSID_PSWD" using Cons.prems by simp
  ultimately show ?case
    using event_switches [of e d w] by (auto split: if_splits)
qed simp

section \<open>Dispatch\<close>

lemma dispatch_fold:
  assumes quiet: "\<And>c e w. cbEventList (run c e w) = cbEventList w"
  shows "dispatch_from run e i w = Some (fold (call_listener run e) (drop i (cbEventList w)) w)"
proof (induction "length (cbEventList w) - i" arbitrary: i w)
  case 0
  then show ?case by (subst dispatch_from.simps) simp
next
  case (Suc n)
  let ?w = "call_listener run e (cbEventList w ! i) w"
  have same: "cbEventList ?w = cbEventList w"
    by (simp add: call_listener_def quiet split: option.split)
  have i: "i < length (cbEventList w)" using Suc(2) by simp
  have "dispatch_from run e i w = dispatch_from run e (Suc i) ?w"
    using i by (subst dispatch_from.simps) simp
  also have "\<dots> = Some (fold (call_listener run e) (drop (Suc i) (cbEventList w)) ?w)"
    using Suc same by (subst Suc(1)) simp_all
  finally show ?case using i by (simp add: Cons_nth_drop_Suc [symmetric])
qed

lemma call_listener_other:
  "listener_call e l = None \<Longrightarrow> call_listener run e l = id"
  by (simp add: call_listener_def fun_eq_iff)

lemma fold_listeners:
  "fold (call_listener run e) ls w = fold (\<lambda>c. run c e) (List.map_filter (listener_call e) ls) w"
  by (induction ls arbitrary: w)
    (simp_all add: List.map_filter_simps call_listener_def split: option.split)

end
