(* ===== verification/WiFi_Name_Lemmas.thy ===== *)
theory WiFi_Name_Lemmas
  imports WiFi_Events
begin

text \<open>The names of Arduino events and of reasons are pairwise different, and every Arduino event but
  \<open>ARDUINO_EVENT_WIFI_READY\<close> is the translation of an ESP-IDF event.\<close>

definition all_events :: "arduino_event_id list" where
  "all_events = [
     ARDUINO_EVENT_WIFI_READY, ARDUINO_EVENT_WIFI_SCAN_DONE, ARDUINO_EVENT_WIFI_STA_START,
     ARDUINO_EVENT_WIFI_STA_STOP, ARDUINO_EVENT_WIFI_STA_CONNECTED, ARDUINO_EVENT_WIFI_STA_DISCONNECTED,
     ARDUINO_EVENT_WIFI_STA_AUTHMODE_CHANGE, ARDUINO_EVENT_WIFI_STA_GOT_IP, ARDUINO_EVENT_WIFI_STA_GOT_IP6,
     ARDUINO_EVENT_WIFI_STA_LOST_IP, ARDUINO_EVENT_WIFI_AP_START, ARDUINO_EVENT_WIFI_AP_STOP,
     ARDUINO_EVENT_WIFI_AP_STACONNECTED, ARDUINO_EVENT_WIFI_AP_STADISCONNECTED, ARDUINO_EVENT_WIFI_AP_STAIPASSIGNED,
     ARDUINO_EVENT_WIFI_AP_PROBEREQRECVED, ARDUINO_EVENT_WIFI_AP_GOT_IP6, ARDUINO_EVENT_WIFI_FTM_REPORT,
     ARDUINO_EVENT_ETH_START, ARDUINO_EVENT_ETH_STOP, ARDUINO_EVENT_ETH_CONNECTED,
     ARDUINO_EVENT_ETH_DISCONNECTED, ARDUINO_EVENT_ETH_GOT_IP, ARDUINO_EVENT_ETH_GOT_IP6,
     ARDUINO_EVENT_WPS_ER_SUCCESS, ARDUINO_EVENT_WPS_ER_FAILED, ARDUINO_EVENT_WPS_ER_TIMEOUT,
     ARDUINO_EVENT_WPS_ER_PIN, ARDUINO_EVENT_WPS_ER_PBC_OVERLAP, ARDUINO_EVENT_SC_SCAN_DONE,
     ARDUINO_EVENT_SC_FOUND_CHANNEL, ARDUINO_EVENT_SC_GOT_SSID_PSWD, ARDUINO_EVENT_SC_SEND_ACK_DONE,
     ARDUINO_EVENT_PROV_INIT, ARDUINO_EVENT_PROV_DEINIT, ARDUINO_EVENT_PROV_START,
     ARDUINO_EVENT_PROV_END, ARDUINO_EVENT_PROV_CRED_RECV, ARDUINO_EVENT_PROV_CRED_FAIL,
     ARDUINO_EVENT_PROV_CRED_SUCCESS, ARDUINO_EVENT_MAX]"

definition all_reasons :: "wifi_reason list" where
  "all_reasons = [
     WIFI_REASON_UNSPECIFIED, WIFI_REASON_AUTH_EXPIRE,
     WIFI_REASON_AUTH_LEAVE, WIFI_REASON_ASSOC_EXPIRE,
     WIFI_REASON_ASSOC_TOOMANY, WIFI_REASON_NOT_AUTHED,
     WIFI_REASON_NOT_ASSOCED, WIFI_REASON_ASSOC_LEAVE,
     WIFI_REASON_ASSOC_NOT_AUTHED, WIFI_REASON_DISASSOC_PWRCAP_BAD,
     WIFI_REASON_DISASSOC_SUPCHAN_BAD, WIFI_REASON_BSS_TRANSITION_DISASSOC,
     WIFI_REASON_IE_INVALID, WIFI_REASON_MIC_FAILURE,
     WIFI_REASON_4WAY_HANDSHAKE_TIMEOUT, WIFI_REASON_GROUP_KEY_UPDATE_TIMEOUT,
     WIFI_REASON_IE_IN_4WAY_DIFFERS, WIFI_REASON_GROUP_CIPHER_INVALID,
     WIFI_REASON_PAIRWISE_CIPHER_INVALID, WIFI_REASON_AKMP_INVALID,
     WIFI_REASON_UNSUPP_RSN_IE_VERSION, WIFI_REASON_INVALID_RSN_IE_CAP,
     WIFI_REASON_802_1X_AUTH_FAILED, WIFI_REASON_CIPHER_SUITE_REJECTED,
     WIFI_REASON_TDLS_PEER_UNREACHABLE, WIFI_REASON_TDLS_UNSPECIFIED,
     WIFI_REASON_SSP_REQUESTED_DISASSOC, WIFI_REASON_NO_SSP_ROAMING_AGREEMENT,
     WIFI_REASON_BAD_CIPHER_OR_AKM, WIFI_REASON_NOT_AUTHORIZED_THIS_LOCATION,
     WIFI_REASON_SERVICE_CHANGE_PERCLUDES_TS, WIFI_REASON_UNSPECIFIED_QOS,
     WIFI_REASON_NOT_ENOUGH_BANDWIDTH, WIFI_REASON_MISSING_ACKS,
     WIFI_REASON_EXCEEDED_TXOP, WIFI_REASON_STA_LEAVING,
     WIFI_REASON_END_BA, WIFI_REASON_UNKNOWN_BA,
     WIFI_REASON_TIMEOUT, WIFI_REASON_PEER_INITIATED,
     WIFI_REASON_AP_INITIATED, WIFI_REASON_INVALID_FT_ACTION_FRAME_COUNT,
     WIFI_REASON_INVALID_PMKID, WIFI_REASON_INVALID_MDE,
     WIFI_REASON_INVALID_FTE, WIFI_REASON_TRANSMISSION_LINK_ESTABLISH_FAILED,
     WIFI_REASON_ALTERATIVE_CHANNEL_OCCUPIED, WIFI_REASON_BEACON_TIMEOUT,
     WIFI_REASON_NO_AP_FOUND, WIFI_REASON_AUTH_FAIL,
     WIFI_REASON_ASSOC_FAIL, WIFI_REASON_HANDSHAKE_TIMEOUT,
     WIFI_REASON_CONNECTION_FAIL, WIFI_REASON_AP_TSF_RESET,
     WIFI_REASON_ROAMING]"

lemma all_events_complete: "i \<in> set all_events"
  by (cases i) (simp_all add: all_events_def)

lemma event_names_distinct: "distinct (map eventName all_events)"
  by code_simp

lemma reason_names_distinct: "distinct (map disconnectReasonName all_reasons)"
  by code_simp

lemma eventName_inj: "eventName i = eventName j \<longleftrightarrow> i = j"
  using event_names_distinct all_events_complete [of i] all_events_complete [of j]
  by (auto simp: distinct_map inj_on_def)

definition named :: "wifi_reason \<Rightarrow> bool" where
  "named r = (case r of Reason_0 \<Rightarrow> False | Reason_unlisted x \<Rightarrow> False | _ \<Rightarrow> True)"

lemma all_reasons_complete: "named r \<Longrightarrow> r \<in> set all_reasons"
  by (cases r) (simp_all add: all_reasons_def named_def)

lemma reasonName_inj:
  assumes "named r" "named s"
  shows "disconnectReasonName r = disconnectReasonName s \<longleftrightarrow> r = s"
  using reason_names_distinct all_reasons_complete [OF assms(1)] all_reasons_complete [OF assms(2)]
  by (auto simp: distinct_map inj_on_def)

text \<open>An ESP-IDF event for each Arduino event; \<open>a\<close>, \<open>b\<close>, \<open>c\<close> are the interface objects of station, access point
  and Ethernet.\<close>

definition sources :: "nat \<Rightarrow> nat \<Rightarrow> nat \<Rightarrow> esp_event list" where
  "sources a b c =
     map Wifi_event [WIFI_EVENT_STA_START, WIFI_EVENT_STA_STOP, WIFI_EVENT_STA_AUTHMODE_CHANGE, WIFI_EVENT_STA_CONNECTED,
       WIFI_EVENT_STA_DISCONNECTED Reason_0, WIFI_EVENT_SCAN_DONE, WIFI_EVENT_AP_START, WIFI_EVENT_AP_STOP,
       WIFI_EVENT_AP_PROBEREQRECVED, WIFI_EVENT_AP_STACONNECTED, WIFI_EVENT_AP_STADISCONNECTED,
       WIFI_EVENT_STA_WPS_ER_SUCCESS, WIFI_EVENT_STA_WPS_ER_FAILED, WIFI_EVENT_STA_WPS_ER_TIMEOUT,
       WIFI_EVENT_STA_WPS_ER_PIN, WIFI_EVENT_STA_WPS_ER_PBC_OVERLAP, WIFI_EVENT_FTM_REPORT] @
     map Ip_event [IP_EVENT_STA_GOT_IP, IP_EVENT_STA_LOST_IP, IP_EVENT_AP_STAIPASSIGNED, IP_EVENT_ETH_GOT_IP,
       IP_EVENT_GOT_IP6 (Some a), IP_EVENT_GOT_IP6 (Some b), IP_EVENT_GOT_IP6 (Some c)] @
     map Eth_event [ETHERNET_EVENT_CONNECTED, ETHERNET_EVENT_DISCONNECTED, ETHERNET_EVENT_START, ETHERNET_EVENT_STOP] @
     map Sc_event [SC_EVENT_SCAN_DONE, SC_EVENT_FOUND_CHANNEL, SC_EVENT_GOT_SSID_PSWD [] [] None, SC_EVENT_SEND_ACK_DONE] @
     map Prov_event [WIFI_PROV_INIT, WIFI_PROV_DEINIT, WIFI_PROV_START, WIFI_PROV_END, WIFI_PROV_CRED_RECV,
       WIFI_PROV_CRED_FAIL, WIFI_PROV_CRED_SUCCESS]"

lemma sources_complete:
  assumes "tab ESP_IF_WIFI_STA = Some a" "tab ESP_IF_WIFI_AP = Some b" "tab ESP_IF_ETH = Some c" "distinct [a, b, c]"
    and "i \<noteq> ARDUINO_EVENT_WIFI_READY" "i \<noteq> ARDUINO_EVENT_MAX"
  shows "i \<in> set (map (translate tab) (sources a b c))"
proof -
  have "get_esp_netif_interface tab (Some a) = ESP_IF_WIFI_STA" "get_esp_netif_interface tab (Some b) = ESP_IF_WIFI_AP"
    "get_esp_netif_interface tab (Some c) = ESP_IF_ETH"
    using assms(1-4) by (simp_all add: get_esp_netif_interface_def)
  then have "set (map (translate tab) (sources a b c)) = set (filter (\<lambda>i. i \<noteq> ARDUINO_EVENT_WIFI_READY \<and> i \<noteq> ARDUINO_EVENT_MAX) all_events)"
    by (simp add: sources_def all_events_def insert_commute)
  then show ?thesis using all_events_complete [of i] assms(5,6) by simp
qed

end
