(* ===== verification/WiFi_Properties.thy ===== *)
theory WiFi_Properties
  imports WiFi_Reconnect WiFi_Name_Lemmas
begin

text \<open>
  The properties of the WiFi library: the order of initialisation, the status bits, reconnection, listeners,
  modes, and the names of events and reasons.
\<close>

section \<open>The driver\<close>

text \<open>What ESP-IDF documents of \<open>esp_wifi_set_mode\<close> and \<open>esp_wifi_get_mode\<close>: the mode is the one last set
  successfully, and asking for it succeeds.\<close>

definition keeps_mode :: "esp_call \<Rightarrow> bool" where
  "keeps_mode c = (case c of Wifi_set_mode m \<Rightarrow> False | Wifi_restore \<Rightarrow> False | Wifi_init b \<Rightarrow> False
     | Wifi_deinit \<Rightarrow> False | _ \<Rightarrow> True)"

definition mode_law :: "esp_driver \<Rightarrow> bool" where
  "mode_law d \<longleftrightarrow>
     (\<forall>cs m. answer d cs (Wifi_set_mode m) = ESP_OK \<longrightarrow> got_mode d (cs @ [Wifi_set_mode m]) = m) \<and>
     (\<forall>cs c. keeps_mode c \<longrightarrow> got_mode d (cs @ [c]) = got_mode d cs) \<and>
     (\<forall>cs. answer d cs Wifi_get_mode = ESP_OK)"

text \<open>A driver where every call succeeds.\<close>

definition good_driver :: esp_driver where
  "good_driver = \<lparr>answer = (\<lambda>cs c. ESP_OK),
     got_mode = (\<lambda>cs. fold (\<lambda>c m. case c of Wifi_set_mode m1 \<Rightarrow> m1 | _ \<Rightarrow> m) cs mode_null),
     got_config = (\<lambda>cs. wifi_sta_config None None None 0 0 WIFI_FAST_SCAN WIFI_CONNECT_AP_BY_SIGNAL), got_clients = (\<lambda>cs. 0), got_ap_num = (\<lambda>cs. 0),
     got_mac = (\<lambda>cs. [1, 2, 3, 4, 5, 6]),
     got_ap_config = (\<lambda>cs. \<lparr>ap_ssid = [], ap_ssid_len = 0, ap_password = [], ap_channel = 0, ap_authmode = 0, ap_ssid_hidden = 0,
       ap_max_connection = 0, ap_beacon_interval = 0, ap_pairwise_cipher = 0, ap_ftm_responder = False\<rparr>),
     got_ap_info = (\<lambda>cs. \<lparr>rec_ssid = [], rec_bssid = [], rec_primary = 0, rec_rssi = 0, rec_authmode = 0\<rparr>),
     got_ap_records = (\<lambda>cs. []), got_ip_info = (\<lambda>cs. \<lparr>ip_addr = 0, ip_netmask = 0, ip_gw = 0\<rparr>),
     got_hostname = (\<lambda>cs. None), got_ip6 = (\<lambda>cs. []), got_dns = (\<lambda>cs. 0),
     got_channel = (\<lambda>cs. 6), got_tx_power = (\<lambda>cs. 78), got_ant_gpio = (\<lambda>cs. replicate 4 (False, 0)), idf_target = ''esp32''\<rparr>"

lemma mode_law_good: "mode_law good_driver"
  by (auto simp: mode_law_def good_driver_def keeps_mode_def split: esp_call.splits)

lemma set_protocol_spec:
  assumes "set_protocol_lr d b i w = (ok, w')" "mode_law d"
  shows "got_mode d (calls w') = got_mode d (calls w) \<and> lowLevelInitDone w' = lowLevelInitDone w"
  using assms by (auto simp: set_protocol_lr_def drv_def mode_law_def keeps_mode_def split: if_splits)

lemma start_spec:
  assumes "espWiFiStart d w = (True, w')" "mode_law d"
  shows "got_mode d (calls w') = got_mode d (calls w) \<and> lowLevelInitDone w' = lowLevelInitDone w \<and> esp_wifi_started w'"
  using assms
  by (auto simp: espWiFiStart_def drv_def Let_def mode_law_def keeps_mode_def split: if_splits)

lemma hostname_calm:
  "get_esp_netif_hostname d w = (r, w') \<Longrightarrow> lowLevelInitDone w' = lowLevelInitDone w"
  "with_calls f w = (x, w') \<Longrightarrow> lowLevelInitDone w' = lowLevelInitDone w"
  using calm_hostname [of w d] calm_with_calls [of w f] by (auto simp: calm_def)

lemma apply_mode_spec:
  assumes a: "apply_mode d m w = (True, w')" and law: "mode_law d" and "lowLevelInitDone w"
  shows "got_mode d (calls w') = m \<and> lowLevelInitDone w' \<and> esp_wifi_started w'"
proof -
  obtain v where v: "lowLevelInitDone v" "answer d (calls v) (Wifi_set_mode m) = ESP_OK"
    and rest: "(let (ok, w) = set_protocol_lr d (long_range v \<and> mode_sta m) ESP_IF_WIFI_STA
          (v\<lparr>calls := calls v @ [Wifi_set_mode m]\<rparr>)
      in if \<not> ok then (False, w)
      else let (ok, w) = set_protocol_lr d (long_range w \<and> mode_ap m) ESP_IF_WIFI_AP w
      in if \<not> ok then (False, w) else espWiFiStart d w) = (True, w')"
    using a assms(3) unfolding apply_mode_def
    by (auto simp: drv_def Let_def split: prod.splits if_splits dest: hostname_calm)
  have "got_mode d (calls v @ [Wifi_set_mode m]) = m" using law v by (simp add: mode_law_def)
  then show ?thesis
    using rest v by (auto simp: Let_def split: prod.splits if_splits
        dest!: set_protocol_spec [OF _ law] start_spec [OF _ law])
qed

lemma getMode_after:
  assumes "mode_law d" "lowLevelInitDone w" "esp_wifi_started w"
  shows "fst (getMode d w) = got_mode d (calls w)"
  using assms by (simp add: getMode_def drv_def mode_law_def keeps_mode_def)

lemma getMode_again: "mode_law d \<Longrightarrow> getMode d w = (m, w') \<Longrightarrow> fst (getMode d w') = m"
  by (auto simp: getMode_def drv_def mode_law_def keeps_mode_def split: if_splits)

lemma stop_spec: "espWiFiStop d w = (True, w') \<Longrightarrow> getMode d w' = (mode_null, w')"
  by (auto simp: espWiFiStop_def wifiLowLevelDeinit_def drv_def Let_def getMode_def split: if_splits)

lemma set_mode_spec:
  assumes "set_mode d m w = (True, w')" "mode_law d" "life_ok w"
  shows "fst (getMode d w') = m"
proof -
  obtain cm v where g: "getMode d w = (cm, v)" by fastforce
  have c: "calm w v" using calm_getMode [of w d] g by simp
  then have lv: "life_ok v" using calm_life assms(3) by blast
  consider "cm = m" | "cm \<noteq> m" "cm = mode_null" | "cm \<noteq> m" "cm \<noteq> mode_null" "m = mode_null"
    | "cm \<noteq> m" "cm \<noteq> mode_null" "m \<noteq> mode_null" by blast
  then show ?thesis
  proof cases
    case 1
    then show ?thesis using assms(1) g getMode_again [OF assms(2) g] by (simp add: set_mode_def)
  next
    case 2
    then obtain u where u: "wifiLowLevelInit d (persistent v) v = (True, u)" "apply_mode d m u = (True, w')"
      using assms(1) g by (auto simp: set_mode_def split: prod.splits if_splits)
    then have "lowLevelInitDone u" using wifiLowLevelInit_spec lv by blast
    then show ?thesis using apply_mode_spec [OF u(2) assms(2)] getMode_after [OF assms(2)] by simp
  next
    case 3
    then have "espWiFiStop d v = (True, w')" using assms(1) g by (simp add: set_mode_def)
    then show ?thesis using stop_spec 3 by simp
  next
    case 4
    then have "apply_mode d m v = (True, w')" using assms(1) g by (simp add: set_mode_def)
    moreover have "lowLevelInitDone v" using getMode_running [OF g 4(2)] c by (simp add: calm_def)
    ultimately show ?thesis using apply_mode_spec [OF _ assms(2)] getMode_after [OF assms(2)] by simp
  qed
qed

lemma reset_sta: "wifi_reachable good_driver (snd (set_mode good_driver \<lparr>mode_sta = True, mode_ap = False\<rparr> wifi_reset))"
  by (rule wifi_reachable.Step [OF wifi_reachable.Reset wifi_step.Mode])

section \<open>Properties\<close>

text \<open>C4: In every state that API calls, ESP-IDF events and event task rounds can reach from reset, whatever
  the driver answers: the driver is started only when it is initialised, it is initialised only when the network
  stack is, and the network stack is up only when the event group and the event queue exist. So no status bit
  is set and no event is posted before there is a place for it.\<close>

theorem queue_before_events:
  assumes "wifi_reachable d w"
  shows "(esp_wifi_started w \<longrightarrow> lowLevelInitDone w) \<and> (lowLevelInitDone w \<longrightarrow> tcpip_initialized w) \<and>
     (tcpip_initialized w \<longrightarrow> event_group w \<noteq> None \<and> event_queue w \<noteq> None)"
  using reachable_life [OF assms] by (simp add: life_ok_def stack_ok_def)

theorem queue_before_events_witness:
  "let w = snd (set_mode good_driver \<lparr>mode_sta = True, mode_ap = False\<rparr> wifi_reset)
   in esp_wifi_started w \<and> lowLevelInitDone w \<and> event_queue w \<noteq> None"
proof -
  have "esp_wifi_started (snd (set_mode good_driver \<lparr>mode_sta = True, mode_ap = False\<rparr> wifi_reset))"
    by code_simp
  then show ?thesis using queue_before_events [OF reset_sta] unfolding Let_def by blast
qed

text \<open>C6: In every reachable state the status bits are consistent: the station (the Ethernet interface) has an IPv4
  or IPv6 address only while it is connected, and a scan is never running and done at once.\<close>

theorem status_bits_consistent:
  assumes "wifi_reachable d w"
  shows "(has STA_HAS_IP w \<or> has STA_HAS_IP6 w \<longrightarrow> has STA_CONNECTED w) \<and>
     (has ETH_HAS_IP w \<or> has ETH_HAS_IP6 w \<longrightarrow> has ETH_CONNECTED w) \<and>
     \<not> (has WIFI_SCANNING w \<and> has WIFI_SCAN_DONE w)"
  using reachable_bits [OF assms] by (simp add: bits_ok_def)

theorem status_bits_consistent_witness:
  "let w = snd (scanNetworks good_driver id 0 True 300
       (snd (set_mode good_driver \<lparr>mode_sta = True, mode_ap = False\<rparr> wifi_reset)))
   in has WIFI_SCANNING w \<and> \<not> has WIFI_SCAN_DONE w"
proof -
  have "has WIFI_SCANNING (snd (scanNetworks good_driver id 0 True 300
       (snd (set_mode good_driver \<lparr>mode_sta = True, mode_ap = False\<rparr> wifi_reset))))"
    by code_simp
  then show ?thesis
    using status_bits_consistent [OF wifi_reachable.Step [OF reset_sta wifi_step.Scan], of 0 True 300]
    unfolding Let_def by blast
qed



text \<open>The event callback returns, and after the state update it calls, in the order of registration and each
  once, exactly the callbacks registered for this event or for all events, provided that no callback adds or
  removes a listener.\<close>

theorem eventCallback_calls:
  assumes "\<And>c e w. cbEventList (run c e w) = cbEventList w"
  shows "eventCallback d run (Some e) w =
     Some (fold (\<lambda>c. run c e) (List.map_filter (listener_call e) (cbEventList w)) (handle_event d e w))"
  using dispatch_fold [of run, OF assms] registry_handle_event [of w d e]
  by (simp add: eventCallback_def registry_same_def fold_listeners)

theorem eventCallback_calls_witness:
  "let w = snd (onEvent_cb (Some 7) ARDUINO_EVENT_MAX wifi_reset);
       e = \<lparr>event_id = ARDUINO_EVENT_WIFI_READY, event_info = No_info\<rparr>
   in eventCallback good_driver (\<lambda>c e w. w\<lparr>scanTimeout := scanTimeout w + 1\<rparr>) (Some e) w =
      Some (w\<lparr>scanTimeout := 10001\<rparr>)"
proof -
  let ?run = "\<lambda>(c :: callback) (e :: arduino_event) (w :: wifi). w\<lparr>scanTimeout := scanTimeout w + 1\<rparr>"
  let ?e = "\<lparr>event_id = ARDUINO_EVENT_WIFI_READY, event_info = No_info\<rparr>"
  let ?w = "snd (onEvent_cb (Some 7) ARDUINO_EVENT_MAX wifi_reset)"
  have "cbEventList (?run c e w) = cbEventList w" for c e w by simp
  note call = eventCallback_calls [of ?run good_driver ?e ?w, OF this]
  have "handle_event good_driver ?e ?w = ?w" by (simp add: handle_event_def)
  moreover have "List.map_filter (listener_call ?e) (cbEventList ?w) = [Plain 7]"
    by (simp add: onEvent_cb_def push_listener_def new_listener_def wifi_reset_def listener_call_def
        List.map_filter_simps)
  moreover have "scanTimeout ?w = 10000"
    by (simp add: onEvent_cb_def push_listener_def wifi_reset_def)
  ultimately show ?thesis unfolding Let_def call by simp
qed

text \<open>In every reachable state the listeners have pairwise different numbers below the next one, and removing a
  listener by its number removes exactly it. The loop behind all three variants of \<open>removeEvent\<close> skips the element
  after an erased one: of two equal neighbours the second stays.\<close>

theorem removeEvent_outcome:
  assumes "wifi_reachable d w"
  shows "distinct (map listener_id (cbEventList w)) \<and>
     (\<forall>l \<in> set (cbEventList w). listener_id l < current_id w) \<and>
     cbEventList (removeEvent_id i w) = filter (\<lambda>l. listener_id l \<noteq> i) (cbEventList w) \<and>
     (\<forall>P (x :: event_listener) y xs. P x \<and> P y \<longrightarrow> erase_matching P 0 (x # y # xs) = y # erase_matching P 0 xs)"
  using reachable_registry [OF assms]
  by (auto simp: registry_ok_def removeEvent_id_def erase_matching_start erase_distinct)

theorem removeEvent_outcome_witness:
  "let w = snd (onEvent_cb (Some 7) ARDUINO_EVENT_MAX (snd (onEvent_cb (Some 7) ARDUINO_EVENT_MAX wifi_reset)))
   in cbEventList (removeEvent_id 1 w) = filter (\<lambda>l. listener_id l \<noteq> 1) (cbEventList w) \<and>
      length (cbEventList (removeEvent_cb (Some 7) ARDUINO_EVENT_MAX w)) = 1"
proof -
  let ?w = "snd (onEvent_cb (Some 7) ARDUINO_EVENT_MAX (snd (onEvent_cb (Some 7) ARDUINO_EVENT_MAX wifi_reset)))"
  have "wifi_reachable good_driver ?w"
    by (rule wifi_reachable.Step [OF wifi_reachable.Step [OF wifi_reachable.Reset wifi_step.Listen_cb] wifi_step.Listen_cb])
  then have "cbEventList (removeEvent_id 1 ?w) = filter (\<lambda>l. listener_id l \<noteq> 1) (cbEventList ?w)"
    by (rule removeEvent_outcome [THEN conjunct2, THEN conjunct2, THEN conjunct1])
  moreover have "length (cbEventList (removeEvent_cb (Some 7) ARDUINO_EVENT_MAX ?w)) = 1"
    by (simp add: onEvent_cb_def push_listener_def new_listener_def removeEvent_cb_def erase_matching_start
        wifi_reset_def)
  ultimately show ?thesis unfolding Let_def ..
qed

text \<open>When \<open>mode\<close> reports success in a reachable state, the driver runs in that mode: \<open>getMode\<close> returns it,
  for every mode, null (stopped and deinitialised) included, if the driver keeps the mode it was last set to.\<close>

theorem mode_success:
  assumes "wifi_reachable d w" "mode_law d" "set_mode d m w = (True, w')"
  shows "fst (getMode d w') = m"
  using set_mode_spec [OF assms(3,2) reachable_life [OF assms(1)]] .

theorem mode_success_witness:
  "let m = \<lparr>mode_sta = True, mode_ap = True\<rparr> in fst (getMode good_driver (snd (set_mode good_driver m wifi_reset))) = m"
proof -
  have "fst (set_mode good_driver \<lparr>mode_sta = True, mode_ap = True\<rparr> wifi_reset)" by code_simp
  then have "set_mode good_driver \<lparr>mode_sta = True, mode_ap = True\<rparr> wifi_reset =
      (True, snd (set_mode good_driver \<lparr>mode_sta = True, mode_ap = True\<rparr> wifi_reset))"
    by (metis (full_types) prod.collapse)
  from mode_success [OF wifi_reachable.Reset mode_law_good this] show ?thesis unfolding Let_def .
qed

text \<open>Events and reasons can be told apart by their names, and nothing is unreachable: different Arduino events
  have different names, so have different listed reasons, and every Arduino event except
  \<open>ARDUINO_EVENT_WIFI_READY\<close> is the translation of some ESP-IDF event (the IPv6 events by interface).\<close>

theorem event_names:
  assumes "tab ESP_IF_WIFI_STA = Some a" "tab ESP_IF_WIFI_AP = Some b" "tab ESP_IF_ETH = Some c" "distinct [a, b, c]"
  shows "(eventName i = eventName j \<longleftrightarrow> i = j) \<and>
     (named r \<and> named s \<longrightarrow> (disconnectReasonName r = disconnectReasonName s \<longleftrightarrow> r = s)) \<and>
     (i \<noteq> ARDUINO_EVENT_WIFI_READY \<and> i \<noteq> ARDUINO_EVENT_MAX \<longrightarrow> (\<exists>e. translate tab e = i))"
  using eventName_inj [of i j] reasonName_inj [of r s] sources_complete [OF assms, of i] by auto

theorem event_names_witness:
  "\<exists>e. translate (\<lambda>i. case i of ESP_IF_WIFI_STA \<Rightarrow> Some 0 | ESP_IF_WIFI_AP \<Rightarrow> Some 1 | ESP_IF_ETH \<Rightarrow> Some 2
     | ESP_IF_MAX \<Rightarrow> None) e = ARDUINO_EVENT_ETH_GOT_IP6"
  using event_names [of "\<lambda>i. case i of ESP_IF_WIFI_STA \<Rightarrow> Some 0 | ESP_IF_WIFI_AP \<Rightarrow> Some 1 | ESP_IF_ETH \<Rightarrow> Some 2
     | ESP_IF_MAX \<Rightarrow> None" 0 1 2 ARDUINO_EVENT_ETH_GOT_IP6] by (simp del: One_nat_def)

section \<open>Further results\<close>

text \<open>When the default event loop cannot be created, the error code is returned as a bool: the caller takes it for
  success, although the event task was not created and no handler registered.\<close>

lemma event_loop_failure_reported_as_success:
  assumes "event_group w \<noteq> None" "event_queue w \<noteq> None" "answer d (calls w) Event_loop_create = ESP_FAIL"
  shows "start_network_event_task d w = (True, w\<lparr>calls := calls w @ [Event_loop_create]\<rparr>)"
  using assms by (simp add: start_network_event_task_def create_event_group_def create_event_queue_def drv_def)

text \<open>An expired authentication leaves the connection state alone, so that a station that was connected keeps
  reporting \<open>WL_CONNECTED\<close>, and \<open>begin\<close> makes no connection attempt.\<close>

lemma auth_expire_keeps_connected:
  assumes "status w = WL_CONNECTED"
  shows "status (sta_disconnected d WIFI_REASON_AUTH_EXPIRE w) = WL_CONNECTED"
proof -
  have st: "status v = status u" if "view v = view u" for u v
    using that by (simp add: view_def status_def split: option.split)
  have b: "status (clearStatusBits b w) = WL_CONNECTED" for b
    using assms by (auto simp: status_def clearStatusBits_def split: option.splits)
  have f: "status (v\<lparr>first_connect := x\<rparr>) = status v" for v x
    by (simp add: status_def split: option.split)
  have k: "status (snd (begin_current d (snd (disconnect d False False v)))) = status v" for v
    using keeps_trans0 [OF keeps_disconnect keeps_begin_current, of v d d False False]
    by (intro st) (simp add: keeps_def)
  show ?thesis
    using b f unfolding sta_disconnected_def disconnected_status_def reconnect_decision_def Let_def
    by (simp add: k)
qed

text \<open>Stopping the access point clears its bits except the one for its IPv6 address.\<close>

lemma ap_stop_keeps_ip6:
  "has AP_HAS_IP6 (handle_event d \<lparr>event_id = ARDUINO_EVENT_WIFI_AP_STOP, event_info = i\<rparr> w) = has AP_HAS_IP6 w"
  by (simp add: handle_event_def)

end
