(* ===== verification/Event_Dispatcher.thy ===== *)
theory Event_Dispatcher
  imports Error_Handler
begin

text \<open>
  The event dispatcher (\<open>include/Events/\<close>): groups of listeners in static arrays, one group
  per event hash, scanned linearly. A callback is a program that may call the dispatcher
  again while it is being dispatched: register and remove listeners, count them, clear the
  dispatcher, dispatch another event, or throw. Pointers to a group and to a listener are
  slot numbers, and a slot without an object is what the code would read after \<open>clear()\<close>
  destroyed it, so an access to a dead object is a result of its own.
\<close>

section \<open>The hash of an event name\<close>

text \<open>\<open>((hash << 5) + hash) + c\<close>; \<open>char\<close> is unsigned on the target. \<open>None\<close> is a null pointer.\<close>

definition djb2_step :: "char \<Rightarrow> u32 \<Rightarrow> u32" where
  "djb2_step c hash = (push_bit 5 hash + hash) + of_char c"

definition hash_event_name :: "char list option \<Rightarrow> u32" where
  "hash_event_name str = (case str of None \<Rightarrow> 0 | Some s \<Rightarrow> fold djb2_step s 5381)"

section \<open>Listeners and groups\<close>

text \<open>\<open>le_callback\<close> names the stored functor; \<open>None\<close> is an empty \<open>FastFunction\<close>.\<close>

record listener =
  le_hash :: u32
  le_id :: u32
  le_callback :: "nat option"
  le_once :: bool
  le_marked :: bool

definition ListenerEntry :: "u32 \<Rightarrow> u32 \<Rightarrow> nat option \<Rightarrow> bool \<Rightarrow> listener" where
  "ListenerEntry hash lid cb once =
     \<lparr>le_hash = hash, le_id = lid, le_callback = cb, le_once = once, le_marked = False\<rparr>"

definition mark_for_removal :: "listener \<Rightarrow> listener" where
  "mark_for_removal l = l\<lparr>le_marked := True\<rparr>"

text \<open>What a move leaves behind: the functor is gone, the numbers and flags are copied.\<close>

definition le_moved_from :: "listener \<Rightarrow> listener" where
  "le_moved_from l = l\<lparr>le_callback := None\<rparr>"

record event_group =
  eg_hash :: u32
  eg_active :: bool
  eg_listeners :: "listener arr"

type_synonym event_ptr = nat

text \<open>What the dispatcher calls, in order: a listener (with the number of dispatches around
  the one that calls it), or the error handler.\<close>

datatype ev_call =
    Invoked nat u32 nat event_ptr
  | EvReport "char list" "char list" ErrorSeverity

text \<open>The dispatcher. \<open>ed_max_listeners\<close> is the template argument \<open>MaxListeners\<close>; \<open>MaxEvents\<close> is
  the capacity of \<open>ed_groups\<close>; \<open>ed_calls\<close> records the calls made so far.\<close>

record dispatcher =
  ed_groups :: "event_group arr"
  ed_next_id :: u32
  ed_depth :: u8
  ed_max_listeners :: nat
  ed_calls :: "ev_call list"

text \<open>Listeners and groups own functors: neither copy nor destruction is trivial.\<close>

definition owning :: elem_traits where "owning = \<lparr>triv_copy = False, triv_destroy = False\<rparr>"

definition BaseEventDispatcher :: "nat \<Rightarrow> nat \<Rightarrow> dispatcher" where
  "BaseEventDispatcher MaxEvents MaxListeners =
     \<lparr>ed_groups = StaticArray MaxEvents, ed_next_id = 1, ed_depth = 0,
      ed_max_listeners = MaxListeners, ed_calls = []\<rparr>"

definition ed_call :: "ev_call \<Rightarrow> dispatcher \<Rightarrow> dispatcher" where
  "ed_call c d = d\<lparr>ed_calls := ed_calls d @ [c]\<rparr>"

text \<open>Access through a group pointer and a listener reference.\<close>

definition group_at :: "nat \<Rightarrow> dispatcher \<Rightarrow> event_group option" where
  "group_at g d = sa_index (ed_groups d) g"

definition set_group :: "nat \<Rightarrow> event_group \<Rightarrow> dispatcher \<Rightarrow> dispatcher" where
  "set_group g eg d = d\<lparr>ed_groups := (ed_groups d)\<lparr>arr_data := (arr_data (ed_groups d))[g := Some eg]\<rparr>\<rparr>"

definition listener_at :: "nat \<Rightarrow> nat \<Rightarrow> dispatcher \<Rightarrow> listener option" where
  "listener_at g i d = (case group_at g d of None \<Rightarrow> None | Some eg \<Rightarrow> sa_index (eg_listeners eg) i)"

definition eg_mark :: "nat \<Rightarrow> event_group \<Rightarrow> event_group" where
  "eg_mark i eg =
     eg\<lparr>eg_listeners := (eg_listeners eg)\<lparr>arr_data :=
          (arr_data (eg_listeners eg))[i := map_option mark_for_removal (arr_data (eg_listeners eg) ! i)]\<rparr>\<rparr>"

definition mark_at :: "nat \<Rightarrow> nat \<Rightarrow> dispatcher \<Rightarrow> dispatcher" where
  "mark_at g i d = (case group_at g d of None \<Rightarrow> d | Some eg \<Rightarrow> set_group g (eg_mark i eg) d)"

section \<open>Storage\<close>

text \<open>The linear scan over the constructed groups; the result is the slot.\<close>

fun scan_groups :: "u32 \<Rightarrow> nat \<Rightarrow> event_group list \<Rightarrow> nat option" where
  "scan_groups event_hash current [] = None"
| "scan_groups event_hash current (eg # rest) =
     (if eg_active eg \<and> eg_hash eg = event_hash then Some current
      else scan_groups event_hash (current + 1) rest)"

definition ev_findGroup :: "u32 \<Rightarrow> dispatcher \<Rightarrow> nat option" where
  "ev_findGroup event_hash d = scan_groups event_hash 0 (contents (ed_groups d))"

definition ev_getOrCreateGroup :: "u32 \<Rightarrow> dispatcher \<Rightarrow> nat option \<times> dispatcher" where
  "ev_getOrCreateGroup event_hash d =
     (case ev_findGroup event_hash d of
        Some g \<Rightarrow> (Some g, d)
      | None \<Rightarrow>
          if sa_full (ed_groups d)
          then (None, ed_call (EvReport ''EventStorage'' ''Max events reached'' WARNING) d)
          else let eg = \<lparr>eg_hash = event_hash, eg_active = True,
                         eg_listeners = StaticArray (ed_max_listeners d)\<rparr>
               in (Some (sa_size (ed_groups d)), d\<lparr>ed_groups := snd (sa_push_back eg (ed_groups d))\<rparr>))"

definition storage_clear :: "dispatcher \<Rightarrow> dispatcher" where
  "storage_clear d = d\<lparr>ed_groups := sa_clear owning (ed_groups d)\<rparr>"

section \<open>The dispatcher's operations\<close>

definition addListener :: "u32 \<Rightarrow> nat option \<Rightarrow> bool \<Rightarrow> dispatcher \<Rightarrow> u32 \<times> dispatcher" where
  "addListener event_hash cb is_once d =
     (if cb = None then (0, d)
      else
        let lid = ed_next_id d;
            d = d\<lparr>ed_next_id := (if ed_next_id d + 1 = 0 then 1 else ed_next_id d + 1)\<rparr>;
            (group, d) = ev_getOrCreateGroup event_hash d
        in case group of
             None \<Rightarrow> (0, d)
           | Some g \<Rightarrow>
               (case group_at g d of
                  None \<Rightarrow> (0, d)
                | Some eg \<Rightarrow>
                    if sa_full (eg_listeners eg)
                    then (0, ed_call (EvReport ''BaseEventDispatcher'' ''Listeners full'' WARNING) d)
                    else (lid, set_group g
                               (eg\<lparr>eg_listeners := snd (sa_push_back (ListenerEntry event_hash lid cb is_once)
                                                            (eg_listeners eg))\<rparr>) d)))"

text \<open>The index of the first listener with a given number.\<close>

fun scan_listeners :: "u32 \<Rightarrow> nat \<Rightarrow> listener list \<Rightarrow> nat option" where
  "scan_listeners listener_id current [] = None"
| "scan_listeners listener_id current (l # rest) =
     (if le_id l = listener_id then Some current else scan_listeners listener_id (current + 1) rest)"

definition removeListenerById :: "u32 \<Rightarrow> u32 \<Rightarrow> dispatcher \<Rightarrow> bool \<times> dispatcher" where
  "removeListenerById event_hash listener_id d =
     (case ev_findGroup event_hash d of
        None \<Rightarrow> (False, d)
      | Some g \<Rightarrow>
          (case group_at g d of
             None \<Rightarrow> (False, d)
           | Some eg \<Rightarrow>
               (case scan_listeners listener_id 0 (contents (eg_listeners eg)) of
                  None \<Rightarrow> (False, d)
                | Some i \<Rightarrow>
                    (True,
                     if 0 < ed_depth d then mark_at g i d
                     else set_group g (eg\<lparr>eg_listeners := snd (sa_erase_it owning (int i) (eg_listeners eg))\<rparr>) d))))"

text \<open>The loop that marks every listener not marked yet and counts them.\<close>

fun mark_loop :: "listener option list \<Rightarrow> nat \<times> listener option list" where
  "mark_loop [] = (0, [])"
| "mark_loop (s # rest) =
     (let (removed, rest) = mark_loop rest in
      case s of
        None \<Rightarrow> (removed, None # rest)
      | Some l \<Rightarrow> if \<not> le_marked l then (removed + 1, Some (mark_for_removal l) # rest)
                  else (removed, Some l # rest))"

definition removeListener :: "u32 \<Rightarrow> dispatcher \<Rightarrow> nat \<times> dispatcher" where
  "removeListener event_hash d =
     (case ev_findGroup event_hash d of
        None \<Rightarrow> (0, d)
      | Some g \<Rightarrow>
          (case group_at g d of
             None \<Rightarrow> (0, d)
           | Some eg \<Rightarrow>
               if 0 < ed_depth d
               then let a = eg_listeners eg; (removed, ls) = mark_loop (take (arr_size a) (arr_data a))
                    in (removed, set_group g (eg\<lparr>eg_listeners := a\<lparr>arr_data := ls @ drop (arr_size a) (arr_data a)\<rparr>\<rparr>) d)
               else (sa_size (eg_listeners eg),
                     set_group g (eg\<lparr>eg_listeners := sa_clear owning (eg_listeners eg), eg_active := False\<rparr>) d)))"

definition live_count :: "listener list \<Rightarrow> nat" where
  "live_count ls = length (filter (\<lambda>l. \<not> le_marked l) ls)"

definition ed_count_all :: "dispatcher \<Rightarrow> nat" where
  "ed_count_all d =
     (\<Sum>eg\<leftarrow>contents (ed_groups d). if \<not> eg_active eg then 0 else live_count (contents (eg_listeners eg)))"

definition ed_count_event :: "u32 \<Rightarrow> dispatcher \<Rightarrow> nat" where
  "ed_count_event event_hash d =
     (case ev_findGroup event_hash d of
        None \<Rightarrow> 0
      | Some g \<Rightarrow> (case group_at g d of None \<Rightarrow> 0 | Some eg \<Rightarrow> live_count (contents (eg_listeners eg))))"

text \<open>The compaction of \<open>cleanupMarkedListeners\<close>: \<open>n\<close> iterations are left.\<close>

fun compact_loop :: "nat \<Rightarrow> nat \<Rightarrow> nat \<Rightarrow> listener option list \<Rightarrow> nat \<times> listener option list" where
  "compact_loop 0 read_idx write_idx d = (write_idx, d)"
| "compact_loop (Suc n) read_idx write_idx d =
     (case d ! read_idx of
        Some l \<Rightarrow>
          if \<not> le_marked l
          then compact_loop n (read_idx + 1) (write_idx + 1)
                 (if write_idx \<noteq> read_idx
                  then d[write_idx := Some l, read_idx := Some (le_moved_from l)] else d)
          else compact_loop n (read_idx + 1) write_idx d
      | None \<Rightarrow> compact_loop n (read_idx + 1) write_idx d)"

fun pop_until :: "nat \<Rightarrow> nat \<Rightarrow> listener arr \<Rightarrow> listener arr" where
  "pop_until 0 write_idx a = a"
| "pop_until (Suc n) write_idx a =
     (if write_idx < arr_size a then pop_until n write_idx (sa_pop_back owning a) else a)"

definition cleanupMarkedListeners :: "event_group \<Rightarrow> event_group" where
  "cleanupMarkedListeners eg =
     (let a = eg_listeners eg;
          (write_idx, d) = compact_loop (arr_size a) 0 0 (arr_data a);
          a = pop_until (arr_size a) write_idx (a\<lparr>arr_data := d\<rparr>)
      in eg\<lparr>eg_listeners := a, eg_active := (if sa_empty a then False else eg_active eg)\<rparr>)"

section \<open>Callbacks as programs\<close>

text \<open>
  A callback in the order of its calls into the dispatcher, each continued with the value
  the call returned. What a callback does may depend on everything that happened before
  (its captured state): the environment maps the calls made so far, the functor and the
  event to a program.
\<close>

datatype ev_prog =
    Finish
  | ThrowStd "char list"
  | ThrowOther
  | Register "char list option" "nat option" bool "u32 \<Rightarrow> ev_prog"
  | RemoveId "char list option" u32 "bool \<Rightarrow> ev_prog"
  | RemoveAll "char list option" "nat \<Rightarrow> ev_prog"
  | CountEvent "char list option" "nat \<Rightarrow> ev_prog"
  | CountAll "nat \<Rightarrow> ev_prog"
  | ClearAll ev_prog
  | Dispatch "char list option" event_ptr ev_prog

type_synonym ev_env = "ev_call list \<Rightarrow> nat \<Rightarrow> event_ptr \<Rightarrow> ev_prog"

text \<open>How a call ends: it returns, an exception leaves it, it reads a destroyed object, or the
  bound on the nesting of dispatches is reached.\<close>

datatype 'a ev_result =
    Returned 'a dispatcher
  | Raised "char list option" dispatcher
  | Undefined
  | TooDeep

section \<open>The public interface\<close>

definition ed_registerListener :: "char list option \<Rightarrow> nat option \<Rightarrow> bool \<Rightarrow> dispatcher \<Rightarrow> u32 \<times> dispatcher" where
  "ed_registerListener event_name cb is_once d =
     (if event_name = None \<or> cb = None then (0, d)
      else addListener (hash_event_name event_name) cb is_once d)"

definition ed_removeListenerById :: "char list option \<Rightarrow> u32 \<Rightarrow> dispatcher \<Rightarrow> bool \<times> dispatcher" where
  "ed_removeListenerById event_name listener_id d =
     (if event_name = None then (False, d)
      else removeListenerById (hash_event_name event_name) listener_id d)"

definition ed_removeListener :: "char list option \<Rightarrow> dispatcher \<Rightarrow> nat \<times> dispatcher" where
  "ed_removeListener event_name d =
     (if event_name = None then (0, d) else removeListener (hash_event_name event_name) d)"

definition ed_clear :: "dispatcher \<Rightarrow> dispatcher" where "ed_clear d = storage_clear d"

definition ed_count :: "dispatcher \<Rightarrow> nat" where "ed_count d = ed_count_all d"

definition ed_count_name :: "char list option \<Rightarrow> dispatcher \<Rightarrow> nat" where
  "ed_count_name event_name d =
     (if event_name = None then 0 else ed_count_event (hash_event_name event_name) d)"

text \<open>The templates \<open>on\<close> and \<open>once\<close>: the event type gives the name, a null function or object
  pointer is refused.\<close>

definition ed_on :: "char list \<Rightarrow> nat option \<Rightarrow> dispatcher \<Rightarrow> u32 \<times> dispatcher" where
  "ed_on type_name cb d =
     (if cb = None then (0, d) else addListener (hash_event_name (Some type_name)) cb False d)"

definition ed_once :: "char list \<Rightarrow> nat option \<Rightarrow> dispatcher \<Rightarrow> u32 \<times> dispatcher" where
  "ed_once type_name cb d =
     (if cb = None then (0, d) else addListener (hash_event_name (Some type_name)) cb True d)"

text \<open>\<open>ErrorHandler::safe\<close> around a dispatch: an exception becomes a report and is not passed on.\<close>

definition safe_report :: "char list \<Rightarrow> char list option \<Rightarrow> ev_call" where
  "safe_report context what =
     (case what of
        Some w \<Rightarrow> EvReport context w ERROR
      | None \<Rightarrow> EvReport context ''Unknown exception'' CRITICAL)"

definition ev_safe :: "char list \<Rightarrow> unit ev_result \<Rightarrow> unit ev_result" where
  "ev_safe context r =
     (case r of Raised what d \<Rightarrow> Returned () (ed_call (safe_report context what) d) | _ \<Rightarrow> r)"

definition ed_dispatch ::
  "(event_ptr \<Rightarrow> u32 \<Rightarrow> dispatcher \<Rightarrow> unit ev_result) \<Rightarrow>
   event_ptr \<Rightarrow> char list option \<Rightarrow> dispatcher \<Rightarrow> unit ev_result" where
  "ed_dispatch disp event event_name d =
     (if event_name = None then Returned () d
      else ev_safe ''EventDispatcher::dispatch'' (disp event (hash_event_name event_name) d))"

text \<open>One callback; \<open>disp\<close> is the dispatch it can start itself.\<close>

primrec run_prog ::
  "(event_ptr \<Rightarrow> u32 \<Rightarrow> dispatcher \<Rightarrow> unit ev_result) \<Rightarrow> ev_prog \<Rightarrow> dispatcher \<Rightarrow> unit ev_result" where
  "run_prog disp Finish d = Returned () d"
| "run_prog disp (ThrowStd what) d = Raised (Some what) d"
| "run_prog disp ThrowOther d = Raised None d"
| "run_prog disp (Register nm cb once k) d =
     (let (lid, d) = ed_registerListener nm cb once d in run_prog disp (k lid) d)"
| "run_prog disp (RemoveId nm lid k) d =
     (let (ok, d) = ed_removeListenerById nm lid d in run_prog disp (k ok) d)"
| "run_prog disp (RemoveAll nm k) d =
     (let (n, d) = ed_removeListener nm d in run_prog disp (k n) d)"
| "run_prog disp (CountEvent nm k) d = run_prog disp (k (ed_count_name nm d)) d"
| "run_prog disp (CountAll k) d = run_prog disp (k (ed_count d)) d"
| "run_prog disp (ClearAll k) d = run_prog disp k (ed_clear d)"
| "run_prog disp (Dispatch nm event k) d =
     (case ed_dispatch disp event nm d of
        Returned _ d \<Rightarrow> run_prog disp k d
      | Raised what d \<Rightarrow> Raised what d
      | Undefined \<Rightarrow> Undefined
      | TooDeep \<Rightarrow> TooDeep)"

section \<open>Dispatching\<close>

definition invoke_listener ::
  "(event_ptr \<Rightarrow> u32 \<Rightarrow> dispatcher \<Rightarrow> unit ev_result) \<Rightarrow> ev_env \<Rightarrow> nat \<Rightarrow> event_ptr \<Rightarrow> listener \<Rightarrow>
   dispatcher \<Rightarrow> unit ev_result" where
  "invoke_listener disp env lvl event l d =
     (case le_callback l of
        None \<Rightarrow> Returned () d
      | Some f \<Rightarrow> run_prog disp (env (ed_calls d) f event) (ed_call (Invoked lvl (le_id l) f event) d))"

text \<open>The loop over the listeners present when the dispatch started: \<open>n\<close> are left, \<open>i\<close> is next.\<close>

primrec listener_loop ::
  "(event_ptr \<Rightarrow> u32 \<Rightarrow> dispatcher \<Rightarrow> unit ev_result) \<Rightarrow> ev_env \<Rightarrow> nat \<Rightarrow> event_ptr \<Rightarrow> nat \<Rightarrow>
   nat \<Rightarrow> nat \<Rightarrow> bool \<Rightarrow> dispatcher \<Rightarrow> bool ev_result" where
  "listener_loop disp env lvl event g 0 i needs_cleanup d = Returned needs_cleanup d"
| "listener_loop disp env lvl event g (Suc n) i needs_cleanup d =
     (case listener_at g i d of
        None \<Rightarrow> Undefined
      | Some l \<Rightarrow>
          if le_marked l then listener_loop disp env lvl event g n (i + 1) True d
          else
            (case invoke_listener disp env lvl event l d of
               Returned _ d \<Rightarrow>
                 (case listener_at g i d of
                    None \<Rightarrow> Undefined
                  | Some l \<Rightarrow>
                      if le_once l
                      then listener_loop disp env lvl event g n (i + 1) True (mark_at g i d)
                      else listener_loop disp env lvl event g n (i + 1) needs_cleanup d)
             | Raised what d \<Rightarrow> Raised what d
             | Undefined \<Rightarrow> Undefined
             | TooDeep \<Rightarrow> TooDeep))"

definition dispatch_group ::
  "(event_ptr \<Rightarrow> u32 \<Rightarrow> dispatcher \<Rightarrow> unit ev_result) \<Rightarrow> ev_env \<Rightarrow> nat \<Rightarrow> event_ptr \<Rightarrow> u32 \<Rightarrow>
   dispatcher \<Rightarrow> unit ev_result" where
  "dispatch_group disp env lvl event event_hash d =
     (case ev_findGroup event_hash d of
        None \<Rightarrow> Returned () d
      | Some g \<Rightarrow>
          (case group_at g d of
             None \<Rightarrow> Undefined
           | Some eg \<Rightarrow>
               let d = d\<lparr>ed_depth := ed_depth d + 1\<rparr> in
               case listener_loop disp env lvl event g (arr_size (eg_listeners eg)) 0 False d of
                 Returned needs_cleanup d \<Rightarrow>
                   (let d = d\<lparr>ed_depth := ed_depth d - 1\<rparr> in
                    if needs_cleanup \<and> ed_depth d = 0
                    then (case group_at g d of
                            None \<Rightarrow> Undefined
                          | Some eg \<Rightarrow> Returned () (set_group g (cleanupMarkedListeners eg) d))
                    else Returned () d)
               | Raised what d \<Rightarrow> Raised what d
               | Undefined \<Rightarrow> Undefined
               | TooDeep \<Rightarrow> TooDeep))"

text \<open>\<open>dispatchEvent env n lvl\<close>: \<open>lvl\<close> dispatches are running, and at most \<open>n\<close> more may be nested
  inside each other (the call stack of the processor; \<open>more_budget\<close> shows that the bound does
  not change a result).\<close>

primrec dispatchEvent :: "ev_env \<Rightarrow> nat \<Rightarrow> nat \<Rightarrow> event_ptr \<Rightarrow> u32 \<Rightarrow> dispatcher \<Rightarrow> unit ev_result" where
  "dispatchEvent env 0 lvl event event_hash d = TooDeep"
| "dispatchEvent env (Suc n) lvl event event_hash d =
     dispatch_group (dispatchEvent env n (lvl + 1)) env lvl event event_hash d"

text \<open>The public dispatch, and the calls a program outside of any callback can make.\<close>

definition ed_public_dispatch :: "ev_env \<Rightarrow> nat \<Rightarrow> event_ptr \<Rightarrow> char list option \<Rightarrow> dispatcher \<Rightarrow> unit ev_result" where
  "ed_public_dispatch env n = ed_dispatch (dispatchEvent env n 0)"

definition ed_main :: "ev_env \<Rightarrow> nat \<Rightarrow> ev_prog \<Rightarrow> dispatcher \<Rightarrow> unit ev_result" where
  "ed_main env n = run_prog (dispatchEvent env n 0)"

end
