(* ===== verification/Event_Frame.thy ===== *)
theory Event_Frame
  imports Event_Dispatcher
begin

text \<open>
  What a dispatch can do to the dispatcher. The locale \<open>ev_frame\<close> lifts a relation that every
  single operation satisfies to whole callbacks and to dispatches nested in each other; its
  interpretations give the well-formedness of the storage, the accounting of the dispatch
  depth, and the monotone growth of the groups while a dispatch is running.
\<close>

section \<open>Lifting a relation to programs and dispatches\<close>

text \<open>A program that may clear the dispatcher only if \<open>C\<close>, and may throw only if \<open>T\<close>.\<close>

primrec prog_ok :: "bool \<Rightarrow> bool \<Rightarrow> ev_prog \<Rightarrow> bool" where
  "prog_ok C T Finish \<longleftrightarrow> True"
| "prog_ok C T (ThrowStd what) \<longleftrightarrow> T"
| "prog_ok C T ThrowOther \<longleftrightarrow> T"
| "prog_ok C T (Register nm cb once k) \<longleftrightarrow> (\<forall>r. prog_ok C T (k r))"
| "prog_ok C T (RemoveId nm lid k) \<longleftrightarrow> (\<forall>r. prog_ok C T (k r))"
| "prog_ok C T (RemoveAll nm k) \<longleftrightarrow> (\<forall>r. prog_ok C T (k r))"
| "prog_ok C T (CountEvent nm k) \<longleftrightarrow> (\<forall>r. prog_ok C T (k r))"
| "prog_ok C T (CountAll k) \<longleftrightarrow> (\<forall>r. prog_ok C T (k r))"
| "prog_ok C T (ClearAll k) \<longleftrightarrow> C \<and> prog_ok C T k"
| "prog_ok C T (Dispatch nm event k) \<longleftrightarrow> prog_ok C T k"

definition env_ok :: "bool \<Rightarrow> bool \<Rightarrow> ev_env \<Rightarrow> bool" where
  "env_ok C T env \<longleftrightarrow> (\<forall>calls f event. prog_ok C T (env calls f event))"

definition enter :: "dispatcher \<Rightarrow> dispatcher" where "enter d = d\<lparr>ed_depth := ed_depth d + 1\<rparr>"
definition leave :: "dispatcher \<Rightarrow> dispatcher" where "leave d = d\<lparr>ed_depth := ed_depth d - 1\<rparr>"

text \<open>\<open>R\<close> relates the states around a call that returns, \<open>X\<close> around one that throws.\<close>

fun result_in :: "(dispatcher \<Rightarrow> bool) \<Rightarrow> (dispatcher \<Rightarrow> bool) \<Rightarrow> 'a ev_result \<Rightarrow> bool" where
  "result_in R X (Returned _ d) = R d"
| "result_in R X (Raised _ d) = X d"
| "result_in R X Undefined = True"
| "result_in R X TooDeep = True"

lemma result_in_mono:
  "result_in R X r \<Longrightarrow> (\<And>d. R d \<Longrightarrow> R' d) \<Longrightarrow> (\<And>d. X d \<Longrightarrow> X' d) \<Longrightarrow> result_in R' X' r"
  by (cases r) auto

locale ev_frame =
  fixes C T :: bool
    and L :: nat
    and R X :: "nat \<Rightarrow> dispatcher \<Rightarrow> dispatcher \<Rightarrow> bool"
  assumes R_refl: "R n d d"
    and R_trans: "R n d e \<Longrightarrow> R n e f \<Longrightarrow> R n d f"
    and R_add: "R n d (snd (addListener h cb once d))"
    and R_removeId: "R n d (snd (removeListenerById h lid d))"
    and R_remove: "R n d (snd (removeListener h d))"
    and R_clear: "C \<Longrightarrow> R n d (storage_clear d)"
    and R_invoked: "L \<le> lvl \<Longrightarrow> R n d (ed_call (Invoked lvl lid fn event) d)"
    and R_mark: "R n d (mark_at g i d)"
    and R_leave: "R n (enter d) e \<Longrightarrow> R (Suc n) d (leave e)"
    and R_cleanup: "ed_depth d = 0 \<Longrightarrow> group_at g d = Some eg \<Longrightarrow> R n d (set_group g (cleanupMarkedListeners eg) d)"
    and X_raise: "T \<Longrightarrow> R n (enter d) e \<Longrightarrow> X (Suc n) d e"
    and X_caught: "T \<Longrightarrow> X n d e \<Longrightarrow> R n d (ed_call (safe_report ''EventDispatcher::dispatch'' what) e)"
begin

text \<open>A callback: what it returns with is related, and what it throws with too (only the
  dispatch around it loses its place).\<close>

abbreviation prog_rel :: "nat \<Rightarrow> dispatcher \<Rightarrow> 'a ev_result \<Rightarrow> bool" where
  "prog_rel n d \<equiv> result_in (R n d) (\<lambda>e. T \<and> R n d e)"

abbreviation disp_rel :: "nat \<Rightarrow> dispatcher \<Rightarrow> 'a ev_result \<Rightarrow> bool" where
  "disp_rel n d \<equiv> result_in (R n d) (\<lambda>e. T \<and> X n d e)"

lemma then_rel: "R n d e \<Longrightarrow> prog_rel n e r \<Longrightarrow> prog_rel n d r"
  by (erule result_in_mono) (auto intro: R_trans)

lemma public_ops:
  "R n d (snd (ed_registerListener nm cb once d))"
  "R n d (snd (ed_removeListenerById nm lid d))"
  "R n d (snd (ed_removeListener nm d))"
  by (simp_all add: ed_registerListener_def ed_removeListenerById_def ed_removeListener_def
        R_refl R_add R_removeId R_remove)

lemma run_prog_rel:
  assumes disp: "\<And>event h d. disp_rel n d (disp event h d)"
  shows "prog_ok C T p \<Longrightarrow> prog_rel n d (run_prog disp p d)"
proof (induction p arbitrary: d)
  case (Dispatch nm event k)
  have "prog_rel n d (ed_dispatch disp event nm d)"
    using disp [of d event "hash_event_name nm"]
    by (cases "disp event (hash_event_name nm) d")
       (auto simp: ed_dispatch_def ev_safe_def R_refl intro: X_caught)
  with Dispatch show ?case
    by (cases "ed_dispatch disp event nm d") (auto intro: then_rel)
next
  case (ClearAll k)
  then show ?case by (auto simp: ed_clear_def intro: then_rel R_clear)
next
  case (Register nm cb once k)
  then show ?case by (auto simp: split_beta intro: then_rel [OF public_ops(1) [of n d nm cb once]])
next
  case (RemoveId nm lid k)
  then show ?case by (auto simp: split_beta intro: then_rel [OF public_ops(2) [of n d nm lid]])
next
  case (RemoveAll nm k)
  then show ?case by (auto simp: split_beta intro: then_rel [OF public_ops(3) [of n d nm]])
qed (auto simp: R_refl)

lemma invoke_rel:
  assumes "\<And>event h d. disp_rel n d (disp event h d)" "env_ok C T env" "L \<le> lvl"
  shows "prog_rel n d (invoke_listener disp env lvl event l d)"
proof (cases "le_callback l")
  case None
  then show ?thesis by (simp add: invoke_listener_def R_refl)
next
  case (Some fn)
  let ?e = "ed_call (Invoked lvl (le_id l) fn event) d"
  have "prog_rel n ?e (run_prog disp (env (ed_calls d) fn event) ?e)"
    by (rule run_prog_rel) (use assms in \<open>auto simp: env_ok_def\<close>)
  with Some show ?thesis
    by (simp add: invoke_listener_def then_rel [OF R_invoked [OF assms(3), of n d "le_id l" fn event]])
qed

lemma loop_rel:
  assumes "\<And>event h d. disp_rel n d (disp event h d)" "env_ok C T env" "L \<le> lvl"
  shows "prog_rel n d (listener_loop disp env lvl event g m i needs d)"
proof (induction m arbitrary: i needs d)
  case 0
  then show ?case by (simp add: R_refl)
next
  case (Suc m)
  show ?case
  proof (cases "listener_at g i d")
    case None
    then show ?thesis by simp
  next
    case (Some l)
    show ?thesis
    proof (cases "le_marked l")
      case True
      with Some Suc.IH show ?thesis by simp
    next
      case False
      have inv: "prog_rel n d (invoke_listener disp env lvl event l d)" by (rule invoke_rel [OF assms])
      show ?thesis
      proof (cases "invoke_listener disp env lvl event l d")
        case (Returned u e)
        with inv have "R n d e" by simp
        with Some False Returned Suc.IH show ?thesis
          by (auto split: option.splits intro: then_rel [of n d e] then_rel [OF R_trans [OF _ R_mark]])
      next
        case (Raised what e)
        with inv Some False show ?thesis by simp
      qed (use Some False in simp_all)
    qed
  qed
qed

lemma group_rel:
  assumes "\<And>event h d. disp_rel n d (disp event h d)" "env_ok C T env" "L \<le> lvl"
  shows "disp_rel (Suc n) d (dispatch_group disp env lvl event h d)"
proof (cases "ev_findGroup h d")
  case None
  then show ?thesis by (simp add: dispatch_group_def R_refl)
next
  case (Some g)
  show ?thesis
  proof (cases "group_at g d")
    case None
    with Some show ?thesis by (simp add: dispatch_group_def)
  next
    case eg: (Some eg)
    let ?r = "listener_loop disp env lvl event g (arr_size (eg_listeners eg)) 0 False (enter d)"
    have loop: "prog_rel n (enter d) ?r" by (rule loop_rel [OF assms])
    show ?thesis
    proof (cases ?r)
      case (Returned needs e)
      with loop have "R (Suc n) d (leave e)" by (auto intro: R_leave)
      with Some eg Returned show ?thesis
        by (auto simp: dispatch_group_def enter_def [symmetric] leave_def [symmetric] Let_def
            split: option.splits intro: R_trans R_cleanup)
    next
      case (Raised what e)
      with loop Some eg show ?thesis
        by (auto simp: dispatch_group_def enter_def [symmetric] Let_def intro: X_raise)
    qed (use Some eg in \<open>simp_all add: dispatch_group_def enter_def [symmetric] Let_def\<close>)
  qed
qed

lemma dispatch_rel: "env_ok C T env \<Longrightarrow> L \<le> lvl \<Longrightarrow> disp_rel n d (dispatchEvent env n lvl event h d)"
proof (induction n arbitrary: lvl event h d)
  case 0
  then show ?case by simp
next
  case (Suc n)
  show ?case by (simp, rule group_rel) (use Suc in auto)
qed

lemma callback_rel:
  "env_ok C T env \<Longrightarrow> L \<le> lvl \<Longrightarrow> prog_ok C T p \<Longrightarrow> prog_rel n d (run_prog (dispatchEvent env n lvl) p d)"
  by (rule run_prog_rel) (rule dispatch_rel)

lemma public_dispatch_rel:
  assumes "env_ok C T env" "L = 0"
  shows "result_in (R n d) (\<lambda>_. False) (ed_public_dispatch env n event nm d)"
  using dispatch_rel [OF assms(1), of 0 n d event "hash_event_name nm"] assms(2)
  by (cases "dispatchEvent env n 0 event (hash_event_name nm) d")
     (auto simp: ed_public_dispatch_def ed_dispatch_def ev_safe_def R_refl intro: X_caught)

end

end
