(* ===== verification/Event_Storage.thy ===== *)
theory Event_Storage
  imports Event_Frame
begin

text \<open>
  The dispatcher's storage as lists: the groups and their listeners in slot order, what each
  operation does to them, and the well-formedness of the storage, which every operation,
  callback and dispatch keeps.
\<close>

section \<open>Views\<close>

abbreviation glist :: "dispatcher \<Rightarrow> event_group list" where "glist d \<equiv> contents (ed_groups d)"
abbreviation llist :: "event_group \<Rightarrow> listener list" where "llist eg \<equiv> contents (eg_listeners eg)"

definition eg_ok :: "nat \<Rightarrow> event_group \<Rightarrow> bool" where
  "eg_ok ML eg \<longleftrightarrow> arr_rep owning (eg_listeners eg) (llist eg) \<and> arr_capacity (eg_listeners eg) = ML \<and>
     (\<forall>l\<in>set (llist eg). le_hash l = eg_hash eg \<and> le_id l \<noteq> 0 \<and> le_callback l \<noteq> None) \<and>
     (eg_active eg \<or> llist eg = [])"

definition active_hashes :: "event_group list \<Rightarrow> u32 list" where
  "active_hashes gs = map eg_hash (filter eg_active gs)"

definition ed_ok :: "dispatcher \<Rightarrow> bool" where
  "ed_ok d \<longleftrightarrow> arr_rep owning (ed_groups d) (glist d) \<and> (\<forall>eg\<in>set (glist d). eg_ok (ed_max_listeners d) eg) \<and>
     distinct (active_hashes (glist d)) \<and> ed_next_id d \<noteq> 0"

lemma traits_owning [simp]: "traits_ok owning" "\<not> triv_destroy owning" "\<not> triv_copy owning"
  by (simp_all add: traits_ok_def owning_def)

lemma arr_rep_update:
  assumes "arr_rep tr a xs" "i < length xs"
  shows "arr_rep tr (a\<lparr>arr_data := (arr_data a)[i := Some v]\<rparr>) (xs[i := v])"
  using assms by (auto simp: list_update_append map_update intro!: arr_repI elim!: arr_repE)

lemma owning_index:
  assumes "arr_rep owning a xs"
  shows "sa_index a i = (if i < length xs then Some (xs ! i) else None)"
proof -
  from assms obtain rest where r: "arr_data a = map Some xs @ rest" "arr_size a = length xs"
    "arr_capacity a = length xs + length rest" "set rest \<subseteq> {None}"
    by (auto elim: arr_repE)
  have "rest ! (i - length xs) = None" if "\<not> i < length xs" "i < length xs + length rest"
  proof -
    from that have "rest ! (i - length xs) \<in> set rest" by simp
    with r(4) show ?thesis by blast
  qed
  with r show ?thesis by (auto simp: sa_index_def nth_append)
qed

lemma group_at_view:
  "ed_ok d \<Longrightarrow> group_at g d = (if g < length (glist d) then Some (glist d ! g) else None)"
  by (simp add: group_at_def owning_index ed_ok_def)

lemma eg_ok_nth: "ed_ok d \<Longrightarrow> g < length (glist d) \<Longrightarrow> eg_ok (ed_max_listeners d) (glist d ! g)"
  by (simp add: ed_ok_def)

lemma listener_at_view:
  assumes "ed_ok d"
  shows "listener_at g i d =
    (if g < length (glist d) \<and> i < length (llist (glist d ! g)) then Some (llist (glist d ! g) ! i) else None)"
  using assms eg_ok_nth [OF assms, of g]
  by (auto simp: listener_at_def group_at_view owning_index eg_ok_def)

lemma set_group_rep:
  assumes "ed_ok d" "g < length (glist d)"
  shows "arr_rep owning (ed_groups (set_group g eg d)) ((glist d)[g := eg])"
  using assms by (auto simp: set_group_def ed_ok_def intro: arr_rep_update)

lemma glist_set_group:
  "ed_ok d \<Longrightarrow> g < length (glist d) \<Longrightarrow> glist (set_group g eg d) = (glist d)[g := eg]"
  by (rule arr_rep_contents) (rule set_group_rep)

lemma set_group_frame [simp]:
  "ed_next_id (set_group g eg d) = ed_next_id d" "ed_depth (set_group g eg d) = ed_depth d"
  "ed_max_listeners (set_group g eg d) = ed_max_listeners d" "ed_calls (set_group g eg d) = ed_calls d"
  "arr_capacity (ed_groups (set_group g eg d)) = arr_capacity (ed_groups d)"
  by (simp_all add: set_group_def)

lemma ed_call_frame [simp]:
  "ed_groups (ed_call c d) = ed_groups d" "ed_next_id (ed_call c d) = ed_next_id d"
  "ed_depth (ed_call c d) = ed_depth d" "ed_max_listeners (ed_call c d) = ed_max_listeners d"
  by (simp_all add: ed_call_def)

lemma ed_ok_call [simp]: "ed_ok (ed_call c d) \<longleftrightarrow> ed_ok d"
  by (simp add: ed_ok_def)

text \<open>Replacing one group by another with the same hash.\<close>

lemma active_hashes_update:
  assumes "distinct (active_hashes gs)" "g < length gs" "eg_hash eg = eg_hash (gs ! g)"
    "eg_active eg \<longrightarrow> eg_active (gs ! g)"
  shows "distinct (active_hashes (gs[g := eg]))"
proof -
  have *: "gs = take g gs @ gs ! g # drop (Suc g) gs" using assms(2) by (rule id_take_nth_drop)
  have "gs[g := eg] = take g gs @ eg # drop (Suc g) gs" using assms(2) by (rule upd_conv_take_nth_drop)
  moreover have "distinct (active_hashes (take g gs @ gs ! g # drop (Suc g) gs))" using assms(1) * by simp
  ultimately show ?thesis using assms(3,4) by (auto simp: active_hashes_def split: if_splits)
qed

lemma ed_ok_set_group:
  assumes "ed_ok d" "g < length (glist d)" "eg_ok (ed_max_listeners d) eg" "eg_hash eg = eg_hash (glist d ! g)"
    "eg_active eg \<longrightarrow> eg_active (glist d ! g)"
  shows "ed_ok (set_group g eg d)"
proof -
  have "\<forall>e\<in>set ((glist d)[g := eg]). eg_ok (ed_max_listeners d) e"
    using assms(1,3) set_update_subset_insert [of "glist d" g eg] by (auto simp: ed_ok_def)
  with assms set_group_rep [OF assms(1,2), of eg] active_hashes_update [of "glist d" g eg]
  show ?thesis by (simp add: ed_ok_def glist_set_group)
qed

section \<open>The scans\<close>


lemma scan_groups_Some:
  "scan_groups h n gs = Some j \<Longrightarrow>
     \<exists>i<length gs. j = n + i \<and> eg_active (gs ! i) \<and> eg_hash (gs ! i) = h"
proof (induction gs arbitrary: n)
  case Nil
  then show ?case by simp
next
  case (Cons eg gs)
  show ?case
  proof (cases "eg_active eg \<and> eg_hash eg = h")
    case True
    with Cons.prems show ?thesis by auto
  next
    case False
    with Cons.prems Cons.IH [of "Suc n"] obtain i where
      "i < length gs" "j = Suc n + i" "eg_active (gs ! i)" "eg_hash (gs ! i) = h"
      by (auto split: if_splits)
    then show ?thesis by (intro exI [of _ "Suc i"]) simp
  qed
qed

lemma scan_groups_None:
  "scan_groups h n gs = None \<longleftrightarrow> (\<forall>eg\<in>set gs. \<not> (eg_active eg \<and> eg_hash eg = h))"
  by (induction gs arbitrary: n) auto

lemma findGroup_Some:
  "ev_findGroup h d = Some g \<Longrightarrow> g < length (glist d) \<and> eg_active (glist d ! g) \<and> eg_hash (glist d ! g) = h"
  by (auto simp: ev_findGroup_def dest!: scan_groups_Some)

lemma findGroup_None: "ev_findGroup h d = None \<longleftrightarrow> h \<notin> set (active_hashes (glist d))"
  by (auto simp: ev_findGroup_def scan_groups_None active_hashes_def)

lemma scan_listeners_Some:
  "scan_listeners lid n ls = Some j \<Longrightarrow>
     \<exists>i<length ls. j = n + i \<and> le_id (ls ! i) = lid \<and> (\<forall>k<i. le_id (ls ! k) \<noteq> lid)"
proof (induction ls arbitrary: n)
  case Nil
  then show ?case by simp
next
  case (Cons l ls)
  show ?case
  proof (cases "le_id l = lid")
    case True
    with Cons.prems show ?thesis by auto
  next
    case False
    with Cons.prems Cons.IH [of "Suc n"] obtain i where
      "i < length ls" "j = Suc n + i" "le_id (ls ! i) = lid" "\<forall>k<i. le_id (ls ! k) \<noteq> lid"
      by auto
    with False show ?thesis by (intro exI [of _ "Suc i"]) (auto simp: nth_Cons split: nat.splits)
  qed
qed

lemma scan_listeners_None: "scan_listeners lid n ls = None \<longleftrightarrow> lid \<notin> le_id ` set ls"
  by (induction ls arbitrary: n) auto

section \<open>Marking and compaction\<close>

lemma marked_again [simp]: "le_marked l \<Longrightarrow> mark_for_removal l = l"
  by (simp add: mark_for_removal_def)

lemma mark_fields [simp]:
  "le_hash (mark_for_removal l) = le_hash l" "le_id (mark_for_removal l) = le_id l"
  "le_callback (mark_for_removal l) = le_callback l" "le_once (mark_for_removal l) = le_once l"
  "le_marked (mark_for_removal l)"
  by (simp_all add: mark_for_removal_def)

lemma mark_loop_map:
  "mark_loop (map Some ls) = (live_count ls, map (\<lambda>l. Some (mark_for_removal l)) ls)"
  by (induction ls) (auto simp: live_count_def)

lemma eg_mark_rep:
  assumes "arr_rep owning (eg_listeners eg) (llist eg)" "i < length (llist eg)"
  shows "arr_rep owning (eg_listeners (eg_mark i eg)) ((llist eg)[i := mark_for_removal (llist eg ! i)])"
  using assms arr_rep_update [OF assms, of "mark_for_removal (llist eg ! i)"]
  by (simp add: eg_mark_def arr_rep_nth)

text \<open>Kept listeners in front, moved-from or marked ones behind them, the rest still to be read.\<close>

lemma compact_loop_spec:
  "\<exists>js'. compact_loop (length zs) (length ys + length js) (length ys) (map Some (ys @ js @ zs) @ rest) =
     (length (ys @ filter (\<lambda>l. \<not> le_marked l) zs),
      map Some (ys @ filter (\<lambda>l. \<not> le_marked l) zs @ js') @ rest) \<and>
     length js' + length (filter (\<lambda>l. \<not> le_marked l) zs) = length js + length zs"
proof (induction zs arbitrary: ys js)
  case Nil
  then show ?case by auto
next
  case (Cons z zs)
  let ?d = "map Some (ys @ js @ z # zs) @ rest"
  have z: "?d ! (length ys + length js) = Some z" by (simp add: nth_append)
  show ?case
  proof (cases "le_marked z")
    case True
    with Cons.IH [of ys "js @ [z]"] z show ?thesis by simp
  next
    case False
    show ?thesis
    proof (cases js)
      case Nil
      with Cons.IH [of "ys @ [z]" "[]"] False z show ?thesis by simp
    next
      case (Cons j js')
      have "?d[length ys := Some z, length ys + length js := Some (le_moved_from z)] =
            map Some ((ys @ [z]) @ (js' @ [le_moved_from z]) @ zs) @ rest"
        by (simp add: Cons list_update_append)
      with Cons.IH [of "ys @ [z]" "js' @ [le_moved_from z]"] False z show ?thesis
        by (simp add: Cons)
    qed
  qed
qed

lemma pop_until_rep:
  "arr_rep owning a xs \<Longrightarrow> w \<le> length xs \<Longrightarrow> length xs \<le> w + n \<Longrightarrow>
   arr_rep owning (pop_until n w a) (take w xs)"
proof (induction n arbitrary: a xs)
  case 0
  then show ?case by simp
next
  case (Suc n)
  show ?case
  proof (cases "w < length xs")
    case True
    have "arr_rep owning (pop_until n w (sa_pop_back owning a)) (take w (butlast xs))"
      by (rule Suc.IH) (use Suc.prems True in \<open>auto intro: sa_pop_back_rep\<close>)
    with True Suc.prems show ?thesis by (simp add: arr_rep_size take_butlast)
  next
    case False
    with Suc.prems show ?thesis by (simp add: arr_rep_size)
  qed
qed

lemma pop_until_capacity [simp]: "arr_capacity (pop_until n w a) = arr_capacity a"
  by (induction n arbitrary: a) (simp_all add: sa_pop_back_def)

lemma cleanup_rep:
  assumes "arr_rep owning (eg_listeners eg) (llist eg)"
  shows "arr_rep owning (eg_listeners (cleanupMarkedListeners eg)) (filter (\<lambda>l. \<not> le_marked l) (llist eg))"
proof -
  let ?xs = "llist eg" and ?a = "eg_listeners eg"
  from assms obtain rest where r: "arr_data ?a = map Some ?xs @ rest" "arr_size ?a = length ?xs"
    "arr_capacity ?a = length ?xs + length rest" "set rest \<subseteq> {None}"
    by (auto elim: arr_repE)
  from compact_loop_spec [of ?xs "[]" "[]" rest] obtain js where
    c: "compact_loop (length ?xs) 0 0 (map Some ?xs @ rest) =
      (length (filter (\<lambda>l. \<not> le_marked l) ?xs), map Some (filter (\<lambda>l. \<not> le_marked l) ?xs @ js) @ rest)"
    and len: "length js + length (filter (\<lambda>l. \<not> le_marked l) ?xs) = length ?xs"
    by auto
  have rep: "arr_rep owning (?a\<lparr>arr_data := map Some (filter (\<lambda>l. \<not> le_marked l) ?xs @ js) @ rest\<rparr>)
    (filter (\<lambda>l. \<not> le_marked l) ?xs @ js)"
    using r len by (auto intro!: arr_repI)
  have "arr_rep owning (pop_until (length ?xs) (length (filter (\<lambda>l. \<not> le_marked l) ?xs))
      (?a\<lparr>arr_data := map Some (filter (\<lambda>l. \<not> le_marked l) ?xs @ js) @ rest\<rparr>))
    (take (length (filter (\<lambda>l. \<not> le_marked l) ?xs)) (filter (\<lambda>l. \<not> le_marked l) ?xs @ js))"
    by (rule pop_until_rep [OF rep]) (use len in auto)
  with r c show ?thesis by (simp add: cleanupMarkedListeners_def Let_def)
qed

lemma llist_cleanup:
  "arr_rep owning (eg_listeners eg) (llist eg) \<Longrightarrow>
   llist (cleanupMarkedListeners eg) = filter (\<lambda>l. \<not> le_marked l) (llist eg)"
  by (rule arr_rep_contents) (rule cleanup_rep)

lemma cleanup_fields:
  "eg_hash (cleanupMarkedListeners eg) = eg_hash eg"
  "arr_capacity (eg_listeners (cleanupMarkedListeners eg)) = arr_capacity (eg_listeners eg)"
  "arr_rep owning (eg_listeners eg) (llist eg) \<Longrightarrow>
   eg_active (cleanupMarkedListeners eg) = (eg_active eg \<and> filter (\<lambda>l. \<not> le_marked l) (llist eg) \<noteq> [])"
  using arr_rep_size [OF cleanup_rep [of eg]]
  by (simp_all add: cleanupMarkedListeners_def split_beta Let_def sa_empty_def)

end
