(* ===== verification/Event_Invariant.thy ===== *)
theory Event_Invariant
  imports Event_Storage
begin

text \<open>
  The three interpretations of \<open>ev_frame\<close>: every dispatch keeps the storage well formed, the
  dispatch depth counts the exceptions that left a dispatch, and while a dispatch is running
  groups and listeners only grow and marks are only set.
\<close>

section \<open>Growth\<close>

definition l_grows :: "listener \<Rightarrow> listener \<Rightarrow> bool" where
  "l_grows l m \<longleftrightarrow> le_hash m = le_hash l \<and> le_id m = le_id l \<and> le_callback m = le_callback l \<and>
     le_once m = le_once l \<and> (le_marked l \<longrightarrow> le_marked m)"

definition eg_grows :: "event_group \<Rightarrow> event_group \<Rightarrow> bool" where
  "eg_grows eg fg \<longleftrightarrow> eg_hash fg = eg_hash eg \<and> eg_active fg = eg_active eg \<and>
     length (llist eg) \<le> length (llist fg) \<and> (\<forall>i<length (llist eg). l_grows (llist eg ! i) (llist fg ! i))"

definition grows :: "dispatcher \<Rightarrow> dispatcher \<Rightarrow> bool" where
  "grows d e \<longleftrightarrow> length (glist d) \<le> length (glist e) \<and>
     (\<forall>g<length (glist d). eg_grows (glist d ! g) (glist e ! g))"

lemma l_grows_refl [simp]: "l_grows l l" by (simp add: l_grows_def)
lemma eg_grows_refl [simp]: "eg_grows eg eg" by (simp add: eg_grows_def)
lemma grows_refl [simp]: "grows d d" by (simp add: grows_def)

lemma l_grows_trans: "l_grows l m \<Longrightarrow> l_grows m k \<Longrightarrow> l_grows l k" by (simp add: l_grows_def)

lemma eg_grows_trans: "eg_grows a b \<Longrightarrow> eg_grows b c \<Longrightarrow> eg_grows a c"
  unfolding eg_grows_def by (auto intro: l_grows_trans)

lemma grows_trans: "grows d e \<Longrightarrow> grows e f \<Longrightarrow> grows d f"
  unfolding grows_def by (auto intro: eg_grows_trans)

lemma grows_call [simp]: "grows d (ed_call c e) = grows d e" "grows (ed_call c d) e = grows d e"
  by (simp_all add: grows_def)

lemma grows_set_group:
  assumes "ed_ok d" "g < length (glist d)" "eg_grows (glist d ! g) eg"
  shows "grows d (set_group g eg d)"
  using assms by (auto simp: grows_def glist_set_group nth_list_update)

section \<open>One operation at a time\<close>

lemma getOrCreate_cases:
  assumes "ed_ok d"
  obtains (full) "ev_getOrCreateGroup h d = (None, ed_call (EvReport ''EventStorage'' ''Max events reached'' WARNING) d)"
      "h \<notin> set (active_hashes (glist d))" "length (glist d) = arr_capacity (ed_groups d)"
  | (found) g where "ev_getOrCreateGroup h d = (Some g, d)" "g < length (glist d)" "eg_hash (glist d ! g) = h"
      "eg_active (glist d ! g)"
  | (new) e where "ev_getOrCreateGroup h d = (Some (length (glist d)), e)" "ed_ok e"
      "glist e = glist d @ [\<lparr>eg_hash = h, eg_active = True, eg_listeners = StaticArray (ed_max_listeners d)\<rparr>]"
      "h \<notin> set (active_hashes (glist d))" "ed_next_id e = ed_next_id d" "ed_depth e = ed_depth d"
      "ed_max_listeners e = ed_max_listeners d" "ed_calls e = ed_calls d"
      "arr_capacity (ed_groups e) = arr_capacity (ed_groups d)" "length (glist d) < arr_capacity (ed_groups d)"
proof (cases "ev_findGroup h d")
  case (Some g)
  with that(2) [of g] findGroup_Some [OF Some] show ?thesis by (simp add: ev_getOrCreateGroup_def)
next
  case None
  then have h: "h \<notin> set (active_hashes (glist d))" by (simp add: findGroup_None)
  have rep: "arr_rep owning (ed_groups d) (glist d)" using assms by (simp add: ed_ok_def)
  let ?eg = "\<lparr>eg_hash = h, eg_active = True, eg_listeners = StaticArray (ed_max_listeners d) :: listener arr\<rparr>"
  let ?e = "d\<lparr>ed_groups := snd (sa_push_back ?eg (ed_groups d))\<rparr>"
  show ?thesis
  proof (cases "length (glist d) < arr_capacity (ed_groups d)")
    case False
    with sa_full_rep [OF rep] arr_rep_le_capacity [OF rep] None h that(1) show ?thesis
      by (simp add: ev_getOrCreateGroup_def)
  next
    case True
    from sa_push_back_rep [OF rep, of ?eg] True
    have rep': "arr_rep owning (ed_groups ?e) (glist d @ [?eg])" by simp
    then have gl: "glist ?e = glist d @ [?eg]" by (rule arr_rep_contents)
    have "eg_ok (ed_max_listeners d) ?eg"
      by (simp add: eg_ok_def StaticArray_def arr_rep_contents [OF arr_rep_ArrayBase [of owning]])
         (simp add: ArrayBase_def)
    with assms h rep' gl have "ed_ok ?e" by (auto simp: ed_ok_def active_hashes_def)
    moreover have "ev_getOrCreateGroup h d = (Some (length (glist d)), ?e)"
      using None True arr_rep_size [OF rep] sa_full_rep [OF rep]
      by (simp add: ev_getOrCreateGroup_def sa_size_def Let_def)
    ultimately show ?thesis using that(3) gl h True
      by (simp add: sa_push_back_def split: if_splits)
  qed
qed

text \<open>What \<open>addListener\<close> leaves, on each branch.\<close>

lemma eg_ok_add:
  assumes "eg_ok ML eg" "eg_active eg" "\<not> sa_full (eg_listeners eg)" "le_hash l = eg_hash eg" "le_id l \<noteq> 0"
    "le_callback l \<noteq> None"
  defines "fg \<equiv> eg\<lparr>eg_listeners := snd (sa_push_back l (eg_listeners eg))\<rparr>"
  shows "eg_ok ML fg \<and> eg_grows eg fg \<and> llist fg = llist eg @ [l] \<and> length (llist eg) < ML"
proof -
  have rep: "arr_rep owning (eg_listeners eg) (llist eg)" using assms by (simp add: eg_ok_def)
  have room: "length (llist eg) < arr_capacity (eg_listeners eg)"
    using assms(3) sa_full_rep [OF rep] arr_rep_le_capacity [OF rep] by simp
  with sa_push_back_rep [OF rep, of l] have rep': "arr_rep owning (eg_listeners fg) (llist eg @ [l])"
    by (simp add: fg_def)
  then have ll: "llist fg = llist eg @ [l]" by (rule arr_rep_contents)
  have "arr_capacity (eg_listeners fg) = arr_capacity (eg_listeners eg)"
    by (simp add: fg_def sa_push_back_def)
  with assms rep' room ll show ?thesis
    by (auto simp: eg_ok_def eg_grows_def fg_def nth_append)
qed

definition bump_id :: "dispatcher \<Rightarrow> dispatcher" where
  "bump_id d = d\<lparr>ed_next_id := (if ed_next_id d + 1 = 0 then 1 else ed_next_id d + 1)\<rparr>"

lemma bump_id_frame [simp]:
  "ed_groups (bump_id d) = ed_groups d" "ed_depth (bump_id d) = ed_depth d"
  "ed_max_listeners (bump_id d) = ed_max_listeners d" "ed_calls (bump_id d) = ed_calls d"
  "ed_ok d \<Longrightarrow> ed_ok (bump_id d)"
  by (auto simp: bump_id_def ed_ok_def)

lemma grows_bump [simp]: "grows (bump_id d) e = grows d e" "grows d (bump_id e) = grows d e"
  by (simp_all add: grows_def)

lemma add_cases:
  assumes "ed_ok d"
  obtains (no_callback) "cb = None" "addListener h cb once d = (0, d)"
  | (no_group) "cb \<noteq> None" "h \<notin> set (active_hashes (glist d))" "length (glist d) = arr_capacity (ed_groups d)"
      "addListener h cb once d = (0, ed_call (EvReport ''EventStorage'' ''Max events reached'' WARNING) (bump_id d))"
  | (full) g e where "cb \<noteq> None" "ev_getOrCreateGroup h (bump_id d) = (Some g, e)" "ed_ok e" "grows d e"
      "ed_depth e = ed_depth d" "ed_calls e = ed_calls d" "g < length (glist e)"
      "length (llist (glist e ! g)) = ed_max_listeners d"
      "addListener h cb once d = (0, ed_call (EvReport ''BaseEventDispatcher'' ''Listeners full'' WARNING) e)"
  | (added) g e eg where "cb \<noteq> None" "ev_getOrCreateGroup h (bump_id d) = (Some g, e)" "ed_ok e" "grows d e"
      "ed_depth e = ed_depth d" "ed_calls e = ed_calls d" "g < length (glist e)" "eg_hash (glist e ! g) = h"
      "eg_active (glist e ! g)" "llist eg = llist (glist e ! g) @ [ListenerEntry h (ed_next_id d) cb once]"
      "eg_hash eg = h" "eg_active eg" "length (llist (glist e ! g)) < ed_max_listeners d"
      "eg_ok (ed_max_listeners e) eg" "eg_grows (glist e ! g) eg"
      "addListener h cb once d = (ed_next_id d, set_group g eg e)"
proof (cases "cb = None")
  case True
  then show ?thesis by (rule no_callback) (simp add: True addListener_def)
next
  case False
  have ok: "ed_ok (bump_id d)" using assms by simp
  have nz: "ed_next_id d \<noteq> 0" using assms by (simp add: ed_ok_def)
  have unf: "addListener h cb once d =
      (let (group, e) = ev_getOrCreateGroup h (bump_id d) in case group of None \<Rightarrow> (0, e)
       | Some g \<Rightarrow> (case group_at g e of None \<Rightarrow> (0, e) | Some eg \<Rightarrow>
           if sa_full (eg_listeners eg)
           then (0, ed_call (EvReport ''BaseEventDispatcher'' ''Listeners full'' WARNING) e)
           else (ed_next_id d, set_group g (eg\<lparr>eg_listeners :=
                  snd (sa_push_back (ListenerEntry h (ed_next_id d) cb once) (eg_listeners eg))\<rparr>) e)))"
    by (simp only: addListener_def bump_id_def Let_def if_not_P [OF False])
  have last_step: thesis
    if g: "ev_getOrCreateGroup h (bump_id d) = (Some g, e)" and e: "ed_ok e" "grows d e" "ed_depth e = ed_depth d"
      "ed_calls e = ed_calls d" "g < length (glist e)" "eg_hash (glist e ! g) = h" "eg_active (glist e ! g)"
      "ed_max_listeners e = ed_max_listeners d"
    for g e
  proof -
    let ?eg = "glist e ! g" and ?l = "ListenerEntry h (ed_next_id d) cb once"
    let ?fg = "?eg\<lparr>eg_listeners := snd (sa_push_back ?l (eg_listeners ?eg))\<rparr>"
    have ok': "eg_ok (ed_max_listeners d) ?eg" using eg_ok_nth [OF e(1) e(5)] e(8) by simp
    have at: "group_at g e = Some ?eg" using e by (simp add: group_at_view)
    show thesis
    proof (cases "sa_full (eg_listeners ?eg)")
      case True
      with ok' have "length (llist ?eg) = ed_max_listeners d"
        by (auto simp: eg_ok_def sa_full_rep)
      with True g e at False unf full show thesis by simp
    next
      case notfull: False
      have l: "le_hash ?l = eg_hash ?eg" "le_id ?l \<noteq> 0" "le_callback ?l \<noteq> None"
        using e(6) nz False by (simp_all add: ListenerEntry_def)
      from eg_ok_add [OF ok' e(7) notfull l] added [of g e ?fg] g e at False unf notfull
      show thesis by simp
    qed
  qed
  from ok show ?thesis
  proof (cases rule: getOrCreate_cases [where h = h])
    case full
    with no_group False unf show ?thesis by simp
  next
    case (found g)
    with last_step [of g "bump_id d"] ok show ?thesis by simp
  next
    case (new e)
    have "grows d e" using new by (auto simp: grows_def nth_append)
    with last_step [OF new(1) new(2)] new show ?thesis by simp
  qed
qed

lemma add_ok:
  assumes "ed_ok d"
  shows "ed_ok (snd (addListener h cb once d)) \<and> grows d (snd (addListener h cb once d)) \<and>
    ed_depth (snd (addListener h cb once d)) = ed_depth d"
  using assms
proof (cases rule: add_cases [where h = h and cb = cb and once = once])
  case (added g e eg)
  then have "ed_ok (set_group g eg e)" "grows e (set_group g eg e)"
    by (auto intro: ed_ok_set_group grows_set_group)
  with added show ?thesis by (auto intro: grows_trans)
qed (use assms in auto)


lemma eg_mark_ok:
  assumes "eg_ok ML eg" "i < length (llist eg)"
  shows "eg_ok ML (eg_mark i eg) \<and> eg_grows eg (eg_mark i eg) \<and>
    llist (eg_mark i eg) = (llist eg)[i := mark_for_removal (llist eg ! i)]"
proof -
  have rep: "arr_rep owning (eg_listeners (eg_mark i eg)) ((llist eg)[i := mark_for_removal (llist eg ! i)])"
    by (rule eg_mark_rep) (use assms in \<open>simp_all add: eg_ok_def\<close>)
  then have ll: "llist (eg_mark i eg) = (llist eg)[i := mark_for_removal (llist eg ! i)]" by (rule arr_rep_contents)
  have fields: "eg_hash (eg_mark i eg) = eg_hash eg" "eg_active (eg_mark i eg) = eg_active eg"
    "arr_capacity (eg_listeners (eg_mark i eg)) = arr_capacity (eg_listeners eg)"
    by (simp_all add: eg_mark_def)
  have "le_hash l = eg_hash eg \<and> le_id l \<noteq> 0 \<and> le_callback l \<noteq> None"
    if "l \<in> set ((llist eg)[i := mark_for_removal (llist eg ! i)])" for l
  proof -
    from that set_update_subset_insert have "l = mark_for_removal (llist eg ! i) \<or> l \<in> set (llist eg)" by fast
    with assms show ?thesis by (auto simp: eg_ok_def)
  qed
  with assms rep ll fields show ?thesis
    by (auto simp: eg_ok_def eg_grows_def nth_list_update l_grows_def)
qed

lemma mark_at_ok:
  assumes "ed_ok d" "g < length (glist d)" "i < length (llist (glist d ! g))"
  shows "ed_ok (mark_at g i d) \<and> grows d (mark_at g i d) \<and> ed_depth (mark_at g i d) = ed_depth d \<and>
    mark_at g i d = set_group g (eg_mark i (glist d ! g)) d"
proof -
  from eg_mark_ok [OF eg_ok_nth [OF assms(1,2)] assms(3)]
  have "eg_ok (ed_max_listeners d) (eg_mark i (glist d ! g))" "eg_grows (glist d ! g) (eg_mark i (glist d ! g))"
    by auto
  with assms show ?thesis
    by (auto simp: mark_at_def group_at_view eg_grows_def intro!: ed_ok_set_group grows_set_group)
qed

lemma mark_at_out:
  assumes "ed_ok d" "\<not> (g < length (glist d) \<and> i < length (llist (glist d ! g)))"
  shows "mark_at g i d = d"
proof (cases "g < length (glist d)")
  case False
  with assms show ?thesis by (simp add: mark_at_def group_at_view)
next
  case True
  let ?eg = "glist d ! g"
  have rep: "arr_rep owning (eg_listeners ?eg) (llist ?eg)"
    using eg_ok_nth [OF assms(1) True] by (simp add: eg_ok_def)
  have "(arr_data (eg_listeners ?eg))[i := map_option mark_for_removal (arr_data (eg_listeners ?eg) ! i)] =
      arr_data (eg_listeners ?eg)"
  proof (cases "i < length (arr_data (eg_listeners ?eg))")
    case inside: True
    with owning_index [OF rep, of i] assms(2) True rep have "arr_data (eg_listeners ?eg) ! i = None"
      by (auto simp: sa_index_def elim!: arr_repE split: if_splits)
    then show ?thesis by (simp add: list_update_same_conv inside)
  next
    case False
    then show ?thesis by (simp add: list_update_beyond)
  qed
  then have "eg_mark i ?eg = ?eg" by (simp add: eg_mark_def)
  moreover have "set_group g ?eg d = d"
  proof -
    have "arr_data (ed_groups d) ! g = Some ?eg"
      using assms(1) True by (auto simp: ed_ok_def intro: arr_rep_nth)
    then have "(arr_data (ed_groups d))[g := Some ?eg] = arr_data (ed_groups d)" by (metis list_update_id)
    then show ?thesis by (simp add: set_group_def)
  qed
  ultimately show ?thesis using assms(1) True by (simp add: mark_at_def group_at_view)
qed

lemma mark_at_frame [simp]:
  "ed_depth (mark_at g i d) = ed_depth d" "ed_calls (mark_at g i d) = ed_calls d"
  "ed_next_id (mark_at g i d) = ed_next_id d" "ed_max_listeners (mark_at g i d) = ed_max_listeners d"
  "arr_capacity (ed_groups (mark_at g i d)) = arr_capacity (ed_groups d)"
  by (simp_all add: mark_at_def split: option.splits)

lemma mark_any_ok: "ed_ok d \<Longrightarrow> ed_ok (mark_at g i d) \<and> grows d (mark_at g i d)"
  using mark_at_ok [of d g i] mark_at_out [of d g i] by (cases "g < length (glist d) \<and> i < length (llist (glist d ! g))") auto

text \<open>The listeners of a group without the one at \<open>i\<close>.\<close>

lemma eg_erase_ok:
  assumes "eg_ok ML eg" "i < length (llist eg)" "eg_active eg"
  defines "fg \<equiv> eg\<lparr>eg_listeners := snd (sa_erase_it owning (int i) (eg_listeners eg))\<rparr>"
  shows "eg_ok ML fg \<and> llist fg = take i (llist eg) @ drop (Suc i) (llist eg)"
proof -
  have rep: "arr_rep owning (eg_listeners eg) (llist eg)" using assms by (simp add: eg_ok_def)
  have "arr_rep owning (eg_listeners fg) (take i (llist eg) @ drop (Suc i) (llist eg))"
    using sa_erase_rep [OF rep assms(2)] assms(2) arr_rep_size [OF rep]
    by (simp add: fg_def sa_erase_it_def)
  moreover from this have "llist fg = take i (llist eg) @ drop (Suc i) (llist eg)" by (rule arr_rep_contents)
  moreover have "arr_capacity (eg_listeners fg) = arr_capacity (eg_listeners eg)"
    by (simp add: fg_def sa_erase_it_def sa_erase_def Let_def)
  ultimately show ?thesis using assms
    by (auto simp: eg_ok_def fg_def dest: in_set_takeD in_set_dropD)
qed

text \<open>What \<open>removeListenerById\<close> leaves, on each branch.\<close>

lemma removeId_cases:
  assumes "ed_ok d"
  obtains (unknown) "removeListenerById h lid d = (False, d)"
      "\<And>g. ev_findGroup h d = Some g \<Longrightarrow> lid \<notin> le_id ` set (llist (glist d ! g))"
  | (deferred) g i where "ev_findGroup h d = Some g" "g < length (glist d)" "i < length (llist (glist d ! g))"
      "le_id (llist (glist d ! g) ! i) = lid" "0 < ed_depth d" "\<forall>k<i. le_id (llist (glist d ! g) ! k) \<noteq> lid"
      "removeListenerById h lid d = (True, mark_at g i d)"
  | (erased) g i eg where "ev_findGroup h d = Some g" "g < length (glist d)" "i < length (llist (glist d ! g))"
      "le_id (llist (glist d ! g) ! i) = lid" "ed_depth d = 0" "\<forall>k<i. le_id (llist (glist d ! g) ! k) \<noteq> lid"
      "eg_ok (ed_max_listeners d) eg" "llist eg = take i (llist (glist d ! g)) @ drop (Suc i) (llist (glist d ! g))"
      "eg_hash eg = h" "eg_hash (glist d ! g) = h" "eg_active eg" "eg_active (glist d ! g)"
      "removeListenerById h lid d = (True, set_group g eg d)"
proof (cases "ev_findGroup h d")
  case None
  with unknown show ?thesis by (simp add: removeListenerById_def)
next
  case (Some g)
  from findGroup_Some [OF Some] have g: "g < length (glist d)" "eg_active (glist d ! g)" "eg_hash (glist d ! g) = h"
    by auto
  show ?thesis
  proof (cases "scan_listeners lid 0 (llist (glist d ! g))")
    case None
    with unknown Some g assms show ?thesis
      by (simp add: removeListenerById_def group_at_view scan_listeners_None)
  next
    case scan: (Some i)
    from scan_listeners_Some [OF this] have i: "i < length (llist (glist d ! g))"
      "le_id (llist (glist d ! g) ! i) = lid" "\<forall>k<i. le_id (llist (glist d ! g) ! k) \<noteq> lid" by auto
    show ?thesis
    proof (cases "0 < ed_depth d")
      case True
      with deferred Some g i scan assms show ?thesis
        by (simp add: removeListenerById_def group_at_view)
    next
      case False
      then have z: "ed_depth d = 0" by (simp add: word_gt_0)
      let ?fg = "(glist d ! g)\<lparr>eg_listeners := snd (sa_erase_it owning (int i) (eg_listeners (glist d ! g)))\<rparr>"
      from eg_erase_ok [OF eg_ok_nth [OF assms g(1)] i(1) g(2)]
      have fg: "eg_ok (ed_max_listeners d) ?fg" "llist ?fg = take i (llist (glist d ! g)) @ drop (Suc i) (llist (glist d ! g))"
        by auto
      have "removeListenerById h lid d = (True, set_group g ?fg d)"
        using Some g scan assms z by (simp add: removeListenerById_def group_at_view)
      with fg g show ?thesis by (intro erased [OF Some g(1) i(1,2) z i(3), of ?fg]) simp_all
    qed
  qed
qed

lemma removeId_ok:
  assumes "ed_ok d"
  shows "ed_ok (snd (removeListenerById h lid d)) \<and> ed_depth (snd (removeListenerById h lid d)) = ed_depth d \<and>
    (0 < ed_depth d \<longrightarrow> grows d (snd (removeListenerById h lid d)))"
  using assms
proof (cases rule: removeId_cases [where h = h and lid = lid])
  case unknown
  with assms show ?thesis by simp
next
  case (deferred g i)
  with mark_any_ok [OF assms, of g i] show ?thesis by simp
next
  case (erased g i eg)
  with assms show ?thesis by (auto intro: ed_ok_set_group)
qed

text \<open>What \<open>removeListener\<close> leaves, on each branch.\<close>

lemma eg_markall_ok:
  assumes "eg_ok ML eg"
  defines "a \<equiv> eg_listeners eg"
  defines "fg \<equiv> eg\<lparr>eg_listeners := a\<lparr>arr_data := snd (mark_loop (take (arr_size a) (arr_data a))) @
                      drop (arr_size a) (arr_data a)\<rparr>\<rparr>"
  shows "eg_ok ML fg \<and> eg_grows eg fg \<and> llist fg = map mark_for_removal (llist eg) \<and>
    fst (mark_loop (take (arr_size a) (arr_data a))) = live_count (llist eg)"
proof -
  have rep: "arr_rep owning a (llist eg)" using assms by (simp add: eg_ok_def)
  from rep obtain rest where r: "arr_data a = map Some (llist eg) @ rest" "arr_size a = length (llist eg)"
    "arr_capacity a = length (llist eg) + length rest" "set rest \<subseteq> {None}"
    by (auto elim: arr_repE)
  have "arr_rep owning (eg_listeners fg) (map mark_for_removal (llist eg))"
    using r by (auto simp: fg_def mark_loop_map intro!: arr_repI)
  moreover from this have "llist fg = map mark_for_removal (llist eg)" by (rule arr_rep_contents)
  ultimately show ?thesis using assms(1) r
    by (auto simp: eg_ok_def eg_grows_def l_grows_def fg_def a_def mark_loop_map)
qed

lemma eg_clear_ok:
  assumes "eg_ok ML eg"
  defines "fg \<equiv> eg\<lparr>eg_listeners := sa_clear owning (eg_listeners eg), eg_active := False\<rparr>"
  shows "eg_ok ML fg \<and> llist fg = []"
proof -
  have rep: "arr_rep owning (eg_listeners eg) (llist eg)" using assms by (simp add: eg_ok_def)
  have rep': "arr_rep owning (eg_listeners fg) []" using sa_clear_rep [OF rep] by (simp add: fg_def)
  then have "llist fg = []" by (rule arr_rep_contents)
  with rep' assms(1) show ?thesis by (simp add: eg_ok_def) (simp add: fg_def sa_clear_def)
qed

lemma remove_cases:
  assumes "ed_ok d"
  obtains (unknown) "removeListener h d = (0, d)" "h \<notin> set (active_hashes (glist d))"
  | (deferred) g eg where "ev_findGroup h d = Some g" "g < length (glist d)" "0 < ed_depth d"
      "eg_ok (ed_max_listeners d) eg" "eg_grows (glist d ! g) eg" "llist eg = map mark_for_removal (llist (glist d ! g))"
      "removeListener h d = (live_count (llist (glist d ! g)), set_group g eg d)"
  | (cleared) g eg where "ev_findGroup h d = Some g" "g < length (glist d)" "ed_depth d = 0"
      "eg_ok (ed_max_listeners d) eg" "llist eg = []" "eg_hash eg = h" "eg_hash (glist d ! g) = h"
      "\<not> eg_active eg" "eg_active (glist d ! g)"
      "removeListener h d = (length (llist (glist d ! g)), set_group g eg d)"
proof (cases "ev_findGroup h d")
  case None
  with unknown show ?thesis by (simp add: removeListener_def findGroup_None)
next
  case (Some g)
  from findGroup_Some [OF Some] have g: "g < length (glist d)" "eg_active (glist d ! g)" "eg_hash (glist d ! g) = h"
    by auto
  have ok: "eg_ok (ed_max_listeners d) (glist d ! g)" by (rule eg_ok_nth [OF assms g(1)])
  show ?thesis
  proof (cases "0 < ed_depth d")
    case True
    let ?a = "eg_listeners (glist d ! g)"
    let ?fg = "(glist d ! g)\<lparr>eg_listeners := ?a\<lparr>arr_data := snd (mark_loop (take (arr_size ?a) (arr_data ?a))) @
                  drop (arr_size ?a) (arr_data ?a)\<rparr>\<rparr>"
    from eg_markall_ok [OF ok] have fg: "eg_ok (ed_max_listeners d) ?fg" "eg_grows (glist d ! g) ?fg"
      "llist ?fg = map mark_for_removal (llist (glist d ! g))"
      "fst (mark_loop (take (arr_size ?a) (arr_data ?a))) = live_count (llist (glist d ! g))"
      by auto
    have "removeListener h d = (live_count (llist (glist d ! g)), set_group g ?fg d)"
      using Some g True assms fg(4) by (simp add: removeListener_def group_at_view Let_def split_beta)
    with fg show ?thesis by (intro deferred [OF Some g(1) True, of ?fg]) simp_all
  next
    case False
    then have z: "ed_depth d = 0" by (simp add: word_gt_0)
    let ?fg = "(glist d ! g)\<lparr>eg_listeners := sa_clear owning (eg_listeners (glist d ! g)), eg_active := False\<rparr>"
    from eg_clear_ok [OF ok] have fg: "eg_ok (ed_max_listeners d) ?fg" "llist ?fg = []" by auto
    have "arr_size (eg_listeners (glist d ! g)) = length (llist (glist d ! g))"
      using ok by (auto simp: eg_ok_def intro: arr_rep_size)
    then have "removeListener h d = (length (llist (glist d ! g)), set_group g ?fg d)"
      using Some g z assms by (simp add: removeListener_def group_at_view sa_size_def)
    with fg g show ?thesis by (intro cleared [OF Some g(1) z, of ?fg]) simp_all
  qed
qed

lemma remove_ok:
  assumes "ed_ok d"
  shows "ed_ok (snd (removeListener h d)) \<and> ed_depth (snd (removeListener h d)) = ed_depth d \<and>
    (0 < ed_depth d \<longrightarrow> grows d (snd (removeListener h d)))"
  using assms
proof (cases rule: remove_cases [where h = h])
  case unknown
  with assms show ?thesis by simp
next
  case (deferred g eg)
  with assms show ?thesis by (auto simp: eg_grows_def intro: ed_ok_set_group grows_set_group)
next
  case (cleared g eg)
  with assms show ?thesis by (auto intro: ed_ok_set_group)
qed

lemma clear_ok:
  assumes "ed_ok d"
  shows "ed_ok (storage_clear d)" "glist (storage_clear d) = []"
proof -
  have "arr_rep owning (ed_groups (storage_clear d)) []"
    using sa_clear_rep [of owning "ed_groups d" "glist d"] assms by (simp add: storage_clear_def ed_ok_def)
  moreover from this show gl: "glist (storage_clear d) = []" by (rule arr_rep_contents)
  ultimately show "ed_ok (storage_clear d)" using assms
    by (simp add: ed_ok_def active_hashes_def) (simp add: storage_clear_def)
qed

lemma cleanup_group_ok:
  assumes "ed_ok d" "group_at g d = Some eg"
  shows "ed_ok (set_group g (cleanupMarkedListeners eg) d)"
proof -
  from assms have g: "g < length (glist d)" "eg = glist d ! g" by (auto simp: group_at_view split: if_splits)
  have ok: "eg_ok (ed_max_listeners d) eg" using eg_ok_nth [OF assms(1) g(1)] g(2) by simp
  then have rep: "arr_rep owning (eg_listeners eg) (llist eg)" by (simp add: eg_ok_def)
  have "eg_ok (ed_max_listeners d) (cleanupMarkedListeners eg)"
    using ok cleanup_rep [OF rep] by (auto simp: eg_ok_def cleanup_fields llist_cleanup)
  with assms g rep show ?thesis by (auto simp: cleanup_fields intro: ed_ok_set_group)
qed


section \<open>Interpretations\<close>

lemma ed_ok_depth [simp]: "ed_ok (enter d) \<longleftrightarrow> ed_ok d" "ed_ok (leave d) \<longleftrightarrow> ed_ok d"
  by (simp_all add: ed_ok_def enter_def leave_def)

lemma grows_depth [simp]: "grows (enter d) e \<longleftrightarrow> grows d e" "grows d (leave e) \<longleftrightarrow> grows d e" "grows d (enter e) \<longleftrightarrow> grows d e"
  by (simp_all add: grows_def enter_def leave_def)

text \<open>Well-formedness, with every callback allowed.\<close>

interpretation wf: ev_frame True True 0 "\<lambda>_ d e. ed_ok d \<longrightarrow> ed_ok e" "\<lambda>_ d e. ed_ok d \<longrightarrow> ed_ok e"
  by unfold_locales (auto simp: add_ok removeId_ok remove_ok clear_ok mark_any_ok cleanup_group_ok)

text \<open>The dispatch depth less the number of exceptions that were caught around a dispatch.\<close>

fun caught_dispatch :: "ev_call \<Rightarrow> bool" where
  "caught_dispatch (EvReport context what sev) \<longleftrightarrow> context = ''EventDispatcher::dispatch''"
| "caught_dispatch (Invoked lvl lid fn event) \<longleftrightarrow> False"

definition caught_count :: "dispatcher \<Rightarrow> nat" where
  "caught_count d = length (filter caught_dispatch (ed_calls d))"

definition slack :: "dispatcher \<Rightarrow> u8" where "slack d = ed_depth d - of_nat (caught_count d)"

lemma caught_count_call [simp]:
  "caught_count (ed_call c d) = (if caught_dispatch c then Suc (caught_count d) else caught_count d)"
  "caught_count (set_group g eg d) = caught_count d" "caught_count (mark_at g i d) = caught_count d"
  "caught_count (enter d) = caught_count d" "caught_count (leave d) = caught_count d"
  "caught_count (storage_clear d) = caught_count d" "caught_count (bump_id d) = caught_count d"
  by (simp_all add: caught_count_def ed_call_def enter_def leave_def storage_clear_def)

lemma ed_depth_frame [simp]:
  "ed_depth (enter d) = ed_depth d + 1" "ed_depth (leave d) = ed_depth d - 1"
  "ed_depth (storage_clear d) = ed_depth d"
  by (simp_all add: enter_def leave_def storage_clear_def)

lemma getOrCreate_frame:
  "ed_depth (snd (ev_getOrCreateGroup h d)) = ed_depth d"
  "caught_count (snd (ev_getOrCreateGroup h d)) = caught_count d"
  by (auto simp: ev_getOrCreateGroup_def Let_def caught_count_def ed_call_def split: option.splits)

lemma op_frames:
  "ed_depth (snd (addListener h cb once d)) = ed_depth d"
  "caught_count (snd (addListener h cb once d)) = caught_count d"
  "ed_depth (snd (removeListenerById h lid d)) = ed_depth d"
  "caught_count (snd (removeListenerById h lid d)) = caught_count d"
  "ed_depth (snd (removeListener h d)) = ed_depth d"
  "caught_count (snd (removeListener h d)) = caught_count d"
  using getOrCreate_frame [of h "bump_id d"]
  by (auto simp: addListener_def removeListenerById_def removeListener_def bump_id_def [symmetric] Let_def
      split: option.splits prod.splits)

lemma safe_report_caught [simp]: "caught_dispatch (safe_report ''EventDispatcher::dispatch'' what)"
  by (simp add: safe_report_def split: option.splits)

lemma slack_simps [simp]:
  "slack (enter d) = slack d + 1" "slack (leave d) = slack d - 1"
  "slack (ed_call c d) = (if caught_dispatch c then slack d - 1 else slack d)"
  "slack (set_group g eg d) = slack d" "slack (mark_at g i d) = slack d" "slack (storage_clear d) = slack d"
  "slack (snd (addListener h cb once d)) = slack d" "slack (snd (removeListenerById h lid d)) = slack d"
  "slack (snd (removeListener h d)) = slack d"
  by (simp_all add: slack_def op_frames)

interpretation acct: ev_frame True True 0 "\<lambda>_ d e. slack e = slack d" "\<lambda>_ d e. slack e = slack d + 1"
  by unfold_locales auto

text \<open>Growth, for callbacks that neither clear the dispatcher nor throw, while a dispatch is
  running and the depth counter cannot wrap.\<close>

definition steady :: "nat \<Rightarrow> dispatcher \<Rightarrow> bool" where
  "steady n d \<longleftrightarrow> ed_ok d \<and> 0 < unat (ed_depth d) \<and> unat (ed_depth d) + n \<le> 255"

definition steady_rel :: "nat \<Rightarrow> dispatcher \<Rightarrow> dispatcher \<Rightarrow> bool" where
  "steady_rel n d e \<longleftrightarrow> (steady n d \<longrightarrow> steady n e \<and> grows d e \<and> ed_depth e = ed_depth d)"

lemma unat_enter: "unat (ed_depth d) + n < 255 \<Longrightarrow> unat (ed_depth (enter d)) = Suc (unat (ed_depth d))"
  by (simp add: unat_word_ariths)

lemma steady_enter: "ed_ok d \<Longrightarrow> unat (ed_depth d) + Suc n \<le> 255 \<Longrightarrow> steady n (enter d)"
  using unat_enter [of d n] by (simp add: steady_def del: ed_depth_frame)

lemma steady_rel_op:
  assumes "ed_ok d \<Longrightarrow> ed_ok e" "ed_ok d \<Longrightarrow> 0 < ed_depth d \<Longrightarrow> grows d e" "ed_depth e = ed_depth d"
  shows "steady_rel n d e"
  using assms by (auto simp: steady_rel_def steady_def word_less_nat_alt)

lemma steady_refl: "steady_rel n d d" by (simp add: steady_rel_def)

lemma steady_trans: "steady_rel n d e \<Longrightarrow> steady_rel n e f \<Longrightarrow> steady_rel n d f"
  by (auto simp: steady_rel_def intro: grows_trans)

lemma steady_ops:
  "steady_rel n d (snd (addListener h cb once d))" "steady_rel n d (snd (removeListenerById h lid d))"
  "steady_rel n d (snd (removeListener h d))" "steady_rel n d (ed_call c d)" "steady_rel n d (mark_at g i d)"
  by (rule steady_rel_op; simp add: add_ok removeId_ok remove_ok mark_any_ok op_frames)+

interpretation gr: ev_frame False False 0 steady_rel "\<lambda>_ _ _. True"
proof unfold_locales
  fix n and d e :: dispatcher assume "steady_rel n (enter d) e"
  then show "steady_rel (Suc n) d (leave e)"
    using steady_enter [of d n] by (auto simp: steady_rel_def steady_def)
next
  fix n and d :: dispatcher and g eg assume "ed_depth d = 0"
  then show "steady_rel n d (set_group g (cleanupMarkedListeners eg) d)"
    by (simp add: steady_rel_def steady_def)
qed (simp_all add: steady_refl steady_ops, rule steady_trans)

end
