(* ===== verification/Event_Delivery.thy ===== *)
theory Event_Delivery
  imports Event_Invariant
begin

text \<open>
  Which listeners a dispatch calls. The loop is followed for callbacks that may register and
  remove listeners, count them and dispatch further events, but neither clear the dispatcher
  nor throw: then no dead object is read, and every listener of the group that is present at
  the start is called exactly once, in order, unless its removal is requested before its turn.
\<close>

section \<open>Levels of the recorded calls\<close>

fun at_level :: "nat \<Rightarrow> ev_call \<Rightarrow> bool" where
  "at_level lvl (Invoked l lid fn event) \<longleftrightarrow> l = lvl"
| "at_level lvl (EvReport context what sev) \<longleftrightarrow> False"

fun not_below :: "nat \<Rightarrow> ev_call \<Rightarrow> bool" where
  "not_below lvl (Invoked l lid fn event) \<longleftrightarrow> lvl \<le> l"
| "not_below lvl (EvReport context what sev) \<longleftrightarrow> True"

definition adds_calls :: "nat \<Rightarrow> dispatcher \<Rightarrow> dispatcher \<Rightarrow> bool" where
  "adds_calls lvl d e \<longleftrightarrow> (\<exists>new. ed_calls e = ed_calls d @ new \<and> (\<forall>c\<in>set new. not_below lvl c))"

lemma adds_refl: "ed_calls e = ed_calls d \<Longrightarrow> adds_calls lvl d e"
  by (simp add: adds_calls_def)

lemma adds_trans: "adds_calls lvl d e \<Longrightarrow> adds_calls lvl e f \<Longrightarrow> adds_calls lvl d f"
  unfolding adds_calls_def by (metis append_assoc set_append Un_iff)

lemma adds_call: "adds_calls lvl d e \<Longrightarrow> not_below lvl c \<Longrightarrow> adds_calls lvl d (ed_call c e)"
  by (auto simp: adds_calls_def ed_call_def)

lemma adds_same: "adds_calls lvl d e \<Longrightarrow> ed_calls f = ed_calls e \<Longrightarrow> adds_calls lvl d f"
  by (simp add: adds_calls_def)

lemma calls_frame [simp]:
  "ed_calls (enter d) = ed_calls d" "ed_calls (leave d) = ed_calls d" "ed_calls (storage_clear d) = ed_calls d"
  by (simp_all add: enter_def leave_def storage_clear_def)

lemma getOrCreate_calls: "adds_calls lvl d (snd (ev_getOrCreateGroup h d))"
  by (auto simp: ev_getOrCreateGroup_def Let_def intro: adds_refl adds_call split: option.splits)

lemma ops_calls:
  "adds_calls lvl d (snd (addListener h cb once d))"
  "ed_calls (snd (removeListenerById h lid d)) = ed_calls d"
  "ed_calls (snd (removeListener h d)) = ed_calls d"
proof -
  have "adds_calls lvl d (snd (ev_getOrCreateGroup h (bump_id d)))"
    by (rule adds_trans [OF _ getOrCreate_calls]) (simp add: adds_refl)
  then show "adds_calls lvl d (snd (addListener h cb once d))"
    by (auto simp: addListener_def bump_id_def [symmetric] Let_def split_beta
        intro: adds_refl adds_call elim: adds_same split: option.splits)
qed (auto simp: removeListenerById_def removeListener_def Let_def split_beta split: option.splits)

lemma safe_report_level [simp]: "not_below lvl (safe_report c what)"
  by (simp add: safe_report_def split: option.splits)

lemma adds_depth [simp]:
  "adds_calls lvl (enter d) e \<longleftrightarrow> adds_calls lvl d e" "adds_calls lvl d (leave e) \<longleftrightarrow> adds_calls lvl d e"
  by (simp_all add: adds_calls_def)

interpretation lv: ev_frame True True L "\<lambda>_. adds_calls L" "\<lambda>_. adds_calls L" for L
proof unfold_locales
  fix n and d e f :: dispatcher assume "adds_calls L d e" "adds_calls L e f"
  then show "adds_calls L d f" by (rule adds_trans)
qed (auto simp: ops_calls intro: adds_refl adds_call elim: adds_same)

section \<open>Callbacks\<close>

text \<open>A dispatch that starts in a running dispatch neither fails nor disturbs it.\<close>

definition good_disp :: "nat \<Rightarrow> (event_ptr \<Rightarrow> u32 \<Rightarrow> dispatcher \<Rightarrow> unit ev_result) \<Rightarrow> bool" where
  "good_disp n disp \<longleftrightarrow>
     (\<forall>event h d. ed_ok d \<and> unat (ed_depth d) + n \<le> 255 \<longrightarrow>
        disp event h d = TooDeep \<or> (\<exists>e. disp event h d = Returned () e \<and> ed_ok e \<and> ed_depth e = ed_depth d))"

lemma good_dispD:
  assumes "good_disp n disp" "ed_ok d" "unat (ed_depth d) + n \<le> 255"
  shows "ed_dispatch disp event nm d = TooDeep \<or>
    (\<exists>e. ed_dispatch disp event nm d = Returned () e \<and> ed_ok e \<and> ed_depth e = ed_depth d)"
proof (cases nm)
  case None
  with assms show ?thesis by (simp add: ed_dispatch_def)
next
  case (Some s)
  from assms have "disp event (hash_event_name nm) d = TooDeep \<or>
    (\<exists>e. disp event (hash_event_name nm) d = Returned () e \<and> ed_ok e \<and> ed_depth e = ed_depth d)"
    by (simp add: good_disp_def)
  with Some show ?thesis by (auto simp: ed_dispatch_def ev_safe_def)
qed

lemma public_ok:
  assumes "ed_ok d"
  shows "ed_ok (snd (ed_registerListener nm cb once d))" "ed_ok (snd (ed_removeListenerById nm lid d))"
    "ed_ok (snd (ed_removeListener nm d))" "ed_ok (ed_clear d)"
    "ed_depth (snd (ed_registerListener nm cb once d)) = ed_depth d"
    "ed_depth (snd (ed_removeListenerById nm lid d)) = ed_depth d"
    "ed_depth (snd (ed_removeListener nm d)) = ed_depth d" "ed_depth (ed_clear d) = ed_depth d"
  using assms
  by (simp_all add: ed_registerListener_def ed_removeListenerById_def ed_removeListener_def ed_clear_def
        add_ok removeId_ok remove_ok clear_ok op_frames)

lemma run_prog_good:
  assumes disp: "good_disp n disp"
  shows "prog_ok True False p \<Longrightarrow> ed_ok d \<Longrightarrow> unat (ed_depth d) + n \<le> 255 \<Longrightarrow>
    run_prog disp p d = TooDeep \<or> (\<exists>e. run_prog disp p d = Returned () e \<and> ed_ok e \<and> ed_depth e = ed_depth d)"
proof (induction p arbitrary: d)
  case (Dispatch nm event k)
  from good_dispD [OF disp Dispatch.prems(2,3), of event nm] show ?case
  proof
    assume "\<exists>e. ed_dispatch disp event nm d = Returned () e \<and> ed_ok e \<and> ed_depth e = ed_depth d"
    then obtain e where e: "ed_dispatch disp event nm d = Returned () e" "ed_ok e" "ed_depth e = ed_depth d"
      by blast
    with Dispatch.IH [of e] Dispatch.prems show ?thesis by simp
  qed simp
next
  case (Register nm cb once k)
  from Register.IH [of _ "snd (ed_registerListener nm cb once d)"] Register.prems show ?case
    by (simp add: split_beta public_ok)
next
  case (RemoveId nm lid k)
  from RemoveId.IH [of _ "snd (ed_removeListenerById nm lid d)"] RemoveId.prems show ?case
    by (simp add: split_beta public_ok)
next
  case (RemoveAll nm k)
  from RemoveAll.IH [of _ "snd (ed_removeListener nm d)"] RemoveAll.prems show ?case
    by (simp add: split_beta public_ok)
next
  case (ClearAll k)
  from ClearAll.IH [of "ed_clear d"] ClearAll.prems show ?case by (simp add: public_ok)
qed simp_all

lemma prog_ok_mono: "prog_ok False False p \<Longrightarrow> prog_ok C T p"
  by (induction p) auto

section \<open>The loop\<close>

text \<open>The calls a dispatch at level \<open>lvl\<close> made itself: which listener, which functor, which event.\<close>

definition own_calls :: "nat \<Rightarrow> ev_call list \<Rightarrow> ev_call list" where
  "own_calls lvl calls = filter (at_level lvl) calls"

definition call_of :: "nat \<Rightarrow> event_ptr \<Rightarrow> listener \<Rightarrow> ev_call" where
  "call_of lvl event l = Invoked lvl (le_id l) (the (le_callback l)) event"

lemma own_calls_deeper: "\<forall>c\<in>set new. not_below (Suc lvl) c \<Longrightarrow> own_calls lvl new = []"
proof -
  have "\<not> at_level lvl c" if "not_below (Suc lvl) c" for c using that by (cases c) auto
  then show "\<forall>c\<in>set new. not_below (Suc lvl) c \<Longrightarrow> own_calls lvl new = []"
    by (auto simp: own_calls_def filter_empty_conv)
qed

text \<open>One invocation.\<close>

lemma invoke_good:
  assumes disp: "good_disp n disp" "\<And>event h d. gr.disp_rel n d (disp event h d)"
    "\<And>event h d. lv.disp_rel (Suc lvl) n d (disp event h d)"
    and env: "env_ok False False env" and d: "steady n d" and cb: "le_callback l \<noteq> None"
  shows "invoke_listener disp env lvl event l d = TooDeep \<or>
    (\<exists>e new. invoke_listener disp env lvl event l d = Returned () e \<and> steady n e \<and> grows d e \<and>
       ed_depth e = ed_depth d \<and> ed_calls e = ed_calls d @ call_of lvl event l # new \<and> own_calls lvl new = [])"
proof -
  from cb obtain fn where fn: "le_callback l = Some fn" by auto
  let ?p = "env (ed_calls d) fn event" and ?d = "ed_call (Invoked lvl (le_id l) fn event) d"
  have p: "prog_ok False False ?p" using env by (simp add: env_ok_def)
  have run: "invoke_listener disp env lvl event l d = run_prog disp ?p ?d"
    by (simp add: invoke_listener_def fn)
  have good: "run_prog disp ?p ?d = TooDeep \<or> (\<exists>e. run_prog disp ?p ?d = Returned () e)"
    using run_prog_good [OF disp(1) prog_ok_mono [OF p], of ?d] d by (auto simp: steady_def)
  have rel: "gr.prog_rel n ?d (run_prog disp ?p ?d)" by (rule gr.run_prog_rel [OF disp(2) p])
  have lev: "lv.prog_rel (Suc lvl) n ?d (run_prog disp ?p ?d)"
    by (rule lv.run_prog_rel [OF disp(3) prog_ok_mono [OF p]])
  from good show ?thesis
  proof
    assume "\<exists>e. run_prog disp ?p ?d = Returned () e"
    then obtain e where e: "run_prog disp ?p ?d = Returned () e" ..
    from lev e obtain new where new: "ed_calls e = ed_calls ?d @ new" "\<forall>c\<in>set new. not_below (Suc lvl) c"
      by (auto simp: adds_calls_def)
    from rel e d have "steady n e" "grows d e" "ed_depth e = ed_depth d"
      by (auto simp: steady_rel_def steady_def)
    with run e new own_calls_deeper [OF new(2)] show ?thesis
      by (auto simp: ed_call_def call_of_def fn)
  qed (use run in simp)
qed


text \<open>The listeners in the slots of \<open>g\<close>, and what the loop over \<open>[i..<i + m]\<close> achieves.\<close>

abbreviation slots :: "nat \<Rightarrow> dispatcher \<Rightarrow> listener list" where "slots g d \<equiv> llist (glist d ! g)"

definition delivered :: "nat \<Rightarrow> event_ptr \<Rightarrow> nat list \<Rightarrow> listener list \<Rightarrow> (nat \<Rightarrow> bool) \<Rightarrow> ev_call list \<Rightarrow> listener list \<Rightarrow> bool" where
  "delivered lvl event js ls called new ls' \<longleftrightarrow>
     own_calls lvl new = map (\<lambda>j. call_of lvl event (ls ! j)) (filter called js) \<and>
     (\<forall>j\<in>set js. (le_marked (ls ! j) \<longrightarrow> \<not> called j) \<and> (\<not> called j \<longrightarrow> le_marked (ls' ! j)) \<and>
                (called j \<and> le_once (ls ! j) \<longrightarrow> le_marked (ls' ! j)))"

lemma slots_grow:
  assumes "grows d e" "g < length (glist d)" "j < length (slots g d)"
  shows "g < length (glist e)" "j < length (slots g e)" "l_grows (slots g d ! j) (slots g e ! j)"
    "eg_grows (glist d ! g) (glist e ! g)" "length (slots g d) \<le> length (slots g e)"
  using assms by (auto simp: grows_def eg_grows_def)

lemma call_of_grows: "l_grows l m \<Longrightarrow> call_of lvl event m = call_of lvl event l"
  by (simp add: l_grows_def call_of_def)

text \<open>Joining the first step (which ends in \<open>ls1\<close>) with the rest of the loop.\<close>

lemma delivered_Cons:
  assumes rest: "delivered lvl event js ls1 called new2 ls'"
    and grow: "\<forall>j\<in>set (i # js). l_grows (ls ! j) (ls1 ! j)"
    and grow': "l_grows (ls1 ! i) (ls' ! i)"
    and i: "i \<notin> set js"
    and step: "own_calls lvl new1 = (if b then [call_of lvl event (ls ! i)] else [])"
      "le_marked (ls ! i) \<longrightarrow> \<not> b" "\<not> b \<longrightarrow> le_marked (ls1 ! i)" "b \<and> le_once (ls ! i) \<longrightarrow> le_marked (ls1 ! i)"
  shows "delivered lvl event (i # js) ls (called(i := b)) (new1 @ new2) ls'"
proof -
  have "filter (called(i := b)) js = filter called js" using i by (intro filter_cong) auto
  moreover have "map (\<lambda>j. call_of lvl event (ls1 ! j)) (filter called js) =
      map (\<lambda>j. call_of lvl event (ls ! j)) (filter called js)"
    using grow by (auto intro: call_of_grows)
  ultimately show ?thesis
    using rest grow grow' step i by (auto simp: delivered_def own_calls_def l_grows_def)
qed

lemma loop_good:
  assumes disp: "good_disp n disp" "\<And>event h d. gr.disp_rel n d (disp event h d)"
    "\<And>event h d. lv.disp_rel (Suc lvl) n d (disp event h d)"
    and env: "env_ok False False env"
  shows "steady n d \<Longrightarrow> g < length (glist d) \<Longrightarrow> i + m \<le> length (slots g d) \<Longrightarrow>
    listener_loop disp env lvl event g m i needs d = TooDeep \<or>
    (\<exists>e new called needs'. listener_loop disp env lvl event g m i needs d = Returned needs' e \<and>
       steady n e \<and> grows d e \<and> ed_depth e = ed_depth d \<and> ed_calls e = ed_calls d @ new \<and>
       delivered lvl event [i..<i + m] (slots g d) called new (slots g e) \<and>
       (needs' \<longleftrightarrow> needs \<or> (\<exists>j\<in>{i..<i + m}. \<not> called j \<or> le_once (slots g d ! j))))"
proof (induction m arbitrary: i needs d)
  case 0
  have "delivered lvl event [i..<i + 0] (slots g d) (\<lambda>_. False) [] (slots g d)"
    by (simp add: delivered_def own_calls_def)
  with 0 show ?case by (intro disjI2 exI [of _ d] exI [of _ "[]"] exI [of _ "\<lambda>_. False"]) simp
next
  case (Suc m)
  define l where "l = slots g d ! i"
  have ok: "ed_ok d" and g: "g < length (glist d)" and i: "i < length (slots g d)"
    using Suc.prems by (auto simp: steady_def)
  have at: "listener_at g i d = Some l" using ok g i by (simp add: listener_at_view l_def)
  have js: "[i..<i + Suc m] = i # [Suc i..<Suc i + m]" by (simp add: upt_rec [of i])
  have range: "{i..<i + Suc m} = insert i {Suc i..<Suc i + m}" by auto
  text \<open>What is left after the step, from a state in which slot \<open>i\<close> has been dealt with.\<close>
  have rest: "listener_loop disp env lvl event g m (i + 1) needs1 d1 = TooDeep \<or>
    (\<exists>e new called needs'. listener_loop disp env lvl event g m (i + 1) needs1 d1 = Returned needs' e \<and>
       steady n e \<and> grows d e \<and> ed_depth e = ed_depth d \<and> ed_calls e = ed_calls d @ new \<and>
       delivered lvl event [i..<i + Suc m] (slots g d) called new (slots g e) \<and>
       (needs' \<longleftrightarrow> needs \<or> (\<exists>j\<in>{i..<i + Suc m}. \<not> called j \<or> le_once (slots g d ! j))))"
    if d1: "steady n d1" "grows d d1" "ed_depth d1 = ed_depth d" "ed_calls d1 = ed_calls d @ new1"
      and step: "own_calls lvl new1 = (if b then [call_of lvl event l] else [])"
        "le_marked l \<longrightarrow> \<not> b" "\<not> b \<longrightarrow> le_marked (slots g d1 ! i)"
        "b \<and> le_once l \<longrightarrow> le_marked (slots g d1 ! i)"
      and needs1: "needs1 \<longleftrightarrow> needs \<or> \<not> b \<or> le_once l"
    for d1 new1 b needs1
  proof -
    have bounds: "g < length (glist d1)" "Suc i + m \<le> length (slots g d1)"
      using slots_grow [OF d1(2) g i] Suc.prems(3) by auto
    from Suc.IH [OF d1(1) bounds, of needs1] show ?thesis
    proof
      assume "\<exists>e new called needs'. listener_loop disp env lvl event g m (Suc i) needs1 d1 = Returned needs' e \<and>
       steady n e \<and> grows d1 e \<and> ed_depth e = ed_depth d1 \<and> ed_calls e = ed_calls d1 @ new \<and>
       delivered lvl event [Suc i..<Suc i + m] (slots g d1) called new (slots g e) \<and>
       (needs' \<longleftrightarrow> needs1 \<or> (\<exists>j\<in>{Suc i..<Suc i + m}. \<not> called j \<or> le_once (slots g d1 ! j)))"
      then obtain e new called needs' where
        e: "listener_loop disp env lvl event g m (Suc i) needs1 d1 = Returned needs' e" "steady n e" "grows d1 e"
          "ed_depth e = ed_depth d1" "ed_calls e = ed_calls d1 @ new"
        and del: "delivered lvl event [Suc i..<Suc i + m] (slots g d1) called new (slots g e)"
        and needs': "needs' \<longleftrightarrow> needs1 \<or> (\<exists>j\<in>{Suc i..<Suc i + m}. \<not> called j \<or> le_once (slots g d1 ! j))"
        by blast
      have gj: "l_grows (slots g d ! j) (slots g d1 ! j)" if "j < length (slots g d)" for j
        using slots_grow [OF d1(2) g that] by simp
      have "delivered lvl event (i # [Suc i..<Suc i + m]) (slots g d) (called(i := b)) (new1 @ new) (slots g e)"
      proof (rule delivered_Cons [OF del])
        show "\<forall>j\<in>set (i # [Suc i..<Suc i + m]). l_grows (slots g d ! j) (slots g d1 ! j)"
          using Suc.prems(3) by (auto intro!: gj)
        show "l_grows (slots g d1 ! i) (slots g e ! i)"
          using slots_grow [OF e(3) bounds(1)] bounds(2) by simp
      qed (use step in \<open>simp_all add: l_def\<close>)
      moreover have "needs' \<longleftrightarrow> needs \<or> (\<exists>j\<in>{i..<i + Suc m}. \<not> (called(i := b)) j \<or> le_once (slots g d ! j))"
      proof -
        have "le_once (slots g d1 ! j) = le_once (slots g d ! j)" if "j \<in> {Suc i..<Suc i + m}" for j
          using gj [of j] that Suc.prems(3) by (auto simp: l_grows_def)
        then show ?thesis unfolding range needs' needs1 by (auto simp: l_def)
      qed
      moreover have "grows d e" by (rule grows_trans [OF d1(2) e(3)])
      ultimately show ?thesis using e d1 unfolding js
        by (intro disjI2 exI [of _ e] exI [of _ "new1 @ new"] exI [of _ "called(i := b)"] exI [of _ needs']) simp
    qed simp
  qed
  show ?case
  proof (cases "le_marked l")
    case True
    with rest [of d "[]" False True] Suc.prems(1) at show ?thesis
      by (simp add: own_calls_def l_def)
  next
    case False
    have cb: "le_callback l \<noteq> None" using eg_ok_nth [OF ok g] i by (auto simp: eg_ok_def l_def)
    from invoke_good [OF disp env Suc.prems(1) cb] show ?thesis
    proof
      assume "\<exists>e new. invoke_listener disp env lvl event l d = Returned () e \<and> steady n e \<and> grows d e \<and>
        ed_depth e = ed_depth d \<and> ed_calls e = ed_calls d @ call_of lvl event l # new \<and> own_calls lvl new = []"
      then obtain e new where e: "invoke_listener disp env lvl event l d = Returned () e" "steady n e" "grows d e"
        "ed_depth e = ed_depth d" "ed_calls e = ed_calls d @ call_of lvl event l # new" "own_calls lvl new = []"
        by blast
      note ge = slots_grow [OF e(3) g i]
      have ok_e: "ed_ok e" using e(2) by (simp add: steady_def)
      have at_e: "listener_at g i e = Some (slots g e ! i)" using ok_e ge by (simp add: listener_at_view)
      have once: "le_once (slots g e ! i) = le_once l" using ge(3) by (simp add: l_grows_def l_def)
      have own: "own_calls lvl (call_of lvl event l # new) = [call_of lvl event l]"
        using e(6) by (simp add: own_calls_def call_of_def)
      show ?thesis
      proof (cases "le_once l")
        case True
        from mark_at_ok [OF ok_e ge(1,2)] have m: "ed_ok (mark_at g i e)" "grows e (mark_at g i e)"
          "mark_at g i e = set_group g (eg_mark i (glist e ! g)) e" by auto
        have sl: "slots g (mark_at g i e) ! i = mark_for_removal (slots g e ! i)"
          using ok_e ge m(3) eg_mark_ok [OF eg_ok_nth [OF ok_e ge(1)] ge(2)] by (simp add: glist_set_group)
        have "steady n (mark_at g i e)" using m(1) e(2) by (simp add: steady_def)
        moreover have "grows d (mark_at g i e)" by (rule grows_trans [OF e(3) m(2)])
        ultimately show ?thesis
          using rest [of "mark_at g i e" "call_of lvl event l # new" True True] e own sl at at_e once True False
          by simp
      next
        case notonce: False
        then show ?thesis
          using rest [of e "call_of lvl event l # new" True needs] e own at at_e once False
          by simp
      qed
    qed (use at False in simp)
  qed
qed

end
