(* ===== verification/Event_Properties.thy ===== *)
theory Event_Properties
  imports Event_Delivery
begin

text \<open>
  The theorems about the event dispatcher: well-formedness under any callbacks, delivery of an
  event, the bound on nested dispatches, the effect of exceptions, registration and removal,
  and the group slots that are never used again.
\<close>

section \<open>A whole dispatch\<close>

definition delivery ::
  "nat \<Rightarrow> event_ptr \<Rightarrow> nat \<Rightarrow> dispatcher \<Rightarrow> dispatcher \<Rightarrow> (nat \<Rightarrow> bool) \<Rightarrow> ev_call list \<Rightarrow> listener list \<Rightarrow> bool" where
  "delivery lvl event g d e called new ls' \<longleftrightarrow>
     ed_calls e = ed_calls d @ new \<and>
     (\<forall>i<length (slots g d). l_grows (slots g d ! i) (ls' ! i)) \<and> length (slots g d) \<le> length ls' \<and>
     delivered lvl event [0..<length (slots g d)] (slots g d) called new ls' \<and>
     slots g e = (if ed_depth d = 0 \<and> (\<exists>j<length (slots g d). \<not> called j \<or> le_once (slots g d ! j))
                  then filter (\<lambda>l. \<not> le_marked l) ls' else ls')"

lemma group_good:
  assumes disp: "good_disp n disp" "\<And>event h d. gr.disp_rel n d (disp event h d)"
    "\<And>event h d. lv.disp_rel (Suc lvl) n d (disp event h d)"
    and env: "env_ok False False env" and d: "ed_ok d" "unat (ed_depth d) + Suc n \<le> 255"
  shows "dispatch_group disp env lvl event h d = TooDeep \<or>
    (\<exists>e. dispatch_group disp env lvl event h d = Returned () e \<and> ed_ok e \<and> ed_depth e = ed_depth d \<and>
       (\<forall>g. ev_findGroup h d = Some g \<longrightarrow> g < length (glist e) \<and> (\<exists>called new ls'. delivery lvl event g d e called new ls')))"
proof (cases "ev_findGroup h d")
  case None
  with d show ?thesis by (simp add: dispatch_group_def)
next
  case (Some g)
  from findGroup_Some [OF Some] have g: "g < length (glist d)" by simp
  have at: "group_at g d = Some (glist d ! g)" using d g by (simp add: group_at_view)
  have size: "arr_size (eg_listeners (glist d ! g)) = length (slots g d)"
    using eg_ok_nth [OF d(1) g] by (auto simp: eg_ok_def intro: arr_rep_size)
  have views: "glist (enter d) = glist d" "\<And>e. glist (leave e) = glist e" by (simp_all add: enter_def leave_def)
  have group: "dispatch_group disp env lvl event h d =
    (case listener_loop disp env lvl event g (length (slots g d)) 0 False (enter d) of
       Returned needs e \<Rightarrow>
         (if needs \<and> ed_depth (leave e) = 0
          then (case group_at g (leave e) of None \<Rightarrow> Undefined
                | Some eg \<Rightarrow> Returned () (set_group g (cleanupMarkedListeners eg) (leave e)))
          else Returned () (leave e))
     | Raised what e \<Rightarrow> Raised what e | Undefined \<Rightarrow> Undefined | TooDeep \<Rightarrow> TooDeep)"
    by (cases "listener_loop disp env lvl event g (length (slots g d)) 0 False (enter d)")
       (simp_all add: dispatch_group_def Some at size Let_def enter_def [symmetric] leave_def [symmetric])
  from loop_good [OF disp env steady_enter [OF d], where g = g and i = 0 and m = "length (slots g d)" and event = event and needs = False] g
  have "listener_loop disp env lvl event g (length (slots g d)) 0 False (enter d) = TooDeep \<or>
    (\<exists>e new called needs'. listener_loop disp env lvl event g (length (slots g d)) 0 False (enter d) = Returned needs' e \<and>
       steady n e \<and> grows d e \<and> ed_depth e = ed_depth d + 1 \<and> ed_calls e = ed_calls d @ new \<and>
       delivered lvl event [0..<length (slots g d)] (slots g d) called new (slots g e) \<and>
       (needs' \<longleftrightarrow> (\<exists>j<length (slots g d). \<not> called j \<or> le_once (slots g d ! j))))"
    by (simp add: views Bex_def)
  then show ?thesis
  proof
    assume "\<exists>e new called needs'. listener_loop disp env lvl event g (length (slots g d)) 0 False (enter d) = Returned needs' e \<and>
       steady n e \<and> grows d e \<and> ed_depth e = ed_depth d + 1 \<and> ed_calls e = ed_calls d @ new \<and>
       delivered lvl event [0..<length (slots g d)] (slots g d) called new (slots g e) \<and>
       (needs' \<longleftrightarrow> (\<exists>j<length (slots g d). \<not> called j \<or> le_once (slots g d ! j)))"
    then obtain e new called needs' where
      loop: "listener_loop disp env lvl event g (length (slots g d)) 0 False (enter d) = Returned needs' e"
      and e: "steady n e" "grows d e" "ed_depth e = ed_depth d + 1" "ed_calls e = ed_calls d @ new"
      and del: "delivered lvl event [0..<length (slots g d)] (slots g d) called new (slots g e)"
      and needs': "needs' \<longleftrightarrow> (\<exists>j<length (slots g d). \<not> called j \<or> le_once (slots g d ! j))"
      by blast
    have ok: "ed_ok (leave e)" using e(1) by (simp add: steady_def)
    have g': "g < length (glist e)" and len: "length (slots g d) \<le> length (slots g e)"
      and l: "\<forall>i<length (slots g d). l_grows (slots g d ! i) (slots g e ! i)"
      using e(2) g by (auto simp: grows_def eg_grows_def)
    have depth: "ed_depth (leave e) = ed_depth d" using e(3) by simp
    show ?thesis
    proof (cases "needs' \<and> ed_depth d = 0")
      case True
      let ?f = "set_group g (cleanupMarkedListeners (glist e ! g)) (leave e)"
      have at': "group_at g (leave e) = Some (glist e ! g)" using ok g' by (simp add: group_at_view views)
      have rep: "arr_rep owning (eg_listeners (glist e ! g)) (slots g e)"
        using eg_ok_nth [OF ok] g' by (simp add: views eg_ok_def)
      have f: "glist ?f = (glist e)[g := cleanupMarkedListeners (glist e ! g)]"
        using glist_set_group [OF ok] g' by (simp add: views)
      have "delivery lvl event g d ?f called new (slots g e)"
        using True needs' e(4) del len l f g' rep by (simp add: delivery_def llist_cleanup)
      then show ?thesis
        using True at' loop group depth cleanup_group_ok [OF ok at'] f g'
        by (intro disjI2 exI [of _ ?f]) (auto simp: Some)
    next
      case False
      have "delivery lvl event g d (leave e) called new (slots g e)"
        using False needs' e(4) del len l by (auto simp: delivery_def views)
      then show ?thesis
        using False loop group depth ok g' by (intro disjI2 exI [of _ "leave e"]) (auto simp: Some views)
    qed
  qed (use group in simp)
qed

lemma dispatch_good:
  assumes env: "env_ok False False env"
  shows "good_disp n (dispatchEvent env n lvl)"
proof (induction n arbitrary: lvl)
  case 0
  then show ?case by (simp add: good_disp_def)
next
  case (Suc n)
  have gr: "gr.disp_rel n d (dispatchEvent env n (Suc lvl) event h d)" for event h d
    by (rule gr.dispatch_rel [OF env]) simp
  have env': "env_ok True True env" using env by (auto simp: env_ok_def intro: prog_ok_mono)
  have lv: "lv.disp_rel (Suc lvl) n d (dispatchEvent env n (Suc lvl) event h d)" for event h d
    by (rule lv.dispatch_rel [OF env']) simp
  show ?case
    unfolding good_disp_def using group_good [OF Suc.IH gr lv env, of _ _] by fastforce
qed

lemma dispatch_delivery:
  assumes env: "env_ok False False env" and d: "ed_ok d" "unat (ed_depth d) + n \<le> 255"
    and g: "ev_findGroup h d = Some g" and r: "dispatchEvent env n lvl event h d = Returned () e"
  shows "ed_ok e \<and> ed_depth e = ed_depth d \<and> g < length (glist e) \<and> (\<exists>called new ls'. delivery lvl event g d e called new ls')"
proof (cases n)
  case 0
  with r show ?thesis by simp
next
  case (Suc k)
  have gr: "gr.disp_rel k d (dispatchEvent env k (Suc lvl) event h d)" for event h d
    by (rule gr.dispatch_rel [OF env]) simp
  have env': "env_ok True True env" using env by (auto simp: env_ok_def intro: prog_ok_mono)
  have lv: "lv.disp_rel (Suc lvl) k d (dispatchEvent env k (Suc lvl) event h d)" for event h d
    by (rule lv.dispatch_rel [OF env']) simp
  from group_good [OF dispatch_good [OF env] gr lv env d(1), of event h] d(2) Suc r g show ?thesis by auto
qed


section \<open>The nesting budget\<close>

definition refines_disp ::
  "(event_ptr \<Rightarrow> u32 \<Rightarrow> dispatcher \<Rightarrow> unit ev_result) \<Rightarrow> (event_ptr \<Rightarrow> u32 \<Rightarrow> dispatcher \<Rightarrow> unit ev_result) \<Rightarrow> bool" where
  "refines_disp disp disp' \<longleftrightarrow> (\<forall>event h d. disp event h d \<noteq> TooDeep \<longrightarrow> disp' event h d = disp event h d)"

lemma ed_dispatch_more:
  "refines_disp disp disp' \<Longrightarrow> ed_dispatch disp event nm d \<noteq> TooDeep \<Longrightarrow>
   ed_dispatch disp' event nm d = ed_dispatch disp event nm d"
  by (auto simp: refines_disp_def ed_dispatch_def ev_safe_def split: ev_result.splits if_splits)

lemma run_prog_more:
  assumes "refines_disp disp disp'"
  shows "run_prog disp p d \<noteq> TooDeep \<Longrightarrow> run_prog disp' p d = run_prog disp p d"
proof (induction p arbitrary: d)
  case (Dispatch nm event k)
  then have "ed_dispatch disp event nm d \<noteq> TooDeep" by auto
  with Dispatch ed_dispatch_more [OF assms, of event nm d] show ?case by (auto split: ev_result.splits)
qed (auto simp: split_beta)

lemma loop_more:
  assumes "refines_disp disp disp'"
  shows "listener_loop disp env lvl event g m i needs d \<noteq> TooDeep \<Longrightarrow>
    listener_loop disp' env lvl event g m i needs d = listener_loop disp env lvl event g m i needs d"
proof (induction m arbitrary: i needs d)
  case 0
  then show ?case by simp
next
  case (Suc m)
  show ?case
  proof (cases "listener_at g i d")
    case None
    then show ?thesis by simp
  next
    case (Some l)
    show ?thesis
    proof (cases "le_marked l")
      case True
      with Some Suc show ?thesis by simp
    next
      case False
      with Some Suc.prems have "invoke_listener disp env lvl event l d \<noteq> TooDeep" by auto
      then have "invoke_listener disp' env lvl event l d = invoke_listener disp env lvl event l d"
        using run_prog_more [OF assms] by (auto simp: invoke_listener_def split: option.splits)
      with Some False Suc show ?thesis by (auto split: ev_result.splits option.splits)
    qed
  qed
qed

lemma group_more:
  assumes "refines_disp disp disp'"
  shows "refines_disp (dispatch_group disp env lvl) (dispatch_group disp' env lvl)"
  unfolding refines_disp_def
proof (intro allI impI)
  fix event h d assume *: "dispatch_group disp env lvl event h d \<noteq> TooDeep"
  show "dispatch_group disp' env lvl event h d = dispatch_group disp env lvl event h d"
  proof (cases "ev_findGroup h d")
    case None
    then show ?thesis by (simp add: dispatch_group_def)
  next
    case (Some g)
    show ?thesis
    proof (cases "group_at g d")
      case None
      with Some show ?thesis by (simp add: dispatch_group_def)
    next
      case eg: (Some eg)
      let ?d = "d\<lparr>ed_depth := ed_depth d + 1\<rparr>"
      have "listener_loop disp env lvl event g (arr_size (eg_listeners eg)) 0 False ?d \<noteq> TooDeep"
        using * Some eg by (auto simp: dispatch_group_def)
      from loop_more [OF assms this] Some eg show ?thesis by (simp add: dispatch_group_def)
    qed
  qed
qed

lemma dispatch_more: "refines_disp (dispatchEvent env n lvl) (dispatchEvent env (Suc n) lvl)"
proof (induction n arbitrary: lvl)
  case 0
  then show ?case by (simp add: refines_disp_def)
next
  case (Suc n)
  have "refines_disp (dispatch_group (dispatchEvent env n (lvl + 1)) env lvl)
    (dispatch_group (dispatchEvent env (Suc n) (lvl + 1)) env lvl)"
    by (rule group_more) (rule Suc.IH)
  then show ?case by (simp add: refines_disp_def)
qed

text \<open>Callbacks that start no dispatch.\<close>

primrec flat :: "ev_prog \<Rightarrow> bool" where
  "flat Finish \<longleftrightarrow> True"
| "flat (ThrowStd what) \<longleftrightarrow> True"
| "flat ThrowOther \<longleftrightarrow> True"
| "flat (Register nm cb once k) \<longleftrightarrow> (\<forall>r. flat (k r))"
| "flat (RemoveId nm lid k) \<longleftrightarrow> (\<forall>r. flat (k r))"
| "flat (RemoveAll nm k) \<longleftrightarrow> (\<forall>r. flat (k r))"
| "flat (CountEvent nm k) \<longleftrightarrow> (\<forall>r. flat (k r))"
| "flat (CountAll k) \<longleftrightarrow> (\<forall>r. flat (k r))"
| "flat (ClearAll k) \<longleftrightarrow> flat k"
| "flat (Dispatch nm event k) \<longleftrightarrow> False"

lemma flat_run: "flat p \<Longrightarrow> run_prog disp p d \<noteq> TooDeep"
  by (induction p arbitrary: d) (auto simp: split_beta)

lemma flat_loop:
  assumes "\<forall>calls f event. flat (env calls f event)"
  shows "listener_loop disp env lvl event g m i needs d \<noteq> TooDeep"
proof (induction m arbitrary: i needs d)
  case (Suc m)
  have "invoke_listener disp env lvl event l d \<noteq> TooDeep" for l
    using assms flat_run by (simp add: invoke_listener_def split: option.splits)
  with Suc show ?case by (auto split: option.splits ev_result.splits)
qed simp

lemma flat_dispatch:
  assumes "\<forall>calls f event. flat (env calls f event)"
  shows "dispatchEvent env (Suc n) lvl event h d \<noteq> TooDeep"
  using flat_loop [OF assms]
  by (auto simp: dispatch_group_def Let_def split: option.splits ev_result.splits if_splits)

lemma all_ok: "prog_ok True True p"
  by (induction p) auto

lemma BaseEventDispatcher_ok: "ed_ok (BaseEventDispatcher ME ML)" "glist (BaseEventDispatcher ME ML) = []"
proof -
  show gl: "glist (BaseEventDispatcher ME ML) = []"
    by (simp add: BaseEventDispatcher_def StaticArray_def arr_rep_contents [OF arr_rep_ArrayBase [of owning]])
  then show "ed_ok (BaseEventDispatcher ME ML)"
    by (simp add: ed_ok_def active_hashes_def) (simp add: BaseEventDispatcher_def StaticArray_def)
qed

section \<open>Examples\<close>

text \<open>Callbacks that only return.\<close>

definition quiet_env :: ev_env where "quiet_env = (\<lambda>_ _ _. Finish)"

definition result_state :: "dispatcher \<Rightarrow> 'a ev_result \<Rightarrow> dispatcher" where
  "result_state d r = (case r of Returned _ e \<Rightarrow> e | Raised _ e \<Rightarrow> e | Undefined \<Rightarrow> d | TooDeep \<Rightarrow> d)"

text \<open>A callback that removes another listener and registers a new one, one that dispatches again,
  one that throws, and a program that uses them.\<close>

definition demo_env :: ev_env where
  "demo_env = (\<lambda>calls fn event.
     if fn = 0 then Finish
     else if fn = 1 then RemoveId (Some ''A'') 2 (\<lambda>_. Register (Some ''A'') (Some 0) False (\<lambda>_. Finish))
     else if length calls < 4 then Dispatch (Some ''A'') 9 Finish else Finish)"

definition demo_prog :: ev_prog where
  "demo_prog = Register (Some ''A'') (Some 1) False (\<lambda>_. Register (Some ''A'') (Some 0) False
     (\<lambda>_. Register (Some ''A'') (Some 2) True (\<lambda>_. Dispatch (Some ''A'') 7 Finish)))"

lemma demo_ok: "env_ok False False demo_env" "prog_ok True False demo_prog"
  by (simp_all add: env_ok_def demo_env_def demo_prog_def)

lemma demo_returns: "case ed_main demo_env 3 demo_prog (BaseEventDispatcher 2 4) of TooDeep \<Rightarrow> False | _ \<Rightarrow> True"
  by code_simp

fun returns :: "'a ev_result \<Rightarrow> bool" where
  "returns (Returned _ _) \<longleftrightarrow> True"
| "returns (Raised _ _) \<longleftrightarrow> False"
| "returns Undefined \<longleftrightarrow> False"
| "returns TooDeep \<longleftrightarrow> False"

lemma returnsD: "returns (r :: unit ev_result) \<Longrightarrow> r = Returned () (result_state d r)"
  by (cases r) (auto simp: result_state_def)

definition demo_state :: dispatcher where
  "demo_state = snd (addListener 5 (Some 0) True (BaseEventDispatcher 1 1))"

definition demo_after :: dispatcher where
  "demo_after = result_state demo_state (dispatchEvent demo_env 1 0 7 5 demo_state)"

lemma demo_dispatch: "dispatchEvent demo_env 1 0 7 5 demo_state = Returned () demo_after"
  unfolding demo_after_def by (rule returnsD) code_simp

lemma demo_state_facts:
  "ed_ok demo_state" "ed_depth demo_state = 0" "ev_findGroup 5 demo_state = Some 0" "length (slots 0 demo_state) = 1"
  using add_ok [OF BaseEventDispatcher_ok(1) [of 1 1], of 5 "Some 0" True] by (simp add: demo_state_def) code_simp+

definition throwing_env :: ev_env where "throwing_env = (\<lambda>calls fn event. ThrowStd ''bad'')"

definition throwing_prog :: ev_prog where
  "throwing_prog = Register (Some ''A'') (Some 0) False (\<lambda>_. Dispatch (Some ''A'') 7 Finish)"

definition throwing_after :: dispatcher where
  "throwing_after = result_state (BaseEventDispatcher 1 1)
     (ed_main throwing_env 1 throwing_prog (BaseEventDispatcher 1 1))"

lemma throwing_run: "ed_main throwing_env 1 throwing_prog (BaseEventDispatcher 1 1) = Returned () throwing_after"
  unfolding throwing_after_def by (rule returnsD) code_simp

text \<open>Two names with the same hash share a group; a callback that clears the dispatcher makes the
  dispatch around it read a destroyed group; a once-listener that dispatches its own event is
  called a second time, because it is marked only when its call returns.\<close>

lemma event_names_collide: "hash_event_name (Some ''Aa'') = hash_event_name (Some ''B@'')"
  by code_simp

definition clearing_env :: ev_env where "clearing_env = (\<lambda>calls fn event. ClearAll Finish)"

lemma clear_in_callback: "dispatchEvent clearing_env 1 0 7 5 demo_state = Undefined"
  by code_simp

definition again_env :: ev_env where
  "again_env = (\<lambda>calls fn event. if calls = [] then Dispatch (Some ''A'') 8 Finish else Finish)"

lemma once_called_twice:
  "ed_calls (result_state demo_state
     (ed_main again_env 2 (Register (Some ''A'') (Some 0) True (\<lambda>_. Dispatch (Some ''A'') 7 Finish))
        (BaseEventDispatcher 1 1))) = [Invoked 0 1 0 7, Invoked 1 1 0 8]"
  by code_simp

section \<open>Properties\<close>

text \<open>C9: A dispatcher used in any way by a program and its callbacks, which may register,
  remove, count, clear, throw and dispatch again while they are being called, stays well formed:
  at most one active group per event hash, every group within its capacity and holding only
  listeners of its event with a callback and a nonzero number, inactive groups empty. If no
  callback clears the dispatcher or throws, and fewer than 256 dispatches are nested, no
  destroyed listener or group is ever read.\<close>

theorem dispatcher_well_formed:
  "result_in ed_ok ed_ok (ed_main env n p (BaseEventDispatcher ME ML)) \<and>
   (env_ok False False env \<and> prog_ok True False p \<and> n \<le> 255 \<longrightarrow>
      ed_main env n p (BaseEventDispatcher ME ML) = TooDeep \<or>
      (\<exists>d. ed_main env n p (BaseEventDispatcher ME ML) = Returned () d))"
proof (intro conjI impI)
  have "env_ok True True env" by (simp add: env_ok_def all_ok)
  from wf.callback_rel [OF this _ all_ok, where lvl = 0 and n = n and d = "BaseEventDispatcher ME ML" and p = p]
  show "result_in ed_ok ed_ok (ed_main env n p (BaseEventDispatcher ME ML))"
    by (simp add: ed_main_def BaseEventDispatcher_ok)
next
  assume *: "env_ok False False env \<and> prog_ok True False p \<and> n \<le> 255"
  then have "unat (ed_depth (BaseEventDispatcher ME ML)) + n \<le> 255" by (simp add: BaseEventDispatcher_def)
  with * run_prog_good [OF dispatch_good [of env n 0], of p "BaseEventDispatcher ME ML"]
    BaseEventDispatcher_ok
  show "ed_main env n p (BaseEventDispatcher ME ML) = TooDeep \<or>
      (\<exists>d. ed_main env n p (BaseEventDispatcher ME ML) = Returned () d)"
    unfolding ed_main_def by blast
qed

theorem dispatcher_well_formed_witness:
  "result_in ed_ok ed_ok (ed_main demo_env 3 demo_prog (BaseEventDispatcher 2 4)) \<and>
   (\<exists>d. ed_main demo_env 3 demo_prog (BaseEventDispatcher 2 4) = Returned () d)"
  using dispatcher_well_formed [of demo_env 3 demo_prog 2 4] demo_ok demo_returns by auto



text \<open>The bound on nested dispatches is only a device of the model: a dispatch that stays
  within one bound has the same result under every larger one, and a dispatch whose callbacks
  dispatch nothing themselves needs no nesting at all.\<close>

theorem dispatch_budget:
  "(dispatchEvent env n lvl event h d \<noteq> TooDeep \<longrightarrow>
      dispatchEvent env (n + k) lvl event h d = dispatchEvent env n lvl event h d) \<and>
   ((\<forall>calls f ev. flat (env calls f ev)) \<longrightarrow> dispatchEvent env 1 lvl event h d \<noteq> TooDeep)"
proof (intro conjI impI)
  assume *: "dispatchEvent env n lvl event h d \<noteq> TooDeep"
  show "dispatchEvent env (n + k) lvl event h d = dispatchEvent env n lvl event h d"
  proof (induction k)
    case (Suc k)
    with * dispatch_more [of env "n + k" lvl] show ?case by (metis refines_disp_def add_Suc_right)
  qed simp
next
  assume "\<forall>calls f ev. flat (env calls f ev)"
  from flat_dispatch [OF this, of 0] show "dispatchEvent env 1 lvl event h d \<noteq> TooDeep" by simp
qed

theorem dispatch_budget_witness:
  "dispatchEvent quiet_env (1 + 3) 0 7 5 demo_state = dispatchEvent quiet_env 1 0 7 5 demo_state \<and>
   dispatchEvent quiet_env 1 0 7 5 demo_state \<noteq> TooDeep"
  using dispatch_budget [of quiet_env 1 0 7 5 demo_state 3] by (simp add: quiet_env_def)

text \<open>When control is back outside of every dispatch, the dispatch depth of the dispatcher is
  the number of exceptions that were caught around a dispatch, modulo 256, instead of zero: a
  callback that throws leaves the depth incremented. While it is not zero, removing a listener
  by its number only marks it and gives its slot back to no one.\<close>

theorem exceptions_leave_depth:
  assumes "ed_main env n p (BaseEventDispatcher ME ML) = Returned () d"
  shows "ed_depth d = of_nat (caught_count d) \<and>
    (caught_count d mod 256 \<noteq> 0 \<longrightarrow>
      map (\<lambda>eg. length (llist eg)) (glist (snd (removeListenerById h lid d))) = map (\<lambda>eg. length (llist eg)) (glist d))"
proof -
  have all: "env_ok True True env" by (simp add: env_ok_def all_ok)
  have "slack (BaseEventDispatcher ME ML) = 0" by (simp add: slack_def caught_count_def BaseEventDispatcher_def)
  with acct.callback_rel [OF all _ all_ok, where lvl = 0 and n = n and d = "BaseEventDispatcher ME ML" and p = p] assms have depth: "ed_depth d = of_nat (caught_count d)"
    by (simp add: ed_main_def slack_def)
  have ok: "ed_ok d"
    using wf.callback_rel [OF all _ all_ok, where lvl = 0 and n = n and d = "BaseEventDispatcher ME ML" and p = p] assms BaseEventDispatcher_ok
    by (simp add: ed_main_def)
  have "map (\<lambda>eg. length (llist eg)) (glist (snd (removeListenerById h lid d))) = map (\<lambda>eg. length (llist eg)) (glist d)"
    if "caught_count d mod 256 \<noteq> 0"
  proof -
    have "ed_depth d \<noteq> 0" using that by (simp add: depth word_unat_eq_iff unat_of_nat)
    from ok show ?thesis
    proof (cases rule: removeId_cases [where h = h and lid = lid])
      case (deferred g i)
      with mark_at_ok [OF ok deferred(2,3)] eg_mark_ok [OF eg_ok_nth [OF ok deferred(2)] deferred(3)] ok
      show ?thesis by (simp add: glist_set_group map_update list_update_same_conv)
    qed (use \<open>ed_depth d \<noteq> 0\<close> in simp_all)
  qed
  with depth show ?thesis by simp
qed

theorem exceptions_leave_depth_witness:
  "ed_depth throwing_after = 1 \<and>
   map (\<lambda>eg. length (llist eg)) (glist (snd (removeListenerById (hash_event_name (Some ''A'')) 1 throwing_after))) = [1]"
proof -
  have c: "caught_count throwing_after = 1" by code_simp
  have l: "map (\<lambda>eg. length (llist eg)) (glist throwing_after) = [1]" by code_simp
  from exceptions_leave_depth [OF throwing_run, of "hash_event_name (Some ''A'')" 1] c l show ?thesis by simp
qed

end
