(* ===== verification/Event_Refinement.thy ===== *)
theory Event_Refinement
  imports Event_Properties
begin

text \<open>
  The dispatcher as a finite map from event hashes to listener lists, used from outside of any
  dispatch with callbacks that do not call back. The abstract state also counts the group
  slots handed out since the last \<open>clear\<close>: the code never uses a slot again, so this number and
  not the number of groups in use decides whether a new event can be registered.
\<close>

section \<open>The abstract dispatcher\<close>

record ev_spec =
  sp_groups :: "u32 \<Rightarrow> listener list option"
  sp_used :: nat
  sp_next :: u32

datatype ev_op =
    EvAdd u32 "nat option" bool
  | EvRemoveId u32 u32
  | EvRemove u32
  | EvClear
  | EvDispatch u32 event_ptr

datatype ev_answer = EvNumber u32 | EvFound bool | EvRemoved nat | EvNone

definition spec_put :: "u32 \<Rightarrow> listener list option \<Rightarrow> ev_spec \<Rightarrow> ev_spec" where
  "spec_put h ls s = s\<lparr>sp_groups := (sp_groups s)(h := ls)\<rparr>"

definition spec_add :: "nat \<Rightarrow> nat \<Rightarrow> u32 \<Rightarrow> nat option \<Rightarrow> bool \<Rightarrow> ev_spec \<Rightarrow> ev_answer \<times> ev_spec" where
  "spec_add ME ML h cb once s =
     (if cb = None then (EvNumber 0, s)
      else
        let l = ListenerEntry h (sp_next s) cb once;
            s' = s\<lparr>sp_next := (if sp_next s + 1 = 0 then 1 else sp_next s + 1)\<rparr>
        in case sp_groups s h of
             None \<Rightarrow>
               if sp_used s = ME then (EvNumber 0, s')
               else let s' = s'\<lparr>sp_used := sp_used s + 1\<rparr> in
                 if ML = 0 then (EvNumber 0, spec_put h (Some []) s')
                 else (EvNumber (sp_next s), spec_put h (Some [l]) s')
           | Some ls \<Rightarrow>
               if length ls = ML then (EvNumber 0, s')
               else (EvNumber (sp_next s), spec_put h (Some (ls @ [l])) s'))"

fun drop_id :: "u32 \<Rightarrow> listener list \<Rightarrow> listener list" where
  "drop_id lid [] = []"
| "drop_id lid (l # ls) = (if le_id l = lid then ls else l # drop_id lid ls)"

definition stays :: "listener \<Rightarrow> bool" where "stays l \<longleftrightarrow> \<not> le_marked l \<and> \<not> le_once l"

fun spec_exec :: "nat \<Rightarrow> nat \<Rightarrow> ev_op \<Rightarrow> ev_spec \<Rightarrow> ev_answer \<times> ev_spec" where
  "spec_exec ME ML (EvAdd h cb once) s = spec_add ME ML h cb once s"
| "spec_exec ME ML (EvRemoveId h lid) s =
     (case sp_groups s h of
        None \<Rightarrow> (EvFound False, s)
      | Some ls \<Rightarrow> if lid \<in> le_id ` set ls then (EvFound True, spec_put h (Some (drop_id lid ls)) s)
                   else (EvFound False, s))"
| "spec_exec ME ML (EvRemove h) s =
     (case sp_groups s h of
        None \<Rightarrow> (EvRemoved 0, s)
      | Some ls \<Rightarrow> (EvRemoved (length ls), spec_put h None s))"
| "spec_exec ME ML EvClear s = (EvNone, s\<lparr>sp_groups := (\<lambda>_. None), sp_used := 0\<rparr>)"
| "spec_exec ME ML (EvDispatch h event) s =
     (EvNone,
      case sp_groups s h of
        None \<Rightarrow> s
      | Some ls \<Rightarrow> spec_put h (if (\<exists>l\<in>set ls. \<not> stays l) \<and> filter stays ls = [] then None
                                else Some (filter stays ls)) s)"

text \<open>The same operations of the code; a dispatch with callbacks that only return.\<close>

fun ed_exec :: "ev_op \<Rightarrow> dispatcher \<Rightarrow> ev_answer \<times> dispatcher" where
  "ed_exec (EvAdd h cb once) d = (let (n, d) = addListener h cb once d in (EvNumber n, d))"
| "ed_exec (EvRemoveId h lid) d = (let (b, d) = removeListenerById h lid d in (EvFound b, d))"
| "ed_exec (EvRemove h) d = (let (n, d) = removeListener h d in (EvRemoved n, d))"
| "ed_exec EvClear d = (EvNone, storage_clear d)"
| "ed_exec (EvDispatch h event) d = (EvNone, result_state d (dispatchEvent quiet_env 1 0 event h d))"

section \<open>The abstraction\<close>

definition group_map :: "event_group list \<Rightarrow> u32 \<Rightarrow> listener list option" where
  "group_map gs = map_of (map (\<lambda>eg. (eg_hash eg, llist eg)) (filter eg_active gs))"

definition ed_abs :: "dispatcher \<Rightarrow> ev_spec" where
  "ed_abs d = \<lparr>sp_groups = group_map (glist d), sp_used = length (glist d), sp_next = ed_next_id d\<rparr>"

lemma scan_groups_map:
  "group_map gs h = (case scan_groups h n gs of None \<Rightarrow> None | Some j \<Rightarrow> Some (llist (gs ! (j - n)))) \<and>
   (\<forall>j. scan_groups h n gs = Some j \<longrightarrow> n \<le> j)"
proof (induction gs arbitrary: n)
  case Nil
  then show ?case by (simp add: group_map_def)
next
  case (Cons eg gs)
  from Cons.IH [of "n + 1"] show ?case
    by (auto simp: group_map_def Suc_diff_le split: option.splits)
qed

lemma group_map_Cons:
  "group_map (eg # gs) = (if eg_active eg then (group_map gs)(eg_hash eg \<mapsto> llist eg) else group_map gs)"
  by (simp add: group_map_def)

lemma group_map_find:
  "group_map (glist d) h = (case ev_findGroup h d of None \<Rightarrow> None | Some g \<Rightarrow> Some (slots g d))"
  using scan_groups_map [of "glist d" h 0] by (simp add: ev_findGroup_def split: option.splits)

lemma group_map_update:
  "distinct (active_hashes gs) \<Longrightarrow> g < length gs \<Longrightarrow> eg_active (gs ! g) \<Longrightarrow> eg_hash eg = eg_hash (gs ! g) \<Longrightarrow>
   group_map (gs[g := eg]) = (group_map gs)(eg_hash eg := if eg_active eg then Some (llist eg) else None)"
proof (induction gs arbitrary: g)
  case Nil
  then show ?case by simp
next
  case (Cons fg gs)
  show ?case
  proof (cases g)
    case 0
    have "h \<notin> set (active_hashes gs) \<Longrightarrow> group_map gs h = None" for h
      by (auto simp: group_map_def active_hashes_def map_of_eq_None_iff)
    with 0 Cons.prems show ?thesis by (auto simp: group_map_Cons active_hashes_def fun_eq_iff)
  next
    case (Suc k)
    have "eg_hash (gs ! k) \<in> set (active_hashes gs)" using Suc Cons.prems by (auto simp: active_hashes_def)
    then have "eg_active fg \<Longrightarrow> eg_hash fg \<noteq> eg_hash eg" using Suc Cons.prems by (auto simp: active_hashes_def)
    moreover have "group_map (gs[k := eg]) = (group_map gs)(eg_hash eg := if eg_active eg then Some (llist eg) else None)"
      by (rule Cons.IH) (use Suc Cons.prems in \<open>auto simp: active_hashes_def split: if_splits\<close>)
    ultimately show ?thesis using Suc by (auto simp: group_map_Cons fun_eq_iff)
  qed
qed

lemma ed_abs_set_group:
  assumes "ed_ok d" "g < length (glist d)" "eg_active (glist d ! g)" "eg_hash eg = eg_hash (glist d ! g)"
  shows "ed_abs (set_group g eg d) = spec_put (eg_hash eg) (if eg_active eg then Some (llist eg) else None) (ed_abs d)"
  using assms group_map_update [of "glist d" g eg]
  by (simp add: ed_abs_def spec_put_def glist_set_group ed_ok_def)

lemma ed_abs_call [simp]: "ed_abs (ed_call c d) = ed_abs d"
  by (simp add: ed_abs_def)

lemma drop_id_scan:
  assumes "i < length ls" "le_id (ls ! i) = lid" "\<forall>k<i. le_id (ls ! k) \<noteq> lid"
  shows "drop_id lid ls = take i ls @ drop (Suc i) ls \<and> lid \<in> le_id ` set ls"
  using assms
proof (induction ls arbitrary: i)
  case (Cons l ls)
  show ?case
  proof (cases i)
    case 0
    with Cons.prems show ?thesis by simp
  next
    case (Suc k)
    with Cons.prems Cons.IH [of k] have "drop_id lid ls = take k ls @ drop (Suc k) ls \<and> lid \<in> le_id ` set ls"
      by fastforce
    moreover have "le_id l \<noteq> lid" using Cons.prems(3) Suc by fastforce
    ultimately show ?thesis using Suc by simp
  qed
qed simp

section \<open>A dispatch with passive callbacks\<close>

definition settle_once :: "listener \<Rightarrow> listener" where
  "settle_once l = (if le_once l then mark_for_removal l else l)"

lemma passive_loop:
  "ed_ok d \<Longrightarrow> g < length (glist d) \<Longrightarrow> i + m \<le> length (slots g d) \<Longrightarrow>
   \<exists>e. listener_loop disp quiet_env lvl event g m i needs d =
         Returned (needs \<or> (\<exists>l\<in>set (take m (drop i (slots g d))). \<not> stays l)) e \<and>
       ed_ok e \<and> (\<exists>eg. glist e = (glist d)[g := eg] \<and> eg_hash eg = eg_hash (glist d ! g) \<and>
         eg_active eg = eg_active (glist d ! g) \<and>
         llist eg = take i (slots g d) @ map settle_once (take m (drop i (slots g d))) @ drop (i + m) (slots g d)) \<and>
       ed_depth e = ed_depth d \<and> ed_next_id e = ed_next_id d"
proof (induction m arbitrary: i needs d)
  case 0
  then show ?case by (intro exI [of _ d]) (auto intro!: exI [of _ "glist d ! g"])
next
  case (Suc m)
  define l where "l = slots g d ! i"
  have i: "i < length (slots g d)" using Suc.prems by simp
  have at: "listener_at g i d = Some l" using Suc.prems i by (simp add: listener_at_view l_def)
  have split: "drop i (slots g d) = l # drop (Suc i) (slots g d)" using i by (simp add: Cons_nth_drop_Suc l_def)
  have front: "take (Suc i) (slots g d) = take i (slots g d) @ [l]" using i by (simp add: take_Suc_conv_app_nth l_def)
  show ?case
  proof (cases "le_marked l")
    case True
    then have "\<not> stays l" "settle_once l = l" by (simp_all add: stays_def settle_once_def)
    with Suc.IH [of d "Suc i" True] Suc.prems at True split front show ?thesis by simp
  next
    case False
    have "le_callback l \<noteq> None" using eg_ok_nth [OF Suc.prems(1,2)] i by (auto simp: eg_ok_def l_def)
    then obtain fn where fn: "le_callback l = Some fn" by blast
    let ?d = "ed_call (Invoked lvl (le_id l) fn event) d"
    have inv: "invoke_listener disp quiet_env lvl event l d = Returned () ?d"
      by (simp add: invoke_listener_def fn quiet_env_def)
    have at': "listener_at g i ?d = Some l" using at by (simp add: listener_at_def group_at_def)
    show ?thesis
    proof (cases "le_once l")
      case notonce: False
      then have "stays l" "settle_once l = l" using False by (simp_all add: stays_def settle_once_def)
      with Suc.IH [of ?d "Suc i" needs] Suc.prems at at' inv False notonce split front show ?thesis by simp
    next
      case True
      let ?e = "mark_at g i ?d"
      have ns: "\<not> stays l" "settle_once l = mark_for_removal l" using True by (simp_all add: stays_def settle_once_def)
      have ok: "ed_ok ?d" "g < length (glist ?d)" "i < length (slots g ?d)" using Suc.prems i by simp_all
      note m = mark_at_ok [OF ok]
      note k = eg_mark_ok [OF eg_ok_nth [OF ok(1,2)] ok(3)]
      have e: "glist ?e = (glist d)[g := eg_mark i (glist d ! g)]" using m glist_set_group [OF ok(1,2)] by simp
      have ok': "ed_ok ?e" using m by blast
      have sl: "slots g ?e = take i (slots g d) @ mark_for_removal l # drop (Suc i) (slots g d)"
      proof -
        have "slots g ?e = llist (eg_mark i (glist d ! g))" using e Suc.prems(2) by simp
        also have "\<dots> = (slots g d)[i := mark_for_removal l]" using k by (simp add: l_def)
        finally show ?thesis using i by (simp add: upd_conv_take_nth_drop)
      qed
      from Suc.IH [of ?e "Suc i" True] e ok' k Suc.prems sl i
      obtain f fg where f: "listener_loop disp quiet_env lvl event g m (Suc i) True ?e = Returned True f" "ed_ok f"
        "glist f = (glist d)[g := fg]" "eg_hash fg = eg_hash (glist d ! g)" "eg_active fg = eg_active (glist d ! g)"
        "llist fg = take (Suc i) (slots g ?e) @ map settle_once (take m (drop (Suc i) (slots g ?e))) @
           drop (Suc i + m) (slots g ?e)"
        "ed_depth f = ed_depth d" "ed_next_id f = ed_next_id d"
        by (auto simp: eg_grows_def)
      have "llist fg = take i (slots g d) @ map settle_once (l # take m (drop (Suc i) (slots g d))) @
           drop (Suc i + m) (slots g d)"
        using f(6) ns i by (simp add: sl add.commute)
      with f at at' inv False True ns split show ?thesis
        by (intro exI [of _ f]) (auto intro!: exI [of _ fg])
    qed
  qed
qed

lemma filter_settled: "filter (\<lambda>l. \<not> le_marked l) (map settle_once ls) = filter stays ls"
  by (induction ls) (auto simp: settle_once_def stays_def)

lemma settle_stays: "\<forall>l\<in>set ls. stays l \<Longrightarrow> map settle_once ls = ls \<and> filter stays ls = ls"
  by (induction ls) (auto simp: settle_once_def stays_def)


lemma quiet_dispatch:
  assumes "ed_ok d" "ed_depth d = 0"
  obtains e where "dispatchEvent quiet_env 1 0 event h d = Returned () e" "ed_ok e" "ed_depth e = 0"
    "ed_abs e = snd (spec_exec ME ML (EvDispatch h event) (ed_abs d))"
proof (cases "ev_findGroup h d")
  case None
  with that [of d] assms show ?thesis
    by (simp add: dispatch_group_def ed_abs_def group_map_find)
next
  case (Some g)
  from findGroup_Some [OF Some] have g: "g < length (glist d)" "eg_active (glist d ! g)" "eg_hash (glist d ! g) = h"
    by auto
  have rep: "arr_rep owning (eg_listeners (glist d ! g)) (slots g d)"
    using eg_ok_nth [OF assms(1) g(1)] by (simp add: eg_ok_def)
  have at: "group_at g d = Some (glist d ! g)" "arr_size (eg_listeners (glist d ! g)) = length (slots g d)"
    using assms g arr_rep_size [OF rep] by (simp_all add: group_at_view)
  have views: "glist (enter d) = glist d" "\<And>e. glist (leave e) = glist e" "\<And>e. ed_next_id (leave e) = ed_next_id e"
    "ed_next_id (enter d) = ed_next_id d" by (simp_all add: enter_def leave_def)
  let ?needs = "\<exists>l\<in>set (slots g d). \<not> stays l"
  obtain e eg where e: "listener_loop (dispatchEvent quiet_env 0 1) quiet_env 0 event g (length (slots g d)) 0 False (enter d) =
      Returned ?needs e" "ed_ok e" "glist e = (glist d)[g := eg]" "eg_hash eg = h" "eg_active eg"
      "llist eg = map settle_once (slots g d)" "ed_depth (leave e) = 0" "ed_next_id e = ed_next_id d"
    using passive_loop [of "enter d" g 0 "length (slots g d)" "dispatchEvent quiet_env 0 1" 0 event False] assms g
    by (auto simp: views)
  have spec: "sp_groups (ed_abs d) h = Some (slots g d)" by (simp add: ed_abs_def group_map_find Some)
  have abs_e: "ed_abs e = spec_put h (Some (map settle_once (slots g d))) (ed_abs d)"
    using ed_abs_set_group [OF assms(1) g(1,2), of eg] e g assms(1) glist_set_group [OF assms(1) g(1), of eg]
    by (simp add: ed_abs_def spec_put_def)
  have abs_leave: "ed_abs (leave e) = ed_abs e" by (simp add: ed_abs_def views)
  have ok: "ed_ok (leave e)" using e by simp
  have g': "g < length (glist e)" "glist e ! g = eg" using e g by simp_all
  show ?thesis
  proof (cases ?needs)
    case False
    then have "map settle_once (slots g d) = slots g d" "filter stays (slots g d) = slots g d"
      using settle_stays [of "slots g d"] by auto
    moreover have "spec_put h (Some (slots g d)) (ed_abs d) = ed_abs d"
      using spec by (simp add: spec_put_def fun_upd_idem)
    ultimately have "ed_abs (leave e) = snd (spec_exec ME ML (EvDispatch h event) (ed_abs d))"
      using False spec abs_e abs_leave by simp
    moreover have "dispatchEvent quiet_env 1 0 event h d = Returned () (leave e)"
      using Some at e False by (simp add: dispatch_group_def Let_def enter_def [symmetric] leave_def [symmetric])
    ultimately show ?thesis using ok e(7) that by simp
  next
    case True
    let ?f = "set_group g (cleanupMarkedListeners eg) (leave e)"
    have at': "group_at g (leave e) = Some eg" using ok g' by (simp add: group_at_view views)
    have rep': "arr_rep owning (eg_listeners eg) (llist eg)"
      using eg_ok_nth [OF ok, of g] g' by (simp add: views eg_ok_def)
    have "ed_abs ?f = spec_put h (if filter stays (slots g d) = [] then None else Some (filter stays (slots g d))) (ed_abs (leave e))"
      using ed_abs_set_group [OF ok, of g "cleanupMarkedListeners eg"] g' e rep'
      by (simp add: views cleanup_fields llist_cleanup filter_settled)
    then have "ed_abs ?f = snd (spec_exec ME ML (EvDispatch h event) (ed_abs d))"
      using True spec abs_e abs_leave by (auto simp: spec_put_def)
    moreover have "dispatchEvent quiet_env 1 0 event h d = Returned () ?f"
      using Some at e True at' by (simp add: dispatch_group_def Let_def enter_def [symmetric] leave_def [symmetric])
    ultimately show ?thesis using cleanup_group_ok [OF ok at'] e(7) that by simp
  qed
qed

section \<open>The refinement\<close>

definition params :: "dispatcher \<Rightarrow> nat \<times> nat" where
  "params d = (arr_capacity (ed_groups d), ed_max_listeners d)"

lemma params_simps [simp]:
  "params (ed_call c d) = params d" "params (set_group g eg d) = params d" "params (mark_at g i d) = params d"
  "params (bump_id d) = params d" "params (storage_clear d) = params d" "params (enter d) = params d"
  "params (leave d) = params d"
  by (simp_all add: params_def storage_clear_def sa_clear_def enter_def leave_def)

lemma getOrCreate_params: "params (snd (ev_getOrCreateGroup h d)) = params d"
  by (auto simp: ev_getOrCreateGroup_def Let_def params_def sa_push_back_def split: option.splits)

lemma ops_params:
  "params (snd (addListener h cb once d)) = params d"
  "params (snd (removeListenerById h lid d)) = params d" "params (snd (removeListener h d)) = params d"
  using getOrCreate_params [of h "bump_id d"]
  by (auto simp: addListener_def removeListenerById_def removeListener_def bump_id_def [symmetric] Let_def split_beta
      split: option.splits)

interpretation pa: ev_frame True True 0 "\<lambda>_ d e. params e = params d" "\<lambda>_ d e. params e = params d"
  by unfold_locales (auto simp: ops_params)

lemma next_id_frame:
  "ed_next_id (snd (ev_getOrCreateGroup h d)) = ed_next_id d"
  by (auto simp: ev_getOrCreateGroup_def Let_def split: option.splits)

definition spec_bump :: "ev_spec \<Rightarrow> ev_spec" where
  "spec_bump s = s\<lparr>sp_next := (if sp_next s + 1 = 0 then 1 else sp_next s + 1)\<rparr>"

lemma ed_abs_bump: "ed_abs (bump_id d) = spec_bump (ed_abs d)"
  by (simp add: ed_abs_def spec_bump_def bump_id_def)

lemma add_refines:
  assumes ok: "ed_ok d" and p: "params d = (ME, ML)"
  shows "(let (n, e) = addListener h cb once d in (EvNumber n, ed_abs e)) = spec_add ME ML h cb once (ed_abs d)"
proof -
  have ME: "arr_capacity (ed_groups d) = ME" "ed_max_listeners d = ML" using p by (simp_all add: params_def)
  have spec: "spec_add ME ML h cb once (ed_abs d) =
    (if cb = None then (EvNumber 0, ed_abs d)
     else case group_map (glist d) h of
        None \<Rightarrow> if length (glist d) = ME then (EvNumber 0, spec_bump (ed_abs d))
          else let s = (spec_bump (ed_abs d))\<lparr>sp_used := length (glist d) + 1\<rparr> in
            if ML = 0 then (EvNumber 0, spec_put h (Some []) s)
            else (EvNumber (ed_next_id d), spec_put h (Some [ListenerEntry h (ed_next_id d) cb once]) s)
      | Some ls \<Rightarrow> if length ls = ML then (EvNumber 0, spec_bump (ed_abs d))
          else (EvNumber (ed_next_id d), spec_put h (Some (ls @ [ListenerEntry h (ed_next_id d) cb once])) (spec_bump (ed_abs d))))"
  proof -
    have "sp_groups (ed_abs d) = group_map (glist d)" "sp_used (ed_abs d) = length (glist d)"
      "sp_next (ed_abs d) = ed_next_id d" by (simp_all add: ed_abs_def)
    then show ?thesis by (simp only: spec_add_def spec_bump_def Let_def)
  qed
  text \<open>The state after \<open>getOrCreateGroup\<close>, and the group it returns.\<close>
  have created: "ev_findGroup h d = Some g \<and> e = bump_id d \<or>
      ev_findGroup h d = None \<and> length (glist d) \<noteq> ME \<and> slots g e = [] \<and>
        ed_abs e = spec_put h (Some []) ((spec_bump (ed_abs d))\<lparr>sp_used := length (glist d) + 1\<rparr>)"
    if "ev_getOrCreateGroup h (bump_id d) = (Some g, e)" for g e
  proof (cases "ev_findGroup h d")
    case (Some k)
    with that show ?thesis by (auto simp: ev_getOrCreateGroup_def ev_findGroup_def)
  next
    case None
    have okb: "ed_ok (bump_id d)" using ok by simp
    from okb show ?thesis
    proof (cases rule: getOrCreate_cases [where h = h])
      case full
      with that show ?thesis by simp
    next
      case (found k)
      with None show ?thesis by (auto simp: findGroup_None active_hashes_def)
    next
      case (new f)
      have nil: "contents (StaticArray ML :: listener arr) = []"
        by (simp add: StaticArray_def arr_rep_contents [OF arr_rep_ArrayBase [of owning]])
      have gm: "group_map (gs @ [\<lparr>eg_hash = h, eg_active = True, eg_listeners = StaticArray ML\<rparr>]) =
          (group_map gs)(h := Some [])" if "h \<notin> set (active_hashes gs)" for gs
        using that by (induction gs) (auto simp: group_map_Cons active_hashes_def fun_upd_twist nil group_map_def)
      from that new have "g = length (glist d)" "e = f" by simp_all
      with new gm [of "glist d"] ME None show ?thesis
        by (auto simp: ed_abs_def spec_put_def spec_bump_def bump_id_def nil nth_append)
    qed
  qed
  from ok show ?thesis
  proof (cases rule: add_cases [where h = h and cb = cb and once = once])
    case no_callback
    with spec show ?thesis by simp
  next
    case no_group
    then have "ev_findGroup h d = None" by (simp add: findGroup_None)
    then have "group_map (glist d) h = None" by (simp add: group_map_find)
    with no_group spec ME show ?thesis by (auto simp: ed_abs_bump)
  next
    case (full g e)
    from created [OF full(2)] show ?thesis
    proof (elim disjE conjE)
      assume "ev_findGroup h d = Some g" "e = bump_id d"
      with full spec ME show ?thesis by (auto simp: group_map_find ed_abs_bump)
    next
      assume "ev_findGroup h d = None" "length (glist d) \<noteq> ME" "slots g e = []"
        "ed_abs e = spec_put h (Some []) ((spec_bump (ed_abs d))\<lparr>sp_used := length (glist d) + 1\<rparr>)"
      with full spec ME show ?thesis by (auto simp: group_map_find)
    qed
  next
    case (added g e eg)
    have abs: "ed_abs (set_group g eg e) = spec_put h (Some (llist eg)) (ed_abs e)"
      using ed_abs_set_group [OF added(3,7,9), of eg] added by simp
    from created [OF added(2)] show ?thesis
    proof (elim disjE conjE)
      assume "ev_findGroup h d = Some g" "e = bump_id d"
      with added abs spec ME show ?thesis by (auto simp: group_map_find ed_abs_bump)
    next
      assume "ev_findGroup h d = None" "length (glist d) \<noteq> ME" "slots g e = []"
        "ed_abs e = spec_put h (Some []) ((spec_bump (ed_abs d))\<lparr>sp_used := length (glist d) + 1\<rparr>)"
      with added abs spec ME show ?thesis by (auto simp: group_map_find spec_put_def)
    qed
  qed
qed

lemma exec_refines:
  assumes ok: "ed_ok d" "ed_depth d = 0" and p: "params d = (ME, ML)"
  shows "(let (a, e) = ed_exec op d in (a, ed_abs e)) = spec_exec ME ML op (ed_abs d) \<and>
    ed_ok (snd (ed_exec op d)) \<and> ed_depth (snd (ed_exec op d)) = 0 \<and> params (snd (ed_exec op d)) = (ME, ML)"
proof (cases op)
  case (EvAdd h cb once)
  with add_refines [OF ok(1) p, of h cb once] add_ok [OF ok(1)] ok p show ?thesis
    by (simp add: split_beta op_frames ops_params)
next
  case (EvRemoveId h lid)
  have frame: "ed_ok (snd (ed_exec op d)) \<and> ed_depth (snd (ed_exec op d)) = 0 \<and> params (snd (ed_exec op d)) = (ME, ML)"
    using EvRemoveId removeId_ok [OF ok(1)] ok p by (simp add: split_beta op_frames ops_params)
  from ok(1) have "(let (a, e) = ed_exec op d in (a, ed_abs e)) = spec_exec ME ML op (ed_abs d)"
  proof (cases rule: removeId_cases [where h = h and lid = lid])
    case unknown
    then show ?thesis by (auto simp: EvRemoveId ed_abs_def group_map_find split: option.splits)
  next
    case (deferred g i)
    with ok show ?thesis by simp
  next
    case (erased g i eg)
    then show ?thesis
      using ed_abs_set_group [OF ok(1), of g eg] drop_id_scan [of i "slots g d" lid]
      by (simp add: EvRemoveId ed_abs_def group_map_find)
  qed
  with frame show ?thesis by blast
next
  case (EvRemove h)
  have frame: "ed_ok (snd (ed_exec op d)) \<and> ed_depth (snd (ed_exec op d)) = 0 \<and> params (snd (ed_exec op d)) = (ME, ML)"
    using EvRemove remove_ok [OF ok(1)] ok p by (simp add: split_beta op_frames ops_params)
  from ok(1) have "(let (a, e) = ed_exec op d in (a, ed_abs e)) = spec_exec ME ML op (ed_abs d)"
  proof (cases rule: remove_cases [where h = h])
    case unknown
    then show ?thesis by (simp add: EvRemove ed_abs_def group_map_find findGroup_None [symmetric])
  next
    case (deferred g eg)
    with ok show ?thesis by simp
  next
    case (cleared g eg)
    then show ?thesis
      using ed_abs_set_group [OF ok(1), of g eg] by (simp add: EvRemove ed_abs_def group_map_find)
  qed
  with frame show ?thesis by blast
next
  case EvClear
  with clear_ok [OF ok(1)] ok p show ?thesis
    by (simp add: ed_abs_def group_map_def) (simp add: storage_clear_def)
next
  case (EvDispatch h event)
  from ok obtain e where e: "dispatchEvent quiet_env 1 0 event h d = Returned () e" "ed_ok e" "ed_depth e = 0"
    "ed_abs e = snd (spec_exec ME ML (EvDispatch h event) (ed_abs d))" by (rule quiet_dispatch)
  have "params e = params d"
    using pa.dispatch_rel [where env = quiet_env and lvl = 0 and n = 1 and d = d and event = event and h = h] e(1)
    by (simp add: env_ok_def all_ok)
  with e p EvDispatch show ?thesis by (simp add: result_state_def)
qed


primrec ed_run :: "ev_op list \<Rightarrow> dispatcher \<Rightarrow> ev_answer list \<times> dispatcher" where
  "ed_run [] d = ([], d)"
| "ed_run (op # ops) d = (let (a, d) = ed_exec op d; (as, d) = ed_run ops d in (a # as, d))"

primrec spec_run :: "nat \<Rightarrow> nat \<Rightarrow> ev_op list \<Rightarrow> ev_spec \<Rightarrow> ev_answer list \<times> ev_spec" where
  "spec_run ME ML [] s = ([], s)"
| "spec_run ME ML (op # ops) s = (let (a, s) = spec_exec ME ML op s; (as, s) = spec_run ME ML ops s in (a # as, s))"

lemma ed_run_refines:
  "ed_ok d \<Longrightarrow> ed_depth d = 0 \<Longrightarrow> params d = (ME, ML) \<Longrightarrow>
   fst (ed_run ops d) = fst (spec_run ME ML ops (ed_abs d)) \<and>
   ed_abs (snd (ed_run ops d)) = snd (spec_run ME ML ops (ed_abs d)) \<and>
   ed_ok (snd (ed_run ops d)) \<and> ed_depth (snd (ed_run ops d)) = 0 \<and> params (snd (ed_run ops d)) = (ME, ML)"
proof (induction ops arbitrary: d)
  case (Cons op ops)
  from exec_refines [OF Cons.prems, of op] have e: "spec_exec ME ML op (ed_abs d) = (fst (ed_exec op d), ed_abs (snd (ed_exec op d)))"
    "ed_ok (snd (ed_exec op d))" "ed_depth (snd (ed_exec op d)) = 0" "params (snd (ed_exec op d)) = (ME, ML)"
    by (auto simp: split_beta)
  from Cons.IH [OF e(2-4)] e(1) show ?case by (simp add: split_beta)
qed simp

definition spec_init :: ev_spec where
  "spec_init = \<lparr>sp_groups = (\<lambda>_. None), sp_used = 0, sp_next = 1\<rparr>"

lemma init_refines:
  "ed_depth (BaseEventDispatcher ME ML) = 0" "params (BaseEventDispatcher ME ML) = (ME, ML)"
  "ed_abs (BaseEventDispatcher ME ML) = spec_init"
  by (simp_all add: ed_abs_def BaseEventDispatcher_ok group_map_def spec_init_def)
     (simp_all add: BaseEventDispatcher_def params_def StaticArray_def ArrayBase_def)

text \<open>C10: Seen from outside of a dispatch, the dispatcher is a finite map from event hashes to
  listener lists: every sequence of registrations, removals by number and by event, clears and
  dispatches returns the same answers as the map, which appends, removes the first listener with
  the number, drops the key, empties, and keeps the listeners that are not once-listeners.
  Registration fails exactly when the callback is empty, the list is full, or the event is new and
  as many groups have been created since the last clear as there are slots.\<close>

theorem dispatcher_refines_map:
  "fst (ed_run ops (BaseEventDispatcher ME ML)) = fst (spec_run ME ML ops spec_init) \<and>
   ed_abs (snd (ed_run ops (BaseEventDispatcher ME ML))) = snd (spec_run ME ML ops spec_init)"
  using ed_run_refines [OF BaseEventDispatcher_ok(1) init_refines(1,2), of ops] by (simp add: init_refines(3))

section \<open>Slots that are never used again\<close>

definition on_off :: "nat option \<Rightarrow> u32 \<Rightarrow> ev_op list" where
  "on_off cb h = [EvAdd h cb False, EvRemove h]"

lemma spec_on_off:
  assumes "cb \<noteq> None" "0 < ML" "sp_groups s = (\<lambda>_. None)" "sp_used s < ME"
  shows "sp_groups (snd (spec_run ME ML (on_off cb h) s)) = (\<lambda>_. None)"
    "sp_used (snd (spec_run ME ML (on_off cb h) s)) = Suc (sp_used s)"
  using assms by (auto simp: on_off_def spec_add_def spec_put_def Let_def)

lemma spec_run_append: "snd (spec_run ME ML (xs @ ys) s) = snd (spec_run ME ML ys (snd (spec_run ME ML xs s)))"
  by (induction xs arbitrary: s) (simp_all add: split_beta)

lemma spec_cycles:
  assumes "cb \<noteq> None" "0 < ML"
  shows "sp_groups s = (\<lambda>_. None) \<Longrightarrow> sp_used s + length hs \<le> ME \<Longrightarrow>
    sp_groups (snd (spec_run ME ML (concat (map (on_off cb) hs)) s)) = (\<lambda>_. None) \<and>
    sp_used (snd (spec_run ME ML (concat (map (on_off cb) hs)) s)) = sp_used s + length hs"
proof (induction hs arbitrary: s)
  case (Cons h hs)
  from spec_on_off [OF assms Cons.prems(1), where ME = ME and h = h] Cons.prems(2)
  have "sp_groups (snd (spec_run ME ML (on_off cb h) s)) = (\<lambda>_. None)"
    "sp_used (snd (spec_run ME ML (on_off cb h) s)) = Suc (sp_used s)" by auto
  with Cons.IH [of "snd (spec_run ME ML (on_off cb h) s)"] Cons.prems(2) show ?case by (simp add: spec_run_append)
qed simp

lemma no_groups_no_listeners:
  assumes "group_map (glist d) = (\<lambda>_. None)"
  shows "ed_count_all d = 0"
proof -
  have "\<forall>eg\<in>set (glist d). \<not> eg_active eg"
    using fun_cong [OF assms] by (auto simp: group_map_def map_of_eq_None_iff)
  then have "(\<Sum>eg\<leftarrow>glist d. if \<not> eg_active eg then 0 else live_count (llist eg)) = (\<Sum>eg\<leftarrow>glist d. 0)"
    by (intro arg_cong [where f = sum_list] map_cong) auto
  then show ?thesis by (simp add: ed_count_all_def)
qed

text \<open>C40: Registering a listener and removing all listeners of its event, as many times as there
  are group slots and be it always the same event, leaves a dispatcher without any listener in
  which nothing can be registered any more: removal marks the group as free, but the code that
  creates groups never looks for a free one.\<close>

theorem event_slots_run_out:
  assumes "length hs = ME" "0 < ML" "cb \<noteq> None"
  defines "d \<equiv> snd (ed_run (concat (map (on_off cb) hs)) (BaseEventDispatcher ME ML))"
  shows "ed_count_all d = 0 \<and> fst (addListener h cb' once d) = 0"
proof -
  from ed_run_refines [OF BaseEventDispatcher_ok(1) init_refines(1,2), of "concat (map (on_off cb) hs)"]
  have r: "ed_abs d = snd (spec_run ME ML (concat (map (on_off cb) hs)) spec_init)" "ed_ok d" "params d = (ME, ML)"
    by (simp_all add: d_def init_refines(3))
  from spec_cycles [OF assms(3,2), of spec_init hs ME] assms(1) r(1)
  have s: "sp_groups (ed_abs d) = (\<lambda>_. None)" "sp_used (ed_abs d) = ME" by (simp_all add: spec_init_def)
  then have "ed_count_all d = 0" by (intro no_groups_no_listeners) (simp add: ed_abs_def)
  moreover have "fst (addListener h cb' once d) = 0"
    using add_refines [OF r(2,3), of h cb' once] s by (auto simp: spec_add_def split_beta Let_def split: if_splits)
  ultimately show ?thesis by blast
qed

theorem event_slots_run_out_witness:
  "ed_count_all (snd (ed_run (concat (map (on_off (Some 0)) [5, 5])) (BaseEventDispatcher 2 1))) = 0 \<and>
   fst (addListener 5 (Some 1) False (snd (ed_run (concat (map (on_off (Some 0)) [5, 5])) (BaseEventDispatcher 2 1)))) = 0"
  using event_slots_run_out [of "[5, 5]" 2 1 "Some 0" 5 "Some 1" False] by simp

end
