(* ===== verification/Socket_Api.thy ===== *)
theory Socket_Api
  imports Prelude
begin

text \<open>
  The interface between the WiFi library and lwIP. The stack is not part of the program: an
  execution is parameterised by a function \<open>os\<close> that answers every call, and may take all earlier
  calls and answers into account. A call is a request with its arguments; the answer has the
  returned number, the error number the call sets when it fails, and the data it writes through
  pointers. Descriptors are C integers. The clock is part of the interface.
\<close>

section \<open>Calls and answers\<close>

datatype errno = EAGAIN | EWOULDBLOCK | EINTR | EINPROGRESS | EBADF | EOTHER nat

datatype sock_opt =
    SO_SNDBUF | SO_RCVBUF | SO_SNDTIMEO | SO_RCVTIMEO | SO_KEEPALIVE | SO_REUSEADDR | SO_ERROR
  | TCP_NODELAY | TCP_KEEPIDLE | TCP_KEEPINTVL | TCP_KEEPCNT
  | IP_ADD_MEMBERSHIP | IP_DROP_MEMBERSHIP | OPTION int int

datatype sock_req =
    Req_socket
  | Req_nonblock int bool
  | Req_setsockopt int sock_opt "int list"
  | Req_getsockopt int sock_opt
  | Req_connect int u32 u16
  | Req_bind int u32 u16
  | Req_listen int nat
  | Req_accept int
  | Req_select_write int "int option"
  | Req_poll_in int
  | Req_recv int nat
  | Req_fionread int
  | Req_send int "u8 list"
  | Req_sendto int "u8 list" u32 u16
  | Req_recvfrom int nat
  | Req_getpeername int
  | Req_getsockname int
  | Req_dns "char list"
  | Req_event_wait nat nat
  | Req_event_clear nat
  | Req_event_set nat
  | Req_yield
  | Req_close int
  | Req_millis
  | Req_micros

record sock_ans =
  an_ret :: int
  an_errno :: errno
  an_bytes :: "u8 list"
  an_value :: int
  an_hup :: bool
  an_time :: u32
  an_ip :: u32
  an_port :: u16

type_synonym sock_log = "(sock_req \<times> sock_ans) list"

type_synonym lwip = "sock_log \<Rightarrow> sock_req \<Rightarrow> sock_ans"

text \<open>The part of the state every socket operation has: the calls made so far and \<open>errno\<close>, which only a
  failing call sets.\<close>

record net =
  nt_calls :: sock_log
  nt_errno :: errno

definition sys :: "lwip \<Rightarrow> sock_req \<Rightarrow> 'a net_scheme \<Rightarrow> sock_ans \<times> 'a net_scheme" where
  "sys os req w =
     (let ans = os (nt_calls w) req
      in (ans, w\<lparr>nt_calls := nt_calls w @ [(req, ans)],
                 nt_errno := (if an_ret ans < 0 then an_errno ans else nt_errno w)\<rparr>))"

text \<open>\<open>errno == EAGAIN || errno == EWOULDBLOCK || errno == EINTR\<close>\<close>

fun retryable :: "errno \<Rightarrow> bool" where
  "retryable EAGAIN \<longleftrightarrow> True"
| "retryable EWOULDBLOCK \<longleftrightarrow> True"
| "retryable EINTR \<longleftrightarrow> True"
| "retryable EINPROGRESS \<longleftrightarrow> False"
| "retryable EBADF \<longleftrightarrow> False"
| "retryable (EOTHER n) \<longleftrightarrow> False"

definition millis :: "lwip \<Rightarrow> 'a net_scheme \<Rightarrow> u32 \<times> 'a net_scheme" where
  "millis os w = (let (a, w) = sys os Req_millis w in (an_time a, w))"

definition micros :: "lwip \<Rightarrow> 'a net_scheme \<Rightarrow> u32 \<times> 'a net_scheme" where
  "micros os w = (let (a, w) = sys os Req_micros w in (an_time a, w))"

section \<open>What lwIP documents\<close>

text \<open>A successful \<open>recv\<close> delivers as many bytes as it returns, and not more than were asked for; a
  successful \<open>send\<close> takes not more bytes than it was given.\<close>

definition good_transfer :: "lwip \<Rightarrow> bool" where
  "good_transfer os \<longleftrightarrow>
     (\<forall>calls fd n. 0 < an_ret (os calls (Req_recv fd n)) \<longrightarrow>
        an_ret (os calls (Req_recv fd n)) = int (length (an_bytes (os calls (Req_recv fd n)))) \<and>
        length (an_bytes (os calls (Req_recv fd n))) \<le> n) \<and>
     (\<forall>calls fd xs. an_ret (os calls (Req_send fd xs)) \<le> int (length xs))"

text \<open>The descriptors that were handed out and not closed.\<close>

fun open_after :: "(sock_req \<times> sock_ans) \<Rightarrow> int set \<Rightarrow> int set" where
  "open_after (Req_socket, a) fds = (if 0 \<le> an_ret a then insert (an_ret a) fds else fds)"
| "open_after (Req_accept fd, a) fds = (if 0 \<le> an_ret a then insert (an_ret a) fds else fds)"
| "open_after (Req_close fd, a) fds = fds - {fd}"
| "open_after _ fds = fds"

definition open_fds :: "sock_log \<Rightarrow> int set" where
  "open_fds calls = fold open_after calls {}"

text \<open>A new descriptor is not one that is still open.\<close>

definition fresh_fds :: "lwip \<Rightarrow> bool" where
  "fresh_fds os \<longleftrightarrow>
     (\<forall>calls. an_ret (os calls Req_socket) \<notin> open_fds calls) \<and>
     (\<forall>calls fd. an_ret (os calls (Req_accept fd)) \<notin> open_fds calls)"

text \<open>The descriptor a call names, and the logs in which every call names an open descriptor (or a
  negative one, which the stack rejects).\<close>

fun req_fd :: "sock_req \<Rightarrow> int option" where
  "req_fd (Req_nonblock fd b) = Some fd"
| "req_fd (Req_setsockopt fd opt v) = Some fd"
| "req_fd (Req_getsockopt fd opt) = Some fd"
| "req_fd (Req_connect fd ip p) = Some fd"
| "req_fd (Req_bind fd ip p) = Some fd"
| "req_fd (Req_listen fd k) = Some fd"
| "req_fd (Req_accept fd) = Some fd"
| "req_fd (Req_select_write fd t) = Some fd"
| "req_fd (Req_poll_in fd) = Some fd"
| "req_fd (Req_recv fd k) = Some fd"
| "req_fd (Req_fionread fd) = Some fd"
| "req_fd (Req_send fd xs) = Some fd"
| "req_fd (Req_sendto fd xs ip p) = Some fd"
| "req_fd (Req_recvfrom fd k) = Some fd"
| "req_fd (Req_getpeername fd) = Some fd"
| "req_fd (Req_getsockname fd) = Some fd"
| "req_fd (Req_close fd) = Some fd"
| "req_fd _ = None"

definition names_open :: "sock_req \<Rightarrow> int set \<Rightarrow> bool" where
  "names_open req fds \<longleftrightarrow> (case req_fd req of None \<Rightarrow> True | Some fd \<Rightarrow> fd < 0 \<or> fd \<in> fds)"

definition safe_log :: "sock_log \<Rightarrow> bool" where
  "safe_log calls \<longleftrightarrow> (\<forall>k < length calls. names_open (fst (calls ! k)) (open_fds (take k calls)))"

text \<open>A concrete stack: descriptors count up, \<open>recv\<close> delivers up to three bytes, \<open>send\<close> takes up to two, the
  clock ticks with every call, and every other call succeeds.\<close>

definition answer :: "int \<Rightarrow> u8 list \<Rightarrow> sock_log \<Rightarrow> sock_ans" where
  "answer r bs calls =
     \<lparr>an_ret = r, an_errno = EAGAIN, an_bytes = bs, an_value = 0, an_hup = False,
      an_time = of_nat (length calls), an_ip = 1, an_port = 80\<rparr>"

definition new_fd :: "sock_log \<Rightarrow> int" where
  "new_fd calls = fold (\<lambda>c. max (an_ret (snd c) + 1)) calls 3"

fun demo_os :: lwip where
  "demo_os calls Req_socket = answer (new_fd calls) [] calls"
| "demo_os calls (Req_accept fd) = answer (new_fd calls) [] calls"
| "demo_os calls (Req_recv fd n) = answer (int (min n 3)) (take n [1, 2, 3]) calls"
| "demo_os calls (Req_send fd xs) = answer (int (min (length xs) 2)) [] calls"
| "demo_os calls (Req_select_write fd t) = answer 1 [] calls"
| "demo_os calls _ = answer 0 [] calls"

definition demo_net :: net where
  "demo_net = \<lparr>nt_calls = [], nt_errno = EAGAIN\<rparr>"

section \<open>Lemmas\<close>

lemma sys_frame [simp]:
  "nt_calls (snd (sys os req w)) = nt_calls w @ [(req, os (nt_calls w) req)]"
  "fst (sys os req w) = os (nt_calls w) req"
  by (simp_all add: sys_def Let_def)

lemma open_fds_Nil [simp]: "open_fds [] = {}" by (simp add: open_fds_def)

lemma open_fds_snoc: "open_fds (calls @ [c]) = open_after c (open_fds calls)"
  by (simp add: open_fds_def)

lemma safe_log_Nil [simp]: "safe_log []" by (simp add: safe_log_def)

lemma safe_log_snoc:
  "safe_log (calls @ [c]) \<longleftrightarrow> safe_log calls \<and> names_open (fst c) (open_fds calls)"
  by (auto simp: safe_log_def nth_append less_Suc_eq)

text \<open>The calls that neither hand out nor close a descriptor.\<close>

fun quiet :: "sock_req \<Rightarrow> bool" where
  "quiet Req_socket \<longleftrightarrow> False"
| "quiet (Req_accept fd) \<longleftrightarrow> False"
| "quiet (Req_close fd) \<longleftrightarrow> False"
| "quiet _ \<longleftrightarrow> True"

lemma open_after_quiet: "quiet req \<Longrightarrow> open_after (req, a) fds = fds"
  by (cases req) auto

text \<open>The concrete stack keeps the contract.\<close>

lemma demo_transfer: "good_transfer demo_os"
  by (auto simp: good_transfer_def answer_def)

lemma open_after_bound:
  "\<forall>fd \<in> fds. fd < k \<Longrightarrow> an_ret (snd c) < k \<Longrightarrow> \<forall>fd \<in> open_after c fds. fd < k"
  by (cases "(c, fds)" rule: open_after.cases) auto

lemma demo_open: "\<forall>fd \<in> open_fds calls. fd < new_fd calls"
proof (induction calls rule: rev_induct)
  case (snoc c calls)
  then show ?case unfolding open_fds_snoc
    by (intro open_after_bound) (fastforce simp: new_fd_def)+
qed simp

lemma demo_fresh: "fresh_fds demo_os"
  using demo_open by (fastforce simp: fresh_fds_def answer_def)

end
