(* ===== verification/Client_Rx.thy ===== *)
theory Client_Rx
  imports Socket_Api
begin

text \<open>
  The receive buffer of a TCP client (\<open>WiFiClientRxBuffer\<close>, \<open>WiFiClientInternal.h\<close>): 8192 bytes, a
  read position and a fill mark, refilled by non-blocking \<open>recv\<close> calls; a large read goes past the
  buffer. Sizes are natural numbers (a read of 2 GiB and more would not fit the returned \<open>int\<close>).
  The theorems say that reading is a first-in-first-out queue of the bytes that \<open>recv\<close>
  delivered: none is lost, repeated or reordered.
\<close>

section \<open>The buffer\<close>

definition RX_SIZE :: nat where "RX_SIZE = 8192"

record rx_buffer =
  rb_buffer :: "u8 list"
  rb_pos :: nat
  rb_fill :: nat
  rb_fd :: int
  rb_failed :: bool

definition WiFiClientRxBuffer :: "int \<Rightarrow> rx_buffer" where
  "WiFiClientRxBuffer fd =
     \<lparr>rb_buffer = replicate RX_SIZE 0, rb_pos = 0, rb_fill = 0, rb_fd = fd, rb_failed = False\<rparr>"

definition hasBuffered :: "rx_buffer \<Rightarrow> bool" where
  "hasBuffered rx \<longleftrightarrow> rb_pos rx < rb_fill rx"

text \<open>\<open>errno\<close> after a failed call decides whether the buffer is marked as failed.\<close>

definition note_failure :: "'a net_scheme \<Rightarrow> rx_buffer \<Rightarrow> rx_buffer" where
  "note_failure w rx = (if \<not> retryable (nt_errno w) then rx\<lparr>rb_failed := True\<rparr> else rx)"

definition r_available :: "lwip \<Rightarrow> rx_buffer \<Rightarrow> 'a net_scheme \<Rightarrow> nat \<times> rx_buffer \<times> 'a net_scheme" where
  "r_available os rx w =
     (if rb_fd rx < 0 then (0, rx, w)
      else let (a, w) = sys os (Req_fionread (rb_fd rx)) w in
        if an_ret a < 0 then (0, rx\<lparr>rb_failed := True\<rparr>, w)
        else (if 0 < an_value a then nat (an_value a) else 0, rx, w))"

text \<open>\<open>fillBuffer\<close> after the rewind: one \<open>recv\<close> into the free end of the buffer.\<close>

definition rx_append :: "lwip \<Rightarrow> rx_buffer \<Rightarrow> 'a net_scheme \<Rightarrow> bool \<times> rx_buffer \<times> 'a net_scheme" where
  "rx_append os rx w =
     (let (a, w) = sys os (Req_recv (rb_fd rx) (RX_SIZE - rb_fill rx)) w in
      if an_ret a < 0 then (False, note_failure w rx, w)
      else
        let buf = (if 0 < an_ret a then memcpy_to (rb_buffer rx) (rb_fill rx) (an_bytes a) else rb_buffer rx)
        in (0 < an_ret a, rx\<lparr>rb_buffer := buf, rb_fill := rb_fill rx + nat (an_ret a)\<rparr>, w))"

definition fillBuffer :: "lwip \<Rightarrow> rx_buffer \<Rightarrow> 'a net_scheme \<Rightarrow> bool \<times> rx_buffer \<times> 'a net_scheme" where
  "fillBuffer os rx w =
     (if rb_pos rx = rb_fill rx then rx_append os (rx\<lparr>rb_pos := 0, rb_fill := 0\<rparr>) w
      else if RX_SIZE \<le> rb_fill rx then (False, rx, w)
      else rx_append os rx w)"

text \<open>Taking \<open>n\<close> buffered bytes, with the rewind of a drained buffer.\<close>

definition rx_take :: "nat \<Rightarrow> rx_buffer \<Rightarrow> u8 list \<times> rx_buffer" where
  "rx_take n rx =
     (let out = take n (drop (rb_pos rx) (rb_buffer rx));
          pos = rb_pos rx + n
      in (out, if pos = rb_fill rx then rx\<lparr>rb_pos := 0, rb_fill := 0\<rparr> else rx\<lparr>rb_pos := pos\<rparr>))"

text \<open>The returned number of a read that got nothing from the socket.\<close>

definition rx_result :: "nat \<Rightarrow> rx_buffer \<Rightarrow> int" where
  "rx_result got rx = (if got \<noteq> 0 then int got else if rb_failed rx then - 1 else 0)"

text \<open>The second half of \<open>read\<close>: the buffer is drained, \<open>out\<close> was served, \<open>len\<close> bytes are still wanted.\<close>

definition rx_read_socket ::
  "lwip \<Rightarrow> u8 list \<Rightarrow> nat \<Rightarrow> rx_buffer \<Rightarrow> 'a net_scheme \<Rightarrow> int \<times> u8 list \<times> rx_buffer \<times> 'a net_scheme" where
  "rx_read_socket os out len rx w =
     (if RX_SIZE \<le> len
      then
        let (a, w) = sys os (Req_recv (rb_fd rx) len) w in
        if 0 < an_ret a then (int (length out) + an_ret a, out @ an_bytes a, rx, w)
        else
          let rx = (if an_ret a < 0 then note_failure w rx else rx)
          in (rx_result (length out) rx, out, rx, w)
      else
        let (a, w) = sys os (Req_recv (rb_fd rx) RX_SIZE) w in
        if 0 < an_ret a
        then
          let rx = rx\<lparr>rb_buffer := memcpy_to (rb_buffer rx) 0 (an_bytes a), rb_fill := nat (an_ret a)\<rparr>;
              toCopy = min len (rb_fill rx);
              (more, rx) = rx_take toCopy rx
          in (int (length out + toCopy), out @ more, rx, w)
        else
          let rx = (if an_ret a < 0 then note_failure w rx else rx)
          in (rx_result (length out) rx, out, rx, w))"

text \<open>\<open>read(dst, len)\<close>; the second result are the bytes written to \<open>dst\<close>.\<close>

definition rx_read ::
  "lwip \<Rightarrow> bool \<Rightarrow> nat \<Rightarrow> rx_buffer \<Rightarrow> 'a net_scheme \<Rightarrow> int \<times> u8 list \<times> rx_buffer \<times> 'a net_scheme" where
  "rx_read os null len rx w =
     (if null \<or> len = 0 then (if rb_failed rx then - 1 else 0, [], rx, w)
      else if rb_pos rx \<noteq> rb_fill rx
      then
        let toCopy = min len (rb_fill rx - rb_pos rx);
            (out, rx) = rx_take toCopy rx
        in if toCopy = len then (int toCopy, out, rx, w)
           else rx_read_socket os out (len - toCopy) rx w
      else rx_read_socket os [] len rx w)"

definition rx_peek :: "lwip \<Rightarrow> rx_buffer \<Rightarrow> 'a net_scheme \<Rightarrow> int \<times> rx_buffer \<times> 'a net_scheme" where
  "rx_peek os rx w =
     (if rb_pos rx = rb_fill rx
      then let (ok, rx, w) = fillBuffer os rx w in
        if ok then (uint (rb_buffer rx ! rb_pos rx), rx, w) else (- 1, rx, w)
      else (uint (rb_buffer rx ! rb_pos rx), rx, w))"

definition rx_available :: "lwip \<Rightarrow> rx_buffer \<Rightarrow> 'a net_scheme \<Rightarrow> nat \<times> rx_buffer \<times> 'a net_scheme" where
  "rx_available os rx w =
     (if rb_pos rx < rb_fill rx then (rb_fill rx - rb_pos rx, rx, w) else r_available os rx w)"

text \<open>The draining loop of \<open>flush\<close> ends when the socket has no more data; \<open>n\<close> bounds the iterations, and
  \<open>None\<close> is a loop that is still running.\<close>

fun rx_drain :: "lwip \<Rightarrow> nat \<Rightarrow> rx_buffer \<Rightarrow> 'a net_scheme \<Rightarrow> (rx_buffer \<times> 'a net_scheme) option" where
  "rx_drain os 0 rx w = None"
| "rx_drain os (Suc n) rx w =
     (let (a, w) = sys os (Req_recv (rb_fd rx) RX_SIZE) w in
      if an_ret a \<le> 0 then Some (rx, w)
      else rx_drain os n (rx\<lparr>rb_buffer := memcpy_to (rb_buffer rx) 0 (an_bytes a)\<rparr>) w)"

definition rx_flush :: "lwip \<Rightarrow> nat \<Rightarrow> rx_buffer \<Rightarrow> 'a net_scheme \<Rightarrow> (rx_buffer \<times> 'a net_scheme) option" where
  "rx_flush os n rx w = rx_drain os n (rx\<lparr>rb_pos := 0, rb_fill := 0\<rparr>) w"

section \<open>The bytes in flight\<close>

text \<open>The bytes a socket delivered, and those still in the buffer.\<close>

fun received_by :: "int \<Rightarrow> (sock_req \<times> sock_ans) \<Rightarrow> u8 list" where
  "received_by fd (Req_recv f n, a) = (if f = fd \<and> 0 < an_ret a then an_bytes a else [])"
| "received_by fd _ = []"

definition received :: "int \<Rightarrow> sock_log \<Rightarrow> u8 list" where
  "received fd calls = concat (map (received_by fd) calls)"

definition unread :: "rx_buffer \<Rightarrow> u8 list" where
  "unread rx = take (rb_fill rx - rb_pos rx) (drop (rb_pos rx) (rb_buffer rx))"

definition rx_ok :: "rx_buffer \<Rightarrow> bool" where
  "rx_ok rx \<longleftrightarrow> length (rb_buffer rx) = RX_SIZE \<and> rb_pos rx \<le> rb_fill rx \<and> rb_fill rx \<le> RX_SIZE \<and>
     (rb_pos rx = rb_fill rx \<longrightarrow> rb_fill rx = 0)"

lemma received_append [simp]: "received fd (c1 @ c2) = received fd c1 @ received fd c2"
  by (simp add: received_def)

lemma received_snoc [simp]: "received fd [c] = received_by fd c"
  by (simp add: received_def)

lemma length_unread: "rx_ok rx \<Longrightarrow> length (unread rx) = rb_fill rx - rb_pos rx"
  by (auto simp: unread_def rx_ok_def min_def)

lemma unread_empty [simp]: "rb_pos rx = rb_fill rx \<Longrightarrow> unread rx = []"
  by (simp add: unread_def)

lemma rx_ok_init: "rx_ok (WiFiClientRxBuffer fd)" "unread (WiFiClientRxBuffer fd) = []"
  by (simp_all add: rx_ok_def WiFiClientRxBuffer_def)

lemma note_failure_frame [simp]:
  "rb_buffer (note_failure w rx) = rb_buffer rx" "rb_pos (note_failure w rx) = rb_pos rx"
  "rb_fill (note_failure w rx) = rb_fill rx" "rb_fd (note_failure w rx) = rb_fd rx"
  by (simp_all add: note_failure_def)

lemma rx_take_spec:
  assumes "rx_ok rx" "n \<le> rb_fill rx - rb_pos rx" "rb_pos rx < rb_fill rx"
  shows "fst (rx_take n rx) = take n (unread rx) \<and> unread (snd (rx_take n rx)) = drop n (unread rx) \<and>
    rx_ok (snd (rx_take n rx)) \<and> rb_fd (snd (rx_take n rx)) = rb_fd rx \<and> rb_failed (snd (rx_take n rx)) = rb_failed rx"
  using assms by (auto simp: rx_take_def Let_def unread_def rx_ok_def drop_take min_def add.commute)

text \<open>What a \<open>recv\<close> answer is under the contract of the stack.\<close>

lemma recv_length:
  assumes "good_transfer os" "0 < an_ret (os calls (Req_recv fd n))"
  shows "length (an_bytes (os calls (Req_recv fd n))) = nat (an_ret (os calls (Req_recv fd n)))"
    "nat (an_ret (os calls (Req_recv fd n))) \<le> n"
proof -
  have "an_ret (os calls (Req_recv fd n)) = int (length (an_bytes (os calls (Req_recv fd n)))) \<and>
      length (an_bytes (os calls (Req_recv fd n))) \<le> n"
    using assms unfolding good_transfer_def by blast
  then show "length (an_bytes (os calls (Req_recv fd n))) = nat (an_ret (os calls (Req_recv fd n)))"
    "nat (an_ret (os calls (Req_recv fd n))) \<le> n" by simp_all
qed

lemma sys_eq:
  "sys os req w = (os (nt_calls w) req, snd (sys os req w))"
  by (simp add: prod_eq_iff)

text \<open>Between two operations the bytes taken so far, followed by the buffered ones, are the bytes the
  socket delivered.\<close>

definition rx_sync :: "u8 list \<Rightarrow> rx_buffer \<Rightarrow> 'a net_scheme \<Rightarrow> bool" where
  "rx_sync got rx w \<longleftrightarrow> rx_ok rx \<and> got @ unread rx = received (rb_fd rx) (nt_calls w)"

lemma rx_sync_take:
  assumes "rx_sync got rx w" "n \<le> rb_fill rx - rb_pos rx" "rb_pos rx < rb_fill rx"
  shows "rx_sync (got @ fst (rx_take n rx)) (snd (rx_take n rx)) w"
    "length (fst (rx_take n rx)) = n" "rb_failed (snd (rx_take n rx)) = rb_failed rx"
    "rb_fd (snd (rx_take n rx)) = rb_fd rx"
  using rx_take_spec [OF _ assms(2,3)] assms length_unread [of rx] by (simp_all add: rx_sync_def)

lemma rx_sync_note [simp]: "rx_sync got (note_failure v rx) w = rx_sync got rx w"
  by (simp add: rx_sync_def rx_ok_def unread_def)

lemma rx_sync_failed [simp]: "rx_sync got (rx\<lparr>rb_failed := b\<rparr>) w = rx_sync got rx w"
  by (simp add: rx_sync_def rx_ok_def unread_def)

text \<open>A \<open>recv\<close> that delivers nothing, and one into the drained buffer.\<close>

lemma rx_sync_nothing:
  "rx_sync got rx w \<Longrightarrow> \<not> 0 < an_ret (os (nt_calls w) (Req_recv fd n)) \<Longrightarrow>
    rx_sync got rx (snd (sys os (Req_recv fd n) w))"
  by (simp add: rx_sync_def)

lemma rx_sync_ioctl: "rx_sync got rx w \<Longrightarrow> rx_sync got rx (snd (sys os (Req_fionread fd) w))"
  by (simp add: rx_sync_def)

lemma rx_sync_append:
  assumes "good_transfer os" "rx_sync got rx w" "n \<le> RX_SIZE - rb_fill rx"
    and "0 < an_ret (os (nt_calls w) (Req_recv (rb_fd rx) n))"
  defines "a \<equiv> os (nt_calls w) (Req_recv (rb_fd rx) n)"
  shows "rx_sync got (rx\<lparr>rb_buffer := memcpy_to (rb_buffer rx) (rb_fill rx) (an_bytes a),
      rb_fill := rb_fill rx + nat (an_ret a)\<rparr>) (snd (sys os (Req_recv (rb_fd rx) n) w))"
proof -
  have l: "length (an_bytes a) = nat (an_ret a)" "nat (an_ret a) \<le> n"
    using recv_length [OF assms(1,4)] by (simp_all add: a_def)
  have ok: "rx_ok rx" using assms(2) by (simp add: rx_sync_def)
  have "rb_fill rx + nat (an_ret a) \<le> RX_SIZE" using l(2) assms(3) ok by (auto simp: rx_ok_def)
  moreover from this have "unread (rx\<lparr>rb_buffer := memcpy_to (rb_buffer rx) (rb_fill rx) (an_bytes a),
      rb_fill := rb_fill rx + nat (an_ret a)\<rparr>) = unread rx @ an_bytes a"
    using ok l(1) by (simp add: unread_def rx_ok_def memcpy_to_def drop_take)
  ultimately show ?thesis
    using assms(2,4) ok l(1) by (auto simp: rx_sync_def rx_ok_def a_def)
qed

section \<open>The operations\<close>

lemma rx_append_sync:
  assumes "good_transfer os" "rx_sync got rx w" "rx_append os rx w = (ok, rx', w')"
  shows "rx_sync got rx' w' \<and> rb_fd rx' = rb_fd rx \<and> (ok \<longrightarrow> rb_pos rx' = rb_pos rx \<and> rb_fill rx < rb_fill rx')"
proof -
  let ?a = "os (nt_calls w) (Req_recv (rb_fd rx) (RX_SIZE - rb_fill rx))"
  show ?thesis
  proof (cases "0 < an_ret ?a")
    case True
    with assms(3) rx_sync_append [OF assms(1,2) order_refl True] show ?thesis
      by (auto simp: rx_append_def Let_def split_beta)
  next
    case False
    with assms(3) rx_sync_nothing [where os = os, OF assms(2) False] show ?thesis
      by (auto simp: rx_append_def Let_def split_beta split: if_splits)
  qed
qed

lemma rx_sync_rewind:
  "rx_sync got rx w \<Longrightarrow> rb_pos rx = rb_fill rx \<Longrightarrow> rx_sync got (rx\<lparr>rb_pos := 0, rb_fill := 0\<rparr>) w"
  by (simp add: rx_sync_def rx_ok_def)

lemma fillBuffer_sync:
  assumes "good_transfer os" "rx_sync got rx w" "fillBuffer os rx w = (ok, rx', w')"
  shows "rx_sync got rx' w' \<and> rb_fd rx' = rb_fd rx \<and> (ok \<longrightarrow> rb_pos rx' < rb_fill rx')"
proof (cases "rb_pos rx = rb_fill rx")
  case True
  then have "rx_append os (rx\<lparr>rb_pos := 0, rb_fill := 0\<rparr>) w = (ok, rx', w')"
    using assms(3) by (simp add: fillBuffer_def)
  from rx_append_sync [OF assms(1) rx_sync_rewind [OF assms(2) True] this] show ?thesis by auto
next
  case False
  with assms rx_append_sync [OF assms(1,2), of ok rx' w'] show ?thesis
    by (auto simp: fillBuffer_def rx_sync_def rx_ok_def split: if_splits)
qed

lemma rx_read_socket_sync:
  assumes "good_transfer os" "rx_sync (got @ out) rx w" "rb_pos rx = 0" "rb_fill rx = 0" "0 < len"
    and "rx_read_socket os out len rx w = (res, out', rx', w')"
  shows "rx_sync (got @ out') rx' w' \<and> rb_fd rx' = rb_fd rx \<and> length out' \<le> length out + len \<and>
    res = (if out' \<noteq> [] then int (length out') else if rb_failed rx' then - 1 else 0)"
proof (cases "RX_SIZE \<le> len")
  case True
  let ?a = "os (nt_calls w) (Req_recv (rb_fd rx) len)"
  show ?thesis
  proof (cases "0 < an_ret ?a")
    case pos: True
    have "rx_sync (got @ out @ an_bytes ?a) rx (snd (sys os (Req_recv (rb_fd rx) len) w))"
      using assms(2-4) pos by (simp add: rx_sync_def)
    moreover have "length (an_bytes ?a) = nat (an_ret ?a)" "nat (an_ret ?a) \<le> len" "an_bytes ?a \<noteq> []"
      using recv_length [OF assms(1) pos] pos by auto
    ultimately show ?thesis using assms(6) True pos by (auto simp: rx_read_socket_def Let_def split_beta)
  next
    case False
    with assms(6) True rx_sync_nothing [where os = os, OF assms(2) False] show ?thesis
      by (auto simp: rx_read_socket_def rx_result_def Let_def split_beta split: if_splits)
  qed
next
  case small: False
  let ?a = "os (nt_calls w) (Req_recv (rb_fd rx) RX_SIZE)"
  let ?w = "snd (sys os (Req_recv (rb_fd rx) RX_SIZE) w)"
  show ?thesis
  proof (cases "0 < an_ret ?a")
    case True
    let ?rx = "rx\<lparr>rb_buffer := memcpy_to (rb_buffer rx) 0 (an_bytes ?a), rb_fill := nat (an_ret ?a)\<rparr>"
    let ?n = "min len (rb_fill ?rx)"
    have sync: "rx_sync (got @ out) ?rx ?w"
      using rx_sync_append [OF assms(1,2) _ True] assms(4) by simp
    have n: "?n \<le> rb_fill ?rx - rb_pos ?rx" "rb_pos ?rx < rb_fill ?rx" using assms(3) True by simp_all
    have "rx_read_socket os out len rx w =
        (int (length out + ?n), out @ fst (rx_take ?n ?rx), snd (rx_take ?n ?rx), ?w)"
      using small True by (simp add: rx_read_socket_def Let_def split_beta)
    moreover have "0 < ?n" using assms(5) True by simp
    ultimately show ?thesis using assms(6) rx_sync_take [OF sync n] by auto
  next
    case False
    with assms(6) small rx_sync_nothing [where os = os, OF assms(2) False] show ?thesis
      by (auto simp: rx_read_socket_def rx_result_def Let_def split_beta split: if_splits)
  qed
qed

lemma rx_take_drained: "rb_pos rx + n = rb_fill rx \<Longrightarrow> rb_pos (snd (rx_take n rx)) = 0 \<and> rb_fill (snd (rx_take n rx)) = 0"
  by (simp add: rx_take_def)

lemma rx_read_sync:
  assumes "good_transfer os" "rx_sync got rx w" "rx_read os null len rx w = (res, out, rx', w')"
  shows "rx_sync (got @ out) rx' w' \<and> rb_fd rx' = rb_fd rx \<and> length out \<le> len \<and>
    (null \<longrightarrow> out = []) \<and>
    res = (if out \<noteq> [] then int (length out) else if rb_failed rx' then - 1 else 0)"
proof -
  have ok: "rx_ok rx" using assms(2) by (simp add: rx_sync_def)
  consider (none) "null \<or> len = 0" | (buffered) "\<not> null" "0 < len" "rb_pos rx < rb_fill rx"
    | (drained) "\<not> null" "0 < len" "rb_pos rx = rb_fill rx"
    using ok by (fastforce simp: rx_ok_def)
  then show ?thesis
  proof cases
    case none
    with assms(2,3) show ?thesis by (auto simp: rx_read_def)
  next
    case buffered
    let ?n = "min len (rb_fill rx - rb_pos rx)"
    have n: "?n \<le> rb_fill rx - rb_pos rx" by simp
    note taken = rx_sync_take [OF assms(2) n buffered(3)]
    show ?thesis
    proof (cases "?n = len")
      case True
      with assms(3) buffered have "res = int len" "out = fst (rx_take ?n rx)" "rx' = snd (rx_take ?n rx)" "w' = w"
        by (simp_all add: rx_read_def Let_def split_beta)
      with taken True buffered(1,2) show ?thesis by auto
    next
      case False
      then have d: "rb_pos rx + ?n = rb_fill rx" "0 < len - ?n" using buffered by auto
      have "rx_read_socket os (fst (rx_take ?n rx)) (len - ?n) (snd (rx_take ?n rx)) w = (res, out, rx', w')"
        using assms(3) buffered False by (simp only: rx_read_def Let_def split_beta) simp
      from rx_read_socket_sync [OF assms(1) taken(1) _ _ d(2) this] rx_take_drained [OF d(1)] taken(2,4) buffered(1)
      show ?thesis by auto
    qed
  next
    case drained
    have "rx_read_socket os [] len rx w = (res, out, rx', w')"
      using assms(3) drained by (simp add: rx_read_def)
    from rx_read_socket_sync [OF assms(1) _ _ _ drained(2) this, of got] assms(2) ok drained show ?thesis
      by (simp add: rx_ok_def)
  qed
qed

lemma rx_peek_sync:
  assumes "good_transfer os" "rx_sync got rx w" "rx_peek os rx w = (res, rx', w')"
  shows "rx_sync got rx' w' \<and> rb_fd rx' = rb_fd rx \<and> (0 \<le> res \<longrightarrow> (\<exists>b bs. unread rx' = b # bs \<and> res = uint b))"
proof -
  have front: "\<exists>b bs. unread r = b # bs \<and> uint (rb_buffer r ! rb_pos r) = uint b"
    if "rx_ok r" "rb_pos r < rb_fill r" for r
  proof -
    have "unread r \<noteq> []" using length_unread [OF that(1)] that(2) by auto
    moreover have "unread r ! 0 = rb_buffer r ! rb_pos r"
      using that by (simp add: unread_def rx_ok_def)
    ultimately show ?thesis by (cases "unread r") auto
  qed
  show ?thesis
  proof (cases "rb_pos rx = rb_fill rx")
    case True
    obtain ok rx1 w1 where f: "fillBuffer os rx w = (ok, rx1, w1)" by (cases "fillBuffer os rx w")
    with assms(3) True fillBuffer_sync [OF assms(1,2) f] front [of rx1] show ?thesis
      by (auto simp: rx_peek_def rx_sync_def split: if_splits)
  next
    case False
    with assms(2,3) front [of rx] show ?thesis by (auto simp: rx_peek_def rx_sync_def rx_ok_def)
  qed
qed

lemma rx_available_sync:
  assumes "rx_sync got rx w" "rx_available os rx w = (n, rx', w')"
  shows "rx_sync got rx' w' \<and> rb_fd rx' = rb_fd rx \<and> (unread rx \<noteq> [] \<longrightarrow> n = length (unread rx))"
  using assms rx_sync_ioctl [OF assms(1), of os "rb_fd rx"] length_unread [of rx] unread_empty [of rx]
  by (cases "rb_pos rx < rb_fill rx")
    (auto simp: rx_available_def r_available_def rx_sync_def Let_def split_beta rx_ok_def split: if_splits)

section \<open>Reading as a stream\<close>

datatype rx_op = RxRead bool nat | RxPeek | RxAvailable

text \<open>A sequence of operations: the bytes handed to the caller by each, in order.\<close>

fun rx_exec :: "lwip \<Rightarrow> rx_op \<Rightarrow> rx_buffer \<Rightarrow> 'a net_scheme \<Rightarrow> u8 list \<times> rx_buffer \<times> 'a net_scheme" where
  "rx_exec os (RxRead null len) rx w = snd (rx_read os null len rx w)"
| "rx_exec os RxPeek rx w = ([], snd (rx_peek os rx w))"
| "rx_exec os RxAvailable rx w = ([], snd (rx_available os rx w))"

fun rx_run :: "lwip \<Rightarrow> rx_op list \<Rightarrow> rx_buffer \<Rightarrow> 'a net_scheme \<Rightarrow> u8 list \<times> rx_buffer \<times> 'a net_scheme" where
  "rx_run os [] rx w = ([], rx, w)"
| "rx_run os (op # ops) rx w =
     (let (out, rx, w) = rx_exec os op rx w; (more, rx, w) = rx_run os ops rx w in (out @ more, rx, w))"

lemma rx_exec_sync:
  assumes "good_transfer os" "rx_sync got rx w" "rx_exec os op rx w = (out, rx', w')"
  shows "rx_sync (got @ out) rx' w' \<and> rb_fd rx' = rb_fd rx"
proof (cases op)
  case (RxRead null len)
  obtain res where "rx_read os null len rx w = (res, out, rx', w')"
    using assms(3) RxRead by (cases "rx_read os null len rx w") auto
  from rx_read_sync [OF assms(1,2) this] show ?thesis by simp
next
  case RxPeek
  with assms(3) have "out = []" by auto
  moreover obtain res where "rx_peek os rx w = (res, rx', w')"
    using assms(3) RxPeek by (cases "rx_peek os rx w") auto
  ultimately show ?thesis using rx_peek_sync [OF assms(1,2)] by simp
next
  case RxAvailable
  with assms(3) have "out = []" by auto
  moreover obtain n where "rx_available os rx w = (n, rx', w')"
    using assms(3) RxAvailable by (cases "rx_available os rx w") auto
  ultimately show ?thesis using rx_available_sync [OF assms(2)] by simp
qed

lemma rx_run_sync:
  assumes "good_transfer os"
  shows "rx_sync got rx w \<Longrightarrow> rx_run os ops rx w = (out, rx', w') \<Longrightarrow> rx_sync (got @ out) rx' w' \<and> rb_fd rx' = rb_fd rx"
proof (induction ops arbitrary: got rx w out)
  case (Cons op ops)
  obtain o1 rx1 w1 where x: "rx_exec os op rx w = (o1, rx1, w1)" by (cases "rx_exec os op rx w")
  moreover obtain o2 where "rx_run os ops rx1 w1 = (o2, rx', w')" "out = o1 @ o2"
    using Cons.prems(2) x by (cases "rx_run os ops rx1 w1") auto
  ultimately show ?case using Cons.IH rx_exec_sync [OF assms Cons.prems(1) x] by fastforce
qed simp

lemma rx_sync_init:
  "received fd (nt_calls w) = [] \<Longrightarrow> rx_sync [] (WiFiClientRxBuffer fd) w"
  using rx_ok_init [of fd] by (simp add: rx_sync_def) (simp add: WiFiClientRxBuffer_def)

text \<open>C8: Reading is a first-in-first-out queue of the bytes the socket delivered: after any sequence
  of reads (of any sizes, buffered or past the buffer), peeks and queries on a new receive buffer,
  the bytes handed to the caller, followed by the unread bytes in the buffer, are exactly the bytes
  that \<open>recv\<close> delivered, in their order.\<close>

theorem rx_stream:
  assumes "good_transfer os" "received fd (nt_calls w) = []"
    and "rx_run os ops (WiFiClientRxBuffer fd) w = (out, rx, w')"
  shows "out @ unread rx = received fd (nt_calls w')"
  using rx_run_sync [OF assms(1) rx_sync_init [OF assms(2)] assms(3)] by (simp add: rx_sync_def WiFiClientRxBuffer_def)

lemma rx_stream_witness:
  "case rx_run demo_os [RxRead False 2, RxPeek, RxRead False 9000] (WiFiClientRxBuffer 5) demo_net of
     (out, rx, w) \<Rightarrow> out @ unread rx = received 5 (nt_calls w)"
proof -
  obtain out rx w where r: "rx_run demo_os [RxRead False 2, RxPeek, RxRead False 9000] (WiFiClientRxBuffer 5) demo_net =
      (out, rx, w)"
    by (cases "rx_run demo_os [RxRead False 2, RxPeek, RxRead False 9000] (WiFiClientRxBuffer 5) demo_net")
  have "received 5 (nt_calls demo_net) = []" by (simp add: demo_net_def received_def)
  from rx_stream [OF demo_transfer this r] r show ?thesis by simp
qed

end
