(* ===== verification/Atomic_Shared_Ptr.thy ===== *)
theory Atomic_Shared_Ptr
  imports Prelude
begin

text \<open>
  \<open>AtomicSharedPtr<T>\<close> (\<open>include/Optimization/AtomicSharedPtr.h\<close>): a pointer to a heap block that
  holds a value and the number of pointers to it. The heap maps addresses to blocks; an
  address without a block is freed memory, and \<open>None\<close> as the result of an operation is an access to
  freed memory. A pointer object is an address or null. Every operation is one function of
  the pointer objects it touches and the heap; \<open>delete\<close> hands back the value it destroyed, so that
  a component can run the destructor. The atomic increments and decrements are single steps.
\<close>

section \<open>Blocks and pointers\<close>

record 'v block =
  bk_value :: 'v
  bk_refs :: int

record 'v asp_heap =
  ah_block :: "nat \<Rightarrow> 'v block option"
  ah_next :: nat

type_synonym asp = "nat option"

definition empty_heap :: "'v asp_heap" where
  "empty_heap = \<lparr>ah_block = (\<lambda>_. None), ah_next = 0\<rparr>"

definition asp_null :: asp where "asp_null = None"

text \<open>\<open>new State(...)\<close>: allocation never reuses an address.\<close>

definition asp_make :: "'v \<Rightarrow> 'v asp_heap \<Rightarrow> asp \<times> 'v asp_heap" where
  "asp_make v h =
     (Some (ah_next h), h\<lparr>ah_block := (ah_block h)(ah_next h \<mapsto> \<lparr>bk_value = v, bk_refs = 1\<rparr>), ah_next := ah_next h + 1\<rparr>)"

text \<open>\<open>fetch_add(1)\<close> on the count of a block.\<close>

definition asp_incr :: "asp \<Rightarrow> 'v asp_heap \<Rightarrow> 'v asp_heap option" where
  "asp_incr p h =
     (case p of
        None \<Rightarrow> Some h
      | Some a \<Rightarrow>
          (case ah_block h a of
             None \<Rightarrow> None
           | Some b \<Rightarrow> Some (h\<lparr>ah_block := (ah_block h)(a \<mapsto> b\<lparr>bk_refs := bk_refs b + 1\<rparr>)\<rparr>)))"

text \<open>\<open>reset\<close>: the result is the destroyed value, if any, and the heap; the pointer is null afterwards.\<close>

definition asp_reset :: "asp \<Rightarrow> 'v asp_heap \<Rightarrow> ('v option \<times> 'v asp_heap) option" where
  "asp_reset p h =
     (case p of
        None \<Rightarrow> Some (None, h)
      | Some a \<Rightarrow>
          (case ah_block h a of
             None \<Rightarrow> None
           | Some b \<Rightarrow>
               if bk_refs b = 1
               then Some (Some (bk_value b), h\<lparr>ah_block := (ah_block h)(a := None)\<rparr>)
               else Some (None, h\<lparr>ah_block := (ah_block h)(a \<mapsto> b\<lparr>bk_refs := bk_refs b - 1\<rparr>)\<rparr>)))"

text \<open>The copy constructor, copy assignment (to another object), move construction and move
  assignment. The results are the new value of the left pointer, and of the right one where it
  changes.\<close>

definition asp_copy :: "asp \<Rightarrow> 'v asp_heap \<Rightarrow> (asp \<times> 'v asp_heap) option" where
  "asp_copy q h = map_option (\<lambda>h. (q, h)) (asp_incr q h)"

definition asp_assign :: "bool \<Rightarrow> asp \<Rightarrow> asp \<Rightarrow> 'v asp_heap \<Rightarrow> (asp \<times> 'v option \<times> 'v asp_heap) option" where
  "asp_assign same p q h =
     (if same then Some (p, None, h)
      else case asp_reset p h of
        None \<Rightarrow> None
      | Some (dead, h) \<Rightarrow> map_option (\<lambda>h. (q, dead, h)) (asp_incr q h))"

definition asp_move :: "asp \<Rightarrow> asp \<times> asp" where "asp_move q = (q, None)"

definition asp_move_assign :: "bool \<Rightarrow> asp \<Rightarrow> asp \<Rightarrow> 'v asp_heap \<Rightarrow> (asp \<times> asp \<times> 'v option \<times> 'v asp_heap) option" where
  "asp_move_assign same p q h =
     (if same then Some (p, q, None, h)
      else map_option (\<lambda>(dead, h). (q, None, dead, h)) (asp_reset p h))"

definition asp_bool :: "asp \<Rightarrow> bool" where "asp_bool p \<longleftrightarrow> p \<noteq> None"

definition asp_get :: "asp \<Rightarrow> 'v asp_heap \<Rightarrow> 'v option" where
  "asp_get p h = (case p of None \<Rightarrow> None | Some a \<Rightarrow> map_option bk_value (ah_block h a))"

definition asp_set :: "asp \<Rightarrow> 'v \<Rightarrow> 'v asp_heap \<Rightarrow> 'v asp_heap option" where
  "asp_set p v h =
     (case p of
        None \<Rightarrow> None
      | Some a \<Rightarrow> map_option (\<lambda>b. h\<lparr>ah_block := (ah_block h)(a \<mapsto> b\<lparr>bk_value := v\<rparr>)\<rparr>) (ah_block h a))"

definition asp_equal :: "asp \<Rightarrow> asp \<Rightarrow> bool" where "asp_equal p q \<longleftrightarrow> p = q"

section \<open>Ownership\<close>

text \<open>A family of pointer objects, and the objects that own the block at \<open>a\<close>. \<open>owned m h\<close>: the count of
  every block is the number of its owners, which is positive, and every pointer points to a block.\<close>

definition owners :: "('x \<Rightarrow> asp) \<Rightarrow> nat \<Rightarrow> 'x set" where "owners m a = {x. m x = Some a}"

definition block_ok :: "('x \<Rightarrow> asp) \<Rightarrow> 'v asp_heap \<Rightarrow> nat \<Rightarrow> bool" where
  "block_ok m h a \<longleftrightarrow>
     (case ah_block h a of
        None \<Rightarrow> owners m a = {}
      | Some b \<Rightarrow> a < ah_next h \<and> owners m a \<noteq> {} \<and> bk_refs b = int (card (owners m a)))"

definition owned :: "('x \<Rightarrow> asp) \<Rightarrow> 'v asp_heap \<Rightarrow> bool" where
  "owned m h \<longleftrightarrow> finite {x. m x \<noteq> None} \<and> (\<forall>a. block_ok m h a)"

lemma finite_owners: "owned m h \<Longrightarrow> finite (owners m a)"
  by (rule finite_subset [of _ "{x. m x \<noteq> None}"]) (auto simp: owned_def owners_def)

lemma ownedD:
  assumes "owned m h" "m x = Some a"
  obtains b where "ah_block h a = Some b" "a < ah_next h" "bk_refs b = int (card (owners m a))"
    "x \<in> owners m a" "finite (owners m a)"
proof -
  have x: "x \<in> owners m a" using assms(2) by (simp add: owners_def)
  from assms(1) have "block_ok m h a" by (simp add: owned_def)
  with x show ?thesis using that finite_owners [OF assms(1)] by (auto simp: block_ok_def split: option.splits)
qed

lemma owned_free: "owned m h \<Longrightarrow> ah_next h \<le> a \<Longrightarrow> ah_block h a = None \<and> owners m a = {}"
  unfolding owned_def block_ok_def by (auto split: option.splits dest!: spec [of _ a])

lemma owners_upd:
  "owners (m(x := p)) a = (if p = Some a then insert x (owners m a) else owners m a - {x})"
  by (auto simp: owners_def)

lemma not_owner: "m x \<noteq> Some a \<Longrightarrow> x \<notin> owners m a"
  by (simp add: owners_def)

lemma finite_upd: "finite {y. m y \<noteq> None} \<Longrightarrow> finite {y. (m(x := p)) y \<noteq> None}"
  by (rule finite_subset [of _ "insert x {y. m y \<noteq> None}"]) auto

text \<open>Only the block at \<open>c\<close> changes hands.\<close>

lemma owned_update:
  assumes "owned m h" "\<And>a. a \<noteq> c \<Longrightarrow> ah_block h' a = ah_block h a" "ah_next h \<le> ah_next h'"
    and "\<And>a. a \<noteq> c \<Longrightarrow> owners (m(x := p)) a = owners m a" "block_ok (m(x := p)) h' c"
  shows "owned (m(x := p)) h'"
proof -
  have "block_ok (m(x := p)) h' a" if "a \<noteq> c" for a
    using assms(1-4) that by (auto simp: owned_def block_ok_def split: option.splits dest!: spec [of _ a])
  with assms(1,5) show ?thesis unfolding owned_def by (metis finite_upd)
qed

lemma owned_empty: "owned (\<lambda>_. None) empty_heap"
  by (simp add: owned_def block_ok_def empty_heap_def owners_def)

text \<open>A fresh block for an object that was null, a copy into one, and a reset.\<close>

lemma owned_make:
  assumes "owned m h" "m x = None"
  shows "owned (m(x := fst (asp_make v h))) (snd (asp_make v h))"
proof (rule owned_update [OF assms(1), where c = "ah_next h"])
  have "owners m (ah_next h) = {}" using owned_free [OF assms(1)] by simp
  then show "block_ok (m(x := fst (asp_make v h))) (snd (asp_make v h)) (ah_next h)"
    by (simp add: block_ok_def asp_make_def owners_upd)
qed (use assms(2) in \<open>auto simp: asp_make_def owners_upd not_owner\<close>)

lemma owned_copy:
  assumes "owned m h" "m x = None" "m y = q"
  obtains h' where "asp_incr q h = Some h'" "owned (m(x := q)) h'" "ah_next h' = ah_next h"
    "\<And>a. map_option bk_value (ah_block h' a) = map_option bk_value (ah_block h a)"
proof (cases q)
  case None
  with assms that [of h] show ?thesis by (simp add: asp_incr_def fun_upd_idem)
next
  case (Some c)
  with assms obtain b where b: "ah_block h c = Some b" "c < ah_next h" "bk_refs b = int (card (owners m c))"
    "finite (owners m c)" by (auto elim: ownedD)
  let ?h = "h\<lparr>ah_block := (ah_block h)(c \<mapsto> b\<lparr>bk_refs := bk_refs b + 1\<rparr>)\<rparr>"
  have "owned (m(x := q)) ?h"
  proof (rule owned_update [OF assms(1), where c = c])
    show "block_ok (m(x := q)) ?h c"
      using b Some assms(2) by (simp add: block_ok_def owners_upd not_owner)
  qed (use assms(2) Some in \<open>auto simp: owners_upd not_owner\<close>)
  with that [of ?h] b Some show ?thesis by (simp add: asp_incr_def)
qed

lemma owned_reset:
  assumes "owned m h" "m x = p"
  obtains dead h' where "asp_reset p h = Some (dead, h')" "owned (m(x := None)) h'" "ah_next h' = ah_next h"
    "dead = (if \<exists>a. p = Some a \<and> owners m a = {x} then asp_get p h else None)"
    "\<And>a. map_option bk_value (ah_block h' a) =
       (if p = Some a \<and> owners m a = {x} then None else map_option bk_value (ah_block h a))"
proof (cases p)
  case None
  with assms that [of None h] show ?thesis by (simp add: asp_reset_def fun_upd_idem)
next
  case (Some c)
  with assms obtain b where b: "ah_block h c = Some b" "c < ah_next h" "bk_refs b = int (card (owners m c))"
    "x \<in> owners m c" "finite (owners m c)" by (auto elim: ownedD)
  have one: "bk_refs b = 1 \<longleftrightarrow> owners m c = {x}"
  proof -
    have "card (owners m c) = 1 \<longleftrightarrow> owners m c = {x}"
    proof
      assume "card (owners m c) = 1"
      then obtain z where "owners m c = {z}" by (rule card_1_singletonE)
      with b(4) show "owners m c = {x}" by simp
    qed simp
    then show ?thesis using b(3) by simp
  qed
  have other: "owners (m(x := None)) a = owners m a" if "a \<noteq> c" for a
    using assms(2) Some that by (auto simp: owners_upd not_owner)
  show ?thesis
  proof (cases "owners m c = {x}")
    case True
    let ?h = "h\<lparr>ah_block := (ah_block h)(c := None)\<rparr>"
    have "owned (m(x := None)) ?h"
    proof (rule owned_update [OF assms(1), where c = c])
      show "block_ok (m(x := None)) ?h c" using True by (simp add: block_ok_def owners_upd)
    qed (use other in auto)
    moreover have "asp_reset p h = Some (Some (bk_value b), ?h)"
      using Some b(1) one True by (simp add: asp_reset_def)
    ultimately show ?thesis
      using Some b(1) True by (intro that [of "Some (bk_value b)" ?h]) (simp_all add: asp_get_def)
  next
    case False
    let ?h = "h\<lparr>ah_block := (ah_block h)(c \<mapsto> b\<lparr>bk_refs := bk_refs b - 1\<rparr>)\<rparr>"
    have left: "owners m c - {x} \<noteq> {}" using False b(4) by blast
    have "0 < card (owners m c)" using b(4,5) by (auto simp: card_gt_0_iff)
    then have refs: "bk_refs b - 1 = int (card (owners m c - {x}))" using b(3-5) by (simp add: of_nat_diff)
    have c: "block_ok (m(x := None)) ?h c"
      using left refs b(2) by (simp add: block_ok_def owners_upd)
    have "owned (m(x := None)) ?h"
      by (rule owned_update [OF assms(1) _ _ _ c]) (use other in auto)
    moreover have "asp_reset p h = Some (None, ?h)"
      using Some b(1) one False by (simp add: asp_reset_def)
    ultimately show ?thesis
      using Some b(1) False by (intro that [of None ?h]) simp_all
  qed
qed

section \<open>Programs over pointer objects\<close>

datatype ('x, 'v) asp_op =
    PMake 'x 'v
  | PCopy 'x 'x
  | PAssign 'x 'x
  | PMove 'x 'x
  | PMoveAssign 'x 'x
  | PReset 'x

text \<open>The pointer objects, the heap, and the values destroyed so far. Constructors (\<open>PMake\<close>,
  \<open>PCopy\<close>, \<open>PMove\<close>) build an object that does not exist yet, which is represented as null; a
  destructor is a reset.\<close>

type_synonym ('x, 'v) asp_state = "('x \<Rightarrow> asp) \<times> 'v asp_heap \<times> 'v list"

fun asp_exec :: "('x, 'v) asp_op \<Rightarrow> ('x, 'v) asp_state \<Rightarrow> ('x, 'v) asp_state option" where
  "asp_exec (PMake x v) (m, h, dead) =
     (if m x \<noteq> None then Some (m, h, dead) else let (p, h) = asp_make v h in Some (m(x := p), h, dead))"
| "asp_exec (PCopy x y) (m, h, dead) =
     (if m x \<noteq> None then Some (m, h, dead)
      else map_option (\<lambda>(p, h). (m(x := p), h, dead)) (asp_copy (m y) h))"
| "asp_exec (PAssign x y) (m, h, dead) =
     map_option (\<lambda>(p, d, h). (m(x := p), h, dead @ (case d of None \<Rightarrow> [] | Some v \<Rightarrow> [v])))
       (asp_assign (x = y) (m x) (m y) h)"
| "asp_exec (PMove x y) (m, h, dead) =
     (if m x \<noteq> None \<or> x = y then Some (m, h, dead)
      else let (p, q) = asp_move (m y) in Some (m(x := p, y := q), h, dead))"
| "asp_exec (PMoveAssign x y) (m, h, dead) =
     map_option (\<lambda>(p, q, d, h). (m(x := p, y := q), h, dead @ (case d of None \<Rightarrow> [] | Some v \<Rightarrow> [v])))
       (asp_move_assign (x = y) (m x) (m y) h)"
| "asp_exec (PReset x) (m, h, dead) =
     map_option (\<lambda>(d, h). (m(x := None), h, dead @ (case d of None \<Rightarrow> [] | Some v \<Rightarrow> [v])))
       (asp_reset (m x) h)"

text \<open>Moving a pointer renames its owner.\<close>

lemma owned_move:
  assumes "owned m h" "m x = None" "x \<noteq> y"
  shows "owned (m(x := m y, y := None)) h"
proof -
  have "owners (m(x := m y, y := None)) a = (if y \<in> owners m a then insert x (owners m a - {y}) else owners m a)" for a
    using assms(2,3) by (auto simp: owners_def)
  moreover have "card (insert x (owners m a - {y})) = card (owners m a)" if "y \<in> owners m a" for a
  proof -
    have "0 < card (owners m a)" using that finite_owners [OF assms(1), of a] by (auto simp: card_gt_0_iff)
    with assms(2) that finite_owners [OF assms(1), of a] show ?thesis by (simp add: not_owner)
  qed
  ultimately have "block_ok (m(x := m y, y := None)) h a" for a
    using assms(1) by (auto simp: owned_def block_ok_def split: option.splits dest!: spec [of _ a])
  moreover have "finite {z. (m(x := m y, y := None)) z \<noteq> None}"
    using assms(1) by (intro finite_upd) (simp add: owned_def)
  ultimately show ?thesis by (simp add: owned_def)
qed


text \<open>The blocks alive, and the balance of allocations and destructions.\<close>

definition live :: "'v asp_heap \<Rightarrow> nat set" where "live h = {a. ah_block h a \<noteq> None}"

lemma live_alt: "live h = {a. map_option bk_value (ah_block h a) \<noteq> None}"
  by (simp add: live_def)

lemma live_frame:
  "(\<And>a. map_option bk_value (ah_block h' a) = map_option bk_value (ah_block h a)) \<Longrightarrow> live h' = live h"
  by (simp only: live_alt)

lemma finite_live: "owned m h \<Longrightarrow> finite (live h)"
  by (rule finite_subset [of _ "{..<ah_next h}"]) (auto simp: live_def dest: owned_free intro: leI)

definition asp_inv :: "('x, 'v) asp_state \<Rightarrow> bool" where
  "asp_inv s \<longleftrightarrow> (case s of (m, h, dead) \<Rightarrow> owned m h \<and> length dead + card (live h) = ah_next h)"

lemma reset_inv:
  assumes "asp_inv (m, h, dead)" "m x = p"
  obtains d h' where "asp_reset p h = Some (d, h')"
    "asp_inv (m(x := None), h', dead @ (case d of None \<Rightarrow> [] | Some v \<Rightarrow> [v]))"
proof -
  from assms have o: "owned m h" and bal: "length dead + card (live h) = ah_next h" by (simp_all add: asp_inv_def)
  from owned_reset [OF o assms(2)] obtain d h' where r: "asp_reset p h = Some (d, h')" "owned (m(x := None)) h'"
    "ah_next h' = ah_next h" "d = (if \<exists>a. p = Some a \<and> owners m a = {x} then asp_get p h else None)"
    "\<And>a. map_option bk_value (ah_block h' a) =
       (if p = Some a \<and> owners m a = {x} then None else map_option bk_value (ah_block h a))" by blast
  show ?thesis
  proof (cases "\<exists>a. p = Some a \<and> owners m a = {x}")
    case True
    then obtain a where a: "p = Some a" "owners m a = {x}" by blast
    with o assms(2) obtain b where b: "ah_block h a = Some b" by (auto elim: ownedD)
    have "live h' = live h - {a}"
    proof (rule set_eqI)
      fix c
      show "c \<in> live h' \<longleftrightarrow> c \<in> live h - {a}"
        unfolding live_alt mem_Collect_eq Diff_iff r(5) using a by auto
    qed
    moreover have "a \<in> live h" using b by (simp add: live_def)
    ultimately have "card (live h) = Suc (card (live h'))"
      using card_Suc_Diff1 [OF finite_live [OF o], of a] by simp
    with that [OF r(1)] r(2-4) a b bal show ?thesis by (simp add: asp_inv_def asp_get_def)
  next
    case False
    then have "live h' = live h" using r(5) by (intro live_frame) auto
    with that [OF r(1)] r(2-4) False bal show ?thesis by (auto simp: asp_inv_def)
  qed
qed

lemma copy_inv:
  assumes "asp_inv (m, h, dead)" "m x = None" "m y = q"
  obtains h' where "asp_incr q h = Some h'" "asp_inv (m(x := q), h', dead)"
proof -
  from assms have o: "owned m h" and bal: "length dead + card (live h) = ah_next h" by (simp_all add: asp_inv_def)
  from owned_copy [OF o assms(2,3)] obtain h' where r: "asp_incr q h = Some h'" "owned (m(x := q)) h'"
    "ah_next h' = ah_next h" "\<And>a. map_option bk_value (ah_block h' a) = map_option bk_value (ah_block h a)" by blast
  with that [OF r(1)] bal live_frame [of h' h] show ?thesis by (simp add: asp_inv_def)
qed

lemma exec_inv:
  assumes "asp_inv s"
  shows "\<exists>s'. asp_exec op s = Some s' \<and> asp_inv s'"
proof -
  obtain m h dead where s: "s = (m, h, dead)" by (cases s)
  have inv: "asp_inv (m, h, dead)" using assms s by simp
  show ?thesis
  proof (cases op)
    case (PMake x v)
    show ?thesis
    proof (cases "m x = None")
      case True
      have "live (snd (asp_make v h)) = insert (ah_next h) (live h)" "ah_next h \<notin> live h"
        using inv owned_free [of m h "ah_next h"] by (auto simp: asp_make_def live_def asp_inv_def split: if_splits)
      with inv True PMake s owned_make [of m h x v] finite_live [of m h] show ?thesis
        by (auto simp: asp_inv_def split_beta) (simp_all add: asp_make_def)
    qed (use inv PMake s in simp)
  next
    case (PCopy x y)
    show ?thesis
    proof (cases "m x = None")
      case True
      from copy_inv [OF inv True refl, of y] PCopy s True show ?thesis by (auto simp: asp_copy_def)
    qed (use inv PCopy s in simp)
  next
    case (PAssign x y)
    show ?thesis
    proof (cases "x = y")
      case True
      with inv PAssign s show ?thesis by (simp add: asp_assign_def fun_upd_idem)
    next
      case False
      from reset_inv [OF inv refl, of x] obtain d h1 where r: "asp_reset (m x) h = Some (d, h1)"
        "asp_inv (m(x := None), h1, dead @ (case d of None \<Rightarrow> [] | Some v \<Rightarrow> [v]))" .
      from copy_inv [OF r(2), of x y "m y"] False obtain h2 where
        "asp_incr (m y) h1 = Some h2" "asp_inv (m(x := m y), h2, dead @ (case d of None \<Rightarrow> [] | Some v \<Rightarrow> [v]))"
        by auto
      with r PAssign s False show ?thesis by (simp add: asp_assign_def)
    qed
  next
    case (PMove x y)
    show ?thesis
    proof (cases "m x \<noteq> None \<or> x = y")
      case False
      with inv PMove s owned_move [of m h x y] show ?thesis by (simp add: asp_move_def asp_inv_def)
    qed (use inv PMove s in simp)
  next
    case (PMoveAssign x y)
    show ?thesis
    proof (cases "x = y")
      case True
      with inv PMoveAssign s show ?thesis by (simp add: asp_move_assign_def fun_upd_idem)
    next
      case False
      from reset_inv [OF inv refl, of x] obtain d h1 where r: "asp_reset (m x) h = Some (d, h1)"
        "asp_inv (m(x := None), h1, dead @ (case d of None \<Rightarrow> [] | Some v \<Rightarrow> [v]))" .
      then have "owned ((m(x := None))(x := (m(x := None)) y, y := None)) h1"
        using False by (intro owned_move) (simp_all add: asp_inv_def)
      with r PMoveAssign s False show ?thesis by (simp add: asp_move_assign_def asp_inv_def fun_upd_twist)
    qed
  next
    case (PReset x)
    from reset_inv [OF inv refl, of x] obtain d h1 where "asp_reset (m x) h = Some (d, h1)"
      "asp_inv (m(x := None), h1, dead @ (case d of None \<Rightarrow> [] | Some v \<Rightarrow> [v]))" .
    with PReset s show ?thesis by simp
  qed
qed

fun asp_run :: "('x, 'v) asp_op list \<Rightarrow> ('x, 'v) asp_state \<Rightarrow> ('x, 'v) asp_state option" where
  "asp_run [] s = Some s"
| "asp_run (op # ops) s = (case asp_exec op s of None \<Rightarrow> None | Some s \<Rightarrow> asp_run ops s)"

lemma asp_run_inv: "asp_inv s \<Longrightarrow> \<exists>s'. asp_run ops s = Some s' \<and> asp_inv s'"
proof (induction ops arbitrary: s)
  case (Cons op ops)
  with exec_inv [of s op] show ?case by fastforce
qed simp

text \<open>C17: Any sequence of constructions, copies, moves, assignments and resets of shared pointers
  runs without an access to freed memory; at every moment the count of a block is the number of
  pointers to it, a block is alive exactly while a pointer points to it, and every block that was
  allocated is either alive or has been destroyed exactly once.\<close>

theorem shared_ptr_ownership:
  "\<exists>m h dead. asp_run ops ((\<lambda>_. None), empty_heap, []) = Some (m, h, dead) \<and>
     (\<forall>a. (case ah_block h a of
             None \<Rightarrow> {x. m x = Some a} = {}
           | Some b \<Rightarrow> {x. m x = Some a} \<noteq> {} \<and> bk_refs b = int (card {x. m x = Some a}))) \<and>
     length dead + card {a. ah_block h a \<noteq> None} = ah_next h"
proof -
  have "asp_inv ((\<lambda>_. None), empty_heap, [])"
    using owned_empty by (simp add: asp_inv_def live_def empty_heap_def)
  from asp_run_inv [OF this, of ops] obtain m h dead where
    r: "asp_run ops ((\<lambda>_. None), empty_heap, []) = Some (m, h, dead)" "asp_inv (m, h, dead)" by auto
  have "case ah_block h a of
      None \<Rightarrow> {x. m x = Some a} = {}
    | Some b \<Rightarrow> {x. m x = Some a} \<noteq> {} \<and> bk_refs b = int (card {x. m x = Some a})" for a
  proof -
    have "block_ok m h a" using r(2) by (simp add: asp_inv_def owned_def)
    then show ?thesis by (simp add: block_ok_def owners_def split: option.splits)
  qed
  moreover have "length dead + card {a. ah_block h a \<noteq> None} = ah_next h"
    using r(2) by (simp add: asp_inv_def live_def)
  ultimately show ?thesis using r(1) by blast
qed

end
