(* ===== verification/WiFi_Client.thy ===== *)
theory WiFi_Client
  imports Client_Rx Atomic_Shared_Ptr
begin

text \<open>
  \<open>WiFiClient\<close> (\<open>WiFiClient.h\<close>, \<open>WiFiClient.cpp\<close>, \<open>WiFiClientRead.cpp\<close>, \<open>WiFiClientEndpoints.cpp\<close>,
  \<open>WiFiClientSocketOps.cpp\<close>): a client object shares a socket handle, which is a heap block with a descriptor
  and a receive buffer, with its copies. The state of the program's sockets is the log of calls, the
  heap of handles, and a flag that records an access to freed memory. An operation takes the
  client object and this state. \<open>_timeout\<close> is a 32-bit integer that is read both signed and unsigned.
  The view of an unfinished asynchronous write is the bytes it covers: the caller has to leave them
  unmodified.
\<close>

section \<open>State\<close>

record handle =
  sh_fd :: int
  sh_rx :: rx_buffer

record endpoints =
  ec_valid :: bool
  ec_peerPort :: u16
  ec_localPort :: u16
  ec_peerIp :: u32
  ec_localIp :: u32

datatype conn_state = ConnIdle | Connecting

record client =
  cl_handle :: asp
  cl_txView :: "u8 list"
  cl_ep :: endpoints
  cl_timeout :: u32
  cl_lastConnCheck :: u32
  cl_asyncStartMs :: u32
  cl_asyncConnState :: conn_state
  cl_connected :: bool
  cl_next :: "nat option"

record world = net +
  cw_heap :: "handle asp_heap"
  cw_fault :: bool

definition EndpointCache :: endpoints where
  "EndpointCache = \<lparr>ec_valid = False, ec_peerPort = 0, ec_localPort = 0, ec_peerIp = 0, ec_localIp = 0\<rparr>"

definition invalidate :: "endpoints \<Rightarrow> endpoints" where
  "invalidate ep = ep\<lparr>ec_valid := False\<rparr>"

definition WIFI_CLIENT_DEF_CONN_TIMEOUT_MS :: u32 where "WIFI_CLIENT_DEF_CONN_TIMEOUT_MS = 3000"

definition WIFI_CLIENT_CONN_CHECK_MS :: u32 where "WIFI_CLIENT_CONN_CHECK_MS = 10"

section \<open>\<open>AsyncTxView\<close>\<close>

definition tx_isBusy :: "u8 list \<Rightarrow> bool" where "tx_isBusy v \<longleftrightarrow> length v \<noteq> 0"

definition tx_pending :: "u8 list \<Rightarrow> nat" where "tx_pending v = length v"

definition tx_reset :: "u8 list" where "tx_reset = []"

definition tx_advance :: "nat \<Rightarrow> u8 list \<Rightarrow> u8 list" where
  "tx_advance n v = (if length v \<le> n then tx_reset else drop n v)"

section \<open>Socket handles\<close>

definition WiFiClientSocketHandle :: "int \<Rightarrow> handle" where
  "WiFiClientSocketHandle fd = \<lparr>sh_fd = fd, sh_rx = WiFiClientRxBuffer fd\<rparr>"

definition os_close :: "lwip \<Rightarrow> int \<Rightarrow> 'a net_scheme \<Rightarrow> 'a net_scheme" where
  "os_close os fd w = snd (sys os (Req_close fd) w)"

text \<open>The destructor of a handle, and a reset of a pointer to one.\<close>

definition destroy_handle :: "lwip \<Rightarrow> handle \<Rightarrow> world \<Rightarrow> world" where
  "destroy_handle os h w = (if 0 \<le> sh_fd h then os_close os (sh_fd h) w else w)"

definition release_handle :: "lwip \<Rightarrow> asp \<Rightarrow> world \<Rightarrow> world" where
  "release_handle os p w =
     (case asp_reset p (cw_heap w) of
        None \<Rightarrow> w\<lparr>cw_fault := True\<rparr>
      | Some (dead, heap) \<Rightarrow>
          (case dead of None \<Rightarrow> w | Some h \<Rightarrow> destroy_handle os h w)\<lparr>cw_heap := heap\<rparr>)"

definition adopt_fd :: "int \<Rightarrow> world \<Rightarrow> asp \<times> world" where
  "adopt_fd fd w =
     (let (p, heap) = asp_make (WiFiClientSocketHandle fd) (cw_heap w) in (p, w\<lparr>cw_heap := heap\<rparr>))"

definition share_handle :: "asp \<Rightarrow> world \<Rightarrow> world" where
  "share_handle p w =
     (case asp_incr p (cw_heap w) of None \<Rightarrow> w\<lparr>cw_fault := True\<rparr> | Some heap \<Rightarrow> w\<lparr>cw_heap := heap\<rparr>)"

text \<open>\<open>_rx\<close> and \<open>fd\<close>. A dangling pointer, which the theorems exclude, reads as a null one.\<close>

definition client_rx :: "client \<Rightarrow> world \<Rightarrow> rx_buffer option" where
  "client_rx c w = map_option sh_rx (asp_get (cl_handle c) (cw_heap w))"

definition client_fd :: "client \<Rightarrow> world \<Rightarrow> int" where
  "client_fd c w = (case asp_get (cl_handle c) (cw_heap w) of None \<Rightarrow> - 1 | Some h \<Rightarrow> sh_fd h)"

text \<open>Writing back the buffer that an operation on \<open>*_rx()\<close> changed.\<close>

definition put_rx :: "client \<Rightarrow> rx_buffer \<Rightarrow> world \<Rightarrow> world" where
  "put_rx c rx w =
     (case asp_get (cl_handle c) (cw_heap w) of
        None \<Rightarrow> w
      | Some h \<Rightarrow>
          (case asp_set (cl_handle c) (h\<lparr>sh_rx := rx\<rparr>) (cw_heap w) of
             None \<Rightarrow> w
           | Some heap \<Rightarrow> w\<lparr>cw_heap := heap\<rparr>))"

section \<open>Construction, copies, moves, \<open>stop\<close>\<close>

definition WiFiClient :: client where
  "WiFiClient =
     \<lparr>cl_handle = asp_null, cl_txView = tx_reset, cl_ep = EndpointCache,
      cl_timeout = WIFI_CLIENT_DEF_CONN_TIMEOUT_MS, cl_lastConnCheck = 0, cl_asyncStartMs = 0,
      cl_asyncConnState = ConnIdle, cl_connected = False, cl_next = None\<rparr>"

definition WiFiClient_fd :: "int \<Rightarrow> world \<Rightarrow> client \<times> world" where
  "WiFiClient_fd fd w =
     (let (p, w) = adopt_fd fd w in (WiFiClient\<lparr>cl_handle := p, cl_connected := True\<rparr>, w))"

definition client_stop :: "lwip \<Rightarrow> client \<Rightarrow> world \<Rightarrow> client \<times> world" where
  "client_stop os c w =
     (c\<lparr>cl_asyncConnState := ConnIdle, cl_txView := tx_reset, cl_ep := invalidate (cl_ep c),
        cl_handle := asp_null, cl_connected := False\<rparr>,
      release_handle os (cl_handle c) w)"

text \<open>What a move leaves behind.\<close>

definition moved_from :: "client \<Rightarrow> client" where
  "moved_from c =
     c\<lparr>cl_handle := asp_null, cl_connected := False, cl_asyncConnState := ConnIdle,
       cl_txView := tx_reset, cl_ep := invalidate (cl_ep c)\<rparr>"

definition client_move :: "client \<Rightarrow> client \<times> client" where
  "client_move rhs = (rhs\<lparr>cl_ep := EndpointCache\<rparr>, moved_from rhs)"

text \<open>The move assignment to another object; an object assigned to itself is left alone.\<close>

definition client_move_assign :: "lwip \<Rightarrow> client \<Rightarrow> client \<Rightarrow> world \<Rightarrow> client \<times> client \<times> world" where
  "client_move_assign os c rhs w =
     (let (c, w) = client_stop os c w;
          w = release_handle os (cl_handle c) w
      in (rhs\<lparr>cl_ep := invalidate (cl_ep c)\<rparr>, moved_from rhs, w))"

definition client_copy :: "client \<Rightarrow> world \<Rightarrow> client \<times> world" where
  "client_copy other w = (other\<lparr>cl_ep := invalidate EndpointCache\<rparr>, share_handle (cl_handle other) w)"

text \<open>The copy assignment stops the left object first and has no test for assignment to itself: \<open>same\<close>
  tells whether the two objects are one, in which case the right one has been stopped too.\<close>

definition client_assign :: "lwip \<Rightarrow> bool \<Rightarrow> client \<Rightarrow> client \<Rightarrow> world \<Rightarrow> client \<times> world" where
  "client_assign os same c other w =
     (let (c, w) = client_stop os c w;
          other = (if same then c else other);
          w = (if same then w else share_handle (cl_handle other) (release_handle os (cl_handle c) w))
      in (other\<lparr>cl_ep := invalidate (cl_ep c)\<rparr>, w))"

definition client_equal :: "client \<Rightarrow> client \<Rightarrow> bool" where
  "client_equal c d \<longleftrightarrow> asp_equal (cl_handle c) (cl_handle d)"

section \<open>Reading\<close>

text \<open>After a read the client is stopped when the buffer is marked as failed.\<close>

definition check_failed :: "lwip \<Rightarrow> rx_buffer \<Rightarrow> client \<Rightarrow> world \<Rightarrow> client \<times> world" where
  "check_failed os rx c w =
     (let w = put_rx c rx w in if rb_failed rx then client_stop os c w else (c, w))"

definition client_read :: "lwip \<Rightarrow> bool \<Rightarrow> nat \<Rightarrow> client \<Rightarrow> world \<Rightarrow> int \<times> u8 list \<times> client \<times> world" where
  "client_read os null len c w =
     (case client_rx c w of
        None \<Rightarrow> (- 1, [], c, w)
      | Some rx \<Rightarrow>
          let (res, out, rx, w) = rx_read os null len rx w;
              (c, w) = check_failed os rx c w
          in (res, out, c, w))"

definition client_read_byte :: "lwip \<Rightarrow> client \<Rightarrow> world \<Rightarrow> int \<times> client \<times> world" where
  "client_read_byte os c w =
     (let (res, out, c, w) = client_read os False 1 c w
      in (if res < 0 then res else if res = 0 then - 1 else uint (hd out), c, w))"

definition client_peek :: "lwip \<Rightarrow> client \<Rightarrow> world \<Rightarrow> int \<times> client \<times> world" where
  "client_peek os c w =
     (case client_rx c w of
        None \<Rightarrow> (- 1, c, w)
      | Some rx \<Rightarrow>
          let (res, rx, w) = rx_peek os rx w;
              (c, w) = check_failed os rx c w
          in (res, c, w))"

definition client_available :: "lwip \<Rightarrow> client \<Rightarrow> world \<Rightarrow> nat \<times> client \<times> world" where
  "client_available os c w =
     (case client_rx c w of
        None \<Rightarrow> (0, c, w)
      | Some rx \<Rightarrow>
          let (res, rx, w) = rx_available os rx w;
              (c, w) = check_failed os rx c w
          in (res, c, w))"

definition client_flush :: "lwip \<Rightarrow> nat \<Rightarrow> client \<Rightarrow> world \<Rightarrow> world option" where
  "client_flush os n c w =
     (case client_rx c w of
        None \<Rightarrow> Some w
      | Some rx \<Rightarrow> map_option (\<lambda>(rx, w). put_rx c rx w) (rx_flush os n rx w))"

text \<open>\<open>connected\<close> answers from the buffer, from the last probe when it is less than 10 ms old, or by a
  new probe.\<close>

definition client_connected :: "lwip \<Rightarrow> client \<Rightarrow> world \<Rightarrow> bool \<times> client \<times> world" where
  "client_connected os c w =
     (if \<not> cl_connected c then (False, c, w)
      else if (case client_rx c w of None \<Rightarrow> False | Some rx \<Rightarrow> hasBuffered rx) then (True, c, w)
      else let (now, w) = millis os w in
        if WIFI_CLIENT_CONN_CHECK_MS \<le> now - cl_lastConnCheck c
        then
          let c = c\<lparr>cl_lastConnCheck := now\<rparr>;
              (a, w) = sys os (Req_poll_in (client_fd c w)) w;
              up = (if an_ret a < 0 then nt_errno w \<noteq> EBADF
                    else if an_ret a = 0 then True
                    else \<not> an_hup a)
          in (up, c\<lparr>cl_connected := up\<rparr>, w)
        else (True, c, w))"

section \<open>Endpoints\<close>

definition refresh :: "lwip \<Rightarrow> int \<Rightarrow> endpoints \<Rightarrow> 'a net_scheme \<Rightarrow> endpoints \<times> 'a net_scheme" where
  "refresh os fd ep w =
     (if ec_valid ep \<or> fd < 0 then (ep, w)
      else let (a, w) = sys os (Req_getpeername fd) w in
        if an_ret a < 0 then (ep, w)
        else
          let ep = ep\<lparr>ec_peerIp := an_ip a, ec_peerPort := an_port a\<rparr>;
              (a, w) = sys os (Req_getsockname fd) w
          in if an_ret a < 0 then (ep, w)
             else (ep\<lparr>ec_localIp := an_ip a, ec_localPort := an_port a, ec_valid := True\<rparr>, w))"

definition cacheEndpoints :: "lwip \<Rightarrow> client \<Rightarrow> world \<Rightarrow> client \<times> world" where
  "cacheEndpoints os c w =
     (let (ep, w) = refresh os (client_fd c w) (cl_ep c) w in (c\<lparr>cl_ep := ep\<rparr>, w))"

definition client_remoteIP :: "lwip \<Rightarrow> client \<Rightarrow> world \<Rightarrow> u32 \<times> client \<times> world" where
  "client_remoteIP os c w = (let (c, w) = cacheEndpoints os c w in (ec_peerIp (cl_ep c), c, w))"

definition client_remotePort :: "lwip \<Rightarrow> client \<Rightarrow> world \<Rightarrow> u16 \<times> client \<times> world" where
  "client_remotePort os c w = (let (c, w) = cacheEndpoints os c w in (ec_peerPort (cl_ep c), c, w))"

definition client_localIP :: "lwip \<Rightarrow> client \<Rightarrow> world \<Rightarrow> u32 \<times> client \<times> world" where
  "client_localIP os c w = (let (c, w) = cacheEndpoints os c w in (ec_localIp (cl_ep c), c, w))"

definition client_localPort :: "lwip \<Rightarrow> client \<Rightarrow> world \<Rightarrow> u16 \<times> client \<times> world" where
  "client_localPort os c w = (let (c, w) = cacheEndpoints os c w in (ec_localPort (cl_ep c), c, w))"

text \<open>The variants that ask about a given descriptor; \<open>None\<close> is the uninitialised address they read
  when the call fails.\<close>

definition name_of :: "lwip \<Rightarrow> sock_req \<Rightarrow> world \<Rightarrow> (u32 \<times> u16) option \<times> world" where
  "name_of os req w =
     (let (a, w) = sys os req w in (if an_ret a < 0 then None else Some (an_ip a, an_port a), w))"

definition remoteIP_fd :: "lwip \<Rightarrow> int \<Rightarrow> world \<Rightarrow> u32 option \<times> world" where
  "remoteIP_fd os fd w = (let (r, w) = name_of os (Req_getpeername fd) w in (map_option fst r, w))"

definition remotePort_fd :: "lwip \<Rightarrow> int \<Rightarrow> world \<Rightarrow> u16 option \<times> world" where
  "remotePort_fd os fd w = (let (r, w) = name_of os (Req_getpeername fd) w in (map_option snd r, w))"

definition localIP_fd :: "lwip \<Rightarrow> int \<Rightarrow> world \<Rightarrow> u32 option \<times> world" where
  "localIP_fd os fd w = (let (r, w) = name_of os (Req_getsockname fd) w in (map_option fst r, w))"

definition localPort_fd :: "lwip \<Rightarrow> int \<Rightarrow> world \<Rightarrow> u16 option \<times> world" where
  "localPort_fd os fd w = (let (r, w) = name_of os (Req_getsockname fd) w in (map_option snd r, w))"

section \<open>Socket options\<close>

definition setSocketOption :: "lwip \<Rightarrow> sock_opt \<Rightarrow> int list \<Rightarrow> client \<Rightarrow> world \<Rightarrow> int \<times> world" where
  "setSocketOption os opt val c w =
     (let (a, w) = sys os (Req_setsockopt (client_fd c w) opt val) w in (an_ret a, w))"

definition client_setTimeout :: "lwip \<Rightarrow> u32 \<Rightarrow> client \<Rightarrow> world \<Rightarrow> int \<times> client \<times> world" where
  "client_setTimeout os seconds c w =
     (let c = c\<lparr>cl_timeout := seconds * 1000\<rparr> in
      if 0 \<le> client_fd c w
      then
        let (res, w) = setSocketOption os SO_RCVTIMEO [uint seconds, 0] c w in
        if res < 0 then (- 1, c, w)
        else let (res, w) = setSocketOption os SO_SNDTIMEO [uint seconds, 0] c w in (res, c, w)
      else (0, c, w))"

definition getOption :: "lwip \<Rightarrow> sock_opt \<Rightarrow> client \<Rightarrow> world \<Rightarrow> int \<times> int option \<times> world" where
  "getOption os opt c w =
     (let (a, w) = sys os (Req_getsockopt (client_fd c w) opt) w
      in (an_ret a, if an_ret a < 0 then None else Some (an_value a), w))"

definition client_setNoDelay :: "lwip \<Rightarrow> bool \<Rightarrow> client \<Rightarrow> world \<Rightarrow> int \<times> world" where
  "client_setNoDelay os nodelay = setSocketOption os TCP_NODELAY [if nodelay then 1 else 0]"

definition client_getNoDelay :: "lwip \<Rightarrow> client \<Rightarrow> world \<Rightarrow> bool \<times> world" where
  "client_getNoDelay os c w =
     (let (res, flag, w) = getOption os TCP_NODELAY c w
      in (case flag of None \<Rightarrow> False | Some v \<Rightarrow> v \<noteq> 0, w))"

definition setKeepAlive :: "lwip \<Rightarrow> bool \<Rightarrow> int \<Rightarrow> int \<Rightarrow> int \<Rightarrow> client \<Rightarrow> world \<Rightarrow> int \<times> world" where
  "setKeepAlive os enable idleSec intervalSec tries c w =
     (let (res, w) = setSocketOption os SO_KEEPALIVE [if enable then 1 else 0] c w in
      if res < 0 \<or> \<not> enable then (res, w)
      else
        let (r1, w) = setSocketOption os TCP_KEEPIDLE [idleSec] c w;
            (r2, w) = setSocketOption os TCP_KEEPINTVL [intervalSec] c w
        in setSocketOption os TCP_KEEPCNT [tries] c w)"

end
