(* ===== verification/WiFi_Client_Connect.thy ===== *)
theory WiFi_Client_Connect
  imports WiFi_Client
begin

text \<open>
  Connecting a client: the socket options (\<open>_configureSocket\<close>), the blocking \<open>connect\<close>
  (\<open>WiFiClientConnect.cpp\<close>), the polled one (\<open>WiFiClientAsync.cpp\<close>), and name resolution
  (\<open>WiFiGenericClass::hostByName\<close>). \<open>FdGuard\<close> closes the new descriptor on every early return. Time
  limits of \<open>select\<close> are microseconds, \<open>None\<close> is no limit.
\<close>

section \<open>Name resolution\<close>

definition WIFI_DNS_IDLE_BIT :: nat where "WIFI_DNS_IDLE_BIT = 2 ^ 13"

definition WIFI_DNS_DONE_BIT :: nat where "WIFI_DNS_DONE_BIT = 2 ^ 14"

text \<open>\<open>parse\<close> is Arduino's \<open>IPAddress::fromString\<close>. The DNS callback stores the address while the caller
  waits for the event bit; address 0 is a failure.\<close>

definition hostByName :: "(char list \<Rightarrow> u32 option) \<Rightarrow> lwip \<Rightarrow> char list \<Rightarrow> 'a net_scheme \<Rightarrow> (bool \<times> u32) \<times> 'a net_scheme" where
  "hostByName parse os host w =
     (case parse host of
        Some ip \<Rightarrow> ((ip \<noteq> 0, ip), w)
      | None \<Rightarrow>
          let (_, w) = sys os (Req_event_wait WIFI_DNS_IDLE_BIT 16000) w;
              (_, w) = sys os (Req_event_clear (WIFI_DNS_IDLE_BIT + WIFI_DNS_DONE_BIT)) w;
              (a, w) = sys os (Req_dns host) w;
              (ip, w) =
                (if an_ret a = 0 \<and> an_ip a \<noteq> 0 then (an_ip a, w)
                 else if an_ret a = - 5
                 then
                   let (b, w) = sys os (Req_event_wait WIFI_DNS_DONE_BIT 15000) w;
                       (_, w) = sys os (Req_event_clear WIFI_DNS_DONE_BIT) w
                   in (an_ip b, w)
                 else (0, w));
              (_, w) = sys os (Req_event_set WIFI_DNS_IDLE_BIT) w
          in ((ip \<noteq> 0, ip), w))"

section \<open>Socket options\<close>

definition CLIENT_BUF :: int where "CLIENT_BUF = 22 * 1024"

text \<open>A time limit in ms as seconds and microseconds; a negative one is no limit.\<close>

definition timeval_of :: "u32 \<Rightarrow> int list" where
  "timeval_of t =
     (if sint t < 0 then [0, 0] else [sint t div 1000, (sint t mod 1000) * 1000])"

text \<open>The options in their order; the flag tells whether a failure ends the configuration.\<close>

definition socket_options :: "u32 \<Rightarrow> (bool \<times> sock_opt \<times> int list) list" where
  "socket_options t =
     [(False, SO_SNDBUF, [CLIENT_BUF]), (True, SO_RCVBUF, [CLIENT_BUF]),
      (True, SO_SNDTIMEO, timeval_of t), (True, SO_RCVTIMEO, timeval_of t), (True, TCP_NODELAY, [1]),
      (False, SO_KEEPALIVE, [1]), (False, TCP_KEEPIDLE, [30]), (False, TCP_KEEPINTVL, [5]),
      (False, TCP_KEEPCNT, [3])]"

fun set_options :: "lwip \<Rightarrow> int \<Rightarrow> (bool \<times> sock_opt \<times> int list) list \<Rightarrow> 'a net_scheme \<Rightarrow> bool \<times> 'a net_scheme" where
  "set_options os fd [] w = (True, w)"
| "set_options os fd ((must, opt, val) # opts) w =
     (let (a, w) = sys os (Req_setsockopt fd opt val) w in
      if must \<and> an_ret a < 0 then (False, w) else set_options os fd opts w)"

definition configureSocket :: "lwip \<Rightarrow> int \<Rightarrow> u32 \<Rightarrow> 'a net_scheme \<Rightarrow> bool \<times> 'a net_scheme" where
  "configureSocket os fd t w = set_options os fd (socket_options t) w"

section \<open>Blocking connect\<close>

text \<open>From the new descriptor to the finished handshake. The result tells whether it succeeded.\<close>

definition handshake :: "lwip \<Rightarrow> int \<Rightarrow> u32 \<Rightarrow> u16 \<Rightarrow> u32 \<Rightarrow> 'a net_scheme \<Rightarrow> bool \<times> 'a net_scheme" where
  "handshake os fd ip port t w =
     (let (a, w) = sys os (Req_connect fd ip port) w in
      if an_ret a < 0 \<and> nt_errno w \<noteq> EINPROGRESS then (False, w)
      else
        let (a, w) = sys os (Req_select_write fd (if sint t < 0 then None else Some (sint t * 1000))) w in
        if an_ret a \<le> 0 then (False, w)
        else
          let (a, w) = sys os (Req_getsockopt fd SO_ERROR) w in
          (\<not> an_ret a < 0 \<and> an_value a = 0, w))"

definition client_connect_to :: "lwip \<Rightarrow> u32 \<Rightarrow> u16 \<Rightarrow> u32 \<Rightarrow> client \<Rightarrow> world \<Rightarrow> bool \<times> client \<times> world" where
  "client_connect_to os ip port timeout_ms c w =
     (let c = c\<lparr>cl_timeout := timeout_ms\<rparr>;
          (a, w) = sys os Req_socket w;
          fd = an_ret a
      in if fd < 0 then (False, c, w)
      else
        let (_, w) = sys os (Req_nonblock fd True) w;
            (ok, w) = configureSocket os fd timeout_ms w
        in if \<not> ok then (False, c, os_close os fd w)
        else
          let (ok, w) = handshake os fd ip port timeout_ms w in
          if \<not> ok then (False, c, os_close os fd w)
          else
            let (_, w) = sys os (Req_nonblock fd False) w;
                (p, w) = adopt_fd fd w;
                w = release_handle os (cl_handle c) w
            in (True, c\<lparr>cl_handle := p, cl_txView := tx_reset, cl_asyncConnState := ConnIdle,
                        cl_ep := invalidate (cl_ep c), cl_connected := True\<rparr>, w))"

definition client_connect :: "lwip \<Rightarrow> u32 \<Rightarrow> u16 \<Rightarrow> client \<Rightarrow> world \<Rightarrow> bool \<times> client \<times> world" where
  "client_connect os ip port c w = client_connect_to os ip port (cl_timeout c) c w"

definition client_connect_host ::
  "(char list \<Rightarrow> u32 option) \<Rightarrow> lwip \<Rightarrow> char list \<Rightarrow> u16 \<Rightarrow> u32 \<Rightarrow> client \<Rightarrow> world \<Rightarrow> bool \<times> client \<times> world" where
  "client_connect_host parse os host port timeout_ms c w =
     (let ((ok, ip), w) = hostByName parse os host w in
      if \<not> ok then (False, c, w) else client_connect_to os ip port timeout_ms c w)"

section \<open>Polled connect\<close>

definition connectAsync :: "lwip \<Rightarrow> u32 \<Rightarrow> u16 \<Rightarrow> client \<Rightarrow> world \<Rightarrow> bool \<times> client \<times> world" where
  "connectAsync os ip port c w =
     (if cl_connected c \<or> cl_asyncConnState c \<noteq> ConnIdle then (False, c, w)
      else
        let (a, w) = sys os Req_socket w;
            fd = an_ret a
        in if fd < 0 then (False, c, w)
        else
          let (_, w) = sys os (Req_nonblock fd True) w;
              (ok, w) = configureSocket os fd (cl_timeout c) w
          in if \<not> ok then (False, c, os_close os fd w)
          else
            let (a, w) = sys os (Req_connect fd ip port) w in
            if an_ret a < 0 \<and> nt_errno w \<noteq> EINPROGRESS then (False, c, os_close os fd w)
            else
              let (p, w) = adopt_fd fd w;
                  w = release_handle os (cl_handle c) w;
                  (now, w) = millis os w
              in (True, c\<lparr>cl_handle := p, cl_txView := tx_reset, cl_ep := invalidate (cl_ep c),
                          cl_asyncConnState := Connecting, cl_asyncStartMs := now\<rparr>, w))"

definition connectAsync_host ::
  "(char list \<Rightarrow> u32 option) \<Rightarrow> lwip \<Rightarrow> char list \<Rightarrow> u16 \<Rightarrow> client \<Rightarrow> world \<Rightarrow> bool \<times> client \<times> world" where
  "connectAsync_host parse os host port c w =
     (let ((ok, ip), w) = hostByName parse os host w in
      if \<not> ok then (False, c, w) else connectAsync os ip port c w)"

definition isConnecting :: "client \<Rightarrow> bool" where
  "isConnecting c \<longleftrightarrow> cl_asyncConnState c \<noteq> ConnIdle"

text \<open>\<open>pollConnect\<close>: 1 connected, 0 still in the handshake, -1 failed.\<close>

definition pollConnect :: "lwip \<Rightarrow> client \<Rightarrow> world \<Rightarrow> int \<times> client \<times> world" where
  "pollConnect os c w =
     (if cl_asyncConnState c = ConnIdle then (if cl_connected c then 1 else - 1, c, w)
      else if client_fd c w < 0 then (- 1, c\<lparr>cl_asyncConnState := ConnIdle\<rparr>, w)
      else
        let (a, w) = sys os (Req_select_write (client_fd c w) (Some 0)) w in
        if an_ret a \<le> 0
        then
          let (now, w) = millis os w in
          if cl_timeout c < now - cl_asyncStartMs c
          then let (c, w) = client_stop os c w in (- 1, c, w)
          else (0, c, w)
        else
          let (a, w) = sys os (Req_getsockopt (client_fd c w) SO_ERROR) w in
          if an_ret a < 0 \<or> an_value a \<noteq> 0
          then let (c, w) = client_stop os c w in (- 1, c, w)
          else (1, c\<lparr>cl_asyncConnState := ConnIdle, cl_connected := True\<rparr>, w))"

end
