(* ===== verification/WiFi_Client_Write.thy ===== *)
theory WiFi_Client_Write
  imports WiFi_Client
begin

text \<open>
  Writing (\<open>WiFiClientWrite.cpp\<close>) and the polled write of \<open>WiFiClientAsync.cpp\<close>. Both loops of the blocking
  write and the spin of the polled one take a bound on their iterations; \<open>None\<close> is a loop that is still
  running. A null pointer is \<open>None\<close> as the data.
\<close>

section \<open>Blocking write\<close>

text \<open>Waiting until some of \<open>rest\<close> is taken: spinning for the first 500 us, then in slices of at most 10 ms.
  The inner result is the number of bytes taken, or \<open>None\<close> when \<open>write\<close> gives up.\<close>

definition WRITE_SPIN_US :: u32 where "WRITE_SPIN_US = 500"

definition slice_us :: "u32 \<Rightarrow> int" where
  "slice_us remain = (if 10 \<le> remain then 10000 else uint remain * 1000)"

text \<open>One non-blocking \<open>send\<close> inside the waiting loop: some bytes taken, a hard error that stopped the client,
  or a socket whose buffer is still full.\<close>

datatype attempt = Took nat | Broken | Busy

definition send_once :: "lwip \<Rightarrow> u8 list \<Rightarrow> client \<Rightarrow> world \<Rightarrow> attempt \<times> client \<times> world" where
  "send_once os rest c w =
     (let (a, w) = sys os (Req_send (client_fd c w) rest) w in
      if 0 < an_ret a then (Took (nat (an_ret a)), c, w)
      else if \<not> retryable (nt_errno w) then (Broken, client_stop os c w)
      else (Busy, c, w))"

fun write_wait ::
  "lwip \<Rightarrow> nat \<Rightarrow> u32 \<Rightarrow> u32 \<Rightarrow> u8 list \<Rightarrow> client \<Rightarrow> world \<Rightarrow> (nat option \<times> client \<times> world) option" where
  "write_wait os 0 start spin rest c w = None"
| "write_wait os (Suc n) start spin rest c w =
     (let (now, w) = millis os w in
      if cl_timeout c \<le> now - start then Some (None, c, w)
      else
        let (us, w) = micros os w;
            spinning = (us - spin < WRITE_SPIN_US);
            (a, w) =
              (if spinning then sys os Req_yield w
               else sys os (Req_select_write (client_fd c w) (Some (slice_us (cl_timeout c - (now - start))))) w)
        in if \<not> spinning \<and> an_ret a \<le> 0 then write_wait os n start spin rest c w
           else case send_once os rest c w of
             (Took k, c, w) \<Rightarrow> Some (Some k, c, w)
           | (Broken, c, w) \<Rightarrow> Some (None, c, w)
           | (Busy, c, w) \<Rightarrow> write_wait os n start spin rest c w)"

fun write_loop :: "lwip \<Rightarrow> nat \<Rightarrow> u8 list \<Rightarrow> nat \<Rightarrow> client \<Rightarrow> world \<Rightarrow> (nat \<times> client \<times> world) option" where
  "write_loop os 0 rest sent c w = None"
| "write_loop os (Suc n) rest sent c w =
     (if rest = [] then Some (sent, c, w)
      else
        let (a, w) = sys os (Req_send (client_fd c w) rest) w in
        if 0 < an_ret a then write_loop os n (drop (nat (an_ret a)) rest) (sent + nat (an_ret a)) c w
        else if an_ret a = 0 \<or> \<not> retryable (nt_errno w)
        then let (c, w) = client_stop os c w in Some (sent, c, w)
        else
          let (start, w) = millis os w;
              (spin, w) = micros os w
          in case write_wait os n start spin rest c w of
               None \<Rightarrow> None
             | Some (None, c, w) \<Rightarrow> Some (sent, c, w)
             | Some (Some k, c, w) \<Rightarrow> write_loop os n (drop k rest) (sent + k) c w)"

definition client_write :: "lwip \<Rightarrow> nat \<Rightarrow> u8 list option \<Rightarrow> client \<Rightarrow> world \<Rightarrow> (nat \<times> client \<times> world) option" where
  "client_write os n buf c w =
     (if \<not> cl_connected c \<or> client_fd c w < 0 \<or> buf = None \<or> buf = Some [] then Some (0, c, w)
      else write_loop os n (the buf) 0 c w)"

definition client_write_byte :: "lwip \<Rightarrow> nat \<Rightarrow> u8 \<Rightarrow> client \<Rightarrow> world \<Rightarrow> (nat \<times> client \<times> world) option" where
  "client_write_byte os n data = client_write os n (Some [data])"

definition write_P :: "lwip \<Rightarrow> nat \<Rightarrow> u8 list option \<Rightarrow> client \<Rightarrow> world \<Rightarrow> (nat \<times> client \<times> world) option" where
  "write_P os n buf = client_write os n buf"

text \<open>Copying from a \<open>Stream\<close>, which is Arduino's: \<open>avail\<close> and \<open>readBytes\<close> are its methods on a state of its own.\<close>

fun write_stream ::
  "('s \<Rightarrow> nat) \<Rightarrow> (nat \<Rightarrow> 's \<Rightarrow> u8 list \<times> 's) \<Rightarrow> lwip \<Rightarrow> nat \<Rightarrow> nat \<Rightarrow> 's \<Rightarrow> client \<Rightarrow> world \<Rightarrow>
     (nat \<times> 's \<times> client \<times> world) option" where
  "write_stream avail readBytes os 0 written s c w = None"
| "write_stream avail readBytes os (Suc n) written s c w =
     (if avail s = 0 then Some (written, s, c, w)
      else
        let (buf, s) = readBytes (min (avail s) 1460) s in
        if buf = [] then Some (written, s, c, w)
        else case client_write os n (Some buf) c w of
               None \<Rightarrow> None
             | Some (k, c, w) \<Rightarrow> write_stream avail readBytes os n (written + k) s c w)"

section \<open>Polled write\<close>

definition writeBusy :: "client \<Rightarrow> bool" where "writeBusy c \<longleftrightarrow> tx_isBusy (cl_txView c)"

definition pendingWrite :: "client \<Rightarrow> nat" where "pendingWrite c = tx_pending (cl_txView c)"

definition writeAsync :: "lwip \<Rightarrow> u8 list option \<Rightarrow> client \<Rightarrow> world \<Rightarrow> nat \<times> client \<times> world" where
  "writeAsync os buf c w =
     (if \<not> cl_connected c \<or> client_fd c w < 0 \<or> writeBusy c \<or> buf = None \<or> buf = Some [] then (0, c, w)
      else
        let bytes = the buf;
            (a, w) = sys os (Req_send (client_fd c w) bytes) w
        in if 0 \<le> an_ret a \<and> an_ret a = int (length bytes) then (length bytes, c, w)
        else
          let sent = (if 0 < an_ret a then nat (an_ret a) else 0);
              c = c\<lparr>cl_txView := drop sent bytes\<rparr>
          in if an_ret a < 0 \<and> \<not> retryable (nt_errno w)
             then let (c, w) = client_stop os (c\<lparr>cl_txView := tx_reset\<rparr>) w in (sent, c, w)
             else (sent, c, w))"

text \<open>The view advances over the bytes that were taken: 1 all flushed, 0 still pending.\<close>

definition advance_view :: "nat \<Rightarrow> client \<Rightarrow> int \<times> client" where
  "advance_view k c =
     (let c = c\<lparr>cl_txView := tx_advance k (cl_txView c)\<rparr>
      in (if tx_isBusy (cl_txView c) then 0 else 1, c))"

fun poll_spin :: "lwip \<Rightarrow> nat \<Rightarrow> u32 \<Rightarrow> client \<Rightarrow> world \<Rightarrow> (int \<times> client \<times> world) option" where
  "poll_spin os 0 spin c w = None"
| "poll_spin os (Suc n) spin c w =
     (let (us, w) = micros os w in
      if \<not> us - spin < 250 then Some (0, c, w)
      else
        let (_, w) = sys os Req_yield w
        in case send_once os (cl_txView c) c w of
             (Took k, c, w) \<Rightarrow> let (r, c) = advance_view k c in Some (r, c, w)
           | (Broken, c, w) \<Rightarrow> Some (- 1, c, w)
           | (Busy, c, w) \<Rightarrow> poll_spin os n spin c w)"

definition pollWrite :: "lwip \<Rightarrow> nat \<Rightarrow> client \<Rightarrow> world \<Rightarrow> (int \<times> client \<times> world) option" where
  "pollWrite os n c w =
     (if \<not> cl_connected c \<or> client_fd c w < 0 then Some (- 1, c, w)
      else if \<not> tx_isBusy (cl_txView c) then Some (1, c, w)
      else
        case send_once os (cl_txView c) c w of
          (Took k, c, w) \<Rightarrow> let (r, c) = advance_view k c in Some (r, c, w)
        | (Broken, c, w) \<Rightarrow> Some (- 1, c, w)
        | (Busy, c, w) \<Rightarrow> let (spin, w) = micros os w in poll_spin os n spin c w)"

end
