(* ===== verification/WiFi_Client_Owner.thy ===== *)
theory WiFi_Client_Owner
  imports WiFi_Client_Connect WiFi_Client_Write
begin

text \<open>
  Who owns a descriptor: the invariant of a family of client objects, its preservation by the
  elementary changes of state, and the step relation of these changes, to which every operation of a
  client is reduced.
\<close>

section \<open>The invariant\<close>

definition handles :: "world \<Rightarrow> nat \<Rightarrow> handle option" where
  "handles w a = map_option bk_value (ah_block (cw_heap w) a)"

definition held :: "world \<Rightarrow> int set" where
  "held w = {fd. \<exists>a h. handles w a = Some h \<and> sh_fd h = fd}"

definition handles_ok :: "world \<Rightarrow> bool" where
  "handles_ok w \<longleftrightarrow>
     (\<forall>a h. handles w a = Some h \<longrightarrow> 0 \<le> sh_fd h \<and> rb_fd (sh_rx h) = sh_fd h) \<and>
     (\<forall>a b h k. handles w a = Some h \<longrightarrow> handles w b = Some k \<longrightarrow> sh_fd h = sh_fd k \<longrightarrow> a = b)"

text \<open>\<open>sock_inv G m w\<close>: the clients \<open>m\<close> own their handles, the open descriptors are those of the handles and
  the foreign ones \<open>G\<close>, and every call so far named an open descriptor.\<close>

definition sock_inv :: "int set \<Rightarrow> (nat \<Rightarrow> asp) \<Rightarrow> world \<Rightarrow> bool" where
  "sock_inv G m w \<longleftrightarrow>
     owned m (cw_heap w) \<and> \<not> cw_fault w \<and> handles_ok w \<and>
     open_fds (nt_calls w) = held w \<union> G \<and> held w \<inter> G = {} \<and> safe_log (nt_calls w)"

lemma handles_frame: "cw_heap w' = cw_heap w \<Longrightarrow> handles w' = handles w \<and> held w' = held w \<and> handles_ok w' = handles_ok w"
proof -
  assume "cw_heap w' = cw_heap w"
  then have "handles w' = handles w" by (intro ext) (simp add: handles_def)
  then show ?thesis by (simp add: held_def handles_ok_def)
qed

lemma held_fresh:
  assumes "handles w a = None" "handles w' = (handles w)(a \<mapsto> h)"
  shows "held w' = insert (sh_fd h) (held w)"
proof (rule set_eqI)
  fix fd
  have "(\<exists>b k. handles w' b = Some k \<and> sh_fd k = fd) \<longleftrightarrow> sh_fd h = fd \<or> (\<exists>b k. b \<noteq> a \<and> handles w b = Some k \<and> sh_fd k = fd)"
    unfolding assms(2) by (metis fun_upd_other fun_upd_same option.inject)
  with assms(1) show "fd \<in> held w' \<longleftrightarrow> fd \<in> insert (sh_fd h) (held w)"
    unfolding held_def by (auto, metis option.distinct(1))
qed

lemma held_same:
  assumes "handles w a = Some k" "sh_fd h = sh_fd k" "handles w' = (handles w)(a \<mapsto> h)"
  shows "held w' = held w"
proof (rule set_eqI)
  fix fd
  show "fd \<in> held w' \<longleftrightarrow> fd \<in> held w"
    unfolding held_def mem_Collect_eq assms(3) using assms(1,2)
    by (metis fun_upd_other fun_upd_same option.inject)
qed

lemma held_gone:
  assumes "handles w a = Some h" "handles_ok w" "handles w' = (handles w)(a := None)"
  shows "held w' = held w - {sh_fd h}"
proof (rule set_eqI)
  fix fd
  show "fd \<in> held w' \<longleftrightarrow> fd \<in> held w - {sh_fd h}"
  proof
    assume "fd \<in> held w'"
    then obtain b k where k: "b \<noteq> a" "handles w b = Some k" "sh_fd k = fd"
      unfolding held_def assms(3) by (auto split: if_splits)
    with assms(1,2) show "fd \<in> held w - {sh_fd h}" unfolding held_def handles_ok_def by blast
  next
    assume "fd \<in> held w - {sh_fd h}"
    then obtain b k where k: "handles w b = Some k" "sh_fd k = fd" "fd \<noteq> sh_fd h"
      unfolding held_def by blast
    then have "handles w' b = Some k" using assms(1) by (auto simp: assms(3))
    with k(2) show "fd \<in> held w'" unfolding held_def by blast
  qed
qed

lemma sys_world [simp]:
  "cw_heap (snd (sys os req w)) = cw_heap w" "cw_fault (snd (sys os req w)) = cw_fault w"
  by (simp_all add: sys_def Let_def)

lemma sock_inv_get:
  assumes "sock_inv G m w" "m x = Some a"
  obtains h where "handles w a = Some h" "asp_get (Some a) (cw_heap w) = Some h"
    "sh_fd h \<in> open_fds (nt_calls w)" "0 \<le> sh_fd h" "rb_fd (sh_rx h) = sh_fd h"
proof -
  from assms obtain b where "ah_block (cw_heap w) a = Some b" by (auto simp: sock_inv_def elim: ownedD)
  then have "handles w a = Some (bk_value b)" "asp_get (Some a) (cw_heap w) = Some (bk_value b)"
    by (simp_all add: handles_def asp_get_def)
  with assms(1) that show ?thesis by (fastforce simp: sock_inv_def handles_ok_def held_def)
qed

section \<open>Elementary changes\<close>

lemma inv_call:
  assumes "sock_inv G m w" "quiet req" "names_open req (held w \<union> G)"
  shows "sock_inv G m (snd (sys os req w))"
  using assms handles_frame [of "snd (sys os req w)" w]
  by (simp add: sock_inv_def open_fds_snoc open_after_quiet safe_log_snoc)

lemma inv_open:
  assumes "sock_inv G m w" "fresh_fds os" "req = Req_socket \<or> (\<exists>fd. req = Req_accept fd)"
    and "names_open req (held w \<union> G)"
  defines "r \<equiv> an_ret (os (nt_calls w) req)"
  shows "sock_inv (if 0 \<le> r then insert r G else G) m (snd (sys os req w)) \<and> r \<notin> held w \<union> G"
proof -
  have "r \<notin> open_fds (nt_calls w)" using assms(2,3) by (auto simp: r_def fresh_fds_def)
  moreover have "open_after (req, os (nt_calls w) req) fds = (if 0 \<le> r then insert r fds else fds)" for fds
    using assms(3) by (auto simp: r_def)
  ultimately show ?thesis
    using assms(1,4) handles_frame [of "snd (sys os req w)" w]
    by (auto simp: sock_inv_def open_fds_snoc safe_log_snoc)
qed

lemma inv_close:
  assumes "sock_inv G m w" "fd \<in> G"
  shows "sock_inv (G - {fd}) m (os_close os fd w)"
  using assms handles_frame [of "snd (sys os (Req_close fd) w)" w]
  by (auto simp: sock_inv_def os_close_def open_fds_snoc safe_log_snoc names_open_def)

lemma inv_adopt:
  assumes "sock_inv G m w" "fd \<in> G" "0 \<le> fd" "m y = None" "adopt_fd fd w = (p, w')"
  shows "sock_inv (G - {fd}) (m(y := p)) w'"
proof -
  let ?h = "WiFiClientSocketHandle fd"
  have p: "p = fst (asp_make ?h (cw_heap w))" "w' = w\<lparr>cw_heap := snd (asp_make ?h (cw_heap w))\<rparr>"
    using assms(5) by (simp_all add: adopt_fd_def split_beta Let_def)
  have inv: "owned m (cw_heap w)" "handles_ok w" "held w \<inter> G = {}" using assms(1) by (simp_all add: sock_inv_def)
  have fresh: "handles w (ah_next (cw_heap w)) = None"
    using owned_free [OF inv(1) order_refl] by (simp add: handles_def)
  have hs: "handles w' = (handles w)(ah_next (cw_heap w) \<mapsto> ?h)"
    by (rule ext) (simp add: p handles_def asp_make_def)
  have held: "held w' = insert fd (held w)"
    using held_fresh [OF fresh hs] by (simp add: WiFiClientSocketHandle_def)
  have "fd \<notin> held w" using inv(3) assms(2) by blast
  with inv(2) assms(3) have "handles_ok w'"
    by (auto simp: handles_ok_def hs WiFiClientSocketHandle_def WiFiClientRxBuffer_def held_def)
  moreover have "owned (m(y := p)) (cw_heap w')" using owned_make [OF inv(1) assms(4)] by (simp add: p)
  moreover have "nt_calls w' = nt_calls w" "cw_fault w' = cw_fault w" by (simp_all add: p)
  ultimately show ?thesis using assms(1,2) \<open>fd \<notin> held w\<close> by (auto simp: sock_inv_def held)
qed

lemma inv_share:
  assumes "sock_inv G m w" "m x = None" "m y = q"
  shows "sock_inv G (m(x := q)) (share_handle q w)"
proof -
  from assms(1) have "owned m (cw_heap w)" by (simp add: sock_inv_def)
  from owned_copy [OF this assms(2,3)] obtain h' where r: "asp_incr q (cw_heap w) = Some h'" "owned (m(x := q)) h'"
    "\<And>a. map_option bk_value (ah_block h' a) = map_option bk_value (ah_block (cw_heap w) a)" by blast
  then have w: "share_handle q w = w\<lparr>cw_heap := h'\<rparr>" by (simp add: share_handle_def)
  have "handles (w\<lparr>cw_heap := h'\<rparr>) = handles w" by (rule ext) (simp add: handles_def r(3))
  with assms(1) r(2) show ?thesis by (simp add: w sock_inv_def held_def handles_ok_def)
qed

lemma inv_drop_handle:
  assumes "sock_inv G m w" "m x = p"
  shows "sock_inv G (m(x := None)) (release_handle os p w)"
proof -
  have inv: "owned m (cw_heap w)" "handles_ok w" "held w \<inter> G = {}" using assms(1) by (simp_all add: sock_inv_def)
  from owned_reset [OF inv(1) assms(2)] obtain dead h' where r: "asp_reset p (cw_heap w) = Some (dead, h')"
    "owned (m(x := None)) h'"
    "dead = (if \<exists>a. p = Some a \<and> owners m a = {x} then asp_get p (cw_heap w) else None)"
    "\<And>a. map_option bk_value (ah_block h' a) =
       (if p = Some a \<and> owners m a = {x} then None else map_option bk_value (ah_block (cw_heap w) a))" by metis
  show ?thesis
  proof (cases "\<exists>a. p = Some a \<and> owners m a = {x}")
    case True
    then obtain a where a: "p = Some a" "owners m a = {x}" by blast
    from sock_inv_get [OF assms(1), of x a] assms(2) a(1) obtain h where h: "handles w a = Some h"
      "asp_get (Some a) (cw_heap w) = Some h" "sh_fd h \<in> open_fds (nt_calls w)" "0 \<le> sh_fd h" by metis
    define w1 where "w1 = (os_close os (sh_fd h) w)\<lparr>cw_heap := h'\<rparr>"
    have w: "release_handle os p w = w1"
      using r(1,3) a h by (simp add: release_handle_def destroy_handle_def w1_def)
    have hs: "handles w1 = (handles w)(a := None)"
      using r(4) a by (auto simp: handles_def w1_def)
    have held: "held w1 = held w - {sh_fd h}"
      by (rule held_gone [OF h(1) inv(2) hs])
    have "handles_ok w1" using inv(2) by (auto simp: handles_ok_def hs)
    moreover have "owned (m(x := None)) (cw_heap w1)" using r(2) by (simp add: w1_def)
    moreover have "cw_fault w1 = cw_fault w" by (simp add: w1_def os_close_def)
    moreover have "sh_fd h \<notin> G" using inv(3) h(1) by (auto simp: held_def)
    moreover have "nt_calls w1 = nt_calls w @ [(Req_close (sh_fd h), os (nt_calls w) (Req_close (sh_fd h)))]"
      by (simp add: w1_def os_close_def)
    ultimately show ?thesis using assms(1) h(3)
      unfolding w by (auto simp: sock_inv_def held open_fds_snoc safe_log_snoc names_open_def)
  next
    case False
    then have "dead = None" using r(3) by (simp only: if_False)
    then have w: "release_handle os p w = w\<lparr>cw_heap := h'\<rparr>" using r(1) by (simp add: release_handle_def)
    have "handles (w\<lparr>cw_heap := h'\<rparr>) = handles w" using r(4) False by (intro ext) (auto simp: handles_def)
    with assms(1) r(2) show ?thesis by (simp add: w sock_inv_def held_def handles_ok_def)
  qed
qed

lemma inv_move:
  assumes "sock_inv G m w" "m x = None" "x \<noteq> y"
  shows "sock_inv G (m(x := m y, y := None)) w"
  using assms owned_move [of m "cw_heap w" x y] by (simp add: sock_inv_def)

lemma inv_put_rx:
  assumes "sock_inv G m w" "m x = cl_handle c" "\<And>r. client_rx c w = Some r \<Longrightarrow> rb_fd rx = rb_fd r"
  shows "sock_inv G m (put_rx c rx w)"
proof (cases "cl_handle c")
  case None
  with assms(1) show ?thesis by (simp add: put_rx_def asp_get_def)
next
  case (Some a)
  from assms(1,2) Some obtain b where b: "ah_block (cw_heap w) a = Some b"
    by (auto simp: sock_inv_def elim: ownedD)
  let ?h = "bk_value b"
  let ?heap = "(cw_heap w)\<lparr>ah_block := (ah_block (cw_heap w))(a \<mapsto> b\<lparr>bk_value := ?h\<lparr>sh_rx := rx\<rparr>\<rparr>)\<rparr>"
  have w: "put_rx c rx w = w\<lparr>cw_heap := ?heap\<rparr>"
    using b Some by (simp add: put_rx_def asp_get_def asp_set_def)
  have h: "handles w a = Some ?h" using b by (simp add: handles_def)
  have hs: "handles (w\<lparr>cw_heap := ?heap\<rparr>) = (handles w)(a \<mapsto> ?h\<lparr>sh_rx := rx\<rparr>)" by (auto simp: handles_def)
  have rx: "rb_fd rx = rb_fd (sh_rx ?h)"
    using assms(3) b Some by (simp add: client_rx_def asp_get_def)
  have "held (w\<lparr>cw_heap := ?heap\<rparr>) = held w" by (rule held_same [OF h _ hs]) simp
  moreover have "handles_ok (w\<lparr>cw_heap := ?heap\<rparr>)"
    using assms(1) h rx by (auto simp: sock_inv_def handles_ok_def hs)
  moreover have "block_ok m ?heap k = block_ok m (cw_heap w) k" for k
    using b by (cases "k = a") (simp_all add: block_ok_def split: option.split)
  ultimately show ?thesis using assms(1) by (simp add: w sock_inv_def owned_def)
qed

end
