(* ===== verification/WiFi_Client_Steps.thy ===== *)
theory WiFi_Client_Steps
  imports WiFi_Client_Owner
begin

text \<open>
  The elementary changes of a client, its world and a guarded descriptor (\<open>FdGuard\<close>) as a step relation;
  every operation of \<open>WiFiClient\<close> is a sequence of such steps, and every step preserves the ownership
  invariant.
\<close>

section \<open>Steps\<close>

type_synonym cl_state = "int option \<times> client \<times> world"

definition own_fd :: "cl_state \<Rightarrow> int \<Rightarrow> bool" where
  "own_fd s fd \<longleftrightarrow>
     (case s of (g, c, w) \<Rightarrow> fd = client_fd c w \<or> g = Some fd \<or> (\<exists>rx. client_rx c w = Some rx \<and> fd = rb_fd rx))"

inductive cl_step :: "lwip \<Rightarrow> cl_state \<Rightarrow> cl_state \<Rightarrow> bool" for os where
  call: "quiet req \<Longrightarrow> \<forall>fd. req_fd req = Some fd \<longrightarrow> own_fd (g, c, w) fd \<Longrightarrow>
    cl_step os (g, c, w) (g, c, snd (sys os req w))"
| opened: "cl_step os (None, c, w)
    (if 0 \<le> an_ret (os (nt_calls w) Req_socket) then Some (an_ret (os (nt_calls w) Req_socket)) else None,
     c, snd (sys os Req_socket w))"
| closed: "cl_step os (Some fd, c, w) (None, c, os_close os fd w)"
| adopted: "adopt_fd fd w = (p, w1) \<Longrightarrow>
    cl_step os (Some fd, c, w) (None, c\<lparr>cl_handle := p\<rparr>, release_handle os (cl_handle c) w1)"
| fields: "cl_handle c' = cl_handle c \<Longrightarrow> cl_step os (g, c, w) (g, c', w)"
| stopped: "cl_step os (g, c, w) (g, c\<lparr>cl_handle := asp_null\<rparr>, release_handle os (cl_handle c) w)"
| buffer: "\<forall>r. client_rx c w = Some r \<longrightarrow> rb_fd rx = rb_fd r \<Longrightarrow> cl_step os (g, c, w) (g, c, put_rx c rx w)"

abbreviation cl_steps :: "lwip \<Rightarrow> cl_state \<Rightarrow> cl_state \<Rightarrow> bool" where
  "cl_steps os \<equiv> (cl_step os)\<^sup>*\<^sup>*"

definition cl_inv :: "int set \<Rightarrow> (nat \<Rightarrow> asp) \<Rightarrow> nat \<Rightarrow> cl_state \<Rightarrow> bool" where
  "cl_inv F m x s \<longleftrightarrow>
     (case s of (g, c, w) \<Rightarrow>
        sock_inv (F \<union> set_option g) (m(x := cl_handle c)) w \<and> set_option g \<inter> F = {} \<and> (\<forall>fd \<in> set_option g. 0 \<le> fd))"

lemma own_fd_open:
  assumes "cl_inv F m x (g, c, w)" "own_fd (g, c, w) fd"
  shows "fd < 0 \<or> fd \<in> held w \<union> (F \<union> set_option g)"
proof (cases "cl_handle c")
  case None
  with assms(2) show ?thesis by (auto simp: own_fd_def client_fd_def client_rx_def asp_get_def)
next
  case (Some a)
  have inv: "sock_inv (F \<union> set_option g) (m(x := cl_handle c)) w" using assms(1) by (simp add: cl_inv_def)
  from sock_inv_get [OF inv, of x a] Some obtain h where
    "asp_get (Some a) (cw_heap w) = Some h" "sh_fd h \<in> open_fds (nt_calls w)" "rb_fd (sh_rx h) = sh_fd h" by auto
  with assms(2) inv Some show ?thesis
    by (auto simp: own_fd_def client_fd_def client_rx_def sock_inv_def)
qed

lemma unused_index: "owned m h \<Longrightarrow> \<exists>y. y \<noteq> x \<and> m y = None" for m :: "nat \<Rightarrow> asp"
proof -
  assume "owned m h"
  then have "finite (insert x {y. m y \<noteq> None})" by (simp add: owned_def)
  from ex_new_if_finite [OF infinite_UNIV_nat this] show ?thesis by auto
qed

text \<open>A new handle replaces the one that \<open>x\<close> had.\<close>

lemma inv_replace:
  assumes "sock_inv G m w" "fd \<in> G" "0 \<le> fd" "adopt_fd fd w = (p, w1)"
  shows "sock_inv (G - {fd}) (m(x := p)) (release_handle os (m x) w1)"
proof -
  from assms(1) have "owned m (cw_heap w)" by (simp add: sock_inv_def)
  from unused_index [OF this] obtain y where y: "y \<noteq> x" "m y = None" by blast
  have "sock_inv (G - {fd}) (m(y := p)) w1" by (rule inv_adopt [OF assms(1-3) y(2) assms(4)])
  from inv_drop_handle [OF this, of x "m x" os] y
  have "sock_inv (G - {fd}) (m(y := p, x := None)) (release_handle os (m x) w1)" by simp
  from inv_move [OF this _ y(1) [symmetric]] y
  show ?thesis by (simp add: fun_upd_twist fun_upd_idem)
qed

theorem cl_step_inv:
  assumes "cl_step os s s'" "fresh_fds os" "cl_inv F m x s"
  shows "cl_inv F m x s'"
  using assms(1,3)
proof cases
  case (call req g c w)
  then have "names_open req (held w \<union> (F \<union> set_option g))"
    using assms(3) own_fd_open by (fastforce simp: names_open_def split: option.splits)
  with call assms(3) inv_call show ?thesis by (simp add: cl_inv_def)
next
  case (opened c w)
  let ?r = "an_ret (os (nt_calls w) Req_socket)"
  have "sock_inv F (m(x := cl_handle c)) w" using assms(3) opened by (simp add: cl_inv_def)
  from inv_open [OF this assms(2), of Req_socket] opened show ?thesis
    by (auto simp: cl_inv_def names_open_def)
next
  case (closed fd c w)
  with assms(3) have i: "sock_inv (F \<union> {fd}) (m(x := cl_handle c)) w" "fd \<notin> F" by (simp_all add: cl_inv_def)
  from inv_close [OF i(1), of fd os] i(2) closed show ?thesis by (simp add: cl_inv_def)
next
  case (adopted fd w p w1 c)
  with assms(3) have i: "sock_inv (F \<union> {fd}) (m(x := cl_handle c)) w" "fd \<notin> F" "0 \<le> fd" by (simp_all add: cl_inv_def)
  from inv_replace [OF i(1) _ i(3) adopted(3), of x os] i(2) adopted show ?thesis by (simp add: cl_inv_def)
next
  case (fields c' c g w)
  with assms(3) show ?thesis by (simp add: cl_inv_def)
next
  case (stopped g c w)
  with assms(3) have "sock_inv (F \<union> set_option g) (m(x := cl_handle c)) w" by (simp add: cl_inv_def)
  from inv_drop_handle [OF this, of x "cl_handle c" os] stopped assms(3) show ?thesis
    by (simp add: cl_inv_def asp_null_def)
next
  case (buffer c w rx g)
  with assms(3) have "sock_inv (F \<union> set_option g) (m(x := cl_handle c)) w" by (simp add: cl_inv_def)
  from inv_put_rx [OF this, of x c rx] buffer assms(3) show ?thesis by (simp add: cl_inv_def)
qed

lemma cl_steps_inv:
  assumes "cl_steps os s s'" "fresh_fds os" "cl_inv F m x s"
  shows "cl_inv F m x s'"
  using assms(1) by (induction rule: rtranclp_induct) (use assms(3) cl_step_inv [OF _ assms(2)] in auto)

end
