(* ===== verification/WiFi_Client_Ops.thy ===== *)
theory WiFi_Client_Ops
  imports WiFi_Client_Steps
begin

text \<open>Every operation of a client is a sequence of elementary steps.\<close>

section \<open>Chaining\<close>

lemma steps_call:
  "quiet req \<Longrightarrow> \<forall>fd. req_fd req = Some fd \<longrightarrow> own_fd (g, c, w) fd \<Longrightarrow>
    cl_steps os (g, c, snd (sys os req w)) s \<Longrightarrow> cl_steps os (g, c, w) s"
  by (rule converse_rtranclp_into_rtranclp [where r = "cl_step os"]) (rule cl_step.call)

lemma steps_fields: "cl_handle c' = cl_handle c \<Longrightarrow> cl_steps os (g, c', w) s \<Longrightarrow> cl_steps os (g, c, w) s"
  by (rule converse_rtranclp_into_rtranclp [where r = "cl_step os"]) (rule cl_step.fields)

lemma steps_buffer:
  "\<forall>r. client_rx c w = Some r \<longrightarrow> rb_fd rx = rb_fd r \<Longrightarrow> cl_steps os (g, c, put_rx c rx w) s \<Longrightarrow> cl_steps os (g, c, w) s"
  by (rule converse_rtranclp_into_rtranclp [where r = "cl_step os"]) (rule cl_step.buffer)

lemma client_fd_sys [simp]: "client_fd c (snd (sys os req w)) = client_fd c w"
  by (simp add: client_fd_def)

lemma client_rx_sys [simp]: "client_rx c (snd (sys os req w)) = client_rx c w"
  by (simp add: client_rx_def)

lemma client_fd_upd [simp]:
  "client_fd (c\<lparr>cl_lastConnCheck := t\<rparr>) w = client_fd c w"
  "client_fd (c\<lparr>cl_timeout := t\<rparr>) w = client_fd c w"
  "client_fd (c\<lparr>cl_txView := v\<rparr>) w = client_fd c w"
  "client_fd (c\<lparr>cl_ep := e\<rparr>) w = client_fd c w"
  by (simp_all add: client_fd_def)

lemma client_fd_fields: "cl_handle c' = cl_handle c \<Longrightarrow> client_fd c' w = client_fd c w"
  by (simp add: client_fd_def)

lemma own_fd_client [simp]: "own_fd (g, c, w) (client_fd c w)"
  by (simp add: own_fd_def)

lemma own_fd_guard [simp]: "own_fd (Some fd, c, w) fd"
  by (simp add: own_fd_def)

lemma own_fd_sys [simp]: "own_fd (g, c, snd (sys os req w)) fd = own_fd (g, c, w) fd"
  by (simp add: own_fd_def)

lemma millis_steps: "cl_steps os (g, c, snd (millis os w)) s \<Longrightarrow> cl_steps os (g, c, w) s"
  by (rule steps_call [of Req_millis]) (simp_all add: millis_def Let_def split_beta)

lemma micros_steps: "cl_steps os (g, c, snd (micros os w)) s \<Longrightarrow> cl_steps os (g, c, w) s"
  by (rule steps_call [of Req_micros]) (simp_all add: micros_def Let_def split_beta)

lemma clock_frame [simp]:
  "own_fd (g, c, snd (millis os w)) fd = own_fd (g, c, w) fd"
  "own_fd (g, c, snd (micros os w)) fd = own_fd (g, c, w) fd"
  "client_fd c (snd (millis os w)) = client_fd c w" "client_fd c (snd (micros os w)) = client_fd c w"
  "client_rx c (snd (millis os w)) = client_rx c w"
  by (simp_all add: millis_def micros_def Let_def split_beta)

lemma stop_steps: "client_stop os c w = (c', w') \<Longrightarrow> cl_steps os (g, c, w) (g, c', w')"
proof -
  assume s: "client_stop os c w = (c', w')"
  have "cl_step os (g, c, w) (g, c\<lparr>cl_handle := asp_null\<rparr>, w')"
    using cl_step.stopped [of os g c w] s by (simp add: client_stop_def)
  moreover have "cl_step os (g, c\<lparr>cl_handle := asp_null\<rparr>, w') (g, c', w')"
    by (rule cl_step.fields) (use s in \<open>auto simp: client_stop_def\<close>)
  ultimately show ?thesis by (meson converse_rtranclp_into_rtranclp rtranclp.rtrancl_refl)
qed

section \<open>Reading\<close>

text \<open>What an operation on a buffer does to the world: at most one call on its descriptor.\<close>

definition rx_calls :: "lwip \<Rightarrow> int \<Rightarrow> 'a net_scheme \<Rightarrow> 'a net_scheme \<Rightarrow> bool" where
  "rx_calls os fd w w' \<longleftrightarrow> w' = w \<or> (\<exists>req. quiet req \<and> req_fd req = Some fd \<and> w' = snd (sys os req w))"

lemma rx_calls_refl [simp]: "rx_calls os fd w w"
  by (simp add: rx_calls_def)

lemma rx_calls_recv [simp]: "rx_calls os fd w (snd (sys os (Req_recv fd n) w))"
  unfolding rx_calls_def by (intro disjI2 exI [of _ "Req_recv fd n"]) simp

lemma rx_calls_ioctl [simp]: "rx_calls os fd w (snd (sys os (Req_fionread fd) w))"
  unfolding rx_calls_def by (intro disjI2 exI [of _ "Req_fionread fd"]) simp

lemma rx_take_fd [simp]: "rb_fd (snd (rx_take n rx)) = rb_fd rx"
  by (simp add: rx_take_def Let_def)

lemma rx_read_socket_calls:
  "rx_read_socket os out len rx w = (res, out', rx', w') \<Longrightarrow> rb_fd rx' = rb_fd rx \<and> rx_calls os (rb_fd rx) w w'"
  by (auto simp: rx_read_socket_def Let_def split_beta split: if_splits)

lemma rx_read_calls:
  "rx_read os null len rx w = (res, out, rx', w') \<Longrightarrow> rb_fd rx' = rb_fd rx \<and> rx_calls os (rb_fd rx) w w'"
proof -
  let ?n = "min len (rb_fill rx - rb_pos rx)"
  assume r: "rx_read os null len rx w = (res, out, rx', w')"
  show ?thesis
  proof (cases "null \<or> len = 0")
    case False
    show ?thesis
    proof (cases "rb_pos rx = rb_fill rx")
      case True
      with r False show ?thesis by (auto simp: rx_read_def dest!: rx_read_socket_calls)
    next
      case buffered: False
      show ?thesis
      proof (cases "?n = len")
        case True
        with r False buffered have "rx' = snd (rx_take ?n rx)" "w' = w"
          by (simp_all add: rx_read_def Let_def split_beta)
        then show ?thesis by simp
      next
        case part: False
        with r False buffered
        have "rx_read_socket os (fst (rx_take ?n rx)) (len - ?n) (snd (rx_take ?n rx)) w = (res, out, rx', w')"
          by (simp only: rx_read_def Let_def split_beta) simp
        then show ?thesis by (auto dest!: rx_read_socket_calls)
      qed
    qed
  qed (use r in \<open>auto simp: rx_read_def\<close>)
qed

lemma fillBuffer_calls:
  "fillBuffer os rx w = (ok, rx', w') \<Longrightarrow> rb_fd rx' = rb_fd rx \<and> rx_calls os (rb_fd rx) w w'"
  by (auto simp: fillBuffer_def rx_append_def Let_def split_beta split: if_splits)

lemma rx_peek_calls:
  "rx_peek os rx w = (res, rx', w') \<Longrightarrow> rb_fd rx' = rb_fd rx \<and> rx_calls os (rb_fd rx) w w'"
  by (auto simp: rx_peek_def split: if_splits prod.splits dest!: fillBuffer_calls)

lemma rx_available_calls:
  "rx_available os rx w = (n, rx', w') \<Longrightarrow> rb_fd rx' = rb_fd rx \<and> rx_calls os (rb_fd rx) w w'"
  by (auto simp: rx_available_def r_available_def Let_def split_beta split: if_splits)

lemma rx_calls_steps:
  assumes "client_rx c w = Some rx" "rx_calls os (rb_fd rx) w w'"
  shows "cl_steps os (g, c, w) (g, c, w')" "client_rx c w' = client_rx c w"
proof -
  from assms(2) consider "w' = w" | req where "quiet req" "req_fd req = Some (rb_fd rx)" "w' = snd (sys os req w)"
    unfolding rx_calls_def by blast
  then show "cl_steps os (g, c, w) (g, c, w')"
  proof cases
    case 2
    have "own_fd (g, c, w) (rb_fd rx)" using assms(1) by (simp add: own_fd_def)
    with 2(2) show ?thesis unfolding 2(3) by - (rule steps_call [OF 2(1)], simp_all)
  qed simp
  from assms(2) show "client_rx c w' = client_rx c w" by (auto simp: rx_calls_def)
qed

lemma check_failed_steps:
  assumes "client_rx c w = Some rx" "rb_fd rx' = rb_fd rx \<and> rx_calls os (rb_fd rx) w w1"
    and "check_failed os rx' c w1 = (c', w')"
  shows "cl_steps os (g, c, w) (g, c', w')"
proof -
  note calls = rx_calls_steps [OF assms(1) conjunct2 [OF assms(2)]]
  have "cl_steps os (g, c, w1) (g, c', w')"
  proof (rule steps_buffer [where rx = rx'])
    show "\<forall>r. client_rx c w1 = Some r \<longrightarrow> rb_fd rx' = rb_fd r" using calls(2) assms(1,2) by simp
    show "cl_steps os (g, c, put_rx c rx' w1) (g, c', w')"
      using assms(3) stop_steps [of os c "put_rx c rx' w1" c' w' g]
      by (auto simp: check_failed_def Let_def split: if_splits)
  qed
  with calls(1) show ?thesis by (rule rtranclp_trans)
qed

lemma client_read_steps:
  "client_read os null len c w = (res, out, c', w') \<Longrightarrow> cl_steps os (g, c, w) (g, c', w')"
  by (auto simp: client_read_def split: option.splits prod.splits
      dest!: rx_read_calls intro: check_failed_steps)

lemma client_read_byte_steps:
  "client_read_byte os c w = (res, c', w') \<Longrightarrow> cl_steps os (g, c, w) (g, c', w')"
  by (auto simp: client_read_byte_def split: prod.splits intro: client_read_steps)

lemma client_peek_steps:
  "client_peek os c w = (res, c', w') \<Longrightarrow> cl_steps os (g, c, w) (g, c', w')"
  by (auto simp: client_peek_def split: option.splits prod.splits
      dest!: rx_peek_calls intro: check_failed_steps)

lemma client_available_steps:
  "client_available os c w = (res, c', w') \<Longrightarrow> cl_steps os (g, c, w) (g, c', w')"
  by (auto simp: client_available_def split: option.splits prod.splits
      dest!: rx_available_calls intro: check_failed_steps)

lemma rx_drain_steps:
  "rx_drain os n rx w = Some (rx', w') \<Longrightarrow> client_rx c w = Some r \<Longrightarrow> rb_fd rx = rb_fd r \<Longrightarrow>
    cl_steps os (g, c, w) (g, c, w') \<and> rb_fd rx' = rb_fd rx \<and> client_rx c w' = client_rx c w"
proof (induction n arbitrary: rx w)
  case (Suc n)
  let ?w = "snd (sys os (Req_recv (rb_fd rx) RX_SIZE) w)"
  have one: "cl_steps os (g, c, w) (g, c, ?w)"
    by (rule steps_call) (use Suc.prems in \<open>auto simp: own_fd_def\<close>)
  show ?case
  proof (cases "an_ret (os (nt_calls w) (Req_recv (rb_fd rx) RX_SIZE)) \<le> 0")
    case True
    with Suc.prems one show ?thesis by (auto simp: Let_def split_beta)
  next
    case False
    with Suc.prems have "rx_drain os n
        (rx\<lparr>rb_buffer := memcpy_to (rb_buffer rx) 0 (an_bytes (os (nt_calls w) (Req_recv (rb_fd rx) RX_SIZE)))\<rparr>) ?w =
        Some (rx', w')" by (simp add: Let_def split_beta)
    from Suc.IH [OF this] Suc.prems one show ?thesis by (auto intro: rtranclp_trans)
  qed
qed simp

lemma client_flush_steps:
  "client_flush os n c w = Some w' \<Longrightarrow> cl_steps os (g, c, w) (g, c, w')"
proof (cases "client_rx c w")
  case (Some r)
  assume "client_flush os n c w = Some w'"
  with Some obtain rx w1 where d: "rx_drain os n (r\<lparr>rb_pos := 0, rb_fill := 0\<rparr>) w = Some (rx, w1)" "w' = put_rx c rx w1"
    by (auto simp: client_flush_def rx_flush_def)
  from rx_drain_steps [OF d(1) Some] have s: "cl_steps os (g, c, w) (g, c, w1)" "rb_fd rx = rb_fd r"
    "client_rx c w1 = Some r" by (simp_all add: Some)
  have "cl_steps os (g, c, w1) (g, c, w')"
    unfolding d(2) by (rule steps_buffer [where rx = rx]) (use s in simp_all)
  with s(1) show ?thesis by (rule rtranclp_trans)
qed (simp add: client_flush_def)

lemma client_connected_steps:
  assumes "client_connected os c w = (up, c', w')"
  shows "cl_steps os (g, c, w) (g, c', w')"
proof -
  let ?w1 = "snd (millis os w)"
  let ?w2 = "snd (sys os (Req_poll_in (client_fd c ?w1)) ?w1)"
  have probe: "cl_steps os (g, c, w) (g, c', ?w2)" if "cl_handle c' = cl_handle c"
    by (rule millis_steps, rule steps_call [of "Req_poll_in (client_fd c ?w1)"], simp, simp)
      (rule steps_fields [OF that], simp)
  have clock: "cl_steps os (g, c, w) (g, c, ?w1)" by (rule millis_steps) simp
  from assms consider "c' = c \<and> w' = w" | "c' = c \<and> w' = ?w1" | "cl_handle c' = cl_handle c \<and> w' = ?w2"
    unfolding client_connected_def Let_def split_beta by (auto split: if_splits)
  then show ?thesis by cases (use probe clock in auto)
qed

end
