(* ===== verification/WiFi_Client_Ops2.thy ===== *)
theory WiFi_Client_Ops2
  imports WiFi_Client_Ops
begin

text \<open>Connecting, writing, endpoints and options as sequences of elementary steps.\<close>

section \<open>Endpoints and options\<close>

lemma call_client: "quiet req \<Longrightarrow> req_fd req = Some (client_fd c w) \<Longrightarrow> cl_steps os (g, c, w) (g, c, snd (sys os req w))"
  by (rule r_into_rtranclp, rule cl_step.call) simp_all

lemma call_free: "quiet req \<Longrightarrow> req_fd req = None \<Longrightarrow> cl_steps os (g, c, w) (g, c, snd (sys os req w))"
  by (rule r_into_rtranclp, rule cl_step.call) simp_all

lemma call_guard: "quiet req \<Longrightarrow> req_fd req = Some fd \<Longrightarrow> cl_steps os (Some fd, c, w) (Some fd, c, snd (sys os req w))"
  by (rule r_into_rtranclp, rule cl_step.call) simp_all

lemma field_steps: "cl_handle c' = cl_handle c \<Longrightarrow> cl_steps os (g, c, w) (g, c', w)"
  by (rule r_into_rtranclp, rule cl_step.fields) simp

lemma clock_steps:
  "cl_steps os (g, c, w) (g, c, snd (millis os w))" "cl_steps os (g, c, w) (g, c, snd (micros os w))"
  by (rule millis_steps, simp) (rule micros_steps, simp)

lemmas steps_trans [trans] = rtranclp_trans [where r = "cl_step os" for os]

lemma cacheEndpoints_steps:
  assumes "cacheEndpoints os c w = (c', w')"
  shows "cl_steps os (g, c, w) (g, c', w')"
proof -
  let ?fd = "client_fd c w"
  let ?w1 = "snd (sys os (Req_getpeername ?fd) w)"
  let ?w2 = "snd (sys os (Req_getsockname ?fd) ?w1)"
  have one: "cl_steps os (g, c, w) (g, c, ?w1)" by (rule call_client) simp_all
  have "cl_steps os (g, c, ?w1) (g, c, ?w2)" by (rule call_client) simp_all
  with one have two: "cl_steps os (g, c, w) (g, c, ?w2)" by (rule rtranclp_trans)
  have f: "cl_steps os (g, c, w') (g, c', w')"
    by (rule field_steps) (use assms in \<open>auto simp: cacheEndpoints_def split: prod.splits\<close>)
  have "w' = w \<or> w' = ?w1 \<or> w' = ?w2"
    using assms by (auto simp: cacheEndpoints_def refresh_def Let_def split_beta)
  with one two have "cl_steps os (g, c, w) (g, c, w')" by auto
  then show ?thesis using f by (rule rtranclp_trans)
qed

lemma setSocketOption_steps: "setSocketOption os opt v c w = (r, w') \<Longrightarrow> cl_steps os (g, c, w) (g, c, w')"
  using call_client [of "Req_setsockopt (client_fd c w) opt v" c w os g]
  by (auto simp: setSocketOption_def split_beta)

lemma getOption_steps: "getOption os opt c w = (r, v, w') \<Longrightarrow> cl_steps os (g, c, w) (g, c, w')"
  using call_client [of "Req_getsockopt (client_fd c w) opt" c w os g]
  by (auto simp: getOption_def split_beta)

lemma setTimeout_steps:
  assumes "client_setTimeout os secs c w = (r, c', w')"
  shows "cl_steps os (g, c, w) (g, c', w')"
proof -
  let ?c = "c\<lparr>cl_timeout := secs * 1000\<rparr>"
  have f: "cl_steps os (g, c, w) (g, ?c, w)" by (rule field_steps) simp
  obtain r1 w1 where o1: "setSocketOption os SO_RCVTIMEO [uint secs, 0] ?c w = (r1, w1)" by fastforce
  obtain r2 w2 where o2: "setSocketOption os SO_SNDTIMEO [uint secs, 0] ?c w1 = (r2, w2)" by fastforce
  have s: "cl_steps os (g, ?c, w) (g, ?c, w1)" "cl_steps os (g, ?c, w1) (g, ?c, w2)"
    using setSocketOption_steps [OF o1] setSocketOption_steps [OF o2] by simp_all
  have "c' = ?c \<and> (w' = w \<or> w' = w1 \<or> w' = w2)"
    using assms o1 o2 by (auto simp: client_setTimeout_def Let_def split: if_splits prod.splits)
  then show ?thesis using f s by (elim conjE disjE) (auto intro: rtranclp_trans)
qed

lemma setKeepAlive_steps:
  assumes "setKeepAlive os en a b k c w = (r, w')"
  shows "cl_steps os (g, c, w) (g, c, w')"
proof -
  obtain r1 w1 where o1: "setSocketOption os SO_KEEPALIVE [if en then 1 else 0] c w = (r1, w1)" by fastforce
  obtain r2 w2 where o2: "setSocketOption os TCP_KEEPIDLE [a] c w1 = (r2, w2)" by fastforce
  obtain r3 w3 where o3: "setSocketOption os TCP_KEEPINTVL [b] c w2 = (r3, w3)" by fastforce
  obtain r4 w4 where o4: "setSocketOption os TCP_KEEPCNT [k] c w3 = (r4, w4)" by fastforce
  note s = setSocketOption_steps [OF o1, of g] setSocketOption_steps [OF o2, of g]
    setSocketOption_steps [OF o3, of g] setSocketOption_steps [OF o4, of g]
  have "w' = w1 \<or> w' = w4"
    using assms o1 o2 o3 o4 by (auto simp: setKeepAlive_def split: if_splits)
  then show ?thesis using s by (elim disjE) (auto intro: rtranclp_trans)
qed

section \<open>Connecting\<close>

lemma hostByName_steps:
  assumes "hostByName parse os host w = (r, w')"
  shows "cl_steps os (g, c, w) (g, c, w')"
proof (cases "parse host")
  case None
  let ?w1 = "snd (sys os (Req_event_wait WIFI_DNS_IDLE_BIT 16000) w)"
  let ?w2 = "snd (sys os (Req_event_clear (WIFI_DNS_IDLE_BIT + WIFI_DNS_DONE_BIT)) ?w1)"
  let ?w3 = "snd (sys os (Req_dns host) ?w2)"
  let ?w4 = "snd (sys os (Req_event_wait WIFI_DNS_DONE_BIT 15000) ?w3)"
  let ?w5 = "snd (sys os (Req_event_clear WIFI_DNS_DONE_BIT) ?w4)"
  have free: "cl_steps os (g, c, v) (g, c, snd (sys os req v))" if "quiet req" "req_fd req = None" for req v
    using that by (rule call_free)
  have s3: "cl_steps os (g, c, w) (g, c, ?w3)"
    by (rule steps_trans [OF steps_trans [OF free free] free]) simp_all
  have s5: "cl_steps os (g, c, w) (g, c, ?w5)"
    by (rule steps_trans [OF s3 steps_trans [OF free free]]) simp_all
  have "w' = snd (sys os (Req_event_set WIFI_DNS_IDLE_BIT) ?w3) \<or> w' = snd (sys os (Req_event_set WIFI_DNS_IDLE_BIT) ?w5)"
    using assms None by (auto simp: hostByName_def Let_def split_beta split: if_splits)
  then show ?thesis
    using steps_trans [OF s3 free [of "Req_event_set WIFI_DNS_IDLE_BIT"]]
      steps_trans [OF s5 free [of "Req_event_set WIFI_DNS_IDLE_BIT"]] by auto
qed (use assms in \<open>simp add: hostByName_def\<close>)

lemma set_options_steps:
  "set_options os fd opts w = (ok, w') \<Longrightarrow> cl_steps os (Some fd, c, w) (Some fd, c, w')"
proof (induction opts arbitrary: w)
  case (Cons o1 opts)
  obtain must opt val where o: "o1 = (must, opt, val)" by (cases o1)
  let ?w = "snd (sys os (Req_setsockopt fd opt val) w)"
  have one: "cl_steps os (Some fd, c, w) (Some fd, c, ?w)" by (rule call_guard) simp_all
  show ?case
  proof (cases "must \<and> an_ret (os (nt_calls w) (Req_setsockopt fd opt val)) < 0")
    case True
    with Cons.prems one show ?thesis by (simp add: o split_beta)
  next
    case False
    with Cons.prems have "set_options os fd opts ?w = (ok, w')" by (auto simp: o split_beta)
    from steps_trans [OF one Cons.IH [OF this]] show ?thesis .
  qed
qed simp

lemma handshake_steps:
  assumes "handshake os fd ip port t w = (ok, w')"
  shows "cl_steps os (Some fd, c, w) (Some fd, c, w')"
proof -
  let ?w1 = "snd (sys os (Req_connect fd ip port) w)"
  let ?w2 = "snd (sys os (Req_select_write fd (if sint t < 0 then None else Some (sint t * 1000))) ?w1)"
  let ?w3 = "snd (sys os (Req_getsockopt fd SO_ERROR) ?w2)"
  have one: "cl_steps os (Some fd, c, w) (Some fd, c, ?w1)" by (rule call_guard) simp_all
  have two: "cl_steps os (Some fd, c, w) (Some fd, c, ?w2)"
    by (rule steps_trans [OF one], rule call_guard) simp_all
  have three: "cl_steps os (Some fd, c, w) (Some fd, c, ?w3)"
    by (rule steps_trans [OF two], rule call_guard) simp_all
  have "w' = ?w1 \<or> w' = ?w2 \<or> w' = ?w3"
    using assms by (auto simp: handshake_def Let_def split_beta split: if_splits)
  with one two three show ?thesis by auto
qed

lemma guard_open:
  assumes "0 \<le> an_ret (os (nt_calls w) Req_socket)"
  shows "cl_steps os (None, c, w) (Some (an_ret (os (nt_calls w) Req_socket)), c, snd (sys os Req_socket w))"
  using cl_step.opened [of os c w] assms by (auto intro: r_into_rtranclp)

lemma guard_refused:
  assumes "\<not> 0 \<le> an_ret (os (nt_calls w) Req_socket)"
  shows "cl_steps os (None, c, w) (None, c, snd (sys os Req_socket w))"
  using cl_step.opened [of os c w] assms by (auto intro: r_into_rtranclp)

lemma guard_close: "cl_steps os (Some fd, c, w) (None, c, os_close os fd w)"
  by (rule r_into_rtranclp) (rule cl_step.closed)

lemma guard_adopt:
  assumes "adopt_fd fd w = (p, w1)" "cl_handle c' = p"
  shows "cl_steps os (Some fd, c, w) (None, c', release_handle os (cl_handle c) w1)"
proof -
  have "cl_steps os (Some fd, c, w) (None, c\<lparr>cl_handle := p\<rparr>, release_handle os (cl_handle c) w1)"
    by (rule r_into_rtranclp) (rule cl_step.adopted [OF assms(1)])
  also have "cl_steps os (None, c\<lparr>cl_handle := p\<rparr>, release_handle os (cl_handle c) w1)
      (None, c', release_handle os (cl_handle c) w1)"
    by (rule field_steps) (simp add: assms(2))
  finally show ?thesis .
qed

lemma connect_to_steps:
  assumes "client_connect_to os ip port t c w = (ok, c', w')"
  shows "cl_steps os (None, c, w) (None, c', w')"
proof -
  let ?c = "c\<lparr>cl_timeout := t\<rparr>"
  let ?fd = "an_ret (os (nt_calls w) Req_socket)"
  let ?w1 = "snd (sys os Req_socket w)"
  let ?w2 = "snd (sys os (Req_nonblock ?fd True) ?w1)"
  have f: "cl_steps os (None, c, w) (None, ?c, w)" by (rule field_steps) simp
  show ?thesis
  proof (cases "0 \<le> ?fd")
    case False
    with assms have "c' = ?c" "w' = ?w1" by (simp_all add: client_connect_to_def Let_def split_beta)
    with steps_trans [OF f guard_refused [where os = os, OF False]] show ?thesis by simp
  next
    case True
    obtain k1 w3 where k1: "configureSocket os ?fd t ?w2 = (k1, w3)" by fastforce
    obtain k2 w4 where k2: "handshake os ?fd ip port t w3 = (k2, w4)" by fastforce
    let ?w5 = "snd (sys os (Req_nonblock ?fd False) w4)"
    obtain p w6 where a: "adopt_fd ?fd ?w5 = (p, w6)" by fastforce
    have s2: "cl_steps os (None, c, w) (Some ?fd, ?c, ?w2)"
      by (rule steps_trans [OF steps_trans [OF f guard_open [where os = os, OF True]]], rule call_guard) simp_all
    have s3: "cl_steps os (None, c, w) (Some ?fd, ?c, w3)"
      using steps_trans [OF s2 set_options_steps] k1 by (simp add: configureSocket_def)
    have s4: "cl_steps os (None, c, w) (Some ?fd, ?c, w4)"
      by (rule steps_trans [OF s3 handshake_steps [OF k2]])
    have s5: "cl_steps os (None, c, w) (Some ?fd, ?c, ?w5)"
      by (rule steps_trans [OF s4], rule call_guard) simp_all
    consider "\<not> k1" | "k1" "\<not> k2" | "k1" "k2" by blast
    then show ?thesis
    proof cases
      case 1
      with assms True k1 have "c' = ?c" "w' = os_close os ?fd w3"
        by (simp_all add: client_connect_to_def Let_def split_beta)
      with steps_trans [OF s3 guard_close] show ?thesis by simp
    next
      case 2
      with assms True k1 k2 have "c' = ?c" "w' = os_close os ?fd w4"
        by (simp_all add: client_connect_to_def Let_def split_beta)
      with steps_trans [OF s4 guard_close] show ?thesis by simp
    next
      case 3
      with assms True k1 k2 a have "cl_handle c' = p" "w' = release_handle os (cl_handle ?c) w6"
        by (auto simp: client_connect_to_def Let_def split_beta)
      with steps_trans [OF s5 guard_adopt [OF a]] show ?thesis by simp
    qed
  qed
qed

lemma connectAsync_steps:
  assumes "connectAsync os ip port c w = (ok, c', w')"
  shows "cl_steps os (None, c, w) (None, c', w')"
proof (cases "cl_connected c \<or> cl_asyncConnState c \<noteq> ConnIdle")
  case True
  with assms show ?thesis by (simp add: connectAsync_def)
next
  case idle: False
  let ?fd = "an_ret (os (nt_calls w) Req_socket)"
  let ?w1 = "snd (sys os Req_socket w)"
  let ?w2 = "snd (sys os (Req_nonblock ?fd True) ?w1)"
  show ?thesis
  proof (cases "0 \<le> ?fd")
    case False
    with assms idle have "c' = c" "w' = ?w1" by (simp_all add: connectAsync_def Let_def split_beta)
    with guard_refused [where os = os, OF False] show ?thesis by simp
  next
    case True
    obtain k1 w3 where k1: "configureSocket os ?fd (cl_timeout c) ?w2 = (k1, w3)" by fastforce
    let ?a = "os (nt_calls w3) (Req_connect ?fd ip port)"
    let ?w4 = "snd (sys os (Req_connect ?fd ip port) w3)"
    obtain p w5 where a: "adopt_fd ?fd ?w4 = (p, w5)" by fastforce
    have s2: "cl_steps os (None, c, w) (Some ?fd, c, ?w2)"
      by (rule steps_trans [OF guard_open [where os = os, OF True]], rule call_guard) simp_all
    have s3: "cl_steps os (None, c, w) (Some ?fd, c, w3)"
      using steps_trans [OF s2 set_options_steps] k1 by (simp add: configureSocket_def)
    have s4: "cl_steps os (None, c, w) (Some ?fd, c, ?w4)"
      by (rule steps_trans [OF s3], rule call_guard) simp_all
    consider "\<not> k1" | "k1" "an_ret ?a < 0 \<and> nt_errno ?w4 \<noteq> EINPROGRESS"
      | "k1" "\<not> (an_ret ?a < 0 \<and> nt_errno ?w4 \<noteq> EINPROGRESS)" by blast
    then show ?thesis
    proof cases
      case 1
      with assms True idle k1 have "c' = c" "w' = os_close os ?fd w3"
        by (simp_all add: connectAsync_def Let_def split_beta)
      with steps_trans [OF s3 guard_close] show ?thesis by simp
    next
      case 2
      with assms True idle k1 have "c' = c" "w' = os_close os ?fd ?w4"
        by (simp_all add: connectAsync_def Let_def split_beta)
      with steps_trans [OF s4 guard_close] show ?thesis by simp
    next
      case 3
      let ?w6 = "release_handle os (cl_handle c) w5"
      from 3 assms True idle k1 a have "cl_handle c' = p" "w' = snd (millis os ?w6)"
        by (auto simp: connectAsync_def Let_def split_beta)
      with steps_trans [OF s4 steps_trans [OF guard_adopt [OF a] clock_steps(1)]] show ?thesis by simp
    qed
  qed
qed

lemma pollConnect_steps:
  assumes "pollConnect os c w = (r, c', w')"
  shows "cl_steps os (g, c, w) (g, c', w')"
proof -
  let ?w1 = "snd (sys os (Req_select_write (client_fd c w) (Some 0)) w)"
  let ?w2 = "snd (millis os ?w1)"
  let ?w3 = "snd (sys os (Req_getsockopt (client_fd c w) SO_ERROR) ?w1)"
  have one: "cl_steps os (g, c, w) (g, c, ?w1)" by (rule call_client) simp_all
  have two: "cl_steps os (g, c, w) (g, c, ?w2)" by (rule steps_trans [OF one clock_steps(1)])
  have three: "cl_steps os (g, c, w) (g, c, ?w3)"
    by (rule steps_trans [OF one], rule call_client) simp_all
  have "(cl_handle c' = cl_handle c \<and> (w' = w \<or> w' = ?w2 \<or> w' = ?w3)) \<or>
      client_stop os c ?w2 = (c', w') \<or> client_stop os c ?w3 = (c', w')"
    using assms unfolding pollConnect_def Let_def split_beta by (auto split: if_splits simp: prod_eq_iff)
  then show ?thesis
    using steps_trans [OF two stop_steps [where w = ?w2 and os = os]] steps_trans [OF three stop_steps [where w = ?w3 and os = os]]
      steps_trans [OF two field_steps] steps_trans [OF three field_steps] field_steps by blast
qed

section \<open>Writing\<close>

lemma send_steps: "cl_steps os (g, c, w) (g, c, snd (sys os (Req_send (client_fd c w) bs) w))"
  by (rule call_client) simp_all

lemma send_once_steps:
  assumes "send_once os rest c w = (att, c', w')"
  shows "cl_steps os (g, c, w) (g, c', w')"
proof -
  let ?w = "snd (sys os (Req_send (client_fd c w) rest) w)"
  have "(c' = c \<and> w' = ?w) \<or> client_stop os c ?w = (c', w')"
    using assms by (auto simp: send_once_def Let_def split_beta split: if_splits)
  then show ?thesis using send_steps steps_trans [OF send_steps stop_steps] by blast
qed

text \<open>The world after the clock and the yield or \<open>select\<close> of one turn of the waiting loop, and the turn.\<close>

definition turn_req :: "lwip \<Rightarrow> u32 \<Rightarrow> u32 \<Rightarrow> client \<Rightarrow> world \<Rightarrow> sock_req" where
  "turn_req os start spin c w =
     (if fst (micros os (snd (millis os w))) - spin < WRITE_SPIN_US then Req_yield
      else Req_select_write (client_fd c w) (Some (slice_us (cl_timeout c - (fst (millis os w) - start)))))"

definition turn_world :: "lwip \<Rightarrow> u32 \<Rightarrow> u32 \<Rightarrow> client \<Rightarrow> world \<Rightarrow> world" where
  "turn_world os start spin c w =
     snd (sys os (turn_req os start spin c w) (snd (micros os (snd (millis os w)))))"

lemma turn_steps: "cl_steps os (g, c, w) (g, c, turn_world os start spin c w)"
proof -
  let ?w2 = "snd (micros os (snd (millis os w)))"
  have s2: "cl_steps os (g, c, w) (g, c, ?w2)" by (rule steps_trans [OF clock_steps(1) clock_steps(2)])
  have "cl_steps os (g, c, ?w2) (g, c, turn_world os start spin c w)"
    unfolding turn_world_def turn_req_def
    by (cases "fst (micros os (snd (millis os w))) - spin < WRITE_SPIN_US"; simp add: call_free call_client)
  with s2 show ?thesis by (rule rtranclp_trans)
qed

definition turn_late :: "lwip \<Rightarrow> u32 \<Rightarrow> client \<Rightarrow> world \<Rightarrow> bool" where
  "turn_late os start c w \<longleftrightarrow> cl_timeout c \<le> fst (millis os w) - start"

definition turn_full :: "lwip \<Rightarrow> u32 \<Rightarrow> u32 \<Rightarrow> client \<Rightarrow> world \<Rightarrow> bool" where
  "turn_full os start spin c w \<longleftrightarrow>
     \<not> fst (micros os (snd (millis os w))) - spin < WRITE_SPIN_US \<and>
     an_ret (os (nt_calls (snd (micros os (snd (millis os w))))) (turn_req os start spin c w)) \<le> 0"

lemma write_wait_turn:
  "write_wait os (Suc n) start spin rest c w =
     (if turn_late os start c w then Some (None, c, snd (millis os w))
      else if turn_full os start spin c w then write_wait os n start spin rest c (turn_world os start spin c w)
      else case send_once os rest c (turn_world os start spin c w) of
        (Took k, c, w) \<Rightarrow> Some (Some k, c, w)
      | (Broken, c, w) \<Rightarrow> Some (None, c, w)
      | (Busy, c, w) \<Rightarrow> write_wait os n start spin rest c w)"
  unfolding turn_world_def turn_req_def turn_late_def turn_full_def
  by (simp add: Let_def split_beta cong: attempt.case_cong)

lemma write_wait_cases:
  assumes "write_wait os (Suc n) start spin rest c w = Some (r, c', w')"
    and "send_once os rest c (turn_world os start spin c w) = (att, c4, w4)"
  obtains "r = None" "c' = c" "w' = snd (millis os w)"
  | "write_wait os n start spin rest c (turn_world os start spin c w) = Some (r, c', w')"
  | k where "att = Took k" "r = Some k" "c' = c4" "w' = w4"
  | "att = Broken" "r = None" "c' = c4" "w' = w4"
  | "att = Busy" "write_wait os n start spin rest c4 w4 = Some (r, c', w')"
  using assms(1) unfolding write_wait_turn assms(2) prod.case
  by (cases "turn_late os start c w"; cases "turn_full os start spin c w"; cases att) (auto intro: that)

lemma write_wait_None:
  assumes "write_wait os (Suc n) start spin rest c w = None"
    and "send_once os rest c (turn_world os start spin c w) = (att, c4, w4)"
  shows "\<not> turn_late os start c w \<and>
    (write_wait os n start spin rest c (turn_world os start spin c w) = None \<or>
     att = Busy \<and> write_wait os n start spin rest c4 w4 = None)"
  using assms(1) unfolding write_wait_turn assms(2) prod.case
  by (cases "turn_late os start c w"; cases "turn_full os start spin c w"; cases att) auto

lemma write_wait_steps:
  "write_wait os n start spin rest c w = Some (r, c', w') \<Longrightarrow> cl_steps os (g, c, w) (g, c', w')"
proof (induction n arbitrary: c w)
  case (Suc n)
  let ?v = "turn_world os start spin c w"
  obtain att c4 w4 where a: "send_once os rest c ?v = (att, c4, w4)" by (cases "send_once os rest c ?v")
  have s4: "cl_steps os (g, c, w) (g, c4, w4)" by (rule steps_trans [OF turn_steps send_once_steps [OF a]])
  from Suc.prems a show ?case
  proof (cases rule: write_wait_cases)
    case 1
    then show ?thesis by (simp add: clock_steps)
  next
    case 2
    from steps_trans [OF turn_steps Suc.IH [OF this]] show ?thesis .
  next
    case 5
    from steps_trans [OF s4 Suc.IH [OF 5(2)]] show ?thesis .
  qed (use s4 in auto)
qed simp

lemma write_loop_steps:
  "write_loop os n rest sent c w = Some (r, c', w') \<Longrightarrow> cl_steps os (g, c, w) (g, c', w')"
proof (induction n arbitrary: rest sent c w)
  case (Suc n)
  let ?a = "os (nt_calls w) (Req_send (client_fd c w) rest)"
  let ?w1 = "snd (sys os (Req_send (client_fd c w) rest) w)"
  let ?start = "fst (millis os ?w1)" let ?w2 = "snd (millis os ?w1)"
  let ?spin = "fst (micros os ?w2)" let ?w3 = "snd (micros os ?w2)"
  have s1: "cl_steps os (g, c, w) (g, c, ?w1)" by (rule send_steps)
  have s3: "cl_steps os (g, c, w) (g, c, ?w3)"
    by (rule steps_trans [OF s1 steps_trans [OF clock_steps(1) clock_steps(2)]])
  consider "rest = []" | "rest \<noteq> []" "0 < an_ret ?a" | "rest \<noteq> []" "\<not> 0 < an_ret ?a" "an_ret ?a = 0 \<or> \<not> retryable (nt_errno ?w1)"
    | "rest \<noteq> []" "\<not> 0 < an_ret ?a" "\<not> (an_ret ?a = 0 \<or> \<not> retryable (nt_errno ?w1))" by blast
  then show ?case
  proof cases
    case 1
    with Suc.prems show ?thesis by simp
  next
    case 2
    with Suc.prems have "write_loop os n (drop (nat (an_ret ?a)) rest) (sent + nat (an_ret ?a)) c ?w1 = Some (r, c', w')"
      by (simp add: Let_def split_beta)
    from steps_trans [OF s1 Suc.IH [OF this]] show ?thesis .
  next
    case 3
    with Suc.prems have "client_stop os c ?w1 = (c', w')" by (auto simp: Let_def split_beta)
    from steps_trans [OF s1 stop_steps [OF this]] show ?thesis .
  next
    case 4
    with Suc.prems obtain k c1 w4 where k: "write_wait os n ?start ?spin rest c ?w3 = Some (k, c1, w4)"
      "case k of None \<Rightarrow> c' = c1 \<and> w' = w4 | Some k \<Rightarrow> write_loop os n (drop k rest) (sent + k) c1 w4 = Some (r, c', w')"
      by (auto simp: Let_def split_beta split: option.splits)
    have s4: "cl_steps os (g, c, w) (g, c1, w4)" by (rule steps_trans [OF s3 write_wait_steps [OF k(1)]])
    show ?thesis
    proof (cases k)
      case None
      with k(2) s4 show ?thesis by simp
    next
      case (Some j)
      with k(2) steps_trans [OF s4 Suc.IH] show ?thesis by simp
    qed
  qed
qed simp

lemma client_write_steps:
  "client_write os n buf c w = Some (r, c', w') \<Longrightarrow> cl_steps os (g, c, w) (g, c', w')"
  by (auto simp: client_write_def split: if_splits intro: write_loop_steps)

lemma write_stream_steps:
  "write_stream avail readBytes os n written st c w = Some (r, st', c', w') \<Longrightarrow> cl_steps os (g, c, w) (g, c', w')"
proof (induction n arbitrary: written st c w)
  case (Suc n)
  obtain buf st1 where b: "readBytes (min (avail st) 1460) st = (buf, st1)" by fastforce
  show ?case
  proof (cases "avail st = 0 \<or> buf = []")
    case False
    with Suc.prems b obtain k c1 w1 where k: "client_write os n (Some buf) c w = Some (k, c1, w1)"
      "write_stream avail readBytes os n (written + k) st1 c1 w1 = Some (r, st', c', w')"
      by (auto split: option.splits)
    from steps_trans [OF client_write_steps [OF k(1)] Suc.IH [OF k(2)]] show ?thesis .
  qed (use Suc.prems b in \<open>auto split: if_splits\<close>)
qed simp

lemma writeAsync_steps:
  assumes "writeAsync os buf c w = (r, c', w')"
  shows "cl_steps os (g, c, w) (g, c', w')"
proof (cases "\<not> cl_connected c \<or> client_fd c w < 0 \<or> writeBusy c \<or> buf = None \<or> buf = Some []")
  case True
  with assms show ?thesis by (simp add: writeAsync_def)
next
  case False
  let ?w1 = "snd (sys os (Req_send (client_fd c w) (the buf)) w)"
  have s1: "cl_steps os (g, c, w) (g, c, ?w1)" by (rule send_steps)
  have "(cl_handle c' = cl_handle c \<and> w' = ?w1) \<or> (\<exists>v. client_stop os (c\<lparr>cl_txView := v\<rparr>) ?w1 = (c', w'))"
    using assms False by (auto simp: writeAsync_def Let_def split_beta prod_eq_iff split: if_splits)
  moreover have "cl_steps os (g, c, ?w1) (g, c', w')" if "client_stop os (c\<lparr>cl_txView := v\<rparr>) ?w1 = (c', w')" for v
    by (rule steps_trans [OF field_steps stop_steps [OF that]]) simp
  ultimately show ?thesis
    using s1 steps_trans [OF s1] field_steps by blast
qed

lemma advance_view_frame: "advance_view k c = (r, c') \<Longrightarrow> cl_handle c' = cl_handle c"
  by (auto simp: advance_view_def Let_def)

lemma attempt_steps:
  assumes "send_once os (cl_txView c) c w = (att, c1, w1)" "w' = w1"
    and "case att of Took k \<Rightarrow> advance_view k c1 = (r, c') | _ \<Rightarrow> c' = c1"
  shows "cl_steps os (g, c, w) (g, c', w')"
proof -
  have "cl_handle c' = cl_handle c1" using assms(3) advance_view_frame by (auto split: attempt.splits)
  from steps_trans [OF send_once_steps [OF assms(1)] field_steps [OF this]] assms(2) show ?thesis by simp
qed

lemma poll_spin_steps:
  "poll_spin os n spin c w = Some (r, c', w') \<Longrightarrow> cl_steps os (g, c, w) (g, c', w')"
proof (induction n arbitrary: c w)
  case (Suc n)
  let ?w1 = "snd (micros os w)"
  let ?w2 = "snd (sys os Req_yield ?w1)"
  have s1: "cl_steps os (g, c, w) (g, c, ?w1)" by (rule clock_steps)
  have s2: "cl_steps os (g, c, w) (g, c, ?w2)" by (rule steps_trans [OF s1], rule call_free) simp_all
  obtain att c3 w3 where a: "send_once os (cl_txView c) c ?w2 = (att, c3, w3)"
    by (cases "send_once os (cl_txView c) c ?w2")
  consider "c' = c \<and> w' = ?w1" | "w' = w3" "case att of Took k \<Rightarrow> advance_view k c3 = (r, c') | _ \<Rightarrow> c' = c3"
    | "poll_spin os n spin c3 w3 = Some (r, c', w')"
    using Suc.prems a by (auto simp: Let_def split_beta split: if_splits attempt.splits prod.splits)
  then show ?case
  proof cases
    case 1
    with s1 show ?thesis by simp
  next
    case 2
    from steps_trans [OF s2 attempt_steps [OF a 2]] show ?thesis .
  next
    case 3
    from steps_trans [OF s2 steps_trans [OF send_once_steps [OF a] Suc.IH [OF this]]] show ?thesis .
  qed
qed simp

lemma pollWrite_steps:
  assumes "pollWrite os n c w = Some (r, c', w')"
  shows "cl_steps os (g, c, w) (g, c', w')"
proof -
  obtain att c3 w3 where a: "send_once os (cl_txView c) c w = (att, c3, w3)"
    by (cases "send_once os (cl_txView c) c w")
  consider "c' = c \<and> w' = w" | "w' = w3" "case att of Took k \<Rightarrow> advance_view k c3 = (r, c') | _ \<Rightarrow> c' = c3"
    | "poll_spin os n (fst (micros os w3)) c3 (snd (micros os w3)) = Some (r, c', w')"
    using assms a by (auto simp: pollWrite_def Let_def split_beta split: if_splits attempt.splits prod.splits)
  then show ?thesis
  proof cases
    case 1
    then show ?thesis by simp
  next
    case 2
    from attempt_steps [OF a 2] show ?thesis .
  next
    case 3
    from steps_trans [OF send_once_steps [OF a] steps_trans [OF clock_steps(2) poll_spin_steps [OF this]]] show ?thesis .
  qed
qed

end
