(* ===== verification/WiFi_Client_Transfer.thy ===== *)
theory WiFi_Client_Transfer
  imports WiFi_Client_Ops2
begin

text \<open>
  What a client sends: the bytes the socket took are a prefix of the data, in order; the blocking write
  returns within its time limit; the polled write keeps the rest as its view.
\<close>

section \<open>The bytes a socket took\<close>

fun taken_by :: "int \<Rightarrow> (sock_req \<times> sock_ans) \<Rightarrow> u8 list" where
  "taken_by fd (Req_send f xs, a) = (if f = fd then take (nat (an_ret a)) xs else [])"
| "taken_by fd _ = []"

definition taken :: "int \<Rightarrow> 'a net_scheme \<Rightarrow> u8 list" where
  "taken fd w = concat (map (taken_by fd) (nt_calls w))"

lemma taken_sys: "taken fd (snd (sys os req w)) = taken fd w @ taken_by fd (req, os (nt_calls w) req)"
  by (simp add: taken_def)

lemma taken_clock [simp]: "taken fd (snd (millis os w)) = taken fd w" "taken fd (snd (micros os w)) = taken fd w"
  by (simp_all add: millis_def micros_def Let_def split_beta taken_sys)

lemma taken_heap [simp]: "taken fd (w\<lparr>cw_heap := h\<rparr>) = taken fd w" "taken fd (w\<lparr>cw_fault := b\<rparr>) = taken fd w"
  by (simp_all add: taken_def)

lemma taken_stop: "client_stop os c w = (c', w') \<Longrightarrow> taken fd w' = taken fd w \<and> \<not> cl_connected c'"
  by (auto simp: client_stop_def release_handle_def destroy_handle_def os_close_def taken_sys split: option.splits)

lemma send_take:
  assumes "good_transfer os"
  shows "nat (an_ret (os calls (Req_send fd xs))) \<le> length xs"
  using assms by (simp add: good_transfer_def nat_le_iff)

lemma send_once_spec:
  assumes "good_transfer os" "send_once os rest c w = (att, c', w')"
  shows "case att of
      Took k \<Rightarrow> c' = c \<and> 0 < k \<and> k \<le> length rest \<and> client_fd c w' = client_fd c w \<and>
        taken (client_fd c w) w' = taken (client_fd c w) w @ take k rest
    | Broken \<Rightarrow> \<not> cl_connected c' \<and> taken (client_fd c w) w' = taken (client_fd c w) w
    | Busy \<Rightarrow> c' = c \<and> client_fd c w' = client_fd c w \<and> taken (client_fd c w) w' = taken (client_fd c w) w"
  using assms(2) send_take [OF assms(1), of "nt_calls w" "client_fd c w" rest]
    taken_stop [of os c "snd (sys os (Req_send (client_fd c w) rest) w)" c' w' "client_fd c w"]
  by (auto simp: send_once_def Let_def split_beta taken_sys split: if_splits)

text \<open>A connected client on a new world, for the concrete inputs.\<close>

definition demo_world :: world where
  "demo_world = \<lparr>nt_calls = [], nt_errno = EAGAIN, cw_heap = empty_heap, cw_fault = False\<rparr>"

definition demo_client :: "client \<times> world" where
  "demo_client = WiFiClient_fd 5 demo_world"

lemma demo_client_up:
  "cl_connected (fst demo_client)" "client_fd (fst demo_client) (snd demo_client) = 5"
  "cl_timeout (fst demo_client) = 3000" "\<not> writeBusy (fst demo_client)" "taken fd (snd demo_client) = []"
  by (simp_all add: demo_client_def WiFiClient_fd_def adopt_fd_def asp_make_def WiFiClient_def demo_world_def
      empty_heap_def client_fd_def asp_get_def WiFiClientSocketHandle_def writeBusy_def tx_isBusy_def
      tx_reset_def WIFI_CLIENT_DEF_CONN_TIMEOUT_MS_def taken_def)

section \<open>The blocking write sends a prefix\<close>

text \<open>A part of a write that started in \<open>w\<close>: \<open>k\<close> bytes of \<open>rest\<close> were taken; while the client is up it
  is unchanged.\<close>

definition sends :: "nat \<Rightarrow> u8 list \<Rightarrow> client \<Rightarrow> world \<Rightarrow> client \<Rightarrow> world \<Rightarrow> bool" where
  "sends k rest c w c' w' \<longleftrightarrow>
     k \<le> length rest \<and> taken (client_fd c w) w' = taken (client_fd c w) w @ take k rest \<and>
     (cl_connected c' \<longrightarrow> c' = c \<and> client_fd c w' = client_fd c w)"

lemma sends_refl: "sends 0 rest c w c w"
  by (simp add: sends_def)

lemma sends_trans:
  assumes "sends k rest c w c w1" "client_fd c w1 = client_fd c w" "sends j (drop k rest) c w1 c' w'"
  shows "sends (k + j) rest c w c' w'"
  using assms by (auto simp: sends_def take_add)

lemma sends_quiet:
  assumes "sends k rest c w1 c' w'" "client_fd c w1 = client_fd c w" "taken (client_fd c w) w1 = taken (client_fd c w) w"
  shows "sends k rest c w c' w'"
  using assms by (auto simp: sends_def)

lemma send_once_sends:
  assumes "good_transfer os" "send_once os rest c w = (att, c', w')"
  shows "case att of
      Took k \<Rightarrow> c' = c \<and> 0 < k \<and> client_fd c w' = client_fd c w \<and> sends k rest c w c w'
    | Broken \<Rightarrow> \<not> cl_connected c' \<and> sends 0 rest c w c' w'
    | Busy \<Rightarrow> c' = c \<and> client_fd c w' = client_fd c w \<and> taken (client_fd c w) w' = taken (client_fd c w) w"
  using send_once_spec [OF assms] by (cases att) (simp_all add: sends_def)

lemma write_wait_sends:
  assumes "good_transfer os" "cl_connected c"
  shows "write_wait os n start spin rest c w = Some (r, c', w') \<Longrightarrow>
    case r of
      None \<Rightarrow> sends 0 rest c w c' w'
    | Some k \<Rightarrow> c' = c \<and> 0 < k \<and> client_fd c w' = client_fd c w \<and> sends k rest c w c w'"
proof (induction n arbitrary: w)
  case (Suc n)
  let ?v = "turn_world os start spin c w"
  have v: "client_fd c ?v = client_fd c w" "taken (client_fd c w) ?v = taken (client_fd c w) w"
    by (simp_all add: turn_world_def turn_req_def taken_sys)
  obtain att c4 w4 where a: "send_once os rest c ?v = (att, c4, w4)" by (cases "send_once os rest c ?v")
  note once = send_once_sends [OF assms(1) a]
  have lift: ?case if "write_wait os n start spin rest c x = Some (r, c', w')" "client_fd c x = client_fd c w"
    "taken (client_fd c w) x = taken (client_fd c w) w" for x
    using Suc.IH [OF that(1)] that(2) sends_quiet [OF _ that(2,3)] by (cases r) auto
  from Suc.prems a show ?case
  proof (cases rule: write_wait_cases)
    case 1
    then show ?thesis by (simp add: sends_def)
  next
    case 2
    from lift [OF this v] show ?thesis .
  next
    case (3 k)
    with once v show ?thesis by (auto intro: sends_quiet)
  next
    case 4
    with once v show ?thesis by (auto intro: sends_quiet)
  next
    case 5
    with once v have q: "c4 = c" "client_fd c w4 = client_fd c w"
      "taken (client_fd c w) w4 = taken (client_fd c w) w" by auto
    from lift [OF _ q(2,3)] 5(2) q(1) show ?thesis by simp
  qed
qed simp

lemma write_loop_sends:
  assumes "good_transfer os" "cl_connected c"
  shows "write_loop os n rest sent c w = Some (r, c', w') \<Longrightarrow> \<exists>k. r = sent + k \<and> sends k rest c w c' w'"
proof (induction n arbitrary: rest sent w)
  case (Suc n)
  let ?a = "os (nt_calls w) (Req_send (client_fd c w) rest)"
  let ?w1 = "snd (sys os (Req_send (client_fd c w) rest) w)"
  let ?w2 = "snd (millis os ?w1)"
  let ?w3 = "snd (micros os ?w2)"
  have w3: "client_fd c ?w3 = client_fd c w" by simp
  have cont: ?case if "0 < k" "sends k rest c w c v" "client_fd c v = client_fd c w"
    "write_loop os n (drop k rest) (sent + k) c v = Some (r, c', w')" for k v
    using Suc.IH [OF that(4)] sends_trans [OF that(2,3)] by fastforce
  consider "rest = []" | "rest \<noteq> []" "0 < an_ret ?a" | "rest \<noteq> []" "\<not> 0 < an_ret ?a" "an_ret ?a = 0 \<or> \<not> retryable (nt_errno ?w1)"
    | "rest \<noteq> []" "\<not> 0 < an_ret ?a" "\<not> (an_ret ?a = 0 \<or> \<not> retryable (nt_errno ?w1))" by blast
  then show ?case
  proof cases
    case 1
    with Suc.prems show ?thesis by (auto intro: sends_refl)
  next
    case 2
    let ?k = "nat (an_ret ?a)"
    have "sends ?k rest c w c ?w1"
      using send_take [OF assms(1), of "nt_calls w" "client_fd c w" rest] by (simp add: sends_def taken_sys)
    moreover have "write_loop os n (drop ?k rest) (sent + ?k) c ?w1 = Some (r, c', w')"
      using 2 Suc.prems by (simp add: Let_def split_beta)
    ultimately show ?thesis using 2 by (intro cont [of ?k ?w1]) simp_all
  next
    case 3
    with Suc.prems have "client_stop os c ?w1 = (c', w')" "r = sent" by (auto simp: Let_def split_beta)
    with taken_stop [OF this(1), of "client_fd c w"] 3 show ?thesis
      by (intro exI [of _ 0]) (auto simp: sends_def taken_sys)
  next
    case 4
    have q: "taken (client_fd c w) ?w3 = taken (client_fd c w) w" using 4 by (simp add: taken_sys)
    from 4 Suc.prems obtain k c1 w4 where k:
      "write_wait os n (fst (millis os ?w1)) (fst (micros os ?w2)) rest c ?w3 = Some (k, c1, w4)"
      "case k of None \<Rightarrow> r = sent \<and> c' = c1 \<and> w' = w4
        | Some k \<Rightarrow> write_loop os n (drop k rest) (sent + k) c1 w4 = Some (r, c', w')"
      by (auto simp: Let_def split_beta split: option.splits)
    show ?thesis
    proof (cases k)
      case None
      with write_wait_sends [OF assms k(1)] k(2) q show ?thesis
        by (intro exI [of _ 0]) (auto intro: sends_quiet)
    next
      case (Some j)
      with write_wait_sends [OF assms k(1)] have j: "c1 = c" "0 < j" "client_fd c w4 = client_fd c w" "sends j rest c ?w3 c w4"
        by simp_all
      from sends_quiet [OF j(4) w3 q] j k(2) Some show ?thesis by (intro cont [of j w4]) simp_all
    qed
  qed
qed simp

section \<open>The blocking write returns\<close>

text \<open>The clock passes \<open>t\<close> ms within \<open>B\<close> calls of the stack (and has not wrapped around in the few
  calls after that).\<close>

definition clock_passes :: "lwip \<Rightarrow> u32 \<Rightarrow> nat \<Rightarrow> bool" where
  "clock_passes os t B \<longleftrightarrow>
     (\<forall>calls more. B \<le> length more \<and> length more \<le> B + 8 \<longrightarrow>
        t \<le> an_time (os (calls @ more) Req_millis) - an_time (os calls Req_millis))"

lemma demo_clock: "clock_passes demo_os t (unat t)" if "unat t + 8 < 2 ^ 32"
proof -
  have "t \<le> word_of_nat k" if "unat t \<le> k" "k \<le> unat t + 8" for k
    using that \<open>unat t + 8 < 2 ^ 32\<close> by (simp add: word_le_nat_alt unat_of_nat)
  then show ?thesis by (simp add: clock_passes_def answer_def)
qed

lemma calls_turn:
  "nt_calls (turn_world os start spin c w) =
     nt_calls w @ [(Req_millis, os (nt_calls w) Req_millis),
       (Req_micros, os (nt_calls (snd (millis os w))) Req_micros),
       (turn_req os start spin c w, os (nt_calls (snd (micros os (snd (millis os w))))) (turn_req os start spin c w))]"
  by (simp add: turn_world_def millis_def micros_def Let_def split_beta)

lemma calls_busy:
  "send_once os rest c w = (Busy, c', w') \<Longrightarrow> c' = c \<and> (\<exists>e. nt_calls w' = nt_calls w @ [e])"
  by (auto simp: send_once_def Let_def split_beta split: if_splits)

lemma clock_late:
  assumes "clock_passes os (cl_timeout c) B" "start = an_time (os calls Req_millis)" "nt_calls w = calls @ xs"
  shows "B \<le> length xs \<and> length xs \<le> B + 8 \<longrightarrow> turn_late os start c w"
  using assms by (simp add: clock_passes_def turn_late_def millis_def split_beta)

lemma write_wait_returns:
  assumes "clock_passes os (cl_timeout c) B" "start = an_time (os calls Req_millis)"
  shows "nt_calls w = calls @ xs \<Longrightarrow> length xs \<le> B + 5 \<Longrightarrow> B < length xs + n \<Longrightarrow> 0 < n \<Longrightarrow>
    write_wait os n start spin rest c w \<noteq> None"
proof (induction n arbitrary: w xs)
  case (Suc n)
  let ?v = "turn_world os start spin c w"
  obtain att c4 w4 where a: "send_once os rest c ?v = (att, c4, w4)" by (cases "send_once os rest c ?v")
  obtain m3 where m3: "nt_calls ?v = calls @ xs @ m3" "length m3 = 3"
    using calls_turn [of os start spin c w] Suc.prems(1) by simp
  have one: "write_wait os n start spin rest c ?v \<noteq> None" if "\<not> turn_late os start c w"
  proof -
    have "length xs < B"
      using that clock_late [OF assms Suc.prems(1)] Suc.prems(2) by linarith
    with Suc.IH [of ?v "xs @ m3"] m3 Suc.prems show ?thesis by simp
  qed
  have two: "write_wait os n start spin rest c4 w4 \<noteq> None" if "\<not> turn_late os start c w" "att = Busy"
  proof -
    have "length xs < B"
      using that clock_late [OF assms Suc.prems(1)] Suc.prems(2) by linarith
    moreover from calls_busy [of os rest c ?v c4 w4] a that obtain e where "c4 = c" "nt_calls w4 = calls @ xs @ m3 @ [e]"
      using m3(1) by auto
    ultimately show ?thesis using Suc.IH [of w4 "xs @ m3 @ [e]"] m3(2) Suc.prems by simp
  qed
  show ?case
  proof
    assume "write_wait os (Suc n) start spin rest c w = None"
    from write_wait_None [OF this a] one two show False by blast
  qed
qed simp

lemma write_loop_returns:
  assumes "good_transfer os" "clock_passes os (cl_timeout c) B"
  shows "length rest + B + 2 \<le> n \<Longrightarrow> cl_connected c \<Longrightarrow> write_loop os n rest sent c w \<noteq> None"
proof (induction n arbitrary: rest sent w)
  case (Suc n)
  let ?a = "os (nt_calls w) (Req_send (client_fd c w) rest)"
  let ?w1 = "snd (sys os (Req_send (client_fd c w) rest) w)"
  let ?w2 = "snd (millis os ?w1)"
  let ?w3 = "snd (micros os ?w2)"
  have cont: "write_loop os n (drop k rest) s c v \<noteq> None" if "0 < k" "rest \<noteq> []" for k s v
    using Suc.prems that by (intro Suc.IH) (cases rest; simp)+
  consider "rest = []" | "rest \<noteq> []" "0 < an_ret ?a" | "rest \<noteq> []" "\<not> 0 < an_ret ?a" "an_ret ?a = 0 \<or> \<not> retryable (nt_errno ?w1)"
    | "rest \<noteq> []" "\<not> 0 < an_ret ?a" "\<not> (an_ret ?a = 0 \<or> \<not> retryable (nt_errno ?w1))" by blast
  then show ?case
  proof cases
    case 2
    with cont [of "nat (an_ret ?a)"] show ?thesis by (simp add: Let_def split_beta)
  next
    case 3
    then show ?thesis by (auto simp: Let_def split_beta)
  next
    case 4
    let ?start = "fst (millis os ?w1)" let ?spin = "fst (micros os ?w2)"
    have calls: "nt_calls ?w3 = nt_calls ?w1 @ [(Req_millis, os (nt_calls ?w1) Req_millis), (Req_micros, os (nt_calls ?w2) Req_micros)]"
      by (simp add: millis_def micros_def Let_def split_beta)
    have start: "?start = an_time (os (nt_calls ?w1) Req_millis)" by (simp add: millis_def split_beta)
    have "write_wait os n ?start ?spin rest c ?w3 \<noteq> None"
      by (rule write_wait_returns [OF assms(2) start calls]) (use Suc.prems(1) in simp_all)
    then obtain k c1 w4 where k: "write_wait os n ?start ?spin rest c ?w3 = Some (k, c1, w4)" by auto
    have "write_loop os (Suc n) rest sent c w =
        (case k of None \<Rightarrow> Some (sent, c1, w4) | Some k \<Rightarrow> write_loop os n (drop k rest) (sent + k) c1 w4)"
      using 4 k by (simp add: Let_def split_beta split: option.split)
    moreover have "write_loop os n (drop j rest) (sent + j) c1 w4 \<noteq> None" if "k = Some j" for j
      using write_wait_sends [OF assms(1) Suc.prems(2) k] that cont [of j] 4(1) by simp
    ultimately show ?thesis by (cases k) auto
  qed simp
qed simp

text \<open>C11: When the clock passes the client's time limit within \<open>B\<close> calls of the stack, \<open>write\<close> of a
  connected client returns (a bound of the data's length and \<open>B + 2\<close> on its loops is never reached), and
  the number \<open>k\<close> it returns is the number of bytes the socket took: they are the first \<open>k\<close> bytes of the
  data, once and in order. A client that is still up afterwards is unchanged.\<close>

theorem client_write_sends_prefix:
  assumes "good_transfer os" "clock_passes os (cl_timeout c) B" "length bytes + B + 2 \<le> n"
    and "cl_connected c" "0 \<le> client_fd c w"
  shows "\<exists>k c' w'. client_write os n (Some bytes) c w = Some (k, c', w') \<and> k \<le> length bytes \<and>
    taken (client_fd c w) w' = taken (client_fd c w) w @ take k bytes \<and> (cl_connected c' \<longrightarrow> c' = c)"
proof (cases "bytes = []")
  case True
  then show ?thesis by (intro exI [of _ 0] exI [of _ c] exI [of _ w]) (simp add: client_write_def)
next
  case False
  from write_loop_returns [OF assms(1-4), of 0 w] obtain k c' w' where r: "write_loop os n bytes 0 c w = Some (k, c', w')"
    by auto
  from write_loop_sends [OF assms(1,4) r] r False assms(4,5) show ?thesis
    by (intro exI [of _ k] exI [of _ c'] exI [of _ w']) (auto simp: client_write_def sends_def)
qed

lemma client_write_sends_prefix_witness:
  "\<exists>k c' w'. client_write demo_os 3005 (Some [7, 8, 9]) (fst demo_client) (snd demo_client) = Some (k, c', w') \<and>
     k \<le> length [7, 8, 9 :: u8] \<and> taken 5 w' = [] @ take k [7, 8, 9] \<and> (cl_connected c' \<longrightarrow> c' = fst demo_client)"
proof -
  have clock: "clock_passes demo_os (cl_timeout (fst demo_client)) 3000"
    using demo_clock [of 3000] by (simp add: demo_client_up)
  show ?thesis
    using client_write_sends_prefix [OF demo_transfer clock, of "[7, 8, 9]" 3005 "snd demo_client"]
    by (simp add: demo_client_up)
qed

section \<open>The polled write\<close>

text \<open>The bytes queued by an asynchronous write are those taken so far and those of the view.\<close>

lemma writeAsync_queues:
  assumes "good_transfer os" "writeAsync os (Some bytes) c w = (k, c', w')"
    and "cl_connected c" "0 \<le> client_fd c w" "\<not> writeBusy c" "cl_connected c'"
  shows "taken (client_fd c w) w' @ cl_txView c' = taken (client_fd c w) w @ bytes \<and>
    k + length (cl_txView c') = length bytes \<and> client_fd c' w' = client_fd c w"
proof (cases "bytes = []")
  case True
  with assms(2,5) show ?thesis by (auto simp: writeAsync_def writeBusy_def tx_isBusy_def)
next
  case False
  let ?w = "snd (sys os (Req_send (client_fd c w) bytes) w)"
  have gone: "client_stop os x y = (d, v) \<Longrightarrow> \<not> cl_connected d" for x y d v
    by (auto simp: client_stop_def)
  have len: "nat (an_ret (os (nt_calls w) (Req_send (client_fd c w) bytes))) \<le> length bytes"
    by (rule send_take [OF assms(1)])
  show ?thesis
  proof (cases "0 \<le> an_ret (os (nt_calls w) (Req_send (client_fd c w) bytes)) \<and>
      an_ret (os (nt_calls w) (Req_send (client_fd c w) bytes)) = int (length bytes)")
    case True
    with assms(2-5) False show ?thesis
      by (auto simp: writeAsync_def writeBusy_def tx_isBusy_def Let_def split_beta taken_sys)
  next
    case part: False
    let ?r = "an_ret (os (nt_calls w) (Req_send (client_fd c w) bytes))"
    let ?sent = "if 0 < ?r then nat ?r else 0"
    have up: "\<not> (?r < 0 \<and> \<not> retryable (nt_errno ?w))"
    proof
      assume "?r < 0 \<and> \<not> retryable (nt_errno ?w)"
      with assms(2-5) False part have "client_stop os (c\<lparr>cl_txView := tx_reset\<rparr>) ?w = (c', w')"
        by (auto simp: writeAsync_def Let_def split_beta)
      then have "\<not> cl_connected c'" by (rule gone)
      with assms(6) show False by simp
    qed
    with assms(2-5) False part have "k = ?sent" "c' = c\<lparr>cl_txView := drop ?sent bytes\<rparr>" "w' = ?w"
      by (auto simp: writeAsync_def Let_def split_beta)
    then show ?thesis using len by (auto simp: taken_sys)
  qed
qed

lemma poll_attempt:
  assumes "good_transfer os" "send_once os (cl_txView c) c w = (att, c1, w1)" "cl_connected c'"
    and "case att of Took k \<Rightarrow> advance_view k c1 = (r, c') | Broken \<Rightarrow> c' = c1 | Busy \<Rightarrow> c' = c1"
  shows "taken (client_fd c w) w1 @ cl_txView c' = taken (client_fd c w) w @ cl_txView c \<and>
    client_fd c' w1 = client_fd c w \<and> att \<noteq> Broken \<and> (\<forall>k. att = Took k \<longrightarrow> (r = 1) = (cl_txView c' = []))"
proof (cases att)
  case (Took k)
  with send_once_spec [OF assms(1,2)] assms(4) show ?thesis
    by (auto simp: advance_view_def tx_advance_def tx_reset_def tx_isBusy_def Let_def split: if_splits)
next
  case Broken
  with send_once_spec [OF assms(1,2)] assms(3,4) show ?thesis by simp
next
  case Busy
  with send_once_spec [OF assms(1,2)] assms(4) show ?thesis by simp
qed

lemma poll_spin_queue:
  assumes "good_transfer os"
  shows "poll_spin os n spin c w = Some (r, c', w') \<Longrightarrow> cl_connected c' \<Longrightarrow> tx_isBusy (cl_txView c) \<Longrightarrow>
    taken (client_fd c w) w' @ cl_txView c' = taken (client_fd c w) w @ cl_txView c \<and>
    client_fd c' w' = client_fd c w \<and> (r = 1) = (cl_txView c' = [])"
proof (induction n arbitrary: w)
  case (Suc n)
  let ?v = "snd (sys os Req_yield (snd (micros os w)))"
  have v: "client_fd c ?v = client_fd c w" "taken (client_fd c w) ?v = taken (client_fd c w) w"
    by (simp_all add: taken_sys)
  obtain att c3 w3 where a: "send_once os (cl_txView c) c ?v = (att, c3, w3)"
    by (cases "send_once os (cl_txView c) c ?v")
  consider "r = 0" "c' = c" "w' = snd (micros os w)"
    | k where "att = Took k" "advance_view k c3 = (r, c')" "w' = w3" | "att = Broken" "c' = c3"
    | "att = Busy" "poll_spin os n spin c3 w3 = Some (r, c', w')"
    using Suc.prems(1) a by (auto simp: Let_def split_beta split: if_splits attempt.splits prod.splits)
  then show ?case
  proof cases
    case 1
    with Suc.prems(3) show ?thesis by (simp add: tx_isBusy_def)
  next
    case 2
    with poll_attempt [OF assms a Suc.prems(2), of r] v show ?thesis by simp
  next
    case 3
    with send_once_spec [OF assms a] Suc.prems(2) show ?thesis by simp
  next
    case 4
    with send_once_spec [OF assms a] v have "c3 = c" "client_fd c w3 = client_fd c w"
      "taken (client_fd c w) w3 = taken (client_fd c w) w" by simp_all
    with Suc.IH [of w3] 4(2) Suc.prems(2,3) show ?thesis by simp
  qed
qed simp

lemma pollWrite_queue:
  assumes "good_transfer os" "pollWrite os n c w = Some (r, c', w')" "cl_connected c'"
  shows "taken (client_fd c w) w' @ cl_txView c' = taken (client_fd c w) w @ cl_txView c \<and>
    client_fd c' w' = client_fd c w \<and> (0 \<le> client_fd c w \<longrightarrow> (r = 1) = (cl_txView c' = []))"
proof -
  obtain att c3 w3 where a: "send_once os (cl_txView c) c w = (att, c3, w3)"
    by (cases "send_once os (cl_txView c) c w")
  note once = send_once_spec [OF assms(1) a]
  show ?thesis
  proof (cases "\<not> cl_connected c \<or> client_fd c w < 0 \<or> \<not> tx_isBusy (cl_txView c)")
    case True
    with assms(2,3) show ?thesis by (auto simp: pollWrite_def tx_isBusy_def split: if_splits)
  next
    case False
    then have eq: "pollWrite os n c w = (case att of
        Took k \<Rightarrow> (let (r, c) = advance_view k c3 in Some (r, c, w3))
      | Broken \<Rightarrow> Some (- 1, c3, w3)
      | Busy \<Rightarrow> poll_spin os n (fst (micros os w3)) c3 (snd (micros os w3)))"
      by (cases att) (simp_all add: pollWrite_def a Let_def split_beta)
    show ?thesis
    proof (cases att)
      case (Took k)
      with eq assms(2) have "advance_view k c3 = (r, c')" "w' = w3" by (auto simp: split_beta Let_def prod_eq_iff)
      with poll_attempt [OF assms(1) a assms(3), of r] Took show ?thesis by simp
    next
      case Broken
      with eq assms(2,3) once show ?thesis by simp
    next
      case Busy
      with once have q: "c3 = c" "client_fd c w3 = client_fd c w" "taken (client_fd c w) w3 = taken (client_fd c w) w"
        by simp_all
      from eq assms(2) Busy have "poll_spin os n (fst (micros os w3)) c (snd (micros os w3)) = Some (r, c', w')"
        by (simp add: q(1))
      from poll_spin_queue [OF assms(1) this assms(3)] False q show ?thesis by simp
    qed
  qed
qed

text \<open>Any number of polls; \<open>None\<close> is a poll that has not ended within its bound.\<close>

fun poll_all :: "lwip \<Rightarrow> nat list \<Rightarrow> client \<Rightarrow> world \<Rightarrow> (client \<times> world) option" where
  "poll_all os [] c w = Some (c, w)"
| "poll_all os (n # ns) c w = (case pollWrite os n c w of None \<Rightarrow> None | Some (r, c, w) \<Rightarrow> poll_all os ns c w)"

lemma poll_stays_down:
  "pollWrite os n c w = Some (r, c', w') \<Longrightarrow> \<not> cl_connected c \<Longrightarrow> c' = c"
  by (auto simp: pollWrite_def)

lemma poll_all_down: "poll_all os ns c w = Some (c', w') \<Longrightarrow> \<not> cl_connected c \<Longrightarrow> \<not> cl_connected c'"
proof (induction ns arbitrary: c w)
  case (Cons n ns)
  then obtain r c1 w1 where "pollWrite os n c w = Some (r, c1, w1)" "poll_all os ns c1 w1 = Some (c', w')"
    by (auto split: option.splits)
  with Cons poll_stays_down show ?case by blast
qed simp

lemma poll_all_queue:
  assumes "good_transfer os"
  shows "poll_all os ns c w = Some (c', w') \<Longrightarrow> cl_connected c' \<Longrightarrow>
    taken (client_fd c w) w' @ cl_txView c' = taken (client_fd c w) w @ cl_txView c"
proof (induction ns arbitrary: c w)
  case (Cons n ns)
  from Cons.prems(1) obtain r c1 w1 where p: "pollWrite os n c w = Some (r, c1, w1)" "poll_all os ns c1 w1 = Some (c', w')"
    by (auto split: option.splits)
  have "cl_connected c1" using poll_all_down [OF p(2)] Cons.prems(2) by blast
  from pollWrite_queue [OF assms p(1) this] have q:
    "taken (client_fd c w) w1 @ cl_txView c1 = taken (client_fd c w) w @ cl_txView c" "client_fd c1 w1 = client_fd c w"
    by simp_all
  from Cons.IH [OF p(2) Cons.prems(2)] show ?case unfolding q(2) by (rule trans) (rule q(1))
qed simp

text \<open>The asynchronous write sends the caller's bytes once and in order: after \<open>writeAsync\<close> and any
  number of \<open>pollWrite\<close> calls, while the client is up, the bytes the socket took since then, followed by
  those of the pending view, are exactly the bytes given to \<open>writeAsync\<close>; in particular everything is sent
  when the view is empty.\<close>

theorem async_write_stream:
  assumes "good_transfer os" "cl_connected c" "0 \<le> client_fd c w" "\<not> writeBusy c"
    and "writeAsync os (Some bytes) c w = (k, c1, w1)" "poll_all os ns c1 w1 = Some (c', w')" "cl_connected c'"
  shows "taken (client_fd c w) w' @ cl_txView c' = taken (client_fd c w) w @ bytes"
proof -
  have up: "cl_connected c1" using poll_all_down [OF assms(6)] assms(7) by blast
  from writeAsync_queues [OF assms(1,5,2-4) up] poll_all_queue [OF assms(1,6,7)] show ?thesis by simp
qed

lemma async_write_stream_witness:
  "\<exists>k c1 w1 c' w'. writeAsync demo_os (Some [7, 8, 9]) (fst demo_client) (snd demo_client) = (k, c1, w1) \<and>
     poll_all demo_os [1] c1 w1 = Some (c', w') \<and> taken 5 w' @ cl_txView c' = [] @ [7, 8, 9]"
proof -
  obtain k c1 w1 where a: "writeAsync demo_os (Some [7, 8, 9]) (fst demo_client) (snd demo_client) = (k, c1, w1)"
    by (cases "writeAsync demo_os (Some [7, 8, 9]) (fst demo_client) (snd demo_client)")
  then have c1: "c1 = (fst demo_client)\<lparr>cl_txView := [9]\<rparr>" "client_fd (fst demo_client) w1 = 5"
    using demo_client_up by (auto simp: writeAsync_def Let_def split_beta answer_def)
  then obtain c' w' where p: "poll_all demo_os [1] c1 w1 = Some (c', w')" "cl_connected c'"
    using demo_client_up
    by (auto simp: pollWrite_def tx_isBusy_def send_once_def advance_view_def Let_def split_beta answer_def)
  have "taken (client_fd (fst demo_client) (snd demo_client)) w' @ cl_txView c' =
      taken (client_fd (fst demo_client) (snd demo_client)) (snd demo_client) @ [7, 8, 9]"
    by (rule async_write_stream [OF demo_transfer _ _ _ a p]) (simp_all add: demo_client_up)
  with a p(1) show ?thesis unfolding demo_client_up by blast
qed

text \<open>A copy of a client with a pending view has the same view on the same socket: when both are
  polled, the pending bytes are sent twice.\<close>

lemma copied_view_sent_twice:
  "\<exists>k c1 w1 d w2 c3 w3 d4 w4. writeAsync demo_os (Some [7, 8, 9]) (fst demo_client) (snd demo_client) = (k, c1, w1) \<and>
     client_copy c1 w1 = (d, w2) \<and> pollWrite demo_os 1 c1 w2 = Some (1, c3, w3) \<and>
     pollWrite demo_os 1 d w3 = Some (1, d4, w4) \<and> taken 5 w4 = [7, 8, 9, 9]"
  by (simp add: writeAsync_def demo_client_def WiFiClient_fd_def adopt_fd_def asp_make_def WiFiClient_def
      demo_world_def empty_heap_def client_fd_def asp_get_def WiFiClientSocketHandle_def writeBusy_def
      tx_isBusy_def tx_reset_def client_copy_def share_handle_def asp_incr_def pollWrite_def send_once_def
      advance_view_def tx_advance_def taken_def sys_def answer_def Let_def)

end
