(* ===== verification/WiFi_Server.thy ===== *)
theory WiFi_Server
  imports WiFi_Client
begin

text \<open>
  \<open>WiFiServer\<close> (\<open>WiFiServer.h\<close>, \<open>WiFiServer.cpp\<close>): a listening socket and at most one accepted connection
  that waits to be fetched. \<open>available\<close> hands an accepted connection over to a new client object.
\<close>

record server =
  sv_sockfd :: int
  sv_accepted_sockfd :: int
  sv_addr :: u32
  sv_port :: u16
  sv_max_clients :: u8
  sv_listening :: bool
  sv_noDelay :: bool

definition WiFiServer :: "u32 \<Rightarrow> u16 \<Rightarrow> u8 \<Rightarrow> server" where
  "WiFiServer addr port max_clients =
     \<lparr>sv_sockfd = - 1, sv_accepted_sockfd = - 1, sv_addr = addr, sv_port = port,
      sv_max_clients = max_clients, sv_listening = False, sv_noDelay = False\<rparr>"

definition SERVER_BUF :: int where "SERVER_BUF = 22 * 1024"

definition server_setTimeout :: "lwip \<Rightarrow> u32 \<Rightarrow> server \<Rightarrow> 'a net_scheme \<Rightarrow> int \<times> 'a net_scheme" where
  "server_setTimeout os seconds sv w =
     (let (a, w) = sys os (Req_setsockopt (sv_sockfd sv) SO_RCVTIMEO [uint seconds, 0]) w in
      if an_ret a < 0 then (- 1, w)
      else let (a, w) = sys os (Req_setsockopt (sv_sockfd sv) SO_SNDTIMEO [uint seconds, 0]) w in (an_ret a, w))"

text \<open>The options of an accepted connection; Nagle's algorithm is off unless \<open>_noDelay\<close> is set.\<close>

definition tune_accepted :: "lwip \<Rightarrow> int \<Rightarrow> bool \<Rightarrow> 'a net_scheme \<Rightarrow> 'a net_scheme" where
  "tune_accepted os fd nodelay w =
     (let w = snd (sys os (Req_setsockopt fd TCP_NODELAY [if nodelay then 0 else 1]) w);
          w = snd (sys os (Req_setsockopt fd SO_SNDBUF [SERVER_BUF]) w)
      in snd (sys os (Req_setsockopt fd SO_RCVBUF [SERVER_BUF]) w))"

definition server_available :: "lwip \<Rightarrow> server \<Rightarrow> world \<Rightarrow> client \<times> server \<times> world" where
  "server_available os sv w =
     (if \<not> sv_listening sv then (WiFiClient, sv, w)
      else
        let (fd, sv, w) =
              (if 0 \<le> sv_accepted_sockfd sv then (sv_accepted_sockfd sv, sv\<lparr>sv_accepted_sockfd := - 1\<rparr>, w)
               else let (a, w) = sys os (Req_accept (sv_sockfd sv)) w in (an_ret a, sv, w))
        in if 0 \<le> fd
           then let (c, w) = WiFiClient_fd fd (tune_accepted os fd (sv_noDelay sv) w) in (c, sv, w)
           else (WiFiClient, sv, w))"

definition server_begin :: "lwip \<Rightarrow> u16 \<Rightarrow> int \<Rightarrow> server \<Rightarrow> 'a net_scheme \<Rightarrow> server \<times> 'a net_scheme" where
  "server_begin os port enable sv w =
     (if sv_listening sv then (sv, w)
      else
        let sv = (if port \<noteq> 0 then sv\<lparr>sv_port := port\<rparr> else sv);
            (a, w) = sys os Req_socket w;
            fd = an_ret a;
            sv = sv\<lparr>sv_sockfd := fd\<rparr>
        in if fd < 0 then (sv, w)
        else
          let w = snd (sys os (Req_setsockopt fd SO_REUSEADDR [enable]) w);
              w = snd (sys os (Req_setsockopt fd SO_SNDBUF [SERVER_BUF]) w);
              w = snd (sys os (Req_setsockopt fd SO_RCVBUF [SERVER_BUF]) w);
              (a, w) = sys os (Req_bind fd (sv_addr sv) (sv_port sv)) w
          in if an_ret a < 0 then (sv, w)
          else
            let (a, w) = sys os (Req_listen fd (unat (sv_max_clients sv))) w in
            if an_ret a < 0 then (sv, w)
            else
              let w = snd (sys os (Req_nonblock fd True) w)
              in (sv\<lparr>sv_listening := True, sv_noDelay := False, sv_accepted_sockfd := - 1\<rparr>, w))"

definition server_setNoDelay :: "bool \<Rightarrow> server \<Rightarrow> server" where
  "server_setNoDelay nodelay sv = sv\<lparr>sv_noDelay := nodelay\<rparr>"

definition server_getNoDelay :: "server \<Rightarrow> bool" where
  "server_getNoDelay sv = sv_noDelay sv"

definition hasClient :: "lwip \<Rightarrow> server \<Rightarrow> 'a net_scheme \<Rightarrow> bool \<times> server \<times> 'a net_scheme" where
  "hasClient os sv w =
     (if 0 \<le> sv_accepted_sockfd sv then (True, sv, w)
      else
        let (a, w) = sys os (Req_accept (sv_sockfd sv)) w
        in (0 \<le> an_ret a, sv\<lparr>sv_accepted_sockfd := an_ret a\<rparr>, w))"

definition server_end :: "lwip \<Rightarrow> server \<Rightarrow> 'a net_scheme \<Rightarrow> server \<times> 'a net_scheme" where
  "server_end os sv w =
     (sv\<lparr>sv_sockfd := - 1, sv_listening := False\<rparr>,
      if 0 \<le> sv_sockfd sv then os_close os (sv_sockfd sv) w else w)"

definition server_write :: "u8 list \<Rightarrow> nat" where "server_write data = 0"

end
