(* ===== verification/WiFi_Sockets.thy ===== *)
theory WiFi_Sockets
  imports WiFi_Client_Ops2 WiFi_Server
begin

text \<open>
  Programs over any number of client objects and a server, and the theorems about the descriptors of
  such programs.
\<close>

section \<open>Programs\<close>

datatype client_act =
    ARead bool nat
  | AReadByte
  | APeek
  | AAvailable
  | AFlush nat
  | AConnected
  | AStop
  | AConnect u32 u16 u32
  | AConnectAsync u32 u16
  | APollConnect
  | AWrite nat "u8 list option"
  | AWriteAsync "u8 list option"
  | APollWrite nat
  | AEndpoints
  | ASetTimeout u32
  | ASetOption sock_opt "int list"
  | AGetOption sock_opt
  | AKeepAlive bool int int int
  | AHostByName "char list"

text \<open>\<open>None\<close> is a loop that has not ended within its bound.\<close>

fun do_act :: "lwip \<Rightarrow> (char list \<Rightarrow> u32 option) \<Rightarrow> client_act \<Rightarrow> client \<Rightarrow> world \<Rightarrow> (client \<times> world) option" where
  "do_act os parse (ARead null len) c w = Some (snd (snd (client_read os null len c w)))"
| "do_act os parse AReadByte c w = Some (snd (client_read_byte os c w))"
| "do_act os parse APeek c w = Some (snd (client_peek os c w))"
| "do_act os parse AAvailable c w = Some (snd (client_available os c w))"
| "do_act os parse (AFlush n) c w = map_option (Pair c) (client_flush os n c w)"
| "do_act os parse AConnected c w = Some (snd (client_connected os c w))"
| "do_act os parse AStop c w = Some (client_stop os c w)"
| "do_act os parse (AConnect ip port t) c w = Some (snd (client_connect_to os ip port t c w))"
| "do_act os parse (AConnectAsync ip port) c w = Some (snd (connectAsync os ip port c w))"
| "do_act os parse APollConnect c w = Some (snd (pollConnect os c w))"
| "do_act os parse (AWrite n buf) c w = map_option snd (client_write os n buf c w)"
| "do_act os parse (AWriteAsync buf) c w = Some (snd (writeAsync os buf c w))"
| "do_act os parse (APollWrite n) c w = map_option snd (pollWrite os n c w)"
| "do_act os parse AEndpoints c w = Some (cacheEndpoints os c w)"
| "do_act os parse (ASetTimeout s) c w = Some (snd (client_setTimeout os s c w))"
| "do_act os parse (ASetOption opt v) c w = Some (c, snd (setSocketOption os opt v c w))"
| "do_act os parse (AGetOption opt) c w = Some (c, snd (snd (getOption os opt c w)))"
| "do_act os parse (AKeepAlive en a b k) c w = Some (c, snd (setKeepAlive os en a b k c w))"
| "do_act os parse (AHostByName host) c w = Some (c, snd (hostByName parse os host w))"

text \<open>The client objects by name, the server and the world. An operation on an object that does not
  exist, or a constructor of one that does, is not a program and has no effect.\<close>

record sock_state =
  ss_clients :: "nat \<Rightarrow> client option"
  ss_server :: server
  ss_world :: world

datatype sock_op =
    CNew nat
  | CCopy nat nat
  | CMove nat nat
  | CAssign nat nat
  | CMoveAssign nat nat
  | CDelete nat
  | CAct nat client_act
  | SBegin u16 int
  | SAvailable nat
  | SHasClient
  | SEnd
  | SSetTimeout u32
  | SSetNoDelay bool

definition put_client :: "nat \<Rightarrow> client \<Rightarrow> world \<Rightarrow> sock_state \<Rightarrow> sock_state" where
  "put_client i c w s = s\<lparr>ss_clients := (ss_clients s)(i \<mapsto> c), ss_world := w\<rparr>"

fun sock_exec :: "lwip \<Rightarrow> (char list \<Rightarrow> u32 option) \<Rightarrow> sock_op \<Rightarrow> sock_state \<Rightarrow> sock_state option" where
  "sock_exec os parse (CNew i) s =
     Some (if ss_clients s i = None then put_client i WiFiClient (ss_world s) s else s)"
| "sock_exec os parse (CCopy i j) s =
     Some (case (ss_clients s i, ss_clients s j) of
       (None, Some d) \<Rightarrow> let (c, w) = client_copy d (ss_world s) in put_client i c w s
     | _ \<Rightarrow> s)"
| "sock_exec os parse (CMove i j) s =
     Some (case (ss_clients s i, ss_clients s j) of
       (None, Some d) \<Rightarrow> let (c, d) = client_move d in put_client i c (ss_world s) (put_client j d (ss_world s) s)
     | _ \<Rightarrow> s)"
| "sock_exec os parse (CAssign i j) s =
     Some (case (ss_clients s i, ss_clients s j) of
       (Some c, Some d) \<Rightarrow> let (c, w) = client_assign os (i = j) c d (ss_world s) in put_client i c w s
     | _ \<Rightarrow> s)"
| "sock_exec os parse (CMoveAssign i j) s =
     Some (case (ss_clients s i, ss_clients s j) of
       (Some c, Some d) \<Rightarrow>
         if i = j then s
         else let (c, d, w) = client_move_assign os c d (ss_world s) in put_client i c w (put_client j d w s)
     | _ \<Rightarrow> s)"
| "sock_exec os parse (CDelete i) s =
     Some (case ss_clients s i of
       None \<Rightarrow> s
     | Some c \<Rightarrow>
         s\<lparr>ss_clients := (ss_clients s)(i := None), ss_world := snd (client_stop os c (ss_world s))\<rparr>)"
| "sock_exec os parse (CAct i act) s =
     (case ss_clients s i of
       None \<Rightarrow> Some s
     | Some c \<Rightarrow> map_option (\<lambda>(c, w). put_client i c w s) (do_act os parse act c (ss_world s)))"
| "sock_exec os parse (SBegin port enable) s =
     Some (let (sv, w) = server_begin os port enable (ss_server s) (ss_world s)
       in s\<lparr>ss_server := sv, ss_world := w\<rparr>)"
| "sock_exec os parse (SAvailable i) s =
     Some (case ss_clients s i of
       None \<Rightarrow> let (c, sv, w) = server_available os (ss_server s) (ss_world s) in put_client i c w (s\<lparr>ss_server := sv\<rparr>)
     | Some _ \<Rightarrow> s)"
| "sock_exec os parse SHasClient s =
     Some (let (r, sv, w) = hasClient os (ss_server s) (ss_world s) in s\<lparr>ss_server := sv, ss_world := w\<rparr>)"
| "sock_exec os parse SEnd s =
     Some (let (sv, w) = server_end os (ss_server s) (ss_world s) in s\<lparr>ss_server := sv, ss_world := w\<rparr>)"
| "sock_exec os parse (SSetTimeout t) s =
     Some (s\<lparr>ss_world := snd (server_setTimeout os t (ss_server s) (ss_world s))\<rparr>)"
| "sock_exec os parse (SSetNoDelay b) s =
     Some (s\<lparr>ss_server := server_setNoDelay b (ss_server s)\<rparr>)"

fun sock_run :: "lwip \<Rightarrow> (char list \<Rightarrow> u32 option) \<Rightarrow> sock_op list \<Rightarrow> sock_state \<Rightarrow> sock_state option" where
  "sock_run os parse [] s = Some s"
| "sock_run os parse (op # ops) s =
     (case sock_exec os parse op s of None \<Rightarrow> None | Some s \<Rightarrow> sock_run os parse ops s)"

definition sock_start :: "u32 \<Rightarrow> u16 \<Rightarrow> u8 \<Rightarrow> sock_state" where
  "sock_start addr port max_clients =
     \<lparr>ss_clients = (\<lambda>_. None), ss_server = WiFiServer addr port max_clients,
      ss_world = \<lparr>nt_calls = [], nt_errno = EAGAIN, cw_heap = empty_heap, cw_fault = False\<rparr>\<rparr>"

section \<open>The invariant of a program\<close>

definition client_handles :: "sock_state \<Rightarrow> nat \<Rightarrow> asp" where
  "client_handles s i = (case ss_clients s i of None \<Rightarrow> None | Some c \<Rightarrow> cl_handle c)"

definition server_fds :: "server \<Rightarrow> int set" where
  "server_fds sv = {fd. (fd = sv_sockfd sv \<or> fd = sv_accepted_sockfd sv) \<and> 0 \<le> fd}"

text \<open>\<open>G\<close> are the open descriptors that no client holds: those of the server, and those it has lost.\<close>

definition prog_inv :: "int set \<Rightarrow> sock_state \<Rightarrow> bool" where
  "prog_inv G s \<longleftrightarrow>
     sock_inv G (client_handles s) (ss_world s) \<and> server_fds (ss_server s) \<subseteq> G \<and>
     (0 \<le> sv_sockfd (ss_server s) \<longrightarrow> sv_sockfd (ss_server s) \<noteq> sv_accepted_sockfd (ss_server s))"

lemma client_handles_put [simp]:
  "client_handles (put_client i c w s) = (client_handles s)(i := cl_handle c)"
  by (auto simp: client_handles_def put_client_def)

lemma put_client_frame [simp]:
  "ss_world (put_client i c w s) = w" "ss_server (put_client i c w s) = ss_server s"
  by (simp_all add: put_client_def)

lemma snd_eqD: "snd p = q \<Longrightarrow> p = (fst p, q)"
  by (cases p) simp

lemmas act_steps =
  client_read_byte_steps [OF snd_eqD] client_peek_steps [OF snd_eqD] client_available_steps [OF snd_eqD]
  client_connected_steps [OF snd_eqD] connect_to_steps [OF snd_eqD] connectAsync_steps [OF snd_eqD]
  pollConnect_steps [OF snd_eqD] writeAsync_steps [OF snd_eqD] setTimeout_steps [OF snd_eqD]
  client_flush_steps stop_steps cacheEndpoints_steps client_write_steps pollWrite_steps

lemma do_act_steps:
  assumes "do_act os parse act c w = Some (c', w')"
  shows "cl_steps os (None, c, w) (None, c', w')"
proof (cases act)
  case (ARead null len)
  with assms show ?thesis
    using client_read_steps [of os null len c w _ _ c' w' None]
    by (cases "client_read os null len c w") auto
next
  case (ASetOption opt v)
  with assms show ?thesis
    using setSocketOption_steps [of os opt v c w _ w' None] by (cases "setSocketOption os opt v c w") auto
next
  case (AGetOption opt)
  with assms show ?thesis
    using getOption_steps [of os opt c w _ _ w' None] by (cases "getOption os opt c w") auto
next
  case (AKeepAlive en a b k)
  with assms show ?thesis
    using setKeepAlive_steps [of os en a b k c w _ w' None] by (cases "setKeepAlive os en a b k c w") auto
next
  case (AHostByName host)
  with assms show ?thesis
    using hostByName_steps [of parse os host w _ w' None c] by (cases "hostByName parse os host w") auto
next
  case (AWrite n buf)
  with assms show ?thesis by (auto intro: act_steps)
next
  case (APollWrite n)
  with assms show ?thesis by (auto intro: act_steps)
qed (use assms in \<open>auto intro: act_steps\<close>)

text \<open>An operation of one client keeps the invariant of the program.\<close>

lemma act_inv:
  assumes "prog_inv G s" "fresh_fds os" "cl_handle c = client_handles s i"
    and "cl_steps os (None, c, ss_world s) (None, c', w')"
  shows "prog_inv G (put_client i c' w' s)"
proof -
  have "cl_inv G (client_handles s) i (None, c, ss_world s)"
    using assms(1,3) by (simp add: cl_inv_def prog_inv_def fun_upd_idem)
  from cl_steps_inv [OF assms(4,2) this] assms(1) show ?thesis by (simp add: cl_inv_def prog_inv_def)
qed

lemma handles_of: "ss_clients s i = Some c \<Longrightarrow> client_handles s i = cl_handle c"
  "ss_clients s i = None \<Longrightarrow> client_handles s i = None"
  by (simp_all add: client_handles_def)

lemma prog_inv_client:
  assumes "prog_inv G s"
    and "sock_inv G m w" "client_handles s' = m" "ss_world s' = w" "ss_server s' = ss_server s"
  shows "prog_inv G s'"
  using assms by (simp add: prog_inv_def)

lemma release_null [simp]: "release_handle os asp_null w = w"
  by (simp add: release_handle_def asp_reset_def asp_null_def)

lemma client_exec_inv:
  assumes "prog_inv G s" "fresh_fds os" "sock_exec os parse op s = Some s'"
    and "op \<in> range CNew \<union> {CCopy i j | i j. True} \<union> {CMove i j | i j. True} \<union> {CAssign i j | i j. True} \<union>
      {CMoveAssign i j | i j. True} \<union> range CDelete \<union> {CAct i a | i a. True}"
  shows "prog_inv G s'"
proof -
  have inv: "sock_inv G (client_handles s) (ss_world s)" using assms(1) by (simp add: prog_inv_def)
  from assms(4) consider (new) i where "op = CNew i" | (copy) i j where "op = CCopy i j" | (move) i j where "op = CMove i j"
    | (assign) i j where "op = CAssign i j" | (massign) i j where "op = CMoveAssign i j" | (del) i where "op = CDelete i"
    | (act) i a where "op = CAct i a" by blast
  then show ?thesis
  proof cases
    case new
    show ?thesis
    proof (cases "ss_clients s i")
      case None
      with assms(3) new have s': "s' = put_client i WiFiClient (ss_world s) s" by simp
      show ?thesis
        by (rule prog_inv_client [OF assms(1) inv])
          (use None in \<open>simp_all add: s' handles_of fun_upd_idem WiFiClient_def asp_null_def\<close>)
    qed (use assms(1,3) new in simp)
  next
    case copy
    show ?thesis
    proof (cases "\<exists>d. ss_clients s i = None \<and> ss_clients s j = Some d")
      case True
      then obtain d where d: "ss_clients s i = None" "ss_clients s j = Some d" by blast
      with assms(3) copy have s': "s' = put_client i (d\<lparr>cl_ep := invalidate EndpointCache\<rparr>)
          (share_handle (cl_handle d) (ss_world s)) s"
        by (simp add: client_copy_def)
      show ?thesis
        by (rule prog_inv_client [OF assms(1) inv_share [OF inv, of i j]])
          (use d in \<open>simp_all add: s' handles_of\<close>)
    qed (use assms(1,3) copy in \<open>auto split: option.splits\<close>)
  next
    case move
    show ?thesis
    proof (cases "\<exists>d. ss_clients s i = None \<and> ss_clients s j = Some d")
      case True
      then obtain d where d: "ss_clients s i = None" "ss_clients s j = Some d" by blast
      then have "i \<noteq> j" by auto
      with assms(3) move d have s': "s' = put_client i (d\<lparr>cl_ep := EndpointCache\<rparr>) (ss_world s)
          (put_client j (moved_from d) (ss_world s) s)"
        by (simp add: client_move_def)
      show ?thesis
        by (rule prog_inv_client [OF assms(1) inv_move [OF inv _ \<open>i \<noteq> j\<close>]])
          (use d \<open>i \<noteq> j\<close> in \<open>simp_all add: s' handles_of fun_upd_twist moved_from_def asp_null_def\<close>)
    qed (use assms(1,3) move in \<open>auto split: option.splits\<close>)
  next
    case assign
    show ?thesis
    proof (cases "\<exists>c d. ss_clients s i = Some c \<and> ss_clients s j = Some d")
      case True
      then obtain c d where d: "ss_clients s i = Some c" "ss_clients s j = Some d" by blast
      let ?w = "release_handle os (cl_handle c) (ss_world s)"
      have rel: "sock_inv G ((client_handles s)(i := None)) ?w"
        by (rule inv_drop_handle [OF inv]) (simp add: handles_of d)
      show ?thesis
      proof (cases "i = j")
        case True
        with assms(3) assign d obtain c2 where s': "s' = put_client i c2 ?w s" "cl_handle c2 = None"
          by (auto simp: client_assign_def client_stop_def asp_null_def)
        show ?thesis by (rule prog_inv_client [OF assms(1) rel]) (simp_all add: s')
      next
        case False
        with assms(3) assign d obtain c2 where s': "s' = put_client i c2 (share_handle (cl_handle d) ?w) s"
          "cl_handle c2 = cl_handle d" by (auto simp: client_assign_def client_stop_def)
        show ?thesis
          by (rule prog_inv_client [OF assms(1) inv_share [OF rel, of i j]])
            (use False d s' in \<open>simp_all add: handles_of\<close>)
      qed
    qed (use assms(1,3) assign in \<open>auto split: option.splits\<close>)
  next
    case massign
    show ?thesis
    proof (cases "\<exists>c d. ss_clients s i = Some c \<and> ss_clients s j = Some d \<and> i \<noteq> j")
      case True
      then obtain c d where d: "ss_clients s i = Some c" "ss_clients s j = Some d" "i \<noteq> j" by blast
      let ?w = "release_handle os (cl_handle c) (ss_world s)"
      have rel: "sock_inv G ((client_handles s)(i := None)) ?w"
        by (rule inv_drop_handle [OF inv]) (simp add: handles_of d)
      from assms(3) massign d obtain c2 where s': "s' = put_client i c2 ?w (put_client j (moved_from d) ?w s)"
        "cl_handle c2 = cl_handle d" by (auto simp: client_move_assign_def client_stop_def)
      show ?thesis
        by (rule prog_inv_client [OF assms(1) inv_move [OF rel _ d(3)]])
          (use d s' in \<open>simp_all add: handles_of moved_from_def asp_null_def fun_upd_twist\<close>)
    qed (use assms(1,3) massign in \<open>auto split: option.splits\<close>)
  next
    case del
    show ?thesis
    proof (cases "ss_clients s i")
      case (Some c)
      let ?w = "release_handle os (cl_handle c) (ss_world s)"
      have rel: "sock_inv G ((client_handles s)(i := None)) ?w"
        by (rule inv_drop_handle [OF inv]) (simp add: handles_of Some)
      from assms(3) del Some have s': "s' = s\<lparr>ss_clients := (ss_clients s)(i := None), ss_world := ?w\<rparr>"
        by (simp add: client_stop_def)
      show ?thesis
        by (rule prog_inv_client [OF assms(1) rel]) (auto simp: s' client_handles_def)
    qed (use assms(1,3) del in simp)
  next
    case act
    show ?thesis
    proof (cases "ss_clients s i")
      case (Some c)
      with assms(3) act obtain c' w' where "do_act os parse a c (ss_world s) = Some (c', w')" "s' = put_client i c' w' s"
        by auto
      with act_inv [OF assms(1,2) _ do_act_steps] Some show ?thesis by (simp add: handles_of)
    qed (use assms(1,3) act in simp)
  qed
qed

section \<open>The server\<close>

lemma setsockopt_inv:
  assumes "sock_inv G m w" "fd < 0 \<or> fd \<in> G"
  shows "sock_inv G m (snd (sys os (Req_setsockopt fd opt v) w))"
  by (rule inv_call [OF assms(1)]) (use assms(2) in \<open>auto simp: names_open_def\<close>)

definition server_ok :: "int set \<Rightarrow> server \<Rightarrow> bool" where
  "server_ok G sv \<longleftrightarrow> server_fds sv \<subseteq> G \<and> (0 \<le> sv_sockfd sv \<longrightarrow> sv_sockfd sv \<noteq> sv_accepted_sockfd sv)"

lemma server_ok_new:
  "server_ok G sv \<Longrightarrow> r \<notin> G \<Longrightarrow> 0 \<le> r \<Longrightarrow> sv_sockfd sv' = r \<Longrightarrow>
    sv_accepted_sockfd sv' = sv_accepted_sockfd sv \<or> sv_accepted_sockfd sv' = - 1 \<Longrightarrow> server_ok (insert r G) sv'"
  by (auto simp: server_ok_def server_fds_def)

lemma server_accept_fd: "server_ok G sv \<Longrightarrow> names_open (Req_accept (sv_sockfd sv)) (held w \<union> G)"
  by (auto simp: names_open_def server_ok_def server_fds_def)

text \<open>\<open>begin\<close> up to the \<open>bind\<close> call, when the socket \<open>r\<close> was created, and the rest.\<close>

definition begin_server :: "u16 \<Rightarrow> int \<Rightarrow> server \<Rightarrow> server" where
  "begin_server port r sv = (if port \<noteq> 0 then sv\<lparr>sv_port := port\<rparr> else sv)\<lparr>sv_sockfd := r\<rparr>"

definition begin_world :: "lwip \<Rightarrow> int \<Rightarrow> int \<Rightarrow> 'a net_scheme \<Rightarrow> 'a net_scheme" where
  "begin_world os enable r w =
     snd (sys os (Req_setsockopt r SO_RCVBUF [SERVER_BUF])
       (snd (sys os (Req_setsockopt r SO_SNDBUF [SERVER_BUF])
         (snd (sys os (Req_setsockopt r SO_REUSEADDR [enable]) (snd (sys os Req_socket w)))))))"

lemma begin_server_frame [simp]:
  "sv_sockfd (begin_server port r sv) = r" "sv_accepted_sockfd (begin_server port r sv) = sv_accepted_sockfd sv"
  by (simp_all add: begin_server_def)

lemma if_three: "x = (if P then a else if Q then b else c) \<Longrightarrow> x = a \<or> x = b \<or> x = c"
  by (simp split: if_splits)

lemma server_begin_cases:
  fixes os w
  defines "r \<equiv> an_ret (os (nt_calls w) Req_socket)"
  assumes "\<not> sv_listening sv" "server_begin os port enable sv w = (sv', w')"
  obtains "r < 0" "w' = snd (sys os Req_socket w)" "sv_sockfd sv' = r" "sv_accepted_sockfd sv' = sv_accepted_sockfd sv"
  | sv1 w4 w5 w6 where "0 \<le> r" "sv1 = begin_server port r sv" "w4 = begin_world os enable r w"
    "w5 = snd (sys os (Req_bind r (sv_addr sv1) (sv_port sv1)) w4)"
    "w6 = snd (sys os (Req_listen r (unat (sv_max_clients sv1))) w5)"
    "(sv', w') = (sv1, w5) \<or> (sv', w') = (sv1, w6) \<or>
     (sv', w') = (sv1\<lparr>sv_listening := True, sv_noDelay := False, sv_accepted_sockfd := - 1\<rparr>,
       snd (sys os (Req_nonblock r True) w6))"
proof (cases "r < 0")
  case True
  with assms show ?thesis
    by (intro that(1)) (auto simp: server_begin_def Let_def split_beta)
next
  case False
  let ?sv = "begin_server port r sv" let ?w4 = "begin_world os enable r w"
  let ?w5 = "snd (sys os (Req_bind r (sv_addr ?sv) (sv_port ?sv)) ?w4)"
  let ?w6 = "snd (sys os (Req_listen r (unat (sv_max_clients ?sv))) ?w5)"
  have "server_begin os port enable sv w =
      (if an_ret (os (nt_calls ?w4) (Req_bind r (sv_addr ?sv) (sv_port ?sv))) < 0 then (?sv, ?w5)
       else if an_ret (os (nt_calls ?w5) (Req_listen r (unat (sv_max_clients ?sv)))) < 0 then (?sv, ?w6)
       else (?sv\<lparr>sv_listening := True, sv_noDelay := False, sv_accepted_sockfd := - 1\<rparr>,
         snd (sys os (Req_nonblock r True) ?w6)))"
    using assms(2) False unfolding server_begin_def Let_def split_beta begin_server_def begin_world_def r_def by simp
  then have "(sv', w') = (?sv, ?w5) \<or> (sv', w') = (?sv, ?w6) \<or>
      (sv', w') = (?sv\<lparr>sv_listening := True, sv_noDelay := False, sv_accepted_sockfd := - 1\<rparr>,
        snd (sys os (Req_nonblock r True) ?w6))"
    unfolding assms(3) by (rule if_three)
  with False show ?thesis
    by (intro that(2) [of ?sv ?w4 ?w5 ?w6]) (rule refl | simp)+
qed

lemma server_begin_inv:
  assumes "sock_inv G m w" "server_ok G sv" "fresh_fds os" "server_begin os port enable sv w = (sv', w')"
  shows "\<exists>G'. sock_inv G' m w' \<and> server_ok G' sv'"
proof (cases "sv_listening sv")
  case True
  with assms show ?thesis by (auto simp: server_begin_def)
next
  case idle: False
  let ?r = "an_ret (os (nt_calls w) Req_socket)"
  let ?w1 = "snd (sys os Req_socket w)"
  have r: "sock_inv (if 0 \<le> ?r then insert ?r G else G) m ?w1" "?r \<notin> G"
    using inv_open [OF assms(1,3), of Req_socket] by (simp_all add: names_open_def)
  from idle assms(4) show ?thesis
  proof (cases rule: server_begin_cases)
    case 1
    with r(1) assms(2) show ?thesis
      by (intro exI [of _ G]) (auto simp: server_ok_def server_fds_def)
  next
    case (2 sv1 w4 w5 w6)
    let ?G = "insert ?r G"
    have i1: "sock_inv ?G m ?w1" using r(1) 2(1) by simp
    have i4: "sock_inv ?G m w4" unfolding 2(3) begin_world_def by (intro setsockopt_inv i1) simp_all
    have i5: "sock_inv ?G m w5" unfolding 2(4) by (rule inv_call [OF i4]) (simp_all add: names_open_def)
    have i6: "sock_inv ?G m w6" unfolding 2(5) by (rule inv_call [OF i5]) (simp_all add: names_open_def)
    have i7: "sock_inv ?G m (snd (sys os (Req_nonblock ?r True) w6))"
      by (rule inv_call [OF i6]) (simp_all add: names_open_def)
    have s: "sv_sockfd sv' = ?r" "sv_accepted_sockfd sv' = sv_accepted_sockfd sv \<or> sv_accepted_sockfd sv' = - 1"
      using 2(2,6) by auto
    have "sock_inv ?G m w'" using 2(6) i5 i6 i7 by (elim disjE) simp_all
    moreover have "server_ok ?G sv'" by (rule server_ok_new [OF assms(2) r(2) 2(1) s])
    ultimately show ?thesis by blast
  qed
qed

lemma hasClient_inv:
  assumes "sock_inv G m w" "server_ok G sv" "fresh_fds os" "hasClient os sv w = (r, sv', w')"
  shows "\<exists>G'. sock_inv G' m w' \<and> server_ok G' sv'"
proof (cases "0 \<le> sv_accepted_sockfd sv")
  case True
  with assms show ?thesis by (auto simp: hasClient_def)
next
  case False
  let ?r = "an_ret (os (nt_calls w) (Req_accept (sv_sockfd sv)))"
  let ?w = "snd (sys os (Req_accept (sv_sockfd sv)) w)"
  have "names_open (Req_accept (sv_sockfd sv)) (held w \<union> G)"
    by (rule server_accept_fd [OF assms(2)])
  from inv_open [OF assms(1,3) _ this]
  have "sock_inv (if 0 \<le> ?r then insert ?r G else G) m ?w" "?r \<notin> G" by simp_all
  moreover have "sv' = sv\<lparr>sv_accepted_sockfd := ?r\<rparr>" "w' = ?w"
    using assms(4) False by (simp_all add: hasClient_def split_beta)
  ultimately show ?thesis using assms(2)
    by (intro exI [of _ "if 0 \<le> ?r then insert ?r G else G"]) (auto simp: server_ok_def server_fds_def)
qed

lemma server_end_inv:
  assumes "sock_inv G m w" "server_ok G sv" "server_end os sv w = (sv', w')"
  shows "\<exists>G'. sock_inv G' m w' \<and> server_ok G' sv'"
proof (cases "0 \<le> sv_sockfd sv")
  case True
  then have "sv_sockfd sv \<in> G" using assms(2) by (auto simp: server_ok_def server_fds_def)
  from inv_close [OF assms(1) this] True assms show ?thesis
    by (intro exI [of _ "G - {sv_sockfd sv}"]) (auto simp: server_end_def server_ok_def server_fds_def)
next
  case False
  with assms show ?thesis
    by (intro exI [of _ G]) (auto simp: server_end_def server_ok_def server_fds_def)
qed

lemma tune_accepted_inv:
  "sock_inv G m w \<Longrightarrow> fd \<in> G \<Longrightarrow> sock_inv G m (tune_accepted os fd b w)"
  unfolding tune_accepted_def Let_def by (intro setsockopt_inv) simp_all

lemma adopt_accepted:
  assumes "sock_inv G m w" "fd \<in> G" "0 \<le> fd" "m i = None" "WiFiClient_fd fd (tune_accepted os fd b w) = (c, w')"
  shows "sock_inv (G - {fd}) (m(i := cl_handle c)) w'"
proof -
  obtain p where p: "adopt_fd fd (tune_accepted os fd b w) = (p, w')" "cl_handle c = p"
    using assms(5) by (auto simp: WiFiClient_fd_def split: prod.splits)
  from inv_adopt [OF tune_accepted_inv [OF assms(1,2)] assms(2-4) p(1)] p(2) show ?thesis by simp
qed

lemma server_available_inv:
  assumes "sock_inv G m w" "server_ok G sv" "fresh_fds os" "m i = None" "server_available os sv w = (c, sv', w')"
  shows "\<exists>G'. sock_inv G' (m(i := cl_handle c)) w' \<and> server_ok G' sv'"
proof -
  have null: "m(i := cl_handle WiFiClient) = m" using assms(4) by (simp add: WiFiClient_def asp_null_def fun_upd_idem)
  let ?r = "an_ret (os (nt_calls w) (Req_accept (sv_sockfd sv)))"
  let ?w = "snd (sys os (Req_accept (sv_sockfd sv)) w)"
  consider (off) "\<not> sv_listening sv" | (kept) "sv_listening sv" "0 \<le> sv_accepted_sockfd sv"
    | (none) "sv_listening sv" "\<not> 0 \<le> sv_accepted_sockfd sv" "\<not> 0 \<le> ?r"
    | (fresh) "sv_listening sv" "\<not> 0 \<le> sv_accepted_sockfd sv" "0 \<le> ?r" by blast
  then show ?thesis
  proof cases
    case off
    with assms(1,2,5) null show ?thesis by (auto simp: server_available_def)
  next
    case kept
    let ?fd = "sv_accepted_sockfd sv"
    from kept assms(5) have w: "WiFiClient_fd ?fd (tune_accepted os ?fd (sv_noDelay sv) w) = (c, w')"
      "sv' = sv\<lparr>sv_accepted_sockfd := - 1\<rparr>"
      by (auto simp: server_available_def Let_def split: prod.splits)
    have "?fd \<in> G" using kept(2) assms(2) by (auto simp: server_ok_def server_fds_def)
    from adopt_accepted [OF assms(1) this kept(2) assms(4) w(1)] w(2) kept(2) assms(2) show ?thesis
      by (intro exI [of _ "G - {?fd}"]) (auto simp: server_ok_def server_fds_def)
  next
    case none
    have "names_open (Req_accept (sv_sockfd sv)) (held w \<union> G)"
      by (rule server_accept_fd [OF assms(2)])
    from inv_open [OF assms(1,3) _ this] none have "sock_inv G m ?w" by simp
    moreover have "c = WiFiClient" "sv' = sv" "w' = ?w"
      using none assms(5) by (auto simp: server_available_def Let_def split_beta)
    ultimately show ?thesis using null assms(2) by auto
  next
    case fresh
    have "names_open (Req_accept (sv_sockfd sv)) (held w \<union> G)"
      by (rule server_accept_fd [OF assms(2)])
    from inv_open [OF assms(1,3) _ this] fresh have i: "sock_inv (insert ?r G) m ?w" "?r \<notin> G" by simp_all
    from fresh assms(5) have w: "WiFiClient_fd ?r (tune_accepted os ?r (sv_noDelay sv) ?w) = (c, w')" "sv' = sv"
      by (auto simp: server_available_def Let_def split_beta)
    from adopt_accepted [OF i(1) _ fresh(3) assms(4) w(1)] i(2) w(2) assms(2) show ?thesis
      by (intro exI [of _ G]) simp
  qed
qed

section \<open>Every program\<close>

lemma prog_invI: "sock_inv G (client_handles s) (ss_world s) \<Longrightarrow> server_ok G (ss_server s) \<Longrightarrow> prog_inv G s"
  by (simp add: prog_inv_def server_ok_def)

lemma prog_inv_ex:
  "\<exists>G. sock_inv G (client_handles s) (ss_world s) \<and> server_ok G (ss_server s) \<Longrightarrow> \<exists>G. prog_inv G s"
  by (auto intro: prog_invI)

lemma sock_exec_inv:
  assumes "prog_inv G s" "fresh_fds os" "sock_exec os parse op s = Some s'"
  shows "\<exists>G'. prog_inv G' s'"
proof -
  have inv: "sock_inv G (client_handles s) (ss_world s)" "server_ok G (ss_server s)"
    using assms(1) by (simp_all add: prog_inv_def server_ok_def)
  have h: "client_handles (s\<lparr>ss_server := sv, ss_world := w\<rparr>) = client_handles s" for sv w
    by (simp add: client_handles_def fun_eq_iff)
  show ?thesis
  proof (cases op)
    case (SBegin port en)
    obtain sv w where b: "server_begin os port en (ss_server s) (ss_world s) = (sv, w)" by fastforce
    from server_begin_inv [OF inv assms(2) b] b SBegin assms(3) h show ?thesis
      by (intro prog_inv_ex) auto
  next
    case (SAvailable i)
    show ?thesis
    proof (cases "ss_clients s i")
      case None
      obtain c sv w where b: "server_available os (ss_server s) (ss_world s) = (c, sv, w)" by (cases "server_available os (ss_server s) (ss_world s)")
      with None SAvailable assms(3) have s': "s' = put_client i c w (s\<lparr>ss_server := sv\<rparr>)" by simp
      have "client_handles (s\<lparr>ss_server := sv\<rparr>) = client_handles s" by (simp add: client_handles_def fun_eq_iff)
      with server_available_inv [OF inv assms(2) _ b, of i] s' None show ?thesis
        by (intro prog_inv_ex) (auto simp: handles_of)
    qed (use assms SAvailable in auto)
  next
    case SHasClient
    obtain r sv w where b: "hasClient os (ss_server s) (ss_world s) = (r, sv, w)" by (cases "hasClient os (ss_server s) (ss_world s)")
    from hasClient_inv [OF inv assms(2) b] b SHasClient assms(3) h show ?thesis
      by (intro prog_inv_ex) auto
  next
    case SEnd
    obtain sv w where b: "server_end os (ss_server s) (ss_world s) = (sv, w)" by fastforce
    from server_end_inv [OF inv b] b SEnd assms(3) h show ?thesis
      by (intro prog_inv_ex) auto
  next
    case (SSetTimeout t)
    have fd: "sv_sockfd (ss_server s) < 0 \<or> sv_sockfd (ss_server s) \<in> G"
      using inv(2) by (auto simp: server_ok_def server_fds_def)
    have "sock_inv G (client_handles s) (snd (server_setTimeout os t (ss_server s) (ss_world s)))"
      unfolding server_setTimeout_def Let_def split_beta
      using setsockopt_inv [OF setsockopt_inv [OF inv(1) fd] fd] setsockopt_inv [OF inv(1) fd] by simp
    moreover have "client_handles (s\<lparr>ss_world := w\<rparr>) = client_handles s" for w
      by (simp add: client_handles_def fun_eq_iff)
    ultimately show ?thesis using SSetTimeout assms(3) inv(2) by (auto intro!: exI [of _ G] prog_invI)
  next
    case (SSetNoDelay b)
    have "client_handles (s\<lparr>ss_server := v\<rparr>) = client_handles s" for v
      by (simp add: client_handles_def fun_eq_iff)
    with SSetNoDelay assms(3) inv show ?thesis
      by (auto simp: server_setNoDelay_def server_ok_def server_fds_def intro!: exI [of _ G] prog_invI)
  qed (use client_exec_inv [OF assms] in blast)+
qed

lemma sock_run_inv:
  "prog_inv G s \<Longrightarrow> fresh_fds os \<Longrightarrow> sock_run os parse ops s = Some s' \<Longrightarrow> \<exists>G'. prog_inv G' s'"
proof (induction ops arbitrary: s G)
  case (Cons op ops)
  from Cons.prems(3) obtain s1 where s1: "sock_exec os parse op s = Some s1" "sock_run os parse ops s1 = Some s'"
    by (auto split: option.splits)
  from sock_exec_inv [OF Cons.prems(1,2) s1(1)] Cons.IH Cons.prems(2) s1(2) show ?case by blast
qed auto

fun client_op :: "sock_op \<Rightarrow> bool" where
  "client_op (CNew i) \<longleftrightarrow> True"
| "client_op (CCopy i j) \<longleftrightarrow> True"
| "client_op (CMove i j) \<longleftrightarrow> True"
| "client_op (CAssign i j) \<longleftrightarrow> True"
| "client_op (CMoveAssign i j) \<longleftrightarrow> True"
| "client_op (CDelete i) \<longleftrightarrow> True"
| "client_op (CAct i a) \<longleftrightarrow> True"
| "client_op _ \<longleftrightarrow> False"

lemma client_run_inv:
  "prog_inv G s \<Longrightarrow> fresh_fds os \<Longrightarrow> list_all client_op ops \<Longrightarrow> sock_run os parse ops s = Some s' \<Longrightarrow> prog_inv G s'"
proof (induction ops arbitrary: s)
  case (Cons op ops)
  from Cons.prems(4) obtain s1 where s1: "sock_exec os parse op s = Some s1" "sock_run os parse ops s1 = Some s'"
    by (auto split: option.splits)
  have "prog_inv G s1"
    by (rule client_exec_inv [OF Cons.prems(1,2) s1(1)]) (use Cons.prems(3) in \<open>cases op; auto\<close>)
  with Cons s1(2) show ?case by simp
qed simp

lemma prog_inv_start: "prog_inv {} (sock_start addr port k)"
proof -
  have "client_handles (sock_start addr port k) = (\<lambda>_. None)"
    by (simp add: client_handles_def sock_start_def fun_eq_iff)
  with owned_empty show ?thesis
    by (simp add: prog_inv_def sock_inv_def sock_start_def handles_def held_def
        handles_ok_def empty_heap_def WiFiServer_def server_fds_def)
qed

text \<open>The descriptor a client holds.\<close>

lemma client_holds:
  assumes "prog_inv G s" "ss_clients s i = Some c" "cl_handle c = Some a"
  shows "\<exists>h. handles (ss_world s) a = Some h \<and> client_fd c (ss_world s) = sh_fd h \<and>
    sh_fd h \<in> open_fds (nt_calls (ss_world s)) \<and> 0 \<le> sh_fd h"
proof -
  have "sock_inv G (client_handles s) (ss_world s)" using assms(1) by (simp add: prog_inv_def)
  moreover have "client_handles s i = Some a" using assms(2,3) by (simp add: handles_of)
  ultimately obtain h where "handles (ss_world s) a = Some h" "asp_get (Some a) (cw_heap (ss_world s)) = Some h"
    "sh_fd h \<in> open_fds (nt_calls (ss_world s))" "0 \<le> sh_fd h" by (rule sock_inv_get)
  then show ?thesis using assms(3) by (simp add: client_fd_def)
qed

lemma held_by_client:
  assumes "prog_inv G s" "fd \<in> held (ss_world s)"
  shows "\<exists>i c. ss_clients s i = Some c \<and> client_fd c (ss_world s) = fd"
proof -
  have inv: "sock_inv G (client_handles s) (ss_world s)" using assms(1) by (simp add: prog_inv_def)
  from assms(2) obtain a h where h: "handles (ss_world s) a = Some h" "sh_fd h = fd" by (auto simp: held_def)
  then obtain b where "ah_block (cw_heap (ss_world s)) a = Some b" by (auto simp: handles_def)
  moreover have "block_ok (client_handles s) (cw_heap (ss_world s)) a" using inv by (simp add: sock_inv_def owned_def)
  ultimately obtain i where "client_handles s i = Some a" by (auto simp: block_ok_def owners_def)
  then obtain c where "ss_clients s i = Some c" "cl_handle c = Some a"
    by (auto simp: client_handles_def split: option.splits)
  moreover from this(2) h have "client_fd c (ss_world s) = fd"
    by (auto simp: client_fd_def asp_get_def handles_def)
  ultimately show ?thesis by blast
qed

text \<open>C7: In any program over client objects (created, copied, moved, assigned and destroyed in any
  order, connected, read, written and stopped) and a server, no operation accesses freed memory, no
  call ever names a descriptor that is not open (so none is closed twice or used after it was closed),
  the descriptor of every connected client object is open, and two client objects have the same
  descriptor only when they share one handle.\<close>

theorem sockets_no_use_after_close:
  assumes "fresh_fds os" "sock_run os parse ops (sock_start addr port k) = Some s"
  shows "\<not> cw_fault (ss_world s) \<and> safe_log (nt_calls (ss_world s)) \<and>
    (\<forall>i c. ss_clients s i = Some c \<longrightarrow> cl_handle c \<noteq> None \<longrightarrow>
       client_fd c (ss_world s) \<in> open_fds (nt_calls (ss_world s))) \<and>
    (\<forall>i j c d. ss_clients s i = Some c \<longrightarrow> ss_clients s j = Some d \<longrightarrow> cl_handle c \<noteq> None \<longrightarrow>
       client_fd c (ss_world s) = client_fd d (ss_world s) \<longrightarrow> client_equal c d)"
proof -
  from sock_run_inv [OF prog_inv_start assms] obtain G where inv: "prog_inv G s" by blast
  then have ok: "handles_ok (ss_world s)" by (simp add: prog_inv_def sock_inv_def)
  have "client_equal c d" if "ss_clients s i = Some c" "ss_clients s j = Some d" "cl_handle c \<noteq> None"
    "client_fd c (ss_world s) = client_fd d (ss_world s)" for i j c d
  proof -
    from that(3) obtain a where a: "cl_handle c = Some a" by auto
    obtain h where h: "handles (ss_world s) a = Some h" "client_fd c (ss_world s) = sh_fd h" "0 \<le> sh_fd h"
      using client_holds [OF inv \<open>ss_clients s i = Some c\<close> a] by blast
    have "0 \<le> client_fd d (ss_world s)" using h(2,3) that(4) by simp
    then have "cl_handle d \<noteq> None" by (cases "cl_handle d") (simp_all add: client_fd_def asp_get_def)
    then obtain b where b: "cl_handle d = Some b" by auto
    obtain k where "handles (ss_world s) b = Some k" "client_fd d (ss_world s) = sh_fd k"
      using client_holds [OF inv \<open>ss_clients s j = Some d\<close> b] by blast
    with h ok that(4) a b show ?thesis unfolding handles_ok_def client_equal_def asp_equal_def by metis
  qed
  moreover have "client_fd c (ss_world s) \<in> open_fds (nt_calls (ss_world s))"
    if "ss_clients s i = Some c" "cl_handle c \<noteq> None" for i c
    using client_holds [OF inv that(1)] that(2) by (cases "cl_handle c") fastforce+
  ultimately show ?thesis using inv by (auto simp: prog_inv_def sock_inv_def)
qed

text \<open>C12: Programs that only use client objects lose no descriptor, whatever fails on the way: the open
  descriptors are at every moment exactly those of the client objects, so that every socket is
  closed when the last client that shares it is stopped, destroyed or assigned to.\<close>

theorem clients_lose_no_descriptor:
  assumes "fresh_fds os" "list_all client_op ops" "sock_run os parse ops (sock_start addr port k) = Some s"
  shows "open_fds (nt_calls (ss_world s)) =
    {fd. 0 \<le> fd \<and> (\<exists>i c. ss_clients s i = Some c \<and> client_fd c (ss_world s) = fd)}"
proof -
  from client_run_inv [OF prog_inv_start assms] have inv: "prog_inv {} s" .
  then have "open_fds (nt_calls (ss_world s)) = held (ss_world s)" by (simp add: prog_inv_def sock_inv_def)
  moreover have "fd \<in> held (ss_world s)"
    if "0 \<le> fd" "ss_clients s i = Some c" "client_fd c (ss_world s) = fd" for fd i c
  proof -
    from that obtain a where "cl_handle c = Some a" by (auto simp: client_fd_def asp_get_def split: option.splits)
    from client_holds [OF inv that(2) this] that(3) show ?thesis by (simp add: held_def) metis
  qed
  moreover have "0 \<le> fd" if "fd \<in> held (ss_world s)" for fd
    using inv that by (auto simp: prog_inv_def sock_inv_def handles_ok_def held_def)
  ultimately show ?thesis using held_by_client [OF inv] by blast
qed

text \<open>A client that connects, is copied, and stops: its descriptor stays open for the copy.\<close>

definition demo_ops :: "sock_op list" where
  "demo_ops = [CNew 0, CAct 0 (AConnect 1 80 3000), CCopy 1 0, CAct 0 AStop]"

lemma demo_run:
  "\<exists>s. sock_run demo_os (\<lambda>_. None) demo_ops (sock_start 0 80 4) = Some s \<and> open_fds (nt_calls (ss_world s)) = {3}"
  by (simp add: demo_ops_def sock_start_def put_client_def client_connect_to_def configureSocket_def
      socket_options_def handshake_def adopt_fd_def asp_make_def WiFiClient_def empty_heap_def
      WiFiClientSocketHandle_def client_copy_def share_handle_def asp_incr_def client_stop_def release_handle_def
      asp_reset_def asp_null_def sys_def answer_def new_fd_def open_fds_def Let_def)

lemma sockets_no_use_after_close_witness:
  "\<exists>s. sock_run demo_os (\<lambda>_. None) demo_ops (sock_start 0 80 4) = Some s \<and>
     \<not> cw_fault (ss_world s) \<and> safe_log (nt_calls (ss_world s))"
  using demo_run sockets_no_use_after_close [OF demo_fresh, of "\<lambda>_. None" demo_ops 0 80 4] by blast

lemma clients_lose_no_descriptor_witness:
  "\<exists>s. sock_run demo_os (\<lambda>_. None) demo_ops (sock_start 0 80 4) = Some s \<and>
     {fd. 0 \<le> fd \<and> (\<exists>i c. ss_clients s i = Some c \<and> client_fd c (ss_world s) = fd)} = {3}"
proof -
  have "list_all client_op demo_ops" by (simp add: demo_ops_def)
  with demo_run clients_lose_no_descriptor [OF demo_fresh this, of "\<lambda>_. None" 0 80 4] show ?thesis by auto
qed

text \<open>The copy assignment of a client to itself stops it: its socket is lost.\<close>

lemma self_assignment_disconnects:
  assumes "ss_clients s i = Some c" "sock_exec os parse (CAssign i i) s = Some s'"
  shows "\<exists>c'. ss_clients s' i = Some c' \<and> cl_handle c' = None \<and> \<not> cl_connected c'"
  using assms by (auto simp: client_assign_def client_stop_def put_client_def asp_null_def)

section \<open>What the server loses\<close>

lemma server_begin_open:
  assumes "\<not> sv_listening sv" "server_begin os port en sv w = (sv', w')"
  defines "r \<equiv> an_ret (os (nt_calls w) Req_socket)"
  shows "open_fds (nt_calls w') = (if 0 \<le> r then insert r (open_fds (nt_calls w)) else open_fds (nt_calls w))"
    "sv_sockfd sv' = r" "sv_accepted_sockfd sv' = sv_accepted_sockfd sv \<or> sv_accepted_sockfd sv' = - 1"
proof -
  have "open_fds (nt_calls w') = (if 0 \<le> r then insert r (open_fds (nt_calls w)) else open_fds (nt_calls w)) \<and>
    sv_sockfd sv' = r \<and> (sv_accepted_sockfd sv' = sv_accepted_sockfd sv \<or> sv_accepted_sockfd sv' = - 1)"
    using assms(1,2)
  proof (cases rule: server_begin_cases)
    case 1
    then show ?thesis by (simp add: r_def open_fds_snoc)
  next
    case (2 sv1 w4 w5 w6)
    have o4: "open_fds (nt_calls w4) = insert r (open_fds (nt_calls w))"
      using 2(1) by (simp add: 2(3) begin_world_def r_def open_fds_def)
    then have o5: "open_fds (nt_calls w5) = insert r (open_fds (nt_calls w))"
      unfolding 2(4) by (simp add: open_fds_snoc)
    then have o6: "open_fds (nt_calls w6) = insert r (open_fds (nt_calls w))"
      unfolding 2(5) by (simp add: open_fds_snoc)
    from 2(6) o5 o6 have "open_fds (nt_calls w') = insert r (open_fds (nt_calls w))"
      by (elim disjE) (simp_all add: open_fds_snoc)
    moreover have "sv_sockfd sv' = r \<and> (sv_accepted_sockfd sv' = sv_accepted_sockfd sv \<or> sv_accepted_sockfd sv' = - 1)"
      using 2(2,6) by (auto simp: r_def)
    ultimately show ?thesis using 2(1) by (simp add: r_def)
  qed
  then show "open_fds (nt_calls w') = (if 0 \<le> r then insert r (open_fds (nt_calls w)) else open_fds (nt_calls w))"
    "sv_sockfd sv' = r" "sv_accepted_sockfd sv' = sv_accepted_sockfd sv \<or> sv_accepted_sockfd sv' = - 1"
    by blast+
qed

text \<open>A server whose \<open>begin\<close> failed in \<open>bind\<close> or \<open>listen\<close> keeps its socket, and the next
  \<open>begin\<close> replaces the descriptor without closing it: the first socket stays open although no object of
  the program holds its descriptor any more.\<close>

theorem server_retry_leaks:
  assumes "fresh_fds os" "\<not> sv_listening sv" "sv_accepted_sockfd sv = - 1"
    and "server_begin os port en sv w = (sv1, w1)" "\<not> sv_listening sv1" "0 \<le> sv_sockfd sv1"
    and "server_begin os port' en' sv1 w1 = (sv2, w2)"
  shows "sv_sockfd sv1 \<in> open_fds (nt_calls w2) \<and> sv_sockfd sv1 \<notin> server_fds sv2"
proof -
  note one = server_begin_open [OF assms(2,4)] and two = server_begin_open [OF assms(5,7)]
  have "sv_sockfd sv1 \<in> open_fds (nt_calls w1)" using one(1,2) assms(6) by simp
  moreover have "sv_sockfd sv2 \<notin> open_fds (nt_calls w1)"
    using assms(1) two(2) by (simp add: fresh_fds_def)
  moreover have "sv_accepted_sockfd sv2 = - 1" using one(3) two(3) assms(3) by auto
  ultimately show ?thesis using two(1) assms(6) by (auto simp: server_fds_def)
qed

text \<open>A stack on which every \<open>bind\<close> fails.\<close>

fun no_bind_os :: lwip where
  "no_bind_os calls (Req_bind fd ip p) = answer (- 1) [] calls"
| "no_bind_os calls req = demo_os calls req"

lemma no_bind_fresh: "fresh_fds no_bind_os"
  using demo_fresh by (simp add: fresh_fds_def)

lemma server_retry_leaks_witness:
  "\<exists>sv1 w1 sv2 w2. server_begin no_bind_os 80 1 (WiFiServer 0 80 4) demo_net = (sv1, w1) \<and>
     server_begin no_bind_os 80 1 sv1 w1 = (sv2, w2) \<and>
     sv_sockfd sv1 \<in> open_fds (nt_calls w2) \<and> sv_sockfd sv1 \<notin> server_fds sv2"
proof -
  define r1 where "r1 = server_begin no_bind_os 80 1 (WiFiServer 0 80 4) demo_net"
  define r2 where "r2 = server_begin no_bind_os 80 1 (fst r1) (snd r1)"
  have failed: "\<not> sv_listening (fst r1) \<and> sv_sockfd (fst r1) = 3"
    by (simp add: r1_def server_begin_def WiFiServer_def demo_net_def sys_def answer_def new_fd_def Let_def)
  have "sv_sockfd (fst r1) \<in> open_fds (nt_calls (snd r2)) \<and> sv_sockfd (fst r1) \<notin> server_fds (fst r2)"
    by (rule server_retry_leaks [OF no_bind_fresh, of "WiFiServer 0 80 4" 80 1 demo_net "fst r1" "snd r1" 80 1 "fst r2" "snd r2"])
      (simp_all add: failed WiFiServer_def r2_def, simp add: r1_def WiFiServer_def)
  then show ?thesis by (metis r1_def r2_def prod.collapse)
qed

text \<open>A connection that \<open>hasClient\<close> has accepted stays open when the server is ended, and the next
  successful \<open>begin\<close> forgets its descriptor; \<open>setNoDelay(true)\<close> clears the option it names.\<close>

lemma server_end_keeps_accepted:
  assumes "server_end os sv w = (sv', w')"
  shows "sv_accepted_sockfd sv' = sv_accepted_sockfd sv \<and>
    (sv_accepted_sockfd sv \<noteq> sv_sockfd sv \<longrightarrow> sv_accepted_sockfd sv \<in> open_fds (nt_calls w) \<longrightarrow>
      sv_accepted_sockfd sv \<in> open_fds (nt_calls w'))"
  using assms by (auto simp: server_end_def os_close_def open_fds_snoc)

lemma setNoDelay_clears_option:
  assumes "sv_listening sv" "0 \<le> sv_accepted_sockfd sv"
    and "server_available os (server_setNoDelay True sv) w = (c, sv', w')"
  shows "\<exists>rest. nt_calls w' = nt_calls w @ (Req_setsockopt (sv_accepted_sockfd sv) TCP_NODELAY [0],
    os (nt_calls w) (Req_setsockopt (sv_accepted_sockfd sv) TCP_NODELAY [0])) # rest"
  using assms by (auto simp: server_available_def server_setNoDelay_def WiFiClient_fd_def adopt_fd_def
      tune_accepted_def Let_def split_beta)

end
