(* ===== verification/WiFi_Udp.thy ===== *)
theory WiFi_Udp
  imports Socket_Api
begin

text \<open>
  \<open>WiFiUDP\<close> (\<open>WiFiUdp.h\<close>, \<open>WiFiUdp.cpp\<close>, \<open>WiFiUdpRx.cpp\<close>): a datagram socket with a transmit buffer of 1460
  bytes and a receive buffer for one packet. The receive buffer is Arduino's \<open>cbuf\<close>, which is a
  parameter: a record of its operations on a state of its own. The descriptor -1 is a closed socket.
\<close>

section \<open>State\<close>

definition UDP_TX :: nat where "UDP_TX = 1460"

record 'b cbuf_ops =
  cb_new :: "nat \<Rightarrow> 'b option"
  cb_available :: "'b \<Rightarrow> nat"
  cb_size :: "'b \<Rightarrow> nat"
  cb_flush :: "'b \<Rightarrow> 'b"
  cb_write :: "u8 list \<Rightarrow> 'b \<Rightarrow> nat \<times> 'b"
  cb_read :: "nat \<Rightarrow> 'b \<Rightarrow> u8 list \<times> 'b"
  cb_read_byte :: "'b \<Rightarrow> int \<times> 'b"
  cb_peek :: "'b \<Rightarrow> int"

record 'b udp =
  up_server :: int
  up_multicast_ip :: u32
  up_remote_ip :: u32
  up_server_port :: u16
  up_remote_port :: u16
  up_tx_buffer :: "u8 list"
  up_tx_len :: nat
  up_rx :: "'b option"

text \<open>The constructor leaves the transmit buffer uninitialised: \<open>mem\<close> is what it holds.\<close>

definition WiFiUDP :: "u8 list \<Rightarrow> 'b udp" where
  "WiFiUDP mem =
     \<lparr>up_server = - 1, up_multicast_ip = 0, up_remote_ip = 0, up_server_port = 0, up_remote_port = 0,
      up_tx_buffer = mem, up_tx_len = 0, up_rx = None\<rparr>"

section \<open>Opening and closing\<close>

definition udp_stop :: "lwip \<Rightarrow> 'b udp \<Rightarrow> 'a net_scheme \<Rightarrow> 'b udp \<times> 'a net_scheme" where
  "udp_stop os u w =
     (let u = u\<lparr>up_tx_len := 0, up_rx := None\<rparr> in
      if up_server u = - 1 then (u, w)
      else
        let (u, w) =
              (if up_multicast_ip u \<noteq> 0
               then (u\<lparr>up_multicast_ip := 0\<rparr>,
                     snd (sys os (Req_setsockopt (up_server u) IP_DROP_MEMBERSHIP [uint (up_multicast_ip u), 0]) w))
               else (u, w));
            w = snd (sys os (Req_close (up_server u)) w)
        in (u\<lparr>up_server := - 1\<rparr>, w))"

definition udp_begin :: "lwip \<Rightarrow> u32 \<Rightarrow> u16 \<Rightarrow> 'b udp \<Rightarrow> 'a net_scheme \<Rightarrow> bool \<times> 'b udp \<times> 'a net_scheme" where
  "udp_begin os address port u w =
     (let (u, w) = udp_stop os u w;
          u = u\<lparr>up_server_port := port, up_tx_len := 0\<rparr>;
          (a, w) = sys os Req_socket w;
          u = u\<lparr>up_server := an_ret a\<rparr>
      in if an_ret a = - 1 then (False, u, w)
      else
        let (a, w) = sys os (Req_setsockopt (up_server u) SO_REUSEADDR [1]) w in
        if an_ret a < 0 then let (u, w) = udp_stop os u w in (False, u, w)
        else
          let (a, w) = sys os (Req_bind (up_server u) address (up_server_port u)) w in
          if an_ret a = - 1 then let (u, w) = udp_stop os u w in (False, u, w)
          else (True, u, snd (sys os (Req_nonblock (up_server u) True) w)))"

definition udp_beginMulticast :: "lwip \<Rightarrow> u32 \<Rightarrow> u16 \<Rightarrow> 'b udp \<Rightarrow> 'a net_scheme \<Rightarrow> bool \<times> 'b udp \<times> 'a net_scheme" where
  "udp_beginMulticast os ip port u w =
     (let (ok, u, w) = udp_begin os 0 port u w in
      if \<not> ok then (False, u, w)
      else if ip = 0 then (True, u, w)
      else
        let (a, w) = sys os (Req_setsockopt (up_server u) IP_ADD_MEMBERSHIP [uint ip, 0]) w in
        if an_ret a < 0 then let (u, w) = udp_stop os u w in (False, u, w)
        else (True, u\<lparr>up_multicast_ip := ip\<rparr>, w))"

section \<open>Sending\<close>

definition udp_beginPacket :: "lwip \<Rightarrow> 'b udp \<Rightarrow> 'a net_scheme \<Rightarrow> bool \<times> 'b udp \<times> 'a net_scheme" where
  "udp_beginPacket os u w =
     (if up_remote_port u = 0 then (False, u, w)
      else
        let u = u\<lparr>up_tx_len := 0\<rparr> in
        if up_server u \<noteq> - 1 then (True, u, w)
        else
          let (a, w) = sys os Req_socket w;
              u = u\<lparr>up_server := an_ret a\<rparr>
          in if an_ret a = - 1 then (False, u, w)
             else (True, u, snd (sys os (Req_nonblock (up_server u) True) w)))"

definition udp_beginPacket_to :: "lwip \<Rightarrow> u32 \<Rightarrow> u16 \<Rightarrow> 'b udp \<Rightarrow> 'a net_scheme \<Rightarrow> bool \<times> 'b udp \<times> 'a net_scheme" where
  "udp_beginPacket_to os ip port u w = udp_beginPacket os (u\<lparr>up_remote_ip := ip, up_remote_port := port\<rparr>) w"

definition udp_beginPacket_host ::
  "lwip \<Rightarrow> char list \<Rightarrow> u16 \<Rightarrow> 'b udp \<Rightarrow> 'a net_scheme \<Rightarrow> bool \<times> 'b udp \<times> 'a net_scheme" where
  "udp_beginPacket_host os host port u w =
     (let (a, w) = sys os (Req_dns host) w in
      if an_ret a < 0 then (False, u, w) else udp_beginPacket_to os (an_ip a) port u w)"

definition udp_beginMulticastPacket :: "lwip \<Rightarrow> 'b udp \<Rightarrow> 'a net_scheme \<Rightarrow> bool \<times> 'b udp \<times> 'a net_scheme" where
  "udp_beginMulticastPacket os u w =
     (if up_server_port u = 0 \<or> up_multicast_ip u = 0 then (False, u, w)
      else udp_beginPacket os (u\<lparr>up_remote_ip := up_multicast_ip u, up_remote_port := up_server_port u\<rparr>) w)"

definition udp_endPacket :: "lwip \<Rightarrow> 'b udp \<Rightarrow> 'a net_scheme \<Rightarrow> bool \<times> 'a net_scheme" where
  "udp_endPacket os u w =
     (let (a, w) = sys os (Req_sendto (up_server u) (take (up_tx_len u) (up_tx_buffer u)) (up_remote_ip u) (up_remote_port u)) w
      in (\<not> an_ret a < 0, w))"

text \<open>A full buffer is sent; the result of the send is not looked at.\<close>

definition udp_flush_full :: "lwip \<Rightarrow> 'b udp \<Rightarrow> 'a net_scheme \<Rightarrow> 'b udp \<times> 'a net_scheme" where
  "udp_flush_full os u w = (u\<lparr>up_tx_len := 0\<rparr>, snd (udp_endPacket os u w))"

definition udp_write_byte :: "lwip \<Rightarrow> u8 \<Rightarrow> 'b udp \<Rightarrow> 'a net_scheme \<Rightarrow> 'b udp \<times> 'a net_scheme" where
  "udp_write_byte os x u w =
     (let (u, w) = (if up_tx_len u = UDP_TX then udp_flush_full os u w else (u, w))
      in (u\<lparr>up_tx_buffer := (up_tx_buffer u)[up_tx_len u := x], up_tx_len := up_tx_len u + 1\<rparr>, w))"

function udp_write :: "lwip \<Rightarrow> u8 list \<Rightarrow> 'b udp \<Rightarrow> 'a net_scheme \<Rightarrow> 'b udp \<times> 'a net_scheme" where
  "udp_write os xs u w =
     (if xs = [] then (u, w)
      else
        let v = (if UDP_TX - up_tx_len u = 0 then fst (udp_flush_full os u w) else u);
            w' = (if UDP_TX - up_tx_len u = 0 then snd (udp_flush_full os u w) else w);
            chunk = min (length xs) (UDP_TX - up_tx_len v)
        in udp_write os (drop chunk xs)
             (v\<lparr>up_tx_buffer := memcpy_to (up_tx_buffer v) (up_tx_len v) (take chunk xs),
                up_tx_len := up_tx_len v + chunk\<rparr>) w')"
  by pat_completeness auto

termination
  by (relation "measure (\<lambda>(os, xs, u, w). length xs)") (auto simp: udp_flush_full_def UDP_TX_def)

declare udp_write.simps [simp del]

section \<open>Receiving\<close>

definition udp_parsePacket ::
  "'b cbuf_ops \<Rightarrow> lwip \<Rightarrow> 'b udp \<Rightarrow> 'a net_scheme \<Rightarrow> int \<times> 'b udp \<times> 'a net_scheme" where
  "udp_parsePacket cb os u w =
     (if (case up_rx u of None \<Rightarrow> False | Some b \<Rightarrow> cb_available cb b \<noteq> 0) then (0, u, w)
      else
        let (a, w) = sys os (Req_recvfrom (up_server u) UDP_TX) w in
        if an_ret a = - 1 then (0, u, w)
        else
          let u = u\<lparr>up_remote_ip := an_ip a, up_remote_port := an_port a\<rparr>;
              len = nat (an_ret a)
          in if an_ret a \<le> 0 then (an_ret a, u, w)
          else
            let buf = (case up_rx u of
                  Some b \<Rightarrow> if cb_size cb b < len + 1 then cb_new cb len else Some b
                | None \<Rightarrow> cb_new cb len)
            in case buf of
                 None \<Rightarrow> (0, u\<lparr>up_rx := None\<rparr>, w)
               | Some b \<Rightarrow>
                   let (n, b) = cb_write cb (an_bytes a) (cb_flush cb b)
                   in (if n \<noteq> len then 0 else int len, u\<lparr>up_rx := Some b\<rparr>, w))"

definition udp_available :: "'b cbuf_ops \<Rightarrow> 'b udp \<Rightarrow> nat" where
  "udp_available cb u = (case up_rx u of None \<Rightarrow> 0 | Some b \<Rightarrow> cb_available cb b)"

text \<open>A drained receive buffer is freed.\<close>

definition udp_put_rx :: "'b cbuf_ops \<Rightarrow> 'b \<Rightarrow> 'b udp \<Rightarrow> 'b udp" where
  "udp_put_rx cb b u = u\<lparr>up_rx := (if cb_available cb b = 0 then None else Some b)\<rparr>"

definition udp_read_byte :: "'b cbuf_ops \<Rightarrow> 'b udp \<Rightarrow> int \<times> 'b udp" where
  "udp_read_byte cb u =
     (case up_rx u of
        None \<Rightarrow> (- 1, u)
      | Some b \<Rightarrow> let (x, b) = cb_read_byte cb b in (x, udp_put_rx cb b u))"

definition udp_read :: "'b cbuf_ops \<Rightarrow> nat \<Rightarrow> 'b udp \<Rightarrow> u8 list \<times> 'b udp" where
  "udp_read cb len u =
     (case up_rx u of
        None \<Rightarrow> ([], u)
      | Some b \<Rightarrow> let (xs, b) = cb_read cb len b in (xs, udp_put_rx cb b u))"

definition udp_peek :: "'b cbuf_ops \<Rightarrow> 'b udp \<Rightarrow> int" where
  "udp_peek cb u = (case up_rx u of None \<Rightarrow> - 1 | Some b \<Rightarrow> cb_peek cb b)"

definition udp_flush :: "'b udp \<Rightarrow> 'b udp" where
  "udp_flush u = u\<lparr>up_rx := None\<rparr>"

definition udp_remoteIP :: "'b udp \<Rightarrow> u32" where "udp_remoteIP u = up_remote_ip u"

definition udp_remotePort :: "'b udp \<Rightarrow> u16" where "udp_remotePort u = up_remote_port u"

section \<open>Writing in pieces is writing byte by byte\<close>

definition udp_ok :: "'b udp \<Rightarrow> bool" where
  "udp_ok u \<longleftrightarrow> length (up_tx_buffer u) = UDP_TX \<and> up_tx_len u \<le> UDP_TX"

fun udp_write_bytes :: "lwip \<Rightarrow> u8 list \<Rightarrow> 'b udp \<Rightarrow> 'a net_scheme \<Rightarrow> 'b udp \<times> 'a net_scheme" where
  "udp_write_bytes os [] u w = (u, w)"
| "udp_write_bytes os (x # xs) u w = (let (u, w) = udp_write_byte os x u w in udp_write_bytes os xs u w)"

lemma udp_write_bytes_append:
  "udp_write_bytes os (xs @ ys) u w = (let (u, w) = udp_write_bytes os xs u w in udp_write_bytes os ys u w)"
  by (induction xs arbitrary: u w) (simp_all add: split_beta Let_def)

lemma udp_write_byte_ok: "udp_ok u \<Longrightarrow> udp_ok (fst (udp_write_byte os x u w))"
  by (auto simp: udp_write_byte_def udp_ok_def udp_flush_full_def UDP_TX_def Let_def split_beta)

text \<open>A piece that fits into the buffer.\<close>

lemma memcpy_to_step:
  "d + 1 + length xs \<le> length b \<Longrightarrow> memcpy_to (b[d := x]) (d + 1) xs = memcpy_to b d (x # xs)"
  by (auto simp: memcpy_to_def take_Suc_conv_app_nth upd_conv_take_nth_drop add.commute)

lemma udp_write_fits:
  "length (up_tx_buffer u) = UDP_TX \<Longrightarrow> up_tx_len u + length xs \<le> UDP_TX \<Longrightarrow>
    udp_write_bytes os xs u w =
      (u\<lparr>up_tx_buffer := memcpy_to (up_tx_buffer u) (up_tx_len u) xs, up_tx_len := up_tx_len u + length xs\<rparr>, w)"
proof (induction xs arbitrary: u)
  case Nil
  then show ?case by (simp add: memcpy_to_def)
next
  case (Cons x xs)
  let ?u = "u\<lparr>up_tx_buffer := (up_tx_buffer u)[up_tx_len u := x], up_tx_len := up_tx_len u + 1\<rparr>"
  have "udp_write_byte os x u w = (?u, w)"
    using Cons.prems by (simp add: udp_write_byte_def)
  moreover have "udp_write_bytes os xs ?u w =
      (?u\<lparr>up_tx_buffer := memcpy_to (up_tx_buffer ?u) (up_tx_len ?u) xs, up_tx_len := up_tx_len ?u + length xs\<rparr>, w)"
    by (rule Cons.IH) (use Cons.prems in simp_all)
  moreover have "memcpy_to (up_tx_buffer ?u) (up_tx_len ?u) xs = memcpy_to (up_tx_buffer u) (up_tx_len u) (x # xs)"
    using memcpy_to_step [of "up_tx_len u" xs "up_tx_buffer u" x] Cons.prems by simp
  ultimately show ?case by simp
qed

lemma udp_write_eq:
  "length (up_tx_buffer u) = UDP_TX \<Longrightarrow> up_tx_len u \<le> UDP_TX \<Longrightarrow> udp_write os xs u w = udp_write_bytes os xs u w"
proof (induction os xs u w rule: udp_write.induct)
  case (1 os xs u w)
  show ?case
  proof (cases "xs = []")
    case True
    then show ?thesis by (simp add: udp_write.simps)
  next
    case False
    define v where "v = (if UDP_TX - up_tx_len u = 0 then fst (udp_flush_full os u w) else u)"
    define w' where "w' = (if UDP_TX - up_tx_len u = 0 then snd (udp_flush_full os u w) else w)"
    define chunk where "chunk = min (length xs) (UDP_TX - up_tx_len v)"
    let ?v = "v\<lparr>up_tx_buffer := memcpy_to (up_tx_buffer v) (up_tx_len v) (take chunk xs), up_tx_len := up_tx_len v + chunk\<rparr>"
    have v: "length (up_tx_buffer v) = UDP_TX" "up_tx_len v < UDP_TX"
      using 1(2,3) by (auto simp: v_def udp_flush_full_def UDP_TX_def)
    have pos: "0 < chunk" using v(2) False by (simp add: chunk_def)
    have "udp_write os xs u w = udp_write os (drop chunk xs) ?v w'"
      using False by (subst udp_write.simps) (simp add: v_def w'_def chunk_def Let_def)
    also have "\<dots> = udp_write_bytes os (drop chunk xs) ?v w'"
      using v by (intro 1(1) [OF False v_def w'_def chunk_def]) (simp_all add: chunk_def)
    also have "\<dots> = udp_write_bytes os xs v w'"
      using udp_write_bytes_append [of os "take chunk xs" "drop chunk xs" v w'] v
        udp_write_fits [of v "take chunk xs" os w'] by (simp add: chunk_def)
    also have "\<dots> = udp_write_bytes os xs u w"
    proof (cases "up_tx_len u = UDP_TX")
      case True
      obtain x ys where xs: "xs = x # ys" using False by (cases xs) auto
      have "udp_write_byte os x v w' = udp_write_byte os x u w"
        using True by (simp add: udp_write_byte_def v_def w'_def udp_flush_full_def UDP_TX_def)
      then show ?thesis by (simp add: xs)
    qed (use 1(3) in \<open>auto simp: v_def w'_def\<close>)
    finally show ?thesis .
  qed
qed

text \<open>C18: Writing a block, which is copied in chunks, is the same as writing its bytes one by one: the same
  datagrams are sent at the same moments, and the transmit buffer is the same afterwards.\<close>

theorem udp_write_bytewise:
  assumes "length (up_tx_buffer u) = 1460" "up_tx_len u \<le> 1460"
  shows "udp_write os xs u w = udp_write_bytes os xs u w"
  by (rule udp_write_eq) (use assms in \<open>simp_all add: UDP_TX_def\<close>)

lemma udp_write_bytewise_witness:
  "udp_write demo_os [1, 2] (WiFiUDP (replicate UDP_TX 0) :: unit udp) demo_net =
   udp_write_bytes demo_os [1, 2] (WiFiUDP (replicate UDP_TX 0)) demo_net"
  by (rule udp_write_bytewise) (simp_all add: WiFiUDP_def UDP_TX_def)

section \<open>The datagrams of a packet\<close>

fun datagram_of :: "(sock_req \<times> sock_ans) \<Rightarrow> u8 list list" where
  "datagram_of (Req_sendto fd xs ip p, a) = [xs]"
| "datagram_of _ = []"

definition datagrams :: "'a net_scheme \<Rightarrow> u8 list list" where
  "datagrams w = concat (map datagram_of (nt_calls w))"

definition udp_pending :: "'b udp \<Rightarrow> u8 list" where
  "udp_pending u = take (up_tx_len u) (up_tx_buffer u)"

lemma datagrams_sys: "datagrams (snd (sys os req w)) = datagrams w @ datagram_of (req, os (nt_calls w) req)"
  by (simp add: datagrams_def)

lemma datagrams_endPacket: "datagrams (snd (udp_endPacket os u w)) = datagrams w @ [udp_pending u]"
  by (simp add: udp_endPacket_def udp_pending_def split_beta datagrams_sys)

text \<open>What a byte does: it joins the pending bytes, or these are sent first.\<close>

lemma udp_write_byte_spec:
  assumes "udp_ok u"
  shows "if up_tx_len u = UDP_TX
    then datagrams (snd (udp_write_byte os x u w)) = datagrams w @ [udp_pending u] \<and> udp_pending (fst (udp_write_byte os x u w)) = [x]
    else datagrams (snd (udp_write_byte os x u w)) = datagrams w \<and> udp_pending (fst (udp_write_byte os x u w)) = udp_pending u @ [x]"
proof -
  have "take 1 ((up_tx_buffer u)[0 := x]) = [x]"
    using assms by (cases "up_tx_buffer u") (auto simp: udp_ok_def UDP_TX_def)
  moreover have "take (up_tx_len u + 1) ((up_tx_buffer u)[up_tx_len u := x]) = take (up_tx_len u) (up_tx_buffer u) @ [x]"
    if "up_tx_len u < length (up_tx_buffer u)"
    using that by (simp add: take_Suc_conv_app_nth)
  ultimately show ?thesis
    using assms
    by (auto simp: udp_write_byte_def udp_flush_full_def udp_ok_def udp_pending_def datagrams_endPacket Let_def)
qed

lemma udp_write_bytes_spec:
  "udp_ok u \<Longrightarrow>
    \<exists>full. datagrams (snd (udp_write_bytes os xs u w)) = datagrams w @ full \<and>
      (\<forall>d \<in> set full. length d = UDP_TX) \<and>
      concat full @ udp_pending (fst (udp_write_bytes os xs u w)) = udp_pending u @ xs \<and>
      (xs \<noteq> [] \<longrightarrow> udp_pending (fst (udp_write_bytes os xs u w)) \<noteq> []) \<and> udp_ok (fst (udp_write_bytes os xs u w))"
proof (induction xs arbitrary: u w)
  case (Cons x xs)
  let ?u = "fst (udp_write_byte os x u w)" let ?w = "snd (udp_write_byte os x u w)"
  from Cons.IH [OF udp_write_byte_ok [OF Cons.prems], of os x w ?w] obtain full where f:
    "datagrams (snd (udp_write_bytes os xs ?u ?w)) = datagrams ?w @ full" "\<forall>d \<in> set full. length d = UDP_TX"
    "concat full @ udp_pending (fst (udp_write_bytes os xs ?u ?w)) = udp_pending ?u @ xs"
    "xs \<noteq> [] \<longrightarrow> udp_pending (fst (udp_write_bytes os xs ?u ?w)) \<noteq> []" "udp_ok (fst (udp_write_bytes os xs ?u ?w))"
    by blast
  have eq: "udp_write_bytes os (x # xs) u w = udp_write_bytes os xs ?u ?w" by (simp add: split_beta)
  have nonempty: "udp_pending (fst (udp_write_bytes os xs ?u ?w)) \<noteq> []"
  proof (cases "xs = []")
    case True
    with udp_write_byte_spec [OF Cons.prems, of os x w] show ?thesis by (auto split: if_splits)
  qed (use f(4) in blast)
  show ?case
  proof (cases "up_tx_len u = UDP_TX")
    case True
    with udp_write_byte_spec [OF Cons.prems, of os x w] have s: "datagrams ?w = datagrams w @ [udp_pending u]" "udp_pending ?u = [x]"
      by simp_all
    have "length (udp_pending u) = UDP_TX" using True Cons.prems by (simp add: udp_pending_def udp_ok_def)
    with f s nonempty show ?thesis unfolding eq by (intro exI [of _ "udp_pending u # full"]) simp
  next
    case False
    with udp_write_byte_spec [OF Cons.prems, of os x w] have s: "datagrams ?w = datagrams w" "udp_pending ?u = udp_pending u @ [x]"
      by simp_all
    with f nonempty show ?thesis unfolding eq by (intro exI [of _ full]) simp
  qed
qed (auto simp: udp_ok_def)

text \<open>Several writes.\<close>

fun udp_write_pieces :: "lwip \<Rightarrow> u8 list list \<Rightarrow> 'b udp \<Rightarrow> 'a net_scheme \<Rightarrow> 'b udp \<times> 'a net_scheme" where
  "udp_write_pieces os [] u w = (u, w)"
| "udp_write_pieces os (xs # xss) u w = (let (u, w) = udp_write os xs u w in udp_write_pieces os xss u w)"

lemma udp_write_pieces_bytes:
  "udp_ok u \<Longrightarrow> udp_write_pieces os xss u w = udp_write_bytes os (concat xss) u w"
proof (induction xss arbitrary: u w)
  case (Cons xs xss)
  have eq: "udp_write os xs u w = udp_write_bytes os xs u w"
    using Cons.prems by (intro udp_write_eq) (simp_all add: udp_ok_def)
  have "udp_ok (fst (udp_write_bytes os xs u w))" using udp_write_bytes_spec [OF Cons.prems, of os xs w] by blast
  from Cons.IH [OF this] show ?case by (simp add: eq udp_write_bytes_append split_beta Let_def)
qed simp

text \<open>C26: What is written between \<open>beginPacket\<close> and \<open>endPacket\<close>, in any pieces, is sent as datagrams of 1460
  bytes and a last, shorter one, which together are the data in order; a datagram is cut whenever more
  than 1460 bytes are written, and only the result of the last send is reported.\<close>

theorem udp_packet_split:
  assumes "length (up_tx_buffer u) = 1460" "udp_beginPacket os u w = (True, u1, w1)"
    and "udp_write_pieces os xss u1 w1 = (u2, w2)" "udp_endPacket os u2 w2 = (ok, w3)"
  shows "\<exists>full rest. datagrams w3 = datagrams w @ full @ [rest] \<and> concat full @ rest = concat xss \<and>
    (\<forall>d \<in> set full. length d = 1460) \<and> length rest \<le> 1460 \<and> (concat xss \<noteq> [] \<longrightarrow> rest \<noteq> [])"
proof -
  have u1: "udp_ok u1" "udp_pending u1 = []" "datagrams w1 = datagrams w"
    using assms(1,2)
    by (auto simp: udp_beginPacket_def udp_ok_def udp_pending_def UDP_TX_def Let_def split_beta datagrams_sys
        split: if_splits)
  have "udp_write_bytes os (concat xss) u1 w1 = (u2, w2)"
    using assms(3) unfolding udp_write_pieces_bytes [OF u1(1)] .
  with udp_write_bytes_spec [OF u1(1), of os "concat xss" w1] u1 obtain full where f:
    "datagrams w2 = datagrams w @ full" "\<forall>d \<in> set full. length d = UDP_TX"
    "concat full @ udp_pending u2 = concat xss" "concat xss \<noteq> [] \<longrightarrow> udp_pending u2 \<noteq> []" "udp_ok u2"
    by (simp, blast)
  moreover have "datagrams w3 = datagrams w2 @ [udp_pending u2]"
    using assms(4) datagrams_endPacket [of os u2 w2] by simp
  moreover have "length (udp_pending u2) \<le> 1460" using f(5) by (simp add: udp_pending_def udp_ok_def UDP_TX_def)
  ultimately show ?thesis by (intro exI [of _ full] exI [of _ "udp_pending u2"]) (simp add: UDP_TX_def)
qed

definition demo_udp :: "unit udp" where
  "demo_udp = (WiFiUDP (replicate 1460 0))\<lparr>up_server := 3, up_remote_ip := 1, up_remote_port := 53\<rparr>"

lemma udp_packet_split_witness:
  "\<exists>u2 w2 ok w3 full rest. udp_write_pieces demo_os [[1], [2, 3]] demo_udp demo_net = (u2, w2) \<and>
     udp_endPacket demo_os u2 w2 = (ok, w3) \<and>
     datagrams w3 = datagrams demo_net @ full @ [rest] \<and> concat full @ rest = concat [[1], [2, 3]]"
proof -
  have "udp_beginPacket demo_os demo_udp demo_net = (True, demo_udp, demo_net)"
    by (simp add: udp_beginPacket_def demo_udp_def WiFiUDP_def)
  moreover have "length (up_tx_buffer demo_udp) = 1460" by (simp add: demo_udp_def WiFiUDP_def)
  moreover obtain u2 w2 where "udp_write_pieces demo_os [[1], [2, 3]] demo_udp demo_net = (u2, w2)" by fastforce
  moreover obtain ok w3 where "udp_endPacket demo_os u2 w2 = (ok, w3)" by fastforce
  ultimately show ?thesis using udp_packet_split [of demo_udp demo_os demo_net demo_udp demo_net] by blast
qed

section \<open>The descriptor\<close>

datatype udp_op =
    UBegin u32 u16
  | UMulticast u32 u16
  | UPacket u32 u16
  | UMulticastPacket
  | UHostPacket "char list" u16
  | UWrite "u8 list"
  | UWriteByte u8
  | UEnd
  | UParse
  | URead nat
  | UFlush
  | UStop

fun udp_exec :: "'b cbuf_ops \<Rightarrow> lwip \<Rightarrow> udp_op \<Rightarrow> 'b udp \<Rightarrow> 'a net_scheme \<Rightarrow> 'b udp \<times> 'a net_scheme" where
  "udp_exec cb os (UBegin ip port) u w = snd (udp_begin os ip port u w)"
| "udp_exec cb os (UMulticast ip port) u w = snd (udp_beginMulticast os ip port u w)"
| "udp_exec cb os (UPacket ip port) u w = snd (udp_beginPacket_to os ip port u w)"
| "udp_exec cb os UMulticastPacket u w = snd (udp_beginMulticastPacket os u w)"
| "udp_exec cb os (UHostPacket host port) u w = snd (udp_beginPacket_host os host port u w)"
| "udp_exec cb os (UWrite xs) u w = udp_write os xs u w"
| "udp_exec cb os (UWriteByte x) u w = udp_write_byte os x u w"
| "udp_exec cb os UEnd u w = (u, snd (udp_endPacket os u w))"
| "udp_exec cb os UParse u w = snd (udp_parsePacket cb os u w)"
| "udp_exec cb os (URead n) u w = (snd (udp_read cb n u), w)"
| "udp_exec cb os UFlush u w = (udp_flush u, w)"
| "udp_exec cb os UStop u w = udp_stop os u w"

fun udp_run :: "'b cbuf_ops \<Rightarrow> lwip \<Rightarrow> udp_op list \<Rightarrow> 'b udp \<Rightarrow> 'a net_scheme \<Rightarrow> 'b udp \<times> 'a net_scheme" where
  "udp_run cb os [] u w = (u, w)"
| "udp_run cb os (op # ops) u w = (let (u, w) = udp_exec cb os op u w in udp_run cb os ops u w)"

text \<open>\<open>udp_inv fd w\<close>: \<open>fd\<close> is the only open descriptor, if it is one.\<close>

definition udp_inv :: "int \<Rightarrow> 'a net_scheme \<Rightarrow> bool" where
  "udp_inv fd w \<longleftrightarrow>
     open_fds (nt_calls w) = (if fd = - 1 then {} else {fd}) \<and> safe_log (nt_calls w) \<and> - 1 \<le> fd"

text \<open>\<open>socket\<close> answers -1 when it fails.\<close>

definition socket_law :: "lwip \<Rightarrow> bool" where
  "socket_law os \<longleftrightarrow> fresh_fds os \<and> (\<forall>calls. - 1 \<le> an_ret (os calls Req_socket))"

abbreviation keeps_udp :: "'b udp \<times> 'a net_scheme \<Rightarrow> bool" where
  "keeps_udp r \<equiv> udp_inv (up_server (fst r)) (snd r)"

lemma udp_inv_call:
  assumes "udp_inv fd w" "quiet req" "req_fd req = None \<or> req_fd req = Some fd"
  shows "udp_inv fd (snd (sys os req w))"
  using assms by (auto simp: udp_inv_def open_fds_snoc safe_log_snoc open_after_quiet names_open_def)

lemma udp_inv_socket:
  assumes "udp_inv (- 1) w" "socket_law os"
  shows "udp_inv (an_ret (os (nt_calls w) Req_socket)) (snd (sys os Req_socket w))"
proof -
  have "- 1 \<le> an_ret (os (nt_calls w) Req_socket)" using assms(2) by (simp add: socket_law_def)
  then show ?thesis
    using assms(1) by (auto simp: udp_inv_def open_fds_snoc safe_log_snoc names_open_def)
qed

lemma udp_inv_close:
  "udp_inv fd w \<Longrightarrow> udp_inv (- 1) (snd (sys os (Req_close fd) w))"
  by (auto simp: udp_inv_def open_fds_snoc safe_log_snoc names_open_def)

lemma udp_stop_inv:
  assumes "udp_inv (up_server u) w"
  shows "udp_inv (- 1) (snd (udp_stop os u w)) \<and> up_server (fst (udp_stop os u w)) = - 1"
proof -
  let ?w = "snd (sys os (Req_setsockopt (up_server u) IP_DROP_MEMBERSHIP [uint (up_multicast_ip u), 0]) w)"
  have "udp_inv (up_server u) ?w" by (rule udp_inv_call [OF assms]) simp_all
  from udp_inv_close [OF this, of os] udp_inv_close [OF assms, of os] assms show ?thesis
    by (auto simp: udp_stop_def Let_def)
qed

lemma udp_begin_inv:
  assumes "udp_inv (up_server u) w" "socket_law os"
  shows "keeps_udp (snd (udp_begin os ip port u w))"
proof -
  define w0 where "w0 = snd (udp_stop os u w)"
  define v where "v = (fst (udp_stop os u w))\<lparr>up_server_port := port, up_tx_len := 0\<rparr>"
  define r where "r = an_ret (os (nt_calls w0) Req_socket)"
  define w1 where "w1 = snd (sys os Req_socket w0)"
  define w2 where "w2 = snd (sys os (Req_setsockopt r SO_REUSEADDR [1]) w1)"
  define w3 where "w3 = snd (sys os (Req_bind r ip port) w2)"
  have i1: "udp_inv r w1"
    unfolding r_def w1_def w0_def using udp_inv_socket [OF _ assms(2)] udp_stop_inv [OF assms(1)] by blast
  have i2: "udp_inv r w2" unfolding w2_def by (rule udp_inv_call [OF i1]) simp_all
  have i3: "udp_inv r w3" unfolding w3_def by (rule udp_inv_call [OF i2]) simp_all
  have i4: "udp_inv r (snd (sys os (Req_nonblock r True) w3))" by (rule udp_inv_call [OF i3]) simp_all
  have stop: "keeps_udp (udp_stop os (v\<lparr>up_server := r\<rparr>) w2)" "keeps_udp (udp_stop os (v\<lparr>up_server := r\<rparr>) w3)"
    using udp_stop_inv [of "v\<lparr>up_server := r\<rparr>" w2 os] udp_stop_inv [of "v\<lparr>up_server := r\<rparr>" w3 os] i2 i3 by simp_all
  have "snd (udp_begin os ip port u w) =
      (if r = - 1 then (v\<lparr>up_server := r\<rparr>, w1)
       else if an_ret (os (nt_calls w1) (Req_setsockopt r SO_REUSEADDR [1])) < 0 then udp_stop os (v\<lparr>up_server := r\<rparr>) w2
       else if an_ret (os (nt_calls w2) (Req_bind r ip port)) = - 1 then udp_stop os (v\<lparr>up_server := r\<rparr>) w3
       else (v\<lparr>up_server := r\<rparr>, snd (sys os (Req_nonblock r True) w3)))"
    by (simp add: udp_begin_def v_def w0_def r_def w1_def w2_def w3_def Let_def split_beta)
  with i1 i4 stop show ?thesis by auto
qed

lemma udp_beginPacket_inv:
  assumes "udp_inv (up_server u) w" "socket_law os"
  shows "keeps_udp (snd (udp_beginPacket os u w))"
proof (cases "up_remote_port u = 0 \<or> up_server u \<noteq> - 1")
  case True
  then show ?thesis using assms(1) by (auto simp: udp_beginPacket_def)
next
  case False
  define r where "r = an_ret (os (nt_calls w) Req_socket)"
  define w1 where "w1 = snd (sys os Req_socket w)"
  have i1: "udp_inv r w1" unfolding r_def w1_def using udp_inv_socket [OF _ assms(2)] assms(1) False by simp
  have i2: "udp_inv r (snd (sys os (Req_nonblock r True) w1))" by (rule udp_inv_call [OF i1]) simp_all
  have "snd (udp_beginPacket os u w) =
      (if r = - 1 then (u\<lparr>up_tx_len := 0, up_server := r\<rparr>, w1)
       else (u\<lparr>up_tx_len := 0, up_server := r\<rparr>, snd (sys os (Req_nonblock r True) w1)))"
    using False by (simp add: udp_beginPacket_def r_def w1_def Let_def split_beta)
  with i1 i2 show ?thesis by auto
qed

lemma udp_endPacket_inv: "udp_inv (up_server u) w \<Longrightarrow> udp_inv (up_server u) (snd (udp_endPacket os u w))"
  by (simp add: udp_endPacket_def split_beta udp_inv_call)

lemma udp_write_byte_inv:
  assumes "udp_inv (up_server u) w"
  shows "udp_inv (up_server u) (snd (udp_write_byte os x u w)) \<and> up_server (fst (udp_write_byte os x u w)) = up_server u"
  using assms udp_endPacket_inv [OF assms, of os] by (simp add: udp_write_byte_def udp_flush_full_def Let_def)

lemma udp_write_inv: "udp_inv (up_server u) w \<Longrightarrow> keeps_udp (udp_write os xs u w)"
proof (induction os xs u w rule: udp_write.induct)
  case (1 os xs u w)
  show ?case
  proof (cases "xs = []")
    case True
    with 1(2) show ?thesis by (simp add: udp_write.simps)
  next
    case False
    define v where "v = (if UDP_TX - up_tx_len u = 0 then fst (udp_flush_full os u w) else u)"
    define w' where "w' = (if UDP_TX - up_tx_len u = 0 then snd (udp_flush_full os u w) else w)"
    define chunk where "chunk = min (length xs) (UDP_TX - up_tx_len v)"
    have "up_server v = up_server u" by (simp add: v_def udp_flush_full_def)
    moreover have "udp_inv (up_server u) w'"
      using 1(2) udp_endPacket_inv [OF 1(2), of os] by (simp add: w'_def udp_flush_full_def)
    moreover have "udp_write os xs u w = udp_write os (drop chunk xs)
        (v\<lparr>up_tx_buffer := memcpy_to (up_tx_buffer v) (up_tx_len v) (take chunk xs), up_tx_len := up_tx_len v + chunk\<rparr>) w'"
      using False by (subst udp_write.simps) (simp add: v_def w'_def chunk_def Let_def)
    ultimately show ?thesis using 1(1) [OF False v_def w'_def chunk_def] by simp
  qed
qed

lemma udp_parsePacket_inv:
  assumes "udp_inv (up_server u) w"
  shows "keeps_udp (snd (udp_parsePacket cb os u w))"
proof -
  let ?w = "snd (sys os (Req_recvfrom (up_server u) UDP_TX) w)"
  have i1: "udp_inv (up_server u) ?w" by (rule udp_inv_call [OF assms]) simp_all
  have "up_server (fst (snd (udp_parsePacket cb os u w))) = up_server u \<and>
      (snd (snd (udp_parsePacket cb os u w)) = w \<or> snd (snd (udp_parsePacket cb os u w)) = ?w)"
    by (auto simp: udp_parsePacket_def Let_def split_beta split: option.splits)
  with assms i1 show ?thesis by auto
qed

lemma udp_exec_inv:
  assumes "udp_inv (up_server u) w" "socket_law os"
  shows "keeps_udp (udp_exec cb os op u w)"
proof (cases op)
  case (UMulticast ip port)
  define b where "b = udp_begin os 0 port u w"
  define u1 where "u1 = fst (snd b)"
  define w1 where "w1 = snd (snd b)"
  define w2 where "w2 = snd (sys os (Req_setsockopt (up_server u1) IP_ADD_MEMBERSHIP [uint ip, 0]) w1)"
  have i: "udp_inv (up_server u1) w1" unfolding u1_def w1_def b_def by (rule udp_begin_inv [OF assms])
  have i1: "udp_inv (up_server u1) w2" unfolding w2_def by (rule udp_inv_call [OF i]) simp_all
  have "snd (udp_beginMulticast os ip port u w) =
      (if \<not> fst b \<or> ip = 0 then (u1, w1)
       else if an_ret (os (nt_calls w1) (Req_setsockopt (up_server u1) IP_ADD_MEMBERSHIP [uint ip, 0])) < 0
       then udp_stop os u1 w2 else (u1\<lparr>up_multicast_ip := ip\<rparr>, w2))"
    by (simp add: udp_beginMulticast_def b_def u1_def w1_def w2_def Let_def split_beta)
  with i i1 udp_stop_inv [OF i1, of os] UMulticast show ?thesis by simp
next
  case (UPacket ip port)
  with udp_beginPacket_inv [OF _ assms(2), of "u\<lparr>up_remote_ip := ip, up_remote_port := port\<rparr>" w] assms(1)
  show ?thesis by (simp add: udp_beginPacket_to_def)
next
  case UMulticastPacket
  with udp_beginPacket_inv [OF _ assms(2), of "u\<lparr>up_remote_ip := up_multicast_ip u, up_remote_port := up_server_port u\<rparr>" w]
    assms(1) show ?thesis by (simp add: udp_beginMulticastPacket_def)
next
  case (UHostPacket host port)
  let ?w = "snd (sys os (Req_dns host) w)"
  have i: "udp_inv (up_server u) ?w" by (rule udp_inv_call [OF assms(1)]) simp_all
  with udp_beginPacket_inv [OF _ assms(2), of "u\<lparr>up_remote_ip := an_ip (os (nt_calls w) (Req_dns host)), up_remote_port := port\<rparr>" ?w]
    UHostPacket show ?thesis by (simp add: udp_beginPacket_host_def udp_beginPacket_to_def split_beta)
next
  case (URead n)
  with assms(1) show ?thesis by (auto simp: udp_read_def udp_put_rx_def split_beta split: option.splits)
next
  case (UWriteByte x)
  with udp_write_byte_inv [OF assms(1)] show ?thesis by simp
next
  case UStop
  with udp_stop_inv [OF assms(1), of os] show ?thesis by simp
qed (use assms udp_begin_inv udp_write_inv udp_endPacket_inv udp_parsePacket_inv in \<open>auto simp: udp_flush_def\<close>)

lemma udp_run_inv: "socket_law os \<Longrightarrow> udp_inv (up_server u) w \<Longrightarrow> keeps_udp (udp_run cb os ops u w)"
proof (induction ops arbitrary: u w)
  case (Cons op ops)
  from Cons.IH [OF Cons.prems(1) udp_exec_inv [OF Cons.prems(2,1)]] show ?case by (simp add: split_beta)
qed simp

text \<open>C23: Whatever sequence of operations a UDP object goes through, and whatever fails on the way, it has at
  most one socket, no call names a closed descriptor, and no descriptor is lost: the open descriptors
  are exactly the one the object holds.\<close>

theorem udp_descriptor:
  assumes "socket_law os" "udp_run cb os ops (WiFiUDP mem) \<lparr>nt_calls = [], nt_errno = e\<rparr> = (u, w)"
  shows "open_fds (nt_calls w) = (if up_server u = - 1 then {} else {up_server u}) \<and> safe_log (nt_calls w)"
proof -
  have "udp_inv (up_server (WiFiUDP mem)) \<lparr>nt_calls = [], nt_errno = e\<rparr>"
    by (simp add: udp_inv_def WiFiUDP_def)
  from udp_run_inv [OF assms(1) this, of cb ops] assms(2) show ?thesis by (simp add: udp_inv_def)
qed

lemma demo_socket_law: "socket_law demo_os"
proof -
  have "3 \<le> new_fd calls" for calls
    by (induction calls rule: rev_induct) (simp_all add: new_fd_def)
  then have "- 1 \<le> new_fd calls" for calls by (rule order_trans [rotated]) simp
  with demo_fresh show ?thesis by (simp add: socket_law_def answer_def)
qed

section \<open>Receiving a packet\<close>

text \<open>What the code relies on of \<open>cbuf\<close>: \<open>content\<close> are the bytes a buffer holds.\<close>

definition cbuf_law :: "'b cbuf_ops \<Rightarrow> ('b \<Rightarrow> u8 list) \<Rightarrow> bool" where
  "cbuf_law cb content \<longleftrightarrow>
     (\<forall>b xs. cb_new cb (length xs) = Some b \<or> length xs < cb_size cb b \<longrightarrow>
        fst (cb_write cb xs (cb_flush cb b)) = length xs \<and> content (snd (cb_write cb xs (cb_flush cb b))) = xs) \<and>
     (\<forall>b. cb_available cb b = length (content b)) \<and>
     (\<forall>n b. fst (cb_read cb n b) = take n (content b) \<and> content (snd (cb_read cb n b)) = drop n (content b))"

definition udp_content :: "('b \<Rightarrow> u8 list) \<Rightarrow> 'b udp \<Rightarrow> u8 list" where
  "udp_content content u = (case up_rx u of None \<Rightarrow> [] | Some b \<Rightarrow> content b)"

fun udp_reads :: "'b cbuf_ops \<Rightarrow> nat list \<Rightarrow> 'b udp \<Rightarrow> u8 list \<times> 'b udp" where
  "udp_reads cb [] u = ([], u)"
| "udp_reads cb (n # ns) u = (let (xs, u) = udp_read cb n u; (ys, u) = udp_reads cb ns u in (xs @ ys, u))"

lemma udp_read_spec:
  assumes "cbuf_law cb content"
  shows "fst (udp_read cb n u) = take n (udp_content content u) \<and>
    udp_content content (snd (udp_read cb n u)) = drop n (udp_content content u)"
proof -
  have "udp_content content (udp_put_rx cb b u) = content b" for b
    using assms by (simp add: udp_content_def udp_put_rx_def cbuf_law_def)
  moreover have "fst (cb_read cb n b) = take n (content b)" "content (snd (cb_read cb n b)) = drop n (content b)" for b
    using assms by (simp_all add: cbuf_law_def)
  ultimately show ?thesis by (cases "up_rx u") (simp_all add: udp_read_def udp_content_def [of content u] split_beta udp_content_def)
qed

lemma udp_reads_spec:
  assumes "cbuf_law cb content"
  shows "fst (udp_reads cb ns u) = take (sum_list ns) (udp_content content u) \<and>
    udp_content content (snd (udp_reads cb ns u)) = drop (sum_list ns) (udp_content content u)"
proof (induction ns arbitrary: u)
  case (Cons n ns)
  with udp_read_spec [OF assms, of n u] show ?case by (simp add: split_beta take_add add.commute)
qed simp

text \<open>A received datagram is read completely and in order: after \<open>parsePacket\<close> has returned its length,
  reads of any sizes return its bytes one after the other, and as long as bytes are left \<open>parsePacket\<close>
  returns 0 without a call of the stack, so that no later datagram replaces them.\<close>

theorem udp_packet_reads:
  assumes "cbuf_law cb content" "udp_parsePacket cb os u w = (n, u1, w1)" "0 < n"
    and "a = os (nt_calls w) (Req_recvfrom (up_server u) 1460)" "an_ret a = int (length (an_bytes a))"
    and "udp_reads cb ns u1 = (out, u2)"
  shows "n = int (length (an_bytes a)) \<and> out = take (sum_list ns) (an_bytes a) \<and>
    (sum_list ns < length (an_bytes a) \<longrightarrow> udp_parsePacket cb os u2 w1 = (0, u2, w1))"
proof -
  let ?len = "length (an_bytes a)"
  define buf where "buf = (case up_rx u of Some b \<Rightarrow> if cb_size cb b < ?len + 1 then cb_new cb ?len else Some b
    | None \<Rightarrow> cb_new cb ?len)"
  from assms(2,3) have idle: "\<not> (case up_rx u of None \<Rightarrow> False | Some b \<Rightarrow> cb_available cb b \<noteq> 0)"
    by (auto simp: udp_parsePacket_def)
  from assms(2-5) idle have pos: "\<not> an_ret a \<le> 0"
    by (auto simp: udp_parsePacket_def UDP_TX_def Let_def split_beta split: if_splits)
  let ?w = "snd (sys os (Req_recvfrom (up_server u) 1460) w)"
  have shape: "udp_parsePacket cb os u w =
      (case buf of None \<Rightarrow> (0, u\<lparr>up_remote_ip := an_ip a, up_remote_port := an_port a, up_rx := None\<rparr>, ?w)
       | Some b \<Rightarrow> (if fst (cb_write cb (an_bytes a) (cb_flush cb b)) \<noteq> ?len then 0 else int ?len,
           u\<lparr>up_remote_ip := an_ip a, up_remote_port := an_port a,
             up_rx := Some (snd (cb_write cb (an_bytes a) (cb_flush cb b)))\<rparr>, ?w))"
    using idle pos unfolding udp_parsePacket_def buf_def UDP_TX_def
    by (cases "up_rx u") (simp_all add: Let_def split_beta assms(4) [symmetric] assms(5) split: option.split)
  then obtain b where b: "buf = Some b" "u1 = u\<lparr>up_remote_ip := an_ip a, up_remote_port := an_port a,
      up_rx := Some (snd (cb_write cb (an_bytes a) (cb_flush cb b)))\<rparr>" "n = int ?len"
    using assms(2,3) by (cases buf) (auto split: if_splits)
  have "cb_new cb ?len = Some b \<or> ?len < cb_size cb b"
    using b(1) by (auto simp: buf_def split: option.splits if_splits)
  then have content: "udp_content content u1 = an_bytes a"
    using assms(1) unfolding cbuf_law_def b(2) udp_content_def by (simp, blast)
  with udp_reads_spec [OF assms(1), of ns u1] assms(6)
  have out: "out = take (sum_list ns) (an_bytes a)" "udp_content content u2 = drop (sum_list ns) (an_bytes a)" by simp_all
  have "udp_parsePacket cb os u2 w1 = (0, u2, w1)" if "sum_list ns < ?len"
  proof -
    have "udp_content content u2 \<noteq> []" using out(2) that by simp
    then obtain c where "up_rx u2 = Some c" "content c \<noteq> []" by (auto simp: udp_content_def split: option.splits)
    moreover from this(2) have "cb_available cb c \<noteq> 0" using assms(1) by (simp add: cbuf_law_def)
    ultimately show ?thesis by (simp add: udp_parsePacket_def)
  qed
  with b(3) out(1) show ?thesis by simp
qed

text \<open>A concrete \<open>cbuf\<close>: a list with a capacity; and a stack on which a datagram of three bytes is waiting.\<close>

definition list_cbuf :: "(nat \<times> u8 list) cbuf_ops" where
  "list_cbuf =
     \<lparr>cb_new = (\<lambda>n. Some (n + 1, [])), cb_available = (\<lambda>b. length (snd b)), cb_size = fst,
      cb_flush = (\<lambda>b. (fst b, [])),
      cb_write = (\<lambda>xs b. (length (take (fst b - 1 - length (snd b)) xs), (fst b, snd b @ take (fst b - 1 - length (snd b)) xs))),
      cb_read = (\<lambda>n b. (take n (snd b), (fst b, drop n (snd b)))),
      cb_read_byte = (\<lambda>b. (case snd b of [] \<Rightarrow> - 1 | x # xs \<Rightarrow> uint x, (fst b, tl (snd b)))),
      cb_peek = (\<lambda>b. case snd b of [] \<Rightarrow> - 1 | x # xs \<Rightarrow> uint x)\<rparr>"

lemma list_cbuf_law: "cbuf_law list_cbuf snd"
  by (auto simp: cbuf_law_def list_cbuf_def)

fun datagram_os :: lwip where
  "datagram_os calls (Req_recvfrom fd n) = answer 3 [7, 8, 9] calls"
| "datagram_os calls req = demo_os calls req"

definition list_udp :: "(nat \<times> u8 list) udp" where
  "list_udp = (WiFiUDP (replicate 1460 0))\<lparr>up_server := 3\<rparr>"

lemma udp_packet_reads_witness:
  "\<exists>u1 w1 out u2. udp_parsePacket list_cbuf datagram_os list_udp demo_net = (3, u1, w1) \<and>
     udp_reads list_cbuf [1, 1] u1 = (out, u2) \<and> out = [7, 8] \<and>
     udp_parsePacket list_cbuf datagram_os u2 w1 = (0, u2, w1)"
proof -
  obtain u1 w1 where p: "udp_parsePacket list_cbuf datagram_os list_udp demo_net = (3, u1, w1)"
    by (simp add: udp_parsePacket_def list_udp_def WiFiUDP_def list_cbuf_def demo_net_def sys_def answer_def Let_def)
  obtain out u2 where r: "udp_reads list_cbuf [1, 1] u1 = (out, u2)" by fastforce
  from udp_packet_reads [OF list_cbuf_law p _ refl _ r] p r show ?thesis
    by (simp add: list_udp_def WiFiUDP_def demo_net_def answer_def)
qed

lemma udp_descriptor_witness:
  "\<exists>u w. udp_run list_cbuf demo_os [UBegin 0 80, UStop, UPacket 1 53, UWrite [1], UEnd] (WiFiUDP []) \<lparr>nt_calls = [], nt_errno = EAGAIN\<rparr> = (u, w) \<and>
     open_fds (nt_calls w) = (if up_server u = - 1 then {} else {up_server u}) \<and> safe_log (nt_calls w)"
proof -
  obtain u w where r: "udp_run list_cbuf demo_os [UBegin 0 80, UStop, UPacket 1 53, UWrite [1], UEnd] (WiFiUDP []) \<lparr>nt_calls = [], nt_errno = EAGAIN\<rparr> = (u, w)"
    by fastforce
  from udp_descriptor [OF demo_socket_law r] r show ?thesis by blast
qed

end
