(* ===== verification/Fast_Function.thy ===== *)
theory Fast_Function
  imports Small_Vector
begin

text \<open>
  \<open>FastFunction\<close> (\<open>include/Optimization/FastFunction/\<close>): a callable object that keeps its functor in a small
  vector of \<open>std::max_align_t\<close>, with a pointer to the code that runs it and a table with its destructor and
  copy constructor, null for a functor that needs neither. A functor is described by its type, the slots it
  takes, whether it is trivially managed, whether it contains a pointer into itself (as every object that
  captured a \<open>SmallVector\<close> or another \<open>FastFunction\<close> does), and its value. The bytes of an object remember the address
  at which it was constructed. The number of functors that are alive and have a destructor is counted.
\<close>

section \<open>Objects in storage\<close>

record 'v closure =
  fo_type :: nat
  fo_slots :: nat
  fo_triv :: bool
  fo_self :: bool
  fo_value :: 'v

datatype 'v slot = Object "'v closure" nat | Bytes

record 'v fastfn =
  ff_at :: nat
  ff_invoker :: "nat option"
  ff_vtable :: bool
  ff_storage :: "'v slot arr"

text \<open>\<open>std::max_align_t\<close> is trivially managed.\<close>

definition max_align :: elem_traits where "max_align = \<lparr>triv_copy = True, triv_destroy = True\<rparr>"

text \<open>The slots for an object or a capacity of \<open>n\<close> bytes, when a slot has \<open>a\<close> bytes.\<close>

definition slots_for :: "nat \<Rightarrow> nat \<Rightarrow> nat" where "slots_for a n = (n + a - 1) div a"

definition ff_empty :: "nat \<Rightarrow> nat \<Rightarrow> 'v fastfn" where
  "ff_empty N at = \<lparr>ff_at = at, ff_invoker = None, ff_vtable = False, ff_storage = SmallVector N\<rparr>"

text \<open>Constructing an object at the start of the storage, which must have room for it.\<close>

definition place :: "'v closure \<Rightarrow> nat \<Rightarrow> 'v slot arr \<Rightarrow> 'v slot arr option" where
  "place g at a =
     (if fo_slots g \<le> arr_capacity a
      then Some (a\<lparr>arr_data := memcpy_to (arr_data a) 0 (Some (Object g at) # replicate (fo_slots g - 1) (Some Bytes))\<rparr>)
      else None)"

section \<open>Operations\<close>

text \<open>The constructor from a functor sets the size without reserving; \<open>None\<close> is a write beyond the storage.\<close>

definition ff_make :: "nat \<Rightarrow> nat \<Rightarrow> 'v closure \<Rightarrow> int \<Rightarrow> ('v fastfn \<times> int) option" where
  "ff_make N at g alive =
     (let storage = (SmallVector N)\<lparr>arr_size := fo_slots g\<rparr> in
      case place g at storage of
        None \<Rightarrow> None
      | Some storage \<Rightarrow>
          let alive = (if fo_triv g then alive else alive + 1)
          in Some (\<lparr>ff_at = at, ff_invoker = Some (fo_type g), ff_vtable = \<not> fo_triv g, ff_storage = storage\<rparr>, alive))"

text \<open>The destructor of the functor; \<open>None\<close> is a destructor call on bytes that are no object.\<close>

definition ff_clear :: "'v fastfn \<Rightarrow> int \<Rightarrow> ('v fastfn \<times> int) option" where
  "ff_clear f alive =
     (if ff_invoker f = None then Some (f, alive)
      else if ff_vtable f
      then (case sv_index (ff_storage f) 0 of
              Some (Object g at) \<Rightarrow>
                Some (f\<lparr>ff_vtable := False, ff_invoker := None,
                        ff_storage := (ff_storage f)\<lparr>arr_data := (arr_data (ff_storage f))[0 := None]\<rparr>\<rparr>, alive - 1)
            | _ \<Rightarrow> None)
      else Some (f\<lparr>ff_invoker := None\<rparr>, alive))"

text \<open>The copy of the functor into the storage: by its copy constructor, or as bytes. \<open>ok\<close> is whether an
  allocation succeeds.\<close>

definition ff_copy_functor :: "bool \<Rightarrow> 'v fastfn \<Rightarrow> 'v fastfn \<Rightarrow> int \<Rightarrow> ('v fastfn \<times> int) option" where
  "ff_copy_functor ok other f alive =
     (let storage = sv_reserve max_align ok (arr_size (ff_storage other)) (ff_storage f);
          storage = storage\<lparr>arr_size := arr_size (ff_storage other)\<rparr>
      in if ff_vtable f
         then (case sv_index (ff_storage other) 0 of
                 Some (Object g _) \<Rightarrow> map_option (\<lambda>s. (f\<lparr>ff_storage := s\<rparr>, alive + 1)) (place g (ff_at f) storage)
               | _ \<Rightarrow> None)
         else Some (f\<lparr>ff_storage := storage\<lparr>arr_data :=
                memcpy_to (arr_data storage) 0 (take (arr_size (ff_storage other)) (arr_data (ff_storage other)))\<rparr>\<rparr>, alive))"

definition ff_copy :: "nat \<Rightarrow> bool \<Rightarrow> nat \<Rightarrow> 'v fastfn \<Rightarrow> int \<Rightarrow> ('v fastfn \<times> int) option" where
  "ff_copy N ok at other alive =
     (let f = \<lparr>ff_at = at, ff_invoker = ff_invoker other, ff_vtable = ff_vtable other, ff_storage = SmallVector N\<rparr>
      in if ff_invoker other \<noteq> None then ff_copy_functor ok other f alive else Some (f, alive))"

definition ff_move :: "nat \<Rightarrow> nat \<Rightarrow> 'v fastfn \<Rightarrow> 'v fastfn \<times> 'v fastfn" where
  "ff_move N at other =
     (let (storage, rest) = sv_move_assign max_align N False (SmallVector N) (ff_storage other)
      in (\<lparr>ff_at = at, ff_invoker = ff_invoker other, ff_vtable = ff_vtable other, ff_storage = storage\<rparr>,
          other\<lparr>ff_storage := rest, ff_invoker := None, ff_vtable := False\<rparr>))"

text \<open>The assignments; \<open>same\<close> is whether the operands are one object.\<close>

definition ff_copy_assign :: "bool \<Rightarrow> bool \<Rightarrow> 'v fastfn \<Rightarrow> 'v fastfn \<Rightarrow> int \<Rightarrow> ('v fastfn \<times> int) option" where
  "ff_copy_assign ok same this other alive =
     (if same then Some (this, alive)
      else case ff_clear this alive of
        None \<Rightarrow> None
      | Some (this, alive) \<Rightarrow>
          let this = this\<lparr>ff_invoker := ff_invoker other, ff_vtable := ff_vtable other\<rparr>
          in if ff_invoker other \<noteq> None then ff_copy_functor ok other this alive else Some (this, alive))"

definition ff_move_assign :: "nat \<Rightarrow> bool \<Rightarrow> 'v fastfn \<Rightarrow> 'v fastfn \<Rightarrow> int \<Rightarrow> ('v fastfn \<times> 'v fastfn \<times> int) option" where
  "ff_move_assign N same this other alive =
     (if same then Some (this, other, alive)
      else case ff_clear this alive of
        None \<Rightarrow> None
      | Some (this, alive) \<Rightarrow>
          let (storage, rest) = sv_move_assign max_align N False (ff_storage this) (ff_storage other)
          in Some (this\<lparr>ff_invoker := ff_invoker other, ff_vtable := ff_vtable other, ff_storage := storage\<rparr>,
                   other\<lparr>ff_storage := rest, ff_invoker := None, ff_vtable := False\<rparr>, alive))"

definition ff_bool :: "'v fastfn \<Rightarrow> bool" where "ff_bool f \<longleftrightarrow> ff_invoker f \<noteq> None"

text \<open>The call: the code of the invoker runs on the storage. \<open>run\<close> is that code, on the value of the functor. \<open>None\<close> is a
  call through a null pointer, or code that follows a pointer of the functor to another place than
  the functor.\<close>

definition ff_invoke :: "(nat \<Rightarrow> 'v \<Rightarrow> 'r \<times> 'v) \<Rightarrow> 'v fastfn \<Rightarrow> ('r \<times> 'v fastfn) option" where
  "ff_invoke run f =
     (case ff_invoker f of
        None \<Rightarrow> None
      | Some ty \<Rightarrow>
          (case sv_index (ff_storage f) 0 of
             Some (Object g at) \<Rightarrow>
               if fo_self g \<and> at \<noteq> ff_at f then None
               else let (r, v) = run ty (fo_value g)
                    in Some (r, f\<lparr>ff_storage := (ff_storage f)\<lparr>arr_data :=
                         (arr_data (ff_storage f))[0 := Some (Object (g\<lparr>fo_value := v\<rparr>) at)]\<rparr>\<rparr>)
           | _ \<Rightarrow> None))"

section \<open>A function object holds a functor or nothing\<close>

text \<open>\<open>ff_rep N f v\<close>: the object \<open>f\<close> holds \<open>v\<close>; functors that contain pointers into themselves are excluded.\<close>

definition ff_rep :: "nat \<Rightarrow> 'v fastfn \<Rightarrow> 'v closure option \<Rightarrow> bool" where
  "ff_rep N f v \<longleftrightarrow>
     arr_capacity (ff_storage f) = N \<and> length (arr_data (ff_storage f)) = N \<and>
     \<not> arr_is_heap (ff_storage f) \<and> \<not> arr_fixed (ff_storage f) \<and> arr_size (ff_storage f) \<le> N \<and>
     (case v of
        None \<Rightarrow> ff_invoker f = None \<and> \<not> ff_vtable f
      | Some g \<Rightarrow>
          0 < fo_slots g \<and> fo_slots g \<le> N \<and> \<not> fo_self g \<and> ff_invoker f = Some (fo_type g) \<and>
          ff_vtable f = (\<not> fo_triv g) \<and> arr_size (ff_storage f) = fo_slots g \<and>
          (\<exists>a. arr_data (ff_storage f) ! 0 = Some (Object g a)))"

text \<open>Whether a destructor call is due.\<close>

definition due :: "'v closure option \<Rightarrow> int" where
  "due v = (case v of None \<Rightarrow> 0 | Some g \<Rightarrow> if fo_triv g then 0 else 1)"

lemma rep_empty: "ff_rep N (ff_empty N at) None"
  by (simp add: ff_rep_def ff_empty_def SmallVector_def ArrayBase_def)

lemma rep_make:
  assumes "0 < fo_slots g" "fo_slots g \<le> N" "\<not> fo_self g"
  shows "\<exists>f. ff_make N at g alive = Some (f, alive + due (Some g)) \<and> ff_rep N f (Some g)"
  using assms
  by (simp add: ff_make_def place_def SmallVector_def ArrayBase_def due_def ff_rep_def memcpy_to_def)

lemma rep_clear:
  assumes "ff_rep N f v"
  shows "\<exists>f'. ff_clear f alive = Some (f', alive - due v) \<and> ff_rep N f' None"
proof (cases v)
  case None
  with assms show ?thesis by (simp add: ff_rep_def ff_clear_def due_def)
next
  case (Some g)
  with assms obtain a where "arr_data (ff_storage f) ! 0 = Some (Object g a)" "0 < N" by (auto simp: ff_rep_def)
  with assms Some show ?thesis by (simp add: ff_rep_def ff_clear_def due_def sv_index_def)
qed

lemma rep_copy_functor:
  assumes "ff_rep N other (Some g)" "ff_rep N f None"
  shows "\<exists>f'. ff_copy_functor ok other (f\<lparr>ff_invoker := ff_invoker other, ff_vtable := ff_vtable other\<rparr>) alive =
      Some (f', alive + due (Some g)) \<and> ff_rep N f' (Some g)"
proof -
  obtain a where a: "arr_data (ff_storage other) ! 0 = Some (Object g a)" "0 < N" using assms(1) by (auto simp: ff_rep_def)
  have r: "sv_reserve max_align ok (arr_size (ff_storage other)) (ff_storage f) = ff_storage f"
    using assms by (simp add: sv_reserve_def max_align_def reserve_pod_def ff_rep_def)
  show ?thesis
  proof (cases "fo_triv g")
    case True
    have "0 < fo_slots g" "arr_data (ff_storage other) \<noteq> []" using assms(1) by (auto simp: ff_rep_def)
    with True assms a r show ?thesis
      by (simp add: ff_copy_functor_def ff_rep_def due_def memcpy_to_def nth_append Let_def)
  next
    case False
    with assms a r show ?thesis
      by (simp add: ff_copy_functor_def ff_rep_def due_def place_def memcpy_to_def sv_index_def Let_def)
  qed
qed

lemma rep_copy:
  assumes "ff_rep N other v"
  shows "\<exists>f'. ff_copy N ok at other alive = Some (f', alive + due v) \<and> ff_rep N f' v"
proof (cases v)
  case None
  with assms show ?thesis by (simp add: ff_copy_def ff_rep_def due_def SmallVector_def ArrayBase_def)
next
  case (Some g)
  from rep_copy_functor [OF assms [unfolded Some] rep_empty [of N at], of ok alive] assms Some show ?thesis
    by (simp add: ff_copy_def ff_empty_def ff_rep_def)
qed

lemma rep_move_storage:
  assumes "ff_rep N other v" "ff_rep N f None"
    and "sv_move_assign max_align N False (ff_storage f) (ff_storage other) = (s, rest)"
  shows "ff_rep N (f\<lparr>ff_invoker := ff_invoker other, ff_vtable := ff_vtable other, ff_storage := s\<rparr>) v"
    and "ff_rep N (other\<lparr>ff_storage := rest, ff_invoker := None, ff_vtable := False\<rparr>) None"
proof -
  have "s = (ff_storage f)\<lparr>arr_capacity := N, arr_size := arr_size (ff_storage other), arr_is_heap := False,
      arr_data := take (arr_size (ff_storage other)) (arr_data (ff_storage other)) @
        replicate (N - arr_size (ff_storage other)) None\<rparr>"
    and r: "rest = (ff_storage other)\<lparr>arr_size := 0\<rparr>"
    using assms
    by (auto simp: sv_move_assign_def sv_clear_def sv_moved_from_def max_align_def ff_rep_def copy_elems_def memcpy_to_def
        destroy_slots_def Let_def)
  then show "ff_rep N (f\<lparr>ff_invoker := ff_invoker other, ff_vtable := ff_vtable other, ff_storage := s\<rparr>) v"
    using assms(1,2) by (cases v) (auto simp: ff_rep_def nth_append)
  show "ff_rep N (other\<lparr>ff_storage := rest, ff_invoker := None, ff_vtable := False\<rparr>) None"
    using assms(1) by (simp add: r ff_rep_def)
qed

lemma rep_move:
  assumes "ff_rep N other v"
  shows "ff_rep N (fst (ff_move N at other)) v" "ff_rep N (snd (ff_move N at other)) None"
proof -
  obtain s rest where m: "sv_move_assign max_align N False (SmallVector N) (ff_storage other) = (s, rest)" by fastforce
  from rep_move_storage [OF assms rep_empty [of N at]] m
  show "ff_rep N (fst (ff_move N at other)) v" "ff_rep N (snd (ff_move N at other)) None"
    by (simp_all add: ff_move_def ff_empty_def)
qed

lemma rep_copy_assign:
  assumes "ff_rep N this u" "ff_rep N other v"
  shows "\<exists>f'. ff_copy_assign ok False this other alive = Some (f', alive - due u + due v) \<and> ff_rep N f' v"
proof -
  from rep_clear [OF assms(1), of alive] obtain f where f: "ff_clear this alive = Some (f, alive - due u)" "ff_rep N f None" by blast
  show ?thesis
  proof (cases v)
    case None
    with assms(2) f show ?thesis by (simp add: ff_copy_assign_def ff_rep_def due_def)
  next
    case (Some g)
    from rep_copy_functor [OF assms(2) [unfolded Some] f(2), of ok "alive - due u"] f(1) assms(2) Some show ?thesis
      by (simp add: ff_copy_assign_def ff_rep_def Let_def)
  qed
qed

lemma rep_move_assign:
  assumes "ff_rep N this u" "ff_rep N other v"
  shows "\<exists>f' o'. ff_move_assign N False this other alive = Some (f', o', alive - due u) \<and> ff_rep N f' v \<and> ff_rep N o' None"
proof -
  from rep_clear [OF assms(1), of alive] obtain f where f: "ff_clear this alive = Some (f, alive - due u)" "ff_rep N f None" by blast
  obtain s rest where m: "sv_move_assign max_align N False (ff_storage f) (ff_storage other) = (s, rest)" by fastforce
  from rep_move_storage [OF assms(2) f(2) m] f(1) m show ?thesis by (simp add: ff_move_assign_def)
qed

lemma rep_invoke:
  assumes "ff_rep N f (Some g)" "run (fo_type g) (fo_value g) = (r, x)"
  shows "\<exists>f'. ff_invoke run f = Some (r, f') \<and> ff_rep N f' (Some (g\<lparr>fo_value := x\<rparr>))"
proof -
  obtain a where "arr_data (ff_storage f) ! 0 = Some (Object g a)" "0 < N" using assms(1) by (auto simp: ff_rep_def)
  with assms show ?thesis by (simp add: ff_invoke_def ff_rep_def sv_index_def)
qed

section \<open>Programs over function objects\<close>

text \<open>Objects are named by their addresses. An object that does not exist is \<open>None\<close>; operations on such objects are
  not steps of a program and do nothing, and callers test \<open>operator bool\<close> before a call.\<close>

datatype 'v ff_op =
    F_new nat
  | F_make nat "'v closure"
  | F_copy nat nat
  | F_move nat nat
  | F_copy_assign nat nat
  | F_move_assign nat nat
  | F_clear nat
  | F_destroy nat
  | F_invoke nat

record ('v, 'r) ff_state =
  fs_objects :: "nat \<Rightarrow> 'v fastfn option"
  fs_alive :: int
  fs_results :: "'r list"

abbreviation put_object :: "nat \<Rightarrow> 'v fastfn option \<Rightarrow> int \<Rightarrow> ('v, 'r) ff_state \<Rightarrow> ('v, 'r) ff_state" where
  "put_object x f alive st \<equiv> st\<lparr>fs_objects := (fs_objects st)(x := f), fs_alive := alive\<rparr>"

fun ff_exec :: "nat \<Rightarrow> (nat \<Rightarrow> 'v \<Rightarrow> 'r \<times> 'v) \<Rightarrow> 'v ff_op \<Rightarrow> ('v, 'r) ff_state \<Rightarrow> ('v, 'r) ff_state option" where
  "ff_exec N run (F_new x) st =
     (if fs_objects st x = None then Some (put_object x (Some (ff_empty N x)) (fs_alive st) st) else Some st)"
| "ff_exec N run (F_make x g) st =
     (if fs_objects st x = None
      then map_option (\<lambda>(f, alive). put_object x (Some f) alive st) (ff_make N x g (fs_alive st)) else Some st)"
| "ff_exec N run (F_copy x y) st =
     (case (fs_objects st x, fs_objects st y) of
        (None, Some other) \<Rightarrow>
          map_option (\<lambda>(f, alive). put_object x (Some f) alive st) (ff_copy N True x other (fs_alive st))
      | _ \<Rightarrow> Some st)"
| "ff_exec N run (F_move x y) st =
     (case (fs_objects st x, fs_objects st y) of
        (None, Some other) \<Rightarrow>
          let (f, other) = ff_move N x other
          in Some (put_object x (Some f) (fs_alive st) (put_object y (Some other) (fs_alive st) st))
      | _ \<Rightarrow> Some st)"
| "ff_exec N run (F_copy_assign x y) st =
     (case (fs_objects st x, fs_objects st y) of
        (Some this, Some other) \<Rightarrow>
          map_option (\<lambda>(f, alive). put_object x (Some f) alive st) (ff_copy_assign True (x = y) this other (fs_alive st))
      | _ \<Rightarrow> Some st)"
| "ff_exec N run (F_move_assign x y) st =
     (case (fs_objects st x, fs_objects st y) of
        (Some this, Some other) \<Rightarrow>
          map_option (\<lambda>(f, other, alive). put_object x (Some f) alive (put_object y (Some other) alive st))
            (ff_move_assign N (x = y) this other (fs_alive st))
      | _ \<Rightarrow> Some st)"
| "ff_exec N run (F_clear x) st =
     (case fs_objects st x of
        None \<Rightarrow> Some st
      | Some f \<Rightarrow> map_option (\<lambda>(f, alive). put_object x (Some f) alive st) (ff_clear f (fs_alive st)))"
| "ff_exec N run (F_destroy x) st =
     (case fs_objects st x of
        None \<Rightarrow> Some st
      | Some f \<Rightarrow> map_option (\<lambda>(f, alive). put_object x None alive st) (ff_clear f (fs_alive st)))"
| "ff_exec N run (F_invoke x) st =
     (case fs_objects st x of
        None \<Rightarrow> Some st
      | Some f \<Rightarrow>
          if ff_bool f
          then map_option (\<lambda>(r, f). (put_object x (Some f) (fs_alive st) st)\<lparr>fs_results := fs_results st @ [r]\<rparr>)
                 (ff_invoke run f)
          else Some st)"

fun ff_run :: "nat \<Rightarrow> (nat \<Rightarrow> 'v \<Rightarrow> 'r \<times> 'v) \<Rightarrow> 'v ff_op list \<Rightarrow> ('v, 'r) ff_state \<Rightarrow> ('v, 'r) ff_state option" where
  "ff_run N run [] st = Some st"
| "ff_run N run (op # ops) st = (case ff_exec N run op st of None \<Rightarrow> None | Some st \<Rightarrow> ff_run N run ops st)"

text \<open>The specification: an object is an optional functor; copying copies it, moving takes it away.\<close>

type_synonym ('v, 'r) ff_abstract = "(nat \<Rightarrow> 'v closure option option) \<times> 'r list"

fun abs_exec :: "(nat \<Rightarrow> 'v \<Rightarrow> 'r \<times> 'v) \<Rightarrow> 'v ff_op \<Rightarrow> ('v, 'r) ff_abstract \<Rightarrow> ('v, 'r) ff_abstract" where
  "abs_exec run (F_new x) (m, out) = (if m x = None then m(x \<mapsto> None) else m, out)"
| "abs_exec run (F_make x g) (m, out) = (if m x = None then m(x \<mapsto> Some g) else m, out)"
| "abs_exec run (F_copy x y) (m, out) = (if m x = None \<and> m y \<noteq> None then m(x := m y) else m, out)"
| "abs_exec run (F_move x y) (m, out) = (if m x = None \<and> m y \<noteq> None then m(y \<mapsto> None, x := m y) else m, out)"
| "abs_exec run (F_copy_assign x y) (m, out) = (if m x \<noteq> None \<and> m y \<noteq> None then m(x := m y) else m, out)"
| "abs_exec run (F_move_assign x y) (m, out) =
     (if m x \<noteq> None \<and> m y \<noteq> None \<and> x \<noteq> y then m(y \<mapsto> None, x := m y) else m, out)"
| "abs_exec run (F_clear x) (m, out) = (if m x \<noteq> None then m(x \<mapsto> None) else m, out)"
| "abs_exec run (F_destroy x) (m, out) = (m(x := None), out)"
| "abs_exec run (F_invoke x) (m, out) =
     (case m x of
        Some (Some g) \<Rightarrow> let (r, v) = run (fo_type g) (fo_value g) in (m(x \<mapsto> Some (g\<lparr>fo_value := v\<rparr>)), out @ [r])
      | _ \<Rightarrow> (m, out))"

definition abs_run :: "(nat \<Rightarrow> 'v \<Rightarrow> 'r \<times> 'v) \<Rightarrow> 'v ff_op list \<Rightarrow> ('v, 'r) ff_abstract" where
  "abs_run run ops = fold (abs_exec run) ops (\<lambda>_. None, [])"

section \<open>Simulation\<close>

text \<open>The objects whose functor has a destructor that is due.\<close>

definition due_at :: "(nat \<Rightarrow> 'v closure option option) \<Rightarrow> nat set" where
  "due_at m = {x. \<exists>g. m x = Some (Some g) \<and> \<not> fo_triv g}"

definition due_opt :: "'v closure option option \<Rightarrow> int" where
  "due_opt v = (case v of None \<Rightarrow> 0 | Some v \<Rightarrow> due v)"

definition obj_rel :: "nat \<Rightarrow> 'v fastfn option \<Rightarrow> 'v closure option option \<Rightarrow> bool" where
  "obj_rel N f v \<longleftrightarrow> (case (f, v) of (None, None) \<Rightarrow> True | (Some f, Some v) \<Rightarrow> ff_rep N f v | _ \<Rightarrow> False)"

definition ff_sim :: "nat \<Rightarrow> ('v, 'r) ff_state \<Rightarrow> ('v, 'r) ff_abstract \<Rightarrow> bool" where
  "ff_sim N st a \<longleftrightarrow>
     (\<forall>x. obj_rel N (fs_objects st x) (fst a x)) \<and> finite (due_at (fst a)) \<and>
     fs_alive st = int (card (due_at (fst a))) \<and> fs_results st = snd a"

lemma due_at_upd: "due_at (m(x := v)) = (if due_opt v = 1 then insert x (due_at m) else due_at m - {x})"
  by (auto simp: due_at_def due_opt_def due_def split: option.splits if_splits)

lemma due_at_mem: "x \<in> due_at m \<longleftrightarrow> due_opt (m x) = 1"
  by (auto simp: due_at_def due_opt_def due_def split: option.splits if_splits)

lemma due_01: "due_opt v = 0 \<or> due_opt v = 1"
  by (auto simp: due_opt_def due_def split: option.splits)

lemma finite_due_upd: "finite (due_at m) \<Longrightarrow> finite (due_at (m(x := v)))"
  by (simp add: due_at_upd)

lemma card_due_upd:
  assumes "finite (due_at m)"
  shows "int (card (due_at (m(x := v)))) = int (card (due_at m)) - due_opt (m x) + due_opt v"
proof (cases "x \<in> due_at m")
  case True
  then have "0 < card (due_at m)" using assms card_gt_0_iff by blast
  with True assms due_01 [of v] show ?thesis
    by (auto simp: due_at_upd due_at_mem insert_absorb card_Diff_singleton)
next
  case False
  then have "due_opt (m x) = 0" using due_01 [of "m x"] by (simp add: due_at_mem)
  with False assms due_01 [of v] show ?thesis by (auto simp: due_at_upd)
qed

lemma sim_upd:
  assumes "ff_sim N st (m, out)" "obj_rel N f v" "alive = fs_alive st - due_opt (m x) + due_opt v"
  shows "ff_sim N (put_object x f alive st) (m(x := v), out)"
  using assms card_due_upd [of m x v] finite_due_upd [of m x v] by (simp add: ff_sim_def)

lemma obj_rel_simps [simp]:
  "obj_rel N None v \<longleftrightarrow> v = None" "obj_rel N (Some f) (Some u) \<longleftrightarrow> ff_rep N f u" "obj_rel N h None \<longleftrightarrow> h = None"
  by (auto simp: obj_rel_def split: option.splits)

lemma simE:
  assumes "ff_sim N st (m, out)"
  obtains "fs_objects st x = None" "m x = None"
  | f v where "fs_objects st x = Some f" "m x = Some v" "ff_rep N f v"
  using assms by (auto simp: ff_sim_def obj_rel_def split: option.splits dest!: spec [of _ x])

definition fits :: "nat \<Rightarrow> 'v ff_op \<Rightarrow> bool" where
  "fits N op \<longleftrightarrow> (case op of F_make x g \<Rightarrow> 0 < fo_slots g \<and> fo_slots g \<le> N \<and> \<not> fo_self g | _ \<Rightarrow> True)"

lemma due_opt_simps [simp]: "due_opt None = 0" "due_opt (Some v) = due v" "due None = 0"
  by (simp_all add: due_opt_def due_def)

lemma due_value [simp]: "due (Some (g\<lparr>fo_value := v\<rparr>)) = due (Some g)"
  by (simp add: due_def)

lemma ff_exec_sim:
  assumes "ff_sim N st (m, out)" "fits N op"
  shows "\<exists>st'. ff_exec N run op st = Some st' \<and> ff_sim N st' (abs_exec run op (m, out))"
proof (cases op)
  case (F_new x)
  show ?thesis
    by (rule simE [OF assms(1), of x])
      (use assms(1) sim_upd [OF assms(1), of "Some (ff_empty N x)" "Some None" "fs_alive st" x] rep_empty [of N x] in \<open>simp_all add: F_new\<close>)
next
  case (F_make x g)
  with assms(2) rep_make [of g N x "fs_alive st"] obtain f where
    f: "ff_make N x g (fs_alive st) = Some (f, fs_alive st + due (Some g))" "ff_rep N f (Some g)" by (auto simp: fits_def)
  show ?thesis
    by (rule simE [OF assms(1), of x])
      (use assms(1) sim_upd [OF assms(1), of "Some f" "Some (Some g)" _ x] f in \<open>simp_all add: F_make\<close>)
next
  case (F_copy x y)
  show ?thesis
  proof (rule simE [OF assms(1), of x]; rule simE [OF assms(1), of y])
    fix other v
    assume a: "fs_objects st x = None" "m x = None" "fs_objects st y = Some other" "m y = Some v" "ff_rep N other v"
    from rep_copy [OF a(5), of True x "fs_alive st"] obtain f where
      "ff_copy N True x other (fs_alive st) = Some (f, fs_alive st + due v)" "ff_rep N f v" by blast
    with a sim_upd [OF assms(1), of "Some f" "Some v" _ x] show ?thesis by (simp add: F_copy)
  qed (use assms(1) in \<open>simp_all add: F_copy\<close>)
next
  case (F_move x y)
  show ?thesis
  proof (rule simE [OF assms(1), of x]; rule simE [OF assms(1), of y])
    fix other v
    assume a: "fs_objects st x = None" "m x = None" "fs_objects st y = Some other" "m y = Some v" "ff_rep N other v"
    obtain f o' where f: "ff_move N x other = (f, o')" by fastforce
    note r = rep_move [OF a(5), of x, unfolded f fst_conv snd_conv]
    have xy: "x \<noteq> y" using a by auto
    have "ff_sim N (put_object x (Some f) (fs_alive st) (put_object y (Some o') (fs_alive st - due v) st)) (m(y \<mapsto> None, x \<mapsto> v), out)"
      using a r xy by (intro sim_upd assms(1)) simp_all
    with a f show ?thesis by (simp add: F_move)
  qed (use assms(1) in \<open>simp_all add: F_move\<close>)
next
  case (F_copy_assign x y)
  show ?thesis
  proof (rule simE [OF assms(1), of x]; rule simE [OF assms(1), of y])
    fix this u other v
    assume a: "fs_objects st x = Some this" "m x = Some u" "ff_rep N this u"
      "fs_objects st y = Some other" "m y = Some v" "ff_rep N other v"
    show ?thesis
    proof (cases "x = y")
      case True
      with a assms(1) show ?thesis by (simp add: F_copy_assign ff_copy_assign_def fun_upd_idem)
    next
      case False
      from rep_copy_assign [OF a(3,6), of True "fs_alive st"] obtain f where
        "ff_copy_assign True False this other (fs_alive st) = Some (f, fs_alive st - due u + due v)" "ff_rep N f v" by blast
      with a False sim_upd [OF assms(1), of "Some f" "Some v" _ x] show ?thesis by (simp add: F_copy_assign)
    qed
  qed (use assms(1) in \<open>simp_all add: F_copy_assign\<close>)
next
  case (F_move_assign x y)
  show ?thesis
  proof (rule simE [OF assms(1), of x]; rule simE [OF assms(1), of y])
    fix this u other v
    assume a: "fs_objects st x = Some this" "m x = Some u" "ff_rep N this u"
      "fs_objects st y = Some other" "m y = Some v" "ff_rep N other v"
    show ?thesis
    proof (cases "x = y")
      case True
      with a assms(1) show ?thesis by (simp add: F_move_assign ff_move_assign_def fun_upd_idem)
    next
      case False
      from rep_move_assign [OF a(3,6), of "fs_alive st"] obtain f o' where
        f: "ff_move_assign N False this other (fs_alive st) = Some (f, o', fs_alive st - due u)" "ff_rep N f v" "ff_rep N o' None" by blast
      have "ff_sim N (put_object x (Some f) (fs_alive st - due u) (put_object y (Some o') (fs_alive st - due v) st))
          (m(y \<mapsto> None, x \<mapsto> v), out)"
        using a f False by (intro sim_upd assms(1)) simp_all
      with a f False show ?thesis by (simp add: F_move_assign)
    qed
  qed (use assms(1) in \<open>simp_all add: F_move_assign\<close>)
next
  case (F_clear x)
  show ?thesis
  proof (rule simE [OF assms(1), of x])
    fix f v
    assume a: "fs_objects st x = Some f" "m x = Some v" "ff_rep N f v"
    from rep_clear [OF a(3), of "fs_alive st"] obtain f' where "ff_clear f (fs_alive st) = Some (f', fs_alive st - due v)" "ff_rep N f' None" by blast
    with a sim_upd [OF assms(1), of "Some f'" "Some None" _ x] show ?thesis by (simp add: F_clear)
  qed (use assms(1) in \<open>simp add: F_clear\<close>)
next
  case (F_destroy x)
  show ?thesis
  proof (rule simE [OF assms(1), of x])
    fix f v
    assume a: "fs_objects st x = Some f" "m x = Some v" "ff_rep N f v"
    from rep_clear [OF a(3), of "fs_alive st"] obtain f' where "ff_clear f (fs_alive st) = Some (f', fs_alive st - due v)" "ff_rep N f' None" by blast
    with a sim_upd [OF assms(1), of None None _ x] show ?thesis by (simp add: F_destroy)
  qed (use assms(1) in \<open>simp add: F_destroy fun_upd_idem\<close>)
next
  case (F_invoke x)
  show ?thesis
  proof (rule simE [OF assms(1), of x])
    fix f v
    assume a: "fs_objects st x = Some f" "m x = Some v" "ff_rep N f v"
    show ?thesis
    proof (cases v)
      case None
      with a assms(1) show ?thesis by (simp add: F_invoke ff_bool_def ff_rep_def)
    next
      case (Some g)
      obtain r z where run: "run (fo_type g) (fo_value g) = (r, z)" by fastforce
      from rep_invoke [OF a(3) [unfolded Some], of run r z] run obtain f' where
        f': "ff_invoke run f = Some (r, f')" "ff_rep N f' (Some (g\<lparr>fo_value := z\<rparr>))" by blast
      have "ff_bool f" using a(3) Some by (simp add: ff_bool_def ff_rep_def)
      with a f' run Some sim_upd [OF assms(1), of "Some f'" "Some (Some (g\<lparr>fo_value := z\<rparr>))" "fs_alive st" x] show ?thesis
        by (simp add: F_invoke ff_sim_def)
    qed
  qed (use assms(1) in \<open>simp add: F_invoke\<close>)
qed

lemma ff_run_sim:
  "ff_sim N st a \<Longrightarrow> (\<And>op. op \<in> set ops \<Longrightarrow> fits N op) \<Longrightarrow>
   \<exists>st'. ff_run N run ops st = Some st' \<and> ff_sim N st' (fold (abs_exec run) ops a)"
proof (induction ops arbitrary: st a)
  case (Cons op ops)
  from ff_exec_sim [of N st "fst a" "snd a" op run] Cons.prems obtain st1 where
    "ff_exec N run op st = Some st1" "ff_sim N st1 (abs_exec run op a)" by auto
  with Cons.IH [of st1 "abs_exec run op a"] Cons.prems(2) show ?case by simp
qed simp

definition ff_start :: "('v, 'r) ff_state" where
  "ff_start = \<lparr>fs_objects = (\<lambda>_. None), fs_alive = 0, fs_results = []\<rparr>"

text \<open>C19: Function objects are optional functors: in any program of constructions, copies, moves, assignments, clears,
  destructions and (guarded) calls, over functors that fit into the storage and do not point into
  themselves, no step goes wrong, every call computes what the specification computes, an object
  is callable exactly when the specification says so, and the functors with a destructor that are alive are those the objects
  hold: each is destroyed exactly once.\<close>

theorem fast_function_refines_option:
  assumes "\<And>x g. F_make x g \<in> set ops \<Longrightarrow> 0 < fo_slots g \<and> fo_slots g \<le> N \<and> \<not> fo_self g"
    and "abs_run run ops = (m, out)"
  shows "\<exists>st. ff_run N run ops ff_start = Some st \<and> fs_results st = out \<and>
    (\<forall>x. fs_objects st x = None \<longleftrightarrow> m x = None) \<and>
    (\<forall>x f. fs_objects st x = Some f \<longrightarrow> (ff_bool f \<longleftrightarrow> (\<exists>g. m x = Some (Some g)))) \<and>
    fs_alive st = int (card {x. \<exists>g. m x = Some (Some g) \<and> \<not> fo_triv g})"
proof -
  have "ff_sim N ff_start (\<lambda>_. None, [])" by (simp add: ff_sim_def ff_start_def due_at_def)
  moreover have "fits N op" if "op \<in> set ops" for op
    using assms(1) that by (auto simp: fits_def split: ff_op.split)
  ultimately obtain st where st: "ff_run N run ops ff_start = Some st" "ff_sim N st (m, out)"
    using ff_run_sim [of N ff_start "(\<lambda>_. None, [])" ops run] assms(2) by (auto simp: abs_run_def)
  have "fs_objects st x = None \<longleftrightarrow> m x = None" for x by (rule simE [OF st(2), of x]) simp_all
  moreover have "ff_bool f \<longleftrightarrow> (\<exists>g. m x = Some (Some g))" if "fs_objects st x = Some f" for x f
    by (rule simE [OF st(2), of x]) (use that in \<open>auto simp: ff_bool_def ff_rep_def split: option.splits\<close>)
  ultimately show ?thesis using st by (auto simp: ff_sim_def due_at_def)
qed

definition counter :: "nat closure" where
  "counter = \<lparr>fo_type = 0, fo_slots = 2, fo_triv = False, fo_self = False, fo_value = 5\<rparr>"

lemma fast_function_refines_option_witness:
  "\<exists>st. ff_run 4 (\<lambda>_ v. (v, v + 1)) [F_make 0 counter, F_move 1 0, F_invoke 1, F_invoke 1, F_invoke 0] ff_start = Some st \<and>
     fs_results st = [5, 6] \<and> fs_alive st = 1"
proof -
  let ?ops = "[F_make 0 counter, F_move 1 0, F_invoke 1, F_invoke 1, F_invoke 0]"
  have a: "abs_run (\<lambda>_ v. (v, v + 1)) ?ops = ([0 \<mapsto> None, 1 \<mapsto> Some (counter\<lparr>fo_value := 7\<rparr>)], [5, 6])"
    by (auto simp: abs_run_def counter_def fun_eq_iff)
  have "{x. \<exists>g. [0 \<mapsto> None, 1 \<mapsto> Some (counter\<lparr>fo_value := 7\<rparr>)] x = Some (Some g) \<and> \<not> fo_triv g} = {1 :: nat}"
    by (auto simp: counter_def split: if_splits)
  moreover have "0 < fo_slots g \<and> fo_slots g \<le> 4 \<and> \<not> fo_self g" if "F_make x g \<in> set ?ops" for x g
    using that by (auto simp: counter_def)
  ultimately show ?thesis using fast_function_refines_option [of ?ops 4, OF _ a] by fastforce
qed

section \<open>What does not fit and what does not move\<close>

lemma make_overflow: "N < fo_slots g \<Longrightarrow> ff_make N at g alive = None"
  by (simp add: ff_make_def place_def SmallVector_def ArrayBase_def)

text \<open>C37: The constructor does not check the size of the functor. A function of a capacity of \<open>cap\<close> bytes that is
  built from a functor which captured two functions of that capacity, as the callbacks of \<open>Future::and_then\<close>,
  \<open>all\<close> and \<open>race\<close> do, writes beyond its storage, and so does every larger functor.\<close>

theorem captured_functions_overflow:
  assumes "0 < a" "0 < cap" "N = slots_for a cap" "2 * (N * a) \<le> n" "fo_slots g = slots_for a n"
  shows "ff_make N at g alive = None"
proof (rule make_overflow)
  have "0 < N" using assms(1-3) by (simp add: slots_for_def div_greater_zero_iff)
  have "2 * N = (2 * (N * a)) div a" using assms(1) by (simp add: mult.assoc [symmetric])
  also have "\<dots> \<le> slots_for a n" unfolding slots_for_def using assms(1,4) by (intro div_le_mono) simp
  finally show "N < fo_slots g" using \<open>0 < N\<close> assms(5) by simp
qed

lemma captured_functions_overflow_witness:
  "ff_make (slots_for 8 64) 0 (counter\<lparr>fo_slots := slots_for 8 128\<rparr>) 0 = None"
  using captured_functions_overflow [of 8 64 "slots_for 8 64" 128 "counter\<lparr>fo_slots := slots_for 8 128\<rparr>" 0 0]
  by (simp add: slots_for_def)

text \<open>Moving copies the bytes of the functor. One that points into itself, as every functor does that captured
  another \<open>FastFunction\<close> (the callback of a future) by value, works in the object it was
  constructed in; the object it is moved to follows the old pointer, whether it was built or assigned.\<close>

theorem moved_functor_dangles:
  assumes "0 < fo_slots g" "fo_slots g \<le> N" "fo_self g" "at \<noteq> at'"
    and "ff_make N at g alive = Some (f, alive')"
  shows "ff_invoke run f \<noteq> None \<and> ff_invoke run (fst (ff_move N at' f)) = None \<and>
    (\<forall>f' h alive''. ff_move_assign N False (ff_empty N at') f alive' = Some (f', h, alive'') \<longrightarrow>
      ff_bool f' \<and> ff_invoke run f' = None)"
proof -
  have f: "ff_at f = at" "ff_invoker f = Some (fo_type g)" "arr_size (ff_storage f) = fo_slots g" "arr_capacity (ff_storage f) = N"
    "\<not> arr_is_heap (ff_storage f)" "length (arr_data (ff_storage f)) = N" "arr_data (ff_storage f) ! 0 = Some (Object g at)"
    using assms(1,2,5) by (auto simp: ff_make_def place_def SmallVector_def ArrayBase_def memcpy_to_def split: if_splits)
  have "0 < N" using assms(1,2) by simp
  have s: "fst (sv_move_assign max_align N False (SmallVector N) (ff_storage f)) = (SmallVector N)\<lparr>arr_size := fo_slots g,
      arr_data := take (fo_slots g) (arr_data (ff_storage f)) @ replicate (N - fo_slots g) None\<rparr>"
    using f assms(2) by (simp add: sv_move_assign_def sv_clear_def max_align_def copy_elems_def memcpy_to_def destroy_slots_def
        SmallVector_def ArrayBase_def Let_def)
  have at: "(take (fo_slots g) (arr_data (ff_storage f)) @ replicate (N - fo_slots g) None) ! 0 = Some (Object g at)"
    using f assms(1,2) by (simp add: nth_append)
  have "ff_invoke run f \<noteq> None" using f \<open>0 < N\<close> by (simp add: ff_invoke_def sv_index_def split_beta Let_def)
  moreover have "ff_invoke run (fst (ff_move N at' f)) = None"
    using f at \<open>0 < N\<close> assms(3,4) s
    by (simp add: ff_move_def ff_invoke_def sv_index_def split_beta SmallVector_def ArrayBase_def)
  moreover have "ff_bool this \<and> ff_invoke run this = None"
    if "ff_move_assign N False (ff_empty N at') f alive' = Some (this, h, alive'')" for this h alive''
  proof -
    from that have "this = (ff_empty N at')\<lparr>ff_invoker := ff_invoker f, ff_vtable := ff_vtable f,
        ff_storage := fst (sv_move_assign max_align N False (SmallVector N) (ff_storage f))\<rparr>"
      by (simp add: ff_move_assign_def ff_clear_def ff_empty_def split_beta Let_def)
    from this [unfolded s] show ?thesis using f at \<open>0 < N\<close> assms(3,4)
      by (simp add: ff_bool_def ff_invoke_def sv_index_def ff_empty_def SmallVector_def ArrayBase_def)
  qed
  ultimately show ?thesis by blast
qed

lemma moved_functor_dangles_witness:
  "ff_invoke (\<lambda>_ v. (v, v)) (fst (ff_move 4 8 (fst (the (ff_make 4 0 (counter\<lparr>fo_self := True\<rparr>) 0))))) = None"
proof -
  have "ff_make 4 0 (counter\<lparr>fo_self := True\<rparr>) 0 =
      Some (fst (the (ff_make 4 0 (counter\<lparr>fo_self := True\<rparr>) 0)), snd (the (ff_make 4 0 (counter\<lparr>fo_self := True\<rparr>) 0)))"
    by (simp add: ff_make_def place_def SmallVector_def ArrayBase_def counter_def)
  from moved_functor_dangles [OF _ _ _ _ this, of 8 "\<lambda>_ v. (v, v)"] show ?thesis by (simp add: counter_def)
qed

end
