(* ===== verification/Static_Function.thy ===== *)
theory Static_Function
  imports Prelude
begin

text \<open>
  \<open>StaticFunction\<close> (\<open>include/Optimization/StaticFunction.h\<close>): a pointer to code and a context pointer that the code
  receives. Code is a function of the context, the arguments and the world, which is what memory holds and the
  code may change; \<open>None\<close> is an access through a null pointer. An address of an object, or of a
  function in \<open>makeStaticFunction\<close>, is a number; null is \<open>None\<close>.
\<close>

type_synonym ('a, 'w, 'r) code = "nat option \<Rightarrow> 'a \<Rightarrow> 'w \<Rightarrow> ('r \<times> 'w) option"

record ('a, 'w, 'r) static_fn =
  fn_func :: "('a, 'w, 'r) code option"
  fn_context :: "nat option"

definition fn_empty :: "('a, 'w, 'r) static_fn" where
  "fn_empty = \<lparr>fn_func = None, fn_context = None\<rparr>"

definition fn_make :: "('a, 'w, 'r) code option \<Rightarrow> nat option \<Rightarrow> ('a, 'w, 'r) static_fn" where
  "fn_make f ctx = \<lparr>fn_func = f, fn_context = ctx\<rparr>"

text \<open>The code that \<open>bind\<close> and \<open>bindMember\<close> give the function: \<open>run\<close> calls the functor, or the member function, of the
  object at an address.\<close>

definition object_code :: "(nat \<Rightarrow> 'a \<Rightarrow> 'w \<Rightarrow> 'r \<times> 'w) \<Rightarrow> ('a, 'w, 'r) code" where
  "object_code run ctx args w = (case ctx of None \<Rightarrow> None | Some p \<Rightarrow> Some (run p args w))"

definition fn_bind :: "(nat \<Rightarrow> 'a \<Rightarrow> 'w \<Rightarrow> 'r \<times> 'w) \<Rightarrow> nat option \<Rightarrow> ('a, 'w, 'r) static_fn" where
  "fn_bind run object = fn_make (Some (object_code run)) object"

definition fn_bindMember :: "(nat \<Rightarrow> 'a \<Rightarrow> 'w \<Rightarrow> 'r \<times> 'w) \<Rightarrow> nat option \<Rightarrow> ('a, 'w, 'r) static_fn" where
  "fn_bindMember run instance = fn_make (Some (object_code run)) instance"

definition makeStaticFunction :: "(nat \<Rightarrow> 'a \<Rightarrow> 'w \<Rightarrow> 'r \<times> 'w) \<Rightarrow> nat option \<Rightarrow> ('a, 'w, 'r) static_fn" where
  "makeStaticFunction run func =
     fn_make (Some (\<lambda>ctx args w. case ctx of None \<Rightarrow> None | Some fn \<Rightarrow> Some (run fn args w))) func"

definition fn_call :: "'r \<Rightarrow> ('a, 'w, 'r) static_fn \<Rightarrow> 'a \<Rightarrow> 'w \<Rightarrow> ('r \<times> 'w) option" where
  "fn_call dflt f args w = (case fn_func f of Some g \<Rightarrow> g (fn_context f) args w | None \<Rightarrow> Some (dflt, w))"

definition fn_valid :: "('a, 'w, 'r) static_fn \<Rightarrow> bool" where "fn_valid f \<longleftrightarrow> fn_func f \<noteq> None"

definition fn_reset :: "('a, 'w, 'r) static_fn \<Rightarrow> ('a, 'w, 'r) static_fn" where
  "fn_reset f = f\<lparr>fn_func := None, fn_context := None\<rparr>"

text \<open>A function that is not valid may be called: it does nothing. The validity check says nothing about the bound
  object: a function made from a null pointer is valid, and its call goes through that pointer.\<close>

lemma fn_call_invalid: "\<not> fn_valid f \<Longrightarrow> fn_call dflt f args w = Some (dflt, w)"
  by (auto simp: fn_valid_def fn_call_def)

lemma fn_call_bound:
  "fn_call dflt (fn_bind run (Some p)) args w = Some (run p args w)"
  "fn_call dflt (fn_bindMember run (Some p)) args w = Some (run p args w)"
  "fn_call dflt (makeStaticFunction run (Some p)) args w = Some (run p args w)"
  by (simp_all add: fn_call_def fn_bind_def fn_bindMember_def makeStaticFunction_def fn_make_def object_code_def)

lemma fn_null_valid:
  "f = fn_bind run None \<or> f = fn_bindMember run None \<or> f = makeStaticFunction run None \<Longrightarrow>
     fn_valid f \<and> fn_call dflt f args w = None"
  by (auto simp: fn_valid_def fn_call_def fn_bind_def fn_bindMember_def makeStaticFunction_def fn_make_def object_code_def)

lemma fn_reset_empty: "fn_reset f = fn_empty \<and> \<not> fn_valid (fn_reset f)"
  by (cases f) (simp add: fn_reset_def fn_empty_def fn_valid_def)

end
