(* ===== verification/String_Hash_Map.thy ===== *)
theory String_Hash_Map
  imports Static_Hash_Map
begin

text \<open>
  The specialisation of \<open>StaticHashMap\<close> for string keys (\<open>StaticHashMapStringDecl.h\<close>, \<open>StaticHashMapStringImpl.h\<close>):
  the entries themselves are probed linearly, an entry holds the hash of its key and not the key. A null key is
  \<open>None\<close>, a character is its code (\<open>char\<close> is unsigned on the target). Slots are natural numbers: \<open>MaxSize\<close> fits
  \<open>uint16_t\<close>. A probe that is out of fuel, and an access beyond the entries, is \<open>None\<close>.
\<close>

section \<open>State and hash\<close>

record 'v sentry =
  se_hash :: u32
  se_value :: 'v
  se_occupied :: bool

record 'v smap =
  sm_entries :: "'v sentry list"
  sm_count :: nat

definition sm_hashString :: "string option \<Rightarrow> u32" where
  "sm_hashString s = (case s of None \<Rightarrow> 0 | Some s \<Rightarrow> fold (\<lambda>c h. push_bit 5 h + h + of_char c) s 5381)"

section \<open>Probing\<close>

fun sm_findIndex_loop :: "nat \<Rightarrow> 'v sentry list \<Rightarrow> u32 \<Rightarrow> nat \<Rightarrow> nat \<Rightarrow> nat option" where
  "sm_findIndex_loop 0 es h start idx = None"
| "sm_findIndex_loop (Suc fuel) es h start idx =
     (if \<not> se_occupied (es ! idx) then Some (length es)
      else if se_hash (es ! idx) = h then Some idx
      else let idx = (idx + 1) mod length es
           in if idx \<noteq> start then sm_findIndex_loop fuel es h start idx else Some (length es))"

definition sm_findIndex :: "u32 \<Rightarrow> 'v smap \<Rightarrow> nat option" where
  "sm_findIndex h m =
     (let es = sm_entries m; idx = unat h mod length es in sm_findIndex_loop (length es) es h idx idx)"

fun sm_findSlot_loop :: "nat \<Rightarrow> 'v sentry list \<Rightarrow> u32 \<Rightarrow> nat \<Rightarrow> nat \<Rightarrow> nat option" where
  "sm_findSlot_loop 0 es h start idx = None"
| "sm_findSlot_loop (Suc fuel) es h start idx =
     (if \<not> se_occupied (es ! idx) \<or> se_hash (es ! idx) = h then Some idx
      else let idx = (idx + 1) mod length es
           in if idx \<noteq> start then sm_findSlot_loop fuel es h start idx else Some (length es))"

definition sm_findSlot :: "u32 \<Rightarrow> 'v smap \<Rightarrow> nat option" where
  "sm_findSlot h m =
     (let es = sm_entries m; idx = unat h mod length es in sm_findSlot_loop (length es) es h idx idx)"

section \<open>Operations\<close>

definition sm_clear :: "'v smap \<Rightarrow> 'v smap" where
  "sm_clear m = m\<lparr>sm_entries := map (\<lambda>e. e\<lparr>se_occupied := False\<rparr>) (sm_entries m), sm_count := 0\<rparr>"

definition sm_new :: "'v \<Rightarrow> nat \<Rightarrow> 'v smap" where
  "sm_new dflt MaxSize =
     sm_clear \<lparr>sm_entries = replicate MaxSize \<lparr>se_hash = 0, se_value = dflt, se_occupied = False\<rparr>, sm_count = 0\<rparr>"

definition sm_size :: "'v smap \<Rightarrow> nat" where "sm_size m = sm_count m"
definition sm_empty :: "'v smap \<Rightarrow> bool" where "sm_empty m \<longleftrightarrow> sm_count m = 0"

definition sm_insert :: "string option \<Rightarrow> 'v \<Rightarrow> 'v smap \<Rightarrow> (bool \<times> 'v smap) option" where
  "sm_insert key v m =
     (let h = sm_hashString key in
      case sm_findSlot h m of
        None \<Rightarrow> None
      | Some idx \<Rightarrow>
          if idx = length (sm_entries m) then Some (False, m)
          else let m = (if \<not> se_occupied (sm_entries m ! idx) then m\<lparr>sm_count := sm_count m + 1\<rparr> else m)
               in Some (True, m\<lparr>sm_entries := (sm_entries m)[idx := \<lparr>se_hash = h, se_value = v, se_occupied = True\<rparr>]\<rparr>))"

text \<open>The result is the value behind the pointer, or \<open>None\<close> for the null pointer.\<close>

definition sm_find :: "string option \<Rightarrow> 'v smap \<Rightarrow> 'v option" where
  "sm_find key m =
     (case sm_findIndex (sm_hashString key) m of
        None \<Rightarrow> None
      | Some idx \<Rightarrow> if idx \<noteq> length (sm_entries m) then Some (se_value (sm_entries m ! idx)) else None)"

definition sm_contains :: "string option \<Rightarrow> 'v smap \<Rightarrow> bool" where
  "sm_contains key m \<longleftrightarrow> sm_findIndex (sm_hashString key) m \<noteq> Some (length (sm_entries m))"

definition sm_erase :: "string option \<Rightarrow> 'v smap \<Rightarrow> (bool \<times> 'v smap) option" where
  "sm_erase key m =
     (case sm_findIndex (sm_hashString key) m of
        None \<Rightarrow> None
      | Some idx \<Rightarrow>
          if idx = length (sm_entries m) then Some (False, m)
          else Some (True, m\<lparr>sm_entries := (sm_entries m)[idx := (sm_entries m ! idx)\<lparr>se_occupied := False\<rparr>],
                             sm_count := sm_count m - 1\<rparr>))"

text \<open>\<open>operator[]\<close> returns a reference: the index of the entry. In a full table it accesses the entry after the
  last.\<close>

definition sm_subscript :: "string option \<Rightarrow> 'v smap \<Rightarrow> (nat \<times> 'v smap) option" where
  "sm_subscript key m =
     (let h = sm_hashString key in
      case sm_findSlot h m of
        None \<Rightarrow> None
      | Some idx \<Rightarrow>
          if length (sm_entries m) \<le> idx then None
          else if \<not> se_occupied (sm_entries m ! idx)
          then Some (idx, m\<lparr>sm_entries := (sm_entries m)[idx := (sm_entries m ! idx)\<lparr>se_hash := h, se_occupied := True\<rparr>],
                            sm_count := sm_count m + 1\<rparr>)
          else Some (idx, m))"

section \<open>Where a probe ends\<close>

text \<open>The \<open>t\<close>-th slot of the probe for a hash, and the first slot at which \<open>stop\<close> holds.\<close>

definition nth_slot :: "nat \<Rightarrow> u32 \<Rightarrow> nat \<Rightarrow> nat" where
  "nth_slot M h t = (unat h mod M + t) mod M"

lemma nth_slot_less: "0 < M \<Longrightarrow> nth_slot M h t < M" by (simp add: nth_slot_def)

lemma nth_slot_inj: "s < M \<Longrightarrow> t < M \<Longrightarrow> nth_slot M h s = nth_slot M h t \<Longrightarrow> s = t"
  unfolding nth_slot_def by (metis cdist_add mod_less_divisor less_nat_zero_code not_gr_zero)

lemma nth_slot_step: "s < M \<Longrightarrow> (nth_slot M h s + 1) mod M = nth_slot M h (Suc s)"
  by (simp add: nth_slot_def mod_Suc_eq)

lemma nth_slot_back: "0 < M \<Longrightarrow> s < M \<Longrightarrow> nth_slot M h (Suc s) = unat h mod M \<longleftrightarrow> Suc s = M"
  using nth_slot_inj [of 0 M "Suc s" h] by (cases "Suc s = M") (auto simp: nth_slot_def)

definition sm_stop :: "'v sentry list \<Rightarrow> u32 \<Rightarrow> nat \<Rightarrow> bool" where
  "sm_stop es h i \<longleftrightarrow> \<not> se_occupied (es ! i) \<or> se_hash (es ! i) = h"

lemma slot_loop_from:
  assumes "s < length es" "\<forall>j < s. \<not> sm_stop es h (nth_slot (length es) h j)"
  shows "sm_findSlot_loop (length es - s) es h (unat h mod length es) (nth_slot (length es) h s) =
      (case filter (\<lambda>t. sm_stop es h (nth_slot (length es) h t)) [s..<length es] of
         [] \<Rightarrow> Some (length es) | t # _ \<Rightarrow> Some (nth_slot (length es) h t))"
  using assms
proof (induction "length es - s" arbitrary: s)
  case (Suc k)
  let ?M = "length es"
  have M: "?M - s = Suc (?M - Suc s)" "[s..<?M] = s # [Suc s..<?M]" using Suc.prems(1) by (simp_all add: upt_conv_Cons)
  show ?case
  proof (cases "sm_stop es h (nth_slot ?M h s)")
    case True
    then show ?thesis unfolding M by (simp add: sm_stop_def)
  next
    case False
    show ?thesis
    proof (cases "Suc s = ?M")
      case True
      have "0 < ?M" using Suc.prems(1) by linarith
      with nth_slot_back [of ?M s h] Suc.prems(1) True have "nth_slot ?M h (Suc s) = unat h mod ?M" by blast
      then show ?thesis using False True Suc.prems(1)
        unfolding M by (simp add: sm_stop_def nth_slot_step [simplified])
    next
      case F: False
      have n: "nth_slot ?M h (Suc s) \<noteq> unat h mod ?M" using nth_slot_back [of ?M s h] Suc.prems(1) F by linarith
      have "\<forall>j < Suc s. \<not> sm_stop es h (nth_slot ?M h j)" using False Suc.prems(2) less_Suc_eq by blast
      with Suc.hyps(1) [of "Suc s"] Suc.hyps(2) Suc.prems(1) F
      have "sm_findSlot_loop (?M - Suc s) es h (unat h mod ?M) (nth_slot ?M h (Suc s)) =
          (case filter (\<lambda>t. sm_stop es h (nth_slot ?M h t)) [Suc s..<?M] of
             [] \<Rightarrow> Some ?M | t # _ \<Rightarrow> Some (nth_slot ?M h t))" by simp
      then show ?thesis using False n Suc.prems(1)
        unfolding M by (simp add: sm_stop_def nth_slot_step [simplified])
    qed
  qed
qed simp

lemma index_loop_slot:
  "sm_findIndex_loop n es h start idx =
     map_option (\<lambda>i. if i \<noteq> length es \<and> \<not> se_occupied (es ! i) then length es else i) (sm_findSlot_loop n es h start idx)"
  by (induction n es h start idx rule: sm_findSlot_loop.induct) (auto simp: Let_def)

text \<open>The slot for a hash: the first one on its probe that is free or has the hash, if there is one.\<close>

definition first_slot :: "u32 \<Rightarrow> 'v smap \<Rightarrow> nat \<Rightarrow> bool" where
  "first_slot h m t \<longleftrightarrow>
     (let es = sm_entries m; M = length es
      in t < M \<and> sm_stop es h (nth_slot M h t) \<and> (\<forall>j < t. \<not> sm_stop es h (nth_slot M h j)))"

lemma slot_filter:
  assumes "0 < length (sm_entries m)" "es = sm_entries m"
  shows "sm_findSlot h m = (case filter (\<lambda>t. sm_stop es h (nth_slot (length es) h t)) [0..<length es] of
         [] \<Rightarrow> Some (length es) | t # _ \<Rightarrow> Some (nth_slot (length es) h t))"
  using slot_loop_from [of 0 es h] assms by (simp add: sm_findSlot_def nth_slot_def Let_def)

lemma filter_upt_first:
  "filter P [0..<n] = t # ts \<Longrightarrow> t < n \<and> P t \<and> (\<forall>j < t. \<not> P j)"
proof -
  assume f: "filter P [0..<n] = t # ts"
  then have "t \<in> set (filter P [0..<n])" by simp
  then have t: "t < n" "P t" by simp_all
  have s: "\<forall>x \<in> set ts. t \<le> x" using sorted_wrt_filter [OF sorted_upt [of 0 n], of P] unfolding f by simp
  have "\<not> P j" if "j < t" for j
  proof
    assume "P j"
    then have "j \<in> set (filter P [0..<n])" using that t(1) by simp
    then show False using s that unfolding f by force
  qed
  with t show ?thesis by blast
qed

lemma slot_cases:
  assumes "0 < length (sm_entries m)"
  obtains (found) t where "first_slot h m t" "sm_findSlot h m = Some (nth_slot (length (sm_entries m)) h t)"
  | (full) "sm_findSlot h m = Some (length (sm_entries m))" "\<forall>i < length (sm_entries m). \<not> sm_stop (sm_entries m) h i"
proof (cases "filter (\<lambda>t. sm_stop (sm_entries m) h (nth_slot (length (sm_entries m)) h t)) [0..<length (sm_entries m)]")
  case Nil
  let ?M = "length (sm_entries m)"
  have "\<not> sm_stop (sm_entries m) h i" if "i < ?M" for i
  proof -
    have "nth_slot ?M h (cdist ?M (unat h mod ?M) i) = i" unfolding nth_slot_def using that assms by (intro add_cdist) simp_all
    moreover have "cdist ?M (unat h mod ?M) i < ?M" using that assms by simp
    ultimately show ?thesis using Nil by (simp add: filter_empty_conv) (metis atLeastLessThan_iff le0)
  qed
  then show ?thesis using full Nil slot_filter [OF assms refl, of h] by simp
next
  case (Cons t ts)
  then show ?thesis using found [of t] filter_upt_first [OF Cons] slot_filter [OF assms refl, of h]
    by (simp add: first_slot_def Let_def)
qed

lemma first_slot_unique:
  assumes "first_slot h m s" "first_slot h m t"
  shows "s = t"
  using assms unfolding first_slot_def Let_def by (metis linorder_neqE_nat)

lemma slot_first:
  assumes "first_slot h m t"
  shows "sm_findSlot h m = Some (nth_slot (length (sm_entries m)) h t)"
proof -
  have "0 < length (sm_entries m)" using assms by (auto simp: first_slot_def)
  then show ?thesis
  proof (cases rule: slot_cases [of m h])
    case (found s)
    then show ?thesis using first_slot_unique [OF assms, of s] by simp
  next
    case full
    then show ?thesis using assms nth_slot_less [OF \<open>0 < length (sm_entries m)\<close>, of h t] by (auto simp: first_slot_def Let_def)
  qed
qed

lemma index_slot:
  "sm_findIndex h m = map_option (\<lambda>i. if i \<noteq> length (sm_entries m) \<and> \<not> se_occupied (sm_entries m ! i)
     then length (sm_entries m) else i) (sm_findSlot h m)"
  by (simp add: sm_findIndex_def sm_findSlot_def Let_def index_loop_slot)

section \<open>Without deletion the table is a map\<close>

text \<open>The probe for the hash of an occupied entry ends at that entry.\<close>

definition sm_ok :: "'v smap \<Rightarrow> bool" where
  "sm_ok m \<longleftrightarrow>
     0 < length (sm_entries m) \<and> sm_count m = length (filter se_occupied (sm_entries m)) \<and>
     (\<forall>i < length (sm_entries m). se_occupied (sm_entries m ! i) \<longrightarrow> sm_findSlot (se_hash (sm_entries m ! i)) m = Some i)"

definition sm_abs :: "'v smap \<Rightarrow> u32 \<rightharpoonup> 'v" where
  "sm_abs m = map_of (map (\<lambda>e. (se_hash e, se_value e)) (filter se_occupied (sm_entries m)))"

lemma sm_ok_same:
  assumes "sm_ok m" "i < length (sm_entries m)" "j < length (sm_entries m)" "se_occupied (sm_entries m ! i)"
    "se_occupied (sm_entries m ! j)" "se_hash (sm_entries m ! i) = se_hash (sm_entries m ! j)"
  shows "i = j"
  using assms unfolding sm_ok_def by (metis option.inject)

lemma sm_abs_iff:
  assumes "sm_ok m"
  shows "sm_abs m h = Some v \<longleftrightarrow>
    (\<exists>i < length (sm_entries m). se_occupied (sm_entries m ! i) \<and> se_hash (sm_entries m ! i) = h \<and> se_value (sm_entries m ! i) = v)"
    (is "_ \<longleftrightarrow> ?R v")
proof
  have R: "?R w" if "sm_abs m h = Some w" for w
    using map_of_SomeD [OF that [unfolded sm_abs_def]] by (auto simp: in_set_conv_nth)
  { assume "sm_abs m h = Some v" then show "?R v" by (rule R) }
  assume r: "?R v"
  then obtain i where i: "i < length (sm_entries m)" "se_occupied (sm_entries m ! i)" "se_hash (sm_entries m ! i) = h"
    "se_value (sm_entries m ! i) = v" by blast
  have "(h, v) \<in> set (map (\<lambda>e. (se_hash e, se_value e)) (filter se_occupied (sm_entries m)))"
    using i by (auto intro!: image_eqI [of _ _ "sm_entries m ! i"])
  then obtain w where w: "sm_abs m h = Some w" unfolding sm_abs_def using weak_map_of_SomeI by metis
  from R [OF w] obtain j where "j < length (sm_entries m)" "se_occupied (sm_entries m ! j)" "se_hash (sm_entries m ! j) = h"
    "se_value (sm_entries m ! j) = w" by blast
  with sm_ok_same [OF assms i(1), of j] i w show "sm_abs m h = Some v" by simp
qed

text \<open>What the probe finds.\<close>

lemma sm_index_abs:
  assumes "sm_ok m"
  obtains (found) i where "sm_findIndex h m = Some i" "sm_findSlot h m = Some i" "i < length (sm_entries m)"
      "se_occupied (sm_entries m ! i)" "se_hash (sm_entries m ! i) = h" "sm_abs m h = Some (se_value (sm_entries m ! i))"
  | (absent) "sm_findIndex h m = Some (length (sm_entries m))" "sm_abs m h = None"
proof -
  let ?M = "length (sm_entries m)"
  have M: "0 < ?M" using assms by (simp add: sm_ok_def)
  from M show ?thesis
  proof (cases rule: slot_cases [of m h])
    case f: (found t)
    define i where "i = nth_slot ?M h t"
    have i: "i < ?M" "sm_stop (sm_entries m) h i" using f M by (simp_all add: i_def nth_slot_less first_slot_def Let_def)
    show ?thesis
    proof (cases "se_occupied (sm_entries m ! i)")
      case True
      then have h: "se_hash (sm_entries m ! i) = h" using i by (simp add: sm_stop_def)
      then have "sm_abs m h = Some (se_value (sm_entries m ! i))" using True i(1) sm_abs_iff [OF assms] by blast
      then show ?thesis using True h i(1) f(2) by (intro found [of i]) (simp_all add: index_slot i_def)
    next
      case False
      have "sm_abs m h = None"
      proof (rule ccontr)
        assume "sm_abs m h \<noteq> None"
        then obtain k where k: "k < ?M" "se_occupied (sm_entries m ! k)" "se_hash (sm_entries m ! k) = h"
          using sm_abs_iff [OF assms] by blast
        then have "sm_findSlot h m = Some k" using assms by (auto simp: sm_ok_def)
        then show False using f(2) k(2) False by (simp add: i_def)
      qed
      then show ?thesis using False f(2) i(1) by (intro absent) (simp_all add: index_slot i_def)
    qed
  next
    case full
    have "sm_abs m h = None"
    proof (rule ccontr)
      assume "sm_abs m h \<noteq> None"
      then show False using sm_abs_iff [OF assms] full(2) by (auto simp: sm_stop_def)
    qed
    then show ?thesis using full(1) by (intro absent) (simp_all add: index_slot)
  qed
qed

lemma sm_find_abs: "sm_ok m \<Longrightarrow> sm_find key m = sm_abs m (sm_hashString key)"
  by (cases rule: sm_index_abs [of m "sm_hashString key"]) (simp_all add: sm_find_def)

text \<open>Writing an entry into the slot that the probe for its hash has found.\<close>

definition put_entry :: "nat \<Rightarrow> 'v sentry \<Rightarrow> 'v smap \<Rightarrow> 'v smap" where
  "put_entry i e m = m\<lparr>sm_entries := (sm_entries m)[i := e],
     sm_count := (if se_occupied (sm_entries m ! i) then sm_count m else sm_count m + 1)\<rparr>"

lemma filter_update_length:
  assumes "i < length xs" "P x"
  shows "length (filter P (xs[i := x])) = (if P (xs ! i) then length (filter P xs) else Suc (length (filter P xs)))"
proof -
  have "xs = take i xs @ xs ! i # drop (Suc i) xs" using assms(1) by (rule id_take_nth_drop)
  then have "length (filter P xs) = length (filter P (take i xs @ xs ! i # drop (Suc i) xs))" by simp
  then show ?thesis using assms by (simp add: upd_conv_take_nth_drop)
qed

lemma put_entry_ok:
  assumes ok: "sm_ok m" and t: "first_slot h m t" "i = nth_slot (length (sm_entries m)) h t"
    and e: "se_occupied e" "se_hash e = h"
  shows "sm_ok (put_entry i e m)"
proof -
  let ?M = "length (sm_entries m)"
  have M: "0 < ?M" using ok by (simp add: sm_ok_def)
  have i: "i < ?M" using nth_slot_less [OF M] t(2) by simp
  have len: "length (sm_entries (put_entry i e m)) = ?M" by (simp add: put_entry_def)
  have at: "sm_entries (put_entry i e m) ! k = (if k = i then e else sm_entries m ! k)" if "k < ?M" for k
    using that by (simp add: put_entry_def)
  have probe: "sm_findSlot (se_hash (sm_entries (put_entry i e m) ! k)) (put_entry i e m) = Some k"
    if k: "k < ?M" "se_occupied (sm_entries (put_entry i e m) ! k)" for k
  proof (cases "k = i")
    case True
    have "first_slot h (put_entry i e m) t"
      unfolding first_slot_def Let_def len
    proof (intro conjI allI impI)
      show tM: "t < ?M" using t(1) by (simp add: first_slot_def Let_def)
      show "sm_stop (sm_entries (put_entry i e m)) h (nth_slot ?M h t)" by (simp add: t(2) [symmetric] sm_stop_def at i e)
      fix j assume j: "j < t"
      have "nth_slot ?M h j \<noteq> i" using nth_slot_inj [of j ?M t h] j tM t(2) by auto
      moreover have "\<not> sm_stop (sm_entries m) h (nth_slot ?M h j)" using t(1) j by (simp add: first_slot_def Let_def)
      ultimately show "\<not> sm_stop (sm_entries (put_entry i e m)) h (nth_slot ?M h j)"
        by (simp add: sm_stop_def at nth_slot_less [OF M])
    qed
    from slot_first [OF this] have "sm_findSlot h (put_entry i e m) = Some i" unfolding len t(2) [symmetric] .
    then show ?thesis using True by (simp add: at i e(2))
  next
    case False
    define g where "g = se_hash (sm_entries m ! k)"
    have o: "se_occupied (sm_entries m ! k)" using k False by (simp add: at)
    then have s: "sm_findSlot g m = Some k" using ok k(1) by (simp add: sm_ok_def g_def)
    have "g \<noteq> h" using s slot_first [OF t(1)] t(2) False by auto
    from M obtain u where u: "first_slot g m u" "k = nth_slot ?M g u"
    proof (cases rule: slot_cases [of m g])
      case (found u)
      then show ?thesis using that s by simp
    next
      case full
      then show ?thesis using s k(1) by simp
    qed
    have "first_slot g (put_entry i e m) u"
      unfolding first_slot_def Let_def len
    proof (intro conjI allI impI)
      show "u < ?M" using u(1) by (simp add: first_slot_def Let_def)
      show "sm_stop (sm_entries (put_entry i e m)) g (nth_slot ?M g u)"
        unfolding u(2) [symmetric] sm_stop_def at [OF k(1)] using False by (simp add: g_def)
      fix j assume "j < u"
      then have "\<not> sm_stop (sm_entries m) g (nth_slot ?M g j)" using u(1) by (simp add: first_slot_def Let_def)
      then show "\<not> sm_stop (sm_entries (put_entry i e m)) g (nth_slot ?M g j)"
        using e \<open>g \<noteq> h\<close> by (simp add: sm_stop_def at nth_slot_less [OF M])
    qed
    from slot_first [OF this] have "sm_findSlot g (put_entry i e m) = Some k" unfolding len u(2) [symmetric] .
    then show ?thesis using False by (simp add: at [OF k(1)] g_def)
  qed
  have "sm_count (put_entry i e m) = length (filter se_occupied (sm_entries (put_entry i e m)))"
    using ok i e(1) by (simp add: put_entry_def sm_ok_def filter_update_length)
  then show ?thesis using probe M by (simp add: sm_ok_def len)
qed

lemma put_entry_abs:
  assumes "sm_ok m" "first_slot h m t" "i = nth_slot (length (sm_entries m)) h t" "se_occupied e" "se_hash e = h"
  shows "sm_abs (put_entry i e m) = (sm_abs m)(h \<mapsto> se_value e)"
proof
  fix g
  let ?M = "length (sm_entries m)"
  have M: "0 < ?M" using assms(1) by (simp add: sm_ok_def)
  have i: "i < ?M" using nth_slot_less [OF M] assms(3) by simp
  have len: "length (sm_entries (put_entry i e m)) = ?M" by (simp add: put_entry_def)
  have at: "sm_entries (put_entry i e m) ! k = (if k = i then e else sm_entries m ! k)" if "k < ?M" for k
    using that by (simp add: put_entry_def)
  note ok' = put_entry_ok [OF assms]
  show "sm_abs (put_entry i e m) g = ((sm_abs m)(h \<mapsto> se_value e)) g"
  proof (cases "g = h")
    case True
    have "sm_abs (put_entry i e m) h = Some (se_value e)"
      unfolding sm_abs_iff [OF ok'] len using i assms(4,5) by (intro exI [of _ i]) (simp add: at)
    then show ?thesis using True by simp
  next
    case False
    have st: "sm_stop (sm_entries m) h i" using assms(2,3) by (simp add: first_slot_def Let_def)
    have "sm_abs (put_entry i e m) g = Some v \<longleftrightarrow> sm_abs m g = Some v" for v
      unfolding sm_abs_iff [OF ok'] sm_abs_iff [OF assms(1)] len
      using False assms(5) st by (intro ex_cong) (auto simp: at sm_stop_def)
    then have "sm_abs (put_entry i e m) g = sm_abs m g" by (metis not_Some_eq)
    then show ?thesis using False by simp
  qed
qed

lemma insert_put:
  "sm_insert key v m =
     (case sm_findSlot (sm_hashString key) m of None \<Rightarrow> None
      | Some i \<Rightarrow> if i = length (sm_entries m) then Some (False, m)
          else Some (True, put_entry i \<lparr>se_hash = sm_hashString key, se_value = v, se_occupied = True\<rparr> m))"
  by (simp add: sm_insert_def put_entry_def Let_def split: option.split)

lemma sm_full_iff:
  assumes "sm_ok m"
  shows "sm_findSlot h m = Some (length (sm_entries m)) \<longleftrightarrow> sm_size m = length (sm_entries m) \<and> sm_abs m h = None"
proof -
  let ?M = "length (sm_entries m)"
  have M: "0 < ?M" and c: "sm_count m = length (filter se_occupied (sm_entries m))" using assms by (simp_all add: sm_ok_def)
  have f: "sm_count m = ?M \<longleftrightarrow> (\<forall>i < ?M. se_occupied (sm_entries m ! i))"
    unfolding c using length_filter_less [of _ "sm_entries m" se_occupied]
    by (auto simp: all_set_conv_all_nth [symmetric]) (metis filter_True nth_mem)+
  show ?thesis
  proof (cases rule: sm_index_abs [OF assms, of h])
    case (1 i)
    then show ?thesis by simp
  next
    case 2
    from M show ?thesis
    proof (cases rule: slot_cases [of m h])
      case (found t)
      then have "\<not> se_occupied (sm_entries m ! nth_slot ?M h t)"
        using 2 nth_slot_less [OF M, of h t] by (auto simp: index_slot split: if_splits)
      then have "\<not> sm_count m = ?M" using f nth_slot_less [OF M, of h t] by blast
      then show ?thesis using found nth_slot_less [OF M, of h t] by (simp add: sm_size_def)
    next
      case full
      then show ?thesis using 2 f by (simp add: sm_size_def sm_stop_def)
    qed
  qed
qed

text \<open>C25: As long as nothing is erased, the map for string keys is a finite map from the \<^emph>\<open>hashes\<close> of the keys: looking up a
  key gives the value stored last for its hash, inserting updates the map at that hash, and is refused
  exactly when the hash is new and the table full; the size is the number of entries.\<close>

theorem string_map_refines_hash_map:
  assumes "sm_ok m"
  shows "sm_find key m = sm_abs m (sm_hashString key) \<and> sm_contains key m = (sm_hashString key \<in> dom (sm_abs m)) \<and>
    (\<exists>ok m'. sm_insert key v m = Some (ok, m') \<and> sm_ok m' \<and> length (sm_entries m') = length (sm_entries m) \<and>
      (ok \<longleftrightarrow> sm_size m < length (sm_entries m) \<or> sm_hashString key \<in> dom (sm_abs m)) \<and>
      sm_abs m' = (if ok then (sm_abs m)(sm_hashString key \<mapsto> v) else sm_abs m) \<and>
      sm_size m' = (if ok \<and> sm_hashString key \<notin> dom (sm_abs m) then sm_size m + 1 else sm_size m))"
proof -
  define h where "h = sm_hashString key"
  let ?M = "length (sm_entries m)" and ?e = "\<lparr>se_hash = h, se_value = v, se_occupied = True\<rparr>"
  have M: "0 < ?M" using assms by (simp add: sm_ok_def)
  have le: "sm_size m \<le> ?M" using assms by (simp add: sm_ok_def sm_size_def)
  have f: "sm_find key m = sm_abs m h" by (simp add: sm_find_abs assms h_def)
  have c: "sm_contains key m = (h \<in> dom (sm_abs m))"
    by (cases rule: sm_index_abs [OF assms, of h]) (auto simp: sm_contains_def h_def [symmetric])
  have "\<exists>ok m'. sm_insert key v m = Some (ok, m') \<and> sm_ok m' \<and> length (sm_entries m') = ?M \<and>
      (ok \<longleftrightarrow> sm_size m < ?M \<or> h \<in> dom (sm_abs m)) \<and> sm_abs m' = (if ok then (sm_abs m)(h \<mapsto> v) else sm_abs m) \<and>
      sm_size m' = (if ok \<and> h \<notin> dom (sm_abs m) then sm_size m + 1 else sm_size m)"
    using M
  proof (cases rule: slot_cases [of m h])
    case (found t)
    define i where "i = nth_slot ?M h t"
    have i: "i < ?M" using nth_slot_less [OF M] by (simp add: i_def)
    have ins: "sm_insert key v m = Some (True, put_entry i ?e m)"
      using found(2) i by (simp add: insert_put h_def [symmetric] i_def [symmetric])
    have occ: "se_occupied (sm_entries m ! i) \<longleftrightarrow> h \<in> dom (sm_abs m)"
      using found(2) i by (cases rule: sm_index_abs [OF assms, of h]) (auto simp: index_slot i_def [symmetric])
    have "sm_size m < ?M \<or> h \<in> dom (sm_abs m)"
      using sm_full_iff [OF assms, of h] found(2) i le by (auto simp: i_def [symmetric])
    moreover have "sm_size (put_entry i ?e m) = (if h \<notin> dom (sm_abs m) then sm_size m + 1 else sm_size m)"
      using occ by (simp add: sm_size_def put_entry_def)
    moreover have "length (sm_entries (put_entry i ?e m)) = ?M" by (simp add: put_entry_def)
    ultimately show ?thesis
      using ins put_entry_ok [OF assms found(1) i_def, of ?e] put_entry_abs [OF assms found(1) i_def, of ?e]
      by (intro exI [of _ True] exI [of _ "put_entry i ?e m"]) simp
  next
    case full
    then have "sm_insert key v m = Some (False, m)" by (simp add: insert_put h_def [symmetric])
    moreover have "\<not> (sm_size m < ?M \<or> h \<in> dom (sm_abs m))" using sm_full_iff [OF assms, of h] full(1) by auto
    ultimately show ?thesis using assms by auto
  qed
  then show ?thesis using f c unfolding h_def by blast
qed

section \<open>Deletion\<close>

text \<open>The entry at \<open>i\<close> lies on the probe for \<open>h\<close> before the entry that the probe finds.\<close>

definition probe_passes :: "'v smap \<Rightarrow> nat \<Rightarrow> u32 \<Rightarrow> bool" where
  "probe_passes m i h \<longleftrightarrow>
     (let M = length (sm_entries m)
      in case sm_findIndex h m of None \<Rightarrow> False
         | Some k \<Rightarrow> k < M \<and> cdist M (unat h mod M) i < cdist M (unat h mod M) k)"

definition free_entry :: "nat \<Rightarrow> 'v smap \<Rightarrow> 'v smap" where
  "free_entry i m = m\<lparr>sm_entries := (sm_entries m)[i := (sm_entries m ! i)\<lparr>se_occupied := False\<rparr>], sm_count := sm_count m - 1\<rparr>"

lemma cdist_slot: "0 < M \<Longrightarrow> t < M \<Longrightarrow> cdist M (unat h mod M) (nth_slot M h t) = t"
  by (simp add: nth_slot_def cdist_add)

lemma find_None_slot:
  assumes "sm_findSlot h m = Some i" "i < length (sm_entries m)" "\<not> se_occupied (sm_entries m ! i)"
  shows "sm_findIndex h m = Some (length (sm_entries m))"
  using assms by (simp add: index_slot)

lemma find_after_free:
  assumes ok: "sm_ok m" and i: "i < length (sm_entries m)" "se_occupied (sm_entries m ! i)"
  shows "sm_find key (free_entry i m) =
    (if sm_hashString key = se_hash (sm_entries m ! i) \<or> probe_passes m i (sm_hashString key) then None else sm_find key m)"
proof -
  define h where "h = sm_hashString key"
  let ?M = "length (sm_entries m)" and ?m = "free_entry i m"
  have M: "0 < ?M" using ok by (simp add: sm_ok_def)
  have len: "length (sm_entries ?m) = ?M" by (simp add: free_entry_def)
  have at: "sm_entries ?m ! k = (if k = i then (sm_entries m ! i)\<lparr>se_occupied := False\<rparr> else sm_entries m ! k)" if "k < ?M" for k
    using that by (simp add: free_entry_def)
  define s where "s = cdist ?M (unat h mod ?M) i"
  have s: "s < ?M" "nth_slot ?M h s = i" using M i(1) by (simp_all add: s_def nth_slot_def add_cdist)
  have stop: "sm_stop (sm_entries ?m) h (nth_slot ?M h j) \<longleftrightarrow> j = s \<or> sm_stop (sm_entries m) h (nth_slot ?M h j)" if "j < ?M" for j
    using that s nth_slot_inj [OF that s(1), of h] by (auto simp: sm_stop_def at nth_slot_less [OF M])
  have gone: "sm_findIndex h ?m = Some ?M" if "first_slot h ?m s"
    using find_None_slot [of h ?m i] slot_first [OF that] i s by (simp add: len at)
  have at_s: "first_slot h ?m s" if "\<forall>j < s. \<not> sm_stop (sm_entries m) h (nth_slot ?M h j)"
    using that s(1) stop [OF s(1)] stop by (simp add: first_slot_def Let_def len)
  have "sm_find key ?m = (if h = se_hash (sm_entries m ! i) \<or> probe_passes m i h then None else sm_find key m)"
    using M
  proof (cases rule: slot_cases [of m h])
    case full
    have "first_slot h ?m s" by (rule at_s) (simp add: full(2) nth_slot_less [OF M])
    moreover have "sm_findIndex h m = Some ?M" using full(1) by (simp add: index_slot)
    ultimately show ?thesis using gone by (simp add: sm_find_def h_def [symmetric] len)
  next
    case (found t)
    define k where "k = nth_slot ?M h t"
    have t: "t < ?M" "sm_stop (sm_entries m) h k" "\<forall>j < t. \<not> sm_stop (sm_entries m) h (nth_slot ?M h j)"
      using found(1) by (simp_all add: first_slot_def Let_def k_def)
    have k: "k < ?M" using nth_slot_less [OF M] by (simp add: k_def)
    show ?thesis
    proof (cases "s \<le> t")
      case True
      then have "first_slot h ?m s" using t(3) by (intro at_s) auto
      then have n: "sm_find key ?m = None" using gone by (simp add: sm_find_def h_def [symmetric] len)
      have "h = se_hash (sm_entries m ! i) \<or> probe_passes m i h \<or> sm_find key m = None"
      proof (cases "s = t")
        case True
        then show ?thesis using t(2) i(2) s(2) by (auto simp: sm_stop_def k_def)
      next
        case False
        then show ?thesis using \<open>s \<le> t\<close> found(2) t(1) M k
          by (cases "se_occupied (sm_entries m ! k)")
            (simp_all add: probe_passes_def Let_def index_slot k_def [symmetric] s_def [symmetric] cdist_slot [OF M t(1), of h, folded k_def] sm_find_def h_def [symmetric])
      qed
      with n show ?thesis by auto
    next
      case False
      then have "first_slot h ?m t" using t stop by (simp add: first_slot_def Let_def len k_def)
      from slot_first [OF this] have f: "sm_findSlot h ?m = Some k" by (simp add: len k_def)
      have ki: "k \<noteq> i" using nth_slot_inj [OF t(1) s(1), of h] s(2) False by (auto simp: k_def)
      have "h \<noteq> se_hash (sm_entries m ! i)"
      proof
        assume "h = se_hash (sm_entries m ! i)"
        then have "sm_findSlot h m = Some i" using ok i by (simp add: sm_ok_def)
        then show False using found(2) ki by (simp add: k_def)
      qed
      moreover have "\<not> probe_passes m i h"
        using False found(2) k
        by (auto simp: probe_passes_def Let_def index_slot k_def [symmetric] s_def [symmetric] cdist_slot [OF M t(1), of h, folded k_def])
      moreover have "sm_find key ?m = sm_find key m"
        using f found(2) k ki by (simp add: sm_find_def index_slot h_def [symmetric] len at k_def [symmetric])
      ultimately show ?thesis by simp
    qed
  qed
  then show ?thesis by (simp add: h_def)
qed

text \<open>C32: Erasing a key makes its entry free again and nothing else, and so breaks the probes that lead over it: after a
  successful erase every key whose entry lies behind the erased one on its probe can no longer be
  found, although its entry is still there and counted. All other keys are found as before.\<close>

theorem string_map_erase_loses:
  assumes "sm_ok m" "sm_erase key m = Some (True, m')" "sm_findIndex (sm_hashString key) m = Some i"
  shows "sm_size m' + 1 = sm_size m \<and>
    (\<forall>k. sm_find k m' = (if sm_hashString k = sm_hashString key \<or> probe_passes m i (sm_hashString k) then None else sm_find k m)) \<and>
    sm_size m' = length (filter se_occupied (sm_entries m'))"
proof -
  let ?M = "length (sm_entries m)"
  have ne: "i \<noteq> ?M" and m': "m' = free_entry i m" using assms(2,3) by (auto simp: sm_erase_def free_entry_def split: if_splits)
  have i: "i < ?M \<and> se_occupied (sm_entries m ! i) \<and> se_hash (sm_entries m ! i) = sm_hashString key"
  proof (cases rule: sm_index_abs [OF assms(1), of "sm_hashString key"])
    case (1 j)
    then have "j = i" using assms(3) by simp
    with 1 show ?thesis by simp
  next
    case 2
    then show ?thesis using assms(3) ne by simp
  qed
  have "sm_entries m ! i \<in> set (filter se_occupied (sm_entries m))" using i by simp
  then have "0 < length (filter se_occupied (sm_entries m))" by (rule length_pos_if_in_set)
  moreover have "sm_count m = length (filter se_occupied (sm_entries m))" using assms(1) by (simp add: sm_ok_def)
  ultimately have c: "0 < sm_count m" "sm_count m = length (filter se_occupied (sm_entries m))" by simp_all
  have "length (filter se_occupied (sm_entries m)) = Suc (length (filter se_occupied (sm_entries m')))"
  proof -
    let ?e = "(sm_entries m ! i)\<lparr>se_occupied := False\<rparr>"
    have "sm_entries m = (sm_entries m')[i := sm_entries m ! i]" by (simp add: m' free_entry_def)
    then have "length (filter se_occupied (sm_entries m)) = length (filter se_occupied ((sm_entries m')[i := sm_entries m ! i]))" by simp
    also have "\<dots> = Suc (length (filter se_occupied (sm_entries m')))"
      using i by (subst filter_update_length) (simp_all add: m' free_entry_def)
    finally show ?thesis .
  qed
  moreover have "sm_count m' + 1 = sm_count m" using c(1) by (simp add: m' free_entry_def)
  ultimately show ?thesis using c(2) find_after_free [OF assms(1)] i unfolding sm_size_def m' by simp
qed

text \<open>\<open>operator[]\<close> does not check for a full table: it accesses the entry behind the last one exactly when the hash is
  new and no entry is free; otherwise it returns the entry of the hash, which is occupied afterwards.\<close>

theorem string_map_subscript_overflow:
  assumes "sm_ok m"
  shows "if sm_size m = length (sm_entries m) \<and> sm_hashString key \<notin> dom (sm_abs m) then sm_subscript key m = None
    else \<exists>i m'. sm_subscript key m = Some (i, m') \<and> i < length (sm_entries m') \<and> sm_ok m' \<and>
      sm_abs m' = (sm_abs m)(sm_hashString key \<mapsto> se_value (sm_entries m ! i)) \<and> sm_find key m' = Some (se_value (sm_entries m ! i))"
proof -
  define h where "h = sm_hashString key"
  let ?M = "length (sm_entries m)"
  have M: "0 < ?M" using assms by (simp add: sm_ok_def)
  from M show ?thesis
  proof (cases rule: slot_cases [of m h])
    case full
    then show ?thesis using sm_full_iff [OF assms, of h] by (auto simp: sm_subscript_def h_def [symmetric])
  next
    case (found t)
    define i where "i = nth_slot ?M h t"
    define e where "e = (sm_entries m ! i)\<lparr>se_hash := h, se_occupied := True\<rparr>"
    have i: "i < ?M" using nth_slot_less [OF M] by (simp add: i_def)
    have st: "sm_stop (sm_entries m) h i" using found(1) by (simp add: first_slot_def Let_def i_def)
    have e: "e = sm_entries m ! i" if "se_occupied (sm_entries m ! i)" using st that by (simp add: e_def sm_stop_def)
    have s: "sm_subscript key m = Some (i, put_entry i e m)"
      using found(2) i e by (cases "se_occupied (sm_entries m ! i)")
        (simp_all add: sm_subscript_def h_def [symmetric] i_def [symmetric] put_entry_def e_def [symmetric])
    have eo: "se_occupied e" "se_hash e = h" "se_value e = se_value (sm_entries m ! i)" by (simp_all add: e_def)
    note ok = put_entry_ok [OF assms found(1) i_def eo(1,2)] and ab = put_entry_abs [OF assms found(1) i_def eo(1,2)]
    have n: "\<not> (sm_size m = ?M \<and> h \<notin> dom (sm_abs m))"
      using sm_full_iff [OF assms, of h] found(2) i by (auto simp: i_def [symmetric])
    have l: "i < length (sm_entries (put_entry i e m))" using i by (simp add: put_entry_def)
    have f: "sm_find key (put_entry i e m) = Some (se_value (sm_entries m ! i))"
      by (simp add: sm_find_abs [OF ok] ab h_def [symmetric] eo(3))
    show ?thesis using n unfolding h_def [symmetric] if_not_P [OF n]
      using s l ok ab f eo(3) by (intro exI [of _ i] exI [of _ "put_entry i e m"]) simp
  qed
qed

section \<open>Concrete maps\<close>

lemma sm_new_ok: "0 < n \<Longrightarrow> sm_ok (sm_new d n) \<and> sm_abs (sm_new d n) = Map.empty"
  by (simp add: sm_ok_def sm_new_def sm_clear_def sm_abs_def filter_empty_conv)

text \<open>Two strings with the same hash are the same key.\<close>

lemma strings_collide: "sm_hashString (Some ''ab'') = sm_hashString (Some ''bA'')"
  by (simp add: sm_hashString_def)

definition two_keys :: "nat smap" where
  "two_keys = \<lparr>sm_entries = [\<lparr>se_hash = 177670, se_value = 1, se_occupied = True\<rparr>, \<lparr>se_hash = 177672, se_value = 2, se_occupied = True\<rparr>],
     sm_count = 2\<rparr>"

lemma two_keys_hash: "sm_hashString (Some ''a'') = 177670" "sm_hashString (Some ''c'') = 177672"
  by (simp_all add: sm_hashString_def)

lemma even_home: "177670 mod Suc (Suc 0) = 0" "177672 mod Suc (Suc 0) = 0"
  unfolding numeral_2_eq_2 [symmetric] by simp_all

lemma two_keys_probe: "sm_findSlot 177670 two_keys = Some 0" "sm_findSlot 177672 two_keys = Some 1"
  "sm_findIndex 177670 two_keys = Some 0" "sm_findIndex 177672 two_keys = Some 1"
  by (simp_all add: sm_findSlot_def sm_findIndex_def two_keys_def Let_def even_home)

lemma two_keys_ok: "sm_ok two_keys"
  using two_keys_probe by (simp add: sm_ok_def less_Suc_eq) (simp add: two_keys_def less_Suc_eq)

lemma string_map_refines_hash_map_witness:
  "\<exists>m'. sm_insert (Some ''ab'') (7 :: nat) (sm_new 0 2) = Some (True, m') \<and> sm_find (Some ''bA'') m' = Some 7"
proof -
  have n: "sm_ok (sm_new (0 :: nat) 2)" "sm_abs (sm_new (0 :: nat) 2) = Map.empty" using sm_new_ok [of 2 "0 :: nat"] by simp_all
  have z: "sm_size (sm_new (0 :: nat) 2) < length (sm_entries (sm_new (0 :: nat) 2))"
    by (simp add: sm_new_def sm_clear_def sm_size_def)
  from string_map_refines_hash_map [OF n(1), of "Some ''ab''" 7] z obtain m' where m':
    "sm_insert (Some ''ab'') (7 :: nat) (sm_new 0 2) = Some (True, m')" "sm_ok m'" "sm_abs m' = [sm_hashString (Some ''ab'') \<mapsto> 7]"
    unfolding n(2) by (auto split: if_splits)
  then show ?thesis by (auto simp: sm_find_abs strings_collide)
qed

lemma string_map_erase_loses_witness:
  "\<exists>m'. sm_find (Some ''c'') two_keys = Some 2 \<and> sm_erase (Some ''a'') two_keys = Some (True, m') \<and>
     sm_find (Some ''c'') m' = None \<and> sm_size m' = 1"
proof -
  define m' where "m' = free_entry 0 two_keys"
  have e: "sm_erase (Some ''a'') two_keys = Some (True, m')"
    by (simp add: sm_erase_def two_keys_hash two_keys_probe m'_def free_entry_def) (simp add: two_keys_def)
  have p: "probe_passes two_keys 0 177672" by (simp add: probe_passes_def two_keys_probe) (simp add: two_keys_def cdist_def even_home)
  have f: "sm_find (Some ''c'') two_keys = Some 2" by (simp add: sm_find_def two_keys_hash two_keys_probe) (simp add: two_keys_def)
  from string_map_erase_loses [OF two_keys_ok e, of 0] show ?thesis using e p f
    by (simp add: two_keys_hash two_keys_probe) (simp add: two_keys_def sm_size_def)
qed

lemma string_map_subscript_overflow_witness: "sm_subscript None two_keys = None"
proof -
  have "sm_abs two_keys 0 = None" by (simp add: sm_abs_def two_keys_def)
  then have "sm_size two_keys = length (sm_entries two_keys) \<and> sm_hashString None \<notin> dom (sm_abs two_keys)"
    by (simp add: sm_hashString_def domIff sm_size_def) (simp add: two_keys_def)
  with string_map_subscript_overflow [OF two_keys_ok, of None] show ?thesis by simp
qed

end
