(* ===== verification/WiFi_Settings.thy ===== *)
theory WiFi_Settings
  imports WiFi_STA
begin

text \<open>
  The settings and queries of \<open>WiFiGenericClass\<close> (\<open>WiFiGeneric.cpp\<close>) and of the station (\<open>WiFiSTAConfig.cpp\<close>) beyond
  the life cycle: buffers, host name, channel, storage, range, sleep, power, distance measurement and antennas.
\<close>

section \<open>Generic settings\<close>

definition useStaticBuffers :: "wifi \<Rightarrow> bool" where "useStaticBuffers w = wifiUseStaticBuffers w"

text \<open>When the driver is already initialised the code only warns.\<close>

definition set_useStaticBuffers :: "bool \<Rightarrow> wifi \<Rightarrow> wifi" where
  "set_useStaticBuffers bufferMode w = w\<lparr>wifiUseStaticBuffers := bufferMode\<rparr>"

definition getHostname :: "esp_driver \<Rightarrow> wifi \<Rightarrow> string \<times> wifi" where "getHostname d w = get_esp_netif_hostname d w"

definition setHostname :: "string option \<Rightarrow> wifi \<Rightarrow> bool \<times> wifi" where
  "setHostname hostname w = (True, set_esp_netif_hostname hostname w)"

definition wifi_channel :: "esp_driver \<Rightarrow> wifi \<Rightarrow> int \<times> wifi" where
  "wifi_channel d w =
     (if \<not> lowLevelInitDone w then (0, w)
      else let (err, w) = drv d Wifi_get_channel w in (if err = ESP_OK then uint (got_channel d (calls w)) else 0, w))"

definition set_persistent :: "bool \<Rightarrow> wifi \<Rightarrow> wifi" where "set_persistent p w = w\<lparr>persistent := p\<rparr>"

definition enableLongRange :: "bool \<Rightarrow> wifi \<Rightarrow> wifi" where "enableLongRange enable w = w\<lparr>long_range := enable\<rparr>"

definition setSleep_bool :: "esp_driver \<Rightarrow> bool \<Rightarrow> wifi \<Rightarrow> bool \<times> wifi" where
  "setSleep_bool d enabled w = setSleep d (if enabled then WIFI_PS_MIN_MODEM else WIFI_PS_NONE) w"

definition getSleep :: "wifi \<Rightarrow> wifi_ps" where "getSleep w = sleepEnabled w"

definition WIFI_POWER_19_5dBm :: int where "WIFI_POWER_19_5dBm = 78"

definition getTxPower :: "esp_driver \<Rightarrow> wifi \<Rightarrow> int \<times> wifi" where
  "getTxPower d w =
     (if (getStatusBits w AND bits [STA_STARTED, AP_STARTED]) = 0 then (WIFI_POWER_19_5dBm, w)
      else let (err, w) = drv d Wifi_get_max_tx_power w
           in if err \<noteq> ESP_OK then (WIFI_POWER_19_5dBm, w) else (got_tx_power d (calls w), w))"

section \<open>Distance measurement\<close>

definition initiateFTM :: "esp_driver \<Rightarrow> u8 \<Rightarrow> u16 \<Rightarrow> u8 \<Rightarrow> u8 list option \<Rightarrow> wifi \<Rightarrow> bool \<times> wifi" where
  "initiateFTM d frm_count burst_period channel mac w =
     (let cfg = \<lparr>ftm_mac = replicate 6 0, ftm_channel = channel, ftm_frm_count = frm_count, ftm_burst_period = burst_period\<rparr>;
          cfg = (case mac of None \<Rightarrow> cfg | Some m \<Rightarrow> cfg\<lparr>ftm_mac := take 6 m\<rparr>);
          (err, w) = drv d (Wifi_ftm_initiate_session cfg) w
      in (err = ESP_OK, w))"

section \<open>Antennas\<close>

text \<open>The modes of the antennas as the numbers of their enumerations; a value beyond 2 is invalid.\<close>

definition antenna_config :: "nat \<Rightarrow> nat \<Rightarrow> ant_config" where
  "antenna_config rx_mode tx_mode =
     (let c = \<lparr>rx_ant_mode = WIFI_ANT_MODE_AUTO, rx_ant_default = 2, tx_ant_mode = WIFI_ANT_MODE_AUTO,
            enabled_ant0 = 1, enabled_ant1 = 2\<rparr>
      in if rx_mode = 2 then c\<lparr>rx_ant_default := 0, rx_ant_mode := WIFI_ANT_MODE_AUTO, tx_ant_mode := WIFI_ANT_MODE_AUTO\<rparr>
      else
        let c = (if rx_mode = 0 then c\<lparr>rx_ant_mode := WIFI_ANT_MODE_ANT0\<rparr>
                 else if rx_mode = 1 then c\<lparr>rx_ant_mode := WIFI_ANT_MODE_ANT1\<rparr>
                 else c\<lparr>rx_ant_mode := WIFI_ANT_MODE_AUTO\<rparr>)
        in if tx_mode = 0 then c\<lparr>tx_ant_mode := WIFI_ANT_MODE_ANT0\<rparr>
           else if tx_mode = 1 then c\<lparr>tx_ant_mode := WIFI_ANT_MODE_ANT1\<rparr>
           else if tx_mode = 2
           then c\<lparr>rx_ant_default := 0, tx_ant_mode := WIFI_ANT_MODE_AUTO, rx_ant_mode := WIFI_ANT_MODE_AUTO\<rparr>
           else c\<lparr>rx_ant_default := 0, tx_ant_mode := WIFI_ANT_MODE_AUTO\<rparr>)"

definition setDualAntennaConfig :: "esp_driver \<Rightarrow> u8 \<Rightarrow> u8 \<Rightarrow> nat \<Rightarrow> nat \<Rightarrow> wifi \<Rightarrow> bool \<times> wifi" where
  "setDualAntennaConfig d gpio_ant1 gpio_ant2 rx_mode tx_mode w =
     (let (err, w) = drv d Wifi_get_ant_gpio w
      in if err \<noteq> ESP_OK then (False, w)
      else let io = (got_ant_gpio d (calls w))[0 := (True, gpio_ant1 AND 0x7F), 1 := (True, gpio_ant2 AND 0x7F)];
               (err, w) = drv d (Wifi_set_ant_gpio io) w
      in if err \<noteq> ESP_OK then (False, w)
      else let (err, w) = drv d (Wifi_set_ant (antenna_config rx_mode tx_mode)) w in (err = ESP_OK, w))"

section \<open>Settings of the station\<close>

definition setMinSecurity :: "nat \<Rightarrow> wifi \<Rightarrow> wifi" where "setMinSecurity s w = w\<lparr>min_security := s\<rparr>"

definition setScanMethod :: "wifi_scan_method \<Rightarrow> wifi \<Rightarrow> wifi" where "setScanMethod m w = w\<lparr>scanMethod := m\<rparr>"

definition setSortMethod :: "wifi_sort_method \<Rightarrow> wifi \<Rightarrow> wifi" where "setSortMethod m w = w\<lparr>sortMethod := m\<rparr>"

definition setAutoConnect :: "bool \<Rightarrow> wifi \<Rightarrow> bool \<times> wifi" where "setAutoConnect c w = (False, w)"

definition getAutoConnect :: "wifi \<Rightarrow> bool" where "getAutoConnect w = False"

definition setAutoReconnect :: "bool \<Rightarrow> wifi \<Rightarrow> bool \<times> wifi" where
  "setAutoReconnect r w = (True, w\<lparr>autoReconnect := r\<rparr>)"

definition getAutoReconnect :: "wifi \<Rightarrow> bool" where "getAutoReconnect w = autoReconnect w"

section \<open>Which antenna is used, and what a sleep mode leaves behind\<close>

lemma antenna_auto:
  "rx = 2 \<or> tx = 2 \<Longrightarrow> rx_ant_mode (antenna_config rx tx) = WIFI_ANT_MODE_AUTO \<and>
     tx_ant_mode (antenna_config rx tx) = WIFI_ANT_MODE_AUTO \<and> rx_ant_default (antenna_config rx tx) = 0"
  by (auto simp: antenna_config_def Let_def)

lemma antenna_fixed:
  "rx < 2 \<Longrightarrow> tx < 2 \<Longrightarrow> rx_ant_mode (antenna_config rx tx) = (if rx = 0 then WIFI_ANT_MODE_ANT0 else WIFI_ANT_MODE_ANT1) \<and>
     tx_ant_mode (antenna_config rx tx) = (if tx = 0 then WIFI_ANT_MODE_ANT0 else WIFI_ANT_MODE_ANT1) \<and>
     rx_ant_default (antenna_config rx tx) = 2"
  by (auto simp: antenna_config_def Let_def)

text \<open>\<open>getSleep\<close> reports the mode that was asked for even if the driver refused it, and asking again then does nothing: a
  refused mode is not tried a second time.\<close>

lemma setSleep_stores: "sleepEnabled (snd (setSleep d ps w)) = ps"
  by (simp add: setSleep_def getMode_def drv_def split_beta Let_def)

lemma setSleep_again:
  assumes "setSleep d ps w = (ok, w')"
  shows "getSleep w' = ps \<and> setSleep d ps w' = (False, w')"
  using setSleep_stores [of d ps w] assms by (simp add: getSleep_def setSleep_def [of d ps w'])

end
