(* ===== verification/WiFi_Interfaces.thy ===== *)
theory WiFi_Interfaces
  imports WiFi_STA
begin

text \<open>
  What the station and the access point tell about themselves (\<open>WiFiSTAInfo.cpp\<close>, \<open>WiFiSTANetif.cpp\<close>,
  \<open>WiFiAPNetif.cpp\<close>), the records of a scan (\<open>WiFiScan.cpp\<close>), SmartConfig, and the connection to an enterprise
  network (\<open>WiFiSTAConfig.cpp\<close>). Every query first asks for the mode; the answer for a WiFi that is off is the
  default value of its type.
\<close>

section \<open>Queries\<close>

text \<open>A query that is answered with \<open>z\<close> when the WiFi is off.\<close>

definition if_on :: "esp_driver \<Rightarrow> 'r \<Rightarrow> (wifi \<Rightarrow> 'r \<times> wifi) \<Rightarrow> wifi \<Rightarrow> 'r \<times> wifi" where
  "if_on d z query w = (let (m, w) = getMode d w in if m = mode_null then (z, w) else query w)"

definition get_ip_info :: "esp_driver \<Rightarrow> esp_interface \<Rightarrow> 'r \<Rightarrow> (ip_info \<Rightarrow> 'r) \<Rightarrow> wifi \<Rightarrow> 'r \<times> wifi" where
  "get_ip_info d i z pick w =
     (let (err, w) = drv d (Netif_get_ip_info (get_esp_interface_netif i (netifs w))) w
      in if err \<noteq> ESP_OK then (z, w) else (pick (got_ip_info d (calls w)), w))"

definition get_ap_info :: "esp_driver \<Rightarrow> 'r \<Rightarrow> (ap_record \<Rightarrow> 'r) \<Rightarrow> wifi \<Rightarrow> 'r \<times> wifi" where
  "get_ap_info d z pick w =
     (let (err, w) = drv d Wifi_sta_get_ap_info w
      in if err = ESP_OK then (pick (got_ap_info d (calls w)), w) else (z, w))"

section \<open>MAC addresses\<close>

definition hex_digits :: string where "hex_digits = ''0123456789ABCDEF''"

definition mac_byte :: "u8 \<Rightarrow> string" where
  "mac_byte b = [hex_digits ! unat (drop_bit 4 b AND 0x0F), hex_digits ! unat (b AND 0x0F)]"

definition mac_string :: "u8 list \<Rightarrow> string" where
  "mac_string m =
     mac_byte (m ! 0) @ '':'' @ mac_byte (m ! 1) @ '':'' @ mac_byte (m ! 2) @ '':'' @
     mac_byte (m ! 3) @ '':'' @ mac_byte (m ! 4) @ '':'' @ mac_byte (m ! 5)"

section \<open>The station\<close>

definition sta_SSID :: "esp_driver \<Rightarrow> wifi \<Rightarrow> string \<times> wifi" where
  "sta_SSID d w = if_on d [] (get_ap_info d [] rec_ssid) w"

definition sta_psk :: "esp_driver \<Rightarrow> wifi \<Rightarrow> string \<times> wifi" where
  "sta_psk d w = if_on d [] (\<lambda>w. let (_, w) = drv d Wifi_get_config w in (sta_password (got_config d (calls w)), w)) w"

definition sta_BSSID :: "esp_driver \<Rightarrow> wifi \<Rightarrow> u8 list option \<times> wifi" where
  "sta_BSSID d w = if_on d None (get_ap_info d None (\<lambda>r. Some (rec_bssid r))) w"

definition sta_BSSIDstr :: "esp_driver \<Rightarrow> wifi \<Rightarrow> string \<times> wifi" where
  "sta_BSSIDstr d w =
     (let (bssid, w) = sta_BSSID d w in case bssid of None \<Rightarrow> ([], w) | Some b \<Rightarrow> (mac_string b, w))"

definition sta_RSSI :: "esp_driver \<Rightarrow> wifi \<Rightarrow> int \<times> wifi" where
  "sta_RSSI d w = if_on d 0 (get_ap_info d 0 rec_rssi) w"

definition localIP :: "esp_driver \<Rightarrow> wifi \<Rightarrow> u32 \<times> wifi" where
  "localIP d w = if_on d 0 (get_ip_info d ESP_IF_WIFI_STA 0 ip_addr) w"

definition sta_mac :: "esp_driver \<Rightarrow> wifi \<Rightarrow> u8 list \<times> wifi" where
  "sta_mac d w =
     (let (m, w) = getMode d w;
          (_, w) = (if m \<noteq> mode_null then drv d Wifi_get_mac w else drv d Read_mac w)
      in (got_mac d (calls w), w))"

definition sta_mac_string :: "esp_driver \<Rightarrow> wifi \<Rightarrow> string \<times> wifi" where
  "sta_mac_string d w =
     (let (m, w) = getMode d w;
          (_, w) = (if m = mode_null then drv d Read_mac w else drv d Wifi_get_mac w)
      in (mac_string (got_mac d (calls w)), w))"

definition sta_subnetMask :: "esp_driver \<Rightarrow> wifi \<Rightarrow> u32 \<times> wifi" where
  "sta_subnetMask d w = if_on d 0 (get_ip_info d ESP_IF_WIFI_STA 0 ip_netmask) w"

definition gatewayIP :: "esp_driver \<Rightarrow> wifi \<Rightarrow> u32 \<times> wifi" where
  "gatewayIP d w = if_on d 0 (get_ip_info d ESP_IF_WIFI_STA 0 ip_gw) w"

definition dnsIP :: "esp_driver \<Rightarrow> u8 \<Rightarrow> wifi \<Rightarrow> u32 \<times> wifi" where
  "dnsIP d dns_no w = if_on d 0 (\<lambda>w. let (_, w) = drv d (Dns_getserver dns_no) w in (got_dns d (calls w), w)) w"

definition broadcastIP :: "esp_driver \<Rightarrow> wifi \<Rightarrow> u32 \<times> wifi" where
  "broadcastIP d w = if_on d 0 (get_ip_info d ESP_IF_WIFI_STA 0 (\<lambda>i. calculateBroadcast (ip_gw i) (ip_netmask i))) w"

definition networkID :: "esp_driver \<Rightarrow> wifi \<Rightarrow> u32 \<times> wifi" where
  "networkID d w = if_on d 0 (get_ip_info d ESP_IF_WIFI_STA 0 (\<lambda>i. calculateNetworkID (ip_gw i) (ip_netmask i))) w"

definition subnetCIDR :: "esp_driver \<Rightarrow> wifi \<Rightarrow> u8 \<times> wifi" where
  "subnetCIDR d w = if_on d 0 (get_ip_info d ESP_IF_WIFI_STA 0 (\<lambda>i. calculateSubnetCIDR (ip_netmask i))) w"

definition enableIpV6 :: "esp_driver \<Rightarrow> wifi \<Rightarrow> bool \<times> wifi" where
  "enableIpV6 d w =
     if_on d False (\<lambda>w. let (err, w) = drv d (Netif_create_ip6 (get_esp_interface_netif ESP_IF_WIFI_STA (netifs w))) w
       in (err = ESP_OK, w)) w"

definition localIPv6 :: "esp_driver \<Rightarrow> wifi \<Rightarrow> u8 list \<times> wifi" where
  "localIPv6 d w =
     if_on d (replicate 16 0) (\<lambda>w. let (err, w) = drv d (Netif_get_ip6 (get_esp_interface_netif ESP_IF_WIFI_STA (netifs w))) w
       in if err \<noteq> ESP_OK then (replicate 16 0, w) else (got_ip6 d (calls w), w)) w"

section \<open>The access point\<close>

definition softAPIP :: "esp_driver \<Rightarrow> wifi \<Rightarrow> u32 \<times> wifi" where
  "softAPIP d w = if_on d 0 (get_ip_info d ESP_IF_WIFI_AP 0 ip_addr) w"

definition softAPBroadcastIP :: "esp_driver \<Rightarrow> wifi \<Rightarrow> u32 \<times> wifi" where
  "softAPBroadcastIP d w = if_on d 0 (get_ip_info d ESP_IF_WIFI_AP 0 (\<lambda>i. calculateBroadcast (ip_gw i) (ip_netmask i))) w"

definition softAPNetworkID :: "esp_driver \<Rightarrow> wifi \<Rightarrow> u32 \<times> wifi" where
  "softAPNetworkID d w = if_on d 0 (get_ip_info d ESP_IF_WIFI_AP 0 (\<lambda>i. calculateNetworkID (ip_gw i) (ip_netmask i))) w"

definition softAPSubnetMask :: "esp_driver \<Rightarrow> wifi \<Rightarrow> u32 \<times> wifi" where
  "softAPSubnetMask d w = if_on d 0 (get_ip_info d ESP_IF_WIFI_AP 0 ip_netmask) w"

definition softAPSubnetCIDR :: "esp_driver \<Rightarrow> wifi \<Rightarrow> u8 \<times> wifi" where
  "softAPSubnetCIDR d w = (let (m, w) = softAPSubnetMask d w in (calculateSubnetCIDR m, w))"

text \<open>The array for the address keeps its contents when the WiFi is off.\<close>

definition softAPmac :: "esp_driver \<Rightarrow> u8 list \<Rightarrow> wifi \<Rightarrow> u8 list \<times> wifi" where
  "softAPmac d m0 w =
     if_on d m0 (\<lambda>w. let (_, w) = drv d Wifi_get_ap_mac w in (got_mac d (calls w), w)) w"

definition softAPmac_string :: "esp_driver \<Rightarrow> wifi \<Rightarrow> string \<times> wifi" where
  "softAPmac_string d w =
     if_on d [] (\<lambda>w. let (_, w) = drv d Wifi_get_ap_mac w in (mac_string (got_mac d (calls w)), w)) w"

definition softAPgetHostname :: "esp_driver \<Rightarrow> wifi \<Rightarrow> string option \<times> wifi" where
  "softAPgetHostname d w =
     if_on d None (\<lambda>w. let (err, w) = drv d (Netif_get_hostname (get_esp_interface_netif ESP_IF_WIFI_AP (netifs w))) w
       in (if err = ESP_OK then got_hostname d (calls w) else None, w)) w"

definition softAPsetHostname :: "esp_driver \<Rightarrow> string option \<Rightarrow> wifi \<Rightarrow> bool \<times> wifi" where
  "softAPsetHostname d hostname w =
     if_on d False (\<lambda>w. let (err, w) = drv d (Netif_put_hostname (get_esp_interface_netif ESP_IF_WIFI_AP (netifs w)) hostname) w
       in (err = ESP_OK, w)) w"

definition softAPenableIpV6 :: "esp_driver \<Rightarrow> wifi \<Rightarrow> bool \<times> wifi" where
  "softAPenableIpV6 d w =
     if_on d False (\<lambda>w. let (err, w) = drv d (Netif_create_ip6 (get_esp_interface_netif ESP_IF_WIFI_AP (netifs w))) w
       in (err = ESP_OK, w)) w"

definition softAPIPv6 :: "esp_driver \<Rightarrow> wifi \<Rightarrow> u8 list \<times> wifi" where
  "softAPIPv6 d w =
     if_on d (replicate 16 0) (\<lambda>w. let (err, w) = drv d (Netif_get_ip6 (get_esp_interface_netif ESP_IF_WIFI_AP (netifs w))) w
       in if err \<noteq> ESP_OK then (replicate 16 0, w) else (got_ip6 d (calls w), w)) w"

section \<open>The records of a scan\<close>

definition scan_record :: "nat \<Rightarrow> wifi \<Rightarrow> ap_record option" where
  "scan_record i w = map_option (\<lambda>j. scanResult w ! j) (getScanInfoByIndex (of_nat i) w)"

definition getNetworkInfo :: "nat \<Rightarrow> wifi \<Rightarrow> ap_record option" where "getNetworkInfo i w = scan_record i w"

definition scan_SSID :: "nat \<Rightarrow> wifi \<Rightarrow> string" where
  "scan_SSID i w = (case scan_record i w of None \<Rightarrow> [] | Some r \<Rightarrow> rec_ssid r)"

definition encryptionType :: "nat \<Rightarrow> wifi \<Rightarrow> nat" where
  "encryptionType i w = (case scan_record i w of None \<Rightarrow> 0 | Some r \<Rightarrow> rec_authmode r)"

definition scan_RSSI :: "nat \<Rightarrow> wifi \<Rightarrow> int" where
  "scan_RSSI i w = (case scan_record i w of None \<Rightarrow> 0 | Some r \<Rightarrow> rec_rssi r)"

definition scan_BSSID :: "nat \<Rightarrow> wifi \<Rightarrow> u8 list option" where
  "scan_BSSID i w = (case scan_record i w of None \<Rightarrow> None | Some r \<Rightarrow> Some (rec_bssid r))"

text \<open>\<open>sprintf\<close> with the format \<open>%02X\<close> for each byte.\<close>

definition scan_BSSIDstr :: "nat \<Rightarrow> wifi \<Rightarrow> string" where
  "scan_BSSIDstr i w =
     (case scan_record i w of None \<Rightarrow> []
      | Some r \<Rightarrow> concat (map (\<lambda>k. (if k = 0 then [] else '':'') @ hex2 (rec_bssid r ! k)) [0..<6]))"

definition scan_channel :: "nat \<Rightarrow> wifi \<Rightarrow> int" where
  "scan_channel i w = (case scan_record i w of None \<Rightarrow> 0 | Some r \<Rightarrow> uint (rec_primary r))"

section \<open>SmartConfig\<close>

definition SC_TYPE_ESPTOUCH_V2 :: nat where "SC_TYPE_ESPTOUCH_V2 = 3"

definition beginSmartConfig :: "esp_driver \<Rightarrow> nat \<Rightarrow> string option \<Rightarrow> wifi \<Rightarrow> bool \<times> wifi" where
  "beginSmartConfig d ty crypt_key w =
     (if smartConfigStarted w then (False, w)
      else let (ok, w) = set_mode d \<lparr>mode_sta = True, mode_ap = False\<rparr> w
      in if \<not> ok then (False, w)
      else let (_, w) = drv d Wifi_disconnect w;
               key = (if ty = SC_TYPE_ESPTOUCH_V2 then crypt_key else None);
               (err, w) = drv d (Smartconfig_set_type ty) w
      in if err \<noteq> ESP_OK then (False, w)
      else let (err, w) = drv d (Smartconfig_start key) w
      in if err \<noteq> ESP_OK then (False, w)
      else (True, w\<lparr>smartConfigStarted := True, smartConfigDone := False\<rparr>))"

definition stopSmartConfig :: "esp_driver \<Rightarrow> wifi \<Rightarrow> bool \<times> wifi" where
  "stopSmartConfig d w =
     (if \<not> smartConfigStarted w then (True, w)
      else let (err, w) = drv d Smartconfig_stop w
           in if err = ESP_OK then (True, w\<lparr>smartConfigStarted := False\<rparr>) else (False, w))"

definition is_smartConfigDone :: "wifi \<Rightarrow> bool" where
  "is_smartConfigDone w = (if \<not> smartConfigStarted w then False else smartConfigDone w)"

section \<open>Enterprise networks\<close>

datatype wpa2_method = WPA2_AUTH_TLS | WPA2_AUTH_PEAP | WPA2_AUTH_TTLS

text \<open>\<open>None\<close> is \<open>strlen\<close> of a null pointer.\<close>

definition with_string :: "string option \<Rightarrow> (string \<Rightarrow> wifi \<Rightarrow> wifi option) \<Rightarrow> wifi \<Rightarrow> wifi option" where
  "with_string s k w = (case s of None \<Rightarrow> None | Some s \<Rightarrow> k s w)"

definition enterprise_setup ::
  "esp_driver \<Rightarrow> wpa2_method \<Rightarrow> string option \<Rightarrow> string option \<Rightarrow> string option \<Rightarrow>
   string option \<Rightarrow> string option \<Rightarrow> string option \<Rightarrow> wifi \<Rightarrow> wifi option" where
  "enterprise_setup d auth identity username password ca crt key w =
     (let w = (case ca of None \<Rightarrow> w | Some s \<Rightarrow> snd (drv d (Wpa2_set_ca s) w));
          certificate = (\<lambda>w. case crt of None \<Rightarrow> Some w
             | Some c \<Rightarrow> with_string key (\<lambda>k w. Some (snd (drv d (Wpa2_set_cert_key c k) w))) w);
          credentials = (\<lambda>w. if auth = WPA2_AUTH_PEAP \<or> auth = WPA2_AUTH_TTLS
             then with_string username (\<lambda>u w. with_string password (\<lambda>p w. Some (snd (drv d (Wpa2_set_password p) w)))
                    (snd (drv d (Wpa2_set_username u) w))) w
             else Some w)
      in case certificate w of None \<Rightarrow> None
         | Some w \<Rightarrow> (case with_string identity (\<lambda>i w. Some (snd (drv d (Wpa2_set_identity i) w))) w of None \<Rightarrow> None
         | Some w \<Rightarrow> (case credentials w of None \<Rightarrow> None
         | Some w \<Rightarrow> Some (snd (drv d Wpa2_enable w)))))"

definition begin_enterprise ::
  "esp_driver \<Rightarrow> string option \<Rightarrow> wpa2_method \<Rightarrow> string option \<Rightarrow> string option \<Rightarrow> string option \<Rightarrow>
   string option \<Rightarrow> string option \<Rightarrow> string option \<Rightarrow> wifi \<Rightarrow> (wl_status \<times> wifi) option" where
  "begin_enterprise d ssid auth identity username password ca crt key w =
     (let (ok, w) = enableSTA d True w
      in if \<not> ok then Some (WL_CONNECT_FAILED, w)
      else if ssid = None \<or> the ssid = [] \<or> 32 < length (the ssid) then Some (WL_CONNECT_FAILED, w)
      else if identity \<noteq> None \<and> 64 < length (the identity) then Some (WL_CONNECT_FAILED, w)
      else if username \<noteq> None \<and> 64 < length (the username) then Some (WL_CONNECT_FAILED, w)
      else case enterprise_setup d auth identity username password ca crt key w of
             None \<Rightarrow> None
           | Some w \<Rightarrow> let (_, w) = begin_ssid d ssid None 0 None True w in Some (status w, w))"

text \<open>C39: Once the station is enabled and the lengths are right, an enterprise \<open>begin\<close> passes a null pointer to \<open>strlen\<close>
  exactly when the identity is missing (which is its default), the key of a client certificate is missing, or the user
  name or password of PEAP or TTLS is missing; otherwise it returns. The length of the password is not
  among the conditions: a password that is too long is only logged.\<close>

theorem enterprise_null_strings:
  assumes "enableSTA d True w = (True, w1)" "ssid \<noteq> []" "length ssid \<le> 32"
    and "\<forall>s. identity = Some s \<longrightarrow> length s \<le> 64" "\<forall>s. username = Some s \<longrightarrow> length s \<le> 64"
  shows "begin_enterprise d (Some ssid) auth identity username password ca crt key w = None \<longleftrightarrow>
    identity = None \<or> crt \<noteq> None \<and> key = None
    \<or> auth \<in> {WPA2_AUTH_PEAP, WPA2_AUTH_TTLS} \<and> (username = None \<or> password = None)"
proof -
  have c: "\<not> (identity \<noteq> None \<and> 64 < length (the identity))" "\<not> (username \<noteq> None \<and> 64 < length (the username))"
    using assms(4,5) by auto
  have e: "begin_enterprise d (Some ssid) auth identity username password ca crt key w = None \<longleftrightarrow>
      enterprise_setup d auth identity username password ca crt key w1 = None"
    unfolding begin_enterprise_def assms(1) Let_def prod.case if_not_P [OF c(1)] if_not_P [OF c(2)]
    using assms(2,3) by (simp add: not_less split_beta split: option.split)
  show ?thesis unfolding e enterprise_setup_def
    by (cases identity; cases crt; cases key; cases username; cases password; cases auth) (simp_all add: with_string_def)
qed

text \<open>A station that is on.\<close>

definition sta_driver :: esp_driver where
  "sta_driver = \<lparr>answer = (\<lambda>cs c. ESP_OK), got_mode = (\<lambda>cs. \<lparr>mode_sta = True, mode_ap = False\<rparr>),
     got_config = (\<lambda>cs. wifi_sta_config None None None 0 0 WIFI_FAST_SCAN WIFI_CONNECT_AP_BY_SIGNAL), got_clients = (\<lambda>cs. 0), got_ap_num = (\<lambda>cs. 0),
     got_mac = (\<lambda>cs. [1, 2, 3, 4, 5, 6]),
     got_ap_config = (\<lambda>cs. \<lparr>ap_ssid = [], ap_ssid_len = 0, ap_password = [], ap_channel = 0, ap_authmode = 0, ap_ssid_hidden = 0,
       ap_max_connection = 0, ap_beacon_interval = 0, ap_pairwise_cipher = 0, ap_ftm_responder = False\<rparr>),
     got_ap_info = (\<lambda>cs. \<lparr>rec_ssid = ''home'', rec_bssid = [], rec_primary = 6, rec_rssi = - 50, rec_authmode = 3\<rparr>),
     got_ap_records = (\<lambda>cs. []), got_ip_info = (\<lambda>cs. \<lparr>ip_addr = 0, ip_netmask = 0, ip_gw = 0\<rparr>),
     got_hostname = (\<lambda>cs. None), got_ip6 = (\<lambda>cs. []), got_dns = (\<lambda>cs. 0),
     got_channel = (\<lambda>cs. 6), got_tx_power = (\<lambda>cs. 78), got_ant_gpio = (\<lambda>cs. replicate 4 (False, 0)), idf_target = ''esp32''\<rparr>"

definition sta_on :: wifi where "sta_on = wifi_reset\<lparr>lowLevelInitDone := True, esp_wifi_started := True\<rparr>"

lemma sta_on_mode:
  "getMode sta_driver sta_on = (\<lparr>mode_sta = True, mode_ap = False\<rparr>, sta_on\<lparr>calls := [Wifi_get_mode]\<rparr>)"
  "enableSTA sta_driver True sta_on = (True, sta_on\<lparr>calls := [Wifi_get_mode]\<rparr>)"
  by (simp_all add: enableSTA_def getMode_def sta_on_def sta_driver_def drv_def wifi_reset_def)

lemma enterprise_null_strings_witness:
  "begin_enterprise sta_driver (Some ''eduroam'') WPA2_AUTH_TLS None None None None None None sta_on = None"
  using enterprise_null_strings [OF sta_on_mode(2), of "''eduroam''" None None WPA2_AUTH_TLS None None None None] by simp

section \<open>Reading a MAC address back\<close>

definition hex_value :: "char \<Rightarrow> nat" where
  "hex_value c = length (takeWhile (\<lambda>x. x \<noteq> c) hex_digits)"

definition mac_parse :: "string \<Rightarrow> u8 list" where
  "mac_parse s = map (\<lambda>i. of_nat (16 * hex_value (s ! (3 * i)) + hex_value (s ! (3 * i + 1)))) [0..<6]"

lemma hex_value_digit: "n < 16 \<Longrightarrow> hex_value (hex_digits ! n) = n"
  by (simp add: hex_value_def hex_digits_def less_Suc_eq numeral_eq_Suc) (elim disjE; simp)

lemma nibble: "unat (x AND 0x0F) = unat (x :: u8) mod 16"
proof -
  have "x AND 0x0F = take_bit 4 x" by (simp add: take_bit_eq_mask mask_eq_exp_minus_1)
  then show ?thesis by (simp add: take_bit_eq_mod unat_mod_distrib)
qed

lemma high_nibble: "unat (drop_bit 4 (b :: u8)) = unat b div 16"
  by (simp add: drop_bit_eq_div unat_div_distrib)

lemma mac_byte_value: "of_nat (16 * hex_value (mac_byte b ! 0) + hex_value (mac_byte b ! 1)) = b"
proof -
  have "unat b < 256" using unsigned_less [of b] by simp
  then have "unat b div 16 < 16" by (simp add: less_mult_imp_div_less)
  then have "16 * hex_value (mac_byte b ! 0) + hex_value (mac_byte b ! 1) = unat b"
    by (simp add: mac_byte_def nibble high_nibble hex_value_digit)
  then show ?thesis by (simp only: of_nat_unat ucast_id)
qed

lemma mac_byte_two: "mac_byte b = [mac_byte b ! 0, mac_byte b ! 1]" by (simp add: mac_byte_def)

lemma mac_parse_join:
  "mac_parse ([a0, b0] @ '':'' @ [a1, b1] @ '':'' @ [a2, b2] @ '':'' @ [a3, b3] @ '':'' @ [a4, b4] @ '':'' @ [a5, b5]) =
   map (\<lambda>(a, b). of_nat (16 * hex_value a + hex_value b)) [(a0, b0), (a1, b1), (a2, b2), (a3, b3), (a4, b4), (a5, b5)]"
  by (simp add: mac_parse_def upt_rec numeral_eq_Suc)

text \<open>Reading the text of a MAC address back, two hexadecimal digits for each byte and a colon between two bytes, gives
  the six bytes of the address again: no two addresses have the same text.\<close>

theorem mac_string_roundtrip:
  assumes "length m = 6"
  shows "mac_parse (mac_string m) = m"
proof -
  obtain a b c d e f where m: "m = [a, b, c, d, e, f]" using assms by (auto simp: length_Suc_conv numeral_eq_Suc)
  have "mac_string m = [mac_byte a ! 0, mac_byte a ! 1] @ '':'' @ [mac_byte b ! 0, mac_byte b ! 1] @ '':'' @
      [mac_byte c ! 0, mac_byte c ! 1] @ '':'' @ [mac_byte d ! 0, mac_byte d ! 1] @ '':'' @
      [mac_byte e ! 0, mac_byte e ! 1] @ '':'' @ [mac_byte f ! 0, mac_byte f ! 1]"
    unfolding mac_string_def m mac_byte_two [symmetric] by (simp add: numeral_eq_Suc)
  then show ?thesis by (simp only: mac_parse_join m list.map prod.case mac_byte_value)
qed

lemma mac_string_roundtrip_witness: "mac_parse (mac_string [0xDE, 0xAD, 0xBE, 0xEF, 0x00, 0x1F]) = [0xDE, 0xAD, 0xBE, 0xEF, 0x00, 0x1F]"
  by (rule mac_string_roundtrip) simp

end
