(* ===== verification/WiFi_AP.thy ===== *)
theory WiFi_AP
  imports WiFi_Interfaces
begin

text \<open>
  The access point (\<open>WiFiAP.cpp\<close>): its configuration structure, which the code builds on the stack without
  clearing it first (\<open>conf0\<close> is what the memory held), starting, configuring and stopping it, and how many stations it
  has. A character array is a string of its length; a C string in it ends at the first zero character.
\<close>

section \<open>Character arrays\<close>

definition NUL :: char where "NUL = CHR 0x00"

definition wifi_strncpy :: "string \<Rightarrow> string \<Rightarrow> nat \<Rightarrow> nat \<times> string" where
  "wifi_strncpy dst src dst_len =
     (if dst_len = 0 then (0, dst)
      else
        let src_len = length src;
            src_len = (if dst_len \<le> src_len then dst_len else src_len + 1)
        in (src_len, take src_len (src @ [NUL]) @ drop src_len dst))"

text \<open>The first \<open>n\<close> characters up to a zero: what \<open>strncmp\<close> compares.\<close>

definition cstr :: "nat \<Rightarrow> string \<Rightarrow> string" where "cstr n s = takeWhile (\<lambda>c. c \<noteq> NUL) (take n s)"

section \<open>Configuration\<close>

definition WIFI_AUTH_OPEN :: nat where "WIFI_AUTH_OPEN = 0"
definition WIFI_AUTH_WPA2_PSK :: nat where "WIFI_AUTH_WPA2_PSK = 3"
definition WIFI_CIPHER_TYPE_CCMP :: nat where "WIFI_CIPHER_TYPE_CCMP = 4"

definition softap_config_equal :: "ap_config \<Rightarrow> ap_config \<Rightarrow> bool" where
  "softap_config_equal lhs rhs =
     (if cstr 32 (ap_ssid lhs) \<noteq> cstr 32 (ap_ssid rhs) then False
      else if cstr 64 (ap_password lhs) \<noteq> cstr 64 (ap_password rhs) then False
      else ap_channel lhs = ap_channel rhs \<and> ap_authmode lhs = ap_authmode rhs \<and>
        ap_ssid_hidden lhs = ap_ssid_hidden rhs \<and> ap_max_connection lhs = ap_max_connection rhs \<and>
        ap_pairwise_cipher lhs = ap_pairwise_cipher rhs \<and> ap_ftm_responder lhs = ap_ftm_responder rhs)"

definition wifi_softap_config ::
  "ap_config \<Rightarrow> string option \<Rightarrow> string option \<Rightarrow> u8 \<Rightarrow> nat \<Rightarrow> u8 \<Rightarrow> u8 \<Rightarrow> bool \<Rightarrow> u16 \<Rightarrow> ap_config" where
  "wifi_softap_config conf0 ssid password channel authmode ssid_hidden max_connections ftm_responder beacon_interval =
     (let conf = conf0\<lparr>ap_channel := channel, ap_max_connection := max_connections, ap_beacon_interval := beacon_interval,
            ap_ssid_hidden := ssid_hidden, ap_authmode := WIFI_AUTH_OPEN, ap_ssid_len := 0,
            ap_ssid := (ap_ssid conf0)[0 := NUL], ap_password := (ap_password conf0)[0 := NUL],
            ap_ftm_responder := ftm_responder\<rparr>
      in case ssid of
           None \<Rightarrow> conf
         | Some s \<Rightarrow>
             if s = [] then conf
             else
               let conf = conf\<lparr>ap_ssid := snd (wifi_strncpy (ap_ssid conf) s 32), ap_ssid_len := of_nat (length s)\<rparr>
               in case password of
                    None \<Rightarrow> conf
                  | Some p \<Rightarrow>
                      if p = [] then conf
                      else conf\<lparr>ap_authmode := authmode, ap_pairwise_cipher := WIFI_CIPHER_TYPE_CCMP,
                             ap_password := snd (wifi_strncpy (ap_password conf) p 64)\<rparr>)"

section \<open>Operations\<close>

definition softAP ::
  "esp_driver \<Rightarrow> ap_config \<Rightarrow> string option \<Rightarrow> string option \<Rightarrow> int \<Rightarrow> int \<Rightarrow> int \<Rightarrow> bool \<Rightarrow> wifi \<Rightarrow> bool \<times> wifi" where
  "softAP d conf0 ssid passphrase channel ssid_hidden max_connection ftm_responder w =
     (if ssid = None \<or> the ssid = [] then (False, w)
      else if passphrase \<noteq> None \<and> 0 < length (the passphrase) \<and> length (the passphrase) < 8 then (False, w)
      else
        let (ok, w) = enableAP d True w
        in if \<not> ok then (False, w)
        else
          let conf = wifi_softap_config conf0 ssid passphrase (word_of_int channel) WIFI_AUTH_WPA2_PSK
                       (word_of_int ssid_hidden) (word_of_int max_connection) ftm_responder 100;
              (err, w) = drv d Wifi_get_ap_config w
          in if err \<noteq> ESP_OK then (False, w)
          else if \<not> softap_config_equal conf (got_ap_config d (calls w))
          then let (err, w) = drv d (Wifi_set_ap_config conf) w in (err = ESP_OK, w)
          else (True, w))"

definition softAPSSID :: "esp_driver \<Rightarrow> wifi \<Rightarrow> string \<times> wifi" where
  "softAPSSID d w =
     if_on d [] (\<lambda>w. let (err, w) = drv d Wifi_get_ap_config w
       in if err = ESP_OK then (takeWhile (\<lambda>c. c \<noteq> NUL) (ap_ssid (got_ap_config d (calls w))), w) else ([], w)) w"

definition softAPConfig :: "esp_driver \<Rightarrow> u32 \<Rightarrow> u32 \<Rightarrow> u32 \<Rightarrow> u32 \<Rightarrow> wifi \<Rightarrow> bool \<times> wifi" where
  "softAPConfig d local_ip gateway subnet dhcp_lease_start w =
     (let (ok, w) = enableAP d True w
      in if \<not> ok then (False, w)
      else let (err, w) = with_calls (set_esp_interface_ip (answer d) ESP_IF_WIFI_AP local_ip gateway subnet dhcp_lease_start) w
           in (err = ESP_OK, w))"

text \<open>The result of \<open>enableAP\<close>, a bool, is compared with \<open>ESP_OK\<close>, which is 0.\<close>

definition softAPdisconnect :: "esp_driver \<Rightarrow> ap_config \<Rightarrow> bool \<Rightarrow> wifi \<Rightarrow> bool \<times> wifi" where
  "softAPdisconnect d conf0 wifioff w =
     (let conf = wifi_softap_config conf0 None None 6 WIFI_AUTH_WPA2_PSK 0 4 False 100
      in if_on d False (\<lambda>w.
           let (err, w) = drv d (Wifi_set_ap_config conf) w;
               ret = (err = ESP_OK)
           in if ret \<and> wifioff
              then let (ok, w) = enableAP d False w in ((if ok then 1 else 0 :: int) = 0, w)
              else (ret, w)) w)"

definition softAPgetStationNum :: "esp_driver \<Rightarrow> wifi \<Rightarrow> u8 \<times> wifi" where
  "softAPgetStationNum d w =
     if_on d 0 (\<lambda>w. let (err, w) = drv d Wifi_ap_get_sta_list w
       in if err = ESP_OK then (of_nat (got_clients d (calls w)), w) else (0, w)) w"

section \<open>What the configuration holds\<close>

lemma takeWhile_no_NUL: "NUL \<notin> set s \<Longrightarrow> takeWhile (\<lambda>c. c \<noteq> NUL) s = s"
  by (induction s) auto

lemma takeWhile_to_NUL: "NUL \<notin> set s \<Longrightarrow> takeWhile (\<lambda>c. c \<noteq> NUL) (s @ NUL # r) = s"
  by (induction s) auto

lemma cstr_strncpy:
  assumes "NUL \<notin> set src" "length dst = n" "0 < n"
  shows "cstr n (snd (wifi_strncpy dst src n)) = take n src" "length (snd (wifi_strncpy dst src n)) = n"
proof -
  have t: "NUL \<notin> set (take n src)" using assms(1) by (meson in_set_takeD)
  show "cstr n (snd (wifi_strncpy dst src n)) = take n src"
  proof (cases "n \<le> length src")
    case True
    then show ?thesis using assms(2,3) t by (simp add: wifi_strncpy_def cstr_def Let_def takeWhile_no_NUL)
  next
    case False
    then have "take n (src @ NUL # drop (Suc (length src)) dst) = src @ NUL # drop (Suc (length src)) dst"
      using assms(2) by simp
    then show ?thesis using False assms
      by (simp add: wifi_strncpy_def cstr_def Let_def takeWhile_to_NUL)
  qed
  show "length (snd (wifi_strncpy dst src n)) = n" using assms(2,3) by (simp add: wifi_strncpy_def Let_def)
qed

lemma cstr_empty: "cstr n (s[0 := NUL]) = []"
  by (cases s; cases n) (simp_all add: cstr_def)

text \<open>The access point configuration stores the SSID cut off after 32 characters and the passphrase cut
  off after 64; without a passphrase the network is open. Neither is rejected for its length, and the
  length that is stored with the SSID is that of the argument modulo 256: it is right up to 32
  characters, and from 33 to 255 it is larger than the array.\<close>

theorem softap_config_contents:
  assumes "length (ap_ssid conf0) = 32" "length (ap_password conf0) = 64"
    and "ssid \<noteq> []" "NUL \<notin> set ssid" "NUL \<notin> set pass"
    and "conf = wifi_softap_config conf0 (Some ssid) (Some pass) channel auth hidden n ftm beacon"
  shows "cstr 32 (ap_ssid conf) = take 32 ssid \<and> cstr 64 (ap_password conf) = take 64 pass \<and>
    ap_authmode conf = (if pass = [] then WIFI_AUTH_OPEN else auth) \<and>
    (length ssid \<le> 32 \<longrightarrow> unat (ap_ssid_len conf) = length (cstr 32 (ap_ssid conf))) \<and>
    (32 < length ssid \<and> length ssid < 256 \<longrightarrow> 32 < unat (ap_ssid_len conf))"
proof -
  have a: "length ((ap_ssid conf0)[0 := NUL]) = 32" "length ((ap_password conf0)[0 := NUL]) = 64" using assms(1,2) by simp_all
  have s: "ap_ssid conf = snd (wifi_strncpy ((ap_ssid conf0)[0 := NUL]) ssid 32)"
    and l: "ap_ssid_len conf = of_nat (length ssid)"
    and p: "ap_password conf = (if pass = [] then (ap_password conf0)[0 := NUL] else snd (wifi_strncpy ((ap_password conf0)[0 := NUL]) pass 64))"
    and m: "ap_authmode conf = (if pass = [] then WIFI_AUTH_OPEN else auth)"
    using assms(3,6) by (simp_all add: wifi_softap_config_def Let_def)
  have "cstr 32 (ap_ssid conf) = take 32 ssid" unfolding s by (rule cstr_strncpy) (use assms(4) a in simp_all)
  moreover have "cstr 64 (ap_password conf) = take 64 pass"
    using cstr_strncpy(1) [of pass "(ap_password conf0)[0 := NUL]" 64] assms(5) a by (simp add: p cstr_empty)
  moreover have "unat (ap_ssid_len conf) = length ssid mod 256" by (simp add: l unat_of_nat)
  ultimately show ?thesis using m by simp
qed

definition blank_config :: ap_config where
  "blank_config = \<lparr>ap_ssid = replicate 32 NUL, ap_ssid_len = 0, ap_password = replicate 64 NUL, ap_channel = 0, ap_authmode = 0,
     ap_ssid_hidden = 0, ap_max_connection = 0, ap_beacon_interval = 0, ap_pairwise_cipher = 0, ap_ftm_responder = False\<rparr>"

lemma softap_config_contents_witness:
  "let conf = wifi_softap_config blank_config (Some (replicate 40 CHR ''a'')) (Some ''secret42'') 1 3 0 4 False 100
   in cstr 32 (ap_ssid conf) = replicate 32 CHR ''a'' \<and> 32 < unat (ap_ssid_len conf)"
proof -
  have n: "NUL \<notin> set (replicate 40 CHR ''a'')" "NUL \<notin> set ''secret42''" by (simp_all add: NUL_def)
  have l: "length (ap_ssid blank_config) = 32" "length (ap_password blank_config) = 64" by (simp_all add: blank_config_def)
  have "replicate 40 CHR ''a'' \<noteq> []" by simp
  from softap_config_contents [OF l this n refl, of 1 3 0 4 False 100] show ?thesis by (simp add: Let_def)
qed

section \<open>Starting and stopping\<close>

text \<open>When \<open>softAP\<close> succeeds the access point is enabled, and the driver has either confirmed that it runs an
  equal configuration or accepted the new one as the last call; when it fails before that, it has not
  touched the configuration.\<close>

theorem softAP_outcome:
  assumes "softAP d conf0 ssid pass channel hidden n ftm w = (ok, w')"
    and "conf = wifi_softap_config conf0 ssid pass (word_of_int channel) WIFI_AUTH_WPA2_PSK (word_of_int hidden) (word_of_int n) ftm 100"
    and "enableAP d True w = (on, w1)"
  shows "if ssid = None \<or> ssid = Some [] \<or> (\<exists>p. pass = Some p \<and> p \<noteq> [] \<and> length p < 8) then \<not> ok \<and> w' = w
    else if \<not> on then \<not> ok \<and> w' = w1
    else if answer d (calls w1) Wifi_get_ap_config \<noteq> ESP_OK then \<not> ok \<and> calls w' = calls w1 @ [Wifi_get_ap_config]
    else if softap_config_equal conf (got_ap_config d (calls w1 @ [Wifi_get_ap_config]))
      then ok \<and> calls w' = calls w1 @ [Wifi_get_ap_config]
    else calls w' = calls w1 @ [Wifi_get_ap_config, Wifi_set_ap_config conf] \<and>
      (ok \<longleftrightarrow> answer d (calls w1 @ [Wifi_get_ap_config]) (Wifi_set_ap_config conf) = ESP_OK)"
proof -
  define short where "short \<longleftrightarrow> (\<exists>p. pass = Some p \<and> p \<noteq> [] \<and> length p < 8)"
  define none where "none \<longleftrightarrow> ssid = None \<or> ssid = Some []"
  have 1: "ssid = None \<or> the ssid = [] \<longleftrightarrow> none" by (cases ssid) (simp_all add: none_def)
  have 2: "pass \<noteq> None \<and> 0 < length (the pass) \<and> length (the pass) < 8 \<longleftrightarrow> short"
    by (cases pass) (simp_all add: short_def)
  have eq: "(ok, w') =
     (if none then (False, w)
      else if short then (False, w)
      else if \<not> on then (False, w1)
      else if answer d (calls w1) Wifi_get_ap_config \<noteq> ESP_OK then (False, w1\<lparr>calls := calls w1 @ [Wifi_get_ap_config]\<rparr>)
      else if \<not> softap_config_equal conf (got_ap_config d (calls w1 @ [Wifi_get_ap_config]))
      then (answer d (calls w1 @ [Wifi_get_ap_config]) (Wifi_set_ap_config conf) = ESP_OK,
            w1\<lparr>calls := calls w1 @ [Wifi_get_ap_config, Wifi_set_ap_config conf]\<rparr>)
      else (True, w1\<lparr>calls := calls w1 @ [Wifi_get_ap_config]\<rparr>))"
    unfolding assms(1) [symmetric] softAP_def 1 2 assms(3) Let_def prod.case assms(2) [symmetric] drv_def by simp
  have "ssid = None \<or> ssid = Some [] \<or> (\<exists>p. pass = Some p \<and> p \<noteq> [] \<and> length p < 8) \<longleftrightarrow> none \<or> short"
    by (simp add: none_def short_def)
  then show ?thesis using eq by (simp only:) (simp split: if_splits)
qed


text \<open>A driver on which everything succeeds and the access point is on, and a WiFi that has been started.\<close>

definition ap_driver :: "esp_err \<Rightarrow> esp_driver" where
  "ap_driver stop = \<lparr>answer = (\<lambda>cs c. if c = Wifi_stop then stop else ESP_OK),
     got_mode = (\<lambda>cs. \<lparr>mode_sta = False, mode_ap = True\<rparr>),
     got_config = (\<lambda>cs. wifi_sta_config None None None 0 0 WIFI_FAST_SCAN WIFI_CONNECT_AP_BY_SIGNAL), got_clients = (\<lambda>cs. 0), got_ap_num = (\<lambda>cs. 0),
     got_mac = (\<lambda>cs. [1, 2, 3, 4, 5, 6]), got_ap_config = (\<lambda>cs. blank_config),
     got_ap_info = (\<lambda>cs. \<lparr>rec_ssid = [], rec_bssid = [], rec_primary = 0, rec_rssi = 0, rec_authmode = 0\<rparr>),
     got_ap_records = (\<lambda>cs. []), got_ip_info = (\<lambda>cs. \<lparr>ip_addr = 0, ip_netmask = 0, ip_gw = 0\<rparr>),
     got_hostname = (\<lambda>cs. None), got_ip6 = (\<lambda>cs. []), got_dns = (\<lambda>cs. 0),
     got_channel = (\<lambda>cs. 6), got_tx_power = (\<lambda>cs. 78), got_ant_gpio = (\<lambda>cs. replicate 4 (False, 0)), idf_target = ''esp32''\<rparr>"

definition started :: wifi where "started = wifi_reset\<lparr>lowLevelInitDone := True, esp_wifi_started := True\<rparr>"

lemma started_on:
  "enableAP (ap_driver e) True started = (True, started\<lparr>calls := [Wifi_get_mode]\<rparr>)"
  "getMode (ap_driver e) started = (\<lparr>mode_sta = False, mode_ap = True\<rparr>, started\<lparr>calls := [Wifi_get_mode]\<rparr>)"
  by (simp_all add: enableAP_def getMode_def started_def ap_driver_def drv_def wifi_reset_def)

lemma softAP_outcome_witness:
  "fst (softAP (ap_driver ESP_OK) blank_config (Some ''home'') (Some ''secret42'') 1 0 4 False started) = True"
proof -
  let ?conf = "wifi_softap_config blank_config (Some ''home'') (Some ''secret42'') (word_of_int 1) WIFI_AUTH_WPA2_PSK
    (word_of_int 0) (word_of_int 4) False 100"
  obtain ok w' where r: "softAP (ap_driver ESP_OK) blank_config (Some ''home'') (Some ''secret42'') 1 0 4 False started = (ok, w')"
    by fastforce
  have "ap_channel ?conf = 1" by (simp add: wifi_softap_config_def Let_def)
  then have "\<not> softap_config_equal ?conf blank_config" by (simp add: softap_config_equal_def blank_config_def)
  with softAP_outcome [OF r refl started_on(1)] r show ?thesis by (simp add: ap_driver_def)
qed


end
