(* ===== verification/WiFi_Multi.thy ===== *)
theory WiFi_Multi
  imports WiFi_Interfaces
begin

text \<open>
  \<open>WiFiMulti\<close> (\<open>WiFiMulti.cpp\<close>): a list of known networks, and \<open>run\<close>, which scans and connects to the strongest of
  them; and \<open>WiFiSTAClass::waitForConnectResult\<close>. While the code waits, the other tasks run: \<open>others\<close> is what they do to
  the state in a delay, and \<open>clock k\<close> is the clock after the \<open>k\<close>-th delay.
\<close>

section \<open>The list of networks\<close>

record ap_entry =
  en_ssid :: string
  en_pass :: "string option"

text \<open>\<open>ok1\<close> and \<open>ok2\<close>: whether the two allocations succeed.\<close>

definition addAP :: "bool \<Rightarrow> bool \<Rightarrow> string option \<Rightarrow> string option \<Rightarrow> ap_entry list \<Rightarrow> bool \<times> ap_entry list" where
  "addAP ok1 ok2 ssid passphrase aps =
     (if ssid = None \<or> the ssid = [] \<or> 31 < length (the ssid) then (False, aps)
      else if passphrase \<noteq> None \<and> 64 < length (the passphrase) then (False, aps)
      else if \<not> ok1 then (False, aps)
      else if passphrase \<noteq> None \<and> the passphrase \<noteq> []
      then (if \<not> ok2 then (False, aps) else (True, aps @ [\<lparr>en_ssid = the ssid, en_pass = passphrase\<rparr>]))
      else (True, aps @ [\<lparr>en_ssid = the ssid, en_pass = None\<rparr>]))"

section \<open>The best network\<close>

record best_network =
  bn_entry :: "ap_entry option"
  bn_db :: int
  bn_bssid :: "u8 list"
  bn_channel :: int

text \<open>The last entry with an SSID, from the index \<open>x\<close> down.\<close>

primrec find_entry :: "ap_entry list \<Rightarrow> string \<Rightarrow> nat \<Rightarrow> ap_entry option" where
  "find_entry aps ssid 0 = None"
| "find_entry aps ssid (Suc x) = (if ssid = en_ssid (aps ! x) then Some (aps ! x) else find_entry aps ssid x)"

text \<open>One scanned network. A record that is not there leaves an empty SSID.\<close>

definition consider_network :: "ap_entry list \<Rightarrow> ap_record option \<Rightarrow> best_network \<Rightarrow> best_network" where
  "consider_network aps r b =
     (case r of
        None \<Rightarrow> b
      | Some r \<Rightarrow>
          (case find_entry aps (rec_ssid r) (length aps) of
             None \<Rightarrow> b
           | Some entry \<Rightarrow>
               if bn_db b < rec_rssi r
               then if rec_authmode r = 0 \<or> en_pass entry \<noteq> None
                    then \<lparr>bn_entry = Some entry, bn_db = rec_rssi r, bn_bssid = rec_bssid r, bn_channel = uint (rec_primary r)\<rparr>
                    else b
               else b))"

definition best_of_scan :: "ap_entry list \<Rightarrow> nat \<Rightarrow> wifi \<Rightarrow> best_network" where
  "best_of_scan aps n w =
     fold (\<lambda>i b. consider_network aps (getNetworkInfo i w) b) [0..<n]
       \<lparr>bn_entry = None, bn_db = - (2 ^ 31), bn_bssid = [], bn_channel = 0\<rparr>"

section \<open>Waiting\<close>

text \<open>The loops: they go on while the condition holds for the status and the time is not up. \<open>None\<close>: not within \<open>n\<close>
  rounds.\<close>

fun wait_while ::
  "(wl_status \<Rightarrow> bool) \<Rightarrow> (u32 \<Rightarrow> bool) \<Rightarrow> (nat \<Rightarrow> wifi \<Rightarrow> wifi) \<Rightarrow> (nat \<Rightarrow> u32) \<Rightarrow> u32 \<Rightarrow> nat \<Rightarrow> nat \<Rightarrow> wifi \<Rightarrow> wifi option" where
  "wait_while go on others clock start 0 k w = None"
| "wait_while go on others clock start (Suc n) k w =
     (if go (status w) \<and> on (clock k - start)
      then wait_while go on others clock start n (k + 1) (others k w)
      else Some w)"

definition multi_waits :: "wl_status \<Rightarrow> bool" where
  "multi_waits s \<longleftrightarrow> s \<noteq> WL_CONNECTED \<and> s \<noteq> WL_NO_SSID_AVAIL \<and> s \<noteq> WL_CONNECT_FAILED"

definition waitForConnectResult ::
  "esp_driver \<Rightarrow> (nat \<Rightarrow> wifi \<Rightarrow> wifi) \<Rightarrow> (nat \<Rightarrow> u32) \<Rightarrow> u32 \<Rightarrow> nat \<Rightarrow> wifi \<Rightarrow> (wl_status \<times> wifi) option" where
  "waitForConnectResult d others clock timeoutLength n w =
     (let (m, w) = getMode d w
      in if \<not> mode_sta m then Some (WL_DISCONNECTED, w)
      else map_option (\<lambda>w. (status w, w))
        (wait_while still_connecting (\<lambda>t. t < timeoutLength) others clock (clock 0) n 0 w))"

section \<open>run\<close>

text \<open>The loop over the list that looks for the SSID of the current connection, and asks for it each time.\<close>

fun known_connection :: "esp_driver \<Rightarrow> ap_entry list \<Rightarrow> wifi \<Rightarrow> bool \<times> wifi" where
  "known_connection d [] w = (False, w)"
| "known_connection d (e # aps) w =
     (let (ssid, w) = sta_SSID d w in if ssid = en_ssid e then (True, w) else known_connection d aps w)"

text \<open>The result of a scan in the 8-bit variable it is assigned to.\<close>

definition scan_int8 :: "scan_result \<Rightarrow> int" where
  "scan_int8 r = (case r of WIFI_SCAN_RUNNING \<Rightarrow> - 1 | WIFI_SCAN_FAILED \<Rightarrow> - 2 | Scan_count n \<Rightarrow> sint (ucast n :: u8))"

definition multi_connect ::
  "esp_driver \<Rightarrow> (nat \<Rightarrow> wifi \<Rightarrow> wifi) \<Rightarrow> (nat \<Rightarrow> u32) \<Rightarrow> u32 \<Rightarrow> nat \<Rightarrow> best_network \<Rightarrow> wl_status \<Rightarrow> wifi \<Rightarrow> (wl_status \<times> wifi) option" where
  "multi_connect d others clock connectTimeout n b s w =
     (case bn_entry b of
        None \<Rightarrow> Some (s, w)
      | Some e \<Rightarrow>
          let (_, w) = begin_ssid d (Some (en_ssid e)) (en_pass e) (bn_channel b) (Some (bn_bssid b)) True w
          in map_option (\<lambda>w. (status w, w))
               (wait_while multi_waits (\<lambda>t. t \<le> connectTimeout) others clock (clock 0) n 0 w))"

definition multi_scan ::
  "esp_driver \<Rightarrow> (nat \<Rightarrow> wifi \<Rightarrow> wifi) \<Rightarrow> (wifi \<Rightarrow> wifi) \<Rightarrow> (nat \<Rightarrow> u32) \<Rightarrow> u32 \<Rightarrow> u32 \<Rightarrow> nat \<Rightarrow> ap_entry list \<Rightarrow>
   wl_status \<Rightarrow> wifi \<Rightarrow> (wl_status \<times> wifi) option" where
  "multi_scan d others scanning clock now connectTimeout n aps s w =
     (let (r, w) = scanNetworks d scanning now False 300 w
      in if scan_int8 r = - 1 then Some (WL_NO_SSID_AVAIL, w)
      else if 0 \<le> scan_int8 r
      then let b = best_of_scan aps (nat (scan_int8 r)) w
           in multi_connect d others clock connectTimeout n b s (scanDelete w)
      else let (_, w) = disconnect d False False w;
               (_, w) = scanNetworks d scanning now True 300 w
           in Some (s, w))"

definition multi_run ::
  "esp_driver \<Rightarrow> (nat \<Rightarrow> wifi \<Rightarrow> wifi) \<Rightarrow> (wifi \<Rightarrow> wifi) \<Rightarrow> (wifi \<Rightarrow> wifi) \<Rightarrow> (nat \<Rightarrow> u32) \<Rightarrow> u32 \<Rightarrow> u32 \<Rightarrow> nat \<Rightarrow> ap_entry list \<Rightarrow>
   wifi \<Rightarrow> (wl_status \<times> wifi) option" where
  "multi_run d others delayed scanning clock now connectTimeout n aps w =
     (if status w = WL_CONNECTED
      then let (known, w) = known_connection d aps w
           in if known then Some (WL_CONNECTED, w)
              else let (_, w) = disconnect d False False w; w = delayed w
                   in multi_scan d others scanning clock now connectTimeout n aps (status w) w
      else multi_scan d others scanning clock now connectTimeout n aps (status w) w)"

section \<open>Which network is chosen\<close>

lemma find_entry_Some:
  "find_entry aps s n = Some e \<longleftrightarrow> (\<exists>x < n. aps ! x = e \<and> en_ssid e = s \<and> (\<forall>y. x < y \<and> y < n \<longrightarrow> en_ssid (aps ! y) \<noteq> s))"
proof (induction n)
  case (Suc n)
  show ?case
  proof (cases "s = en_ssid (aps ! n)")
    case True
    then show ?thesis by (auto simp: less_Suc_eq)
  next
    case False
    then show ?thesis using Suc by (auto simp: less_Suc_eq)
  qed
qed simp

text \<open>The entry with which a scanned network could be joined.\<close>

definition usable :: "ap_entry list \<Rightarrow> ap_record option \<Rightarrow> ap_entry option" where
  "usable aps r =
     (case r of None \<Rightarrow> None
      | Some r \<Rightarrow> (case find_entry aps (rec_ssid r) (length aps) of None \<Rightarrow> None
          | Some e \<Rightarrow> if rec_authmode r = 0 \<or> en_pass e \<noteq> None then Some e else None))"

lemma consider_network_eq:
  "consider_network aps r b =
     (case usable aps r of
        None \<Rightarrow> b
      | Some e \<Rightarrow> if bn_db b < rec_rssi (the r)
          then \<lparr>bn_entry = Some e, bn_db = rec_rssi (the r), bn_bssid = rec_bssid (the r), bn_channel = uint (rec_primary (the r))\<rparr>
          else b)"
  by (simp add: consider_network_def usable_def split: option.split)

definition is_best :: "ap_entry list \<Rightarrow> (nat \<Rightarrow> ap_record option) \<Rightarrow> nat \<Rightarrow> nat \<Rightarrow> best_network \<Rightarrow> bool" where
  "is_best aps r n i b \<longleftrightarrow>
     i < n \<and> bn_entry b \<noteq> None \<and> bn_entry b = usable aps (r i) \<and> bn_db b = rec_rssi (the (r i)) \<and>
     bn_bssid b = rec_bssid (the (r i)) \<and> bn_channel b = uint (rec_primary (the (r i))) \<and>
     (\<forall>j < n. usable aps (r j) \<noteq> None \<longrightarrow> rec_rssi (the (r j)) \<le> bn_db b) \<and>
     (\<forall>j < i. usable aps (r j) \<noteq> None \<longrightarrow> rec_rssi (the (r j)) < bn_db b)"

lemma fold_best:
  assumes "\<And>j. j < n \<Longrightarrow> usable aps (r j) \<noteq> None \<Longrightarrow> - (2 ^ 31) < rec_rssi (the (r j))"
    and "b = fold (\<lambda>i b. consider_network aps (r i) b) [0..<n]
      \<lparr>bn_entry = None, bn_db = - (2 ^ 31), bn_bssid = [], bn_channel = 0\<rparr>"
  shows "bn_entry b = None \<and> bn_db b = - (2 ^ 31) \<and> (\<forall>j < n. usable aps (r j) = None) \<or> (\<exists>i. is_best aps r n i b)"
  using assms
proof (induction n arbitrary: b)
  case (Suc n)
  define a where "a = fold (\<lambda>i b. consider_network aps (r i) b) [0..<n]
      \<lparr>bn_entry = None, bn_db = - (2 ^ 31), bn_bssid = [], bn_channel = 0\<rparr>"
  have b: "b = consider_network aps (r n) a" using Suc.prems(2) by (simp add: a_def)
  have IH: "bn_entry a = None \<and> bn_db a = - (2 ^ 31) \<and> (\<forall>j < n. usable aps (r j) = None) \<or> (\<exists>i. is_best aps r n i a)"
    by (rule Suc.IH) (use Suc.prems(1) a_def in auto)
  show ?case
  proof (cases "usable aps (r n)")
    case None
    then have "b = a" by (simp add: b consider_network_eq)
    with IH None show ?thesis by (auto simp: is_best_def less_Suc_eq)
  next
    case (Some e)
    show ?thesis
    proof (cases "bn_db a < rec_rssi (the (r n))")
      case True
      then have b': "b = \<lparr>bn_entry = Some e, bn_db = rec_rssi (the (r n)), bn_bssid = rec_bssid (the (r n)),
          bn_channel = uint (rec_primary (the (r n)))\<rparr>" by (simp add: b consider_network_eq Some)
      have "rec_rssi (the (r j)) < rec_rssi (the (r n))" if "j < n" "usable aps (r j) \<noteq> None" for j
        using IH that True unfolding is_best_def by fastforce
      then have "is_best aps r (Suc n) n b" using Some by (auto simp: is_best_def b' less_Suc_eq less_imp_le)
      then show ?thesis by blast
    next
      case False
      then have "b = a" by (simp add: b consider_network_eq Some)
      moreover have "bn_db a \<noteq> - (2 ^ 31)" using False Suc.prems(1) [of n] Some by force
      ultimately obtain i where "is_best aps r n i b" using IH by blast
      then have "is_best aps r (Suc n) i b" using False \<open>b = a\<close> by (auto simp: is_best_def less_Suc_eq)
      then show ?thesis by blast
    qed
  qed
qed simp


section \<open>Waiting ends\<close>

lemma wait_while_returns:
  assumes "m < n" "\<not> on (clock (k + m) - start)"
  shows "\<exists>w'. wait_while go on others clock start n k w = Some w'"
  using assms
proof (induction n arbitrary: m k w)
  case (Suc n)
  show ?case
  proof (cases m)
    case 0
    with Suc.prems show ?thesis by simp
  next
    case (Suc j)
    with Suc.prems Suc.IH [of j "k + 1" "others k w"] show ?thesis by simp
  qed
qed simp

lemma multi_scan_returns:
  assumes "m < n" "connectTimeout < clock m - clock 0"
  shows "\<exists>s w'. multi_scan d others scanning clock now connectTimeout n aps s0 w = Some (s, w')"
proof -
  have "\<exists>w'. wait_while multi_waits (\<lambda>t. t \<le> connectTimeout) others clock (clock 0) n 0 u = Some w'" for u
    using wait_while_returns [of m n "\<lambda>t. t \<le> connectTimeout" clock 0 "clock 0"] assms by (simp add: not_le)
  then have "\<exists>s w'. multi_connect d others clock connectTimeout n b s0 u = Some (s, w')" for b u
    by (auto simp: multi_connect_def split_beta split: option.split)
  then show ?thesis by (simp add: multi_scan_def Let_def split_beta)
qed

text \<open>C35: \<open>run\<close> and \<open>waitForConnectResult\<close> return whatever the driver and the other tasks do, after at most one
  round for each ten milliseconds of the timeout and two more, if each delay takes at least ten milliseconds and the timeout is
  not within ten milliseconds of the range of the clock.\<close>

theorem waiting_returns:
  assumes "\<And>k. 10 * k < 2 ^ 32 \<Longrightarrow> k \<le> unat timeout div 10 + 1 \<Longrightarrow> 10 * k \<le> unat (clock k - clock 0)"
    and "unat timeout div 10 + 2 \<le> n" "unat timeout + 10 < 2 ^ 32"
  shows "(\<exists>s w'. multi_run d others delayed scanning clock now timeout n aps w = Some (s, w')) \<and>
    (\<exists>s w'. waitForConnectResult d others clock timeout n w = Some (s, w'))"
proof -
  let ?m = "unat timeout div 10 + 1"
  have ten: "unat timeout < 10 * ?m" "10 * ?m \<le> unat timeout + 10" by simp_all
  then have "10 * ?m \<le> unat (clock ?m - clock 0)" using assms(3) by (intro assms(1)) simp_all
  then have late: "timeout < clock ?m - clock 0" using ten by (simp add: word_less_nat_alt)
  have m: "?m < n" using assms(2) by simp
  note scan = multi_scan_returns [OF m late, of d others scanning now aps]
  have "\<exists>s w'. multi_run d others delayed scanning clock now timeout n aps w = Some (s, w')"
    by (simp add: multi_run_def Let_def split_beta scan)
  moreover obtain w' where "wait_while still_connecting (\<lambda>t. t < timeout) others clock (clock 0) n 0 (snd (getMode d w)) = Some w'"
    using wait_while_returns [of ?m n "\<lambda>t. t < timeout" clock 0 "clock 0" still_connecting others "snd (getMode d w)", OF m] late
    by (auto simp: not_less less_imp_le)
  then have "\<exists>s w'. waitForConnectResult d others clock timeout n w = Some (s, w')"
    by (simp add: waitForConnectResult_def split_beta Let_def)
  ultimately show ?thesis ..
qed

section \<open>A connection to a known network is kept\<close>

definition only_asks :: "esp_call \<Rightarrow> bool" where "only_asks c \<longleftrightarrow> c = Wifi_get_mode \<or> c = Wifi_sta_get_ap_info"

lemma sta_SSID_asks:
  "\<exists>cs. snd (sta_SSID d w) = w\<lparr>calls := calls w @ cs\<rparr> \<and> (\<forall>c \<in> set cs. only_asks c)"
proof -
  have "\<exists>cs. snd (getMode d w) = w\<lparr>calls := calls w @ cs\<rparr> \<and> (\<forall>c \<in> set cs. only_asks c)"
  proof (cases "lowLevelInitDone w \<and> esp_wifi_started w")
    case True
    then show ?thesis by (intro exI [of _ "[Wifi_get_mode]"]) (simp add: getMode_def drv_def only_asks_def)
  next
    case False
    then show ?thesis by (intro exI [of _ "[]"]) (auto simp: getMode_def)
  qed
  then obtain cs where cs: "snd (getMode d w) = w\<lparr>calls := calls w @ cs\<rparr>" "\<forall>c \<in> set cs. only_asks c" by blast
  show ?thesis
  proof (cases "fst (getMode d w) = mode_null")
    case True
    with cs show ?thesis by (intro exI [of _ cs]) (simp add: sta_SSID_def if_on_def split_beta Let_def)
  next
    case False
    with cs show ?thesis
      by (intro exI [of _ "cs @ [Wifi_sta_get_ap_info]"])
        (auto simp: sta_SSID_def if_on_def split_beta Let_def get_ap_info_def drv_def only_asks_def)
  qed
qed

lemma known_connection_asks:
  "\<exists>cs. snd (known_connection d aps w) = w\<lparr>calls := calls w @ cs\<rparr> \<and> (\<forall>c \<in> set cs. only_asks c)"
proof (induction aps arbitrary: w)
  case Nil
  show ?case by (intro exI [of _ "[]"]) simp
next
  case (Cons e aps)
  obtain cs where cs: "snd (sta_SSID d w) = w\<lparr>calls := calls w @ cs\<rparr>" "\<forall>c \<in> set cs. only_asks c"
    using sta_SSID_asks by blast
  obtain ds where ds: "snd (known_connection d aps (w\<lparr>calls := calls w @ cs\<rparr>)) = w\<lparr>calls := calls w @ cs @ ds\<rparr>"
    "\<forall>c \<in> set ds. only_asks c" using Cons.IH [of "w\<lparr>calls := calls w @ cs\<rparr>"] by auto
  show ?case
  proof (cases "fst (sta_SSID d w) = en_ssid e")
    case True
    with cs show ?thesis by (intro exI [of _ cs]) (simp add: split_beta)
  next
    case False
    with cs ds show ?thesis by (intro exI [of _ "cs @ ds"]) (auto simp: split_beta)
  qed
qed

text \<open>When the station is connected and its network is in the list, \<open>run\<close> reports the connection and does nothing to
  it: it only asks the driver for the mode and for the access point.\<close>

theorem run_keeps_known_network:
  assumes "status w = WL_CONNECTED" "fst (known_connection d aps w)"
  shows "\<exists>cs. multi_run d others delayed scanning clock now timeout n aps w =
      Some (WL_CONNECTED, w\<lparr>calls := calls w @ cs\<rparr>) \<and> (\<forall>c \<in> set cs. c = Wifi_get_mode \<or> c = Wifi_sta_get_ap_info)"
  using known_connection_asks [of d aps w] assms by (auto simp: multi_run_def split_beta only_asks_def)

section \<open>The list\<close>

text \<open>\<open>addAP\<close> appends a network if and only if it has an SSID of 1 to 31 characters and a passphrase of at most 64,
  and the memory suffices; otherwise the list stays as it is. So every entry has an SSID that a scan
  can report, but a network whose SSID has the 32 characters that \<open>begin\<close> accepts cannot be added.\<close>

theorem addAP_outcome:
  assumes "addAP ok1 ok2 ssid pass aps = (ok, aps')"
  shows "(ok \<longrightarrow> (\<exists>s p. ssid = Some s \<and> 1 \<le> length s \<and> length s \<le> 31 \<and> aps' = aps @ [\<lparr>en_ssid = s, en_pass = p\<rparr>] \<and>
      (p = None \<and> (pass = None \<or> pass = Some []) \<or> p = pass \<and> (\<exists>q. p = Some q \<and> q \<noteq> [] \<and> length q \<le> 64)))) \<and>
    (\<not> ok \<longrightarrow> aps' = aps) \<and> (\<forall>s. ssid = Some s \<and> length s = 32 \<longrightarrow> \<not> ok) \<and>
    (\<forall>s. ok1 \<and> ok2 \<and> ssid = Some s \<and> 1 \<le> length s \<and> length s \<le> 31 \<and> (\<forall>q. pass = Some q \<longrightarrow> length q \<le> 64) \<longrightarrow> ok)"
  using assms
  by (cases ssid; cases pass) (auto simp: addAP_def not_less Suc_le_eq split: if_splits)

section \<open>Concrete networks\<close>

text \<open>Two networks are scanned, the stronger one is secured; the list knows both.\<close>

definition scanned :: wifi where
  "scanned = wifi_reset\<lparr>scanCount := 2, scanResult :=
     [\<lparr>rec_ssid = ''cafe'', rec_bssid = [1], rec_primary = 1, rec_rssi = - 70, rec_authmode = 0\<rparr>,
      \<lparr>rec_ssid = ''home'', rec_bssid = [2], rec_primary = 6, rec_rssi = - 50, rec_authmode = 3\<rparr>]\<rparr>"

definition known :: "ap_entry list" where
  "known = [\<lparr>en_ssid = ''home'', en_pass = Some ''secret42''\<rparr>, \<lparr>en_ssid = ''cafe'', en_pass = None\<rparr>]"


lemma addAP_outcome_witness: "\<not> fst (addAP True True (Some (replicate 32 CHR ''a'')) None [])"
proof -
  obtain ok aps where "addAP True True (Some (replicate 32 CHR ''a'')) None [] = (ok, aps)" by fastforce
  from addAP_outcome [OF this] this show ?thesis by auto
qed

text \<open>A station that is connected to the first network of the list.\<close>

definition home_driver :: esp_driver where
  "home_driver = \<lparr>answer = (\<lambda>cs c. ESP_OK), got_mode = (\<lambda>cs. \<lparr>mode_sta = True, mode_ap = False\<rparr>),
     got_config = (\<lambda>cs. wifi_sta_config None None None 0 0 WIFI_FAST_SCAN WIFI_CONNECT_AP_BY_SIGNAL), got_clients = (\<lambda>cs. 0), got_ap_num = (\<lambda>cs. 0),
     got_mac = (\<lambda>cs. [1, 2, 3, 4, 5, 6]),
     got_ap_config = (\<lambda>cs. \<lparr>ap_ssid = [], ap_ssid_len = 0, ap_password = [], ap_channel = 0, ap_authmode = 0, ap_ssid_hidden = 0,
       ap_max_connection = 0, ap_beacon_interval = 0, ap_pairwise_cipher = 0, ap_ftm_responder = False\<rparr>),
     got_ap_info = (\<lambda>cs. \<lparr>rec_ssid = ''home'', rec_bssid = [], rec_primary = 6, rec_rssi = - 50, rec_authmode = 3\<rparr>),
     got_ap_records = (\<lambda>cs. []), got_ip_info = (\<lambda>cs. \<lparr>ip_addr = 0, ip_netmask = 0, ip_gw = 0\<rparr>),
     got_hostname = (\<lambda>cs. None), got_ip6 = (\<lambda>cs. []), got_dns = (\<lambda>cs. 0),
     got_channel = (\<lambda>cs. 6), got_tx_power = (\<lambda>cs. 78), got_ant_gpio = (\<lambda>cs. replicate 4 (False, 0)), idf_target = ''esp32''\<rparr>"

lemma run_keeps_known_network_witness:
  "\<exists>w'. multi_run home_driver (\<lambda>_ w. w) (\<lambda>w. w) (\<lambda>w. w) (\<lambda>k. of_nat (10 * k)) 0 5000 502 known
     (wifi_reset\<lparr>lowLevelInitDone := True, esp_wifi_started := True, sta_status := WL_CONNECTED\<rparr>) = Some (WL_CONNECTED, w')"
proof -
  let ?w = "wifi_reset\<lparr>lowLevelInitDone := True, esp_wifi_started := True, sta_status := WL_CONNECTED\<rparr>"
  have s: "status ?w = WL_CONNECTED" by (simp add: status_def wifi_reset_def)
  have "fst (known_connection home_driver known ?w)"
    by (simp add: known_def sta_SSID_def if_on_def getMode_def get_ap_info_def home_driver_def drv_def mode_null_def wifi_reset_def)
  from run_keeps_known_network [OF s this] show ?thesis by blast
qed

lemma waiting_returns_witness:
  "(\<exists>s w'. multi_run home_driver (\<lambda>_ w. w) (\<lambda>w. w) (\<lambda>w. w) (\<lambda>k. of_nat (10 * k)) 0 5000 502 known scanned = Some (s, w')) \<and>
   (\<exists>s w'. waitForConnectResult home_driver (\<lambda>_ w. w) (\<lambda>k. of_nat (10 * k)) 5000 502 scanned = Some (s, w'))"
proof -
  have "10 * k \<le> unat ((of_nat (10 * k) :: u32) - of_nat (10 * 0))" if "10 * k < 2 ^ 32" for k
  proof -
    have "unat (of_nat (10 * k) :: u32) = 10 * k" by (subst unat_of_nat, rule mod_less) (use that in simp)
    then show ?thesis by (simp del: of_nat_mult)
  qed
  from waiting_returns [of 5000 "\<lambda>k. of_nat (10 * k)" 502, OF this] show ?thesis by simp
qed

end
