(* ===== verification/Async_Future.thy ===== *)
theory Async_Future
  imports Atomic_Shared_Ptr
begin

text \<open>
  Futures (\<open>include/Core/Async/\<close>: \<open>AsyncResult.h\<close>, \<open>Future/*.h\<close>, \<open>create_timeout_future.h\<close>,
  \<open>create_wait_future.h\<close>, \<open>Deferred.h\<close>). A future is its cached result and the variables its poll
  callback captured. A callback is a function of the input, the captured variables and the
  world around (clock, heap, anything it calls). A combinator is the callback of a future that captured
  other futures. The void specialisations of the templates are the definitions with \<open>_void\<close>.
\<close>

section \<open>Results\<close>

datatype async_state = Pending | Resolved | Rejected

text \<open>\<open>AsyncResult<T, E>\<close>: the value and the error can be read only in their state.\<close>

datatype ('t, 'e) async_result = R_pending | R_resolved 't | R_rejected 'e

definition get_state :: "('t, 'e) async_result \<Rightarrow> async_state" where
  "get_state r = (case r of R_pending \<Rightarrow> Pending | R_resolved _ \<Rightarrow> Resolved | R_rejected _ \<Rightarrow> Rejected)"

definition is_pending :: "('t, 'e) async_result \<Rightarrow> bool" where "is_pending r \<longleftrightarrow> get_state r = Pending"
definition is_resolved :: "('t, 'e) async_result \<Rightarrow> bool" where "is_resolved r \<longleftrightarrow> get_state r = Resolved"
definition is_rejected :: "('t, 'e) async_result \<Rightarrow> bool" where "is_rejected r \<longleftrightarrow> get_state r = Rejected"

definition get_value :: "('t, 'e) async_result \<Rightarrow> 't option" where
  "get_value r = (case r of R_resolved v \<Rightarrow> Some v | _ \<Rightarrow> None)"

definition get_error :: "('t, 'e) async_result \<Rightarrow> 'e option" where
  "get_error r = (case r of R_rejected e \<Rightarrow> Some e | _ \<Rightarrow> None)"

text \<open>The void specialisation can be built from a state alone; a rejection then holds the error a
  default constructor makes.\<close>

definition void_result :: "'e \<Rightarrow> async_state \<Rightarrow> (unit, 'e) async_result" where
  "void_result e0 s = (case s of Pending \<Rightarrow> R_pending | Resolved \<Rightarrow> R_resolved () | Rejected \<Rightarrow> R_rejected e0)"

lemma result_tests [simp]:
  "is_pending R_pending" "\<not> is_pending (R_resolved v)" "\<not> is_pending (R_rejected e)"
  "\<not> is_resolved R_pending" "is_resolved (R_resolved v)" "\<not> is_resolved (R_rejected e)"
  "\<not> is_rejected R_pending" "\<not> is_rejected (R_resolved v)" "is_rejected (R_rejected e)"
  "get_value (R_resolved v) = Some v" "get_error (R_rejected e) = Some e"
  by (simp_all add: is_pending_def is_resolved_def is_rejected_def get_state_def get_value_def get_error_def)

lemma is_pending_iff: "is_pending r \<longleftrightarrow> r = R_pending"
  by (cases r) simp_all

section \<open>Futures\<close>

type_synonym ('i, 's, 'w, 'o, 'e) callback = "'i \<Rightarrow> 's \<Rightarrow> 'w \<Rightarrow> ('o, 'e) async_result \<times> 's \<times> 'w"

record ('s, 'o, 'e) future =
  fu_result :: "('o, 'e) async_result"
  fu_captured :: 's

definition new_future :: "'s \<Rightarrow> ('s, 'o, 'e) future" where
  "new_future s = \<lparr>fu_result = R_pending, fu_captured = s\<rparr>"

definition resolve_cb :: "('i, 'o, 'w, 'o, 'e) callback" where "resolve_cb i s w = (R_resolved s, s, w)"
definition reject_cb :: "('i, 'e, 'w, 'o, 'e) callback" where "reject_cb i s w = (R_rejected s, s, w)"

definition future_poll ::
  "('i, 's, 'w, 'o, 'e) callback \<Rightarrow> 'i \<Rightarrow> ('s, 'o, 'e) future \<Rightarrow> 'w \<Rightarrow>
   ('o, 'e) async_result \<times> ('s, 'o, 'e) future \<times> 'w" where
  "future_poll cb i f w =
     (if is_pending (fu_result f)
      then let (r, s, w) = cb i (fu_captured f) w; f = f\<lparr>fu_captured := s, fu_result := r\<rparr> in (fu_result f, f, w)
      else (fu_result f, f, w))"

text \<open>\<open>and_then(next_future)\<close>; \<open>conv\<close> is the conversion of the error type.\<close>

definition and_then_cb ::
  "('e \<Rightarrow> 'g) \<Rightarrow> ('i, 's, 'w, 'o, 'e) callback \<Rightarrow> ('o, 't, 'w, 'n, 'g) callback \<Rightarrow>
   ('i, ('s, 'o, 'e) future \<times> ('t, 'n, 'g) future, 'w, 'n, 'g) callback" where
  "and_then_cb conv cb1 cb2 i fs w =
     (let (this, nxt) = fs;
          (this, w) = (if is_pending (fu_result this) then snd (future_poll cb1 i this w) else (this, w))
      in case fu_result this of
           R_pending \<Rightarrow> (R_pending, (this, nxt), w)
         | R_rejected e \<Rightarrow> (R_rejected (conv e), (this, nxt), w)
         | R_resolved v \<Rightarrow> let (r, nxt, w) = future_poll cb2 v nxt w in (r, (this, nxt), w))"

text \<open>\<open>and_then(fn)\<close>: the function becomes a future that resolves at its first poll.\<close>

definition fn_cb :: "('i \<Rightarrow> 'w \<Rightarrow> 'o \<times> 'w) \<Rightarrow> ('i, unit, 'w, 'o, 'e) callback" where
  "fn_cb fn i s w = (let (v, w) = fn i w in (R_resolved v, (), w))"

definition and_then_fn_cb ::
  "('i, 's, 'w, 'o, 'e) callback \<Rightarrow> ('o \<Rightarrow> 'w \<Rightarrow> 'n \<times> 'w) \<Rightarrow>
   ('i, ('s, 'o, 'e) future \<times> (unit, 'n, 'e) future, 'w, 'n, 'e) callback" where
  "and_then_fn_cb cb fn = and_then_cb (\<lambda>e. e) cb (fn_cb fn)"

section \<open>The void specialisations\<close>

text \<open>A callback without an input, a value that is not there: \<open>FutureVoidInput.h\<close>, \<open>FutureVoidOutput.h\<close>,
  \<open>FutureVoidBoth.h\<close>.\<close>

type_synonym ('s, 'w, 'o, 'e) callback0 = "'s \<Rightarrow> 'w \<Rightarrow> ('o, 'e) async_result \<times> 's \<times> 'w"

definition resolve_void_in :: "('o, 'w, 'o, 'e) callback0" where "resolve_void_in s w = (R_resolved s, s, w)"
definition reject_void_in :: "('e, 'w, 'o, 'e) callback0" where "reject_void_in s w = (R_rejected s, s, w)"

definition poll_void_in ::
  "('s, 'w, 'o, 'e) callback0 \<Rightarrow> ('s, 'o, 'e) future \<Rightarrow> 'w \<Rightarrow> ('o, 'e) async_result \<times> ('s, 'o, 'e) future \<times> 'w" where
  "poll_void_in cb f w =
     (if is_pending (fu_result f)
      then let (r, s, w) = cb (fu_captured f) w; f = f\<lparr>fu_captured := s, fu_result := r\<rparr> in (fu_result f, f, w)
      else (fu_result f, f, w))"

definition and_then_void_in ::
  "('e \<Rightarrow> 'g) \<Rightarrow> ('s, 'w, 'o, 'e) callback0 \<Rightarrow> ('o, 't, 'w, 'n, 'g) callback \<Rightarrow>
   (('s, 'o, 'e) future \<times> ('t, 'n, 'g) future, 'w, 'n, 'g) callback0" where
  "and_then_void_in conv cb1 cb2 fs w =
     (let (this, nxt) = fs;
          (this, w) = (if is_pending (fu_result this) then snd (poll_void_in cb1 this w) else (this, w))
      in case fu_result this of
           R_pending \<Rightarrow> (R_pending, (this, nxt), w)
         | R_rejected e \<Rightarrow> (R_rejected (conv e), (this, nxt), w)
         | R_resolved v \<Rightarrow> let (r, nxt, w) = future_poll cb2 v nxt w in (r, (this, nxt), w))"

definition fn_void_in :: "('o \<Rightarrow> 'w \<Rightarrow> 'n \<times> 'w) \<Rightarrow> ('o, unit, 'w, 'n, 'e) callback" where
  "fn_void_in fn v s w = (let (n, w) = fn v w in (R_resolved n, (), w))"

definition action_void_in :: "('o \<Rightarrow> 'w \<Rightarrow> 'w) \<Rightarrow> ('o, unit, 'w, unit, 'e) callback" where
  "action_void_in fn v s w = (R_resolved (), (), fn v w)"

definition resolve_void_out :: "('i, unit, 'w, unit, 'e) callback" where "resolve_void_out i s w = (R_resolved (), s, w)"
definition reject_void_out :: "('i, 'e, 'w, unit, 'e) callback" where "reject_void_out i s w = (R_rejected s, s, w)"

definition poll_void_out ::
  "('i, 's, 'w, unit, 'e) callback \<Rightarrow> 'i \<Rightarrow> ('s, unit, 'e) future \<Rightarrow> 'w \<Rightarrow>
   (unit, 'e) async_result \<times> ('s, unit, 'e) future \<times> 'w" where
  "poll_void_out cb i f w =
     (if is_pending (fu_result f)
      then let (r, s, w) = cb i (fu_captured f) w; f = f\<lparr>fu_captured := s, fu_result := r\<rparr> in (fu_result f, f, w)
      else (fu_result f, f, w))"

definition and_then_void_out ::
  "('e \<Rightarrow> 'g) \<Rightarrow> ('i, 's, 'w, unit, 'e) callback \<Rightarrow> ('t, 'w, 'n, 'g) callback0 \<Rightarrow>
   ('i, ('s, unit, 'e) future \<times> ('t, 'n, 'g) future, 'w, 'n, 'g) callback" where
  "and_then_void_out conv cb1 cb2 i fs w =
     (let (this, nxt) = fs;
          (this, w) = (if is_pending (fu_result this) then snd (poll_void_out cb1 i this w) else (this, w))
      in case fu_result this of
           R_pending \<Rightarrow> (R_pending, (this, nxt), w)
         | R_rejected e \<Rightarrow> (R_rejected (conv e), (this, nxt), w)
         | R_resolved _ \<Rightarrow> let (r, nxt, w) = poll_void_in cb2 nxt w in (r, (this, nxt), w))"

definition fn_void_out :: "('w \<Rightarrow> 'n \<times> 'w) \<Rightarrow> (unit, 'w, 'n, 'e) callback0" where
  "fn_void_out fn s w = (let (n, w) = fn w in (R_resolved n, (), w))"

definition resolve_void :: "(unit, 'w, unit, 'e) callback0" where "resolve_void s w = (R_resolved (), s, w)"
definition reject_void :: "('e, 'w, unit, 'e) callback0" where "reject_void s w = (R_rejected s, s, w)"

definition poll_void ::
  "('s, 'w, unit, 'e) callback0 \<Rightarrow> ('s, unit, 'e) future \<Rightarrow> 'w \<Rightarrow> (unit, 'e) async_result \<times> ('s, unit, 'e) future \<times> 'w" where
  "poll_void cb f w =
     (if is_pending (fu_result f)
      then let (r, s, w) = cb (fu_captured f) w; f = f\<lparr>fu_captured := s, fu_result := r\<rparr> in (fu_result f, f, w)
      else (fu_result f, f, w))"

definition and_then_void ::
  "('e \<Rightarrow> 'g) \<Rightarrow> ('s, 'w, unit, 'e) callback0 \<Rightarrow> ('t, 'w, 'n, 'g) callback0 \<Rightarrow>
   (('s, unit, 'e) future \<times> ('t, 'n, 'g) future, 'w, 'n, 'g) callback0" where
  "and_then_void conv cb1 cb2 fs w =
     (let (this, nxt) = fs;
          (this, w) = (if is_pending (fu_result this) then snd (poll_void cb1 this w) else (this, w))
      in case fu_result this of
           R_pending \<Rightarrow> (R_pending, (this, nxt), w)
         | R_rejected e \<Rightarrow> (R_rejected (conv e), (this, nxt), w)
         | R_resolved _ \<Rightarrow> let (r, nxt, w) = poll_void_in cb2 nxt w in (r, (this, nxt), w))"

definition fn_void :: "('w \<Rightarrow> 'n \<times> 'w) \<Rightarrow> (unit, 'w, 'n, 'e) callback0" where
  "fn_void fn s w = (let (n, w) = fn w in (R_resolved n, (), w))"

definition action_void :: "('w \<Rightarrow> 'w) \<Rightarrow> (unit, 'w, unit, 'e) callback0" where
  "action_void fn s w = (R_resolved (), (), fn w)"

section \<open>Combinators\<close>

text \<open>\<open>FutureCombinators::all\<close> and \<open>race\<close>, on futures without input and output.\<close>

definition all_cb ::
  "('s, 'w, unit, 'e) callback0 \<Rightarrow> ('t, 'w, unit, 'e) callback0 \<Rightarrow>
   (('s, unit, 'e) future \<times> ('t, unit, 'e) future, 'w, unit, 'e) callback0" where
  "all_cb cb1 cb2 fs w =
     (let (f1, f2) = fs;
          (f1, w) = (if is_pending (fu_result f1) then snd (poll_void cb1 f1 w) else (f1, w));
          (f2, w) = (if is_pending (fu_result f2) then snd (poll_void cb2 f2 w) else (f2, w));
          r = (case fu_result f1 of R_rejected e \<Rightarrow> R_rejected e
               | _ \<Rightarrow> (case fu_result f2 of R_rejected e \<Rightarrow> R_rejected e
                 | _ \<Rightarrow> if \<not> is_pending (fu_result f1) \<and> \<not> is_pending (fu_result f2) then R_resolved () else R_pending))
      in (r, (f1, f2), w))"

definition race_cb ::
  "('s, 'w, unit, 'e) callback0 \<Rightarrow> ('t, 'w, unit, 'e) callback0 \<Rightarrow>
   (('s, unit, 'e) future \<times> ('t, unit, 'e) future, 'w, unit, 'e) callback0" where
  "race_cb cb1 cb2 fs w =
     (let (f1, f2) = fs;
          (f1, w) = (if is_pending (fu_result f1) then snd (poll_void cb1 f1 w) else (f1, w))
      in if \<not> is_pending (fu_result f1) then (fu_result f1, (f1, f2), w)
         else
           let (f2, w) = (if is_pending (fu_result f2) then snd (poll_void cb2 f2 w) else (f2, w))
           in if \<not> is_pending (fu_result f2) then (fu_result f2, (f1, f2), w)
              else (R_pending, (f1, f2), w))"

section \<open>Time\<close>

text \<open>\<open>millis\<close> is the clock, which the world determines.\<close>

definition create_timeout_future ::
  "('w \<Rightarrow> u32) \<Rightarrow> ('s, 'o, 'e) future \<Rightarrow> u32 \<Rightarrow> 'w \<Rightarrow> (('s, 'o, 'e) future \<times> u32, 'o, 'e) future" where
  "create_timeout_future millis f timeout_ms w = new_future (f, millis w + timeout_ms)"

definition timeout_cb ::
  "('w \<Rightarrow> u32) \<Rightarrow> 'e \<Rightarrow> ('i, 's, 'w, 'o, 'e) callback \<Rightarrow> ('i, ('s, 'o, 'e) future \<times> u32, 'w, 'o, 'e) callback" where
  "timeout_cb millis err cb i fs w =
     (let (f, timeout_time) = fs
      in if millis w \<ge> timeout_time \<and> is_pending (fu_result f) then (R_rejected err, (f, timeout_time), w)
         else let (r, f, w) = future_poll cb i f w in (r, (f, timeout_time), w))"

definition create_timeout_void ::
  "('w \<Rightarrow> u32) \<Rightarrow> ('s, 'o, 'e) future \<Rightarrow> u32 \<Rightarrow> 'w \<Rightarrow> (('s, 'o, 'e) future \<times> u32, 'o, 'e) future" where
  "create_timeout_void millis f timeout_ms w = new_future (f, millis w + timeout_ms)"

definition timeout_void ::
  "('w \<Rightarrow> u32) \<Rightarrow> 'e \<Rightarrow> ('s, 'w, 'o, 'e) callback0 \<Rightarrow> (('s, 'o, 'e) future \<times> u32, 'w, 'o, 'e) callback0" where
  "timeout_void millis err cb fs w =
     (let (f, timeout_time) = fs
      in if millis w \<ge> timeout_time \<and> is_pending (fu_result f) then (R_rejected err, (f, timeout_time), w)
         else let (r, f, w) = poll_void_in cb f w in (r, (f, timeout_time), w))"

definition get_wait_async_state :: "('w \<Rightarrow> u32) \<Rightarrow> u32 \<Rightarrow> 'w \<Rightarrow> (unit, 'e) async_result" where
  "get_wait_async_state millis timeout_time w = (if timeout_time \<le> millis w then R_resolved () else R_pending)"

definition create_wait_future :: "('w \<Rightarrow> u32) \<Rightarrow> u32 \<Rightarrow> 'w \<Rightarrow> (u32, unit, 'e) future" where
  "create_wait_future millis timeout_ms w = new_future (millis w + timeout_ms)"

definition wait_cb :: "('w \<Rightarrow> u32) \<Rightarrow> ('i, u32, 'w, unit, 'e) callback" where
  "wait_cb millis i timeout_time w = (get_wait_async_state millis timeout_time w, timeout_time, w)"

definition create_wait_void :: "('w \<Rightarrow> u32) \<Rightarrow> u32 \<Rightarrow> 'w \<Rightarrow> (u32, unit, 'e) future" where
  "create_wait_void millis timeout_ms w = new_future (millis w + timeout_ms)"

definition wait_void :: "('w \<Rightarrow> u32) \<Rightarrow> (u32, 'w, unit, 'e) callback0" where
  "wait_void millis timeout_time w = (get_wait_async_state millis timeout_time w, timeout_time, w)"

end
