(* ===== verification/Async_Properties.thy ===== *)
theory Async_Properties
  imports Async_Future
begin

text \<open>
  What the futures do over several polls. \<open>pendings\<close> polls a future a number of times, with anything
  happening between the polls (\<open>idle\<close>); \<open>settles\<close> is the number of polls that found it pending and what
  came of the next one.
\<close>

section \<open>The specialisations\<close>

lemma poll_void_in_eq: "poll_void_in cb = future_poll (\<lambda>_. cb) i"
  by (intro ext) (simp add: poll_void_in_def future_poll_def)

lemma poll_void_out_eq: "poll_void_out = future_poll"
  by (intro ext) (simp add: poll_void_out_def future_poll_def)

lemma poll_void_eq: "poll_void cb = future_poll (\<lambda>_. cb) i"
  by (intro ext) (simp add: poll_void_def future_poll_def)

lemma and_then_void_in_eq: "and_then_void_in conv cb1 cb2 = and_then_cb conv (\<lambda>_. cb1) cb2 i"
  by (intro ext) (unfold and_then_void_in_def and_then_cb_def poll_void_in_eq [of cb1 i], rule refl)

lemma and_then_void_out_eq: "and_then_void_out conv cb1 cb2 = and_then_cb conv cb1 (\<lambda>_. cb2)"
  by (intro ext) (unfold and_then_void_out_def and_then_cb_def poll_void_out_eq poll_void_in_eq [symmetric], rule refl)

lemma and_then_void_eq: "and_then_void conv cb1 cb2 = and_then_cb conv (\<lambda>_. cb1) (\<lambda>_. cb2) i"
  by (intro ext) (unfold and_then_void_def and_then_cb_def poll_void_eq [of cb1 i] poll_void_in_eq [symmetric], rule refl)

text \<open>The three specialisations of \<open>Future\<close> for a void input or output, which are separate copies of the
  class, poll, chain, resolve and reject like the class itself, and so do the void versions of the
  timeout and of the wait.\<close>

theorem void_specialisations_agree:
  "poll_void_in cb f w = future_poll (\<lambda>_. cb) i f w \<and>
   poll_void_out c j h w = future_poll c j h w \<and>
   poll_void b g w = future_poll (\<lambda>_. b) i g w \<and>
   and_then_void_in conv cb c2 fs w = and_then_cb conv (\<lambda>_. cb) c2 i fs w \<and>
   and_then_void_out conv c cb3 j gs w = and_then_cb conv c (\<lambda>_. cb3) j gs w \<and>
   and_then_void conv b cb3 hs w = and_then_cb conv (\<lambda>_. b) (\<lambda>_. cb3) i hs w \<and>
   timeout_void millis err cb ts w = timeout_cb millis err (\<lambda>_. cb) i ts w \<and>
   wait_void millis t w = wait_cb millis i t w"
  unfolding and_then_void_in_eq [of conv cb c2 i] and_then_void_out_eq and_then_void_eq [of conv b cb3 i]
    poll_void_in_eq [of cb i] poll_void_out_eq poll_void_eq [of b i]
    timeout_void_def timeout_cb_def wait_void_def wait_cb_def
  by (intro conjI refl)

section \<open>Polling over time\<close>

fun pendings ::
  "('i, 's, 'w, 'o, 'e) callback \<Rightarrow> 'i \<Rightarrow> ('w \<Rightarrow> 'w) \<Rightarrow> nat \<Rightarrow> ('s, 'o, 'e) future \<Rightarrow> 'w \<Rightarrow>
   (('s, 'o, 'e) future \<times> 'w) option" where
  "pendings cb i idle 0 f w = Some (f, w)"
| "pendings cb i idle (Suc n) f w =
     (let (r, f, w) = future_poll cb i f w
      in if is_pending r then pendings cb i idle n f (idle w) else None)"

definition settles ::
  "('i, 's, 'w, 'o, 'e) callback \<Rightarrow> 'i \<Rightarrow> ('w \<Rightarrow> 'w) \<Rightarrow> nat \<Rightarrow> ('s, 'o, 'e) future \<Rightarrow> 'w \<Rightarrow>
   (('o, 'e) async_result \<times> ('s, 'o, 'e) future \<times> 'w) option" where
  "settles cb i idle n f w =
     (case pendings cb i idle n f w of
        None \<Rightarrow> None
      | Some (f, w) \<Rightarrow> let (r, f, w) = future_poll cb i f w in if is_pending r then None else Some (r, f, w))"

lemma future_poll_settled [simp]: "\<not> is_pending (fu_result f) \<Longrightarrow> future_poll cb i f w = (fu_result f, f, w)"
  by (simp add: future_poll_def)

lemma future_poll_pending:
  "fu_result f = R_pending \<Longrightarrow>
   future_poll cb i f w = (let (r, s, w) = cb i (fu_captured f) w in (r, \<lparr>fu_result = r, fu_captured = s\<rparr>, w))"
  by (simp add: future_poll_def Let_def split_beta)

lemma future_poll_result: "future_poll cb i f w = (r, f', w') \<Longrightarrow> fu_result f' = r"
  by (auto simp: future_poll_def Let_def split_beta split: if_splits)

lemma pendings_add:
  "pendings cb i idle (m + n) f w =
   (case pendings cb i idle m f w of None \<Rightarrow> None | Some (f, w) \<Rightarrow> pendings cb i idle n f w)"
  by (induction m arbitrary: f w) (auto simp: Let_def split_beta)

lemma pendings_pending:
  "pendings cb i idle n f w = Some (f', w') \<Longrightarrow> fu_result f = R_pending \<Longrightarrow> fu_result f' = R_pending"
proof (induction n arbitrary: f w)
  case (Suc n)
  obtain r g v where p: "future_poll cb i f w = (r, g, v)" by (metis prod_cases3)
  from Suc.prems p have "pendings cb i idle n g (idle v) = Some (f', w')" "is_pending r"
    by (simp_all split: if_splits)
  with Suc.IH [of g "idle v"] future_poll_result [OF p] show ?case by (simp add: is_pending_iff)
qed simp

lemma settles_0:
  "settles cb i idle 0 f w = (let (r, f, w) = future_poll cb i f w in if is_pending r then None else Some (r, f, w))"
  by (simp add: settles_def)

lemma settles_Suc:
  "settles cb i idle (Suc n) f w =
   (let (r, f, w) = future_poll cb i f w in if is_pending r then settles cb i idle n f (idle w) else None)"
  by (simp add: settles_def Let_def split_beta)

text \<open>How a chain follows its two futures.\<close>

lemma chain_first_pending:
  assumes "fu_result f = R_pending" "fu_result c = R_pending" "fu_captured c = (f, g)"
    and "future_poll cb1 i f w = (R_pending, f', w')"
  shows "future_poll (and_then_cb conv cb1 cb2) i c w = (R_pending, \<lparr>fu_result = R_pending, fu_captured = (f', g)\<rparr>, w')"
  using assms future_poll_result [OF assms(4)] by (simp add: future_poll_pending [of c] and_then_cb_def)

lemma chain_first_rejected:
  assumes "fu_result f = R_pending" "fu_result c = R_pending" "fu_captured c = (f, g)"
    and "future_poll cb1 i f w = (R_rejected e, f', w')"
  shows "future_poll (and_then_cb conv cb1 cb2) i c w =
    (R_rejected (conv e), \<lparr>fu_result = R_rejected (conv e), fu_captured = (f', g)\<rparr>, w')"
  using assms future_poll_result [OF assms(4)] by (simp add: future_poll_pending [of c] and_then_cb_def)

lemma chain_first_resolved:
  assumes "fu_result f = R_pending" "fu_result c = R_pending" "fu_captured c = (f, g)"
    and "future_poll cb1 i f w = (R_resolved v, f', w')" "future_poll cb2 v g w' = (r, g', w'')"
  shows "future_poll (and_then_cb conv cb1 cb2) i c w = (r, \<lparr>fu_result = r, fu_captured = (f', g')\<rparr>, w'')"
  using assms future_poll_result [OF assms(4)] by (simp add: future_poll_pending [of c] and_then_cb_def)

lemma chain_second:
  assumes "fu_result f = R_resolved v" "fu_result c = R_pending" "fu_captured c = (f, g)"
    and "future_poll cb2 v g w = (r, g', w')"
  shows "future_poll (and_then_cb conv cb1 cb2) i c w = (r, \<lparr>fu_result = r, fu_captured = (f, g')\<rparr>, w')"
  using assms by (simp add: future_poll_pending [of c] and_then_cb_def)

lemma chain_pendings_first:
  assumes "pendings cb1 i idle n f w = Some (f', w')" "fu_result f = R_pending"
  shows "pendings (and_then_cb conv cb1 cb2) i idle n \<lparr>fu_result = R_pending, fu_captured = (f, g)\<rparr> w =
    Some (\<lparr>fu_result = R_pending, fu_captured = (f', g)\<rparr>, w')"
  using assms
proof (induction n arbitrary: f w)
  case (Suc n)
  obtain r h v where p: "future_poll cb1 i f w = (r, h, v)" by (metis prod_cases3)
  from Suc.prems p have h: "pendings cb1 i idle n h (idle v) = Some (f', w')" "r = R_pending"
    by (simp_all add: is_pending_iff split: if_splits)
  have c: "future_poll (and_then_cb conv cb1 cb2) i \<lparr>fu_result = R_pending, fu_captured = (f, g)\<rparr> w =
      (R_pending, \<lparr>fu_result = R_pending, fu_captured = (h, g)\<rparr>, v)"
    by (rule chain_first_pending [of f]) (use Suc.prems p h in simp_all)
  from Suc.IH [of h "idle v"] h future_poll_result [OF p] show ?case by (simp add: c)
qed simp

lemma chain_settles_second:
  assumes "settles cb2 v idle n g w = Some (r, g', w')" "fu_result f = R_resolved v" "fu_result g = R_pending"
  shows "settles (and_then_cb conv cb1 cb2) i idle n \<lparr>fu_result = R_pending, fu_captured = (f, g)\<rparr> w =
    Some (r, \<lparr>fu_result = r, fu_captured = (f, g')\<rparr>, w')"
  using assms
proof (induction n arbitrary: g w)
  case 0
  then have p: "future_poll cb2 v g w = (r, g', w')" "\<not> is_pending r"
    by (auto simp add: settles_0 split_beta prod_eq_iff split: if_splits)
  have "future_poll (and_then_cb conv cb1 cb2) i \<lparr>fu_result = R_pending, fu_captured = (f, g)\<rparr> w =
      (r, \<lparr>fu_result = r, fu_captured = (f, g')\<rparr>, w')"
    by (rule chain_second [of f v _ g]) (use 0 p in simp_all)
  with p(2) show ?case by (simp add: settles_0)
next
  case (Suc n)
  obtain q h u where p: "future_poll cb2 v g w = (q, h, u)" by (metis prod_cases3)
  from Suc.prems p have h: "settles cb2 v idle n h (idle u) = Some (r, g', w')" "q = R_pending"
    by (simp_all add: settles_Suc is_pending_iff split: if_splits)
  have "future_poll (and_then_cb conv cb1 cb2) i \<lparr>fu_result = R_pending, fu_captured = (f, g)\<rparr> w =
      (R_pending, \<lparr>fu_result = R_pending, fu_captured = (f, h)\<rparr>, u)"
    by (rule chain_second [of f v _ g]) (use Suc.prems p h in simp_all)
  with h Suc.IH [of h "idle u"] Suc.prems(2) future_poll_result [OF p] show ?case by (simp add: settles_Suc)
qed

lemma settles_add:
  "settles cb i idle (m + n) f w =
   (case pendings cb i idle m f w of None \<Rightarrow> None | Some (f, w) \<Rightarrow> settles cb i idle n f w)"
  by (simp add: settles_def pendings_add split: option.split)

lemma settles_one_more:
  "pendings cb i idle n f w = Some (f', w') \<Longrightarrow>
   settles cb i idle n f w =
     (let (r, f, w) = future_poll cb i f' w' in if is_pending r then None else Some (r, f, w))"
  by (simp add: settles_def)

text \<open>The moment the first future settles.\<close>

lemma settlesE:
  assumes "settles cb i idle n f w = Some (r, f', w')"
  obtains g v where "pendings cb i idle n f w = Some (g, v)" "future_poll cb i g v = (r, f', w')" "\<not> is_pending r"
  using assms by (auto simp: settles_def Let_def split: option.splits prod.splits if_splits)

lemma chain_rejects:
  assumes "fu_result f = R_pending" "settles cb1 i idle m f w = Some (R_rejected e, f', w')"
  shows "settles (and_then_cb conv cb1 cb2) i idle m (new_future (f, g)) w =
    Some (R_rejected (conv e), \<lparr>fu_result = R_rejected (conv e), fu_captured = (f', g)\<rparr>, w')"
proof -
  from settlesE [OF assms(2)] obtain h u where
    h: "pendings cb1 i idle m f w = Some (h, u)" "future_poll cb1 i h u = (R_rejected e, f', w')" by blast
  have "future_poll (and_then_cb conv cb1 cb2) i \<lparr>fu_result = R_pending, fu_captured = (h, g)\<rparr> u =
      (R_rejected (conv e), \<lparr>fu_result = R_rejected (conv e), fu_captured = (f', g)\<rparr>, w')"
    by (rule chain_first_rejected [of h]) (use h pendings_pending [OF h(1) assms(1)] in simp_all)
  then show ?thesis by (simp add: new_future_def settles_one_more [OF chain_pendings_first [OF h(1) assms(1)]])
qed

lemma chain_continues:
  assumes "fu_result f = R_pending" "settles cb1 i idle m f w = Some (R_resolved v, f', w')"
    and "fu_result g = R_pending" "settles cb2 v idle n g w' = Some (r, g', w'')"
  shows "settles (and_then_cb conv cb1 cb2) i idle (m + n) (new_future (f, g)) w =
    Some (r, \<lparr>fu_result = r, fu_captured = (f', g')\<rparr>, w'')"
proof -
  from settlesE [OF assms(2)] obtain h u where
    h: "pendings cb1 i idle m f w = Some (h, u)" "future_poll cb1 i h u = (R_resolved v, f', w')" by blast
  note hp = pendings_pending [OF h(1) assms(1)]
  obtain q k z where k: "future_poll cb2 v g w' = (q, k, z)" by (metis prod_cases3)
  have first: "future_poll (and_then_cb conv cb1 cb2) i \<lparr>fu_result = R_pending, fu_captured = (h, g)\<rparr> u =
      (q, \<lparr>fu_result = q, fu_captured = (f', k)\<rparr>, z)"
    by (rule chain_first_resolved [OF hp _ _ h(2) k]) simp_all
  have "settles (and_then_cb conv cb1 cb2) i idle n \<lparr>fu_result = R_pending, fu_captured = (h, g)\<rparr> u =
      Some (r, \<lparr>fu_result = r, fu_captured = (f', g')\<rparr>, w'')"
  proof (cases n)
    case 0
    with assms(4) k have "q = r" "k = g'" "z = w''" "\<not> is_pending r" by (simp_all add: settles_0 split: if_splits)
    with first 0 show ?thesis by (simp add: settles_0)
  next
    case (Suc n')
    with assms(4) k have s: "settles cb2 v idle n' k (idle z) = Some (r, g', w'')" "q = R_pending"
      by (simp_all add: settles_Suc is_pending_iff split: if_splits)
    have "fu_result f' = R_resolved v" "fu_result k = R_pending"
      using future_poll_result [OF h(2)] future_poll_result [OF k] s(2) by simp_all
    from chain_settles_second [OF s(1) this] first s(2) Suc show ?thesis by (simp add: settles_Suc)
  qed
  then show ?thesis by (simp add: settles_add chain_pendings_first [OF h(1) assms(1)] new_future_def)
qed


text \<open>A chain of two futures that are each pending once; the second adds one to its input.\<close>

definition demo_cb :: "nat \<Rightarrow> nat \<Rightarrow> 'w \<Rightarrow> (nat, string) async_result \<times> nat \<times> 'w" where
  "demo_cb v k w = (if k = 0 then R_resolved (v + 1) else R_pending, k - 1, w)"


end
