(* ===== verification/Async_Combinators.thy ===== *)
theory Async_Combinators
  imports Async_Properties
begin

text \<open>
  \<open>all\<close> and \<open>race\<close> over time, and the futures that read the clock. The combined futures read the world
  and do not change it (\<open>reader\<close>), so that each would do alone what it does in the combination.
\<close>

section \<open>Two futures side by side\<close>

definition reader :: "('s \<Rightarrow> 'w \<Rightarrow> ('o, 'e) async_result \<times> 's) \<Rightarrow> ('s, 'w, 'o, 'e) callback0" where
  "reader g s w = (let (r, s) = g s w in (r, s, w))"

text \<open>The future after a number of polls.\<close>

fun after_polls ::
  "('s, 'w, 'o, 'e) callback0 \<Rightarrow> ('w \<Rightarrow> 'w) \<Rightarrow> nat \<Rightarrow> ('s, 'o, 'e) future \<Rightarrow> 'w \<Rightarrow> ('s, 'o, 'e) future" where
  "after_polls cb idle 0 f w = f"
| "after_polls cb idle (Suc n) f w = after_polls cb idle n (fst (snd (future_poll (\<lambda>_. cb) () f w))) (idle w)"

abbreviation result_after ::
  "('s, 'w, 'o, 'e) callback0 \<Rightarrow> ('w \<Rightarrow> 'w) \<Rightarrow> nat \<Rightarrow> ('s, 'o, 'e) future \<Rightarrow> 'w \<Rightarrow> ('o, 'e) async_result" where
  "result_after cb idle n f w \<equiv> fu_result (after_polls cb idle n f w)"

lemma reader_world [simp]: "snd (snd (future_poll (\<lambda>_. reader g) i f w)) = w"
  by (simp add: future_poll_def reader_def Let_def split_beta)

lemma fu_result_poll [simp]: "fu_result (fst (snd (future_poll cb i f w))) = fst (future_poll cb i f w)"
  by (simp add: future_poll_def Let_def split_beta)

lemma after_polls_settled [simp]:
  "\<not> is_pending (fu_result f) \<Longrightarrow> after_polls cb idle n f w = f"
  by (induction n arbitrary: w) simp_all

lemma settles_results:
  assumes "settles (\<lambda>_. reader g) () idle n f w = Some (r, f', w')" "fu_result f = R_pending"
  shows "result_after (reader g) idle k f w = (if k \<le> n then R_pending else r)"
  using assms
proof (induction n arbitrary: f w k)
  case 0
  obtain q h v where p: "future_poll (\<lambda>_. reader g) () f w = (q, h, v)" by (metis prod_cases3)
  from 0 p have "q = r" "\<not> is_pending r" by (simp_all add: settles_0 split: if_splits)
  with p 0(2) future_poll_result [OF p] show ?case by (cases k) simp_all
next
  case (Suc n)
  obtain q h v where p: "future_poll (\<lambda>_. reader g) () f w = (q, h, v)" by (metis prod_cases3)
  from reader_world [of g "()" f w] p have v: "v = w" by simp
  from Suc.prems p v have h: "settles (\<lambda>_. reader g) () idle n h (idle w) = Some (r, f', w')" "q = R_pending"
    by (simp_all add: settles_Suc is_pending_iff split: if_splits)
  from Suc.IH [OF h(1), of "k - 1"] h(2) future_poll_result [OF p] p Suc.prems(2) show ?case
    by (cases k) simp_all
qed

lemma settles_not_pending: "settles cb i idle n f w = Some (r, f', w') \<Longrightarrow> \<not> is_pending r"
  by (elim settlesE)

section \<open>all\<close>

definition all_result :: "(unit, 'e) async_result \<Rightarrow> (unit, 'e) async_result \<Rightarrow> (unit, 'e) async_result" where
  "all_result r1 r2 =
     (case r1 of R_rejected e \<Rightarrow> R_rejected e
      | _ \<Rightarrow> (case r2 of R_rejected e \<Rightarrow> R_rejected e
        | _ \<Rightarrow> if \<not> is_pending r1 \<and> \<not> is_pending r2 then R_resolved () else R_pending))"

lemma poll_if_pending:
  "(if is_pending (fu_result f) then snd (future_poll cb i f w) else (f, w)) = snd (future_poll cb i f w)"
  by simp

lemma poll_all:
  assumes "future_poll (\<lambda>_. reader g1) () f1 w = (r1, h1, w)" "future_poll (\<lambda>_. reader g2) () f2 w = (r2, h2, w)"
  shows "future_poll (\<lambda>_. all_cb (reader g1) (reader g2)) () \<lparr>fu_result = R_pending, fu_captured = (f1, f2)\<rparr> w =
    (all_result r1 r2, \<lparr>fu_result = all_result r1 r2, fu_captured = (h1, h2)\<rparr>, w)"
  unfolding future_poll_pending [of "\<lparr>fu_result = R_pending, fu_captured = (f1, f2)\<rparr>", OF future.select_convs(1)]
    all_cb_def poll_void_eq [of "reader g1" "()"] poll_void_eq [of "reader g2" "()"] poll_if_pending
  using future_poll_result [OF assms(1)] future_poll_result [OF assms(2)]
  by (cases r1; cases r2) (simp_all add: assms all_result_def)

lemma all_settles:
  assumes "\<And>k. k \<le> n \<Longrightarrow> all_result (result_after (reader g1) idle k f1 w) (result_after (reader g2) idle k f2 w) = R_pending"
    and "r = all_result (result_after (reader g1) idle (Suc n) f1 w) (result_after (reader g2) idle (Suc n) f2 w)"
    and "r \<noteq> R_pending"
  shows "\<exists>s. settles (\<lambda>_. all_cb (reader g1) (reader g2)) () idle n
    \<lparr>fu_result = R_pending, fu_captured = (f1, f2)\<rparr> w = Some (r, s)"
  using assms
proof (induction n arbitrary: f1 f2 w)
  case 0
  obtain r1 h1 where p1: "future_poll (\<lambda>_. reader g1) () f1 w = (r1, h1, w)" by (metis prod_cases3 reader_world snd_conv)
  obtain r2 h2 where p2: "future_poll (\<lambda>_. reader g2) () f2 w = (r2, h2, w)" by (metis prod_cases3 reader_world snd_conv)
  from 0 show ?case
    by (simp add: settles_0 poll_all [OF p1 p2] p1 p2 future_poll_result [OF p1] future_poll_result [OF p2] is_pending_iff)
next
  case (Suc n)
  obtain r1 h1 where p1: "future_poll (\<lambda>_. reader g1) () f1 w = (r1, h1, w)" by (metis prod_cases3 reader_world snd_conv)
  obtain r2 h2 where p2: "future_poll (\<lambda>_. reader g2) () f2 w = (r2, h2, w)" by (metis prod_cases3 reader_world snd_conv)
  have "all_result r1 r2 = R_pending"
    using Suc.prems(1) [of 1] by (simp add: p1 p2 future_poll_result [OF p1] future_poll_result [OF p2])
  moreover have "\<exists>s. settles (\<lambda>_. all_cb (reader g1) (reader g2)) () idle n
      \<lparr>fu_result = R_pending, fu_captured = (h1, h2)\<rparr> (idle w) = Some (r, s)"
    using Suc.prems(2,3) Suc.prems(1) [of "Suc _"] by (intro Suc.IH) (simp_all add: p1 p2)
  ultimately show ?case by (simp add: settles_Suc poll_all [OF p1 p2])
qed

section \<open>race\<close>

lemma poll_race:
  assumes "future_poll (\<lambda>_. reader g1) () f1 w = (r1, h1, w)" "future_poll (\<lambda>_. reader g2) () f2 w = (r2, h2, w)"
  shows "future_poll (\<lambda>_. race_cb (reader g1) (reader g2)) () \<lparr>fu_result = R_pending, fu_captured = (f1, f2)\<rparr> w =
    (if is_pending r1 then (r2, \<lparr>fu_result = r2, fu_captured = (h1, h2)\<rparr>, w)
     else (r1, \<lparr>fu_result = r1, fu_captured = (h1, f2)\<rparr>, w))"
  unfolding future_poll_pending [of "\<lparr>fu_result = R_pending, fu_captured = (f1, f2)\<rparr>", OF future.select_convs(1)]
    race_cb_def poll_void_eq [of "reader g1" "()"] poll_void_eq [of "reader g2" "()"] poll_if_pending
  using future_poll_result [OF assms(1)] future_poll_result [OF assms(2)]
  by (simp add: assms is_pending_iff)

lemma race_settles:
  assumes "\<And>k. k \<le> n \<Longrightarrow> result_after (reader g1) idle k f1 w = R_pending \<and> result_after (reader g2) idle k f2 w = R_pending"
    and "r = (if is_pending (result_after (reader g1) idle (Suc n) f1 w)
              then result_after (reader g2) idle (Suc n) f2 w else result_after (reader g1) idle (Suc n) f1 w)"
    and "r \<noteq> R_pending"
  shows "\<exists>s. settles (\<lambda>_. race_cb (reader g1) (reader g2)) () idle n
    \<lparr>fu_result = R_pending, fu_captured = (f1, f2)\<rparr> w = Some (r, s)"
  using assms
proof (induction n arbitrary: f1 f2 w)
  case 0
  obtain r1 h1 where p1: "future_poll (\<lambda>_. reader g1) () f1 w = (r1, h1, w)" by (metis prod_cases3 reader_world snd_conv)
  obtain r2 h2 where p2: "future_poll (\<lambda>_. reader g2) () f2 w = (r2, h2, w)" by (metis prod_cases3 reader_world snd_conv)
  from 0 show ?case
    by (simp add: settles_0 poll_race [OF p1 p2] p1 p2 future_poll_result [OF p1] future_poll_result [OF p2] is_pending_iff
        cong: if_cong split: if_splits)
next
  case (Suc n)
  obtain r1 h1 where p1: "future_poll (\<lambda>_. reader g1) () f1 w = (r1, h1, w)" by (metis prod_cases3 reader_world snd_conv)
  obtain r2 h2 where p2: "future_poll (\<lambda>_. reader g2) () f2 w = (r2, h2, w)" by (metis prod_cases3 reader_world snd_conv)
  have "r1 = R_pending" "r2 = R_pending"
    using Suc.prems(1) [of 1] by (simp_all add: p1 p2 future_poll_result [OF p1] future_poll_result [OF p2])
  moreover have "\<exists>s. settles (\<lambda>_. race_cb (reader g1) (reader g2)) () idle n
      \<lparr>fu_result = R_pending, fu_captured = (h1, h2)\<rparr> (idle w) = Some (r, s)"
    using Suc.prems(2,3) Suc.prems(1) [of "Suc _"] by (intro Suc.IH) (simp_all add: p1 p2)
  ultimately show ?case by (simp add: settles_Suc poll_race [OF p1 p2])
qed


text \<open>A future that resolves after a number of pending polls, and one that rejects.\<close>

definition countdown :: "nat \<Rightarrow> 'w \<Rightarrow> (unit, string) async_result \<times> nat" where
  "countdown k w = (if k = 0 then R_resolved () else R_pending, k - 1)"

definition failing :: "nat \<Rightarrow> 'w \<Rightarrow> (unit, string) async_result \<times> nat" where
  "failing k w = (if k = 0 then R_rejected ''lost'' else R_pending, k - 1)"

lemmas step_simps = settles_0 settles_Suc future_poll_def reader_def countdown_def failing_def new_future_def


section \<open>Timeouts\<close>

text \<open>The wrapped future is polled while the clock is below the limit.\<close>

lemma timeout_pendings:
  assumes "pendings cb i idle n f w = Some (f', w')" "fu_result f = R_pending"
    and "\<forall>k < n. \<forall>g v. pendings cb i idle k f w = Some (g, v) \<longrightarrow> millis v < t"
  shows "pendings (timeout_cb millis err cb) i idle n \<lparr>fu_result = R_pending, fu_captured = (f, t)\<rparr> w =
    Some (\<lparr>fu_result = R_pending, fu_captured = (f', t)\<rparr>, w')"
  using assms
proof (induction n arbitrary: f w)
  case (Suc n)
  obtain r h v where p: "future_poll cb i f w = (r, h, v)" by (metis prod_cases3)
  from Suc.prems(1) p have h: "pendings cb i idle n h (idle v) = Some (f', w')" "r = R_pending"
    by (simp_all add: is_pending_iff split: if_splits)
  from Suc.prems(3) have t: "millis w < t" by (elim allE [of _ 0]) simp
  have "future_poll (timeout_cb millis err cb) i \<lparr>fu_result = R_pending, fu_captured = (f, t)\<rparr> w =
      (R_pending, \<lparr>fu_result = R_pending, fu_captured = (h, t)\<rparr>, v)"
    using t p h by (simp add: future_poll_pending [of "\<lparr>fu_result = R_pending, fu_captured = (f, t)\<rparr>"] timeout_cb_def not_le [symmetric])
  moreover have "\<forall>k < n. \<forall>g u. pendings cb i idle k h (idle v) = Some (g, u) \<longrightarrow> millis u < t"
    using Suc.prems(3) p h(2) by (auto dest: spec [of _ "Suc _"])
  ultimately show ?case using Suc.IH [OF h(1)] h(2) future_poll_result [OF p] by simp
qed simp

text \<open>A future with a timeout does what the wrapped future does as long as every poll found the clock below
  the limit; the first poll that finds the clock at the limit and the wrapped future still pending rejects
  with the timeout error and does not call the wrapped future.\<close>

theorem timeout_future:
  assumes "fu_result f = R_pending" "t = millis w0 + timeout_ms"
    and "pendings cb i idle n f w = Some (f', w')"
    and "\<forall>k < n. \<forall>g v. pendings cb i idle k f w = Some (g, v) \<longrightarrow> millis v < t"
  shows "\<exists>c. pendings (timeout_cb millis err cb) i idle n (create_timeout_future millis f timeout_ms w0) w = Some (c, w') \<and>
    (t \<le> millis w' \<longrightarrow>
      settles (timeout_cb millis err cb) i idle n (create_timeout_future millis f timeout_ms w0) w =
        Some (R_rejected err, \<lparr>fu_result = R_rejected err, fu_captured = (f', t)\<rparr>, w')) \<and>
    (\<forall>r g v. millis w' < t \<and> settles cb i idle n f w = Some (r, g, v) \<longrightarrow>
      settles (timeout_cb millis err cb) i idle n (create_timeout_future millis f timeout_ms w0) w =
        Some (r, \<lparr>fu_result = r, fu_captured = (g, t)\<rparr>, v))"
proof -
  have c: "create_timeout_future millis f timeout_ms w0 = \<lparr>fu_result = R_pending, fu_captured = (f, t)\<rparr>"
    by (simp add: create_timeout_future_def new_future_def assms(2))
  note p = timeout_pendings [OF assms(3,1,4), of err]
  have f': "fu_result f' = R_pending" by (rule pendings_pending [OF assms(3,1)])
  have poll: "future_poll (timeout_cb millis err cb) i \<lparr>fu_result = R_pending, fu_captured = (f', t)\<rparr> w' =
      (if t \<le> millis w' then (R_rejected err, \<lparr>fu_result = R_rejected err, fu_captured = (f', t)\<rparr>, w')
       else let (r, g, v) = future_poll cb i f' w' in (r, \<lparr>fu_result = r, fu_captured = (g, t)\<rparr>, v))"
    by (simp add: future_poll_pending [of "\<lparr>fu_result = R_pending, fu_captured = (f', t)\<rparr>"] timeout_cb_def f' split_beta)
  have late: "settles (timeout_cb millis err cb) i idle n \<lparr>fu_result = R_pending, fu_captured = (f, t)\<rparr> w =
      Some (R_rejected err, \<lparr>fu_result = R_rejected err, fu_captured = (f', t)\<rparr>, w')" if "t \<le> millis w'"
    using that by (simp add: settles_one_more [OF p] poll)
  have early: "settles (timeout_cb millis err cb) i idle n \<lparr>fu_result = R_pending, fu_captured = (f, t)\<rparr> w =
      Some (r, \<lparr>fu_result = r, fu_captured = (g, t)\<rparr>, v)"
    if "millis w' < t" "settles cb i idle n f w = Some (r, g, v)" for r g v
    using that by (auto simp add: settles_one_more [OF p] settles_one_more [OF assms(3)] poll split_beta split: if_splits)
  show ?thesis unfolding c using p late early by blast
qed

section \<open>The clock wraps\<close>

text \<open>The world is the number of milliseconds since the start; the clock is its low 32 bits.\<close>

definition clock32 :: "nat \<Rightarrow> u32" where "clock32 t = of_nat t"

lemma unat_clock32: "unat (clock32 t) = t mod 2 ^ 32"
  by (simp add: clock32_def unat_of_nat)

lemma wait_poll:
  assumes "d < 2 ^ 32"
  shows "fst (future_poll (wait_cb clock32) i (create_wait_future clock32 (of_nat d) t0) t) =
    (if (t0 + d) mod 2 ^ 32 \<le> t mod 2 ^ 32 then R_resolved () else R_pending)"
proof -
  have "clock32 t0 + of_nat d = clock32 (t0 + d)" by (simp add: clock32_def)
  then show ?thesis
    by (simp add: future_poll_def create_wait_future_def new_future_def wait_cb_def get_wait_async_state_def
        word_le_nat_alt unat_clock32 split_beta)
qed

text \<open>C31: A wait of \<open>d\<close> milliseconds that begins at \<open>t0\<close> and ends before the 32-bit clock wraps is exact: a poll
  before the wrap resolves if and only if \<open>d\<close> milliseconds have passed. A wait whose end lies beyond the
  wrap resolves at its first poll, with no time passed; and one that was due before the wrap and was not polled
  in time is pending again after it.\<close>

theorem wait_future_wraps:
  assumes "t0 \<le> t" "t0 < 2 ^ 32" "d < 2 ^ 32"
    and "r = fst (future_poll (wait_cb clock32) i (create_wait_future clock32 (of_nat d) t0) t)"
  shows "(t0 + d < 2 ^ 32 \<and> t < 2 ^ 32 \<longrightarrow> (r = R_resolved () \<longleftrightarrow> t0 + d \<le> t)) \<and>
    (2 ^ 32 \<le> t0 + d \<and> t < 2 ^ 32 \<longrightarrow> r = R_resolved ()) \<and>
    (t0 + d < 2 ^ 32 \<and> 2 ^ 32 \<le> t \<and> t < 2 ^ 32 + t0 + d \<longrightarrow> r = R_pending)"
proof -
  have r: "r = (if (t0 + d) mod 2 ^ 32 \<le> t mod 2 ^ 32 then R_resolved () else R_pending)"
    unfolding assms(4) by (rule wait_poll [OF assms(3)])
  have wrapped: "(t0 + d) mod 2 ^ 32 = t0 + d - 2 ^ 32" if "2 ^ 32 \<le> t0 + d"
    using that assms(2,3) by (simp add: mod_if)
  have late: "t mod 2 ^ 32 = t - 2 ^ 32" if "2 ^ 32 \<le> t" "t < 2 ^ 32 + t0 + d" "t0 + d < 2 ^ 32"
    using that by (simp add: mod_if)
  show ?thesis
  proof (intro conjI impI; elim conjE)
    assume "t0 + d < 2 ^ 32" "t < 2 ^ 32"
    then show "r = R_resolved () \<longleftrightarrow> t0 + d \<le> t" by (simp add: r)
  next
    assume "2 ^ 32 \<le> t0 + d" "t < 2 ^ 32"
    then show "r = R_resolved ()" using wrapped assms(1,3) by (simp add: r)
  next
    assume "t0 + d < 2 ^ 32" "2 ^ 32 \<le> t" "t < 2 ^ 32 + t0 + d"
    then show "r = R_pending" using late by (simp add: r)
  qed
qed

lemma wait_future_wraps_witness:
  "fst (future_poll (wait_cb clock32) () (create_wait_future clock32 (of_nat 5000) 4294965000) 4294965000) =
   (R_resolved () :: (unit, string) async_result)"
  using wait_future_wraps [of 4294965000 4294965000 5000 _ "()", OF _ _ _ refl] by simp

lemma timeout_future_witness:
  "settles (timeout_cb clock32 ''operation timed out'' (\<lambda>_. reader countdown)) () Suc 2
     (create_timeout_future clock32 (new_future 9) 2 0) 0 =
   Some (R_rejected ''operation timed out'', \<lparr>fu_result = R_rejected ''operation timed out'',
     fu_captured = (\<lparr>fu_result = R_pending, fu_captured = 7\<rparr>, 2)\<rparr>, 2)"
proof -
  have p: "pendings (\<lambda>_. reader countdown) () Suc 2 (new_future 9) 0 = Some (\<lparr>fu_result = R_pending, fu_captured = 7\<rparr>, 2)"
    by (simp add: step_simps numeral_2_eq_2)
  have q: "\<forall>k < 2. \<forall>g v. pendings (\<lambda>_. reader countdown) () Suc k (new_future 9) 0 = Some (g, v) \<longrightarrow> clock32 v < 2"
    by (auto simp: less_2_cases_iff step_simps clock32_def)
  have "(2 :: u32) = clock32 0 + 2" "fu_result (new_future 9) = R_pending" "(2 :: u32) \<le> clock32 2"
    by (simp_all add: clock32_def new_future_def)
  with timeout_future [OF this(2,1) p q, of "''operation timed out''"]
  show ?thesis by (elim exE conjE) simp
qed

end
