(* ===== verification/Async_Deferred.thy ===== *)
theory Async_Deferred
  imports Async_Future
begin

text \<open>
  \<open>Deferred\<close> (\<open>include/Core/Async/Deferred.h\<close>): a result in a shared block that is settled from outside, and
  the futures that read it. The world is the heap of the shared blocks and a flag that records an
  access to freed memory or through a null pointer. The three templates are the same code: the
  specialisations for a void input and output are the definitions with \<open>_void_in\<close> and \<open>_void\<close>.
\<close>

section \<open>Model\<close>

type_synonym ('o, 'e) result_heap = "('o, 'e) async_result asp_heap"

record ('o, 'e) deferred_world =
  dw_heap :: "('o, 'e) result_heap"
  dw_fault :: bool

type_synonym ('o, 'e) deferred_future = "(asp, 'o, 'e) future"

definition new_deferred :: "('o, 'e) deferred_world \<Rightarrow> asp \<times> ('o, 'e) deferred_world" where
  "new_deferred w = (let (p, h) = asp_make R_pending (dw_heap w) in (p, w\<lparr>dw_heap := h\<rparr>))"

text \<open>Assigns a new result through the pointer if the old one is pending.\<close>

definition settle_cell :: "asp \<Rightarrow> ('o, 'e) async_result \<Rightarrow> ('o, 'e) deferred_world \<Rightarrow> ('o, 'e) deferred_world" where
  "settle_cell p r w =
     (if asp_bool p
      then case asp_get p (dw_heap w) of
             None \<Rightarrow> w\<lparr>dw_fault := True\<rparr>
           | Some old \<Rightarrow>
               if is_pending old
               then (case asp_set p r (dw_heap w) of None \<Rightarrow> w\<lparr>dw_fault := True\<rparr> | Some h \<Rightarrow> w\<lparr>dw_heap := h\<rparr>)
               else w
      else w)"

definition deferred_resolve :: "'o \<Rightarrow> asp \<Rightarrow> ('o, 'e) deferred_world \<Rightarrow> ('o, 'e) deferred_world" where
  "deferred_resolve out p w = settle_cell p (R_resolved out) w"

definition deferred_reject :: "'e \<Rightarrow> asp \<Rightarrow> ('o, 'e) deferred_world \<Rightarrow> ('o, 'e) deferred_world" where
  "deferred_reject error p w = settle_cell p (R_rejected error) w"

definition deferred_cb :: "('i, asp, ('o, 'e) deferred_world, 'o, 'e) callback" where
  "deferred_cb i p w =
     (case asp_get p (dw_heap w) of None \<Rightarrow> (R_pending, p, w\<lparr>dw_fault := True\<rparr>) | Some r \<Rightarrow> (r, p, w))"

definition get_future :: "asp \<Rightarrow> ('o, 'e) deferred_world \<Rightarrow> ('o, 'e) deferred_future \<times> ('o, 'e) deferred_world" where
  "get_future p w =
     (case asp_copy p (dw_heap w) of
        None \<Rightarrow> (new_future None, w\<lparr>dw_fault := True\<rparr>)
      | Some (q, h) \<Rightarrow> (new_future q, w\<lparr>dw_heap := h\<rparr>))"

text \<open>The destructors, which reset the pointer.\<close>

definition drop_pointer :: "asp \<Rightarrow> ('o, 'e) deferred_world \<Rightarrow> ('o, 'e) deferred_world" where
  "drop_pointer p w =
     (case asp_reset p (dw_heap w) of None \<Rightarrow> w\<lparr>dw_fault := True\<rparr> | Some (_, h) \<Rightarrow> w\<lparr>dw_heap := h\<rparr>)"

definition new_deferred_void_in :: "('o, 'e) deferred_world \<Rightarrow> asp \<times> ('o, 'e) deferred_world" where
  "new_deferred_void_in w = (let (p, h) = asp_make R_pending (dw_heap w) in (p, w\<lparr>dw_heap := h\<rparr>))"

definition resolve_deferred_void_in :: "'o \<Rightarrow> asp \<Rightarrow> ('o, 'e) deferred_world \<Rightarrow> ('o, 'e) deferred_world" where
  "resolve_deferred_void_in out p w = settle_cell p (R_resolved out) w"

definition reject_deferred_void_in :: "'e \<Rightarrow> asp \<Rightarrow> ('o, 'e) deferred_world \<Rightarrow> ('o, 'e) deferred_world" where
  "reject_deferred_void_in error p w = settle_cell p (R_rejected error) w"

definition deferred_cb_void_in :: "(asp, ('o, 'e) deferred_world, 'o, 'e) callback0" where
  "deferred_cb_void_in p w =
     (case asp_get p (dw_heap w) of None \<Rightarrow> (R_pending, p, w\<lparr>dw_fault := True\<rparr>) | Some r \<Rightarrow> (r, p, w))"

definition new_deferred_void :: "(unit, 'e) deferred_world \<Rightarrow> asp \<times> (unit, 'e) deferred_world" where
  "new_deferred_void w = (let (p, h) = asp_make R_pending (dw_heap w) in (p, w\<lparr>dw_heap := h\<rparr>))"

definition resolve_deferred_void :: "asp \<Rightarrow> (unit, 'e) deferred_world \<Rightarrow> (unit, 'e) deferred_world" where
  "resolve_deferred_void p w = settle_cell p (R_resolved ()) w"

definition reject_deferred_void :: "'e \<Rightarrow> asp \<Rightarrow> (unit, 'e) deferred_world \<Rightarrow> (unit, 'e) deferred_world" where
  "reject_deferred_void error p w = settle_cell p (R_rejected error) w"

definition deferred_cb_void :: "(asp, (unit, 'e) deferred_world, unit, 'e) callback0" where
  "deferred_cb_void p w =
     (case asp_get p (dw_heap w) of None \<Rightarrow> (R_pending, p, w\<lparr>dw_fault := True\<rparr>) | Some r \<Rightarrow> (r, p, w))"

section \<open>Programs over a deferred and its futures\<close>

datatype ('o, 'e) deferred_op =
    D_resolve 'o
  | D_reject 'e
  | D_get_future
  | D_destroy
  | D_poll nat
  | D_drop nat

text \<open>The deferred, its futures (None: destroyed) and the world. An operation on a destroyed object is not
  a step of a program and does nothing.\<close>

record ('o, 'e) deferred_prog =
  dp_deferred :: "asp option"
  dp_futures :: "('o, 'e) deferred_future option list"
  dp_world :: "('o, 'e) deferred_world"

definition on_deferred ::
  "(asp \<Rightarrow> ('o, 'e) deferred_prog \<Rightarrow> ('o, 'e) deferred_prog) \<Rightarrow> ('o, 'e) deferred_prog \<Rightarrow> ('o, 'e) deferred_prog" where
  "on_deferred act st = (case dp_deferred st of None \<Rightarrow> st | Some p \<Rightarrow> act p st)"

definition on_future ::
  "nat \<Rightarrow> (('o, 'e) deferred_future \<Rightarrow> ('o, 'e) deferred_prog \<Rightarrow> ('o, 'e) deferred_prog) \<Rightarrow>
   ('o, 'e) deferred_prog \<Rightarrow> ('o, 'e) deferred_prog" where
  "on_future j act st =
     (if j < length (dp_futures st) then case dp_futures st ! j of None \<Rightarrow> st | Some f \<Rightarrow> act f st else st)"

fun deferred_exec :: "('o, 'e) deferred_op \<Rightarrow> ('o, 'e) deferred_prog \<Rightarrow> ('o, 'e) deferred_prog" where
  "deferred_exec (D_resolve v) st = on_deferred (\<lambda>p st. st\<lparr>dp_world := deferred_resolve v p (dp_world st)\<rparr>) st"
| "deferred_exec (D_reject e) st = on_deferred (\<lambda>p st. st\<lparr>dp_world := deferred_reject e p (dp_world st)\<rparr>) st"
| "deferred_exec D_get_future st =
     on_deferred (\<lambda>p st. let (f, w) = get_future p (dp_world st)
       in st\<lparr>dp_futures := dp_futures st @ [Some f], dp_world := w\<rparr>) st"
| "deferred_exec D_destroy st =
     on_deferred (\<lambda>p st. st\<lparr>dp_deferred := None, dp_world := drop_pointer p (dp_world st)\<rparr>) st"
| "deferred_exec (D_poll j) st =
     on_future j (\<lambda>f st. let (_, f, w) = future_poll deferred_cb () f (dp_world st)
       in st\<lparr>dp_futures := (dp_futures st)[j := Some f], dp_world := w\<rparr>) st"
| "deferred_exec (D_drop j) st =
     on_future j (\<lambda>f st. st\<lparr>dp_futures := (dp_futures st)[j := None],
       dp_world := drop_pointer (fu_captured f) (dp_world st)\<rparr>) st"

definition deferred_run :: "('o, 'e) deferred_op list \<Rightarrow> ('o, 'e) deferred_prog" where
  "deferred_run ops =
     (let (p, w) = new_deferred \<lparr>dw_heap = empty_heap, dw_fault = False\<rparr>
      in fold deferred_exec ops \<lparr>dp_deferred = Some p, dp_futures = [], dp_world = w\<rparr>)"

text \<open>What the program decided: the first settlement, if it came before the deferred was destroyed.\<close>

fun first_settlement :: "('o, 'e) deferred_op list \<Rightarrow> ('o, 'e) async_result" where
  "first_settlement [] = R_pending"
| "first_settlement (D_resolve v # ops) = R_resolved v"
| "first_settlement (D_reject e # ops) = R_rejected e"
| "first_settlement (D_destroy # ops) = R_pending"
| "first_settlement (op # ops) = first_settlement ops"

section \<open>Invariant\<close>

definition live_futures :: "('o, 'e) deferred_prog \<Rightarrow> nat" where
  "live_futures st = length (filter (\<lambda>f. f \<noteq> None) (dp_futures st))"

definition pointers :: "('o, 'e) deferred_prog \<Rightarrow> nat" where
  "pointers st = live_futures st + (if dp_deferred st = None then 0 else 1)"

text \<open>All pointers are to the one block, which counts them and holds \<open>r\<close>; a future that is settled
  has cached \<open>r\<close>.\<close>

definition deferred_inv :: "('o, 'e) async_result \<Rightarrow> ('o, 'e) deferred_prog \<Rightarrow> bool" where
  "deferred_inv r st \<longleftrightarrow>
     \<not> dw_fault (dp_world st) \<and>
     (\<forall>p. dp_deferred st = Some p \<longrightarrow> p = Some 0) \<and>
     (\<forall>f. Some f \<in> set (dp_futures st) \<longrightarrow> fu_captured f = Some 0 \<and> (fu_result f = R_pending \<or> fu_result f = r)) \<and>
     ah_block (dw_heap (dp_world st)) 0 =
       (if pointers st = 0 then None else Some \<lparr>bk_value = r, bk_refs = int (pointers st)\<rparr>)"

lemma deferred_invD:
  assumes "deferred_inv r st" "0 < pointers st"
  shows "ah_block (dw_heap (dp_world st)) 0 = Some \<lparr>bk_value = r, bk_refs = int (pointers st)\<rparr>" "\<not> dw_fault (dp_world st)"
  using assms by (simp_all add: deferred_inv_def)

lemma pointers_deferred: "dp_deferred st = Some p \<Longrightarrow> 0 < pointers st"
  by (simp add: pointers_def)

lemma pointers_future: "Some f \<in> set (dp_futures st) \<Longrightarrow> 0 < pointers st"
  by (auto simp: pointers_def live_futures_def filter_empty_conv)

lemma settle_inv:
  assumes "deferred_inv r st" "dp_deferred st = Some p" "r' \<noteq> R_pending"
  shows "deferred_inv (if r = R_pending then r' else r) (st\<lparr>dp_world := settle_cell p r' (dp_world st)\<rparr>)"
proof -
  have p: "p = Some 0" using assms(1,2) by (simp add: deferred_inv_def)
  note b = deferred_invD [OF assms(1) pointers_deferred [OF assms(2)]]
  have w: "settle_cell p r' (dp_world st) =
      (if r = R_pending then (dp_world st)\<lparr>dw_heap := (dw_heap (dp_world st))\<lparr>ah_block := (ah_block (dw_heap (dp_world st)))
         (0 \<mapsto> \<lparr>bk_value = r', bk_refs = int (pointers st)\<rparr>)\<rparr>\<rparr> else dp_world st)"
    by (simp add: settle_cell_def p asp_bool_def asp_get_def asp_set_def b is_pending_iff)
  have n: "pointers (st\<lparr>dp_world := v\<rparr>) = pointers st" for v by (simp add: pointers_def live_futures_def)
  from assms(1) show ?thesis
    using pointers_deferred [OF assms(2)] by (auto simp: w deferred_inv_def n)
qed

lemma drop_block:
  assumes "\<not> dw_fault w" "ah_block (dw_heap w) 0 = Some \<lparr>bk_value = r, bk_refs = int (Suc n)\<rparr>"
  shows "\<not> dw_fault (drop_pointer (Some 0) w)"
    and "ah_block (dw_heap (drop_pointer (Some 0) w)) 0 = (if n = 0 then None else Some \<lparr>bk_value = r, bk_refs = int n\<rparr>)"
  using assms by (simp_all add: drop_pointer_def asp_reset_def)

lemma live_update:
  "j < length (dp_futures st) \<Longrightarrow> dp_futures st ! j = Some f \<Longrightarrow>
   length (filter (\<lambda>f. f \<noteq> None) ((dp_futures st)[j := None])) + 1 = live_futures st \<and>
   length (filter (\<lambda>f. f \<noteq> None) ((dp_futures st)[j := Some g])) = live_futures st"
  unfolding live_futures_def by (subst (2 4) id_take_nth_drop [of j]) (auto simp: upd_conv_take_nth_drop)

lemma destroy_inv:
  assumes "deferred_inv r st"
  shows "deferred_inv r (deferred_exec D_destroy st)"
proof (cases "dp_deferred st")
  case (Some p)
  have p: "p = Some 0" using assms Some by (simp add: deferred_inv_def)
  note b = deferred_invD [OF assms pointers_deferred [OF Some]]
  have n: "pointers st = Suc (live_futures st)" by (simp add: pointers_def Some)
  note d = drop_block [OF b(2) b(1) [unfolded n]]
  from assms d show ?thesis
    by (auto simp: deferred_inv_def on_deferred_def Some p pointers_def live_futures_def)
qed (simp add: on_deferred_def assms)

lemma get_future_inv:
  assumes "deferred_inv r st"
  shows "deferred_inv r (deferred_exec D_get_future st)"
proof (cases "dp_deferred st")
  case (Some p)
  have p: "p = Some 0" using assms Some by (simp add: deferred_inv_def)
  note b = deferred_invD [OF assms pointers_deferred [OF Some]]
  have n: "pointers st = Suc (live_futures st)" by (simp add: pointers_def Some)
  from assms b n show ?thesis
    by (auto simp: deferred_inv_def on_deferred_def Some p get_future_def asp_copy_def asp_incr_def
        pointers_def live_futures_def new_future_def)
qed (simp add: on_deferred_def assms)

lemma poll_deferred_future:
  assumes "deferred_inv r st" "Some f \<in> set (dp_futures st)"
  shows "future_poll deferred_cb () f (dp_world st) = (r, f\<lparr>fu_result := r\<rparr>, dp_world st)"
proof -
  have f: "fu_captured f = Some 0" "fu_result f = R_pending \<or> fu_result f = r"
    using assms by (auto simp: deferred_inv_def)
  note b = deferred_invD [OF assms(1) pointers_future [OF assms(2)]]
  show ?thesis
  proof (cases "fu_result f = R_pending")
    case True
    with f b show ?thesis by (simp add: future_poll_def deferred_cb_def asp_get_def)
  next
    case False
    with f have "fu_result f = r" "\<not> is_pending r" by (auto simp: is_pending_iff)
    then show ?thesis by (simp add: future_poll_def)
  qed
qed

lemma poll_inv:
  assumes "deferred_inv r st"
  shows "deferred_inv r (deferred_exec (D_poll j) st)"
proof (cases "j < length (dp_futures st) \<and> dp_futures st ! j \<noteq> None")
  case True
  then obtain f where f: "j < length (dp_futures st)" "dp_futures st ! j = Some f" by auto
  then have mem: "Some f \<in> set (dp_futures st)" by (metis nth_mem)
  have e: "deferred_exec (D_poll j) st = st\<lparr>dp_futures := (dp_futures st)[j := Some (f\<lparr>fu_result := r\<rparr>)]\<rparr>"
    by (simp add: on_future_def f poll_deferred_future [OF assms mem])
  have n: "pointers (deferred_exec (D_poll j) st) = pointers st"
    unfolding e using live_update [OF f, of "f\<lparr>fu_result := r\<rparr>"] by (simp add: pointers_def live_futures_def)
  have "fu_captured f = Some 0" using assms mem by (auto simp: deferred_inv_def)
  moreover have "Some g \<in> set ((dp_futures st)[j := Some (f\<lparr>fu_result := r\<rparr>)]) \<Longrightarrow>
      g = f\<lparr>fu_result := r\<rparr> \<or> Some g \<in> set (dp_futures st)" for g
    using set_update_subset_insert [of "dp_futures st" j "Some (f\<lparr>fu_result := r\<rparr>)"] by auto
  ultimately show ?thesis using assms n unfolding e by (fastforce simp: deferred_inv_def)
next
  case False
  then have "deferred_exec (D_poll j) st = st" by (auto simp: on_future_def)
  with assms show ?thesis by simp
qed

lemma drop_inv:
  assumes "deferred_inv r st"
  shows "deferred_inv r (deferred_exec (D_drop j) st)"
proof (cases "j < length (dp_futures st) \<and> dp_futures st ! j \<noteq> None")
  case True
  then obtain f where f: "j < length (dp_futures st)" "dp_futures st ! j = Some f" by auto
  then have mem: "Some f \<in> set (dp_futures st)" by (metis nth_mem)
  have c: "fu_captured f = Some 0" using assms mem by (auto simp: deferred_inv_def)
  have e: "deferred_exec (D_drop j) st =
      st\<lparr>dp_futures := (dp_futures st)[j := None], dp_world := drop_pointer (Some 0) (dp_world st)\<rparr>"
    by (simp add: on_future_def f c)
  have n: "pointers st = Suc (pointers (deferred_exec (D_drop j) st))"
    unfolding e using live_update [OF f, of f] by (simp add: pointers_def live_futures_def)
  note b = deferred_invD [OF assms pointers_future [OF mem]]
  note d = drop_block [OF b(2) b(1) [unfolded n]]
  have "Some g \<in> set ((dp_futures st)[j := None]) \<Longrightarrow> Some g \<in> set (dp_futures st)" for g
    using set_update_subset_insert [of "dp_futures st" j None] by auto
  then show ?thesis using assms d unfolding deferred_inv_def e by simp
next
  case False
  then have "deferred_exec (D_drop j) st = st" by (auto simp: on_future_def)
  with assms show ?thesis by simp
qed

text \<open>What an operation makes of the result of the block.\<close>

fun decided :: "('o, 'e) deferred_op \<Rightarrow> ('o, 'e) deferred_prog \<Rightarrow> ('o, 'e) async_result \<Rightarrow> ('o, 'e) async_result" where
  "decided (D_resolve v) st r = (if r = R_pending \<and> dp_deferred st \<noteq> None then R_resolved v else r)"
| "decided (D_reject e) st r = (if r = R_pending \<and> dp_deferred st \<noteq> None then R_rejected e else r)"
| "decided _ st r = r"

lemma exec_inv_deferred:
  assumes "deferred_inv r st"
  shows "deferred_inv (decided op st r) (deferred_exec op st)"
proof (cases op)
  case (D_resolve v)
  show ?thesis
  proof (cases "dp_deferred st")
    case (Some p)
    from settle_inv [OF assms Some, of "R_resolved v"] show ?thesis
      by (simp add: D_resolve on_deferred_def Some deferred_resolve_def split: if_splits)
  qed (simp add: D_resolve on_deferred_def assms)
next
  case (D_reject e)
  show ?thesis
  proof (cases "dp_deferred st")
    case (Some p)
    from settle_inv [OF assms Some, of "R_rejected e"] show ?thesis
      by (simp add: D_reject on_deferred_def Some deferred_reject_def split: if_splits)
  qed (simp add: D_reject on_deferred_def assms)
qed (use get_future_inv destroy_inv poll_inv drop_inv assms in simp_all)

lemma deferred_alive:
  "dp_deferred (deferred_exec op st) = None \<longleftrightarrow> dp_deferred st = None \<or> op = D_destroy"
  by (cases op) (auto simp: on_deferred_def on_future_def Let_def split_beta split: option.splits)

lemma run_inv_deferred:
  "deferred_inv r st \<Longrightarrow>
   deferred_inv (if r = R_pending \<and> dp_deferred st \<noteq> None then first_settlement ops else r) (fold deferred_exec ops st)"
proof (induction ops arbitrary: r st)
  case (Cons op ops)
  have "(if decided op st r = R_pending \<and> dp_deferred (deferred_exec op st) \<noteq> None
         then first_settlement ops else decided op st r) =
        (if r = R_pending \<and> dp_deferred st \<noteq> None then first_settlement (op # ops) else r)"
    by (cases "r = R_pending"; cases "dp_deferred st = None"; cases op) (simp_all add: deferred_alive del: deferred_exec.simps)
  with Cons.IH [OF exec_inv_deferred [OF Cons.prems, of op]] show ?case by simp
qed auto

lemma deferred_run_inv: "deferred_inv (first_settlement ops) (deferred_run ops)"
proof -
  let ?st = "\<lparr>dp_deferred = Some (Some 0), dp_futures = [],
     dp_world = \<lparr>dw_heap = snd (asp_make R_pending empty_heap), dw_fault = False\<rparr>\<rparr>"
  have "deferred_inv R_pending ?st"
    by (simp add: deferred_inv_def asp_make_def empty_heap_def pointers_def live_futures_def)
  from run_inv_deferred [OF this, of ops] show ?thesis
    by (simp add: deferred_run_def new_deferred_def asp_make_def empty_heap_def)
qed

text \<open>C15: In any program over a deferred and its futures, in which each may be destroyed before the others, no
  freed memory is read; the first settlement wins, and whatever is called later does not change it:
  polling any future that is still there, again and again, gives that settlement (pending, for ever, when the deferred was
  destroyed without one); and the shared block is freed when the last of them is gone.\<close>

theorem deferred_first_settlement:
  "\<not> dw_fault (dp_world (deferred_run ops)) \<and>
   (\<forall>f. Some f \<in> set (dp_futures (deferred_run ops)) \<longrightarrow>
     fst (future_poll deferred_cb () f (dp_world (deferred_run ops))) = first_settlement ops) \<and>
   (ah_block (dw_heap (dp_world (deferred_run ops))) 0 = None \<longleftrightarrow>
     dp_deferred (deferred_run ops) = None \<and> (\<forall>f \<in> set (dp_futures (deferred_run ops)). f = None))"
proof -
  note inv = deferred_run_inv [of ops]
  have "pointers (deferred_run ops) = 0 \<longleftrightarrow>
      dp_deferred (deferred_run ops) = None \<and> (\<forall>f \<in> set (dp_futures (deferred_run ops)). f = None)"
    by (auto simp: pointers_def live_futures_def filter_empty_conv)
  then show ?thesis using inv poll_deferred_future [OF inv] by (auto simp: deferred_inv_def)
qed

lemmas deferred_steps = on_deferred_def on_future_def get_future_def asp_copy_def asp_incr_def deferred_resolve_def
  deferred_reject_def settle_cell_def asp_bool_def asp_get_def asp_set_def drop_pointer_def asp_reset_def new_future_def

lemma deferred_first_settlement_witness:
  "\<exists>f. dp_futures (deferred_run [D_get_future, D_resolve (1 :: nat), D_reject ''late'', D_destroy]) = [Some f] \<and>
     fst (future_poll deferred_cb () f (dp_world (deferred_run [D_get_future, D_resolve 1, D_reject ''late'', D_destroy]))) =
       R_resolved 1"
  (is "\<exists>f. dp_futures (deferred_run ?ops) = _ \<and> _")
proof -
  have "dp_futures (deferred_exec D_get_future st) = dp_futures st @ [Some (new_future (Some 0))]"
    if "dp_deferred st = Some (Some 0)" "ah_block (dw_heap (dp_world st)) 0 \<noteq> None"
    for st :: "(nat, string) deferred_prog"
    using that by (auto simp: deferred_steps)
  moreover have "dp_futures (deferred_exec op st) = dp_futures st" if "op \<in> {D_resolve v, D_reject e, D_destroy}"
    for op v e and st :: "(nat, string) deferred_prog"
    using that by (auto simp: on_deferred_def split: option.split)
  ultimately have f: "dp_futures (deferred_run ?ops) = [Some (new_future (Some 0))]"
    by (simp add: deferred_run_def new_deferred_def asp_make_def empty_heap_def del: deferred_exec.simps)
  with deferred_first_settlement [of ?ops] show ?thesis by simp
qed

text \<open>The specialisations.\<close>

lemma deferred_specialisations:
  "new_deferred_void_in = new_deferred \<and> resolve_deferred_void_in = deferred_resolve \<and>
   reject_deferred_void_in = deferred_reject \<and> deferred_cb_void_in = deferred_cb i \<and>
   new_deferred_void = new_deferred \<and> resolve_deferred_void = deferred_resolve () \<and>
   reject_deferred_void = deferred_reject \<and> deferred_cb_void = deferred_cb i"
  by (intro conjI ext)
    (simp_all add: new_deferred_void_in_def new_deferred_def resolve_deferred_void_in_def deferred_resolve_def
      reject_deferred_void_in_def deferred_reject_def deferred_cb_void_in_def deferred_cb_def new_deferred_void_def
      resolve_deferred_void_def reject_deferred_void_def deferred_cb_void_def)

end
