(* ===== verification/Async_Executor.thy ===== *)
theory Async_Executor
  imports Async_Future
begin

text \<open>
  \<open>ExecutorBase\<close> (\<open>include/Core/Async/Executor.h\<close>): a pool of callables, the array of the active ones and the
  stack of the free ones. A callable is run by \<open>call\<close>, which gives its state, what it is afterwards,
  the futures it submitted to the executor meanwhile (a callback can call \<open>execute\<close>), and the world.
\<close>

section \<open>Model\<close>

record 't executor =
  ex_pool :: "'t option list"
  ex_active :: "nat list"
  ex_free :: "nat list"
  ex_active_count :: nat
  ex_free_count :: nat

text \<open>The array of the active futures is not initialised: \<open>mem\<close> is what it holds.\<close>

definition new_executor :: "nat \<Rightarrow> nat list \<Rightarrow> 't executor" where
  "new_executor cap mem =
     \<lparr>ex_pool = replicate cap None, ex_active = mem, ex_free = [0..<cap], ex_active_count = 0, ex_free_count = cap\<rparr>"

definition execute :: "'t \<Rightarrow> 't executor \<Rightarrow> bool \<times> 't executor" where
  "execute t ex =
     (if ex_free_count ex = 0 then (False, ex)
      else
        let ex = ex\<lparr>ex_free_count := ex_free_count ex - 1\<rparr>;
            slot = ex_free ex ! ex_free_count ex;
            ex = ex\<lparr>ex_pool := (ex_pool ex)[slot := Some t]\<rparr>
        in (True, ex\<lparr>ex_active := (ex_active ex)[ex_active_count ex := slot], ex_active_count := ex_active_count ex + 1\<rparr>))"

text \<open>The callables that \<open>execute\<close> stores: a future, its input and an error callback. \<open>submits\<close> are the calls of
  \<open>execute\<close> that the poll and the error callback made.\<close>

definition task_call ::
  "('i, 's, 'w, 'o, 'e) callback \<Rightarrow> ('e \<Rightarrow> 'w \<Rightarrow> 'w) \<Rightarrow> ('w \<Rightarrow> (('s, 'o, 'e) future \<times> 'i) list \<times> 'w) \<Rightarrow>
   ('s, 'o, 'e) future \<times> 'i \<Rightarrow> 'w \<Rightarrow> async_state \<times> (('s, 'o, 'e) future \<times> 'i) \<times> (('s, 'o, 'e) future \<times> 'i) list \<times> 'w" where
  "task_call cb on_error submits t w =
     (let (f, input) = t;
          (r, f, w) = future_poll cb input f w;
          w = (case get_error r of Some e \<Rightarrow> on_error e w | None \<Rightarrow> w);
          (ts, w) = submits w
      in (get_state r, (f, input), ts, w))"

definition task_call_void ::
  "('s, 'w, 'o, 'e) callback0 \<Rightarrow> ('e \<Rightarrow> 'w \<Rightarrow> 'w) \<Rightarrow> ('w \<Rightarrow> ('s, 'o, 'e) future list \<times> 'w) \<Rightarrow>
   ('s, 'o, 'e) future \<Rightarrow> 'w \<Rightarrow> async_state \<times> ('s, 'o, 'e) future \<times> ('s, 'o, 'e) future list \<times> 'w" where
  "task_call_void cb on_error submits f w =
     (let (r, f, w) = poll_void_in cb f w;
          w = (case get_error r of Some e \<Rightarrow> on_error e w | None \<Rightarrow> w);
          (ts, w) = submits w
      in (get_state r, f, ts, w))"

text \<open>The overloads without an error callback.\<close>

definition ignore_error :: "'e \<Rightarrow> 'w \<Rightarrow> 'w" where "ignore_error e w = w"

type_synonym ('t, 'w) caller = "'t \<Rightarrow> 'w \<Rightarrow> async_state \<times> 't \<times> 't list \<times> 'w"

definition submit_all :: "'t list \<Rightarrow> 't executor \<Rightarrow> 't executor" where
  "submit_all ts ex = fold (\<lambda>t ex. snd (execute t ex)) ts ex"

text \<open>One round of the loop of \<open>poll\<close>, and the loop. A callback that keeps submitting can keep it going.\<close>

definition poll_slot :: "('t, 'w) caller \<Rightarrow> nat \<Rightarrow> 't executor \<Rightarrow> 'w \<Rightarrow> nat \<times> 't executor \<times> 'w" where
  "poll_slot call i ex w =
     (let f = ex_active ex ! i;
          (s, t, ts, w) = call (the (ex_pool ex ! f)) w;
          ex = submit_all ts (ex\<lparr>ex_pool := (ex_pool ex)[f := Some t]\<rparr>)
      in if s \<noteq> Pending
         then
           let ex = ex\<lparr>ex_pool := (ex_pool ex)[f := None]\<rparr>;
               ex = ex\<lparr>ex_free := (ex_free ex)[ex_free_count ex := f], ex_free_count := ex_free_count ex + 1\<rparr>;
               ex = ex\<lparr>ex_active_count := ex_active_count ex - 1\<rparr>
           in (i, ex\<lparr>ex_active := (ex_active ex)[i := ex_active ex ! ex_active_count ex]\<rparr>, w)
         else (i + 1, ex, w))"

partial_function (option) poll_loop ::
  "('t, 'w) caller \<Rightarrow> nat \<Rightarrow> 't executor \<Rightarrow> 'w \<Rightarrow> ('t executor \<times> 'w) option" where
  "poll_loop call i ex w =
     (if i < ex_active_count ex
      then let (i, ex, w) = poll_slot call i ex w in poll_loop call i ex w
      else Some (ex, w))"

definition executor_poll :: "('t, 'w) caller \<Rightarrow> 't executor \<Rightarrow> 'w \<Rightarrow> ('t executor \<times> 'w) option" where
  "executor_poll call ex w = (if ex_active_count ex = 0 then Some (ex, w) else poll_loop call 0 ex w)"

section \<open>The pool\<close>

definition active :: "'t executor \<Rightarrow> nat list" where "active ex = take (ex_active_count ex) (ex_active ex)"
definition free :: "'t executor \<Rightarrow> nat list" where "free ex = take (ex_free_count ex) (ex_free ex)"

text \<open>The futures of the executor, in the order of the array.\<close>

definition tasks :: "'t executor \<Rightarrow> 't list" where "tasks ex = map (\<lambda>j. the (ex_pool ex ! j)) (active ex)"

definition ex_inv :: "nat \<Rightarrow> 't executor \<Rightarrow> bool" where
  "ex_inv cap ex \<longleftrightarrow>
     length (ex_pool ex) = cap \<and> length (ex_active ex) = cap \<and> length (ex_free ex) = cap \<and>
     ex_active_count ex + ex_free_count ex = cap \<and>
     mset (active ex) + mset (free ex) = mset [0..<cap] \<and>
     (\<forall>j \<in> set (active ex). ex_pool ex ! j \<noteq> None) \<and> (\<forall>j \<in> set (free ex). ex_pool ex ! j = None)"

lemma ex_invD:
  assumes "ex_inv cap ex"
  shows "distinct (active ex @ free ex)" "set (active ex) \<union> set (free ex) = {..<cap}"
    "length (active ex) = ex_active_count ex" "length (free ex) = ex_free_count ex"
proof -
  have m: "mset (active ex @ free ex) = mset [0..<cap]" using assms by (simp add: ex_inv_def)
  show "distinct (active ex @ free ex)" using m by (metis distinct_upt mset_eq_imp_distinct_iff)
  show "set (active ex) \<union> set (free ex) = {..<cap}" using mset_eq_setD [OF m] by auto
  show "length (active ex) = ex_active_count ex" "length (free ex) = ex_free_count ex"
    using assms by (simp_all add: ex_inv_def active_def free_def)
qed

lemma take_update_last: "n < length xs \<Longrightarrow> take (Suc n) (xs[n := x]) = take n xs @ [x]"
  by (simp add: take_Suc_conv_app_nth)

lemma new_executor_inv: "length mem = cap \<Longrightarrow> ex_inv cap (new_executor cap mem)"
  by (simp add: ex_inv_def new_executor_def active_def free_def)

lemma execute_inv:
  assumes "ex_inv cap ex" "ex_free_count ex \<noteq> 0"
  shows "ex_inv cap (snd (execute t ex))"
    and "\<exists>j. active (snd (execute t ex)) = active ex @ [j] \<and> j \<in> set (free ex) \<and>
      ex_pool (snd (execute t ex)) = (ex_pool ex)[j := Some t]"
proof -
  define j where "j = ex_free ex ! (ex_free_count ex - 1)"
  have len: "length (ex_pool ex) = cap" "length (ex_active ex) = cap" "length (ex_free ex) = cap"
    "ex_active_count ex < cap" "ex_free_count ex - 1 < cap" "ex_active_count ex + (ex_free_count ex - 1) + 1 = cap"
    using assms by (auto simp: ex_inv_def)
  have e: "snd (execute t ex) = ex\<lparr>ex_free_count := ex_free_count ex - 1, ex_pool := (ex_pool ex)[j := Some t],
      ex_active := (ex_active ex)[ex_active_count ex := j], ex_active_count := ex_active_count ex + 1\<rparr>"
    using assms(2) by (simp add: execute_def j_def Let_def)
  have a: "active (snd (execute t ex)) = active ex @ [j]"
    using len by (simp add: e active_def take_update_last)
  have fr: "free ex = free (snd (execute t ex)) @ [j]"
    using len assms(2) take_Suc_conv_app_nth [of "ex_free_count ex - 1" "ex_free ex"] by (simp add: e free_def j_def)
  have d: "distinct (active ex @ free ex)" by (rule ex_invD [OF assms(1)])
  have jc: "j < cap" using ex_invD(2) [OF assms(1)] fr by auto
  have "mset (active ex @ [j]) + mset (free (snd (execute t ex))) = mset [0..<cap]"
    using assms(1) by (simp add: ex_inv_def fr)
  moreover have "\<forall>k \<in> set (active ex @ [j]). (ex_pool ex)[j := Some t] ! k \<noteq> None"
    using assms(1) len jc by (auto simp: ex_inv_def nth_list_update)
  moreover have "\<forall>k \<in> set (free (snd (execute t ex))). (ex_pool ex)[j := Some t] ! k = None"
    using assms(1) d by (auto simp: ex_inv_def fr) (metis nth_list_update_neq)
  ultimately show "ex_inv cap (snd (execute t ex))" using len unfolding ex_inv_def a by (simp add: e)
  show "\<exists>j. active (snd (execute t ex)) = active ex @ [j] \<and> j \<in> set (free ex) \<and>
      ex_pool (snd (execute t ex)) = (ex_pool ex)[j := Some t]"
    using a fr by (intro exI [of _ j]) (simp add: e)
qed

lemma execute_full: "ex_free_count ex = 0 \<Longrightarrow> execute t ex = (False, ex)"
  by (simp add: execute_def)

text \<open>Submitting leaves the active futures where they are.\<close>

lemma submit_all_inv:
  "ex_inv cap ex \<Longrightarrow> ex_inv cap (submit_all ts ex) \<and>
     (\<exists>js. active (submit_all ts ex) = active ex @ js) \<and>
     (\<forall>j \<in> set (active ex). ex_pool (submit_all ts ex) ! j = ex_pool ex ! j)"
proof (induction ts arbitrary: ex)
  case Nil
  then show ?case by (simp add: submit_all_def)
next
  case (Cons t ts)
  have s: "submit_all (t # ts) ex = submit_all ts (snd (execute t ex))" by (simp add: submit_all_def)
  show ?case
  proof (cases "ex_free_count ex = 0")
    case True
    with Cons show ?thesis by (simp add: s execute_full)
  next
    case False
    from execute_inv(2) [OF Cons.prems False, of t] obtain j where
      j: "active (snd (execute t ex)) = active ex @ [j]" "j \<in> set (free ex)"
        "ex_pool (snd (execute t ex)) = (ex_pool ex)[j := Some t]" by blast
    have "j \<notin> set (active ex)" using ex_invD(1) [OF Cons.prems] j(2) by auto
    then have "\<forall>k \<in> set (active ex). ex_pool (snd (execute t ex)) ! k = ex_pool ex ! k"
      using j(3) by (metis nth_list_update_neq)
    with Cons.IH [OF execute_inv(1) [OF Cons.prems False, of t]] j(1) show ?thesis by (auto simp: s)
  qed
qed

text \<open>The future at position \<open>i\<close> is removed, and the last one takes its place.\<close>

definition release_slot :: "nat \<Rightarrow> 't executor \<Rightarrow> 't executor" where
  "release_slot i ex =
     ex\<lparr>ex_pool := (ex_pool ex)[ex_active ex ! i := None],
        ex_free := (ex_free ex)[ex_free_count ex := ex_active ex ! i], ex_free_count := ex_free_count ex + 1,
        ex_active_count := ex_active_count ex - 1,
        ex_active := (ex_active ex)[i := ex_active ex ! (ex_active_count ex - 1)]\<rparr>"

lemma active_nth: "i < ex_active_count ex \<Longrightarrow> active ex ! i = ex_active ex ! i"
  by (simp add: active_def)

lemma release_active:
  assumes "ex_inv cap ex" "active ex = xs @ f # ys" "length xs = i"
  shows "active (release_slot i ex) = xs @ (if ys = [] then [] else last ys # butlast ys)"
proof -
  have n: "ex_active_count ex = length (xs @ f # ys)" using ex_invD(3) [OF assms(1)] assms(2) by simp
  have "ex_active_count ex \<le> length (ex_active ex)" using assms(1) by (simp add: ex_inv_def)
  have "active (release_slot i ex) =
      take (ex_active_count ex - 1) ((active ex)[i := active ex ! (ex_active_count ex - 1)])"
    using n \<open>ex_active_count ex \<le> _\<close> by (simp add: active_def release_slot_def take_update_swap)
  also have "\<dots> = xs @ (if ys = [] then [] else last ys # butlast ys)"
  proof (cases ys rule: rev_cases)
    case (snoc zs z)
    have "xs @ f # zs @ [z] = (xs @ f # zs) @ [z]" by simp
    then have "(xs @ f # zs @ [z]) ! Suc (length xs + length zs) = z" by (metis add_Suc_right length_append length_Cons nth_append_length)
    then show ?thesis using assms(2,3) n snoc by (simp add: list_update_append)
  qed (use assms(2,3) n in \<open>simp add: list_update_append\<close>)
  finally show ?thesis .
qed

lemma release_inv:
  assumes "ex_inv cap ex" "i < ex_active_count ex"
  shows "ex_inv cap (release_slot i ex)"
proof -
  define f where "f = ex_active ex ! i"
  define xs ys where "xs = take i (active ex)" and "ys = drop (Suc i) (active ex)"
  have l: "length (active ex) = ex_active_count ex" by (rule ex_invD [OF assms(1)])
  have act: "active ex = xs @ f # ys" "length xs = i"
    using assms(2) l id_take_nth_drop [of i "active ex"] by (simp_all add: xs_def ys_def f_def active_nth)
  note a = release_active [OF assms(1) act]
  have m: "mset (if ys = [] then [] else last ys # butlast ys) = mset ys"
    by (cases ys rule: rev_cases) simp_all
  have mem: "set (if ys = [] then [] else last ys # butlast ys) = set ys" using mset_eq_setD [OF m] .
  have "ex_free_count ex < length (ex_free ex)" using assms by (auto simp: ex_inv_def)
  then have fr: "free (release_slot i ex) = free ex @ [f]"
    by (simp add: free_def release_slot_def take_update_last f_def)
  have d: "distinct (active ex @ free ex)" by (rule ex_invD [OF assms(1)])
  have fc: "f < cap" using ex_invD(2) [OF assms(1)] act by auto
  have "mset (active (release_slot i ex)) + mset (free (release_slot i ex)) = mset [0..<cap]"
    using assms(1) m by (simp add: ex_inv_def a fr act)
  moreover have "\<forall>j \<in> set (active (release_slot i ex)). ex_pool (release_slot i ex) ! j \<noteq> None"
  proof
    fix j assume "j \<in> set (active (release_slot i ex))"
    then have "j \<in> set xs \<union> set ys" using mem by (simp add: a split: if_splits)
    then have "j \<noteq> f" "j \<in> set (active ex)" using d by (auto simp: act)
    then show "ex_pool (release_slot i ex) ! j \<noteq> None"
      using assms(1) by (simp add: ex_inv_def release_slot_def f_def)
  qed
  moreover have "\<forall>j \<in> set (free (release_slot i ex)). ex_pool (release_slot i ex) ! j = None"
    using assms(1) d fc unfolding fr by (auto simp: ex_inv_def release_slot_def act f_def nth_list_update)
  ultimately show ?thesis using assms by (auto simp: ex_inv_def release_slot_def)
qed

lemma set_task_inv:
  assumes "ex_inv cap ex" "j \<in> set (active ex)"
  shows "ex_inv cap (ex\<lparr>ex_pool := (ex_pool ex)[j := Some t]\<rparr>)"
proof -
  have "j \<notin> set (free ex)" "j < cap" using ex_invD(1,2) [OF assms(1)] assms(2) by auto
  then show ?thesis using assms(1) by (auto simp: ex_inv_def active_def free_def nth_list_update)
qed

text \<open>One round in terms of these steps.\<close>

lemma poll_slot_eq:
  assumes "call (the (ex_pool ex ! (ex_active ex ! i))) w = (s, t, ts, w')"
    and "ex1 = submit_all ts (ex\<lparr>ex_pool := (ex_pool ex)[ex_active ex ! i := Some t]\<rparr>)"
    and "ex_active ex1 ! i = ex_active ex ! i"
  shows "poll_slot call i ex w = (if s \<noteq> Pending then (i, release_slot i ex1, w') else (i + 1, ex1, w'))"
  using assms(3) unfolding poll_slot_def assms(1) Let_def prod.case assms(2) [symmetric]
  by (simp add: release_slot_def)

lemma poll_slot_inv:
  assumes "ex_inv cap ex" "i < ex_active_count ex"
  shows "ex_inv cap (fst (snd (poll_slot call i ex w)))"
proof -
  obtain s t ts w' where c: "call (the (ex_pool ex ! (ex_active ex ! i))) w = (s, t, ts, w')" by (metis prod_cases4)
  define ex0 where "ex0 = ex\<lparr>ex_pool := (ex_pool ex)[ex_active ex ! i := Some t]\<rparr>"
  have "ex_active ex ! i \<in> set (active ex)"
    using assms ex_invD(3) [OF assms(1)] active_nth [OF assms(2)] by (metis nth_mem)
  from set_task_inv [OF assms(1) this] have inv0: "ex_inv cap ex0" by (simp add: ex0_def)
  from submit_all_inv [OF this, of ts] obtain js where
    inv1: "ex_inv cap (submit_all ts ex0)" "active (submit_all ts ex0) = active ex @ js"
    by (auto simp: ex0_def active_def)
  have n: "i < ex_active_count (submit_all ts ex0)"
    using inv1 assms(2) ex_invD(3) [OF inv1(1)] ex_invD(3) [OF assms(1)] by simp
  have "ex_active (submit_all ts ex0) ! i = ex_active ex ! i"
    using active_nth [OF n] active_nth [OF assms(2)] inv1(2) assms(2) ex_invD(3) [OF assms(1)] by (simp add: nth_append)
  then have "poll_slot call i ex w =
      (if s \<noteq> Pending then (i, release_slot i (submit_all ts ex0), w') else (i + 1, submit_all ts ex0, w'))"
    by (intro poll_slot_eq [where t = t and ts = ts]) (simp_all add: ex0_def c)
  then show ?thesis using inv1(1) release_inv [OF inv1(1) n] by simp
qed

section \<open>Every reachable state\<close>

text \<open>The steps of a program that uses an executor: idle (\<open>None\<close>), or in the loop of \<open>poll\<close> at a position.\<close>

inductive ex_step :: "('t, 'w) caller \<Rightarrow> nat option \<times> 't executor \<times> 'w \<Rightarrow> nat option \<times> 't executor \<times> 'w \<Rightarrow> bool"
  for call where
  Submit: "ex_step call (None, ex, w) (None, snd (execute t ex), w)"
| Environment: "ex_step call (None, ex, w) (None, ex, w')"
| Start: "ex_step call (None, ex, w) (Some 0, ex, w)"
| Slot: "i < ex_active_count ex \<Longrightarrow> poll_slot call i ex w = (i', ex', w') \<Longrightarrow>
    ex_step call (Some i, ex, w) (Some i', ex', w')"
| Finish: "\<not> i < ex_active_count ex \<Longrightarrow> ex_step call (Some i, ex, w) (None, ex, w)"

lemma ex_step_inv:
  assumes "ex_step call s s'" "ex_inv cap (fst (snd s))"
  shows "ex_inv cap (fst (snd s'))"
  using assms
proof cases
  case (Submit ex w t)
  then show ?thesis using assms(2) execute_inv(1) execute_full by (metis fst_conv snd_conv)
next
  case (Slot i ex w i' ex' w')
  then show ?thesis using poll_slot_inv [of cap ex i call w] assms(2) by simp
qed (use assms(2) in simp_all)

lemma ex_reachable_inv:
  "(ex_step call)\<^sup>*\<^sup>* s s' \<Longrightarrow> ex_inv cap (fst (snd s)) \<Longrightarrow> ex_inv cap (fst (snd s'))"
  by (induction rule: rtranclp_induct) (auto intro: ex_step_inv)

text \<open>C16: Whatever futures are submitted and whatever the polled ones do, submitting others included, at every
  moment, also in the middle of a poll, each slot of the executor is either active, once, and holds a future, or is
  free, once, and holds none; a submission is refused exactly when all slots are active.\<close>

theorem executor_pool_partition:
  assumes "(ex_step call)\<^sup>*\<^sup>* (None, new_executor cap mem, w0) (p, ex, w)" "length mem = cap"
  shows "distinct (take (ex_active_count ex) (ex_active ex) @ take (ex_free_count ex) (ex_free ex)) \<and>
    set (take (ex_active_count ex) (ex_active ex)) = {j. j < cap \<and> ex_pool ex ! j \<noteq> None} \<and>
    set (take (ex_free_count ex) (ex_free ex)) = {j. j < cap \<and> ex_pool ex ! j = None} \<and>
    (fst (execute t ex) \<longleftrightarrow> ex_active_count ex < cap)"
proof -
  have inv: "ex_inv cap ex" using ex_reachable_inv [OF assms(1)] new_executor_inv [OF assms(2)] by simp
  note d = ex_invD(1,2) [OF inv]
  have "\<forall>j \<in> set (active ex). ex_pool ex ! j \<noteq> None" "\<forall>j \<in> set (free ex). ex_pool ex ! j = None"
    using inv by (simp_all add: ex_inv_def)
  moreover have "j < cap \<longleftrightarrow> j \<in> set (active ex) \<or> j \<in> set (free ex)" for j using d(2) by auto
  ultimately have "set (active ex) = {j. j < cap \<and> ex_pool ex ! j \<noteq> None}" "set (free ex) = {j. j < cap \<and> ex_pool ex ! j = None}"
    by auto
  moreover have "fst (execute t ex) \<longleftrightarrow> ex_active_count ex < cap"
    using inv by (auto simp: ex_inv_def execute_def Let_def)
  ultimately show ?thesis using d(1) by (simp add: active_def free_def)
qed

section \<open>A poll, as a sweep over the list of tasks\<close>

text \<open>Reference: each task is called; one that is settled is replaced by the last.\<close>

function sweep :: "('t, 'w) caller \<Rightarrow> 't list \<Rightarrow> 't list \<Rightarrow> 'w \<Rightarrow> 't list \<times> 'w" where
  "sweep call kept [] w = (kept, w)"
| "sweep call kept (t # rest) w =
     (let (s, t', ts, w) = call t w
      in if s \<noteq> Pending then sweep call kept (if rest = [] then [] else last rest # butlast rest) w
         else sweep call (kept @ [t']) rest w)"
  by pat_completeness auto

termination
  by (relation "measure (\<lambda>(call, kept, rest, w). length rest)") auto

lemma tasks_split: "active ex = xs @ f # ys \<Longrightarrow>
   tasks ex = map (\<lambda>j. the (ex_pool ex ! j)) xs @ the (ex_pool ex ! f) # map (\<lambda>j. the (ex_pool ex ! j)) ys"
  by (simp add: tasks_def)

lemma poll_loop_sweep:
  assumes "ex_inv cap ex" "i \<le> ex_active_count ex" "\<And>t w. fst (snd (snd (call t w))) = []"
  shows "\<exists>ex' w'. poll_loop call i ex w = Some (ex', w') \<and> ex_inv cap ex' \<and>
    sweep call (take i (tasks ex)) (drop i (tasks ex)) w = (tasks ex', w')"
  using assms(1,2)
proof (induction "ex_active_count ex - i" arbitrary: i ex w)
  case 0
  then have "\<not> i < ex_active_count ex" by simp
  moreover have "length (tasks ex) = ex_active_count ex" using ex_invD(3) [OF 0(2)] by (simp add: tasks_def)
  ultimately show ?case using 0 by (simp add: poll_loop.simps)
next
  case (Suc n)
  let ?v = "\<lambda>j. the (ex_pool ex ! j)"
  have i: "i < ex_active_count ex" using Suc.hyps(2) by simp
  define f where "f = ex_active ex ! i"
  define xs ys where "xs = take i (active ex)" and "ys = drop (Suc i) (active ex)"
  have l: "length (active ex) = ex_active_count ex" by (rule ex_invD [OF Suc.prems(1)])
  have act: "active ex = xs @ f # ys" "length xs = i"
    using i l id_take_nth_drop [of i "active ex"] by (simp_all add: xs_def ys_def f_def active_nth)
  have fs: "f \<in> set (active ex)" "f \<notin> set xs" "f \<notin> set ys" using ex_invD(1) [OF Suc.prems(1)] by (auto simp: act)
  have flen: "f < length (ex_pool ex)" using ex_invD(2) [OF Suc.prems(1)] fs(1) Suc.prems(1) by (auto simp: ex_inv_def)
  obtain s t w' where c: "call (?v f) w = (s, t, [], w')" using assms(3) by (metis prod_cases4 fst_conv snd_conv)
  define ex1 where "ex1 = ex\<lparr>ex_pool := (ex_pool ex)[f := Some t]\<rparr>"
  have inv1: "ex_inv cap ex1" unfolding ex1_def by (rule set_task_inv [OF Suc.prems(1) fs(1)])
  have act1: "active ex1 = xs @ f # ys" "ex_active_count ex1 = ex_active_count ex" by (simp_all add: ex1_def active_def flip: act)
  have slot: "poll_slot call i ex w = (if s \<noteq> Pending then (i, release_slot i ex1, w') else (i + 1, ex1, w'))"
    by (intro poll_slot_eq [where t = t and ts = "[]"]) (simp_all add: ex1_def c submit_all_def flip: f_def)
  have t0: "take i (tasks ex) = map ?v xs" "drop i (tasks ex) = ?v f # map ?v ys"
    using tasks_split [OF act(1)] act(2) by simp_all
  show ?case
  proof (cases "s = Pending")
    case True
    have t1: "tasks ex1 = map ?v xs @ t # map ?v ys"
      unfolding tasks_def act1 using fs flen by (auto simp: ex1_def) (metis nth_list_update_neq)+
    have "n = ex_active_count ex1 - Suc i" "Suc i \<le> ex_active_count ex1" using Suc.hyps(2) i by (simp_all add: act1)
    from Suc.hyps(1) [OF this(1) inv1 this(2), of w'] obtain ex2 w2 where
      "poll_loop call (Suc i) ex1 w' = Some (ex2, w2)" "ex_inv cap ex2"
      "sweep call (take (Suc i) (tasks ex1)) (drop (Suc i) (tasks ex1)) w' = (tasks ex2, w2)" by blast
    then show ?thesis using i slot True c act(2) by (subst poll_loop.simps) (simp add: t0 t1)
  next
    case False
    let ?ex2 = "release_slot i ex1"
    have inv2: "ex_inv cap ?ex2" by (rule release_inv [OF inv1]) (simp add: act1 i)
    have act2: "active ?ex2 = xs @ (if ys = [] then [] else last ys # butlast ys)"
      by (rule release_active [OF inv1 act1(1) act(2)])
    have n2: "ex_active_count ?ex2 = ex_active_count ex - 1" by (simp add: release_slot_def act1)
    have pool2: "ex_pool ?ex2 = (ex_pool ex)[f := None]" by (simp add: release_slot_def ex1_def f_def)
    have p2: "ex_pool ?ex2 ! j = ex_pool ex ! j" if "j \<in> set xs \<union> set ys" for j
      using that fs unfolding pool2 by (metis UnE nth_list_update_neq)
    have t2: "tasks ?ex2 = map ?v xs @ (if ys = [] then [] else last (map ?v ys) # butlast (map ?v ys))"
      unfolding tasks_def act2 using p2 by (cases ys rule: rev_cases) simp_all
    have "n = ex_active_count ?ex2 - i" "i \<le> ex_active_count ?ex2" using Suc.hyps(2) i by (simp_all add: n2)
    from Suc.hyps(1) [OF this(1) inv2 this(2), of w'] obtain ex3 w3 where
      "poll_loop call i ?ex2 w' = Some (ex3, w3)" "ex_inv cap ex3"
      "sweep call (take i (tasks ?ex2)) (drop i (tasks ?ex2)) w' = (tasks ex3, w3)" by blast
    then show ?thesis using i slot False c act(2) by (subst poll_loop.simps) (simp add: t0 t2)
  qed
qed

text \<open>A log of the calls: the task, its state, and what it is afterwards.\<close>

type_synonym 't call_log = "('t \<times> async_state \<times> 't) list"

definition logged :: "('t, 'w) caller \<Rightarrow> ('t, 'w \<times> 't call_log) caller" where
  "logged call t wl = (let (w, calls) = wl; (s, t', ts, w) = call t w in (s, t', ts, w, calls @ [(t, s, t')]))"

lemma sweep_logged:
  assumes "\<And>t w. fst (snd (snd (call t w))) = []" "sweep (logged call) kept rest (w, calls) = (kept', w', calls')"
  shows "\<exists>new. calls' = calls @ new \<and> mset (map fst new) = mset rest \<and>
    mset kept' = mset kept + mset (map (snd \<circ> snd) (filter (\<lambda>c. fst (snd c) = Pending) new))"
  using assms(2)
proof (induction "length rest" arbitrary: kept rest w calls)
  case 0
  then show ?case by simp
next
  case (Suc n)
  then obtain t rest' where r: "rest = t # rest'" "n = length rest'" by (cases rest) auto
  obtain s t' w1 where c: "call t w = (s, t', [], w1)" using assms(1) by (metis prod_cases4 fst_conv snd_conv)
  let ?rot = "if rest' = [] then [] else last rest' # butlast rest'"
  have rot: "mset ?rot = mset rest'" "length ?rot = length rest'" by (cases rest' rule: rev_cases; simp)+
  show ?case
  proof (cases "s = Pending")
    case True
    with Suc.prems c have "sweep (logged call) (kept @ [t']) rest' (w1, calls @ [(t, s, t')]) = (kept', w', calls')"
      by (simp add: r logged_def)
    from Suc.hyps(1) [OF r(2) this] obtain new where
      "calls' = (calls @ [(t, s, t')]) @ new" "mset (map fst new) = mset rest'"
      "mset kept' = mset (kept @ [t']) + mset (map (snd \<circ> snd) (filter (\<lambda>c. fst (snd c) = Pending) new))" by blast
    with True show ?thesis by (intro exI [of _ "(t, s, t') # new"]) (simp add: r)
  next
    case False
    with Suc.prems c have "sweep (logged call) kept ?rot (w1, calls @ [(t, s, t')]) = (kept', w', calls')"
      by (simp add: r logged_def)
    from Suc.hyps(1) [OF _ this] r(2) rot obtain new where
      "calls' = (calls @ [(t, s, t')]) @ new" "mset (map fst new) = mset rest'"
      "mset kept' = mset kept + mset (map (snd \<circ> snd) (filter (\<lambda>c. fst (snd c) = Pending) new))" by metis
    with False show ?thesis by (intro exI [of _ "(t, s, t') # new"]) (simp add: r)
  qed
qed

lemma tasks_length: "ex_inv cap ex \<Longrightarrow> length (tasks ex) = ex_active_count ex"
  using ex_invD(3) by (simp add: tasks_def)

lemma executor_poll_sweep:
  assumes "ex_inv cap ex" "\<And>t w. fst (snd (snd (call t w))) = []"
  shows "\<exists>ex' w'. executor_poll call ex w = Some (ex', w') \<and> ex_inv cap ex' \<and> sweep call [] (tasks ex) w = (tasks ex', w')"
proof (cases "ex_active_count ex = 0")
  case True
  with tasks_length [OF assms(1)] assms(1) show ?thesis by (simp add: executor_poll_def)
next
  case False
  with poll_loop_sweep [where i = 0 and w = w, OF assms(1) _ assms(2)] show ?thesis by (simp add: executor_poll_def)
qed

text \<open>C22: When the polled futures submit no others, a poll returns; it has called each of the futures the
  executor held exactly once, and the executor then holds exactly those that were pending, as the
  call left them: none is skipped when another one is removed, and none is called twice.\<close>

theorem executor_polls_each_once:
  assumes "(ex_step call0)\<^sup>*\<^sup>* (None, new_executor cap mem, w0) (None, ex, w)" "length mem = cap"
    and "\<And>t w. fst (snd (snd (call t w))) = []"
  shows "\<exists>ex' w' calls. executor_poll (logged call) ex (w, []) = Some (ex', w', calls) \<and>
    mset (map fst calls) = mset (tasks ex) \<and>
    mset (tasks ex') = mset (map (snd \<circ> snd) (filter (\<lambda>c. fst (snd c) = Pending) calls)) \<and>
    length (tasks ex') + ex_free_count ex' = cap"
proof -
  have inv: "ex_inv cap ex" using ex_reachable_inv [OF assms(1)] new_executor_inv [OF assms(2)] by simp
  have "fst (snd (snd (logged call t wl))) = []" for t wl
    using assms(3) by (simp add: logged_def split_beta Let_def)
  from executor_poll_sweep [OF inv, of "logged call" "(w, [])", OF this] obtain ex' w' calls where
    p: "executor_poll (logged call) ex (w, []) = Some (ex', w', calls)" "ex_inv cap ex'"
      "sweep (logged call) [] (tasks ex) (w, []) = (tasks ex', w', calls)" by (auto simp: split_paired_Ex)
  from sweep_logged [OF assms(3) p(3)] p(1) tasks_length [OF p(2)] p(2) show ?thesis by (auto simp: ex_inv_def)
qed

section \<open>A poll that does not return\<close>

text \<open>A future that is settled at once and submits its successor.\<close>

definition resubmit :: "('t, 'w) caller" where "resubmit t w = (Resolved, t, [t], w)"

lemma resubmit_round:
  assumes "ex_inv cap ex" "i < ex_active_count ex" "0 < ex_free_count ex"
  shows "\<exists>ex'. poll_slot resubmit i ex w = (i, ex', w) \<and> ex_inv cap ex' \<and> i < ex_active_count ex' \<and> 0 < ex_free_count ex'"
proof -
  define t where "t = the (ex_pool ex ! (ex_active ex ! i))"
  define ex0 where "ex0 = ex\<lparr>ex_pool := (ex_pool ex)[ex_active ex ! i := Some t]\<rparr>"
  define ex1 where "ex1 = snd (execute t ex0)"
  have "ex_active ex ! i \<in> set (active ex)"
    using assms ex_invD(3) [OF assms(1)] active_nth [OF assms(2)] by (metis nth_mem)
  from set_task_inv [OF assms(1) this] have inv0: "ex_inv cap ex0" by (simp add: ex0_def)
  have f0: "ex_free_count ex0 \<noteq> 0" using assms(3) by (simp add: ex0_def)
  have inv1: "ex_inv cap ex1" unfolding ex1_def by (rule execute_inv(1) [OF inv0 f0])
  have n1: "ex_active_count ex1 = ex_active_count ex + 1" "ex_active ex1 ! i = ex_active ex ! i"
    using assms(2) f0 by (simp_all add: ex1_def execute_def ex0_def Let_def)
  have "poll_slot resubmit i ex w = (if Resolved \<noteq> Pending then (i, release_slot i ex1, w) else (i + 1, ex1, w))"
    by (rule poll_slot_eq [where t = t and ts = "[t]"])
      (simp_all add: resubmit_def t_def ex1_def ex0_def submit_all_def n1(2) [unfolded ex1_def ex0_def t_def])
  moreover have "i < ex_active_count ex1" using assms(2) n1 by simp
  moreover note release_inv [OF inv1 this]
  moreover have "0 < ex_free_count (release_slot i ex1)" "i < ex_active_count (release_slot i ex1)"
    using assms(2) n1 by (simp_all add: release_slot_def)
  ultimately show ?thesis by simp
qed

lemma poll_loop_fixp:
  assumes "poll_loop call i ex w = Some r" "P i ex w"
    and "\<And>i ex w i' ex' w'. P i ex w \<Longrightarrow> poll_slot call i ex w = (i', ex', w') \<Longrightarrow> P i' ex' w'"
    and "\<And>i ex w. P i ex w \<Longrightarrow> i < ex_active_count ex"
  shows False
proof -
  have "c = call \<longrightarrow> \<not> P i ex w" if "poll_loop c i ex w = Some r" for c i ex w
  proof (rule poll_loop.raw_induct [where P = "\<lambda>c i ex w r. c = call \<longrightarrow> \<not> P i ex w", OF _ that])
    fix loop c i ex w r
    assume ih: "\<And>i ex w b y. loop i ex w b = Some y \<Longrightarrow> i = call \<longrightarrow> \<not> P ex w b"
      and eq: "(if i < ex_active_count ex then let (i, ex, w) = poll_slot c i ex w in loop c i ex w else Some (ex, w)) = Some r"
    obtain i' ex' w' where s: "poll_slot call i ex w = (i', ex', w')" by (metis prod_cases3)
    show "c = call \<longrightarrow> \<not> P i ex w"
    proof (intro impI notI)
      assume c: "c = call" and p: "P i ex w"
      with eq s assms(4) have "loop call i' ex' w' = Some r" by simp
      from ih [OF this] assms(3) [OF p s] show False by simp
    qed
  qed
  with assms(1,2) show False by blast
qed

text \<open>C29: A poll need not return: once a future is active that is settled when it is polled and submits a successor
  of its kind, and a slot is free for it, the loop of \<open>poll\<close> goes on for ever with the successors.\<close>

theorem executor_poll_diverges:
  assumes "(ex_step call0)\<^sup>*\<^sup>* (None, new_executor cap mem, w0) (None, ex, w)" "length mem = cap"
    and "0 < ex_active_count ex" "ex_active_count ex < cap"
  shows "executor_poll resubmit ex w = None"
proof (cases "executor_poll resubmit ex w")
  case (Some r)
  have inv: "ex_inv cap ex" using ex_reachable_inv [OF assms(1)] new_executor_inv [OF assms(2)] by simp
  have "poll_loop resubmit 0 ex w = Some r" using Some assms(3) by (simp add: executor_poll_def)
  moreover have "ex_inv cap ex \<and> 0 < ex_active_count ex \<and> 0 < ex_free_count ex"
    using inv assms(3,4) by (auto simp: ex_inv_def)
  ultimately have False
  proof (rule poll_loop_fixp [where P = "\<lambda>i ex w. ex_inv cap ex \<and> i < ex_active_count ex \<and> 0 < ex_free_count ex"])
    fix i ex w i' ex' w'
    assume "ex_inv cap ex \<and> i < ex_active_count ex \<and> 0 < ex_free_count ex" "poll_slot resubmit i ex w = (i', ex', w')"
    with resubmit_round [of cap ex i w] show "ex_inv cap ex' \<and> i' < ex_active_count ex' \<and> 0 < ex_free_count ex'" by auto
  qed simp
  then show ?thesis ..
qed simp

section \<open>Concrete executors\<close>

text \<open>An executor of two slots with one future and with two.\<close>

definition two_slots :: "nat executor" where "two_slots = new_executor 2 [0, 0]"

definition countdown_call :: "(nat, unit) caller" where
  "countdown_call t w = (if t = 0 then Resolved else Pending, t - 1, [], w)"

lemma reach_one: "(ex_step call)\<^sup>*\<^sup>* (None, two_slots, w) (None, snd (execute t two_slots), w)"
  by (rule r_into_rtranclp) (rule Submit)

lemma reach_two: "(ex_step call)\<^sup>*\<^sup>* (None, two_slots, w) (None, snd (execute u (snd (execute t two_slots))), w)"
  by (rule rtranclp.rtrancl_into_rtrancl [OF reach_one]) (rule Submit)

lemma executor_pool_partition_witness:
  "\<not> fst (execute 7 (snd (execute (1 :: nat) (snd (execute 0 two_slots)))))"
proof -
  note r = reach_two [of countdown_call "()" 1 0]
  from executor_pool_partition [OF r [unfolded two_slots_def], of 7, folded two_slots_def] show ?thesis
    by (simp add: two_slots_def new_executor_def execute_def)
qed

lemma executor_polls_each_once_witness:
  "\<exists>ex' w' calls. executor_poll (logged countdown_call) (snd (execute 1 (snd (execute 0 two_slots)))) ((), []) = Some (ex', w', calls) \<and>
     mset (map fst calls) = {#0, 1#} \<and> tasks ex' = [0]"
proof -
  let ?ex = "snd (execute 1 (snd (execute 0 two_slots)))"
  have t: "tasks ?ex = [0, 1]"
    by (simp add: tasks_def active_def two_slots_def new_executor_def execute_def numeral_2_eq_2)
  have n: "fst (snd (snd (countdown_call t w))) = []" for t w by (simp add: countdown_call_def)
  note r = reach_two [of countdown_call "()" 1 0]
  from executor_polls_each_once [where call = countdown_call, OF r [unfolded two_slots_def] _ n, folded two_slots_def] t obtain ex' w' calls where
    p: "executor_poll (logged countdown_call) ?ex ((), []) = Some (ex', w', calls)" "mset (map fst calls) = {#0, 1#}"
    by auto
  have "tasks ex' = [0]"
    using p(1) by (simp add: executor_poll_def poll_loop.simps poll_slot_def logged_def countdown_call_def submit_all_def
        two_slots_def new_executor_def execute_def numeral_2_eq_2) (auto simp: tasks_def active_def)
  with p show ?thesis by blast
qed

lemma executor_poll_diverges_witness: "executor_poll resubmit (snd (execute 1 two_slots)) () = None"
proof -
  note r = reach_one [of resubmit "()" 1]
  from executor_poll_diverges [OF r [unfolded two_slots_def], folded two_slots_def] show ?thesis
    by (simp add: two_slots_def new_executor_def execute_def)
qed

end
