(* ===== verification/Spec2Isabelle.thy ===== *)
theory Spec2Isabelle
  imports Error_Queue Timer_Properties WiFi_Lease WiFi_Properties Event_Refinement WiFi_Client_Transfer WiFi_Sockets WiFi_Udp Fast_Function Static_Function String_Hash_Map WiFi_Settings WiFi_AP WiFi_Multi Async_Combinators Async_Deferred Async_Executor
begin

text \<open>
  Verification library of the \<open>uniuno\<close> firmware (Optimal-Wifi), a C++ library for the ESP32: containers without
  heap allocation, error reporting, events, timers, futures, and a WiFi layer over ESP-IDF and lwIP.

  \<^bold>\<open>The program.\<close> \<open>include/Optimization\<close> holds the containers, function objects and shared pointers the other
  parts are built from; \<open>include/Core/Error\<close> reports, throttles, logs and queues errors; \<open>include/Events\<close>
  dispatches events to listeners; \<open>include/Timer\<close> runs callbacks from a pool of timer nodes, driven by a polled tick or
  a hardware trigger; \<open>include/Core/Async\<close> composes polled futures and runs them in an executor; \<open>lib/WiFi/src\<close> turns
  driver events into a connection state, status bits and listener calls, configures the interfaces, and gives
  access to TCP and UDP sockets. The timer groups and the event groups are kept in the hash map, timers and listeners
  in the bounded vectors; the timers report errors and dispatch expiry events; clients share sockets through
  the shared pointer; a deferred shares its result with its futures in the same way.

  \<^bold>\<open>Theories, and the code they model.\<close>

  \<^item> \<open>Prelude\<close>: the integer types of the target (\<open>unsigned long\<close> and \<open>size_t\<close> have 32 bits), hint collections,
    lemmas on lists and element loops.
  \<^item> \<open>Array_Base\<close>, \<open>Static_Array\<close>, \<open>Small_Vector\<close>: \<open>ArrayBase\<close>, \<open>StaticArray/*\<close>, \<open>SmallVector/*\<close>. A buffer is a
    list of slots with a size and a capacity; the element-wise and the block-copy versions of each operation
    are both modelled.
  \<^item> \<open>Ring_Queue\<close>: \<open>StaticQueue.h\<close>, and the locale \<open>fifo_queue\<close>, interpreted on \<open>StaticQueue\<close> and on the error queue.
  \<^item> \<open>Static_String\<close>: \<open>StaticString.h\<close>, NUL-terminated buffers.
  \<^item> \<open>Static_Hash_Map\<close>: \<open>StaticHashMap/*\<close> and \<open>HashMapBase\<close>, open addressing with backward-shift deletion, and the
    locale \<open>bounded_map\<close>, interpreted on it. \<open>String_Hash_Map\<close>: the separate specialisation for string keys.
  \<^item> \<open>Atomic_Shared_Ptr\<close>: \<open>AtomicSharedPtr.h\<close>, counted blocks of an explicit heap. \<open>Fast_Function\<close>: \<open>FastFunction/*\<close>,
    a functor in a fixed storage, as its type, size and value. \<open>Static_Function\<close>: \<open>StaticFunction.h\<close>.
  \<^item> \<open>Error_Handler\<close>, \<open>Error_Queue\<close>: \<open>ErrorHandler.h\<close>, \<open>ErrorPolicy.h\<close>, \<open>ErrorQueue.h\<close>.
  \<^item> \<open>Event_Storage\<close>, \<open>Event_Dispatcher\<close>: \<open>include/Events\<close>, the groups of listeners in the hash map, registration,
    removal and dispatch; a callback is a list of dispatcher calls that the environment chooses.
    \<open>Event_Frame\<close>, \<open>Event_Invariant\<close>, \<open>Event_Delivery\<close>, \<open>Event_Properties\<close>, \<open>Event_Refinement\<close>: the locale \<open>ev_frame\<close>
    (what a relation must satisfy to be kept by every operation and every nesting), its interpretations, and the
    properties.
  \<^item> \<open>Std_Heap\<close>: the heap algorithms of the C++ standard library that \<open>SortStrategy.h\<close> uses; the locale \<open>std_heap\<close>
    states the laws the timers rely on.
  \<^item> \<open>Timer_Core\<close>, \<open>Timer_Manager\<close>, \<open>Timer_Facade\<close>: \<open>TimerTypes.h\<close>, \<open>TimerStorage.h\<close>, \<open>TimerAsm.h\<close>;
    \<open>TimerManager.h\<close>, \<open>TimerProcessor.h\<close>; \<open>Timer.h\<close>, \<open>TimerGroupsImpl.h\<close>, \<open>TimerHandle*.h\<close>, \<open>HardwareTimer.h\<close>.
    A callback is a list of timer calls that the environment chooses.
    \<open>Timer_Invariant\<close>, \<open>Timer_Schedule\<close>, \<open>Timer_Frame\<close>, \<open>Timer_Properties\<close>: the lemmas and properties of the timers.
  \<^item> \<open>Async_Future\<close>, \<open>Async_Properties\<close>, \<open>Async_Combinators\<close>: \<open>AsyncResult.h\<close>, \<open>Future/*\<close> and the timeout and wait
    futures; a future is its cached result and what its callback captured. \<open>Async_Deferred\<close>: \<open>Deferred.h\<close> over the heap
    of the shared pointers. \<open>Async_Executor\<close>: \<open>Executor.h\<close>, the pool, the active and the free slots.
  \<^item> \<open>WiFi_Net\<close>: IPv4 arithmetic, lease range and interface configuration of \<open>WiFiGeneric.cpp\<close>, and the driver
    interface: a driver is a function from the calls made so far to an answer.
  \<^item> \<open>WiFi_Names\<close>: the enumerations, their names, and the translation of driver events.
  \<^item> \<open>WiFi_Mode\<close>, \<open>WiFi_STA\<close>, \<open>WiFi_Events\<close>: one record of all static variables; initialisation and modes
    (\<open>WiFiGeneric.cpp\<close>), station and scan (\<open>WiFiSTA.cpp\<close>, \<open>WiFiSTAConfig.cpp\<close>, \<open>WiFiScan.cpp\<close>), event queue, event
    callback and listeners (\<open>WiFiGeneric.cpp\<close>).
    \<open>WiFi_Frame\<close>, \<open>WiFi_Machine\<close>, \<open>WiFi_Status\<close>, \<open>WiFi_Reconnect\<close>, \<open>WiFi_Name_Lemmas\<close>, \<open>WiFi_Lease\<close>,
    \<open>WiFi_Properties\<close>: what operations keep (the locale \<open>structural\<close>, one interpretation for each relation), the
    step relation \<open>wifi_step\<close> with its reachable states, and the properties.
  \<^item> \<open>WiFi_Settings\<close>, \<open>WiFi_Interfaces\<close>, \<open>WiFi_AP\<close>, \<open>WiFi_Multi\<close>: the remaining settings (\<open>WiFiGeneric.cpp\<close>,
    \<open>WiFiSTAConfig.cpp\<close>), the queries, SmartConfig and the enterprise connection (\<open>WiFiSTAInfo.cpp\<close>, \<open>WiFiSTANetif.cpp\<close>,
    \<open>WiFiAPNetif.cpp\<close>), the access point (\<open>WiFiAP.cpp\<close>), and the choice among known networks (\<open>WiFiMulti.cpp\<close>).
  \<^item> \<open>Socket_Api\<close>: lwIP as a function from the log of calls to an answer. \<open>Client_Rx\<close>, \<open>WiFi_Client\<close>,
    \<open>WiFi_Client_Connect\<close>, \<open>WiFi_Client_Write\<close>, \<open>WiFi_Server\<close>: the receive buffer, the client (\<open>WiFiClient*.cpp\<close>,
    \<open>WiFiClientInternal.h\<close>) and the server (\<open>WiFiServer.cpp\<close>). \<open>WiFi_Client_Steps\<close>, \<open>WiFi_Client_Ops\<close>,
    \<open>WiFi_Client_Ops2\<close>, \<open>WiFi_Client_Owner\<close>, \<open>WiFi_Client_Transfer\<close>, \<open>WiFi_Sockets\<close>: what each operation does to the
    descriptors and handles, writing, and programs over several clients and a server.
    \<open>WiFi_Udp\<close>: \<open>WiFiUdp.cpp\<close>, \<open>WiFiUdpRx.cpp\<close>.

  \<^bold>\<open>What the lemmas show.\<close> Containers: each operation keeps a representation invariant and implements the
  abstract one (lists, bounded queues, finite maps, optional functors, counted owners). Errors: what a report counts,
  stores and forwards, the ring of the last ten entries, throttling windows, policies. Events: a dispatch calls the
  listeners that were there at its start and not removed before their turn; the dispatcher is a map from hashes to
  listeners. Timers: the pool is partitioned at every moment; timers fire in deadline order, never early, across the
  wrap of the clock; the outcome of each callback; identifiers. Futures: when chains, conjunctions, races, timeouts and
  waits settle and with what; the first settlement of a deferred reaches every future; the slots of the executor are
  partitioned, each poll calls each future once. WiFi: initialisation order, status bits, reconnection, listeners, modes,
  lease ranges, the configuration and the end of the access point, the choice of the network. Sockets: no descriptor is used
  after it was closed, none is lost, and the bytes that are read and written are those of the streams and datagrams. Some
  properties say where the code departs from its comments or from its purpose.

  \<^bold>\<open>Bounds and fuel.\<close> Most loops are structural recursion or have a proved measure. The probing loops of the hash maps
  run at most once around the table. Nested dispatches have a budget, which is proved not to matter once it is
  large enough. The loops that write, flush, poll and wait for a connection take a number of rounds, and are proved to
  return when it exceeds what the bytes or the clock allow. Two loops may not end and are partial functions: the listener
  loop of the WiFi event callback, which returns when listeners leave the registry alone, and the loop of the executor,
  which returns when the futures submit nothing, and which is proved not to return for a future that resubmits itself.
  Numbers of timers, groups and queue entries are parameters. \<open>size_t\<close> counters that would need \<open>2\<^sup>3\<^sup>2\<close> operations
  to wrap (listener numbers, for example) are natural numbers.

  \<^bold>\<open>Assumed.\<close> Hash functions, element destructors, the clock, callbacks, the driver, lwIP and \<open>cbuf\<close> (a class of the
  Arduino core) are parameters. The hypotheses on them are named definitions or stated in the theorem: \<open>mode_law\<close> (the mode that
  was set is the mode that is read), \<open>socket_law\<close> and \<open>fresh_fds\<close> (a new descriptor is none of the open ones),
  \<open>good_transfer\<close> (no more bytes are transferred than were asked for), \<open>cbuf_law\<close> (the buffer is a
  queue), \<open>clock_passes\<close> (the clock goes on while the code waits). The configuration is the default one of the ESP32 build,
  with Ethernet enabled.

  \<^bold>\<open>Not modelled.\<close> Interrupts and concurrent tasks beyond the interleaving of whole operations; memory barriers;
  log output; \<open>TimerGroup.h\<close>, which no file includes and which does
  not compile; preprocessor configuration, compile-time traits and \<open>TimerBuilder\<close>; the printing of \<open>WiFi.cpp\<close>; the demo program, tests and
  examples.
\<close>

end
